(* ===== verification/Kernel_Prelude.thy ===== *)
theory Kernel_Prelude
  imports Main "HOL-Library.Word"
begin

text \<open>
  Shared vocabulary of the development: the fixed-width integer types of
  \<^verbatim>\<open>kernel/stdint.h\<close>, the errors with which kernel code stops, sequencing of code that may
  stop, and generic facts on words and lists used by several components.
\<close>

unbundle bit_operations_syntax

named_theorems kernel_simps
named_theorems word_addr

subsection \<open>Integer types\<close>

type_synonym u8 = "8 word"
type_synonym u16 = "16 word"
type_synonym u32 = "32 word"
type_synonym u64 = "64 word"

subsection \<open>Errors\<close>

text \<open>
  \<^verbatim>\<open>Panic\<close> is a call of \<^verbatim>\<open>Debug::panic\<close> (the processor halts), \<^verbatim>\<open>Assert_Failed\<close> a failing
  \<^verbatim>\<open>ASSERT\<close> (which panics with the text of the condition), and \<^verbatim>\<open>Undefined_Behaviour\<close> the use
  of a null or never initialised pointer, after which C++ gives the program no meaning.
\<close>

datatype kerror = Panic string | Assert_Failed string | Undefined_Behaviour string

type_synonym 'a result = "kerror + 'a"

definition rbind :: "'a result \<Rightarrow> ('a \<Rightarrow> 'b result) \<Rightarrow> 'b result" where
  "rbind r f = (case r of Inl e \<Rightarrow> Inl e | Inr x \<Rightarrow> f x)"

definition assert_k :: "bool \<Rightarrow> string \<Rightarrow> 'a result \<Rightarrow> 'a result" where
  "assert_k b msg k = (if b then k else Inl (Assert_Failed msg))"

lemma rbind_simps [simp]:
  "rbind (Inl e) f = Inl e"
  "rbind (Inr x) f = f x"
  by (simp_all add: rbind_def)

lemma rbind_eq_Inr [simp]: "rbind r f = Inr y \<longleftrightarrow> (\<exists>x. r = Inr x \<and> f x = Inr y)"
  by (cases r) auto

lemma rbind_eq_Inl: "rbind r f = Inl e \<longleftrightarrow> r = Inl e \<or> (\<exists>x. r = Inr x \<and> f x = Inl e)"
  by (cases r) auto

lemma assert_k_simps [simp]:
  "assert_k True msg k = k"
  "assert_k False msg k = Inl (Assert_Failed msg)"
  by (simp_all add: assert_k_def)

lemma assert_k_eq_Inr [simp]: "assert_k b msg k = Inr y \<longleftrightarrow> b \<and> k = Inr y"
  by (simp add: assert_k_def)

text \<open>Sequencing of code that may also not return (\<open>None\<close>).\<close>

definition obind :: "'a result option \<Rightarrow> ('a \<Rightarrow> 'b result option) \<Rightarrow> 'b result option" where
  "obind r f = (case r of None \<Rightarrow> None | Some (Inl e) \<Rightarrow> Some (Inl e) | Some (Inr x) \<Rightarrow> f x)"

lemma obind_simps [simp]:
  "obind None f = None" "obind (Some (Inl e)) f = Some (Inl e)" "obind (Some (Inr x)) f = f x"
  by (simp_all add: obind_def)

lemma obind_eq_Inr [simp]: "obind r f = Some (Inr y) \<longleftrightarrow> (\<exists>x. r = Some (Inr x) \<and> f x = Some (Inr y))"
  by (auto simp: obind_def split: option.splits sum.splits)

text \<open>A loop over an explicit list of indices that stops at the first error.\<close>

fun rfold :: "('i \<Rightarrow> 's \<Rightarrow> 's result) \<Rightarrow> 'i list \<Rightarrow> 's \<Rightarrow> 's result" where
  "rfold f [] s = Inr s"
| "rfold f (i # is) s = rbind (f i s) (rfold f is)"

lemma rfold_append: "rfold f (xs @ ys) s = rbind (rfold f xs s) (rfold f ys)"
  by (induction xs arbitrary: s) (auto simp: rbind_def split: sum.splits)

lemma rfold_invariant:
  assumes "rfold f is s = Inr s'" and "P [] s"
    and "\<And>done i s s'. i \<in> set is \<Longrightarrow> P done s \<Longrightarrow> f i s = Inr s' \<Longrightarrow> P (done @ [i]) s'"
  shows "P is s'"
proof -
  have "P (done @ is) s'"
    if "rfold f is s = Inr s'" "P done s"
      "\<And>done i s s'. i \<in> set is \<Longrightarrow> P done s \<Longrightarrow> f i s = Inr s' \<Longrightarrow> P (done @ [i]) s'"
    for "done"
    using that
  proof (induction "is" arbitrary: s "done")
    case Nil
    then show ?case by simp
  next
    case (Cons i "is")
    then obtain t where t: "f i s = Inr t" "rfold f is t = Inr s'" by auto
    have "P (done @ [i]) t" using Cons.prems t(1) by simp
    then have "P ((done @ [i]) @ is) s'"
      by (rule Cons.IH [OF t(2)]) (simp add: Cons.prems(3))
    then show ?case by simp
  qed
  from this [of "[]"] assms show ?thesis by simp
qed

text \<open>Total correctness of such a loop: \<open>P\<close> holds of the indices done so far.\<close>

lemma rfold_total:
  assumes "P [] s"
    and "\<And>done i rest s. is = done @ i # rest \<Longrightarrow> P done s \<Longrightarrow> \<exists>s'. f i s = Inr s' \<and> P (done @ [i]) s'"
  shows "\<exists>s'. rfold f is s = Inr s' \<and> P is s'"
proof -
  have "\<exists>s'. rfold f rest s = Inr s' \<and> P is s'" if "is = done @ rest" "P done s" for "done" rest s
    using that
  proof (induction rest arbitrary: "done" s)
    case Nil
    then show ?case by simp
  next
    case (Cons i rest)
    obtain t where t: "f i s = Inr t" "P (done @ [i]) t" using assms(2) Cons.prems by blast
    have "\<exists>s'. rfold f rest t = Inr s' \<and> P is s'"
      using Cons.IH [of "done @ [i]" t] Cons.prems(1) t(2) by simp
    then show ?case using t(1) by simp
  qed
  from this [of "[]"] assms(1) show ?thesis by simp
qed

subsection \<open>Words\<close>

lemma unat_add_no_wrap [word_addr]:
  fixes a b :: "'a::len word"
  shows "unat a + unat b < 2 ^ LENGTH('a) \<Longrightarrow> unat (a + b) = unat a + unat b"
  by (simp add: unat_word_ariths)

lemma unat_lt_2p32: "unat (a :: u32) < 4294967296"
  using unsigned_less [of a] by simp

lemma unat_of_nat_u32 [simp]: "n < 4294967296 \<Longrightarrow> unat (of_nat n :: u32) = n"
  by (simp add: unsigned_of_nat take_bit_nat_eq_self)

lemma uint_word_of_int32: "0 \<le> x \<Longrightarrow> x < 2 ^ 32 \<Longrightarrow> uint (word_of_int x :: u32) = x"
  by (simp add: uint_word_of_int)

lemma sint_small: "unat (x :: u32) < 2 ^ 31 \<Longrightarrow> sint x = int (unat x)"
proof -
  assume "unat x < 2 ^ 31"
  then have "int (unat x) < int (2 ^ 31)" by (simp only: of_nat_less_iff)
  then have "signed_take_bit 31 (uint x) = uint x"
    by (intro signed_take_bit_int_eq_self order_trans [OF _ uint_ge_0]) simp_all
  then show ?thesis by (simp add: sint_uint)
qed

text \<open>Loop counters: the words \<open>k, \<dots>, n - 1\<close> in order.\<close>

lemma set_word_upt:
  "n \<le> 4294967296 \<Longrightarrow> (w :: u32) \<in> set (map of_nat [k..<n]) \<longleftrightarrow> k \<le> unat w \<and> unat w < n"
proof -
  assume n: "n \<le> 4294967296"
  have "w = of_nat (unat w)" by simp
  moreover have "unat (of_nat x :: u32) = x" if "x < n" for x using that n by simp
  ultimately show ?thesis by (simp only: set_map set_upt) fastforce
qed

lemma distinct_word_upt: "n \<le> 4294967296 \<Longrightarrow> distinct (map (of_nat :: nat \<Rightarrow> u32) [k..<n])"
proof -
  assume n: "n \<le> 4294967296"
  have "x = y" if "x < n" "y < n" "(of_nat x :: u32) = of_nat y" for x y
    using arg_cong [OF that(3), of unat] that(1,2) n by simp
  then show ?thesis by (simp add: distinct_map inj_on_def)
qed

lemma split_distinct:
  "xs = ys @ y # zs \<Longrightarrow> distinct xs \<Longrightarrow> y \<in> set xs \<and> y \<notin> set ys \<and> set ys \<subseteq> set xs"
  by auto

end
