(* ===== verification/Kernel_Heap.thy ===== *)
theory Kernel_Heap
  imports Kernel_Prelude
begin

text \<open>
  The kernel heap of \<^verbatim>\<open>kernel/heap.cc\<close>: one \<^verbatim>\<open>int\<close> array cut into blocks with a boundary tag at
  both ends (positive: available, negative: taken) and a doubly linked list of the available
  blocks. The state is the array, its length, its address and the head of the list. Indices and
  sizes are C \<^verbatim>\<open>int\<close>s; the invariant bounds them by the length of the array, so they never
  overflow. Request sizes are 32-bit and wrap as in the source.
\<close>

subsection \<open>State and accessors (heap.cc)\<close>

record heap =
  array :: "int \<Rightarrow> int"
  hlen :: int
  havail :: int
  hbase :: u32

definition safe :: int where
  "safe = 0"

definition habs :: "int \<Rightarrow> int" where
  "habs x = (if x < 0 then - x else x)"

definition hsize :: "heap \<Rightarrow> int \<Rightarrow> int" where
  "hsize h i = habs (array h i)"

definition headerFromFooter :: "heap \<Rightarrow> int \<Rightarrow> int" where
  "headerFromFooter h i = i - hsize h i + 1"

definition footerFromHeader :: "heap \<Rightarrow> int \<Rightarrow> int" where
  "footerFromHeader h i = i + hsize h i - 1"

definition sanity :: "heap \<Rightarrow> int \<Rightarrow> int result" where
  "sanity h i =
     (if safe \<noteq> 0 then
        if i = 0 then Inr 0
        else if i < 0 \<or> i \<ge> hlen h then Inl (Panic ''bad header index'')
        else
          let footer = footerFromHeader h i in
          if footer < 0 \<or> footer \<ge> hlen h then Inl (Panic ''bad footer index'')
          else
            let hv = array h i; fv = array h footer in
            if hv \<noteq> fv then Inl (Panic ''bad block'') else Inr i
      else Inr i)"

definition hleft :: "heap \<Rightarrow> int \<Rightarrow> int result" where
  "hleft h i = sanity h (headerFromFooter h (i - 1))"

definition hright :: "heap \<Rightarrow> int \<Rightarrow> int result" where
  "hright h i = sanity h (i + hsize h i)"

definition hnext :: "heap \<Rightarrow> int \<Rightarrow> int result" where
  "hnext h i = sanity h (array h (i + 1))"

definition hprev :: "heap \<Rightarrow> int \<Rightarrow> int result" where
  "hprev h i = sanity h (array h (i + 2))"

definition put :: "heap \<Rightarrow> int \<Rightarrow> int \<Rightarrow> heap" where
  "put h i x = h\<lparr>array := (array h)(i := x)\<rparr>"

definition setNext :: "heap \<Rightarrow> int \<Rightarrow> int \<Rightarrow> heap" where
  "setNext h i x = put h (i + 1) x"

definition setPrev :: "heap \<Rightarrow> int \<Rightarrow> int \<Rightarrow> heap" where
  "setPrev h i x = put h (i + 2) x"

definition hremove :: "heap \<Rightarrow> int \<Rightarrow> heap result" where
  "hremove h i =
     rbind (hprev h i) (\<lambda>prevIndex.
     rbind (hnext h i) (\<lambda>nextIndex.
       let h = (if prevIndex = 0 then h\<lparr>havail := nextIndex\<rparr> else setNext h prevIndex nextIndex);
           h = (if nextIndex \<noteq> 0 then setPrev h nextIndex prevIndex else h)
       in Inr h))"

definition makeAvail :: "heap \<Rightarrow> int \<Rightarrow> int \<Rightarrow> heap" where
  "makeAvail h i ints =
     (let h = put h i ints;
          h = put h (footerFromHeader h i) ints;
          h = setNext h i (havail h);
          h = setPrev h i 0;
          h = (if havail h \<noteq> 0 then setPrev h (havail h) i else h)
      in h\<lparr>havail := i\<rparr>)"

definition makeTaken :: "heap \<Rightarrow> int \<Rightarrow> int \<Rightarrow> heap" where
  "makeTaken h i ints =
     (let h = put h i (- ints) in put h (footerFromHeader h i) (- ints))"

definition isAvail :: "heap \<Rightarrow> int \<Rightarrow> bool" where
  "isAvail h i \<longleftrightarrow> array h i > 0"

definition isTaken :: "heap \<Rightarrow> int \<Rightarrow> bool" where
  "isTaken h i \<longleftrightarrow> array h i < 0"

subsection \<open>malloc and free (heap.cc)\<close>

text \<open>
  The search of \<^verbatim>\<open>malloc\<close> follows the list until it has seen 20 blocks that fit. On a cyclic
  list it need not end, which is the value \<open>None\<close>.
\<close>

partial_function (option) find_fit :: "heap \<Rightarrow> int \<Rightarrow> int \<Rightarrow> int \<Rightarrow> int \<Rightarrow> int \<Rightarrow> (int \<times> int) result option" where
  "find_fit h ints p mx it countDown =
     (if p = 0 then Some (Inr (mx, it))
      else if \<not> isAvail h p then Some (Inl (Panic ''block is not available in malloc''))
      else
        let sz = hsize h p;
            fits = sz \<ge> ints;
            best = (if fits \<and> sz < mx then (sz, p) else (mx, it));
            cd = (if fits then countDown - 1 else countDown)
        in if fits \<and> cd = 0 then Some (Inr best)
           else case hnext h p of
               Inl e \<Rightarrow> Some (Inl e)
             | Inr q \<Rightarrow> find_fit h ints q (fst best) (snd best) cd)"

text \<open>The number of array cells a request takes: \<^verbatim>\<open>size_t\<close> arithmetic, then a C \<^verbatim>\<open>int\<close>.\<close>

definition request_ints :: "u32 \<Rightarrow> int" where
  "request_ints bytes = (let ints = uint ((bytes + 3) div 4 + 2) in if ints < 4 then 4 else ints)"

definition cell_ptr :: "heap \<Rightarrow> int \<Rightarrow> u32" where
  "cell_ptr h i = hbase h + 4 * of_int i"

definition take_block :: "heap \<Rightarrow> int \<Rightarrow> int \<Rightarrow> int \<Rightarrow> heap result" where
  "take_block h it mx ints =
     rbind (hremove h it) (\<lambda>h.
       let extra = mx - ints in
       if extra \<ge> 4 then Inr (makeAvail (makeTaken h it ints) (it + ints) extra)
       else Inr (makeTaken h it mx))"

definition malloc :: "heap \<Rightarrow> u32 \<Rightarrow> (heap \<times> u32) result option" where
  "malloc h bytes =
     (if bytes = 0 then Some (Inr (h, hbase h))
      else
        let ints = request_ints bytes in
        map_option (\<lambda>r. rbind r (\<lambda>(mx, it).
            if it \<noteq> 0 then rbind (take_block h it mx ints) (\<lambda>h. Inr (h, cell_ptr h (it + 1)))
            else Inr (h, 0)))
          (find_fit h ints (havail h) 0x7FFFFFFF 0 20))"

definition free_index :: "heap \<Rightarrow> u32 \<Rightarrow> int" where
  "free_index h p = uint ((p - hbase h) div 4) - 1"

definition free_block :: "heap \<Rightarrow> int \<Rightarrow> heap result" where
  "free_block h idx =
     rbind (sanity h idx) (\<lambda>_.
     if \<not> isTaken h idx then Inl (Panic ''freeing free block'')
     else
       let sz = hsize h idx in
       rbind (hleft h idx) (\<lambda>leftIndex.
       rbind (hright h idx) (\<lambda>rightIndex.
       rbind
         (if isAvail h leftIndex
          then rbind (hremove h leftIndex) (\<lambda>h. Inr (h, leftIndex, sz + hsize h leftIndex))
          else Inr (h, idx, sz))
         (\<lambda>(h, idx, sz).
       rbind
         (if isAvail h rightIndex
          then rbind (hremove h rightIndex) (\<lambda>h. Inr (h, sz + hsize h rightIndex))
          else Inr (h, sz))
         (\<lambda>(h, sz). Inr (makeAvail h idx sz))))))"

definition hfree :: "heap \<Rightarrow> u32 \<Rightarrow> heap result" where
  "hfree h p = (if p = 0 then Inr h else if p = hbase h then Inr h else free_block h (free_index h p))"

text \<open>
  \<^verbatim>\<open>heapInit\<close> lays the array out and then allocates the heap lock from the heap itself; the size
  of a \<^verbatim>\<open>BlockingLock\<close> is chosen by the compiler and is an argument here.
\<close>

definition heap_layout :: "heap \<Rightarrow> u32 \<Rightarrow> u32 \<Rightarrow> heap" where
  "heap_layout h base bytes =
     (let n = uint (bytes div 4);
          h = h\<lparr>hbase := base, hlen := n\<rparr>;
          h = makeTaken h 0 2;
          h = makeAvail h 2 (n - 4)
      in makeTaken h (n - 2) 2)"

definition operator_new :: "heap \<Rightarrow> u32 \<Rightarrow> (heap \<times> u32) result option" where
  "operator_new h sz =
     map_option (\<lambda>r. rbind r (\<lambda>(h, p). if p = 0 then Inl (Panic ''out of memory'') else Inr (h, p)))
       (malloc h sz)"

definition heapInit :: "heap \<Rightarrow> u32 \<Rightarrow> u32 \<Rightarrow> u32 \<Rightarrow> (heap \<times> u32) result option" where
  "heapInit h base bytes lock_size = operator_new (heap_layout h base bytes) lock_size"

definition operator_delete :: "heap \<Rightarrow> u32 \<Rightarrow> heap result" where
  "operator_delete h p = hfree h p"

subsection \<open>Blocks and the free list\<close>

text \<open>A layout is the list of blocks in address order: size and whether it is taken.\<close>

type_synonym layout = "(int \<times> bool) list"

abbreviation tag :: "int \<Rightarrow> bool \<Rightarrow> int" where
  "tag n t \<equiv> (if t then - n else n)"

fun tiled :: "(int \<Rightarrow> int) \<Rightarrow> int \<Rightarrow> layout \<Rightarrow> int \<Rightarrow> bool" where
  "tiled a i [] j \<longleftrightarrow> i = j"
| "tiled a i ((n, t) # bs) j \<longleftrightarrow>
     n \<ge> 2 \<and> a i = tag n t \<and> a (i + n - 1) = tag n t \<and> tiled a (i + n) bs j"

definition bsum :: "layout \<Rightarrow> int" where
  "bsum bs = sum_list (map fst bs)"

fun free_starts :: "int \<Rightarrow> layout \<Rightarrow> int set" where
  "free_starts i [] = {}"
| "free_starts i ((n, t) # bs) = (if t then {} else {i}) \<union> free_starts (i + n) bs"

fun coalesced :: "layout \<Rightarrow> bool" where
  "coalesced ((n, t) # (k, u) # bs) \<longleftrightarrow> (t \<or> u) \<and> coalesced ((k, u) # bs)"
| "coalesced _ \<longleftrightarrow> True"

primrec dll :: "(int \<Rightarrow> int) \<Rightarrow> int \<Rightarrow> int \<Rightarrow> int list \<Rightarrow> bool" where
  "dll a prv p [] \<longleftrightarrow> p = 0"
| "dll a prv p (f # fs) \<longleftrightarrow> p = f \<and> f \<noteq> 0 \<and> a (f + 2) = prv \<and> dll a f (a (f + 1)) fs"

definition heap_inv :: "heap \<Rightarrow> layout \<Rightarrow> int list \<Rightarrow> bool" where
  "heap_inv h mid fs \<longleftrightarrow>
     (let bs = (2, True) # mid @ [(2, True)] in
      (\<forall>(n, t) \<in> set mid. 4 \<le> n) \<and> tiled (array h) 0 bs (hlen h) \<and> coalesced bs \<and>
      dll (array h) 0 (havail h) fs \<and> distinct fs \<and> set fs = free_starts 0 bs \<and>
      0 < uint (hbase h) \<and> uint (hbase h) + 4 * hlen h < 2 ^ 32)"

end
