(* ===== verification/Heap_Correctness.thy ===== *)
theory Heap_Correctness
  imports Kernel_Heap
begin

text \<open>
  Correctness of \<^verbatim>\<open>malloc\<close> and \<^verbatim>\<open>free\<close>. The proofs follow the way the code works: a block taken
  off the free list leaves a \<^emph>\<open>hole\<close> in the layout, holes are merged with free neighbours, split,
  and closed again as a taken or an available block. Each of these steps is one lemma.
\<close>

subsection \<open>Accessors with the sanity checks switched off\<close>

lemma sanity_off [simp]: "sanity h i = Inr i"
  by (simp add: sanity_def safe_def)

lemma accessors [simp]:
  "hleft h i = Inr (headerFromFooter h (i - 1))"
  "hright h i = Inr (i + hsize h i)"
  "hnext h i = Inr (array h (i + 1))"
  "hprev h i = Inr (array h (i + 2))"
  by (simp_all add: hleft_def hright_def hnext_def hprev_def)

lemma put_simps [simp]:
  "array (put h i x) = (array h)(i := x)" "hlen (put h i x) = hlen h"
  "havail (put h i x) = havail h" "hbase (put h i x) = hbase h"
  by (simp_all add: put_def)

lemmas heap_writes = setNext_def setPrev_def

subsection \<open>Doubly linked lists\<close>

definition sep4 :: "int set \<Rightarrow> bool" where
  "sep4 S \<longleftrightarrow> (\<forall>f \<in> S. \<forall>g \<in> S. f \<noteq> g \<longrightarrow> 4 \<le> \<bar>f - g\<bar>)"

lemma sep4D: "sep4 S \<Longrightarrow> f \<in> S \<Longrightarrow> g \<in> S \<Longrightarrow> f \<noteq> g \<Longrightarrow> f + 1 \<noteq> g + 2 \<and> f + 2 \<noteq> g + 1"
  unfolding sep4_def by fastforce

lemma sep4_subset: "sep4 S \<Longrightarrow> T \<subseteq> S \<Longrightarrow> sep4 T"
  unfolding sep4_def by blast

lemma sep4_union:
  assumes "sep4 S" "sep4 T" "\<And>f g. f \<in> S \<Longrightarrow> g \<in> T \<Longrightarrow> 4 \<le> g - f"
  shows "sep4 (S \<union> T)"
  unfolding sep4_def
proof (intro ballI impI)
  fix f g assume fg: "f \<in> S \<union> T" "g \<in> S \<union> T" "f \<noteq> g"
  then consider "f \<in> S" "g \<in> S" | "f \<in> T" "g \<in> T" | "f \<in> S" "g \<in> T" | "g \<in> S" "f \<in> T" by blast
  then show "4 \<le> \<bar>f - g\<bar>"
  proof cases
    case 1
    then show ?thesis using assms(1) fg(3) by (simp add: sep4_def)
  next
    case 2
    then show ?thesis using assms(2) fg(3) by (simp add: sep4_def)
  next
    case 3
    then show ?thesis using assms(3) [OF 3] by linarith
  next
    case 4
    then show ?thesis using assms(3) [OF 4] by linarith
  qed
qed

lemma dll_frame:
  assumes "dll a prv p fs" "\<And>f. f \<in> set fs \<Longrightarrow> a' (f + 1) = a (f + 1) \<and> a' (f + 2) = a (f + 2)"
  shows "dll a' prv p fs"
  using assms by (induction fs arbitrary: prv p) auto

lemma dll_nonzero: "dll a prv p fs \<Longrightarrow> 0 \<notin> set fs"
  by (induction fs arbitrary: prv p) auto

lemma dll_next_in: "dll a prv p (xs @ f # ys) \<Longrightarrow> a (f + 1) \<noteq> 0 \<Longrightarrow> a (f + 1) \<in> set ys"
proof (induction xs arbitrary: prv p)
  case Nil
  then show ?case by (cases ys) auto
qed auto

lemma dll_prev_of: "dll a prv p (xs @ g # f # ys) \<Longrightarrow> a (f + 2) = g"
  by (induction xs arbitrary: prv p) auto

lemma dll_set_prev:
  assumes "dll a q p fs" "distinct fs" "sep4 (set fs)"
  shows "dll (if p = 0 then a else a(p + 2 := r)) r p fs"
proof (cases fs)
  case Nil
  then show ?thesis using assms by simp
next
  case (Cons f gs)
  have f: "p = f" "f \<noteq> 0" "dll a f (a (f + 1)) gs" using assms(1) Cons by simp_all
  have "g + 1 \<noteq> f + 2 \<and> g + 2 \<noteq> f + 2" if "g \<in> set gs" for g
    using sep4D [OF assms(3), of f g] assms(2) that Cons by auto
  then have "dll (a(f + 2 := r)) f (a (f + 1)) gs"
    by (intro dll_frame [OF f(3)]) (metis fun_upd_other)
  then show ?thesis using f(1,2) Cons by simp
qed

lemma dll_remove_middle:
  assumes "dll a prv p (xs @ g # f # ys)" "distinct (xs @ g # f # ys)" "sep4 (set (xs @ g # f # ys))"
  defines "ni \<equiv> a (f + 1)"
  defines "a1 \<equiv> a(g + 1 := ni)"
  shows "dll (if ni = 0 then a1 else a1(ni + 2 := g)) prv p (xs @ g # ys)"
  using assms(1-3)
proof (induction xs arbitrary: prv p)
  case Nil
  have g: "a (g + 2) = prv" "g \<noteq> 0" "p = g" and ys: "dll a f ni ys" "distinct ys"
    using Nil.prems by (auto simp: ni_def)
  have sep: "sep4 (insert g (set ys))" using Nil.prems(3) by (rule sep4_subset) auto
  have gy: "h + 1 \<noteq> g + 1 \<and> h + 2 \<noteq> g + 1 \<and> h + 2 \<noteq> g + 2" if "h \<in> set ys" for h
    using sep4D [OF sep, of h g] that Nil.prems(2) by auto
  then have "dll a1 f ni ys" unfolding a1_def by (intro dll_frame [OF ys(1)]) (metis fun_upd_other)
  then have "dll (if ni = 0 then a1 else a1(ni + 2 := g)) g ni ys"
    using ys(2) sep by (intro dll_set_prev) (auto elim: sep4_subset)
  moreover have "ni \<noteq> 0 \<Longrightarrow> ni \<in> set ys" using ys(1) by (cases ys) auto
  ultimately show ?case using g gy by (auto simp: a1_def)
next
  case (Cons x xs)
  have x: "p = x" "x \<noteq> 0" "a (x + 2) = prv" "dll a x (a (x + 1)) (xs @ g # f # ys)"
    using Cons.prems(1) by auto
  have IH: "dll (if ni = 0 then a1 else a1(ni + 2 := g)) x (a (x + 1)) (xs @ g # ys)"
    using Cons.prems x(4) by (intro Cons.IH) (auto elim: sep4_subset)
  have ni: "ni \<in> set ys" if "ni \<noteq> 0"
    using dll_next_in [of a x "a (x + 1)" "xs @ [g]" f ys] x(4) that by (simp add: ni_def)
  have "x + 1 \<noteq> g + 1 \<and> x + 2 \<noteq> g + 1"
    using sep4D [OF Cons.prems(3), of x g] Cons.prems(2) by auto
  moreover have "x + 1 \<noteq> ni + 2 \<and> x + 2 \<noteq> ni + 2" if "ni \<noteq> 0"
    using sep4D [OF Cons.prems(3), of x ni] Cons.prems(2) ni [OF that] by auto
  ultimately show ?case using IH x by (auto simp: a1_def)
qed

subsection \<open>Taking a block off the free list\<close>

definition links :: "int set \<Rightarrow> int set" where
  "links S = (\<lambda>f. f + 1) ` S \<union> (\<lambda>f. f + 2) ` S"

lemma hremove_spec:
  assumes d: "dll (array h) 0 (havail h) fs" "distinct fs" "sep4 (set fs)" and f: "f \<in> set fs"
  obtains h' where "hremove h f = Inr h'" "dll (array h') 0 (havail h') (remove1 f fs)"
    "\<And>k. k \<notin> links (set fs - {f}) \<Longrightarrow> array h' k = array h k" "hlen h' = hlen h" "hbase h' = hbase h"
proof -
  obtain xs ys where fs: "fs = xs @ f # ys" "f \<notin> set xs" using f by (meson split_list_first)
  have rem: "remove1 f fs = xs @ ys" using fs by (simp add: remove1_append)
  let ?ni = "array h (f + 1)"
  have ni: "?ni \<noteq> 0 \<Longrightarrow> ?ni \<in> set ys" using dll_next_in d(1) fs(1) by blast
  have nf: "f \<notin> set ys" using d(2) fs(1) by simp
  show ?thesis
  proof (cases xs rule: rev_cases)
    case Nil
    have p0: "array h (f + 2) = 0" and ys: "dll (array h) f ?ni ys" using d(1) fs(1) Nil by auto
    let ?h = "if ?ni \<noteq> 0 then setPrev (h\<lparr>havail := ?ni\<rparr>) ?ni 0 else h\<lparr>havail := ?ni\<rparr>"
    have "hremove h f = Inr ?h" using p0 by (simp add: hremove_def Let_def)
    moreover have "sep4 (set ys)" using d(3) by (rule sep4_subset) (auto simp: fs(1))
    then have "dll (if ?ni = 0 then array h else (array h)(?ni + 2 := 0)) 0 ?ni ys"
      using dll_set_prev [OF ys, of 0] d(2) fs(1) by simp
    then have "dll (array ?h) 0 (havail ?h) (remove1 f fs)"
      using Nil rem by (simp add: heap_writes split: if_splits)
    moreover have "array ?h k = array h k" if "k \<notin> links (set fs - {f})" for k
      using that ni nf fs(1) Nil by (auto simp: heap_writes links_def)
    ultimately show ?thesis using that [of ?h] by (simp add: heap_writes)
  next
    case (snoc zs g)
    have fs': "fs = zs @ g # f # ys" using fs(1) snoc by simp
    have pg: "array h (f + 2) = g" using dll_prev_of d(1) fs' by blast
    have "g \<noteq> 0" using dll_nonzero [OF d(1)] fs' by auto
    let ?h1 = "setNext h g ?ni"
    let ?h = "if ?ni \<noteq> 0 then setPrev ?h1 ?ni g else ?h1"
    have "hremove h f = Inr ?h" using pg \<open>g \<noteq> 0\<close> by (simp add: hremove_def Let_def)
    moreover have "dll (array ?h) 0 (havail ?h) (remove1 f fs)"
      using dll_remove_middle [OF d [unfolded fs']] rem snoc by (auto simp: heap_writes split: if_splits)
    moreover have "array ?h k = array h k" if "k \<notin> links (set fs - {f})" for k
      using that ni nf fs' fs(2) snoc by (auto simp: heap_writes links_def)
    ultimately show ?thesis using that [of ?h] by (simp add: heap_writes)
  qed
qed

subsection \<open>Layouts\<close>

definition wide :: "layout \<Rightarrow> bool" where
  "wide bs \<longleftrightarrow> (\<forall>(n, t) \<in> set bs. 2 \<le> n \<and> (\<not> t \<longrightarrow> 4 \<le> n))"

lemma wide_simps [simp]:
  "wide []" "wide ((n, t) # bs) \<longleftrightarrow> 2 \<le> n \<and> (\<not> t \<longrightarrow> 4 \<le> n) \<and> wide bs"
  "wide (xs @ ys) \<longleftrightarrow> wide xs \<and> wide ys"
  by (auto simp: wide_def)

lemma wide4: "\<forall>(n, t) \<in> set bs. 4 \<le> n \<Longrightarrow> wide bs"
  by (fastforce simp: wide_def)

lemma bsum_simps [simp]:
  "bsum [] = 0" "bsum (b # bs) = fst b + bsum bs" "bsum (xs @ ys) = bsum xs + bsum ys"
  by (simp_all add: bsum_def)

lemma bsum_nonneg: "wide bs \<Longrightarrow> 0 \<le> bsum bs"
  by (induction bs) auto

lemma tiled_end: "tiled a i bs j \<Longrightarrow> j = i + bsum bs"
  by (induction a i bs j rule: tiled.induct) auto

lemma tiled_append:
  "tiled a i (xs @ ys) k \<longleftrightarrow> tiled a i xs (i + bsum xs) \<and> tiled a (i + bsum xs) ys k"
  by (induction a i xs k rule: tiled.induct) (auto simp: add.assoc)

lemma free_starts_append: "free_starts i (xs @ ys) = free_starts i xs \<union> free_starts (i + bsum xs) ys"
  by (induction i xs rule: free_starts.induct) (auto simp: add.assoc)

text \<open>The cells of a layout: its tags, the link cells of its free blocks, its taken payload.\<close>

fun tags :: "int \<Rightarrow> layout \<Rightarrow> int set" where
  "tags i [] = {}"
| "tags i ((n, t) # bs) = {i, i + n - 1} \<union> tags (i + n) bs"

fun payload :: "int \<Rightarrow> layout \<Rightarrow> int set" where
  "payload i [] = {}"
| "payload i ((n, t) # bs) = (if t then {i + 1..i + n - 2} else {}) \<union> payload (i + n) bs"

lemma payload_append: "payload i (xs @ ys) = payload i xs \<union> payload (i + bsum xs) ys"
  by (induction i xs rule: payload.induct) (auto simp: add.assoc)

lemma cells_range:
  "wide bs \<Longrightarrow> tags i bs \<subseteq> {i..<i + bsum bs}"
  "wide bs \<Longrightarrow> payload i bs \<subseteq> {i..<i + bsum bs}"
  "wide bs \<Longrightarrow> f \<in> free_starts i bs \<Longrightarrow> i \<le> f \<and> f + 4 \<le> i + bsum bs"
proof -
  show "wide bs \<Longrightarrow> tags i bs \<subseteq> {i..<i + bsum bs}"
    by (induction i bs rule: tags.induct) (auto dest: bsum_nonneg subsetD)
  show "wide bs \<Longrightarrow> payload i bs \<subseteq> {i..<i + bsum bs}"
    by (induction i bs rule: payload.induct) (auto dest: bsum_nonneg subsetD split: if_splits)
  show "wide bs \<Longrightarrow> f \<in> free_starts i bs \<Longrightarrow> i \<le> f \<and> f + 4 \<le> i + bsum bs"
    by (induction i bs rule: free_starts.induct) (auto dest: bsum_nonneg split: if_splits)
qed

lemma links_range: "wide bs \<Longrightarrow> k \<in> links (free_starts i bs) \<Longrightarrow> i < k \<and> k < i + bsum bs"
  using cells_range(3) by (fastforce simp: links_def)

lemma links_disjoint:
  "wide bs \<Longrightarrow> links (free_starts i bs) \<inter> (tags i bs \<union> payload i bs) = {}"
proof (induction i bs rule: tags.induct)
  case (1 i)
  then show ?case by (simp add: links_def)
next
  case (2 i n t bs)
  then have w: "wide bs" "2 \<le> n" "\<not> t \<longrightarrow> 4 \<le> n" by auto
  have IH: "links (free_starts (i + n) bs) \<inter> (tags (i + n) bs \<union> payload (i + n) bs) = {}"
    using 2 by simp
  have hi: "i + n < k" if "k \<in> links (free_starts (i + n) bs)" for k
    using links_range [OF w(1) that] by simp
  have lo: "i + n \<le> k" if "k \<in> tags (i + n) bs \<union> payload (i + n) bs" for k
    using that cells_range(1,2) [OF w(1), of "i + n"] by auto
  have "links (free_starts i ((n, t) # bs)) = (if t then {} else {i + 1, i + 2}) \<union> links (free_starts (i + n) bs)"
    by (auto simp: links_def)
  moreover have "{i, i + n - 1} \<inter> links (free_starts (i + n) bs) = {}" using hi w by fastforce
  moreover have "{i + 1..i + n - 2} \<inter> links (free_starts (i + n) bs) = {}" using hi by fastforce
  moreover have "{i + 1, i + 2} \<inter> (tags (i + n) bs \<union> payload (i + n) bs) = {}" if "\<not> t"
    using lo w that by fastforce
  moreover have "{i + 1, i + 2} \<inter> {i, i + n - 1} = {}" if "\<not> t" using w that by auto
  ultimately show ?case using IH by (auto split: if_splits)
qed

lemma tiled_frame:
  assumes "tiled a i bs j" "\<And>k. k \<in> tags i bs \<Longrightarrow> a' k = a k"
  shows "tiled a' i bs j"
  using assms by (induction a i bs j rule: tiled.induct) auto

lemma free_starts_sep: "wide bs \<Longrightarrow> sep4 (free_starts i bs)"
proof (induction i bs rule: free_starts.induct)
  case (1 i)
  then show ?case by (simp add: sep4_def)
next
  case (2 i n t bs)
  then have "sep4 (free_starts (i + n) bs)" "wide bs" "\<not> t \<longrightarrow> 4 \<le> n" by auto
  then show ?case using cells_range(3) [OF \<open>wide bs\<close>, of _ "i + n"]
    by (fastforce simp: sep4_def)
qed

lemma free_start_size:
  "tiled a i bs j \<Longrightarrow> f \<in> free_starts i bs \<Longrightarrow> \<exists>xs n ys. bs = xs @ (n, False) # ys \<and> f = i + bsum xs \<and> a f = n"
proof (induction a i bs j rule: tiled.induct)
  case (1 a i j)
  then show ?case by simp
next
  case (2 a i n t bs j)
  show ?case
  proof (cases "\<not> t \<and> f = i")
    case True
    then show ?thesis using 2 by (intro exI [of _ "[]"]) auto
  next
    case False
    then have "f \<in> free_starts (i + n) bs" using 2 by (auto split: if_splits)
    then obtain xs m ys where "bs = xs @ (m, False) # ys" "f = i + n + bsum xs" "a f = m"
      using 2 by auto
    then show ?thesis by (intro exI [of _ "(n, t) # xs"]) auto
  qed
qed

subsection \<open>Holes\<close>

text \<open>
  \<open>heap_hole h xs n ys fs\<close>: the \<open>n\<close> cells after the blocks \<open>xs\<close> belong to no block, the other
  blocks are in order, and \<open>fs\<close> lists exactly the free ones among them.
\<close>

definition heap_hole :: "heap \<Rightarrow> layout \<Rightarrow> int \<Rightarrow> layout \<Rightarrow> int list \<Rightarrow> bool" where
  "heap_hole h xs n ys fs \<longleftrightarrow>
     wide xs \<and> wide ys \<and> 2 \<le> n \<and> 0 < bsum xs \<and>
     tiled (array h) 0 xs (bsum xs) \<and> tiled (array h) (bsum xs + n) ys (hlen h) \<and>
     dll (array h) 0 (havail h) fs \<and> distinct fs \<and>
     set fs = free_starts 0 xs \<union> free_starts (bsum xs + n) ys"

definition heap_full :: "heap \<Rightarrow> layout \<Rightarrow> int list \<Rightarrow> bool" where
  "heap_full h bs fs \<longleftrightarrow>
     wide bs \<and> tiled (array h) 0 bs (hlen h) \<and> dll (array h) 0 (havail h) fs \<and> distinct fs \<and>
     set fs = free_starts 0 bs"

definition hole_cells :: "layout \<Rightarrow> int \<Rightarrow> layout \<Rightarrow> int set" where
  "hole_cells xs n ys = payload 0 xs \<union> payload (bsum xs + n) ys"

abbreviation agree :: "int set \<Rightarrow> heap \<Rightarrow> heap \<Rightarrow> bool" where
  "agree K h h' \<equiv> (\<forall>k \<in> K. array h' k = array h k)"

lemma hole_regions:
  assumes "heap_hole h xs n ys fs"
  defines "i \<equiv> bsum xs"
  shows "tags 0 xs \<union> payload 0 xs \<subseteq> {0..<i}" "tags (i + n) ys \<union> payload (i + n) ys \<subseteq> {i + n..}"
    "links (set fs) \<subseteq> {0..<i} \<union> {i + n..}" "sep4 (set fs)"
    "links (set fs) \<inter> (tags 0 xs \<union> payload 0 xs \<union> tags (i + n) ys \<union> payload (i + n) ys) = {}"
proof -
  have w: "wide xs" "wide ys" and n: "2 \<le> n" and fs: "set fs = free_starts 0 xs \<union> free_starts (i + n) ys"
    using assms by (simp_all add: heap_hole_def)
  show t: "tags 0 xs \<union> payload 0 xs \<subseteq> {0..<i}" "tags (i + n) ys \<union> payload (i + n) ys \<subseteq> {i + n..}"
    using cells_range(1,2) [OF w(1), of 0] cells_range(1,2) [OF w(2), of "i + n"] by (auto simp: i_def)
  have l: "links (set fs) = links (free_starts 0 xs) \<union> links (free_starts (i + n) ys)"
    by (auto simp: fs links_def)
  have lx: "links (free_starts 0 xs) \<subseteq> {0..<i}" and ly: "links (free_starts (i + n) ys) \<subseteq> {i + n..}"
    using links_range [OF w(1), of _ 0] links_range [OF w(2), of _ "i + n"] by (fastforce simp: i_def)+
  show "links (set fs) \<subseteq> {0..<i} \<union> {i + n..}" using lx ly l by blast
  show "links (set fs) \<inter> (tags 0 xs \<union> payload 0 xs \<union> tags (i + n) ys \<union> payload (i + n) ys) = {}"
    using links_disjoint [OF w(1), of 0] links_disjoint [OF w(2), of "i + n"] t lx ly n l by fastforce
  have "4 \<le> g - f" if "f \<in> free_starts 0 xs" "g \<in> free_starts (i + n) ys" for f g
    using cells_range(3) [OF w(1) that(1)] cells_range(3) [OF w(2) that(2)] n by (simp add: i_def)
  then show "sep4 (set fs)"
    unfolding fs by (intro sep4_union free_starts_sep w)
qed

text \<open>What the steps below write: cells of the hole, and links of blocks on the list.\<close>

lemma hole_keeps:
  assumes hole: "heap_hole h xs n ys fs"
    and w: "\<And>k. k \<notin> {bsum xs..<bsum xs + n} \<Longrightarrow> k \<notin> links (set fs) \<Longrightarrow> array h' k = array h k"
  shows "tiled (array h') 0 xs (bsum xs)" "tiled (array h') (bsum xs + n) ys (hlen h)"
    "agree (hole_cells xs n ys) h h'"
proof -
  note r = hole_regions [OF hole]
  have same: "array h' k = array h k" if "k \<in> tags 0 xs \<union> payload 0 xs \<union> tags (bsum xs + n) ys \<union> payload (bsum xs + n) ys" for k
    using w [of k] r(1,2,5) that by fastforce
  show "tiled (array h') 0 xs (bsum xs)" "tiled (array h') (bsum xs + n) ys (hlen h)"
    using hole same by (auto simp: heap_hole_def intro: tiled_frame)
  show "agree (hole_cells xs n ys) h h'" using same by (auto simp: hole_cells_def)
qed

lemma close_taken:
  assumes hole: "heap_hole h xs n ys fs"
  shows "heap_full (makeTaken h (bsum xs) n) (xs @ (n, True) # ys) fs \<and>
    agree (hole_cells xs n ys) h (makeTaken h (bsum xs) n)"
proof -
  let ?h = "makeTaken h (bsum xs) n"
  have n: "2 \<le> n" using hole by (simp add: heap_hole_def)
  have a: "array ?h = (array h)(bsum xs := - n, bsum xs + n - 1 := - n)" "hlen ?h = hlen h" "havail ?h = havail h"
    using n by (simp_all add: makeTaken_def Let_def footerFromHeader_def hsize_def habs_def)
  have out: "array ?h k = array h k" if "k \<notin> {bsum xs..<bsum xs + n}" for k
    using that n by (auto simp: a)
  note k = hole_keeps [OF hole out]
  have "dll (array ?h) 0 (havail h) fs"
  proof (rule dll_frame)
    show "dll (array h) 0 (havail h) fs" using hole by (simp add: heap_hole_def)
    fix f assume "f \<in> set fs"
    then have "f + 1 \<in> links (set fs)" "f + 2 \<in> links (set fs)" by (auto simp: links_def)
    then show "array ?h (f + 1) = array h (f + 1) \<and> array ?h (f + 2) = array h (f + 2)"
      using hole_regions(3) [OF hole] by (auto intro!: out)
  qed
  then show ?thesis using k hole n
    by (auto simp: heap_full_def heap_hole_def a tiled_append free_starts_append)
qed

lemma close_avail:
  assumes hole: "heap_hole h xs n ys fs" and n: "4 \<le> n"
  shows "heap_full (makeAvail h (bsum xs) n) (xs @ (n, False) # ys) (bsum xs # fs) \<and>
    agree (hole_cells xs n ys) h (makeAvail h (bsum xs) n)"
proof -
  let ?i = "bsum xs" and ?h = "makeAvail h (bsum xs) n" and ?q = "havail h"
  let ?a1 = "(array h)(?i := n, ?i + n - 1 := n, ?i + 1 := ?q, ?i + 2 := 0)"
  have a: "array ?h = (if ?q = 0 then ?a1 else ?a1(?q + 2 := ?i))" "hlen ?h = hlen h" "havail ?h = ?i"
    using n by (simp_all add: makeAvail_def Let_def footerFromHeader_def hsize_def habs_def heap_writes)
  note r = hole_regions [OF hole]
  have q: "?q \<in> set fs" if "?q \<noteq> 0" using hole that by (cases fs) (auto simp: heap_hole_def)
  then have ql: "?q + 2 \<in> links (set fs)" if "?q \<noteq> 0" using that by (auto simp: links_def)
  have out: "array ?h k = array h k" if "k \<notin> {?i..<?i + n}" "k \<notin> links (set fs)" for k
    using that n ql by (auto simp: a)
  note k = hole_keeps [OF hole out]
  have fl: "f + 1 \<notin> {?i..<?i + n} \<and> f + 2 \<notin> {?i..<?i + n}" if "f \<in> set fs" for f
  proof -
    have "f + 1 \<in> links (set fs)" "f + 2 \<in> links (set fs)" using that by (auto simp: links_def)
    then show ?thesis using r(3) by auto
  qed
  have "dll ?a1 0 ?q fs"
  proof (rule dll_frame)
    show "dll (array h) 0 ?q fs" using hole by (simp add: heap_hole_def)
    fix f assume "f \<in> set fs"
    from fl [OF this] n show "?a1 (f + 1) = array h (f + 1) \<and> ?a1 (f + 2) = array h (f + 2)" by auto
  qed
  then have tl: "dll (array ?h) ?i ?q fs"
    using dll_set_prev [of ?a1 0 ?q fs ?i] hole r(4) unfolding a(1) by (simp add: heap_hole_def)
  have "?q + 2 \<notin> {?i..<?i + n}" if "?q \<noteq> 0" using fl q that by blast
  then have cells: "array ?h ?i = n" "array ?h (?i + n - 1) = n" "array ?h (?i + 1) = ?q" "array ?h (?i + 2) = 0"
    using n by (cases "?q = 0"; auto simp: a)+
  have "?i \<notin> set fs" using fl [of ?i] n by auto
  moreover have "?i \<noteq> 0" using hole by (simp add: heap_hole_def)
  ultimately show ?thesis using k hole n tl cells
    by (auto simp: heap_full_def heap_hole_def a(2,3) tiled_append free_starts_append)
qed

lemma split_hole:
  assumes hole: "heap_hole h xs n ys fs" and k: "2 \<le> k" "k + 2 \<le> n"
  shows "heap_hole (makeTaken h (bsum xs) k) (xs @ [(k, True)]) (n - k) ys fs \<and>
    agree (hole_cells xs n ys) h (makeTaken h (bsum xs) k)"
proof -
  let ?h = "makeTaken h (bsum xs) k"
  have a: "array ?h = (array h)(bsum xs := - k, bsum xs + k - 1 := - k)" "hlen ?h = hlen h" "havail ?h = havail h"
    using k by (simp_all add: makeTaken_def Let_def footerFromHeader_def hsize_def habs_def)
  have out: "array ?h j = array h j" if "j \<notin> {bsum xs..<bsum xs + n}" for j
    using that k by (auto simp: a)
  note kp = hole_keeps [OF hole out]
  have "dll (array ?h) 0 (havail h) fs"
  proof (rule dll_frame)
    show "dll (array h) 0 (havail h) fs" using hole by (simp add: heap_hole_def)
    fix f assume "f \<in> set fs"
    then have "f + 1 \<in> links (set fs)" "f + 2 \<in> links (set fs)" by (auto simp: links_def)
    then show "array ?h (f + 1) = array h (f + 1) \<and> array ?h (f + 2) = array h (f + 2)"
      using hole_regions(3) [OF hole] by (auto intro!: out)
  qed
  then show ?thesis using kp hole k
    by (auto simp: heap_hole_def a tiled_append free_starts_append)
qed

text \<open>Unlinking a free block opens a hole in its place, or widens a hole next to it.\<close>

lemma open_free:
  assumes full: "heap_full h (xs @ (n, False) # ys) fs" and pos: "0 < bsum xs"
  obtains h' where "hremove h (bsum xs) = Inr h'" "heap_hole h' xs n ys (remove1 (bsum xs) fs)"
    "agree (hole_cells xs n ys) h h'" "hlen h' = hlen h" "hbase h' = hbase h"
    "array h' (bsum xs) = array h (bsum xs)"
proof -
  let ?i = "bsum xs" and ?bs = "xs @ (n, False) # ys"
  have w: "wide ?bs" and d: "dll (array h) 0 (havail h) fs" "distinct fs"
    and fs: "set fs = free_starts 0 ?bs" and t: "tiled (array h) 0 ?bs (hlen h)"
    using full by (simp_all add: heap_full_def)
  have sep: "sep4 (set fs)" using free_starts_sep [OF w] fs by simp
  have i: "?i \<in> set fs" by (simp add: fs free_starts_append)
  obtain h' where h': "hremove h ?i = Inr h'" "dll (array h') 0 (havail h') (remove1 ?i fs)"
    "\<And>k. k \<notin> links (set fs - {?i}) \<Longrightarrow> array h' k = array h k" "hlen h' = hlen h" "hbase h' = hbase h"
    by (rule hremove_spec [OF d sep i]) blast
  have same: "array h' k = array h k" if "k \<in> tags 0 ?bs \<union> payload 0 ?bs" for k
  proof -
    have "k \<notin> links (set fs)" using links_disjoint [OF w, of 0] that fs by auto
    then show ?thesis using h'(3) by (auto simp: links_def)
  qed
  have t': "tiled (array h') 0 ?bs (hlen h')"
    unfolding h'(4) by (rule tiled_frame [OF t]) (simp add: same)
  have "?i \<notin> free_starts 0 xs" "?i \<notin> free_starts (?i + n) ys"
    using cells_range(3) [of xs ?i 0] cells_range(3) [of ys ?i "?i + n"] w by auto
  then have "set (remove1 ?i fs) = free_starts 0 xs \<union> free_starts (?i + n) ys"
    using d(2) fs by (auto simp: free_starts_append)
  then have "heap_hole h' xs n ys (remove1 ?i fs)"
    using t' w d(2) h'(2) pos by (auto simp: heap_hole_def tiled_append distinct_remove1)
  moreover have "agree (hole_cells xs n ys) h h'"
    using same by (auto simp: hole_cells_def payload_append)
  moreover have "array h' ?i = array h ?i"
  proof (rule h'(3))
    show "?i \<notin> links (set fs - {?i})"
      using sep i by (fastforce simp: links_def sep4_def)
  qed
  ultimately show ?thesis using that h' by blast
qed

lemma open_taken:
  assumes "heap_full h (xs @ (n, True) # ys) fs" "0 < bsum xs"
  shows "heap_hole h xs n ys fs"
  using assms by (auto simp: heap_full_def heap_hole_def tiled_append free_starts_append)

lemma hole_unlink:
  assumes hole: "heap_hole h xs n ys fs" and f: "f \<in> set fs"
  obtains h' where "hremove h f = Inr h'" "dll (array h') 0 (havail h') (remove1 f fs)"
    "tiled (array h') 0 xs (bsum xs)" "tiled (array h') (bsum xs + n) ys (hlen h')"
    "agree (hole_cells xs n ys) h h'" "hlen h' = hlen h" "hbase h' = hbase h"
    "array h' f = array h f"
proof -
  note r = hole_regions [OF hole]
  have d: "dll (array h) 0 (havail h) fs" "distinct fs" using hole by (simp_all add: heap_hole_def)
  obtain h' where h': "hremove h f = Inr h'" "dll (array h') 0 (havail h') (remove1 f fs)"
    "\<And>k. k \<notin> links (set fs - {f}) \<Longrightarrow> array h' k = array h k" "hlen h' = hlen h" "hbase h' = hbase h"
    by (rule hremove_spec [OF d r(4) f]) blast
  have "links (set fs - {f}) \<subseteq> links (set fs)" by (auto simp: links_def)
  then have "array h' k = array h k" if "k \<notin> links (set fs)" for k using h'(3) that by blast
  note k = hole_keeps [OF hole this]
  have "array h' f = array h f"
  proof (rule h'(3))
    show "f \<notin> links (set fs - {f})" using r(4) f by (fastforce simp: links_def sep4_def)
  qed
  then show ?thesis using that h' k by simp
qed

lemma widen_left:
  assumes hole: "heap_hole h (xs @ [(k, False)]) n ys fs" and pos: "0 < bsum xs"
  obtains h' where "hremove h (bsum xs) = Inr h'" "heap_hole h' xs (k + n) ys (remove1 (bsum xs) fs)"
    "agree (hole_cells xs (k + n) ys) h h'" "hlen h' = hlen h" "hbase h' = hbase h"
    "array h' (bsum xs) = array h (bsum xs)"
proof -
  let ?i = "bsum xs" and ?xs = "xs @ [(k, False)]"
  have fs: "set fs = free_starts 0 ?xs \<union> free_starts (bsum ?xs + n) ys" "distinct fs"
    and w: "wide xs" "wide ys" "4 \<le> k" "2 \<le> n" using hole by (simp_all add: heap_hole_def)
  have i: "?i \<in> set fs" by (simp add: fs free_starts_append)
  obtain h' where h': "hremove h ?i = Inr h'" "dll (array h') 0 (havail h') (remove1 ?i fs)"
    "tiled (array h') 0 ?xs (bsum ?xs)" "tiled (array h') (bsum ?xs + n) ys (hlen h')"
    "agree (hole_cells ?xs n ys) h h'" "hlen h' = hlen h" "hbase h' = hbase h" "array h' ?i = array h ?i"
    by (rule hole_unlink [OF hole i]) blast
  have "?i \<notin> free_starts 0 xs" "?i \<notin> free_starts (?i + (k + n)) ys"
    using cells_range(3) [of xs ?i 0] cells_range(3) [of ys ?i "?i + (k + n)"] w by auto
  then have "set (remove1 ?i fs) = free_starts 0 xs \<union> free_starts (?i + (k + n)) ys"
    using fs by (auto simp: free_starts_append add.assoc)
  then have "heap_hole h' xs (k + n) ys (remove1 ?i fs)"
    using h'(2-4) w fs(2) pos by (auto simp: heap_hole_def tiled_append add.assoc)
  moreover have "hole_cells ?xs n ys = hole_cells xs (k + n) ys"
    by (simp add: hole_cells_def payload_append add.assoc)
  ultimately show ?thesis using that h' by metis
qed

lemma widen_right:
  assumes hole: "heap_hole h xs n ((k, False) # ys) fs"
  obtains h' where "hremove h (bsum xs + n) = Inr h'" "heap_hole h' xs (n + k) ys (remove1 (bsum xs + n) fs)"
    "agree (hole_cells xs (n + k) ys) h h'" "hlen h' = hlen h" "hbase h' = hbase h"
    "array h' (bsum xs + n) = array h (bsum xs + n)"
proof -
  let ?i = "bsum xs + n" and ?ys = "(k, False) # ys"
  have fs: "set fs = free_starts 0 xs \<union> free_starts ?i ?ys" "distinct fs"
    and w: "wide xs" "wide ys" "4 \<le> k" "2 \<le> n" "0 < bsum xs" using hole by (simp_all add: heap_hole_def)
  have i: "?i \<in> set fs" by (simp add: fs)
  obtain h' where h': "hremove h ?i = Inr h'" "dll (array h') 0 (havail h') (remove1 ?i fs)"
    "tiled (array h') 0 xs (bsum xs)" "tiled (array h') ?i ?ys (hlen h')"
    "agree (hole_cells xs n ?ys) h h'" "hlen h' = hlen h" "hbase h' = hbase h" "array h' ?i = array h ?i"
    by (rule hole_unlink [OF hole i]) blast
  have "?i \<notin> free_starts 0 xs" "?i \<notin> free_starts (bsum xs + (n + k)) ys"
    using cells_range(3) [of xs ?i 0] cells_range(3) [of ys ?i "bsum xs + (n + k)"] w by auto
  then have "set (remove1 ?i fs) = free_starts 0 xs \<union> free_starts (bsum xs + (n + k)) ys"
    using fs by (auto simp: add.assoc)
  then have "heap_hole h' xs (n + k) ys (remove1 ?i fs)"
    using h'(2-4) w fs(2) by (auto simp: heap_hole_def add.assoc)
  moreover have "hole_cells xs n ?ys = hole_cells xs (n + k) ys"
    by (simp add: hole_cells_def add.assoc)
  ultimately show ?thesis using that h' by metis
qed

subsection \<open>The search of malloc\<close>

text \<open>
  What the search computes: the first smallest among the first 20 blocks of the free list that
  are large enough.
\<close>

definition fitting :: "heap \<Rightarrow> int \<Rightarrow> int list \<Rightarrow> int list" where
  "fitting h ints fs = filter (\<lambda>f. ints \<le> array h f) fs"

definition pick :: "heap \<Rightarrow> int \<times> int \<Rightarrow> int \<Rightarrow> int \<times> int" where
  "pick h best f = (if array h f < fst best then (array h f, f) else best)"

lemma find_fit_eq:
  assumes "dll (array h) prv p fs" "\<And>f. f \<in> set fs \<Longrightarrow> 0 < array h f" "0 < cd"
  shows "find_fit h ints p mx it cd =
    Some (Inr (foldl (pick h) (mx, it) (take (nat cd) (fitting h ints fs))))"
  using assms
proof (induction fs arbitrary: prv p mx it cd)
  case Nil
  then show ?case by (simp add: find_fit.simps fitting_def)
next
  case (Cons f fs)
  have f: "p = f" "f \<noteq> 0" "dll (array h) f (array h (f + 1)) fs" "0 < array h f"
    using Cons.prems by auto
  then have sz: "isAvail h f" "hsize h f = array h f"
    by (simp_all add: isAvail_def hsize_def habs_def)
  note IH = Cons.IH [OF f(3)]
  show ?case
  proof (cases "ints \<le> array h f")
    case True
    show ?thesis
    proof (cases "cd = 1")
      case True
      then show ?thesis using f sz \<open>ints \<le> array h f\<close>
        by (simp add: find_fit.simps [of h ints f] Let_def fitting_def pick_def)
    next
      case False
      then have cd: "0 < cd - 1" "nat cd = Suc (nat (cd - 1))" using Cons.prems(3) by auto
      then show ?thesis using f sz \<open>ints \<le> array h f\<close> IH [OF _ cd(1)] Cons.prems(2)
        by (simp add: find_fit.simps [of h ints f] Let_def fitting_def pick_def)
    qed
  next
    case False
    then show ?thesis using f sz IH [OF _ Cons.prems(3)] Cons.prems(2)
      by (simp add: find_fit.simps [of h ints f] Let_def fitting_def)
  qed
qed

lemma pick_best:
  assumes "\<And>f. f \<in> set cs \<Longrightarrow> array h f < fst best"
  shows "cs \<noteq> [] \<Longrightarrow> (\<exists>f \<in> set cs. foldl (pick h) best cs = (array h f, f) \<and> (\<forall>g \<in> set cs. array h f \<le> array h g))"
  using assms
proof (induction cs rule: rev_induct)
  case Nil
  then show ?case by simp
next
  case (snoc c cs)
  show ?case
  proof (cases cs)
    case Nil
    then show ?thesis using snoc.prems by (simp add: pick_def)
  next
    case (Cons c' cs')
    then obtain f where f: "f \<in> set cs" "foldl (pick h) best cs = (array h f, f)"
      "\<forall>g \<in> set cs. array h f \<le> array h g"
      using snoc by auto
    have "foldl (pick h) best (cs @ [c]) = (if array h c < array h f then (array h c, c) else (array h f, f))"
      by (simp add: f(2)) (simp add: pick_def)
    then show ?thesis using f(1,3) by auto
  qed
qed

subsection \<open>The invariant of the heap\<close>

lemma coalesced_append:
  "coalesced (xs @ ys) \<longleftrightarrow>
     coalesced xs \<and> coalesced ys \<and> (xs \<noteq> [] \<longrightarrow> ys \<noteq> [] \<longrightarrow> snd (last xs) \<or> snd (hd ys))"
proof (induction xs rule: coalesced.induct)
  case (1 n t k u bs)
  then show ?case by auto
qed (cases ys; auto split: prod.splits)+

lemma coalesced_Cons: "coalesced (b # bs) \<longleftrightarrow> coalesced bs \<and> (bs \<noteq> [] \<longrightarrow> snd b \<or> snd (hd bs))"
  by (cases b; cases bs) auto

lemma coalesced_take:
  assumes "coalesced (xs @ (n, False) # ys)"
  shows "coalesced (xs @ (n, True) # ys)" "coalesced (xs @ (k, True) # (m, False) # ys)"
  using assms by (auto simp: coalesced_append coalesced_Cons)

lemma heap_inv_full:
  "heap_inv h mid fs \<longleftrightarrow>
     (\<forall>(n, t) \<in> set mid. 4 \<le> n) \<and> heap_full h ((2, True) # mid @ [(2, True)]) fs \<and>
     coalesced ((2, True) # mid @ [(2, True)]) \<and> 0 < uint (hbase h) \<and> uint (hbase h) + 4 * hlen h < 2 ^ 32"
  by (auto simp: heap_inv_def heap_full_def wide_def Let_def)

lemma heap_inv_len: "heap_inv h mid fs \<Longrightarrow> hlen h = bsum mid + 4"
  using tiled_end [of "array h" 0 "(2, True) # mid @ [(2, True)]" "hlen h"]
  by (simp add: heap_inv_def Let_def)

subsection \<open>malloc\<close>

definition split_block :: "int \<Rightarrow> int \<Rightarrow> layout" where
  "split_block ints n = (if 4 \<le> n - ints then [(ints, True), (n - ints, False)] else [(n, True)])"

lemma request_ints_ge: "4 \<le> request_ints bytes"
  by (simp add: request_ints_def Let_def)

lemma take_block_spec:
  assumes full: "heap_full h (xs @ (n, False) # ys) fs" and pos: "0 < bsum xs"
    and ints: "4 \<le> ints" "ints \<le> n"
  shows "\<exists>h' fs'. take_block h (bsum xs) n ints = Inr h' \<and> heap_full h' (xs @ split_block ints n @ ys) fs' \<and>
    agree (payload 0 xs \<union> payload (bsum xs + n) ys) h h' \<and> hbase h' = hbase h \<and> hlen h' = hlen h"
proof -
  obtain h1 where h1: "hremove h (bsum xs) = Inr h1" "heap_hole h1 xs n ys (remove1 (bsum xs) fs)"
    "agree (hole_cells xs n ys) h h1" "hlen h1 = hlen h" "hbase h1 = hbase h"
    by (rule open_free [OF full pos]) blast
  show ?thesis
  proof (cases "4 \<le> n - ints")
    case True
    let ?h2 = "makeTaken h1 (bsum xs) ints" and ?xs = "xs @ [(ints, True)]"
    let ?h3 = "makeAvail ?h2 (bsum xs + ints) (n - ints)"
    have s: "heap_hole ?h2 ?xs (n - ints) ys (remove1 (bsum xs) fs)" "agree (hole_cells xs n ys) h1 ?h2"
      using split_hole [OF h1(2), of ints] ints True by auto
    have c: "heap_full ?h3 (?xs @ (n - ints, False) # ys) ((bsum xs + ints) # remove1 (bsum xs) fs)"
      "agree (hole_cells ?xs (n - ints) ys) ?h2 ?h3"
      using close_avail [OF s(1) True] by simp_all
    have "hole_cells xs n ys \<subseteq> hole_cells ?xs (n - ints) ys"
      by (auto simp: hole_cells_def payload_append)
    then have "agree (hole_cells xs n ys) h ?h3" using h1(3) s(2) c(2) by (metis subsetD)
    moreover have "hbase ?h3 = hbase h \<and> hlen ?h3 = hlen h"
      using h1(4,5) by (simp add: makeAvail_def makeTaken_def heap_writes Let_def)
    ultimately show ?thesis using h1(1) c(1) True
      by (auto simp: take_block_def split_block_def hole_cells_def Let_def)
  next
    case False
    then show ?thesis using h1 close_taken [OF h1(2)]
      by (auto simp: take_block_def split_block_def hole_cells_def makeTaken_def Let_def)
  qed
qed

lemma heap_free_blocks:
  assumes "heap_inv h mid fs" "f \<in> set fs"
  shows "\<exists>xs n ys. mid = xs @ (n, False) # ys \<and> f = 2 + bsum xs \<and> array h f = n \<and> 4 \<le> n \<and> n \<le> hlen h"
proof -
  let ?bs = "(2, True) # mid @ [(2, True)]"
  have t: "tiled (array h) 0 ?bs (hlen h)" and f: "f \<in> free_starts 0 ?bs"
    and w: "\<forall>(n, t) \<in> set mid. 4 \<le> n" using assms by (simp_all add: heap_inv_def Let_def)
  obtain xs n ys where s: "?bs = xs @ (n, False) # ys" "f = 0 + bsum xs" "array h f = n"
    using free_start_size [OF t f] by blast
  obtain xs' where xs: "xs = (2, True) # xs'" using s(1) by (cases xs) auto
  obtain ys' where ys: "ys = ys' @ [(2, True)]" using s(1) xs by (cases ys rule: rev_cases) auto
  have mid: "mid = xs' @ (n, False) # ys'" using s(1) xs ys by simp
  have "wide xs'" "wide ys'" using w mid by (auto intro!: wide4)
  then have "n \<le> hlen h" using heap_inv_len [OF assms(1)] mid bsum_nonneg [of xs'] bsum_nonneg [of ys'] by simp
  then show ?thesis using mid s(2,3) xs w by auto
qed

lemma take_free_block:
  assumes inv: "heap_inv h mid fs" and f: "f \<in> set fs" and ints: "4 \<le> ints" "ints \<le> array h f"
  shows "\<exists>xs n ys h' fs'. mid = xs @ (n, False) # ys \<and> f = 2 + bsum xs \<and> f \<noteq> 0 \<and> ints \<le> n \<and>
    take_block h f (array h f) ints = Inr h' \<and> heap_inv h' (xs @ split_block ints n @ ys) fs' \<and>
    agree (payload 0 ((2, True) # mid)) h h' \<and> hbase h' = hbase h \<and> hlen h' = hlen h"
proof -
  let ?bs = "(2, True) # mid @ [(2, True)]"
  have full: "heap_full h ?bs fs" and co: "coalesced ?bs" and w: "\<forall>(n, t) \<in> set mid. 4 \<le> n"
    and base: "0 < uint (hbase h)" "uint (hbase h) + 4 * hlen h < 2 ^ 32"
    using inv by (simp_all add: heap_inv_full)
  obtain xs n ys where mid: "mid = xs @ (n, False) # ys" "f = 2 + bsum xs" "array h f = n"
    using heap_free_blocks [OF inv f] by blast
  have wx: "0 \<le> bsum xs" using w mid(1) by (intro bsum_nonneg wide4) auto
  have fx: "heap_full h (((2, True) # xs) @ (n, False) # (ys @ [(2, True)])) fs" using full mid(1) by simp
  have co': "coalesced (((2, True) # xs) @ (n, False) # (ys @ [(2, True)]))" using co mid(1) by simp
  have eq: "bsum ((2, True) # xs) = f" using mid(2) by simp
  have pos: "0 < f" "ints \<le> n" using wx mid(2,3) ints(2) by simp_all
  from take_block_spec [OF fx, unfolded eq, OF pos(1) ints(1) pos(2)]
  obtain h' fs' where h': "take_block h f n ints = Inr h'"
    "heap_full h' ((2, True) # xs @ split_block ints n @ ys @ [(2, True)]) fs'"
    "agree (payload 0 ((2, True) # xs) \<union> payload (f + n) (ys @ [(2, True)])) h h'"
    "hbase h' = hbase h" "hlen h' = hlen h"
    by auto
  have "heap_inv h' (xs @ split_block ints n @ ys) fs'"
    using h'(2,4,5) base coalesced_take(1) [OF co'] coalesced_take(2) [OF co', of ints "n - ints"]
      w mid(1) ints(1) pos(2)
    by (auto simp: heap_inv_full split_block_def)
  moreover have "agree (payload 0 ((2, True) # mid)) h h'"
    using h'(3) mid(1,2) by (auto simp: payload_append)
  ultimately show ?thesis
    using mid(2,3) pos h'(1,4,5)
    by (intro exI [of _ xs] exI [of _ n] exI [of _ ys] exI [of _ h'] exI [of _ fs'] conjI mid(1)) simp_all
qed

text \<open>A free block of the layout is in the list of available blocks.\<close>

lemma free_block_listed:
  assumes inv: "heap_inv h mid fs" and mid: "mid = us @ (n, False) # vs"
  shows "2 + bsum us \<in> set fs" "array h (2 + bsum us) = n"
proof -
  have full: "heap_full h ((2, True) # mid @ [(2, True)]) fs" using inv by (simp add: heap_inv_full)
  then show "2 + bsum us \<in> set fs" using mid by (auto simp: heap_full_def free_starts_append)
  have "tiled (array h) 0 ((2, True) # mid @ [(2, True)]) (hlen h)" using full by (simp add: heap_full_def)
  then show "array h (2 + bsum us) = n" unfolding mid by (simp add: tiled_append)
qed

lemma fitting_nonempty:
  assumes inv: "heap_inv h mid fs" and some: "\<exists>(n, t) \<in> set mid. \<not> t \<and> ints \<le> n"
  shows "fitting h ints fs \<noteq> []"
proof -
  obtain us n vs where mid: "mid = us @ (n, False) # vs" "ints \<le> n" using some by (auto dest: split_list)
  show ?thesis using free_block_listed [OF inv mid(1)] mid(2) by (force simp: fitting_def filter_empty_conv)
qed

lemma fitting_empty:
  assumes "heap_inv h mid fs" "\<forall>(n, t) \<in> set mid. \<not> t \<longrightarrow> n < ints"
  shows "fitting h ints fs = []"
  using heap_free_blocks [OF assms(1)] assms(2) by (fastforce simp: fitting_def filter_empty_conv)

text \<open>The two outcomes of an allocation request.\<close>

lemma malloc_null:
  assumes inv: "heap_inv h mid fs" and b: "bytes \<noteq> 0"
    and none: "\<forall>(n, t) \<in> set mid. \<not> t \<longrightarrow> n < request_ints bytes"
  shows "malloc h bytes = Some (Inr (h, 0))"
proof -
  have pos: "0 < array h f" if "f \<in> set fs" for f using heap_free_blocks [OF inv that] by auto
  from fitting_empty [OF inv none] show ?thesis
    using b find_fit_eq [of h 0 "havail h" fs 20] inv pos
    by (simp add: malloc_def Let_def heap_inv_def)
qed

lemma malloc_block:
  assumes inv: "heap_inv h mid fs" and b: "bytes \<noteq> 0"
    and some: "\<exists>(n, t) \<in> set mid. \<not> t \<and> request_ints bytes \<le> n"
  shows "\<exists>xs n ys h' fs'. mid = xs @ (n, False) # ys \<and> request_ints bytes \<le> n \<and>
    malloc h bytes = Some (Inr (h', cell_ptr h' (2 + bsum xs + 1))) \<and>
    heap_inv h' (xs @ split_block (request_ints bytes) n @ ys) fs' \<and>
    agree (payload 0 ((2, True) # mid)) h h' \<and> hbase h' = hbase h \<and> hlen h' = hlen h"
proof -
  let ?ints = "request_ints bytes" and ?cs = "take (nat 20) (fitting h (request_ints bytes) fs)"
  have base: "0 < uint (hbase h)" "uint (hbase h) + 4 * hlen h < 2 ^ 32" using inv by (simp_all add: heap_inv_full)
  have pos: "0 < array h f" and lt: "array h f < 0x7FFFFFFF" if "f \<in> set fs" for f
    using heap_free_blocks [OF inv that] base by auto
  have sub: "set ?cs \<subseteq> set (fitting h ?ints fs)" by (rule set_take_subset)
  obtain f where f: "f \<in> set ?cs" "foldl (pick h) (0x7FFFFFFF, 0) ?cs = (array h f, f)"
    using pick_best [of ?cs h "(0x7FFFFFFF, 0)"] lt fitting_nonempty [OF inv some] sub by (fastforce simp: fitting_def)
  have ff: "f \<in> set fs" "?ints \<le> array h f" using f(1) sub by (auto simp: fitting_def)
  from take_free_block [OF inv ff(1) request_ints_ge ff(2)]
  obtain xs n ys h' fs' where t: "mid = xs @ (n, False) # ys" "f = 2 + bsum xs" "f \<noteq> 0" "?ints \<le> n"
    "take_block h f (array h f) ?ints = Inr h'" "heap_inv h' (xs @ split_block ?ints n @ ys) fs'"
    "agree (payload 0 ((2, True) # mid)) h h'" "hbase h' = hbase h" "hlen h' = hlen h" by blast
  have "find_fit h ?ints (havail h) 0x7FFFFFFF 0 20 = Some (Inr (array h f, f))"
    using find_fit_eq [of h 0 "havail h" fs 20 ?ints "0x7FFFFFFF" 0] inv pos f(2)
    by (simp add: heap_inv_def Let_def)
  then have "malloc h bytes = Some (Inr (h', cell_ptr h' (2 + bsum xs + 1)))"
    using b t(2,3,5) by (simp add: malloc_def Let_def)
  then show ?thesis using t by blast
qed

subsection \<open>free\<close>

text \<open>What releasing a taken block between \<open>xs\<close> and \<open>ys\<close> does to the layout.\<close>

definition release_left :: "layout \<Rightarrow> int \<Rightarrow> layout \<times> int" where
  "release_left xs n =
     (if xs \<noteq> [] \<and> \<not> snd (last xs) then (butlast xs, fst (last xs) + n) else (xs, n))"

definition release_right :: "int \<Rightarrow> layout \<Rightarrow> int \<times> layout" where
  "release_right n ys = (case ys of (k, False) # ys' \<Rightarrow> (n + k, ys') | _ \<Rightarrow> (n, ys))"

definition release :: "layout \<Rightarrow> int \<Rightarrow> layout \<Rightarrow> layout" where
  "release xs n ys =
     (let (xs', n1) = release_left xs n; (n2, ys') = release_right n1 ys in xs' @ (n2, False) # ys')"

lemma tiled_last:
  "tiled a i (xs @ [(k, t)]) j \<Longrightarrow> a (j - 1) = tag k t \<and> a (j - k) = tag k t \<and> 2 \<le> k"
  by (auto simp: tiled_append)

lemma hole_left_neighbour:
  assumes "heap_hole h (xs @ [(k, t)]) n ys fs"
  shows "headerFromFooter h (bsum (xs @ [(k, t)]) - 1) = bsum xs"
    "isAvail h (bsum xs) \<longleftrightarrow> \<not> t" "hsize h (bsum xs) = k"
proof -
  have "tiled (array h) 0 (xs @ [(k, t)]) (bsum (xs @ [(k, t)]))" using assms by (simp add: heap_hole_def)
  from tiled_last [OF this] show "headerFromFooter h (bsum (xs @ [(k, t)]) - 1) = bsum xs"
    "isAvail h (bsum xs) \<longleftrightarrow> \<not> t" "hsize h (bsum xs) = k"
    by (auto simp: headerFromFooter_def hsize_def habs_def isAvail_def)
qed

lemma hole_right_neighbour:
  assumes "heap_hole h xs n ((k, t) # ys) fs"
  shows "isAvail h (bsum xs + n) \<longleftrightarrow> \<not> t" "hsize h (bsum xs + n) = k"
  using assms by (auto simp: heap_hole_def isAvail_def hsize_def habs_def split: if_splits)

text \<open>The right half of \<^verbatim>\<open>free\<close>: merge with the right neighbour, then close the hole.\<close>

lemma free_right_spec:
  assumes hole: "heap_hole h xs n ((k, t) # ys) fs" and n: "4 \<le> n"
  defines "r \<equiv> rbind
      (if isAvail h (bsum xs + n)
       then rbind (hremove h (bsum xs + n)) (\<lambda>h. Inr (h, n + hsize h (bsum xs + n)))
       else Inr (h, n))
      (\<lambda>(h, sz). Inr (makeAvail h (bsum xs) sz))"
  shows "\<exists>h' fs'. r = Inr h' \<and>
    heap_full h' (xs @ (case release_right n ((k, t) # ys) of (n2, ys') \<Rightarrow> (n2, False) # ys')) fs' \<and>
    agree (hole_cells xs n ((k, t) # ys)) h h' \<and> hbase h' = hbase h \<and> hlen h' = hlen h"
proof (cases t)
  case True
  then show ?thesis
    using close_avail [OF hole n] hole_right_neighbour(1) [OF hole]
    by (auto simp: r_def release_right_def makeAvail_def heap_writes Let_def)
next
  case False
  then have hole': "heap_hole h xs n ((k, False) # ys) fs" using hole by simp
  obtain h1 where h1: "hremove h (bsum xs + n) = Inr h1" "heap_hole h1 xs (n + k) ys (remove1 (bsum xs + n) fs)"
    "agree (hole_cells xs (n + k) ys) h h1" "hlen h1 = hlen h" "hbase h1 = hbase h"
    "array h1 (bsum xs + n) = array h (bsum xs + n)"
    by (rule widen_right [OF hole']) blast
  have sz: "hsize h1 (bsum xs + n) = k"
    using h1(6) hole_right_neighbour(2) [OF hole] by (simp add: hsize_def)
  have k: "4 \<le> n + k" using n hole' by (simp add: heap_hole_def)
  have "hole_cells xs n ((k, t) # ys) = hole_cells xs (n + k) ys"
    using False by (simp add: hole_cells_def add.assoc)
  then show ?thesis
    using False h1 sz hole_right_neighbour(1) [OF hole] close_avail [OF h1(2) k]
    by (auto simp: r_def release_right_def makeAvail_def heap_writes Let_def)
qed

lemma free_block_spec:
  assumes full: "heap_full h (xs @ (n, True) # (k, u) # ys) fs" and xs: "xs \<noteq> []" "0 < bsum (butlast xs) \<or> snd (last xs)"
    and n: "4 \<le> n"
  shows "\<exists>h' fs'. free_block h (bsum xs) = Inr h' \<and> heap_full h' (release xs n ((k, u) # ys)) fs' \<and>
    agree (payload 0 xs \<union> payload (bsum xs + n) ((k, u) # ys)) h h' \<and> hbase h' = hbase h \<and> hlen h' = hlen h"
proof -
  obtain zs b where zs: "xs = zs @ [b]" using xs(1) by (cases xs rule: rev_cases) auto
  obtain m t where b: "b = (m, t)" by (cases b)
  let ?ys = "(k, u) # ys"
  have w: "wide zs" "2 \<le> m" using full zs b by (auto simp: heap_full_def)
  then have pos: "0 < bsum xs" using bsum_nonneg [OF w(1)] zs b by simp
  have hole: "heap_hole h (zs @ [(m, t)]) n ?ys fs"
    using open_taken [OF full pos] zs b by simp
  have "tiled (array h) 0 (xs @ (n, True) # ?ys) (hlen h)" using full by (simp add: heap_full_def)
  then have tk: "isTaken h (bsum xs)" "hsize h (bsum xs) = n"
    using n by (auto simp: tiled_append isTaken_def hsize_def habs_def)
  note l = hole_left_neighbour [OF hole]
  have fb: "free_block h (bsum xs) =
      rbind
        (if isAvail h (bsum zs)
         then rbind (hremove h (bsum zs)) (\<lambda>h. Inr (h, bsum zs, n + hsize h (bsum zs)))
         else Inr (h, bsum xs, n))
        (\<lambda>(h, idx, sz).
      rbind
        (if isAvail h (bsum xs + n)
         then rbind (hremove h (bsum xs + n)) (\<lambda>h. Inr (h, sz + hsize h (bsum xs + n)))
         else Inr (h, sz))
        (\<lambda>(h, sz). Inr (makeAvail h idx sz)))"
  proof -
    have "headerFromFooter h (bsum xs - 1) = bsum zs" using l(1) unfolding zs b .
    then show ?thesis using tk by (simp add: free_block_def Let_def)
  qed
  show ?thesis
  proof (cases t)
    case True
    have rl: "release_left xs n = (xs, n)" using zs b True by (simp add: release_left_def)
    have "heap_hole h xs n ?ys fs" using hole zs b by simp
    from free_right_spec [OF this n] show ?thesis
      using fb l(2) True rl by (auto simp: release_def hole_cells_def split: prod.splits)
  next
    case False
    have zpos: "0 < bsum zs" using xs(2) zs b False by simp
    have hole': "heap_hole h (zs @ [(m, False)]) n ?ys fs" using hole False by simp
    obtain h1 where h1: "hremove h (bsum zs) = Inr h1" "heap_hole h1 zs (m + n) ?ys (remove1 (bsum zs) fs)"
      "agree (hole_cells zs (m + n) ?ys) h h1" "hlen h1 = hlen h" "hbase h1 = hbase h"
      "array h1 (bsum zs) = array h (bsum zs)"
      by (rule widen_left [OF hole' zpos]) blast
    have sz: "n + hsize h1 (bsum zs) = m + n" using h1(6) l(3) by (simp add: hsize_def)
    have idx: "bsum xs + n = bsum zs + (m + n)" using zs b by simp
    have rl: "release_left xs n = (zs, m + n)" using zs b False by (simp add: release_left_def)
    have cells: "hole_cells zs (m + n) ?ys = payload 0 xs \<union> payload (bsum xs + n) ?ys"
      using False zs b by (simp add: hole_cells_def payload_append add.assoc)
    have mn: "4 \<le> m + n" using n w by simp
    obtain h2 fs2 where h2: "rbind
        (if isAvail h1 (bsum zs + (m + n))
         then rbind (hremove h1 (bsum zs + (m + n))) (\<lambda>h. Inr (h, m + n + hsize h (bsum zs + (m + n))))
         else Inr (h1, m + n))
        (\<lambda>(h, sz). Inr (makeAvail h (bsum zs) sz)) = Inr h2"
      "heap_full h2 (zs @ (case release_right (m + n) ?ys of (n2, ys') \<Rightarrow> (n2, False) # ys')) fs2"
      "agree (hole_cells zs (m + n) ?ys) h1 h2" "hbase h2 = hbase h1" "hlen h2 = hlen h1"
      using free_right_spec [OF h1(2) mn] by blast
    have left: "(if isAvail h (bsum zs)
        then rbind (hremove h (bsum zs)) (\<lambda>h. Inr (h, bsum zs, n + hsize h (bsum zs)))
        else Inr (h, bsum xs, n)) = Inr (h1, bsum zs, m + n)"
      using l(2) False h1(1) sz by simp
    have "free_block h (bsum xs) = Inr h2"
      unfolding fb left idx rbind_simps prod.case by (rule h2(1))
    moreover have "heap_full h2 (release xs n ?ys) fs2"
      using h2(2) rl by (simp add: release_def split: prod.splits)
    ultimately show ?thesis using h2(3-5) h1(3-5) unfolding cells by auto
  qed
qed

end
