(* ===== verification/Heap_Interface.thy ===== *)
theory Heap_Interface
  imports Heap_Correctness
begin

text \<open>
  The heap as its callers see it: a set of live blocks, each a pointer and its number of cells.
  The locale \<open>block_allocator\<close> is the contract of \<^verbatim>\<open>malloc\<close> and \<^verbatim>\<open>free\<close>; its interpretation
  discharges the contract for the model of \<^verbatim>\<open>kernel/heap.cc\<close>.
\<close>

subsection \<open>Pointers and indices\<close>

lemma cell_ptr_uint:
  assumes "0 \<le> i" "i < hlen h" "uint (hbase h) + 4 * hlen h < 2 ^ 32"
  shows "uint (cell_ptr h i) = uint (hbase h) + 4 * i"
proof -
  have e: "cell_ptr h i = word_of_int (uint (hbase h) + 4 * i)" by (simp add: cell_ptr_def)
  have "0 \<le> uint (hbase h) + 4 * i" using assms(1) uint_ge_0 [of "hbase h"] by linarith
  moreover have "uint (hbase h) + 4 * i < 2 ^ 32" using assms(2,3) by linarith
  ultimately show ?thesis unfolding e by (rule uint_word_of_int32)
qed

lemma cell_ptr_index:
  assumes "0 \<le> i" "i < hlen h" "uint (hbase h) + 4 * hlen h < 2 ^ 32"
  shows "free_index h (cell_ptr h i) = i - 1"
proof -
  have e: "cell_ptr h i - hbase h = word_of_int (4 * i)" by (simp add: cell_ptr_def)
  have "4 * i < 2 ^ 32" using assms(2,3) uint_ge_0 [of "hbase h"] by linarith
  then have "uint (cell_ptr h i - hbase h) = 4 * i"
    unfolding e using assms(1) by (intro uint_word_of_int32) auto
  then have "uint ((cell_ptr h i - hbase h) div 4) = i" by (simp add: uint_div_distrib)
  then show ?thesis unfolding free_index_def by simp
qed

lemma cell_ptr_nonzero:
  assumes "0 < i" "i < hlen h" "uint (hbase h) + 4 * hlen h < 2 ^ 32"
  shows "cell_ptr h i \<noteq> 0" "cell_ptr h i \<noteq> hbase h"
proof -
  have e: "uint (cell_ptr h i) = uint (hbase h) + 4 * i" using assms by (intro cell_ptr_uint) auto
  then show "cell_ptr h i \<noteq> hbase h" using assms(1) by auto
  show "cell_ptr h i \<noteq> 0" using e assms(1) uint_ge_0 [of "hbase h"] by (metis add_le_less_mono add_0 mult_pos_pos order_less_irrefl uint_0_eq zero_less_numeral)
qed

subsection \<open>The taken blocks of a layout\<close>

fun taken_blocks :: "int \<Rightarrow> layout \<Rightarrow> (int \<times> int) set" where
  "taken_blocks i [] = {}"
| "taken_blocks i ((n, t) # bs) = (if t then {(i, n)} else {}) \<union> taken_blocks (i + n) bs"

lemma taken_blocks_append:
  "taken_blocks i (xs @ ys) = taken_blocks i xs \<union> taken_blocks (i + bsum xs) ys"
  by (induction i xs rule: taken_blocks.induct) (auto simp: add.assoc)

lemma taken_blocks_split:
  "(j, n) \<in> taken_blocks i bs \<Longrightarrow> \<exists>xs ys. bs = xs @ (n, True) # ys \<and> j = i + bsum xs"
proof (induction i bs rule: taken_blocks.induct)
  case (2 i m t bs)
  then consider "t" "j = i" "n = m" | xs ys where "bs = xs @ (n, True) # ys" "j = i + m + bsum xs"
    by (auto split: if_splits)
  then show ?case
  proof cases
    case 1
    then show ?thesis by (intro exI [of _ "[]"] exI [of _ bs]) simp
  next
    case 2
    then show ?thesis by (intro exI [of _ "(m, t) # xs"] exI [of _ ys]) simp
  qed
qed simp

lemma taken_blocks_range:
  assumes "(j, n) \<in> taken_blocks i bs" "wide bs"
  shows "i \<le> j" "j + n \<le> i + bsum bs" "2 \<le> n"
proof -
  obtain xs ys where bs: "bs = xs @ (n, True) # ys" "j = i + bsum xs"
    using taken_blocks_split [OF assms(1)] by blast
  then show "i \<le> j" "j + n \<le> i + bsum bs" "2 \<le> n"
    using assms(2) bsum_nonneg [of xs] bsum_nonneg [of ys] by auto
qed

lemma taken_blocks_payload:
  "(j, n) \<in> taken_blocks i bs \<Longrightarrow> {j + 1..j + n - 2} \<subseteq> payload i bs"
  by (induction i bs rule: taken_blocks.induct) (auto split: if_splits)

lemma taken_blocks_split_block:
  "taken_blocks i (split_block ints n) = {(i, if 4 \<le> n - ints then ints else n)}"
  by (simp add: split_block_def)

lemma bsum_split_block [simp]: "bsum (split_block ints n) = n"
  by (simp add: split_block_def)

subsection \<open>The layout after a release\<close>

lemma release_left_facts:
  assumes "release_left xs n = (xs', m)"
  shows "taken_blocks i xs' = taken_blocks i xs" "bsum xs' + m = bsum xs + n"
proof -
  have "taken_blocks i xs' = taken_blocks i xs \<and> bsum xs' + m = bsum xs + n"
    using assms by (cases xs rule: rev_cases)
      (auto simp: release_left_def taken_blocks_append split: if_splits)
  then show "taken_blocks i xs' = taken_blocks i xs" "bsum xs' + m = bsum xs + n" by auto
qed

lemma release_right_facts:
  assumes "release_right n ys = (m, ys')"
  shows "taken_blocks (i + m) ys' = taken_blocks (i + n) ys"
  using assms by (auto simp: release_right_def add.assoc split: list.splits bool.splits)

lemma taken_blocks_release:
  "taken_blocks i (release xs n ys) = taken_blocks i xs \<union> taken_blocks (i + bsum xs + n) ys"
proof -
  obtain xs' m where l: "release_left xs n = (xs', m)" by (cases "release_left xs n")
  obtain k ys' where r: "release_right m ys = (k, ys')" by (cases "release_right m ys")
  have e: "i + bsum xs + n = i + bsum xs' + m" using release_left_facts(2) [OF l] by simp
  show ?thesis
    unfolding e using release_left_facts(1) [OF l, of i] release_right_facts [OF r, of "i + bsum xs'"] l r
    by (simp add: release_def taken_blocks_append)
qed

lemma release_ends:
  assumes "snd b" "snd c"
  shows "release (b # xs) n (ys @ [c]) = b # release xs n ys @ [c]"
proof -
  have "release_left (b # xs) n = (let (xs', m) = release_left xs n in (b # xs', m))"
    using assms(1) by (auto simp: release_left_def)
  moreover have "release_right m (ys @ [c]) = (let (k, ys') = release_right m ys in (k, ys' @ [c]))" for m
    using assms(2) by (cases c) (auto simp: release_right_def split: list.splits bool.splits)
  ultimately show ?thesis by (simp add: release_def split: prod.splits)
qed

lemma release_left_coalesced:
  assumes "coalesced (xs @ (n, True) # ys)" "release_left xs n = (xs', m)"
  shows "coalesced (xs' @ (m, True) # ys)" "xs' \<noteq> [] \<Longrightarrow> snd (last xs')"
proof -
  have "coalesced (xs' @ (m, True) # ys) \<and> (xs' \<noteq> [] \<longrightarrow> snd (last xs'))"
  proof (cases xs rule: rev_cases)
    case Nil
    then show ?thesis using assms by (simp add: release_left_def)
  next
    case (snoc zs b)
    then show ?thesis using assms
      by (auto simp: release_left_def coalesced_append coalesced_Cons split: if_splits)
  qed
  then show "coalesced (xs' @ (m, True) # ys)" "xs' \<noteq> [] \<Longrightarrow> snd (last xs')" by auto
qed

lemma release_coalesced:
  assumes "coalesced (xs @ (n, True) # ys)"
  shows "coalesced (release xs n ys)"
proof -
  obtain xs' m where l: "release_left xs n = (xs', m)" by (cases "release_left xs n")
  note lc = release_left_coalesced [OF assms l]
  show ?thesis
    using lc l by (auto simp: release_def release_right_def coalesced_append coalesced_Cons
        split: list.splits bool.splits)
qed

lemma release_sizes:
  assumes "\<forall>(k, t) \<in> set (xs @ (n, True) # ys). 4 \<le> k"
  shows "\<forall>(k, t) \<in> set (release xs n ys). 4 \<le> k"
proof -
  obtain xs' m where l: "release_left xs n = (xs', m)" by (cases "release_left xs n")
  have "(\<forall>(k, t) \<in> set xs'. 4 \<le> k) \<and> 4 \<le> m"
    using assms l by (cases xs rule: rev_cases) (auto simp: release_left_def split: if_splits)
  then show ?thesis
    using assms l by (auto simp: release_def release_right_def split: list.splits bool.splits)
qed

subsection \<open>free on pointers\<close>

text \<open>Where a taken block of the middle layout lies, and that its pointer leads back to it.\<close>

lemma heap_inv_block:
  assumes inv: "heap_inv h (xs @ (n, True) # ys) fs"
  defines "i \<equiv> 2 + bsum xs"
  shows "2 \<le> i" "i + n < hlen h" "4 \<le> n" "cell_ptr h (i + 1) \<noteq> 0" "cell_ptr h (i + 1) \<noteq> hbase h"
    "free_index h (cell_ptr h (i + 1)) = i"
proof -
  have w: "wide xs" "wide ys" "4 \<le> n" and b: "uint (hbase h) + 4 * hlen h < 2 ^ 32"
    using inv by (auto simp: heap_inv_def Let_def intro!: wide4)
  have len: "hlen h = bsum xs + n + bsum ys + 4" using heap_inv_len [OF inv] by simp
  show "2 \<le> i" "4 \<le> n" using bsum_nonneg [OF w(1)] w(3) by (auto simp: i_def)
  show "i + n < hlen h" using len bsum_nonneg [OF w(2)] by (simp add: i_def)
  then have "0 < i + 1" "i + 1 < hlen h" using w(3) bsum_nonneg [OF w(1)] by (auto simp: i_def)
  then show "cell_ptr h (i + 1) \<noteq> 0" "cell_ptr h (i + 1) \<noteq> hbase h"
    "free_index h (cell_ptr h (i + 1)) = i"
    using cell_ptr_nonzero [OF _ _ b] cell_ptr_index [OF _ _ b, of "i + 1"] by auto
qed

lemma hfree_spec:
  assumes inv: "heap_inv h (xs @ (n, True) # ys) fs"
  shows "\<exists>h' fs'. hfree h (cell_ptr h (2 + bsum xs + 1)) = Inr h' \<and> heap_inv h' (release xs n ys) fs' \<and>
    agree (payload 2 xs \<union> payload (2 + bsum xs + n) ys) h h' \<and> hbase h' = hbase h \<and> hlen h' = hlen h"
proof -
  let ?xs = "(2, True) # xs" and ?ys = "ys @ [(2, True)]"
  have full: "heap_full h (?xs @ (n, True) # ?ys) fs" and co: "coalesced (?xs @ (n, True) # ?ys)"
    and sz: "\<forall>(k, t) \<in> set (xs @ (n, True) # ys). 4 \<le> k"
    and b: "0 < uint (hbase h)" "uint (hbase h) + 4 * hlen h < 2 ^ 32"
    using inv by (simp_all add: heap_inv_full)
  obtain k u zs where ys: "?ys = (k, u) # zs" by (cases ?ys) auto
  have wx: "wide xs" and n: "4 \<le> n" using sz by (auto intro!: wide4)
  have "0 < bsum (butlast ?xs) \<or> snd (last ?xs)"
    using bsum_nonneg [of "butlast xs"] wx by (cases xs rule: rev_cases) (auto simp: wide_def)
  from free_block_spec [OF full [unfolded ys] _ this n]
  obtain h' fs' where h': "free_block h (2 + bsum xs) = Inr h'" "heap_full h' (release ?xs n ?ys) fs'"
    "agree (payload 0 ?xs \<union> payload (bsum ?xs + n) ?ys) h h'" "hbase h' = hbase h" "hlen h' = hlen h"
    unfolding ys by auto
  have "hfree h (cell_ptr h (2 + bsum xs + 1)) = Inr h'"
    using heap_inv_block(4-6) [OF inv] h'(1) by (simp add: hfree_def)
  moreover have "heap_inv h' (release xs n ys) fs'"
    using h'(2,4,5) release_coalesced [OF co] release_sizes [OF sz] b by (simp add: heap_inv_full release_ends)
  ultimately show ?thesis using h'(3-5) by (auto simp: payload_append)
qed

lemma hfree_free_block:
  assumes inv: "heap_inv h (xs @ (n, False) # ys) fs"
  shows "hfree h (cell_ptr h (2 + bsum xs + 1)) = Inl (Panic ''freeing free block'')"
proof -
  have w: "wide xs" "wide ys" "4 \<le> n" and b: "uint (hbase h) + 4 * hlen h < 2 ^ 32"
    and t: "tiled (array h) 0 ((2, True) # xs @ (n, False) # ys @ [(2, True)]) (hlen h)"
    using inv by (auto simp: heap_inv_def Let_def intro!: wide4)
  have "2 + bsum xs + 1 < hlen h" using heap_inv_len [OF inv] w bsum_nonneg [OF w(2)] by simp
  moreover have "0 < 2 + bsum xs + 1" using bsum_nonneg [OF w(1)] by simp
  moreover have "array h (2 + bsum xs) = n" using t by (simp add: tiled_append)
  ultimately show ?thesis
    using cell_ptr_nonzero [OF _ _ b] cell_ptr_index [OF _ _ b, of "2 + bsum xs + 1"] w(3)
    by (simp add: hfree_def free_block_def isTaken_def)
qed

subsection \<open>The contract of a block allocator\<close>

text \<open>
  \<open>live s L\<close>: in state \<open>s\<close> the blocks handed out are \<open>L\<close>, each a pointer and a size in cells.
  \<open>cell s p k\<close> is the \<open>k\<close>-th cell of the block at \<open>p\<close>.
\<close>

abbreviation keeps_cells ::
  "('s \<Rightarrow> u32 \<Rightarrow> int \<Rightarrow> int) \<Rightarrow> 's \<Rightarrow> 's \<Rightarrow> (u32 \<times> int) set \<Rightarrow> bool" where
  "keeps_cells cell s s' L \<equiv> (\<forall>(p, n) \<in> L. \<forall>k. 0 \<le> k \<longrightarrow> k < n \<longrightarrow> cell s' p k = cell s p k)"

locale block_allocator =
  fixes live :: "'s \<Rightarrow> (u32 \<times> int) set \<Rightarrow> bool"
    and alloc :: "'s \<Rightarrow> u32 \<Rightarrow> ('s \<times> u32) result option"
    and dealloc :: "'s \<Rightarrow> u32 \<Rightarrow> 's result"
    and cell :: "'s \<Rightarrow> u32 \<Rightarrow> int \<Rightarrow> int"
    and need :: "u32 \<Rightarrow> int"
  assumes alloc_spec: "live s L \<Longrightarrow> b \<noteq> 0 \<Longrightarrow>
      \<exists>s' p. alloc s b = Some (Inr (s', p)) \<and> keeps_cells cell s s' L \<and>
        (p = 0 \<and> s' = s \<or>
         p \<noteq> 0 \<and> p \<notin> fst ` L \<and> (\<exists>n. need b \<le> n \<and> live s' (insert (p, n) L)))"
    and dealloc_spec: "live s L \<Longrightarrow> (p, n) \<in> L \<Longrightarrow>
      \<exists>s'. dealloc s p = Inr s' \<and> live s' (L - {(p, n)}) \<and> keeps_cells cell s s' (L - {(p, n)})"
begin

lemma alloc_dealloc:
  assumes "live s L" "b \<noteq> 0" "alloc s b = Some (Inr (s', p))" "p \<noteq> 0"
  shows "\<exists>s''. dealloc s' p = Inr s'' \<and> live s'' L \<and> keeps_cells cell s s'' L"
proof -
  from alloc_spec [OF assms(1,2)] assms(3,4) obtain n where
    n: "p \<notin> fst ` L" "live s' (insert (p, n) L)" "keeps_cells cell s s' L"
    by auto
  have "(p, n) \<notin> L" using n(1) by force
  then have e: "insert (p, n) L - {(p, n)} = L" by blast
  obtain s'' where "dealloc s' p = Inr s''" "live s'' L" "keeps_cells cell s' s'' L"
    using dealloc_spec [OF n(2), of p n] unfolding e by blast
  then show ?thesis using n(3) by fastforce
qed

lemma alloc_alloc:
  assumes "live s L" "b \<noteq> 0" "c \<noteq> 0"
    and "alloc s b = Some (Inr (s', p))" "p \<noteq> 0" "alloc s' c = Some (Inr (s'', q))" "q \<noteq> 0"
  shows "p \<noteq> q"
proof -
  from alloc_spec [OF assms(1,2)] assms(4,5) obtain n where "live s' (insert (p, n) L)" by auto
  from alloc_spec [OF this assms(3)] assms(6,7) show ?thesis by auto
qed

end

subsection \<open>The kernel heap implements the contract\<close>

definition heap_blocks :: "heap \<Rightarrow> layout \<Rightarrow> (u32 \<times> int) set" where
  "heap_blocks h mid = (\<lambda>(i, n). (cell_ptr h (i + 1), n - 2)) ` taken_blocks 2 mid"

definition heap_live :: "heap \<Rightarrow> (u32 \<times> int) set \<Rightarrow> bool" where
  "heap_live h L \<longleftrightarrow> (\<exists>mid fs. heap_inv h mid fs \<and> L = heap_blocks h mid)"

definition heap_cell :: "heap \<Rightarrow> u32 \<Rightarrow> int \<Rightarrow> int" where
  "heap_cell h p k = array h (free_index h p + 1 + k)"

lemma heap_blocks_base: "hbase h' = hbase h \<Longrightarrow> heap_blocks h' mid = heap_blocks h mid"
  by (simp add: heap_blocks_def cell_ptr_def)

lemma heap_blocks_append:
  "heap_blocks h (xs @ (n, True) # ys) =
     insert (cell_ptr h (2 + bsum xs + 1), n - 2) (heap_blocks h (xs @ (n, False) # ys))"
  by (auto simp: heap_blocks_def taken_blocks_append)

lemma heap_keeps_cells:
  assumes inv: "heap_inv h mid fs" and base: "hbase h' = hbase h"
    and a: "agree (payload 2 mid) h h'"
  shows "keeps_cells heap_cell h h' (heap_blocks h mid)"
proof (clarsimp simp: heap_blocks_def)
  fix i n k assume b: "(i, n) \<in> taken_blocks 2 mid" and k: "0 \<le> k" "k < n - 2"
  obtain xs ys where mid: "mid = xs @ (n, True) # ys" "i = 2 + bsum xs"
    using taken_blocks_split [OF b] by blast
  have idx: "free_index h (cell_ptr h (i + 1)) = i" using heap_inv_block(6) inv mid by blast
  have "free_index h' p = free_index h p" for p using base by (simp add: free_index_def)
  moreover have "i + 1 + k \<in> payload 2 mid" using taken_blocks_payload [OF b] k by auto
  ultimately show "heap_cell h' (cell_ptr h (i + 1)) k = heap_cell h (cell_ptr h (i + 1)) k"
    using a idx by (simp add: heap_cell_def)
qed

lemma heap_ptr_fresh:
  assumes inv: "heap_inv h (xs @ (n, t) # ys) fs"
  shows "cell_ptr h (2 + bsum xs + 1) \<notin> fst ` heap_blocks h (xs @ (n, False) # ys)"
proof
  let ?i = "2 + bsum xs" and ?mid = "xs @ (n, False) # ys"
  assume "cell_ptr h (?i + 1) \<in> fst ` heap_blocks h ?mid"
  then obtain j m where j: "(j, m) \<in> taken_blocks 2 ?mid" "cell_ptr h (?i + 1) = cell_ptr h (j + 1)"
    by (auto simp: heap_blocks_def)
  have w: "wide xs" "wide ys" "4 \<le> n" and b: "uint (hbase h) + 4 * hlen h < 2 ^ 32"
    using inv by (auto simp: heap_inv_def Let_def intro!: wide4)
  have len: "hlen h = bsum ?mid + 4" using heap_inv_len [OF inv] by simp
  have "wide ?mid" using w by simp
  note jr = taken_blocks_range [OF j(1) this]
  have "j + 1 < hlen h" "0 \<le> j + 1" using jr len by auto
  moreover have "?i + 1 < hlen h" "0 \<le> ?i + 1"
    using len w bsum_nonneg [OF w(1)] bsum_nonneg [OF w(2)] by auto
  ultimately have "j = ?i" using j(2) cell_ptr_uint [OF _ _ b] by (metis add_left_cancel add_right_cancel mult_left_cancel zero_neq_numeral)
  moreover have "(j, m) \<in> taken_blocks 2 xs \<or> (j, m) \<in> taken_blocks (?i + n) ys"
    using j(1) by (simp add: taken_blocks_append)
  ultimately show False
    using taken_blocks_range [OF _ w(1)] taken_blocks_range [OF _ w(2)] w(3) by fastforce
qed

text \<open>A free block of \<open>n\<close> cells cut for a request of \<open>ints\<close> cells becomes a new block handed out.\<close>

lemma take_live:
  assumes inv: "heap_inv h (xs @ (n, False) # ys) fs" and ints: "ints \<le> n"
    and inv': "heap_inv h' (xs @ split_block ints n @ ys) fs'"
    and same: "agree (payload 0 ((2, True) # xs @ (n, False) # ys)) h h'" "hbase h' = hbase h"
  defines "L \<equiv> heap_blocks h (xs @ (n, False) # ys)" and "p \<equiv> cell_ptr h' (2 + bsum xs + 1)"
  shows "keeps_cells heap_cell h h' L \<and> p \<noteq> 0 \<and> p \<notin> fst ` L \<and> (\<exists>k. ints - 2 \<le> k \<and> heap_live h' (insert (p, k) L))"
proof -
  let ?m = "if 4 \<le> n - ints then ints else n"
  have c: "cell_ptr h' i = cell_ptr h i" for i using same(2) by (simp add: cell_ptr_def)
  then have p: "p = cell_ptr h (2 + bsum xs + 1)" by (simp add: p_def)
  have "heap_blocks h' (xs @ split_block ints n @ ys) = insert (p, ?m - 2) L"
    by (auto simp: L_def p_def heap_blocks_def taken_blocks_append taken_blocks_split_block c)
  then have "heap_live h' (insert (p, ?m - 2) L)" using inv' by (auto simp: heap_live_def)
  moreover have "ints - 2 \<le> ?m - 2" using ints by simp
  moreover have "p \<notin> fst ` L" using heap_ptr_fresh [OF inv] p L_def by simp
  moreover have "p \<noteq> 0"
  proof -
    obtain m zs where "xs @ split_block ints n @ ys = xs @ (m, True) # zs"
      by (cases "4 \<le> n - ints") (auto simp: split_block_def)
    then show ?thesis using heap_inv_block(4) inv' p_def by metis
  qed
  moreover have "keeps_cells heap_cell h h' L"
    unfolding L_def using same(1) by (intro heap_keeps_cells [OF inv same(2)]) auto
  ultimately show ?thesis by blast
qed

lemma malloc_outcome:
  assumes inv: "heap_inv h mid fs" and b: "b \<noteq> 0"
  shows "\<exists>h' p. malloc h b = Some (Inr (h', p)) \<and> keeps_cells heap_cell h h' (heap_blocks h mid) \<and>
    (if \<exists>(n, t) \<in> set mid. \<not> t \<and> request_ints b \<le> n then
       p \<noteq> 0 \<and> p \<notin> fst ` heap_blocks h mid \<and>
       (\<exists>n. request_ints b - 2 \<le> n \<and> heap_live h' (insert (p, n) (heap_blocks h mid)))
     else p = 0 \<and> h' = h)"
proof (cases "\<exists>(n, t) \<in> set mid. \<not> t \<and> request_ints b \<le> n")
  case False
  then have "malloc h b = Some (Inr (h, 0))" using inv b by (intro malloc_null) force+
  then show ?thesis using False by auto
next
  case True
  from malloc_block [OF inv b True] obtain xs n ys h' fs' where
    mid: "mid = xs @ (n, False) # ys" "request_ints b \<le> n" and
    h': "malloc h b = Some (Inr (h', cell_ptr h' (2 + bsum xs + 1)))"
    "heap_inv h' (xs @ split_block (request_ints b) n @ ys) fs'"
    "agree (payload 0 ((2, True) # mid)) h h'" "hbase h' = hbase h"
    by blast
  show ?thesis
    using True unfolding mid(1) if_P [OF True [unfolded mid(1)]]
    using take_live [OF inv [unfolded mid(1)] mid(2) h'(2) h'(3) [unfolded mid(1)] h'(4)] h'(1) by blast
qed

lemma heap_alloc_contract:
  assumes live: "heap_live h L" and b: "b \<noteq> 0"
  shows "\<exists>h' p. malloc h b = Some (Inr (h', p)) \<and> keeps_cells heap_cell h h' L \<and>
    (p = 0 \<and> h' = h \<or>
     p \<noteq> 0 \<and> p \<notin> fst ` L \<and> (\<exists>n. request_ints b - 2 \<le> n \<and> heap_live h' (insert (p, n) L)))"
proof -
  obtain mid fs where "heap_inv h mid fs" "L = heap_blocks h mid" using live by (auto simp: heap_live_def)
  then show ?thesis using malloc_outcome [OF _ b, of h mid fs] by (cases "\<exists>(n, t) \<in> set mid. \<not> t \<and> request_ints b \<le> n") auto
qed

lemma heap_dealloc_contract:
  assumes live: "heap_live h L" and p: "(p, n) \<in> L"
  shows "\<exists>h'. hfree h p = Inr h' \<and> heap_live h' (L - {(p, n)}) \<and> keeps_cells heap_cell h h' (L - {(p, n)})"
proof -
  obtain mid fs where inv: "heap_inv h mid fs" and L: "L = heap_blocks h mid"
    using live by (auto simp: heap_live_def)
  obtain i m where im: "(i, m) \<in> taken_blocks 2 mid" "p = cell_ptr h (i + 1)" "n = m - 2"
    using p L by (auto simp: heap_blocks_def)
  obtain xs ys where mid: "mid = xs @ (m, True) # ys" "i = 2 + bsum xs"
    using taken_blocks_split [OF im(1)] by blast
  obtain h' fs' where h': "hfree h p = Inr h'" "heap_inv h' (release xs m ys) fs'"
    "agree (payload 2 xs \<union> payload (2 + bsum xs + m) ys) h h'" "hbase h' = hbase h"
    using hfree_spec [of h xs m ys fs] inv mid im(2) by auto
  let ?rest = "heap_blocks h (xs @ (m, False) # ys)"
  have "(p, n) \<notin> ?rest"
    using heap_ptr_fresh [of h xs m True ys fs] inv mid im(2) by force
  then have rest: "L - {(p, n)} = ?rest"
    using heap_blocks_append [of h xs m ys] L mid im(2,3) by simp
  have "heap_blocks h' (release xs m ys) = ?rest"
    unfolding heap_blocks_base [OF h'(4)]
    by (simp add: heap_blocks_def taken_blocks_release taken_blocks_append)
  then have "heap_live h' (L - {(p, n)})" using h'(2) rest by (auto simp: heap_live_def)
  moreover have "keeps_cells heap_cell h h' ?rest"
  proof -
    have "heap_cell h' (cell_ptr h (j + 1)) k = heap_cell h (cell_ptr h (j + 1)) k"
      if j: "(j, l) \<in> taken_blocks 2 (xs @ (m, False) # ys)" and k: "0 \<le> k" "k < l - 2" for j l k
    proof -
      have "(j, l) \<in> taken_blocks 2 mid" using j mid(1) by (auto simp: taken_blocks_append)
      then obtain us vs where "mid = us @ (l, True) # vs" "j = 2 + bsum us"
        using taken_blocks_split by blast
      then have "free_index h (cell_ptr h (j + 1)) = j" using heap_inv_block(6) inv by blast
      moreover have "j + 1 + k \<in> {j + 1..j + l - 2}" using k by simp
      then have "j + 1 + k \<in> payload 2 xs \<union> payload (2 + bsum xs + m) ys"
        using taken_blocks_payload [OF j] by (simp add: payload_append subset_iff)
      moreover have "free_index h' q = free_index h q" for q using h'(4) by (simp add: free_index_def)
      ultimately show ?thesis using h'(3) by (auto simp: heap_cell_def)
    qed
    then show ?thesis by (auto simp: heap_blocks_def)
  qed
  ultimately show ?thesis using h'(1) rest by auto
qed

interpretation kheap: block_allocator heap_live malloc hfree heap_cell "\<lambda>b. request_ints b - 2"
  by unfold_locales (auto intro: heap_alloc_contract heap_dealloc_contract)

subsection \<open>Initialisation and the size of a request\<close>

lemma heap_layout_inv:
  assumes "havail h = 0" "8 \<le> uint (bytes div 4)" "0 < uint base" "uint base + 4 * uint (bytes div 4) < 2 ^ 32"
  shows "heap_inv (heap_layout h base bytes) [(uint (bytes div 4) - 4, False)] [2]"
  using assms
  by (simp add: heap_layout_def heap_inv_def makeTaken_def makeAvail_def footerFromHeader_def hsize_def
      habs_def heap_writes Let_def)

text \<open>The cells a request needs: its bytes in words of four, and two tags; a block has at least four cells.\<close>

lemma request_ints_value:
  assumes "bytes \<le> 0xFFFFFFFC"
  shows "request_ints bytes = max 4 ((uint bytes + 3) div 4 + 2)"
proof -
  have b: "uint bytes \<le> 0xFFFFFFFC" using assms by (simp add: word_le_def)
  have "uint (bytes + 3) = uint bytes + 3" using b by (simp add: uint_plus_if_size word_size)
  then have "uint ((bytes + 3) div 4) = (uint bytes + 3) div 4" by (simp add: uint_div_distrib)
  moreover have "0 \<le> (uint bytes + 3) div 4 \<and> (uint bytes + 3) div 4 < 1073741824"
    using b uint_ge_0 [of bytes] by linarith
  ultimately have "uint ((bytes + 3) div 4 + 2) = (uint bytes + 3) div 4 + 2"
    by (simp add: uint_plus_if_size word_size)
  then show ?thesis by (auto simp: request_ints_def Let_def)
qed

lemma request_ints_covers: "bytes \<le> 0xFFFFFFFC \<Longrightarrow> uint bytes \<le> 4 * (request_ints bytes - 2)"
  using uint_ge_0 [of bytes] by (simp add: request_ints_value max_def) linarith

lemma request_ints_wraps: "0xFFFFFFFD \<le> bytes \<Longrightarrow> request_ints bytes = 4"
proof -
  assume "0xFFFFFFFD \<le> bytes"
  then have b: "0xFFFFFFFD \<le> uint bytes" "uint bytes < 2 ^ 32"
    using uint_bounded [of bytes] by (simp_all add: word_le_def)
  then have "uint (bytes + 3) = uint bytes + 3 - 2 ^ 32" by (simp add: uint_plus_if_size word_size)
  then have "uint ((bytes + 3) div 4) = 0" using b by (simp add: uint_div_distrib)
  then have "(bytes + 3) div 4 = 0" by (simp only: uint_0_iff)
  then show ?thesis by (simp add: request_ints_def Let_def)
qed

subsection \<open>Properties\<close>

text \<open>
  \<^bold>\<open>C4.\<close> Allocation (\<^verbatim>\<open>malloc\<close> in heap.cc). In a well formed heap with the blocks \<open>mid\<close> (sizes in cells, with
  two tags each, and whether they are taken), a request for \<open>b\<close> bytes always returns. The result is null, with the
  heap unchanged, exactly when no free block has the cells needed for \<open>b\<close> bytes and two tags (and at least four).
  Otherwise it is a new pointer, different from every pointer handed out, and joins the blocks handed out with \<open>n\<close>
  cells of four bytes that hold the \<open>b\<close> bytes. In both cases the contents of all blocks handed
  out before are unchanged. Only above 0xFFFFFFFC bytes does the size wrap around: then four cells count as
  enough, and the block is too small.
\<close>

theorem malloc_contract:
  assumes "heap_inv h mid fs" "b \<noteq> 0"
    and "need = (if b \<le> 0xFFFFFFFC then max 4 ((uint b + 3) div 4 + 2) else 4)"
  shows "\<exists>h' p. malloc h b = Some (Inr (h', p)) \<and>
    (\<forall>(q, n) \<in> heap_blocks h mid. \<forall>k. 0 \<le> k \<longrightarrow> k < n \<longrightarrow> heap_cell h' q k = heap_cell h q k) \<and>
    (if \<exists>(n, t) \<in> set mid. \<not> t \<and> need \<le> n then
       p \<noteq> 0 \<and> p \<notin> fst ` heap_blocks h mid \<and>
       (\<exists>n. (b \<le> 0xFFFFFFFC \<longrightarrow> uint b \<le> 4 * n) \<and> heap_live h' (insert (p, n) (heap_blocks h mid)))
     else p = 0 \<and> h' = h)"
proof -
  have "\<not> b \<le> 0xFFFFFFFC \<Longrightarrow> 0xFFFFFFFD \<le> b" by (simp add: word_le_def)
  then have r: "request_ints b = need" using assms(3) request_ints_value request_ints_wraps by auto
  have c: "uint b \<le> 4 * n" if "b \<le> 0xFFFFFFFC" "need - 2 \<le> n" for n
    using request_ints_covers [OF that(1)] that(2) r by simp
  obtain h' p where h': "malloc h b = Some (Inr (h', p))" "keeps_cells heap_cell h h' (heap_blocks h mid)"
    "if \<exists>(n, t) \<in> set mid. \<not> t \<and> need \<le> n then
       p \<noteq> 0 \<and> p \<notin> fst ` heap_blocks h mid \<and> (\<exists>n. need - 2 \<le> n \<and> heap_live h' (insert (p, n) (heap_blocks h mid)))
     else p = 0 \<and> h' = h"
    using malloc_outcome [OF assms(1,2)] unfolding r by blast
  have "(if \<exists>(n, t) \<in> set mid. \<not> t \<and> need \<le> n then
       p \<noteq> 0 \<and> p \<notin> fst ` heap_blocks h mid \<and>
       (\<exists>n. (b \<le> 0xFFFFFFFC \<longrightarrow> uint b \<le> 4 * n) \<and> heap_live h' (insert (p, n) (heap_blocks h mid)))
     else p = 0 \<and> h' = h)"
    using h'(3) c by (cases "\<exists>(n, t) \<in> set mid. \<not> t \<and> need \<le> n") auto
  with h'(1,2) show ?thesis by blast
qed

definition sample_heap :: heap where
  "sample_heap = heap_layout \<lparr>array = (\<lambda>_. 0), hlen = 0, havail = 0, hbase = 0\<rparr> 0x10000 400"

lemma sample_heap_inv: "heap_inv sample_heap [(96, False)] [2]"
proof -
  have "uint (400 div 4 :: u32) = 100" by simp
  then show ?thesis
    using heap_layout_inv [of "\<lparr>array = (\<lambda>_. 0), hlen = 0, havail = 0, hbase = 0\<rparr>" 400 "0x10000"]
    by (simp add: sample_heap_def)
qed

lemma sample_heap_live: "heap_live sample_heap {}"
proof -
  have "heap_blocks sample_heap [(96, False)] = {}" by (simp add: heap_blocks_def)
  then show ?thesis using sample_heap_inv by (auto simp: heap_live_def)
qed

theorem malloc_contract_witness:
  "(\<exists>h' p n. malloc sample_heap 100 = Some (Inr (h', p)) \<and> p \<noteq> 0 \<and> 100 \<le> 4 * n \<and> heap_live h' {(p, n)}) \<and>
   malloc sample_heap 400 = Some (Inr (sample_heap, 0))"
proof -
  have e: "heap_blocks sample_heap [(96, False)] = {}" by (simp add: heap_blocks_def)
  show ?thesis
    using malloc_contract [OF sample_heap_inv, of 100 27] malloc_contract [OF sample_heap_inv, of 400 102]
    by (auto simp: e)
qed

text \<open>
  \<^bold>\<open>C5.\<close> Release (\<^verbatim>\<open>free\<close> in heap.cc). Releasing a block that was handed out succeeds: exactly that
  block leaves the blocks handed out, and the contents of the others are unchanged.
\<close>

theorem free_contract:
  assumes "heap_live h L" "(p, n) \<in> L"
  shows "\<exists>h'. hfree h p = Inr h' \<and> heap_live h' (L - {(p, n)}) \<and>
    (\<forall>(q, m) \<in> L - {(p, n)}. \<forall>k. 0 \<le> k \<longrightarrow> k < m \<longrightarrow> heap_cell h' q k = heap_cell h q k)"
  using kheap.dealloc_spec [OF assms] by blast

text \<open>A heap with one block of 100 bytes handed out.\<close>

lemma sample_heap_block:
  obtains h p n where "malloc sample_heap 100 = Some (Inr (h, p))" "p \<noteq> 0" "heap_live h {(p, n)}"
proof -
  have r: "request_ints 100 = 27" by (simp add: request_ints_def Let_def)
  obtain xs n ys h fs where b: "[(96, False)] = xs @ (n, False) # ys"
    "malloc sample_heap 100 = Some (Inr (h, cell_ptr h (2 + bsum xs + 1)))"
    "heap_inv h (xs @ split_block (request_ints 100) n @ ys) fs"
    using malloc_block [OF sample_heap_inv, of 100] r by auto
  have e: "xs = []" "n = 96" "ys = []" using b(1) by (cases xs; simp)+
  have inv: "heap_inv h ([] @ (27, True) # [(69, False)]) fs" using b(3) e r by (simp add: split_block_def)
  have "heap_blocks h [(27, True), (69, False)] = {(cell_ptr h 3, 25)}" by (simp add: heap_blocks_def)
  then have "heap_live h {(cell_ptr h 3, 25)}" using inv by (auto simp: heap_live_def)
  moreover have "cell_ptr h 3 \<noteq> 0" using heap_inv_block(4) [OF inv] by simp
  ultimately show ?thesis using that b(2) e by simp
qed

theorem free_contract_witness:
  "\<exists>h p h'. malloc sample_heap 100 = Some (Inr (h, p)) \<and> hfree h p = Inr h' \<and> heap_live h' {}"
proof -
  obtain h p n where h: "malloc sample_heap 100 = Some (Inr (h, p))" "heap_live h {(p, n)}"
    by (rule sample_heap_block) blast
  show ?thesis using h free_contract [OF h(2), of p n] by auto
qed

text \<open>
  Allocation and release cancel. If \<^verbatim>\<open>malloc\<close> returned a block, freeing that pointer right away
  succeeds, and the blocks handed out and their contents are what they were before the request.
\<close>

theorem malloc_free_round_trip:
  assumes "heap_live h L" "b \<noteq> 0" "malloc h b = Some (Inr (h', p))" "p \<noteq> 0"
  shows "\<exists>h''. hfree h' p = Inr h'' \<and> heap_live h'' L \<and>
    (\<forall>(q, n) \<in> L. \<forall>k. 0 \<le> k \<longrightarrow> k < n \<longrightarrow> heap_cell h'' q k = heap_cell h q k)"
  by (rule kheap.alloc_dealloc [OF assms])

theorem malloc_free_round_trip_witness:
  "\<exists>h p h'. malloc sample_heap 100 = Some (Inr (h, p)) \<and> hfree h p = Inr h' \<and> heap_live h' {}"
proof -
  obtain h p n where h: "malloc sample_heap 100 = Some (Inr (h, p))" "p \<noteq> 0"
    by (rule sample_heap_block) blast
  show ?thesis using h malloc_free_round_trip [OF sample_heap_live _ h] by auto
qed

text \<open>
  Initialisation (\<^verbatim>\<open>heapInit\<close> in heap.cc). For an array of at least eight cells that lies in
  the address space, on a heap that was never used, \<^verbatim>\<open>heapInit\<close> succeeds when the lock fits; the
  heap is then well formed and the lock is the only block handed out.
\<close>

theorem heapInit_establishes:
  assumes "havail h = 0" "8 \<le> uint (bytes div 4)" "0 < uint base" "uint base + 4 * uint (bytes div 4) < 2 ^ 32"
    and "lock_size \<noteq> 0" "request_ints lock_size \<le> uint (bytes div 4) - 4"
  shows "\<exists>h' p n. heapInit h base bytes lock_size = Some (Inr (h', p)) \<and> p \<noteq> 0 \<and>
    request_ints lock_size - 2 \<le> n \<and> heap_live h' {(p, n)}"
proof -
  let ?m = "uint (bytes div 4) - 4" and ?h = "heap_layout h base bytes"
  have inv: "heap_inv ?h [(?m, False)] [2]" by (rule heap_layout_inv [OF assms(1-4)])
  have "heap_blocks ?h [(?m, False)] = {}" by (simp add: heap_blocks_def)
  then have live: "heap_live ?h {}" using inv by (auto simp: heap_live_def)
  obtain h' p where m: "malloc ?h lock_size = Some (Inr (h', p))"
    "p = 0 \<and> h' = ?h \<or> p \<noteq> 0 \<and> (\<exists>n. request_ints lock_size - 2 \<le> n \<and> heap_live h' {(p, n)})"
    using kheap.alloc_spec [OF live assms(5)] by auto
  obtain xs n ys h2 fs where b: "[(?m, False)] = xs @ (n, False) # ys"
    "malloc ?h lock_size = Some (Inr (h2, cell_ptr h2 (2 + bsum xs + 1)))"
    "heap_inv h2 (xs @ split_block (request_ints lock_size) n @ ys) fs"
    using malloc_block [OF inv assms(5)] assms(6) by auto
  obtain k zs where "xs @ split_block (request_ints lock_size) n @ ys = xs @ (k, True) # zs"
    by (cases "4 \<le> n - request_ints lock_size") (auto simp: split_block_def)
  then have "p \<noteq> 0" using m(1) b(2,3) heap_inv_block(4) by (metis Inr_inject option.inject prod.inject)
  then show ?thesis using m by (auto simp: heapInit_def operator_new_def)
qed

theorem heapInit_establishes_witness:
  "\<exists>h' p n. heapInit \<lparr>array = (\<lambda>_. 0), hlen = 0, havail = 0, hbase = 0\<rparr> 0x10000 400 24 = Some (Inr (h', p)) \<and>
     p \<noteq> 0 \<and> 6 \<le> n \<and> heap_live h' {(p, n)}"
proof -
  have r: "request_ints 24 = 8" by (simp add: request_ints_def Let_def)
  show ?thesis
    using heapInit_establishes [of "\<lparr>array = (\<lambda>_. 0), hlen = 0, havail = 0, hbase = 0\<rparr>" 400 "0x10000" 24] r by simp
qed

text \<open>
  The size computation of \<^verbatim>\<open>malloc\<close> (heap.cc). Up to 0xFFFFFFFC bytes the number of cells
  requested covers the bytes; above that the unsigned sum wraps around and four cells are requested,
  two of which are tags, so a request of almost four gigabytes is granted with a block of eight
  bytes.
\<close>

theorem malloc_request_size:
  "if bytes \<le> 0xFFFFFFFC then uint bytes \<le> 4 * (request_ints bytes - 2) else request_ints bytes = 4"
proof (cases "bytes \<le> 0xFFFFFFFC")
  case True
  then show ?thesis using request_ints_covers by simp
next
  case False
  then have "0xFFFFFFFC < uint bytes" by (simp add: word_le_def)
  then have "0xFFFFFFFD \<le> bytes" by (simp add: word_le_def)
  then show ?thesis using False request_ints_wraps by simp
qed

end
