(* ===== verification/LibK.thy ===== *)
theory LibK
  imports Kernel_Prelude
begin

text \<open>
  The helpers of \<^verbatim>\<open>kernel/libk.cc\<close> and \<^verbatim>\<open>kernel/libk.h\<close>, and the generator of \<^verbatim>\<open>kernel/random.h\<close>. A
  character buffer is the list of its bytes; reading past its end has no meaning in C++.
\<close>

subsection \<open>Strings (libk.cc)\<close>

fun strlen :: "u8 list \<Rightarrow> nat result" where
  "strlen [] = Inl (Undefined_Behaviour ''read past the end of the buffer'')"
| "strlen (c # cs) = (if c \<noteq> 0 then rbind (strlen cs) (\<lambda>n. Inr (Suc n)) else Inr 0)"

definition isdigit :: "int \<Rightarrow> bool" where
  "isdigit c \<longleftrightarrow> c \<ge> 48 \<and> c \<le> 57"

fun streq :: "u8 list \<Rightarrow> u8 list \<Rightarrow> bool result" where
  "streq (x # xs) (y # ys) =
     (if x \<noteq> y then Inr False else if x = 0 then Inr True else streq xs ys)"
| "streq _ _ = Inl (Undefined_Behaviour ''read past the end of the buffer'')"

definition kmin :: "u32 \<Rightarrow> u32 \<Rightarrow> u32" where
  "kmin a b = (if a < b then a else b)"

text \<open>The text of a buffer: what precedes its terminating zero.\<close>

definition c_text :: "u8 list \<Rightarrow> u8 list" where
  "c_text bs = takeWhile (\<lambda>c. c \<noteq> 0) bs"

lemma c_text_terminated [simp]: "0 \<notin> set cs \<Longrightarrow> c_text (cs @ 0 # rest) = cs"
  unfolding c_text_def by (induction cs) auto

lemma strlen_c_text: "0 \<in> set bs \<Longrightarrow> strlen bs = Inr (length (c_text bs))"
  by (induction bs) (auto simp: c_text_def)

lemma streq_c_text:
  assumes "0 \<in> set xs" "0 \<in> set ys"
  shows "streq xs ys = Inr (c_text xs = c_text ys)"
  using assms by (induction xs ys rule: streq.induct) (auto simp: c_text_def split: if_splits)

subsection \<open>Pseudo-random numbers (random.h)\<close>

record random =
  rw :: u32
  rz :: u32

definition random_new :: "u32 \<Rightarrow> random" where
  "random_new seed =
     (let w = seed; z = NOT seed;
          w = (if w = 0 \<or> w = 0x464fffff then w + 1 else w);
          z = (if z = 0 \<or> z = 0x9068ffff then z + 1 else z)
      in \<lparr>rw = w, rz = z\<rparr>)"

definition random_next :: "random \<Rightarrow> random \<times> u32" where
  "random_next r =
     (let z = 36969 * (rz r AND 65535) + drop_bit 16 (rz r);
          w = 18000 * (rw r AND 65535) + drop_bit 16 (rw r)
      in (\<lparr>rw = w, rz = z\<rparr>, push_bit 16 z + w))"

end
