(* ===== verification/Snprintf.thy ===== *)
theory Snprintf
  imports LibK
begin

text \<open>
  The formatter of \<^verbatim>\<open>kernel/snprintf.cc\<close>. The output stream is the list of characters put so far,
  the variable arguments are a list, and \<^verbatim>\<open>long\<close> is 32 bits wide. A floating-point argument is
  represented by its sign and, for each precision, the integer part and the scaled fraction the
  processor computes from it (\<^verbatim>\<open>intpart\<close> and \<^verbatim>\<open>fracpart\<close> before printing). Missing or ill-typed
  arguments, reads past the terminating zero and arithmetic on \<^verbatim>\<open>int\<close> and \<^verbatim>\<open>long\<close> that leaves their range have no meaning.
\<close>

subsection \<open>State and flags (snprintf.cc)\<close>

datatype dp_state = DP_S_DEFAULT | DP_S_FLAGS | DP_S_MIN | DP_S_DOT | DP_S_MAX | DP_S_MOD | DP_S_CONV

definition DP_F_MINUS :: u32 where "DP_F_MINUS = 1"

definition DP_F_PLUS :: u32 where "DP_F_PLUS = 2"

definition DP_F_SPACE :: u32 where "DP_F_SPACE = 4"

definition DP_F_NUM :: u32 where "DP_F_NUM = 8"

definition DP_F_ZERO :: u32 where "DP_F_ZERO = 16"

definition DP_F_UP :: u32 where "DP_F_UP = 32"

definition DP_F_UNSIGNED :: u32 where "DP_F_UNSIGNED = 64"

datatype dp_cflags = DP_C_NONE | DP_C_SHORT | DP_C_LONG | DP_C_LDOUBLE

datatype va_arg =
    Word_Arg u32
  | Str_Arg "u8 list option"
  | Fp_Arg bool "int \<Rightarrow> int \<times> int"

text \<open>
  The result of an operation on \<^verbatim>\<open>int\<close> or \<^verbatim>\<open>long\<close>. A sum of several terms of one sign is checked once, at its end: it leaves the
  range if and only if one of its parts does.
\<close>

definition c_int :: "int \<Rightarrow> int result" where
  "c_int x = (if - 2147483648 \<le> x \<and> x \<le> 2147483647 then Inr x else Inl (Undefined_Behaviour ''signed overflow''))"

text \<open>The sink: the characters put and \<^verbatim>\<open>currlen\<close>, whose range \<open>dopr\<close> checks at the end, since it only grows.\<close>

record sink =
  out :: "u8 list"
  currlen :: int

definition ascii :: "char \<Rightarrow> u8" where
  "ascii c = of_nat (of_char c)"

definition dopr_outch :: "sink \<Rightarrow> u8 \<Rightarrow> sink" where
  "dopr_outch s c = \<lparr>out = out s @ [c], currlen = currlen s + 1\<rparr>"

definition put_all :: "sink \<Rightarrow> u8 list \<Rightarrow> sink" where
  "put_all s cs = foldl dopr_outch s cs"

definition spaces :: "int \<Rightarrow> u8 list" where
  "spaces n = replicate (nat n) (ascii CHR '' '')"

definition zeros :: "int \<Rightarrow> u8 list" where
  "zeros n = replicate (nat n) (ascii CHR ''0'')"

definition flag :: "u32 \<Rightarrow> u32 \<Rightarrow> bool" where
  "flag flags f \<longleftrightarrow> flags AND f \<noteq> 0"

subsection \<open>fmtstr (snprintf.cc)\<close>

text \<open>The three loops of \<^verbatim>\<open>fmtstr\<close> all count in \<^verbatim>\<open>cnt\<close> and stop at \<open>mx\<close>.\<close>

definition fmtstr :: "sink \<Rightarrow> u8 list option \<Rightarrow> u32 \<Rightarrow> int \<Rightarrow> int \<Rightarrow> sink result" where
  "fmtstr s val flags mn mx =
     rbind (case val of None \<Rightarrow> Inr (map ascii ''<NULL>'') | Some v \<Rightarrow> rbind (strlen v) (\<lambda>n. Inr (take n v))) (\<lambda>str.
     rbind (c_int (int (length str))) (\<lambda>strln.
     rbind (c_int (mn - strln)) (\<lambda>padlen.
      let padlen = (if padlen < 0 then 0 else padlen);
          padlen = (if flag flags DP_F_MINUS then - padlen else padlen);
          s = put_all s (take (nat mx) (spaces padlen));
          cnt = (if padlen > 0 then min padlen (max mx 0) else 0);
          s = put_all s (take (nat (mx - cnt)) str);
          cnt = cnt + min strln (max (mx - cnt) 0)
      in Inr (put_all s (take (nat (mx - cnt)) (spaces (- padlen)))))))"

subsection \<open>fmtint (snprintf.cc)\<close>

definition digit :: "bool \<Rightarrow> u32 \<Rightarrow> u8" where
  "digit caps d = map ascii (if caps then ''0123456789ABCDEF'' else ''0123456789abcdef'') ! unat d"

text \<open>The digits in the order the loop stores them, least significant first; the array holds 20.\<close>

primrec convert :: "nat \<Rightarrow> bool \<Rightarrow> u32 \<Rightarrow> u32 \<Rightarrow> u8 list" where
  "convert 0 caps base uvalue = []"
| "convert (Suc room) caps base uvalue =
     digit caps (uvalue mod base) #
     (if uvalue div base \<noteq> 0 then convert room caps base (uvalue div base) else [])"

text \<open>The padding and the four loops that print.\<close>

definition put_int :: "sink \<Rightarrow> u8 list \<Rightarrow> u8 list \<Rightarrow> int \<Rightarrow> int \<Rightarrow> u32 \<Rightarrow> sink" where
  "put_int s sign conv zpadlen spadlen flags =
     (let zpadlen = (if zpadlen < 0 then 0 else zpadlen);
          spadlen = (if spadlen < 0 then 0 else spadlen);
          zpadlen' = (if flag flags DP_F_ZERO then max zpadlen spadlen else zpadlen);
          spadlen' = (if flag flags DP_F_ZERO then 0 else spadlen);
          spadlen' = (if flag flags DP_F_MINUS then - spadlen' else spadlen');
          s = put_all s (spaces spadlen');
          s = put_all s sign;
          s = put_all s (zeros zpadlen');
          s = put_all s (rev conv)
      in put_all s (spaces (- spadlen')))"

definition fmtint :: "sink \<Rightarrow> u32 \<Rightarrow> u32 \<Rightarrow> int \<Rightarrow> int \<Rightarrow> u32 \<Rightarrow> sink result" where
  "fmtint s val base mn mx flags =
     (let mx = (if mx < 0 then 0 else mx);
          neg = \<not> flag flags DP_F_UNSIGNED \<and> sint val < 0;
          sign = (if flag flags DP_F_UNSIGNED then []
                  else if neg then [ascii CHR ''-'']
                  else if flag flags DP_F_PLUS then [ascii CHR ''+'']
                  else if flag flags DP_F_SPACE then [ascii CHR '' ''] else [])
      in rbind (if neg then rbind (c_int (- sint val)) (\<lambda>v. Inr (word_of_int v)) else Inr val) (\<lambda>uvalue.
         let conv = convert 20 (flag flags DP_F_UP) base uvalue;
             conv = (if length conv = 20 then take 19 conv else conv);
             place = int (length conv)
         in rbind (c_int (mn - max mx place - int (length sign))) (\<lambda>spadlen.
            Inr (put_int s sign conv (mx - place) spadlen flags))))"

subsection \<open>fmtfp (snprintf.cc)\<close>

text \<open>Digits of a \<^verbatim>\<open>long\<close> that is not negative, least significant first.\<close>

primrec convert10 :: "nat \<Rightarrow> int \<Rightarrow> u8 list" where
  "convert10 0 v = []"
| "convert10 (Suc room) v =
     digit False (of_int (v mod 10)) # (if v div 10 \<noteq> 0 then convert10 room (v div 10) else [])"

definition fmtfp :: "sink \<Rightarrow> bool \<Rightarrow> (int \<Rightarrow> int \<times> int) \<Rightarrow> int \<Rightarrow> int \<Rightarrow> u32 \<Rightarrow> sink result" where
  "fmtfp s neg parts mn mx flags =
     (let mx = (if mx < 0 then 6 else mx);
          sign = (if neg then [ascii CHR ''-'']
                  else if flag flags DP_F_PLUS then [ascii CHR ''+'']
                  else if flag flags DP_F_SPACE then [ascii CHR '' ''] else []);
          mx = (if mx > 9 then 9 else mx);
          (intpart, fracpart) = parts mx;
          iconv = convert10 20 intpart;
          iconv = (if length iconv = 20 then take 19 iconv else iconv);
          fconv = convert10 20 fracpart;
          fconv = (if length fconv = 20 then take 19 fconv else fconv)
      in rbind (c_int (mn - int (length iconv) - mx - 1 - int (length sign))) (\<lambda>padlen.
      let zpadlen = mx - int (length fconv);
          zpadlen = (if zpadlen < 0 then 0 else zpadlen);
          padlen = (if padlen < 0 then 0 else padlen);
          padlen = (if flag flags DP_F_MINUS then - padlen else padlen);
          zero = flag flags DP_F_ZERO \<and> padlen > 0;
          s = (if zero then put_all (put_all s sign) (zeros (padlen - int (length sign))) else s);
          sign' = (if zero then [] else sign);
          padlen = (if zero then min 0 (padlen - int (length sign)) else padlen);
          s = put_all s (spaces padlen);
          s = put_all s sign';
          s = put_all s (rev iconv);
          s = (if mx > 0 then put_all (dopr_outch s (ascii CHR ''.'')) (rev fconv) else s);
          s = put_all s (zeros zpadlen)
      in Inr (put_all s (spaces (- padlen)))))"

subsection \<open>dopr (snprintf.cc)\<close>

record dopr_state =
  dp_state :: dp_state
  dp_flags :: u32
  dp_cflags :: dp_cflags
  dp_min :: int
  dp_max :: int
  dp_args :: "va_arg list"
  dp_sink :: sink
  dp_stores :: "(u32 \<times> int) list"

definition no_arg :: "'a result" where
  "no_arg = Inl (Undefined_Behaviour ''va_arg of a missing or ill-typed argument'')"

fun word_arg :: "dopr_state \<Rightarrow> (u32 \<Rightarrow> dopr_state \<Rightarrow> 'a result) \<Rightarrow> 'a result" where
  "word_arg s f =
     (case dp_args s of Word_Arg w # as \<Rightarrow> f w (s\<lparr>dp_args := as\<rparr>) | _ \<Rightarrow> no_arg)"

definition on_sink :: "(sink \<Rightarrow> sink) \<Rightarrow> dopr_state \<Rightarrow> dopr_state" where
  "on_sink f s = s\<lparr>dp_sink := f (dp_sink s)\<rparr>"

definition on_sink_r :: "(sink \<Rightarrow> sink result) \<Rightarrow> dopr_state \<Rightarrow> dopr_state result" where
  "on_sink_r f s = rbind (f (dp_sink s)) (\<lambda>k. Inr (s\<lparr>dp_sink := k\<rparr>))"

definition conv_int :: "u32 \<Rightarrow> u32 \<Rightarrow> dopr_state \<Rightarrow> dopr_state result" where
  "conv_int base fl s =
     (let s = s\<lparr>dp_flags := dp_flags s OR fl\<rparr> in
      word_arg s (\<lambda>w s. on_sink_r (\<lambda>k. fmtint k w base (dp_min s) (dp_max s) (dp_flags s)) s))"

text \<open>The conversion character: its effect, and whether it skips a further character.\<close>

definition dopr_conv :: "int \<Rightarrow> u8 \<Rightarrow> dopr_state \<Rightarrow> (dopr_state \<times> bool) result" where
  "dopr_conv maxlen ch s =
     (let keep = (\<lambda>r. rbind r (\<lambda>s. Inr (s, False))) in
      if ch = ascii CHR ''d'' \<or> ch = ascii CHR ''i'' then keep (conv_int 10 0 s)
      else if ch = ascii CHR ''o'' then keep (conv_int 8 DP_F_UNSIGNED s)
      else if ch = ascii CHR ''u'' then keep (conv_int 10 DP_F_UNSIGNED s)
      else if ch = ascii CHR ''X'' then keep (conv_int 16 (DP_F_UP OR DP_F_UNSIGNED) s)
      else if ch = ascii CHR ''x'' then keep (conv_int 16 DP_F_UNSIGNED s)
      else if ch = ascii CHR ''f'' then
        (case dp_args s of
           Fp_Arg neg parts # as \<Rightarrow>
             keep (on_sink_r (\<lambda>k. fmtfp k neg parts (dp_min s) (dp_max s) (dp_flags s)) (s\<lparr>dp_args := as\<rparr>))
         | _ \<Rightarrow> no_arg)
      else if ch \<in> {ascii CHR ''E'', ascii CHR ''e'', ascii CHR ''G'', ascii CHR ''g''} then
        (case dp_args s of Fp_Arg neg parts # as \<Rightarrow> Inr (s\<lparr>dp_args := as\<rparr>, False) | _ \<Rightarrow> no_arg)
      else if ch = ascii CHR ''c'' then
        keep (word_arg s (\<lambda>w s. Inr (on_sink (\<lambda>k. dopr_outch k (ucast w)) s)))
      else if ch = ascii CHR ''s'' then
        (case dp_args s of
           Str_Arg v # as \<Rightarrow>
             let mx = (if dp_max s < 0 then maxlen else dp_max s) in
             keep (on_sink_r (\<lambda>k. fmtstr k v (dp_flags s) (dp_min s) mx) (s\<lparr>dp_args := as\<rparr>))
         | _ \<Rightarrow> no_arg)
      else if ch = ascii CHR ''p'' then keep (conv_int 16 0 s)
      else if ch = ascii CHR ''n'' then
        keep (word_arg s (\<lambda>w s. Inr (s\<lparr>dp_stores := dp_stores s @ [(w, currlen (dp_sink s))]\<rparr>)))
      else if ch = ascii CHR ''%'' then Inr (on_sink (\<lambda>k. dopr_outch k ch) s, False)
      else if ch = ascii CHR ''w'' then Inr (s, True)
      else Inr (s, False))"

definition dopr_reset :: "dopr_state \<Rightarrow> dopr_state" where
  "dopr_reset s = s\<lparr>dp_state := DP_S_DEFAULT, dp_flags := 0, dp_cflags := DP_C_NONE, dp_min := 0, dp_max := - 1\<rparr>"

text \<open>One iteration of the loop: the new state and how many characters of the format are consumed.\<close>

definition dopr_step :: "int \<Rightarrow> u8 \<Rightarrow> dopr_state \<Rightarrow> (dopr_state \<times> nat) result" where
  "dopr_step maxlen ch s =
     (case dp_state s of
        DP_S_DEFAULT \<Rightarrow>
          if ch = ascii CHR ''%'' then Inr (s\<lparr>dp_state := DP_S_FLAGS\<rparr>, 1)
          else Inr (on_sink (\<lambda>k. dopr_outch k ch) s, 1)
      | DP_S_FLAGS \<Rightarrow>
          if ch = ascii CHR ''-'' then Inr (s\<lparr>dp_flags := dp_flags s OR DP_F_MINUS\<rparr>, 1)
          else if ch = ascii CHR ''+'' then Inr (s\<lparr>dp_flags := dp_flags s OR DP_F_PLUS\<rparr>, 1)
          else if ch = ascii CHR '' '' then Inr (s\<lparr>dp_flags := dp_flags s OR DP_F_SPACE\<rparr>, 1)
          else if ch = ascii CHR ''#'' then Inr (s\<lparr>dp_flags := dp_flags s OR DP_F_NUM\<rparr>, 1)
          else if ch = ascii CHR ''0'' then Inr (s\<lparr>dp_flags := dp_flags s OR DP_F_ZERO\<rparr>, 1)
          else Inr (s\<lparr>dp_state := DP_S_MIN\<rparr>, 0)
      | DP_S_MIN \<Rightarrow>
          if isdigit (uint ch) then rbind (c_int (10 * dp_min s + (uint ch - 48))) (\<lambda>n. Inr (s\<lparr>dp_min := n\<rparr>, 1))
          else if ch = ascii CHR ''*'' then
            word_arg s (\<lambda>w s. Inr (s\<lparr>dp_min := sint w, dp_state := DP_S_DOT\<rparr>, 1))
          else Inr (s\<lparr>dp_state := DP_S_DOT\<rparr>, 0)
      | DP_S_DOT \<Rightarrow>
          if ch = ascii CHR ''.'' then Inr (s\<lparr>dp_state := DP_S_MAX\<rparr>, 1)
          else Inr (s\<lparr>dp_state := DP_S_MOD\<rparr>, 0)
      | DP_S_MAX \<Rightarrow>
          if isdigit (uint ch) then
            rbind (c_int (10 * (if dp_max s < 0 then 0 else dp_max s) + (uint ch - 48))) (\<lambda>n. Inr (s\<lparr>dp_max := n\<rparr>, 1))
          else if ch = ascii CHR ''*'' then
            word_arg s (\<lambda>w s. Inr (s\<lparr>dp_max := sint w, dp_state := DP_S_MOD\<rparr>, 1))
          else Inr (s\<lparr>dp_state := DP_S_MOD\<rparr>, 0)
      | DP_S_MOD \<Rightarrow>
          if ch = ascii CHR ''h'' then Inr (s\<lparr>dp_cflags := DP_C_SHORT, dp_state := DP_S_CONV\<rparr>, 1)
          else if ch = ascii CHR ''l'' then Inr (s\<lparr>dp_cflags := DP_C_LONG, dp_state := DP_S_CONV\<rparr>, 1)
          else if ch = ascii CHR ''L'' then Inr (s\<lparr>dp_cflags := DP_C_LDOUBLE, dp_state := DP_S_CONV\<rparr>, 1)
          else Inr (s\<lparr>dp_state := DP_S_CONV\<rparr>, 0)
      | DP_S_CONV \<Rightarrow>
          rbind (dopr_conv maxlen ch s) (\<lambda>(s, skip). Inr (dopr_reset s, if skip then 2 else 1)))"

primrec state_rank :: "dp_state \<Rightarrow> nat" where
  "state_rank DP_S_DEFAULT = 0"
| "state_rank DP_S_FLAGS = 6"
| "state_rank DP_S_MIN = 5"
| "state_rank DP_S_DOT = 4"
| "state_rank DP_S_MAX = 3"
| "state_rank DP_S_MOD = 2"
| "state_rank DP_S_CONV = 1"

lemma dopr_step_progress:
  assumes "dopr_step maxlen ch s = Inr (s', n)"
  shows "n = 0 \<and> state_rank (dp_state s') < state_rank (dp_state s) \<or> 0 < n \<and> state_rank (dp_state s') < 8"
  using assms
  by (cases "dp_state s")
    (auto simp: dopr_step_def on_sink_def dopr_reset_def no_arg_def
      split: if_splits list.splits va_arg.splits)

text \<open>The loop; the head of the list is \<^verbatim>\<open>ch\<close>, the rest what \<^verbatim>\<open>format\<close> points to.\<close>

function dopr_loop :: "int \<Rightarrow> u8 list \<Rightarrow> dopr_state \<Rightarrow> dopr_state result" where
  "dopr_loop maxlen [] s = Inl (Undefined_Behaviour ''read past the end of the format'')"
| "dopr_loop maxlen (ch # rest) s =
     (if ch = 0 \<or> currlen (dp_sink s) \<ge> maxlen then Inr s
      else
        (case dopr_step maxlen ch s of
           Inl e \<Rightarrow> Inl e
         | Inr (s', n) \<Rightarrow> dopr_loop maxlen (drop n (ch # rest)) s'))"
  by pat_completeness auto

termination
proof (relation "measure (\<lambda>(m, cs, s). 8 * length cs + state_rank (dp_state s))", goal_cases)
  case (2 maxlen ch rest s r s' n)
  then have "n = 0 \<and> state_rank (dp_state s') < state_rank (dp_state s) \<or> 0 < n \<and> state_rank (dp_state s') < 8"
    by (intro dopr_step_progress) simp
  then show ?case by (cases n) auto
qed simp

declare dopr_loop.simps [simp del]

definition dopr :: "sink \<Rightarrow> int \<Rightarrow> u8 list \<Rightarrow> va_arg list \<Rightarrow> (sink \<times> (u32 \<times> int) list) result" where
  "dopr s maxlen format args =
     rbind (dopr_loop maxlen format
              \<lparr>dp_state = DP_S_DEFAULT, dp_flags = 0, dp_cflags = DP_C_NONE, dp_min = 0, dp_max = - 1,
               dp_args = args, dp_sink = s\<lparr>currlen := 0\<rparr>, dp_stores = []\<rparr>)
       (\<lambda>d. rbind (c_int (currlen (dp_sink d))) (\<lambda>_. Inr (dp_sink d, dp_stores d)))"

definition vsnprintf :: "sink \<Rightarrow> int \<Rightarrow> u8 list \<Rightarrow> va_arg list \<Rightarrow> (sink \<times> (u32 \<times> int) list) result" where
  "vsnprintf s maxlen fmt args = dopr s maxlen fmt args"

subsection \<open>What is printed\<close>

lemma put_all_out: "out (put_all s cs) = out s @ cs" "currlen (put_all s cs) = currlen s + int (length cs)"
  by (induction cs arbitrary: s) (simp_all add: put_all_def dopr_outch_def)

lemma put_all_eq: "put_all s cs = \<lparr>out = out s @ cs, currlen = currlen s + int (length cs)\<rparr>"
  by (rule sink.equality) (simp_all add: put_all_out)

text \<open>Reading a numeral back.\<close>

definition digit_value :: "u8 \<Rightarrow> nat" where
  "digit_value c = (if unat c < 58 then unat c - 48 else if unat c < 71 then unat c - 55 else unat c - 87)"

definition numeral_value :: "nat \<Rightarrow> u8 list \<Rightarrow> nat" where
  "numeral_value base cs = foldl (\<lambda>n c. n * base + digit_value c) 0 cs"

definition parse_int :: "u8 list \<Rightarrow> int" where
  "parse_int cs =
     (case cs of
        [] \<Rightarrow> 0
      | c # ds \<Rightarrow> if c = ascii CHR ''-'' then - int (numeral_value 10 ds) else int (numeral_value 10 (c # ds)))"

lemma digit_cases: "unat (d :: u32) < 16 \<Longrightarrow> d \<in> {0, 1, 2, 3, 4, 5, 6, 7, 8, 9, 10, 11, 12, 13, 14, 15}"
proof -
  assume "unat d < 16"
  then obtain n where "n < 16" "d = of_nat n" by (metis of_nat_unat ucast_id)
  moreover from this(1) have "n \<in> {0, 1, 2, 3, 4, 5, 6, 7, 8, 9, 10, 11, 12, 13, 14, 15}"
    by (auto simp: numeral_eq_Suc less_Suc_eq)
  ultimately show ?thesis by auto
qed

lemma digit_value_digit: "unat d < 16 \<Longrightarrow> digit_value (digit caps d) = unat d"
  using digit_cases [of d] by (cases caps) (auto simp: digit_value_def digit_def ascii_def)

lemma digit_not_minus: "unat d < 16 \<Longrightarrow> digit caps d \<noteq> ascii CHR ''-''"
  using digit_cases [of d] by (cases caps) (auto simp: digit_def ascii_def)

text \<open>With room for all digits the loop stores exactly the digits of the value.\<close>

lemma convert_value:
  assumes "unat base \<in> {8, 10, 16}" "unat v < unat base ^ room"
  shows "numeral_value (unat base) (rev (convert room caps base v)) = (if room = 0 then 0 else unat v)"
  using assms(2)
proof (induction room arbitrary: v)
  case (Suc room)
  let ?b = "unat base"
  have d: "unat (v mod base) = unat v mod ?b" "unat (v div base) = unat v div ?b"
    by (simp_all add: unat_mod_distrib unat_div_distrib)
  have b: "0 < ?b" "?b \<le> 16" using assms(1) by auto
  then have "unat v mod ?b < 16" by (meson less_le_trans mod_less_divisor)
  then have dv: "digit_value (digit caps (v mod base)) = unat v mod ?b" by (simp add: digit_value_digit d(1))
  show ?case
  proof (cases "v div base = 0")
    case True
    then have "unat v div ?b = 0" using d(2) by (metis unat_0)
    then have "unat v mod ?b = unat v" using b(1) by (simp add: div_eq_0_iff)
    then show ?thesis using True dv by (simp add: numeral_value_def)
  next
    case False
    have "unat v div ?b < ?b ^ room" using Suc.prems by (simp add: less_mult_imp_div_less mult.commute)
    then have IH: "numeral_value ?b (rev (convert room caps base (v div base))) = (if room = 0 then 0 else unat v div ?b)"
      using Suc.IH [of "v div base"] d(2) by simp
    have "room \<noteq> 0"
    proof
      assume "room = 0"
      then have "unat v div ?b = 0" using Suc.prems by simp
      then show False using False d(2) by (metis unat_eq_zero)
    qed
    then show ?thesis using False IH dv by (simp add: numeral_value_def)
  qed
qed (simp add: numeral_value_def)

lemma convert_nonempty: "0 < room \<Longrightarrow> convert room caps base v \<noteq> []"
  by (cases room) auto

lemma convert_length: "length (convert room caps base v) \<le> room"
  by (induction room arbitrary: v) auto

lemma convert_short:
  assumes "unat base \<in> {8, 10, 16}" "unat v < unat base ^ n" "0 < n" "n \<le> room"
  shows "length (convert room caps base v) \<le> n"
  using assms(2-4)
proof (induction room arbitrary: v n)
  case (Suc room)
  have d: "unat (v div base) = unat v div unat base" by (simp add: unat_div_distrib)
  show ?case
  proof (cases "v div base = 0")
    case False
    obtain m where n: "n = Suc m" using Suc.prems(2) by (cases n) auto
    have q: "unat (v div base) < unat base ^ m"
      using Suc.prems(1) d n by (simp add: less_mult_imp_div_less mult.commute)
    have "0 < m"
    proof (rule ccontr)
      assume "\<not> 0 < m"
      then have "unat (v div base) = 0" using q by simp
      then show False using False by (simp add: unat_eq_zero)
    qed
    then show ?thesis using False Suc.IH [OF q] Suc.prems(3) n by simp
  qed (use Suc.prems in simp)
qed simp

lemma pow_room: "b \<in> {8, 10, 16 :: nat} \<Longrightarrow> (4294967296 :: nat) \<le> b ^ 11"
  by auto

lemma convert_all:
  assumes "unat base \<in> {8, 10, 16}"
  shows "length (convert 20 caps base v) < 20"
    "numeral_value (unat base) (rev (convert 20 caps base v)) = unat v"
proof -
  have v: "unat v < unat base ^ 11" using pow_room [OF assms] unat_lt_2p32 [of v] by linarith
  then show "length (convert 20 caps base v) < 20" using convert_short [OF assms v, of 20 caps] by simp
  have "unat base ^ 11 \<le> unat base ^ 20" using assms by (intro power_increasing) auto
  then show "numeral_value (unat base) (rev (convert 20 caps base v)) = unat v"
    using convert_value [OF assms, of v 20 caps] v by simp
qed

text \<open>The sign and the digits of the output of \<^verbatim>\<open>fmtint\<close>.\<close>

definition fmtint_neg :: "u32 \<Rightarrow> u32 \<Rightarrow> bool" where
  "fmtint_neg flags v \<longleftrightarrow> \<not> flag flags DP_F_UNSIGNED \<and> sint v < 0"

definition fmtint_digits :: "u32 \<Rightarrow> u32 \<Rightarrow> u32 \<Rightarrow> u8 list" where
  "fmtint_digits flags base v = rev (convert 20 (flag flags DP_F_UP) base (if fmtint_neg flags v then - v else v))"

definition fmtint_sign :: "u32 \<Rightarrow> u32 \<Rightarrow> u8 list" where
  "fmtint_sign flags v =
     (if flag flags DP_F_UNSIGNED then []
      else if sint v < 0 then [ascii CHR ''-'']
      else if flag flags DP_F_PLUS then [ascii CHR ''+'']
      else if flag flags DP_F_SPACE then [ascii CHR '' ''] else [])"

lemma c_int_Inr: "- 2147483648 \<le> x \<Longrightarrow> x \<le> 2147483647 \<Longrightarrow> c_int x = Inr x"
  by (simp add: c_int_def)

lemma sint_bounds: "- 2147483648 \<le> sint (v :: u32)" "sint v \<le> 2147483647" "sint v = - 2147483648 \<longleftrightarrow> v = 0x80000000"
proof -
  show "- 2147483648 \<le> sint v" "sint v \<le> 2147483647" using sint_range_size [of v] by (simp_all add: word_size)
  have "sint (0x80000000 :: u32) = - 2147483648" by simp
  then show "sint v = - 2147483648 \<longleftrightarrow> v = 0x80000000" by (metis signed_word_eqI)
qed

text \<open>Either negating the smallest number or computing the padding leaves the range of the type, or everything is printed.\<close>

lemma fmtint_overflow:
  "fmtint_neg flags v \<Longrightarrow> v = 0x80000000 \<Longrightarrow> fmtint s v base mn mx flags = Inl (Undefined_Behaviour ''signed overflow'')"
  by (simp add: fmtint_def fmtint_neg_def c_int_def Let_def)

lemma fmtint_run:
  fixes flags base v :: u32
  assumes "unat base \<in> {8, 10, 16}" "\<not> (fmtint_neg flags v \<and> v = 0x80000000)"
  defines "n \<equiv> int (length (fmtint_digits flags base v))"
  shows "fmtint s v base mn mx flags =
    rbind (c_int (mn - max (max mx 0) n - int (length (fmtint_sign flags v))))
      (\<lambda>p. Inr (put_int s (fmtint_sign flags v) (rev (fmtint_digits flags base v)) (max mx 0 - n) p flags))"
proof -
  let ?u = "if fmtint_neg flags v then - v else v"
  have l: "length (convert 20 (flag flags DP_F_UP) base ?u) \<noteq> 20" using convert_all(1) [OF assms(1), of "flag flags DP_F_UP" ?u] by simp
  have m: "(if mx < 0 then 0 else mx) = max mx 0" by simp
  have "fmtint_neg flags v \<Longrightarrow> c_int (- sint v) = Inr (- sint v)"
    using assms(2) sint_bounds [of v] by (intro c_int_Inr) (auto simp: fmtint_neg_def)
  then have u: "(if fmtint_neg flags v then rbind (c_int (- sint v)) (\<lambda>v. Inr (word_of_int v)) else Inr v) = (Inr ?u :: u32 result)"
    by simp
  show ?thesis
    unfolding fmtint_def Let_def m fmtint_neg_def [symmetric] u rbind_simps if_not_P [OF l] n_def fmtint_digits_def rev_rev_ident length_rev
    by (simp add: fmtint_sign_def fmtint_neg_def)
qed

lemma unat_neg: "sint v < 0 \<Longrightarrow> int (unat (- v :: u32)) = - sint v"
proof -
  assume n: "sint v < 0"
  have "0 \<le> - sint v" "- sint v < 2 ^ 32" using n sint_range_size [of v] by (simp_all add: word_size)
  from uint_word_of_int32 [OF this] show ?thesis by simp
qed

lemma unat_nonneg: "0 \<le> sint v \<Longrightarrow> int (unat (v :: u32)) = sint v"
proof -
  assume n: "0 \<le> sint v"
  have "sint v < 2 ^ 32" using sint_range_size [of v] by (simp add: word_size)
  from uint_word_of_int32 [OF n this] show ?thesis by simp
qed

lemma convert_digits:
  assumes "unat base \<in> {8, 10, 16}" "c \<in> set (convert room caps base v)"
  shows "\<exists>d. c = digit caps d \<and> unat d < 16"
  using assms(2)
proof (induction room arbitrary: v)
  case (Suc room)
  have "unat (v mod base) < 16" using assms(1) by (auto simp: unat_mod_distrib intro: less_le_trans [OF mod_less_divisor])
  then show ?case using Suc by (auto split: if_splits)
qed simp

definition decimal :: "u32 \<Rightarrow> u8 list" where
  "decimal v = (if sint v < 0 then [ascii CHR ''-''] else []) @ rev (convert 20 False 10 (if sint v < 0 then - v else v))"

lemma put_int_plain: "z \<le> 0 \<Longrightarrow> p \<le> 0 \<Longrightarrow> put_int s sign conv z p flags = put_all s (sign @ rev conv)"
  by (auto simp: put_int_def put_all_eq spaces_def zeros_def Let_def)

lemma decimal_short: "length (decimal v) \<le> 12"
proof -
  have "unat (if sint v < 0 then - v else v) < unat (10 :: u32) ^ 11"
    using pow_room [of 10] unat_lt_2p32 [of "if sint v < 0 then - v else v"] by simp
  from convert_short [of 10, OF _ this, of 20 False] show ?thesis by (cases "sint v < 0") (simp_all add: decimal_def)
qed

lemma fmtint_decimal:
  assumes "v \<noteq> 0x80000000"
  shows "fmtint s v 10 0 (- 1) 0 = Inr (put_all s (decimal v))"
proof -
  have d: "decimal v = fmtint_sign 0 v @ fmtint_digits 0 10 v"
    by (simp add: decimal_def fmtint_sign_def fmtint_digits_def fmtint_neg_def flag_def)
  have "length (fmtint_sign 0 v) + length (fmtint_digits 0 10 v) \<le> 12" using decimal_short [of v] by (simp add: d)
  then have c: "c_int (0 - max (max (- 1) 0) (int (length (fmtint_digits 0 10 v))) - int (length (fmtint_sign 0 v))) =
      Inr (- int (length (fmtint_digits 0 10 v)) - int (length (fmtint_sign 0 v)))" by (subst c_int_Inr) simp_all
  have "fmtint s v 10 0 (- 1) 0 = Inr (put_int s (fmtint_sign 0 v) (rev (fmtint_digits 0 10 v)) (0 - int (length (fmtint_digits 0 10 v)))
      (- int (length (fmtint_digits 0 10 v)) - int (length (fmtint_sign 0 v))) 0)"
    using fmtint_run [where base = 10 and flags = 0 and v = v and s = s and mn = 0 and mx = "- 1"] assms unfolding c by simp
  then show ?thesis by (simp add: put_int_plain d)
qed

lemma parse_decimal: "parse_int (decimal v) = sint v"
proof -
  let ?neg = "sint v < 0"
  let ?u = "if ?neg then - v else v"
  have n: "numeral_value 10 (rev (convert 20 False 10 ?u)) = unat ?u"
    using convert_all(2) [of 10 False ?u] by simp
  show ?thesis
  proof (cases ?neg)
    case True
    then show ?thesis using n unat_neg [OF True] by (simp add: parse_int_def decimal_def)
  next
    case False
    obtain c ds where c: "rev (convert 20 False 10 v) = c # ds"
      using convert_nonempty [of 20 False 10 v] by (cases "rev (convert 20 False 10 v)") auto
    then have "c \<in> set (convert 20 False 10 v)" by (metis list.set_intros(1) set_rev)
    then have "c \<noteq> ascii CHR ''-''" using convert_digits [of 10 c 20 False v] digit_not_minus by auto
    then show ?thesis using False n c unat_nonneg [of v] by (simp add: parse_int_def decimal_def)
  qed
qed

text \<open>
  \<^bold>\<open>C23.\<close> Decimal output (\<^verbatim>\<open>fmtint\<close>). Printing a signed 32-bit value in base 10 without width or precision
  and reading the characters back gives the value again, for every value but the smallest negative number, whose negation as a \<^verbatim>\<open>long\<close> is a
  signed overflow and has no meaning.
\<close>

theorem fmtint_decimal_round_trip:
  "if v = 0x80000000 then fmtint \<lparr>out = [], currlen = c\<rparr> v 10 0 (- 1) 0 = Inl (Undefined_Behaviour ''signed overflow'')
   else \<exists>k. fmtint \<lparr>out = [], currlen = c\<rparr> v 10 0 (- 1) 0 = Inr k \<and> parse_int (out k) = sint v"
proof (cases "v = 0x80000000")
  case True
  then have "fmtint_neg 0 v" by (simp add: fmtint_neg_def flag_def)
  then show ?thesis using True fmtint_overflow by simp
next
  case False
  then show ?thesis by (simp add: fmtint_decimal put_all_out parse_decimal)
qed

text \<open>A string argument is cut at \<open>mx\<close> and otherwise printed as it is.\<close>

lemma fmtstr_plain:
  assumes "mn \<le> 0" "0 \<le> mx" "0 \<in> set v" "int (length (c_text v)) \<le> mn + 2147483647"
  shows "fmtstr s (Some v) flags mn mx = Inr (put_all s (take (nat mx) (c_text v)))"
proof -
  have "take (length (c_text v)) v = c_text v" by (simp add: c_text_def takeWhile_eq_take [symmetric])
  moreover have "c_int (int (length (c_text v))) = Inr (int (length (c_text v)))" using assms by (intro c_int_Inr) linarith+
  moreover have "c_int (mn - int (length (c_text v))) = Inr (mn - int (length (c_text v)))" using assms by (intro c_int_Inr) linarith+
  ultimately show ?thesis using assms(1,2) by (simp add: fmtstr_def strlen_c_text [OF assms(3)] put_all_eq spaces_def Let_def)
qed

text \<open>Text without a percent sign is copied up to the limit.\<close>

lemma dopr_loop_text:
  assumes "\<forall>c \<in> set cs. c \<noteq> 0 \<and> c \<noteq> ascii CHR ''%''" "dp_state s = DP_S_DEFAULT"
  shows "dopr_loop maxlen (cs @ 0 # rest) s =
    Inr (on_sink (\<lambda>k. put_all k (take (nat (maxlen - currlen (dp_sink s))) cs)) s)"
  using assms
proof (induction cs arbitrary: s)
  case Nil
  then show ?case by (simp add: dopr_loop.simps put_all_def on_sink_def)
next
  case (Cons c cs)
  show ?case
  proof (cases "maxlen \<le> currlen (dp_sink s)")
    case True
    then show ?thesis by (simp add: dopr_loop.simps put_all_def on_sink_def)
  next
    case False
    let ?s = "on_sink (\<lambda>k. dopr_outch k c) s"
    have "dopr_loop maxlen ((c # cs) @ 0 # rest) s = dopr_loop maxlen (cs @ 0 # rest) ?s"
      using False Cons.prems by (simp add: dopr_loop.simps(2) [of maxlen c] dopr_step_def)
    also have "\<dots> = Inr (on_sink (\<lambda>k. put_all k (take (nat (maxlen - currlen (dp_sink ?s))) cs)) ?s)"
      using Cons.prems by (intro Cons.IH) (auto simp: on_sink_def)
    finally have r: "dopr_loop maxlen ((c # cs) @ 0 # rest) s = \<dots>" .
    have m: "nat (maxlen - currlen (dp_sink s)) = Suc (nat (maxlen - currlen (dp_sink ?s)))"
      using False by (simp add: on_sink_def dopr_outch_def)
    show ?thesis unfolding r m by (simp add: on_sink_def put_all_def)
  qed
qed

lemma dopr_text:
  assumes "\<forall>c \<in> set cs. c \<noteq> 0 \<and> c \<noteq> ascii CHR ''%''" "maxlen \<le> 2147483647"
  shows "dopr s maxlen (cs @ 0 # rest) args = Inr (put_all (s\<lparr>currlen := 0\<rparr>) (take (nat maxlen) cs), [])"
proof -
  have "int (min (nat maxlen) (length cs)) \<le> 2147483647" using assms(2) by linarith
  then have "c_int (int (min (length cs) (nat maxlen))) = Inr (int (min (length cs) (nat maxlen)))"
    by (intro c_int_Inr) (simp_all add: min.commute)
  then show ?thesis using dopr_loop_text [OF assms(1)] by (simp add: dopr_def on_sink_def put_all_out)
qed

text \<open>The conversion characters \<open>d\<close>, \<open>x\<close>, \<open>s\<close> directly after the percent sign.\<close>

lemma ascii_simps [simp]:
  "ascii CHR ''%'' = 37" "ascii CHR ''d'' = 100" "ascii CHR ''s'' = 115" "ascii CHR ''x'' = 120"
  by (simp_all add: ascii_def)

lemma dopr_percent_d:
  assumes "0 < maxlen" "w \<noteq> 0x80000000"
  shows "dopr s maxlen [37, 100, 0] [Word_Arg w] = Inr (put_all (s\<lparr>currlen := 0\<rparr>) (decimal w), [])"
proof -
  have "c_int (int (length (decimal w))) = Inr (int (length (decimal w)))" using decimal_short [of w] by (intro c_int_Inr) simp_all
  then show ?thesis using assms
    by (simp add: dopr_def dopr_loop.simps dopr_step_def dopr_conv_def conv_int_def on_sink_r_def dopr_reset_def
        isdigit_def Let_def ascii_def fmtint_decimal put_all_out)
qed

lemma dopr_percent_s:
  assumes "0 < maxlen" "0 \<in> set v" "int (length (c_text v)) \<le> 2147483647"
  shows "dopr s maxlen [37, 115, 0] [Str_Arg (Some v)] = Inr (put_all (s\<lparr>currlen := 0\<rparr>) (take (nat maxlen) (c_text v)), [])"
proof -
  have "c_int (int (min (length (c_text v)) (nat maxlen))) = Inr (int (min (length (c_text v)) (nat maxlen)))"
    using assms(3) by (intro c_int_Inr) linarith+
  then show ?thesis using assms
    by (simp add: dopr_def dopr_loop.simps dopr_step_def dopr_conv_def conv_int_def on_sink_r_def dopr_reset_def
        isdigit_def Let_def ascii_def fmtstr_plain put_all_out)
qed

text \<open>
  Plain text (\<^verbatim>\<open>K::vsnprintf\<close>, \<^verbatim>\<open>dopr\<close>). A format without conversions is copied to the stream up to its
  terminating zero, and at most \<open>maxlen\<close> characters of it; no argument is read and nothing is stored.
\<close>

theorem vsnprintf_text:
  assumes "\<forall>c \<in> set cs. c \<noteq> 0 \<and> c \<noteq> ascii CHR ''%''" "maxlen \<le> 2147483647"
  shows "\<exists>s'. vsnprintf s maxlen (cs @ 0 # rest) args = Inr (s', []) \<and> out s' = out s @ take (nat maxlen) cs \<and>
    currlen s' = int (min (nat maxlen) (length cs))"
  using dopr_text [OF assms, of s rest args] by (simp add: vsnprintf_def put_all_out min.commute)

theorem vsnprintf_text_witness:
  "\<exists>s'. vsnprintf \<lparr>out = [], currlen = 0\<rparr> 2 [104, 101, 121, 0] [] = Inr (s', []) \<and> out s' = [104, 101]"
  using vsnprintf_text [of "[104, 101, 121]" 2 "\<lparr>out = [], currlen = 0\<rparr>" "[]" "[]"] by auto

text \<open>
  The limit does not bound a conversion (\<^verbatim>\<open>dopr_outch\<close>). For every positive \<open>maxlen\<close> the format \<open>%d\<close>
  prints all characters of the argument, however many there are, so the output can be longer than the
  limit, which the comment above \<^verbatim>\<open>dopr\<close> rules out.
\<close>

theorem vsnprintf_ignores_limit:
  assumes "0 < maxlen" "w \<noteq> 0x80000000"
  shows "\<exists>s' ds. vsnprintf s maxlen [37, 100, 0] [Word_Arg w] = Inr (s', []) \<and> out s' = out s @ ds \<and>
    ds = decimal w \<and> parse_int ds = sint w"
  using dopr_percent_d [OF assms, of s] by (simp add: vsnprintf_def put_all_out parse_decimal)

theorem vsnprintf_ignores_limit_witness:
  "\<exists>s'. vsnprintf \<lparr>out = [], currlen = 0\<rparr> 1 [37, 100, 0] [Word_Arg 4711] = Inr (s', []) \<and> out s' = map ascii ''4711''"
proof -
  have "decimal 4711 = map ascii ''4711''" by code_simp
  then show ?thesis using vsnprintf_ignores_limit [of 1 4711 "\<lparr>out = [], currlen = 0\<rparr>"] by auto
qed

text \<open>
  A defect of \<^verbatim>\<open>fmtfp\<close>. The zeros that pad the fraction to the precision are printed after its digits
  instead of before them: 1.05, whose fraction at precision 6 is 50000, is printed as \<open>1.500000\<close>.
\<close>

theorem fmtfp_pads_fraction_right:
  "(case fmtfp \<lparr>out = [], currlen = 0\<rparr> False (\<lambda>prec. (1, 5 * 10 ^ (nat prec - 2))) 0 6 0 of Inl e \<Rightarrow> False | Inr k \<Rightarrow> out k = map ascii ''1.500000'')"
  by code_simp

subsection \<open>Width and precision\<close>

lemma cut_at_zero: "(if x < 0 then 0 else x) = max x (0 :: int)"
  by simp

lemma padding_length:
  fixes Z M :: bool
  assumes "0 \<le> z" "0 \<le> p"
  defines "p' \<equiv> (if M then - (if Z then 0 else p) else if Z then 0 else p)"
  shows "int (length (spaces p')) + int (length (zeros (if Z then max z p else z))) + int (length (spaces (- p'))) =
    (if Z then max z p else z + p)"
  using assms(1,2) by (auto simp: p'_def spaces_def zeros_def)

lemma put_int_length:
  "int (length (out (put_int s sign conv z p flags))) = int (length (out s)) + int (length sign) + int (length conv) +
     (if flag flags DP_F_ZERO then max (max z 0) (max p 0) else max z 0 + max p 0)"
proof -
  let ?p = "if flag flags DP_F_MINUS then - (if flag flags DP_F_ZERO then 0 else max p 0) else if flag flags DP_F_ZERO then 0 else max p 0"
  have "int (length (spaces ?p)) + int (length (zeros (if flag flags DP_F_ZERO then max (max z 0) (max p 0) else max z 0))) + int (length (spaces (- ?p))) =
      (if flag flags DP_F_ZERO then max (max z 0) (max p 0) else max z 0 + max p 0)"
    by (rule padding_length) simp_all
  then show ?thesis
    unfolding put_int_def Let_def cut_at_zero put_all_out length_append length_rev of_nat_add by linarith
qed

lemma fmtint_sign_length: "length (fmtint_sign flags v) \<le> 1"
  by (simp add: fmtint_sign_def)



text \<open>With the flag \<open>0\<close> and a precision the padding is the larger of the two instead of their sum: \<^verbatim>\<open>%010.5d\<close> prints six characters.\<close>

lemma fmtint_zero_precision_short:
  "\<exists>k. fmtint \<lparr>out = [], currlen = 0\<rparr> 1 10 10 5 DP_F_ZERO = Inr k \<and> length (out k) = 6"
proof -
  have d: "length (fmtint_digits DP_F_ZERO 10 1) = 1" "fmtint_sign DP_F_ZERO 1 = []" by code_simp+
  have fl: "flag DP_F_ZERO DP_F_ZERO" by (simp add: flag_def DP_F_ZERO_def)
  have "fmtint \<lparr>out = [], currlen = 0\<rparr> 1 10 10 5 DP_F_ZERO =
      Inr (put_int \<lparr>out = [], currlen = 0\<rparr> [] (rev (fmtint_digits DP_F_ZERO 10 1)) 4 5 DP_F_ZERO)"
    by (subst fmtint_run) (simp_all add: d fmtint_neg_def c_int_def)
  moreover have "int (length (out (put_int \<lparr>out = [], currlen = 0\<rparr> [] (rev (fmtint_digits DP_F_ZERO 10 1)) 4 5 DP_F_ZERO))) = 6"
    unfolding put_int_length using fl by (simp add: d)
  ultimately show ?thesis by simp
qed

end
