(* ===== verification/Machine_Memory.thy ===== *)
theory Machine_Memory
  imports Kernel_Prelude
begin

text \<open>
  Physical memory as the kernel sees it: a function from 32-bit addresses to bytes, with the
  little-endian 32-bit loads and stores the processor performs, and the two block routines of
  \<^verbatim>\<open>kernel/machine.S\<close>, \<^verbatim>\<open>bzero\<close> and \<^verbatim>\<open>memcpy\<close>. The kernel runs on identity mapped memory, so
  the pointers it dereferences are physical addresses.
\<close>

type_synonym memory = "u32 \<Rightarrow> u8"

subsection \<open>Words in memory\<close>

definition load32 :: "memory \<Rightarrow> u32 \<Rightarrow> u32" where
  "load32 m a =
     ucast (m a) OR push_bit 8 (ucast (m (a + 1)))
     OR push_bit 16 (ucast (m (a + 2))) OR push_bit 24 (ucast (m (a + 3)))"

definition store32 :: "memory \<Rightarrow> u32 \<Rightarrow> u32 \<Rightarrow> memory" where
  "store32 m a v =
     m(a := ucast v, a + 1 := ucast (drop_bit 8 v),
       a + 2 := ucast (drop_bit 16 v), a + 3 := ucast (drop_bit 24 v))"

text \<open>The element \<open>i\<close> of a \<^verbatim>\<open>uint32_t\<close> array at address \<open>p\<close>.\<close>

definition get32 :: "memory \<Rightarrow> u32 \<Rightarrow> u32 \<Rightarrow> u32" where
  "get32 m p i = load32 m (p + 4 * i)"

definition set32 :: "memory \<Rightarrow> u32 \<Rightarrow> u32 \<Rightarrow> u32 \<Rightarrow> memory" where
  "set32 m p i v = store32 m (p + 4 * i) v"

subsection \<open>Block routines\<close>

text \<open>
  The assembly counts \<^verbatim>\<open>%ecx\<close> down and leaves on a signed comparison, so a count whose top
  bit is set runs no iteration.
\<close>

definition asm_count :: "u32 \<Rightarrow> nat" where
  "asm_count n = (if bit n 31 then 0 else unat n)"

primrec bzero_loop :: "nat \<Rightarrow> memory \<Rightarrow> u32 \<Rightarrow> memory" where
  "bzero_loop 0 m p = m"
| "bzero_loop (Suc n) m p = bzero_loop n (m(p := 0)) (p + 1)"

definition bzero :: "memory \<Rightarrow> u32 \<Rightarrow> u32 \<Rightarrow> memory" where
  "bzero m p n = bzero_loop (asm_count n) m p"

primrec memcpy_loop :: "nat \<Rightarrow> memory \<Rightarrow> u32 \<Rightarrow> u32 \<Rightarrow> memory" where
  "memcpy_loop 0 m d s = m"
| "memcpy_loop (Suc n) m d s = memcpy_loop n (m(d := m s)) (d + 1) (s + 1)"

definition memcpy :: "memory \<Rightarrow> u32 \<Rightarrow> u32 \<Rightarrow> u32 \<Rightarrow> memory" where
  "memcpy m d s n = memcpy_loop (asm_count n) m d s"

subsection \<open>Facts on loads and stores\<close>

lemma ucast_bits:
  "bit (ucast (x :: 8 word) :: u32) n \<longleftrightarrow> n < 8 \<and> bit x n"
  by (auto simp: bit_simps dest: bit_imp_le_length)

lemma load_store_same [simp]: "load32 (store32 m a v) a = v"
proof -
  have ne: "a + 1 \<noteq> a" "a + 2 \<noteq> a" "a + 3 \<noteq> a" "a + 2 \<noteq> a + 1" "a + 3 \<noteq> a + 1" "a + 3 \<noteq> a + 2"
    by simp_all
  show ?thesis
  proof (rule bit_word_eqI)
    fix n assume "n < LENGTH(32)"
    then have n: "n < 32" by simp
    consider "n < 8" | "8 \<le> n" "n < 16" | "16 \<le> n" "n < 24" | "24 \<le> n" "n < 32"
      using n by linarith
    then show "bit (load32 (store32 m a v) a) n = bit v n"
      by cases (auto simp: load32_def store32_def ne ne [symmetric] bit_simps)
  qed
qed

lemma load_store_disjoint:
  assumes "\<And>i j. i < 4 \<Longrightarrow> j < 4 \<Longrightarrow> a + i \<noteq> b + j"
  shows "load32 (store32 m b v) a = load32 m a"
proof -
  have d: "a + i \<noteq> b" "a + i \<noteq> b + 1" "a + i \<noteq> b + 2" "a + i \<noteq> b + 3" if "i < 4" for i
    using assms [OF that, of 0] assms [OF that, of 1] assms [OF that, of 2] assms [OF that, of 3]
    by (simp_all)
  have "a \<noteq> b" "a \<noteq> b + 1" "a \<noteq> b + 2" "a \<noteq> b + 3" using d [of 0] by simp_all
  moreover have "a + 1 \<noteq> b" "a + 1 \<noteq> b + 1" "a + 1 \<noteq> b + 2" "a + 1 \<noteq> b + 3"
    using d [of 1] by (simp_all del: add_right_cancel add_left_cancel)
  moreover have "a + 2 \<noteq> b" "a + 2 \<noteq> b + 1" "a + 2 \<noteq> b + 2" "a + 2 \<noteq> b + 3"
    using d [of 2] by (simp_all del: add_right_cancel add_left_cancel)
  moreover have "a + 3 \<noteq> b" "a + 3 \<noteq> b + 1" "a + 3 \<noteq> b + 2" "a + 3 \<noteq> b + 3"
    using d [of 3] by (simp_all del: add_right_cancel add_left_cancel)
  ultimately show ?thesis by (simp add: load32_def store32_def)
qed

lemma load32_cong:
  "m a = m' a \<Longrightarrow> m (a + 1) = m' (a + 1) \<Longrightarrow> m (a + 2) = m' (a + 2) \<Longrightarrow>
   m (a + 3) = m' (a + 3) \<Longrightarrow> load32 m a = load32 m' a"
  by (simp add: load32_def)

lemma bzero_loop_eq: "bzero_loop n m p = (\<lambda>a. if unat (a - p) < n then 0 else m a)"
proof (induction n arbitrary: m p)
  case 0
  then show ?case by simp
next
  case (Suc n)
  have "unat (a - (p + 1)) < n \<longleftrightarrow> unat (a - p) < Suc n" if "a \<noteq> p" for a
  proof -
    from that have "a - p \<noteq> 0" by simp
    then have "unat (a - p - 1) = unat (a - p) - 1" "unat (a - p) \<noteq> 0"
      by (simp_all add: unat_minus_one unat_eq_0)
    then show ?thesis by (auto simp: diff_diff_eq)
  qed
  then show ?case by (auto simp: Suc fun_eq_iff)
qed

lemma memcpy_loop_eq:
  assumes "\<And>i j. i < n \<Longrightarrow> j < n \<Longrightarrow> d + of_nat i \<noteq> s + of_nat j" "n \<le> 2 ^ 32"
  shows "memcpy_loop n m d s = (\<lambda>a. if unat (a - d) < n then m (s + (a - d)) else m a)"
  using assms
proof (induction n arbitrary: m d s)
  case 0
  then show ?case by simp
next
  case (Suc n)
  let ?m = "m(d := m s)"
  have sep: "(d + 1) + of_nat i \<noteq> (s + 1) + of_nat j" if "i < n" "j < n" for i j
    using Suc.prems(1) [of "Suc i" "Suc j"] that by (simp add: algebra_simps)
  have IH: "memcpy_loop n ?m (d + 1) (s + 1) =
      (\<lambda>a. if unat (a - (d + 1)) < n then ?m (s + 1 + (a - (d + 1))) else ?m a)"
    using Suc.IH [OF sep] Suc.prems(2) by simp
  have "(if unat (a - (d + 1)) < n then ?m (s + 1 + (a - (d + 1))) else ?m a) =
      (if unat (a - d) < Suc n then m (s + (a - d)) else m a)" for a
  proof (cases "a = d")
    case True
    have "unat (- 1 :: u32) = 4294967295" by (simp add: unsigned_minus_1_eq_mask mask_eq_exp_minus_1)
    then have "unat (- 1 :: u32) \<ge> n" using Suc.prems(2) by simp
    then show ?thesis using True by simp
  next
    case False
    then have nz: "a - d \<noteq> 0" by simp
    then have u: "unat (a - (d + 1)) = unat (a - d) - 1" "unat (a - d) \<noteq> 0"
      using unat_minus_one [OF nz] by (simp_all add: diff_diff_eq [symmetric] unat_eq_0)
    have "s + (a - d) \<noteq> d" if "unat (a - d) < Suc n"
    proof
      assume "s + (a - d) = d"
      then have "s + of_nat (unat (a - d)) = d + of_nat 0" by simp
      then show False using Suc.prems(1) [of 0 "unat (a - d)"] that by simp
    qed
    then show ?thesis using False u by (auto simp: algebra_simps)
  qed
  then show ?case using IH by (simp add: fun_eq_iff)
qed

end
