(* ===== verification/Phys_Frames.thy ===== *)
theory Phys_Frames
  imports Machine_Memory
begin

text \<open>
  The address arithmetic of \<^verbatim>\<open>kernel/physmem.h\<close> and the geometry of page frames: which words a
  frame holds, and that stores into one frame leave the other frames alone.
\<close>

subsection \<open>Address arithmetic (physmem.h)\<close>

definition FRAME_SIZE :: u32 where
  "FRAME_SIZE = push_bit 12 1"

definition offset :: "u32 \<Rightarrow> u32" where
  "offset pa = pa AND 0xFFF"

definition ppn :: "u32 \<Rightarrow> u32" where
  "ppn pa = drop_bit 12 pa"

definition framedown :: "u32 \<Rightarrow> u32" where
  "framedown pa = (pa div FRAME_SIZE) * FRAME_SIZE"

definition frameup :: "u32 \<Rightarrow> u32" where
  "frameup pa = framedown (pa + FRAME_SIZE - 1)"

text \<open>The mask \<^verbatim>\<open>0xFFFFF000\<close> with which page table entries are turned into frame addresses.\<close>

definition frame_mask :: "u32 \<Rightarrow> u32" where
  "frame_mask e = e AND 0xFFFFF000"

abbreviation aligned :: "u32 \<Rightarrow> bool" where
  "aligned p \<equiv> offset p = 0"

definition in_frame :: "u32 \<Rightarrow> u32 \<Rightarrow> bool" where
  "in_frame p a \<longleftrightarrow> frame_mask a = p"

definition zero_frame :: "memory \<Rightarrow> u32 \<Rightarrow> bool" where
  "zero_frame m p \<longleftrightarrow> (\<forall>a. in_frame p a \<longrightarrow> m a = 0)"

text \<open>Two memories that agree outside a set of frames.\<close>

definition same_except :: "u32 set \<Rightarrow> memory \<Rightarrow> memory \<Rightarrow> bool" where
  "same_except F m m' \<longleftrightarrow> (\<forall>a. frame_mask a \<notin> F \<longrightarrow> m' a = m a)"

subsection \<open>Reading the arithmetic on naturals\<close>

lemma FRAME_SIZE_eq: "FRAME_SIZE = 4096"
  by (simp add: FRAME_SIZE_def)

lemma unat_offset: "unat (offset a) = unat a mod 4096"
proof -
  have "offset a = take_bit 12 a"
    by (simp add: offset_def take_bit_eq_mask mask_eq_exp_minus_1)
  then show ?thesis by (simp add: take_bit_eq_mod unat_mod_distrib)
qed

lemma unat_framedown: "unat (framedown a) = unat a - unat a mod 4096"
proof -
  have "unat a div 4096 * 4096 \<le> unat a" by simp
  then have "unat a div 4096 * 4096 < 2 ^ 32" using unat_lt_2p32 [of a] by simp
  then show ?thesis
    by (simp add: FRAME_SIZE_eq framedown_def unat_word_ariths unat_div_distrib minus_mod_eq_div_mult)
qed

lemma frame_mask_eq_framedown: "frame_mask a = framedown a"
proof -
  have "frame_mask a = push_bit 12 (drop_bit 12 a)"
  proof (rule bit_word_eqI)
    fix n assume "n < LENGTH(32)"
    have "(0xFFFFF000 :: u32) = push_bit 12 (mask 20)"
      by (simp add: mask_eq_exp_minus_1)
    then have "frame_mask a = a AND push_bit 12 (mask 20)" by (simp only: frame_mask_def)
    then show "bit (frame_mask a) n = bit (push_bit 12 (drop_bit 12 a)) n"
      using \<open>n < LENGTH(32)\<close> by (auto simp: bit_simps)
  qed
  then show ?thesis
    by (simp add: FRAME_SIZE_eq framedown_def push_bit_eq_mult drop_bit_eq_div)
qed

lemma unat_frame_mask: "unat (frame_mask a) = unat a - unat a mod 4096"
  by (simp add: frame_mask_eq_framedown unat_framedown)

lemma aligned_unat: "aligned p \<longleftrightarrow> unat p mod 4096 = 0"
  by (metis unat_0 unat_eq_zero unat_offset)

lemma aligned_obtain:
  assumes "aligned p"
  obtains k where "unat p = 4096 * k" "k < 1048576"
proof
  have "unat p mod 4096 = 0" using assms by (simp add: aligned_unat)
  then show "unat p = 4096 * (unat p div 4096)" by (metis add.right_neutral mult_div_mod_eq)
  show "unat p div 4096 < 1048576" using unat_lt_2p32 [of p] by (simp add: less_mult_imp_div_less)
qed

lemma aligned_bound: "aligned p \<Longrightarrow> unat p + 4096 \<le> 4294967296"
  by (erule aligned_obtain) simp

lemma frame_mask_aligned [simp]: "aligned (frame_mask a)"
  by (simp add: aligned_unat unat_frame_mask minus_mod_eq_mult_div)

lemma framedown_aligned [simp]: "aligned (framedown a)"
  by (simp flip: frame_mask_eq_framedown)

lemma aligned_frame_mask: "aligned p \<Longrightarrow> frame_mask p = p"
  by (simp add: aligned_unat unat_frame_mask word_unat_eq_iff [of "frame_mask p"])

lemma frame_mask_0 [simp]: "frame_mask 0 = 0"
  by (simp add: frame_mask_def)

lemma unat_in_frame:
  assumes "aligned p"
  shows "in_frame p a \<longleftrightarrow> unat p \<le> unat a \<and> unat a < unat p + 4096"
proof
  assume "in_frame p a"
  then have "unat p = unat a - unat a mod 4096" by (simp add: in_frame_def flip: unat_frame_mask)
  moreover have "unat a mod 4096 < 4096" "unat a mod 4096 \<le> unat a" by simp_all
  ultimately show "unat p \<le> unat a \<and> unat a < unat p + 4096" by linarith
next
  assume *: "unat p \<le> unat a \<and> unat a < unat p + 4096"
  obtain k where k: "unat p = 4096 * k" using assms by (rule aligned_obtain)
  with * have "unat a = 4096 * k + (unat a - 4096 * k)" "unat a - 4096 * k < 4096" by linarith+
  then have "unat a mod 4096 = unat a - 4096 * k" by (metis mod_less mod_mult_self4)
  with k * have "unat a - unat a mod 4096 = unat p" by linarith
  then show "in_frame p a" by (simp add: in_frame_def word_unat_eq_iff unat_frame_mask)
qed

text \<open>The bytes of a frame are \<open>p + k\<close> for \<open>k\<close> below 4096.\<close>

lemma unat_frame_plus:
  "aligned p \<Longrightarrow> unat k < 4096 \<Longrightarrow> unat (p + k) = unat p + unat k"
  using aligned_bound [of p] by (simp add: unat_add_no_wrap)

lemma frame_mask_plus:
  "aligned p \<Longrightarrow> unat k < 4096 \<Longrightarrow> frame_mask (p + k) = p"
  using unat_in_frame [of p "p + k"] by (simp add: unat_frame_plus in_frame_def)

lemma in_frame_diff: "aligned p \<Longrightarrow> in_frame p a \<longleftrightarrow> unat (a - p) < 4096"
proof -
  assume p: "aligned p"
  show ?thesis
  proof
    assume "in_frame p a"
    with p have "unat p \<le> unat a" "unat a < unat p + 4096" by (simp_all add: unat_in_frame)
    then show "unat (a - p) < 4096" by (simp add: unat_sub_if_size)
  next
    assume "unat (a - p) < 4096"
    with p have "unat (p + (a - p)) = unat p + unat (a - p)" by (rule unat_frame_plus)
    with \<open>unat (a - p) < 4096\<close> p show "in_frame p a" by (simp add: unat_in_frame)
  qed
qed

subsection \<open>Words of a frame\<close>

lemma unat_times4: "unat i < 1024 \<Longrightarrow> unat (4 * i :: u32) = 4 * unat i"
  by (simp add: unat_word_ariths)

lemma unat_word_addr:
  assumes "aligned p" "unat i < 1024" "unat j < 4"
  shows "unat (p + 4 * i + j) = unat p + 4 * unat i + unat j"
proof -
  have "unat (4 * i + j) = 4 * unat i + unat j"
    using assms by (simp add: unat_add_no_wrap unat_times4)
  then show ?thesis
    using assms unat_frame_plus [of p "4 * i + j"] by (simp add: add.assoc)
qed

lemma frame_mask_word:
  "aligned p \<Longrightarrow> unat i < 1024 \<Longrightarrow> unat j < 4 \<Longrightarrow> frame_mask (p + 4 * i + j) = p"
  using unat_in_frame [of p "p + 4 * i + j"] by (simp add: unat_word_addr in_frame_def)

lemma byte_word_less: "j < (4 :: u32) \<Longrightarrow> unat j < 4"
  by (simp add: word_less_nat_alt)

lemma get_set_same [simp]: "get32 (set32 m p i v) p i = v"
  by (simp add: get32_def set32_def)

lemma get_set_same_frame:
  assumes "aligned p" "unat i < 1024" "unat j < 1024" "i \<noteq> j"
  shows "get32 (set32 m p j v) p i = get32 m p i"
  unfolding get32_def set32_def
proof (rule load_store_disjoint)
  fix k l :: u32 assume kl: "k < 4" "l < 4"
  have "unat i \<noteq> unat j" using assms(4) by (simp add: word_unat_eq_iff)
  then have "unat (p + 4 * i + k) \<noteq> unat (p + 4 * j + l)"
    using assms byte_word_less [OF kl(1)] byte_word_less [OF kl(2)]
    by (simp add: unat_word_addr)
  then show "p + 4 * i + k \<noteq> p + 4 * j + l" by metis
qed

lemma get_set_other_frame:
  assumes "aligned p" "aligned q" "unat i < 1024" "unat j < 1024" "p \<noteq> q"
  shows "get32 (set32 m q j v) p i = get32 m p i"
  unfolding get32_def set32_def
proof (rule load_store_disjoint)
  fix k l :: u32 assume "k < 4" "l < 4"
  then have "frame_mask (p + 4 * i + k) = p" "frame_mask (q + 4 * j + l) = q"
    using assms by (simp_all add: frame_mask_word byte_word_less)
  with assms(5) show "p + 4 * i + k \<noteq> q + 4 * j + l" by metis
qed

lemmas get_set = get_set_same get_set_same_frame get_set_other_frame

lemma set32_same_except:
  assumes "aligned p" "unat i < 1024"
  shows "same_except {p} m (set32 m p i v)"
proof -
  have "frame_mask (p + 4 * i + j) = p" if "unat j < 4" for j
    using assms that by (rule frame_mask_word)
  from this [of 0] this [of 1] this [of 2] this [of 3]
  show ?thesis by (auto simp: same_except_def set32_def store32_def)
qed

lemma get32_same_except:
  assumes "same_except F m m'" "aligned p" "p \<notin> F" "unat i < 1024"
  shows "get32 m' p i = get32 m p i"
proof -
  have "m' (p + 4 * i + j) = m (p + 4 * i + j)" if "unat j < 4" for j
    using assms frame_mask_word [OF assms(2,4) that] by (simp add: same_except_def)
  from this [of 0] this [of 1] this [of 2] this [of 3]
  show ?thesis unfolding get32_def by (intro load32_cong) simp_all
qed

lemma same_except_refl [simp]: "same_except F m m"
  by (simp add: same_except_def)

lemma same_except_trans:
  "same_except F m m' \<Longrightarrow> same_except G m' m'' \<Longrightarrow> same_except (F \<union> G) m m''"
  by (simp add: same_except_def)

lemma same_except_mono: "same_except F m m' \<Longrightarrow> F \<subseteq> G \<Longrightarrow> same_except G m m'"
  by (auto simp: same_except_def)

lemma zero_frame_get32:
  assumes "zero_frame m p" "aligned p" "unat i < 1024"
  shows "get32 m p i = 0"
proof -
  have "m (p + 4 * i + j) = 0" if "unat j < 4" for j
    using assms(1) frame_mask_word [OF assms(2,3) that] by (simp add: zero_frame_def in_frame_def)
  from this [of 0] this [of 1] this [of 2] this [of 3]
  show ?thesis by (simp add: get32_def load32_def)
qed

subsection \<open>Clearing a frame\<close>

lemma bzero_frame:
  assumes "aligned p"
  shows "bzero m p FRAME_SIZE = (\<lambda>a. if in_frame p a then 0 else m a)"
proof -
  have "\<not> bit (FRAME_SIZE) 31" by (simp add: FRAME_SIZE_def bit_simps)
  then show ?thesis
    using assms by (simp add: FRAME_SIZE_eq bzero_def bzero_loop_eq asm_count_def in_frame_diff)
qed

lemma bzero_frame_zero: "aligned p \<Longrightarrow> zero_frame (bzero m p FRAME_SIZE) p"
  by (simp only: bzero_frame zero_frame_def) simp

lemma bzero_frame_same: "aligned p \<Longrightarrow> same_except {p} m (bzero m p FRAME_SIZE)"
  by (simp only: bzero_frame same_except_def) (simp add: in_frame_def)

subsection \<open>Copying the beginning of a frame\<close>

lemma not_bit31: "unat (w :: u32) < 2147483648 \<Longrightarrow> \<not> bit w 31"
proof -
  assume "unat w < 2147483648"
  then have "\<not> bit (unat w) 31" by (simp add: bit_iff_odd)
  then show ?thesis by (simp add: bit_unsigned_iff)
qed

lemma memcpy_frame:
  assumes "aligned d" "aligned q" "d \<noteq> q" "unat n \<le> 1024"
  shows "memcpy m d q (4 * n) = (\<lambda>a. if unat (a - d) < 4 * unat n then m (q + (a - d)) else m a)"
proof -
  have u: "unat (4 * n) = 4 * unat n" using assms(4) by (simp add: unat_word_ariths)
  then have "\<not> bit (4 * n) 31" using assms(4) by (simp add: not_bit31)
  then have c: "asm_count (4 * n) = 4 * unat n" by (simp add: asm_count_def u)
  have "d + of_nat i \<noteq> q + of_nat j" if "i < 4 * unat n" "j < 4 * unat n" for i j
  proof -
    have "unat (of_nat i :: u32) < 4096" "unat (of_nat j :: u32) < 4096" using that assms(4) by simp_all
    then have "frame_mask (d + of_nat i) = d" "frame_mask (q + of_nat j) = q"
      using assms(1,2) by (simp_all add: frame_mask_plus)
    with assms(3) show ?thesis by metis
  qed
  then show ?thesis unfolding memcpy_def c by (rule memcpy_loop_eq) (use assms(4) in simp_all)
qed

lemma memcpy_frame_get32:
  assumes "aligned d" "aligned q" "d \<noteq> q" "unat n \<le> 1024" "unat i < 1024"
  shows "get32 (memcpy m d q (4 * n)) d i = (if unat i < unat n then get32 m q i else get32 m d i)"
proof -
  have "unat (d + 4 * i + k - d) < 4 * unat n \<longleftrightarrow> unat i < unat n" if "unat k < 4" for k
  proof -
    have "unat (4 * i + k) = 4 * unat i + unat k"
      using that assms(5) by (simp add: unat_add_no_wrap unat_times4)
    then show ?thesis using that by (auto simp: add.assoc)
  qed
  from this [of 0] this [of 1] this [of 2] this [of 3]
  show ?thesis using assms(1-4) by (simp add: get32_def load32_def memcpy_frame add.assoc)
qed

lemma memcpy_frame_same:
  assumes "aligned d" "aligned q" "d \<noteq> q" "unat n \<le> 1024"
  shows "same_except {d} m (memcpy m d q (4 * n))"
  unfolding same_except_def memcpy_frame [OF assms]
  using in_frame_diff [OF assms(1)] assms(4) by (auto simp: in_frame_def)

end
