(* ===== verification/Phys_Mem.thy ===== *)
theory Phys_Mem
  imports Phys_Frames
begin

text \<open>
  The frame allocator of \<^verbatim>\<open>kernel/physmem.cc\<close>: an intrusive free list whose links live in the
  first word of the free frames, backed by a bump pointer \<^verbatim>\<open>avail\<close> that grows towards
  \<^verbatim>\<open>limit\<close>. The contract of the allocator is the locale \<open>frame_allocator\<close>; it is interpreted
  on the definitions of this theory and the page table components use the interpreted facts.
\<close>

subsection \<open>State and operations (physmem.cc)\<close>

record physmem =
  mem :: memory
  firstFree :: u32
  avail :: u32
  limit :: u32

text \<open>The range of frames that \<^verbatim>\<open>PhysMem::init\<close> sets; the whole of it, with the page fault handler, is \<open>physmem_init\<close> of the theory \<open>Boot\<close>.\<close>

definition physmem_range :: "physmem \<Rightarrow> u32 \<Rightarrow> u32 \<Rightarrow> physmem result" where
  "physmem_range s start sz =
     assert_k (offset start = 0) ''offset(start) == 0''
     (assert_k (offset sz = 0) ''offset(size) == 0''
     (Inr (s\<lparr>avail := start, limit := start + sz\<rparr>)))"

definition alloc_frame :: "physmem \<Rightarrow> (physmem \<times> u32) result" where
  "alloc_frame s =
     rbind
       (if firstFree s \<noteq> 0
        then Inr (s\<lparr>firstFree := load32 (mem s) (firstFree s)\<rparr>, firstFree s)
        else if avail s = limit s then Inl (Panic ''no more frames'')
        else Inr (s\<lparr>avail := avail s + FRAME_SIZE\<rparr>, avail s))
       (\<lambda>(s', p).
          assert_k (offset p = 0) ''offset(p) == 0''
          (Inr (s'\<lparr>mem := bzero (mem s') p FRAME_SIZE\<rparr>, p)))"

definition dealloc_frame :: "physmem \<Rightarrow> u32 \<Rightarrow> physmem result" where
  "dealloc_frame s p =
     assert_k (offset p = 0) ''offset(p) == 0''
     (Inr (s\<lparr>mem := store32 (mem s) p (firstFree s), firstFree := p\<rparr>))"

subsection \<open>The free list and the invariant\<close>

primrec free_list :: "memory \<Rightarrow> u32 \<Rightarrow> u32 list \<Rightarrow> bool" where
  "free_list m p [] \<longleftrightarrow> p = 0"
| "free_list m p (f # fs) \<longleftrightarrow> p = f \<and> f \<noteq> 0 \<and> free_list m (load32 m f) fs"

text \<open>The frames the allocator was given: those between \<open>lo\<close> and \<open>hi\<close>.\<close>

definition frame_pool :: "u32 \<Rightarrow> u32 \<Rightarrow> u32 set" where
  "frame_pool lo hi = {p. aligned p \<and> lo \<le> p \<and> p < hi}"

definition pm_wf :: "u32 \<Rightarrow> physmem \<Rightarrow> u32 list \<Rightarrow> bool" where
  "pm_wf lo s fs \<longleftrightarrow>
     0 < lo \<and> aligned (avail s) \<and> aligned (limit s) \<and> lo \<le> avail s \<and> avail s \<le> limit s \<and>
     free_list (mem s) (firstFree s) fs \<and> distinct fs \<and> set fs \<subseteq> frame_pool lo (avail s)"

definition free_frames :: "physmem \<Rightarrow> u32 list \<Rightarrow> u32 set" where
  "free_frames s fs = set fs \<union> frame_pool (avail s) (limit s)"

definition pm_inv :: "u32 \<Rightarrow> u32 \<Rightarrow> physmem \<Rightarrow> u32 set \<Rightarrow> bool" where
  "pm_inv lo hi s F \<longleftrightarrow> limit s = hi \<and> (\<exists>fs. pm_wf lo s fs \<and> F = free_frames s fs)"

subsection \<open>Facts on the free list\<close>

lemma frame_pool_aligned: "p \<in> frame_pool lo hi \<Longrightarrow> aligned p"
  by (simp add: frame_pool_def)

lemma free_list_cong:
  assumes "\<And>f. f \<in> set fs \<Longrightarrow> load32 m' f = load32 m f"
  shows "free_list m' p fs = free_list m p fs"
  using assms by (induction fs arbitrary: p) auto

lemma load32_get32: "load32 m p = get32 m p 0"
  by (simp add: get32_def)

lemma store32_set32: "store32 m p v = set32 m p 0 v"
  by (simp add: set32_def)

lemma free_list_same_except:
  assumes "same_except G m m'" "G \<inter> set fs = {}" "\<And>f. f \<in> set fs \<Longrightarrow> aligned f"
  shows "free_list m' p fs = free_list m p fs"
proof (rule free_list_cong)
  fix f assume "f \<in> set fs"
  with assms show "load32 m' f = load32 m f"
    using get32_same_except [OF assms(1), of f 0] by (auto simp: load32_get32)
qed

lemma avail_step:
  assumes "aligned a" "aligned l" "a < l"
  shows "aligned (a + FRAME_SIZE)" "a + FRAME_SIZE \<le> l" "a < a + FRAME_SIZE"
    "frame_pool a l = insert a (frame_pool (a + FRAME_SIZE) l)" "a \<notin> frame_pool (a + FRAME_SIZE) l"
    "frame_pool lo (a + FRAME_SIZE) = {p. aligned p \<and> lo \<le> p \<and> p \<le> a}"
proof -
  obtain j k where jk: "unat a = 4096 * j" "unat l = 4096 * k" "k < 1048576"
    using assms by (metis aligned_obtain)
  have "j < k" using assms(3) jk by (simp add: word_less_nat_alt)
  have ua: "unat (a + FRAME_SIZE) = 4096 * j + 4096"
    using jk \<open>j < k\<close> by (simp add: unat_add_no_wrap FRAME_SIZE_eq)
  have "4096 * j + 4096 = 4096 * (j + 1)" by simp
  then show al: "aligned (a + FRAME_SIZE)" by (simp only: aligned_unat ua) simp
  show "a + FRAME_SIZE \<le> l" using ua jk \<open>j < k\<close> by (simp add: word_le_nat_alt)
  show "a < a + FRAME_SIZE" using ua jk by (simp add: word_less_nat_alt)
  have le: "a + FRAME_SIZE \<le> p \<longleftrightarrow> a < p" if p: "aligned p" for p
  proof -
    obtain i where "unat p = 4096 * i" using p by (rule aligned_obtain)
    then have "unat (a + FRAME_SIZE) \<le> unat p \<longleftrightarrow> unat a < unat p" using ua jk(1) by auto
    then show ?thesis by (simp add: word_le_nat_alt word_less_nat_alt)
  qed
  show "frame_pool a l = insert a (frame_pool (a + FRAME_SIZE) l)"
    using assms le by (auto simp: frame_pool_def)
  show "a \<notin> frame_pool (a + FRAME_SIZE) l"
    using le [OF assms(1)] by (simp add: frame_pool_def)
  show "frame_pool lo (a + FRAME_SIZE) = {p. aligned p \<and> lo \<le> p \<and> p \<le> a}"
    using le by (auto simp: frame_pool_def not_le [symmetric])
qed

subsection \<open>The invariant is established and kept\<close>

lemma physmem_range_inv:
  assumes "physmem_range s start sz = Inr s'" "firstFree s = 0" "0 < start"
    "unat start + unat sz < 2 ^ 32"
  shows "pm_inv start (start + sz) s' (frame_pool start (start + sz))"
proof -
  have s': "s' = s\<lparr>avail := start, limit := start + sz\<rparr>" "aligned start" "aligned sz"
    using assms(1) by (auto simp: physmem_range_def)
  have us: "unat (start + sz) = unat start + unat sz"
    using assms(4) by (simp add: unat_add_no_wrap)
  then have "aligned (start + sz)" "start \<le> start + sz"
    using s'(2,3) by (simp_all add: aligned_unat word_le_nat_alt) (metis mod_add_eq mod_0 add_0)
  then show ?thesis using s' assms(2,3)
    by (auto simp: pm_inv_def pm_wf_def free_frames_def intro!: exI [of _ "[]"])
qed

lemma alloc_frame_from_list:
  assumes wf: "pm_wf lo s (p # fs)"
  defines "s' \<equiv> s\<lparr>firstFree := load32 (mem s) p, mem := bzero (mem s) p FRAME_SIZE\<rparr>"
  shows "alloc_frame s = Inr (s', p)" "pm_wf lo s' fs" "free_frames s' fs = free_frames s (p # fs) - {p}"
proof -
  have p: "firstFree s = p" "p \<noteq> 0" "aligned p" "p \<notin> set fs" "p < avail s"
    using wf by (auto simp: pm_wf_def frame_pool_def)
  show "alloc_frame s = Inr (s', p)"
    using p by (simp add: alloc_frame_def s'_def)
  have al: "aligned f" if "f \<in> set fs" for f
    using wf that by (auto simp: pm_wf_def frame_pool_def)
  have "free_list (bzero (mem s) p FRAME_SIZE) q fs = free_list (mem s) q fs" for q
    using bzero_frame_same [OF p(3)] p(4) al by (intro free_list_same_except) auto
  then show "pm_wf lo s' fs"
    using wf p by (simp add: pm_wf_def s'_def)
  show "free_frames s' fs = free_frames s (p # fs) - {p}"
    using p by (auto simp: free_frames_def s'_def frame_pool_def)
qed

lemma alloc_frame_from_avail:
  assumes wf: "pm_wf lo s []" and lt: "avail s < limit s"
  defines "s' \<equiv> s\<lparr>avail := avail s + FRAME_SIZE, mem := bzero (mem s) (avail s) FRAME_SIZE\<rparr>"
  shows "alloc_frame s = Inr (s', avail s)" "pm_wf lo s' []"
    "free_frames s' [] = free_frames s [] - {avail s}"
proof -
  have a: "firstFree s = 0" "aligned (avail s)" "aligned (limit s)" "lo \<le> avail s"
    using wf by (auto simp: pm_wf_def)
  note step = avail_step [OF a(2,3) lt]
  show "alloc_frame s = Inr (s', avail s)"
    using a lt by (simp add: alloc_frame_def s'_def)
  show "pm_wf lo s' []"
    using wf step(1-3) a by (simp add: pm_wf_def s'_def)
  show "free_frames s' [] = free_frames s [] - {avail s}"
    using step by (auto simp: free_frames_def s'_def)
qed

subsection \<open>The contract of a frame allocator\<close>

text \<open>
  What the rest of the kernel relies on. \<open>inv s F\<close> says that the state is well formed and that
  exactly the frames \<open>F\<close> of the \<open>pool\<close> are free. Allocation takes a frame out of \<open>F\<close>, zeroed;
  it fails only when \<open>F\<close> is empty; deallocation of a frame in use puts it back; and what clients
  write into frames they own does not disturb the allocator.
\<close>

locale frame_allocator =
  fixes inv :: "'s \<Rightarrow> u32 set \<Rightarrow> bool"
    and pool :: "u32 set"
    and mem_of :: "'s \<Rightarrow> memory"
    and set_mem :: "memory \<Rightarrow> 's \<Rightarrow> 's"
    and alloc :: "'s \<Rightarrow> ('s \<times> u32) result"
    and dealloc :: "'s \<Rightarrow> u32 \<Rightarrow> 's result"
  assumes free_in_pool: "inv s F \<Longrightarrow> F \<subseteq> pool"
    and pool_frame: "inv s F \<Longrightarrow> p \<in> pool \<Longrightarrow> aligned p \<and> p \<noteq> 0"
    and alloc_succeeds: "inv s F \<Longrightarrow> F \<noteq> {} \<Longrightarrow> \<exists>s' p. alloc s = Inr (s', p)"
    and alloc_fails: "inv s {} \<Longrightarrow> alloc s = Inl (Panic ''no more frames'')"
    and alloc_free: "inv s F \<Longrightarrow> alloc s = Inr (s', p) \<Longrightarrow> p \<in> F \<and> inv s' (F - {p})"
    and alloc_mem: "inv s F \<Longrightarrow> alloc s = Inr (s', p) \<Longrightarrow>
      zero_frame (mem_of s') p \<and> same_except {p} (mem_of s) (mem_of s')"
    and dealloc_ok: "inv s F \<Longrightarrow> p \<in> pool - F \<Longrightarrow>
      \<exists>s'. dealloc s p = Inr s' \<and> inv s' (insert p F) \<and> same_except {p} (mem_of s) (mem_of s')"
    and write_ok: "inv s F \<Longrightarrow> same_except G (mem_of s) m \<Longrightarrow> G \<inter> F = {} \<Longrightarrow> inv (set_mem m s) F"
begin

lemma alloc_cases:
  assumes "inv s F"
  obtains (full) "F = {}" "alloc s = Inl (Panic ''no more frames'')"
  | (got) s' p where "alloc s = Inr (s', p)" "p \<in> F" "inv s' (F - {p})" "aligned p" "p \<noteq> 0"
      "zero_frame (mem_of s') p" "same_except {p} (mem_of s) (mem_of s')"
proof (cases "F = {}")
  case True
  then show ?thesis using full alloc_fails assms by simp
next
  case False
  then obtain s' p where a: "alloc s = Inr (s', p)" using alloc_succeeds assms by blast
  have "p \<in> pool" using alloc_free [OF assms a] free_in_pool [OF assms] by blast
  then show ?thesis
    using got [OF a] alloc_free [OF assms a] alloc_mem [OF assms a] pool_frame [OF assms] by blast
qed

lemma alloc_twice_distinct:
  assumes "inv s F" "alloc s = Inr (s1, p)" "alloc s1 = Inr (s2, q)"
  shows "p \<noteq> q"
  using alloc_free [OF assms(1,2)] alloc_free [of s1 "F - {p}" s2 q] assms(3) by auto

lemma dealloc_then_alloc:
  assumes "inv s F" "p \<in> pool - F"
  shows "\<exists>s' s'' q. dealloc s p = Inr s' \<and> alloc s' = Inr (s'', q)"
  using dealloc_ok [OF assms] alloc_succeeds by (metis insert_not_empty)

end

lemma frame_pool_split:
  "a \<le> l \<Longrightarrow> lo \<le> a \<Longrightarrow> frame_pool lo l = frame_pool lo a \<union> frame_pool a l"
  by (auto simp: frame_pool_def)

lemma free_frames_subset: "pm_wf lo s fs \<Longrightarrow> free_frames s fs \<subseteq> frame_pool lo (limit s)"
  by (auto simp: pm_wf_def free_frames_def frame_pool_def)

lemma free_frames_empty:
  assumes "pm_wf lo s fs"
  shows "free_frames s fs = {} \<longleftrightarrow> fs = [] \<and> avail s = limit s"
  using assms by (auto simp: pm_wf_def free_frames_def frame_pool_def not_less [symmetric] antisym_conv1)

lemma alloc_frame_spec:
  assumes "pm_wf lo s fs" "alloc_frame s = Inr (s', p)"
  shows "\<exists>fs'. pm_wf lo s' fs' \<and> free_frames s' fs' = free_frames s fs - {p} \<and> p \<in> free_frames s fs \<and>
    limit s' = limit s \<and> mem s' = bzero (mem s) p FRAME_SIZE"
proof (cases fs)
  case Nil
  have ff: "firstFree s = 0" using assms(1) Nil by (simp add: pm_wf_def)
  then have "avail s \<noteq> limit s" using assms(2) by (auto simp: alloc_frame_def)
  then have lt: "avail s < limit s" using assms(1) by (auto simp: pm_wf_def)
  note a = alloc_frame_from_avail [OF assms(1) [unfolded Nil] lt]
  have "avail s \<in> free_frames s []"
    using lt assms(1) by (simp add: free_frames_def frame_pool_def pm_wf_def)
  then show ?thesis using a assms(2) Nil by auto
next
  case (Cons f fs')
  note a = alloc_frame_from_list [OF assms(1) [unfolded Cons]]
  have "f \<in> free_frames s (f # fs')" by (simp add: free_frames_def)
  then show ?thesis using a assms(2) Cons by auto
qed

lemma alloc_frame_total:
  assumes "pm_wf lo s fs"
  shows "alloc_frame s = Inl (Panic ''no more frames'') \<and> free_frames s fs = {} \<or>
    (\<exists>s' p. alloc_frame s = Inr (s', p))"
proof (cases fs)
  case Nil
  show ?thesis
  proof (cases "avail s = limit s")
    case True
    then show ?thesis
      using Nil assms free_frames_empty [OF assms] by (auto simp: alloc_frame_def pm_wf_def)
  next
    case False
    then have "avail s < limit s" using assms by (auto simp: pm_wf_def)
    then show ?thesis using alloc_frame_from_avail(1) assms Nil by blast
  qed
next
  case (Cons f fs')
  then show ?thesis using alloc_frame_from_list(1) assms by blast
qed

lemma dealloc_frame_spec:
  assumes "pm_wf lo s fs" "p \<in> frame_pool lo (limit s)" "p \<notin> free_frames s fs"
  defines "s' \<equiv> s\<lparr>mem := store32 (mem s) p (firstFree s), firstFree := p\<rparr>"
  shows "dealloc_frame s p = Inr s'" "pm_wf lo s' (p # fs)"
    "free_frames s' (p # fs) = insert p (free_frames s fs)" "same_except {p} (mem s) (mem s')"
proof -
  have p: "aligned p" "lo \<le> p" "p < avail s" "p \<notin> set fs" "p \<noteq> 0"
    using assms by (auto simp: frame_pool_def free_frames_def pm_wf_def not_le)
  show "dealloc_frame s p = Inr s'" using p by (simp add: dealloc_frame_def s'_def)
  show se: "same_except {p} (mem s) (mem s')"
    using set32_same_except [OF p(1), of 0] by (simp add: s'_def store32_set32)
  have "aligned f" if "f \<in> set fs" for f
    using that assms(1) by (auto simp: pm_wf_def frame_pool_def)
  then have "free_list (mem s') (firstFree s) fs"
    using free_list_same_except [OF se] p(4) assms(1) by (auto simp: pm_wf_def)
  then show "pm_wf lo s' (p # fs)"
    using assms(1) p by (auto simp: pm_wf_def s'_def frame_pool_def)
  show "free_frames s' (p # fs) = insert p (free_frames s fs)"
    by (auto simp: free_frames_def s'_def)
qed

lemma pm_wf_write:
  assumes "pm_wf lo s fs" "same_except G (mem s) m" "G \<inter> free_frames s fs = {}"
  shows "pm_wf lo (s\<lparr>mem := m\<rparr>) fs"
proof -
  have "aligned f" if "f \<in> set fs" for f
    using that assms(1) by (auto simp: pm_wf_def frame_pool_def)
  moreover have "G \<inter> set fs = {}" using assms(3) by (auto simp: free_frames_def)
  ultimately have "free_list m p fs = free_list (mem s) p fs" for p
    using free_list_same_except [OF assms(2)] by blast
  then show ?thesis using assms(1) by (simp add: pm_wf_def)
qed

lemma pm_wf_nonzero: "pm_wf lo s fs \<Longrightarrow> p \<in> frame_pool lo hi \<Longrightarrow> p \<noteq> 0"
  by (auto simp: pm_wf_def frame_pool_def)

text \<open>The allocator of \<^verbatim>\<open>physmem.cc\<close> keeps the contract, on the frames from \<open>lo\<close> on.\<close>

interpretation pm: frame_allocator "pm_inv lo hi" "frame_pool lo hi" mem "\<lambda>m. mem_update (\<lambda>_. m)"
    alloc_frame dealloc_frame for lo hi
proof
  fix s F s' p G m
  assume inv: "pm_inv lo hi s F"
  then obtain fs where wf: "pm_wf lo s fs" "F = free_frames s fs" "limit s = hi"
    by (auto simp: pm_inv_def)
  show "F \<subseteq> frame_pool lo hi" using free_frames_subset wf by blast
  show "aligned p \<and> p \<noteq> 0" if "p \<in> frame_pool lo hi"
    using that pm_wf_nonzero [OF wf(1)] frame_pool_aligned by blast
  show "\<exists>s' p. alloc_frame s = Inr (s', p)" if "F \<noteq> {}"
    using alloc_frame_total [OF wf(1)] wf(2) that by blast
  { assume a: "alloc_frame s = Inr (s', p)"
    from alloc_frame_spec [OF wf(1) a] wf
    show "p \<in> F \<and> pm_inv lo hi s' (F - {p})" by (auto simp: pm_inv_def)
    moreover have "mem s' = bzero (mem s) p FRAME_SIZE"
      using alloc_frame_spec [OF wf(1) a] by blast
    moreover have "aligned p"
      using calculation(1) free_frames_subset [OF wf(1)] wf(2) frame_pool_aligned by blast
    ultimately show "zero_frame (mem s') p \<and> same_except {p} (mem s) (mem s')"
      using bzero_frame_zero bzero_frame_same by simp }
  show "\<exists>s'. dealloc_frame s p = Inr s' \<and> pm_inv lo hi s' (insert p F) \<and> same_except {p} (mem s) (mem s')"
    if "p \<in> frame_pool lo hi - F"
    using dealloc_frame_spec [OF wf(1), of p] that wf
    by (auto simp: pm_inv_def intro!: exI [of _ "p # fs"])
  show "pm_inv lo hi (s\<lparr>mem := m\<rparr>) F" if "same_except G (mem s) m" "G \<inter> F = {}"
    using pm_wf_write [OF wf(1), of G m] that wf by (auto simp: pm_inv_def free_frames_def)
next
  fix s assume "pm_inv lo hi s {}"
  then show "alloc_frame s = Inl (Panic ''no more frames'')"
    using alloc_frame_total alloc_frame_spec by (fastforce simp: pm_inv_def)
qed

subsection \<open>Properties\<close>

text \<open>A machine with one megabyte of frames from one megabyte on.\<close>

definition sample_phys :: physmem where
  "sample_phys = \<lparr>mem = (\<lambda>_. 0), firstFree = 0, avail = 0x100000, limit = 0x200000\<rparr>"

lemma sample_phys_inv: "pm_inv 0x100000 0x200000 sample_phys (frame_pool 0x100000 0x200000)"
  by (auto simp: sample_phys_def pm_inv_def pm_wf_def free_frames_def offset_def intro!: exI [of _ "[]"])

text \<open>
  \<^bold>\<open>C8.\<close> Frame allocation (physmem.cc). In a well-formed state whose free frames are \<open>F\<close>,
  \<^verbatim>\<open>alloc_frame\<close> panics exactly when there is no free frame; otherwise it returns an aligned frame of
  \<open>F\<close> that is filled with zeros, takes it out of the free frames and changes no other memory.
\<close>

theorem alloc_frame_contract:
  assumes "pm_inv lo hi s F"
  shows "F = {} \<and> alloc_frame s = Inl (Panic ''no more frames'') \<or>
    (\<exists>s' p. alloc_frame s = Inr (s', p) \<and> p \<in> F \<and> aligned p \<and> pm_inv lo hi s' (F - {p}) \<and>
       zero_frame (mem s') p \<and> same_except {p} (mem s) (mem s'))"
  using pm.alloc_cases [OF assms] by (metis (no_types, lifting))

theorem alloc_frame_contract_witness:
  "frame_pool 0x100000 0x200000 \<noteq> {} \<and>
   (\<exists>s' p. alloc_frame sample_phys = Inr (s', p) \<and> p \<in> frame_pool 0x100000 0x200000 \<and> aligned p \<and>
      pm_inv 0x100000 0x200000 s' (frame_pool 0x100000 0x200000 - {p}) \<and>
      zero_frame (mem s') p \<and> same_except {p} (mem sample_phys) (mem s'))"
proof -
  have "0x100000 \<in> frame_pool 0x100000 0x200000" by (simp add: frame_pool_def offset_def)
  then show ?thesis using alloc_frame_contract [OF sample_phys_inv] by blast
qed

text \<open>
  Frame deallocation (physmem.cc). Freeing a frame of the pool that is in use succeeds, adds
  exactly that frame to the free frames and writes to no other frame; the next allocation returns
  the same frame, zeroed, and the free frames are what they were before the deallocation.
\<close>

theorem dealloc_then_alloc_frame:
  assumes "pm_inv lo hi s F" "p \<in> frame_pool lo hi" "p \<notin> F"
  shows "\<exists>s1 s2. dealloc_frame s p = Inr s1 \<and> pm_inv lo hi s1 (insert p F) \<and>
    alloc_frame s1 = Inr (s2, p) \<and> pm_inv lo hi s2 F \<and> zero_frame (mem s2) p \<and> same_except {p} (mem s) (mem s2)"
proof -
  obtain s1 where s1: "dealloc_frame s p = Inr s1" "pm_inv lo hi s1 (insert p F)" "same_except {p} (mem s) (mem s1)"
    using pm.dealloc_ok [OF assms(1), of p] assms(2,3) by auto
  have "firstFree s1 = p" "p \<noteq> 0" "aligned p"
    using s1(1) pm.pool_frame [OF assms(1,2)] by (auto simp: dealloc_frame_def)
  then obtain s2 where a: "alloc_frame s1 = Inr (s2, p)" by (simp add: alloc_frame_def Let_def)
  have "insert p F - {p} = F" using assms(3) by blast
  then show ?thesis
    using s1 a pm.alloc_free [OF s1(2) a] pm.alloc_mem [OF s1(2) a] same_except_trans [OF s1(3), of "{p}"]
    by auto
qed

theorem dealloc_then_alloc_frame_witness:
  "\<exists>s0 p s1 s2. alloc_frame sample_phys = Inr (s0, p) \<and> dealloc_frame s0 p = Inr s1 \<and>
     alloc_frame s1 = Inr (s2, p) \<and> pm_inv 0x100000 0x200000 s2 (frame_pool 0x100000 0x200000 - {p})"
proof -
  let ?F = "frame_pool 0x100000 0x200000"
  have "0x100000 \<in> ?F" by (simp add: frame_pool_def offset_def)
  then obtain s0 p where a: "alloc_frame sample_phys = Inr (s0, p)"
    using pm.alloc_succeeds [OF sample_phys_inv] by blast
  have "p \<in> ?F" "pm_inv 0x100000 0x200000 s0 (?F - {p})" using pm.alloc_free [OF sample_phys_inv a] by simp_all
  then show ?thesis
    using a dealloc_then_alloc_frame [of "0x100000" "0x200000" s0 "?F - {p}" p] by blast
qed

text \<open>
  A hazard of the free list (physmem.cc). Freeing the same frame twice is not detected: it
  closes the list into a loop, and the next two allocations return the same frame. The callers
  that release a frame reachable through two mappings run into this.
\<close>

theorem double_free_hands_out_twice:
  assumes "aligned p" "p \<noteq> 0"
  shows "\<exists>s1 s2 s3 s4. dealloc_frame s p = Inr s1 \<and> dealloc_frame s1 p = Inr s2 \<and>
    alloc_frame s2 = Inr (s3, p) \<and> alloc_frame s3 = Inr (s4, p)"
  using assms by (simp add: dealloc_frame_def alloc_frame_def)

theorem double_free_hands_out_twice_witness:
  "\<exists>s1 s2 s3 s4. dealloc_frame sample_phys 0x100000 = Inr s1 \<and> dealloc_frame s1 0x100000 = Inr s2 \<and>
    alloc_frame s2 = Inr (s3, 0x100000) \<and> alloc_frame s3 = Inr (s4, 0x100000)"
  by (rule double_free_hands_out_twice) (simp_all add: offset_def)

end
