(* ===== verification/Kernel_Config.thy ===== *)
theory Kernel_Config
  imports Machine_Memory
begin

text \<open>
  The machine configuration of \<^verbatim>\<open>kernel/config.h\<close>: sizes and device addresses discovered at boot
  and read by the memory and scheduling components.
\<close>

definition MAX_PROCS :: nat where
  "MAX_PROCS = 16"

record apic_info =
  processorId :: u8
  apicId :: u8
  apic_flags :: u32

record config =
  memSize :: u32
  nOtherProcs :: u32
  totalProcs :: u32
  localAPIC :: u32
  madtFlags :: u32
  ioAPIC :: u32
  apicInfo :: "apic_info list"
  oemid :: "u8 list"

end
