(* ===== verification/Page_Tables.thy ===== *)
theory Page_Tables
  imports Phys_Mem Kernel_Config
begin

text \<open>
  Two-level page tables, namespace \<^verbatim>\<open>gheith\<close> of \<^verbatim>\<open>kernel/vmm.cc\<close>: \<^verbatim>\<open>map\<close>, \<^verbatim>\<open>user_map\<close>,
  \<^verbatim>\<open>unmap\<close>, \<^verbatim>\<open>is_special\<close>, \<^verbatim>\<open>make_pd\<close>, \<^verbatim>\<open>delete_private\<close> and \<^verbatim>\<open>delete_pd\<close>. Page directories and page
  tables are arrays of 1024 words in physical frames. The operations are related to \<open>walk\<close>, the
  translation the processor performs.
\<close>

subsection \<open>Operations (vmm.cc)\<close>

definition pdi :: "u32 \<Rightarrow> u32" where
  "pdi va = drop_bit 22 va"

definition pti :: "u32 \<Rightarrow> u32" where
  "pti va = drop_bit 12 va AND 0x3FF"

definition present :: "u32 \<Rightarrow> bool" where
  "present e \<longleftrightarrow> e AND 1 \<noteq> 0"

text \<open>\<^verbatim>\<open>map\<close> and \<^verbatim>\<open>user_map\<close> differ only in the bits they put into the entry.\<close>

definition map_with :: "u32 \<Rightarrow> physmem \<Rightarrow> u32 \<Rightarrow> u32 \<Rightarrow> u32 \<Rightarrow> physmem result" where
  "map_with bits s pd va pa =
     (let pde = get32 (mem s) pd (pdi va) in
      rbind
        (if \<not> present pde
         then rbind (alloc_frame s) (\<lambda>(s, f).
                let pde = f OR 7 in Inr (s\<lparr>mem := set32 (mem s) pd (pdi va) pde\<rparr>, pde))
         else Inr (s, pde))
        (\<lambda>(s, pde).
           let pt = frame_mask pde in
           Inr (s\<lparr>mem := set32 (mem s) pt (pti va) (pa OR bits)\<rparr>)))"

definition map_page :: "physmem \<Rightarrow> u32 \<Rightarrow> u32 \<Rightarrow> u32 \<Rightarrow> physmem result" where
  "map_page = map_with 3"

definition user_map :: "physmem \<Rightarrow> u32 \<Rightarrow> u32 \<Rightarrow> u32 \<Rightarrow> physmem result" where
  "user_map = map_with 7"

text \<open>
  A core's address translation cache, as far as the kernel manages it: the pages it may hold a
  translation for. \<^verbatim>\<open>invlpg\<close> drops one page.
\<close>

record vmm =
  phys :: physmem
  tlb :: "u32 \<Rightarrow> u32 option"

definition invlpg :: "vmm \<Rightarrow> u32 \<Rightarrow> vmm" where
  "invlpg s va = s\<lparr>tlb := (tlb s)(framedown va := None)\<rparr>"

definition unmap :: "vmm \<Rightarrow> u32 \<Rightarrow> u32 \<Rightarrow> bool \<Rightarrow> vmm result" where
  "unmap s pd va physical =
     (let m = mem (phys s); pde = get32 m pd (pdi va) in
      if \<not> present pde then Inr s
      else
        let pt = frame_mask pde; pte = get32 m pt (pti va) in
        if \<not> present pte then Inr s
        else
          let pa = frame_mask pte;
              s1 = s\<lparr>phys := (phys s)\<lparr>mem := set32 m pt (pti va) 0\<rparr>\<rparr> in
          rbind
            (if physical
             then rbind (dealloc_frame (phys s1) pa) (\<lambda>ph. Inr (s1\<lparr>phys := ph\<rparr>))
             else Inr s1)
            (\<lambda>s2. Inr (invlpg s2 va)))"

definition is_special :: "config \<Rightarrow> u32 \<Rightarrow> bool" where
  "is_special kConfig va \<longleftrightarrow> va < 0x80000000 \<or> va = ioAPIC kConfig \<or> va = localAPIC kConfig"

subsection \<open>The translation of the processor\<close>

definition walk :: "memory \<Rightarrow> u32 \<Rightarrow> u32 \<Rightarrow> u32 option" where
  "walk m pd va =
     (let pde = get32 m pd (pdi va) in
      if \<not> present pde then None
      else let pte = get32 m (frame_mask pde) (pti va) in
        if present pte then Some pte else None)"

subsection \<open>Well-formed page directories\<close>

abbreviation (input) pde_of :: "memory \<Rightarrow> u32 \<Rightarrow> u32 \<Rightarrow> u32" where
  "pde_of m pd i \<equiv> get32 m pd i"

definition pt_of :: "memory \<Rightarrow> u32 \<Rightarrow> u32 \<Rightarrow> u32" where
  "pt_of m pd i = frame_mask (pde_of m pd i)"

definition pt_index :: "memory \<Rightarrow> u32 \<Rightarrow> u32 \<Rightarrow> bool" where
  "pt_index m pd i \<longleftrightarrow> unat i < 1024 \<and> present (pde_of m pd i)"

definition pd_wf :: "memory \<Rightarrow> u32 \<Rightarrow> bool" where
  "pd_wf m pd \<longleftrightarrow> aligned pd \<and> (\<forall>i. pt_index m pd i \<longrightarrow> pt_of m pd i \<noteq> pd) \<and>
     (\<forall>i j. pt_index m pd i \<longrightarrow> pt_index m pd j \<longrightarrow> pt_of m pd i = pt_of m pd j \<longrightarrow> i = j)"

definition pd_frames :: "memory \<Rightarrow> u32 \<Rightarrow> u32 set" where
  "pd_frames m pd = insert pd {pt_of m pd i |i. pt_index m pd i}"

subsection \<open>Indices and entries\<close>

lemma unat_pdi: "unat (pdi va) < 1024"
proof -
  have "unat (pdi va) = unat va div 4194304"
    by (simp add: pdi_def drop_bit_eq_div unat_div_distrib)
  then show ?thesis using unat_lt_2p32 [of va] by (simp add: less_mult_imp_div_less)
qed

lemma unat_pti: "unat (pti va) < 1024"
proof -
  have "pti va \<le> 0x3FF" unfolding pti_def by (rule word_and_le1)
  then show ?thesis by (simp add: word_le_nat_alt)
qed

lemma pdi_pti_ppn: "pdi va = pdi va' \<Longrightarrow> pti va = pti va' \<Longrightarrow> ppn va = ppn va'"
proof -
  assume d: "pdi va = pdi va'" and t: "pti va = pti va'"
  show "ppn va = ppn va'"
  proof (rule bit_word_eqI)
    fix n assume n: "n < LENGTH(32)"
    show "bit (ppn va) n = bit (ppn va') n"
    proof (cases "n < 10")
      case True
      have "(0x3FF :: u32) = mask 10" by (simp add: mask_eq_exp_minus_1)
      then have "bit (drop_bit 12 va AND mask 10) n = bit (drop_bit 12 va' AND mask 10) n"
        using t by (metis pti_def)
      then show ?thesis using True n by (simp add: ppn_def bit_simps)
    next
      case False
      then obtain k where k: "n = 10 + k" using le_Suc_ex not_less by blast
      have "bit (pdi va) k = bit (pdi va') k" using d by simp
      then show ?thesis by (simp add: k ppn_def pdi_def bit_simps add.commute)
    qed
  qed
qed

lemma ppn_pdi: "ppn va = ppn va' \<Longrightarrow> pdi va = pdi va'"
proof -
  have "pdi v = drop_bit 10 (ppn v)" for v by (simp add: pdi_def ppn_def)
  then show "ppn va = ppn va' \<Longrightarrow> pdi va = pdi va'" by simp
qed

lemma ppn_pti: "ppn va = ppn va' \<Longrightarrow> pti va = pti va'"
  by (simp add: ppn_def pti_def)

lemma frame_mask_or:
  assumes "aligned f" "frame_mask b = 0"
  shows "frame_mask (f OR b) = f"
proof -
  have "frame_mask (f OR b) = frame_mask f OR frame_mask b"
    by (simp add: frame_mask_def and.commute [of _ "0xFFFFF000"] bit.conj_disj_distrib)
  then show ?thesis using assms by (simp add: aligned_frame_mask)
qed

lemma present_or: "present b \<Longrightarrow> present (f OR b)"
proof -
  assume "present b"
  then have "bit (b AND 1) 0" by (simp add: present_def and_one_eq odd_iff_mod_2_eq_one)
  then have "bit ((f OR b) AND 1) 0" by (simp add: bit_simps)
  then show ?thesis unfolding present_def by (metis bit_0_eq bot_apply bot_bool_def)
qed

lemma entry_bits [simp]: "present 7" "present 3" "\<not> present 0" "frame_mask 7 = 0" "frame_mask 3 = 0"
  by (simp_all add: present_def frame_mask_def)

subsection \<open>Frame conditions\<close>

text \<open>Translations and page tables depend on the frames of the page directory only.\<close>

lemma pd_frames_self [simp]: "pd \<in> pd_frames m pd"
  by (simp add: pd_frames_def)

lemma pt_in_pd_frames: "pt_index m pd i \<Longrightarrow> pt_of m pd i \<in> pd_frames m pd"
  by (auto simp: pd_frames_def)

lemma pt_aligned [simp]: "aligned (pt_of m pd i)"
  by (simp add: pt_of_def)

lemma walk_alt:
  "walk m pd va =
     (let pte = get32 m (pt_of m pd (pdi va)) (pti va) in
      if present (pde_of m pd (pdi va)) \<and> present pte then Some pte else None)"
  by (simp add: walk_def pt_of_def Let_def)

lemma pd_entries_frame:
  assumes "same_except G m m'" "aligned pd" "pd \<notin> G"
  shows "unat i < 1024 \<Longrightarrow> pde_of m' pd i = pde_of m pd i"
    "unat i < 1024 \<Longrightarrow> pt_of m' pd i = pt_of m pd i"
    "pt_index m' pd i = pt_index m pd i"
  using get32_same_except [OF assms(1-3)] by (auto simp: pt_of_def pt_index_def)

lemma pd_wf_frame:
  assumes "same_except G m m'" "pd \<notin> G"
  shows "pd_wf m pd \<Longrightarrow> pd_wf m' pd" and "aligned pd \<Longrightarrow> pd_frames m' pd = pd_frames m pd"
proof -
  note e = pd_entries_frame [OF assms(1) _ assms(2)]
  have pt: "pt_of m' pd i = pt_of m pd i" if "aligned pd" "pt_index m pd i" for i
    using e(2) that by (simp add: pt_index_def)
  show "pd_wf m' pd" if "pd_wf m pd"
    using that e(3) pt by (simp add: pd_wf_def)
  show "pd_frames m' pd = pd_frames m pd" if "aligned pd"
    using that e(3) pt by (auto simp: pd_frames_def intro: sym)
qed

lemma walk_frame:
  assumes "same_except G m m'" "aligned pd" "G \<inter> pd_frames m pd = {}"
  shows "walk m' pd va = walk m pd va"
proof -
  have pd: "pd \<notin> G" using assms(3) pd_frames_self by blast
  have pde: "pde_of m' pd (pdi va) = pde_of m pd (pdi va)"
    using pd_entries_frame(1) [OF assms(1,2) pd] unat_pdi by blast
  show ?thesis
  proof (cases "present (pde_of m pd (pdi va))")
    case True
    then have "pt_of m pd (pdi va) \<notin> G"
      using assms(3) pt_in_pd_frames unat_pdi by (fastforce simp: pt_index_def)
    then have "get32 m' (pt_of m pd (pdi va)) (pti va) = get32 m (pt_of m pd (pdi va)) (pti va)"
      by (intro get32_same_except [OF assms(1)] pt_aligned unat_pti)
    then show ?thesis by (simp add: walk_def pde pt_of_def Let_def)
  next
    case False
    then show ?thesis by (simp add: walk_def pde)
  qed
qed

subsection \<open>Storing a page table entry\<close>

lemma set_pte_walk:
  fixes e :: u32
  assumes wf: "pd_wf m pd" and idx: "pt_index m pd (pdi va)"
  defines "m' \<equiv> set32 m (pt_of m pd (pdi va)) (pti va) e"
  shows "walk m' pd va = (if present e then Some e else None)"
    and "ppn va' \<noteq> ppn va \<Longrightarrow> walk m' pd va' = walk m pd va'"
    and "pd_wf m' pd" and "pd_frames m' pd = pd_frames m pd"
    and "same_except {pt_of m pd (pdi va)} m m'"
proof -
  let ?pt = "pt_of m pd (pdi va)"
  have pd: "aligned pd" "?pt \<noteq> pd" using wf idx by (simp_all add: pd_wf_def)
  show se: "same_except {?pt} m m'"
    unfolding m'_def by (rule set32_same_except) (simp_all add: unat_pti)
  have nin: "pd \<notin> {?pt}" using pd(2) by simp
  show "pd_wf m' pd" "pd_frames m' pd = pd_frames m pd"
    using pd_wf_frame [OF se nin] wf pd(1) by simp_all
  note pde = pd_entries_frame(1) [OF se pd(1) nin]
  have pr: "present (pde_of m pd (pdi va))" using idx by (simp add: pt_index_def)
  show "walk m' pd va = (if present e then Some e else None)"
    using pr pde [OF unat_pdi] by (simp add: walk_def Let_def pt_of_def) (simp add: m'_def pt_of_def)
  show "walk m' pd va' = walk m pd va'" if ne: "ppn va' \<noteq> ppn va"
  proof (cases "pt_index m pd (pdi va')")
    case True
    have "get32 m' (pt_of m pd (pdi va')) (pti va') = get32 m (pt_of m pd (pdi va')) (pti va')"
    proof (cases "pdi va' = pdi va")
      case True
      then have "pti va' \<noteq> pti va" using ne pdi_pti_ppn by blast
      then show ?thesis
        unfolding m'_def True by (intro get_set_same_frame pt_aligned unat_pti)
    next
      case False
      then have "pt_of m pd (pdi va') \<noteq> ?pt" using wf idx True unfolding pd_wf_def by blast
      then show ?thesis unfolding m'_def by (intro get_set_other_frame pt_aligned unat_pti)
    qed
    then show ?thesis using True by (simp add: walk_def pde unat_pdi pt_of_def Let_def)
  next
    case False
    then show ?thesis using unat_pdi by (simp add: walk_def pde pt_index_def)
  qed
qed

subsection \<open>Installing a page table\<close>

lemma set_pde_walk:
  assumes wf: "pd_wf m pd" and idx: "unat i < 1024" "\<not> present (pde_of m pd i)"
    and f: "aligned f" "f \<notin> pd_frames m pd" "zero_frame m f"
  defines "m' \<equiv> set32 m pd i (f OR 7)"
  shows "walk m' pd va = walk m pd va" and "pd_wf m' pd"
    and "pd_frames m' pd = insert f (pd_frames m pd)"
    and "pt_index m' pd i" and "pt_of m' pd i = f" and "same_except {pd} m m'"
proof -
  have al: "aligned pd" and nf: "f \<noteq> pd" using wf f by (auto simp: pd_wf_def)
  show se: "same_except {pd} m m'" unfolding m'_def by (rule set32_same_except [OF al idx(1)])
  have e: "pde_of m' pd j = (if j = i then f OR 7 else pde_of m pd j)" if "unat j < 1024" for j
    using that al idx(1) by (simp add: m'_def get_set_same_frame)
  have pti_new: "pt_index m' pd j \<longleftrightarrow> j = i \<or> pt_index m pd j" for j
    using e [of j] idx by (auto simp: pt_index_def present_or)
  show "pt_index m' pd i" by (simp add: pti_new)
  have ptf: "pt_of m' pd j = (if j = i then f else pt_of m pd j)" if "unat j < 1024" for j
    using e [OF that] f(1) by (simp add: pt_of_def frame_mask_or)
  then show "pt_of m' pd i = f" using idx by simp
  have ptin: "pt_of m pd j \<noteq> f" if "pt_index m pd j" for j
    using pt_in_pd_frames [OF that] f(2) by auto
  have lt: "pt_index m pd j \<Longrightarrow> unat j < 1024" for j by (simp add: pt_index_def)
  show "pd_frames m' pd = insert f (pd_frames m pd)"
    using pti_new ptf lt idx by (auto simp: pd_frames_def) (metis pt_index_def)+
  show "pd_wf m' pd"
    unfolding pd_wf_def using al wf nf pti_new ptf lt idx ptin
    by (simp add: pd_wf_def) (metis pt_index_def)
  have other: "get32 m' p j = get32 m p j" if "aligned p" "p \<noteq> pd" "unat j < 1024" for p j
    using get32_same_except [OF se that(1)] that by simp
  show "walk m' pd va = walk m pd va"
  proof (cases "pdi va = i")
    case True
    have "get32 m' f (pti va) = 0"
      using other [OF f(1) nf unat_pti] zero_frame_get32 [OF f(3,1) unat_pti] by simp
    then show ?thesis
      using True idx e [OF idx(1)] f(1) by (simp add: walk_def frame_mask_or present_or Let_def)
  next
    case False
    have "get32 m' (pt_of m pd (pdi va)) (pti va) = get32 m (pt_of m pd (pdi va)) (pti va)"
      if "pt_index m pd (pdi va)"
      using other [OF pt_aligned _ unat_pti] that wf by (simp add: pd_wf_def)
    then show ?thesis
      using False e [OF unat_pdi] unat_pdi by (simp add: walk_def pt_index_def pt_of_def Let_def)
  qed
qed

subsection \<open>Mapping a page\<close>

lemma map_with_spec:
  assumes inv: "pm_inv lo hi s F" and wf: "pd_wf (mem s) pd"
    and disj: "pd_frames (mem s) pd \<inter> F = {}" and ok: "map_with bits s pd va pa = Inr s'"
    and bits: "present bits"
  obtains F' where "F' \<subseteq> F" "pm_inv lo hi s' F'" "pd_wf (mem s') pd"
    "pd_frames (mem s') pd = pd_frames (mem s) pd \<union> (F - F')"
    "same_except (pd_frames (mem s') pd) (mem s) (mem s')"
    "walk (mem s') pd va = Some (pa OR bits)"
    "\<And>va'. ppn va' \<noteq> ppn va \<Longrightarrow> walk (mem s') pd va' = walk (mem s) pd va'" "card (F - F') \<le> 1"
proof (cases "present (pde_of (mem s) pd (pdi va))")
  case True
  let ?m = "set32 (mem s) (pt_of (mem s) pd (pdi va)) (pti va) (pa OR bits)"
  have s': "s' = s\<lparr>mem := ?m\<rparr>"
    using ok True by (simp add: map_with_def Let_def pt_of_def)
  have idx: "pt_index (mem s) pd (pdi va)" using True unat_pdi by (simp add: pt_index_def)
  note w = set_pte_walk [OF wf idx, where e = "pa OR bits"]
  have "pt_of (mem s) pd (pdi va) \<in> pd_frames (mem s) pd" using idx by (rule pt_in_pd_frames)
  then have "pm_inv lo hi s' F" and "same_except (pd_frames (mem s) pd) (mem s) ?m"
    using pm.write_ok [OF inv w(5)] disj same_except_mono [OF w(5)] by (auto simp: s')
  then show ?thesis using w bits by (intro that [of F]) (auto simp: s' present_or)
next
  case False
  show ?thesis
  proof (cases rule: pm.alloc_cases [OF inv])
    case 1
    then show ?thesis using ok False by (simp add: map_with_def)
  next
    case (2 s1 f)
    let ?m1 = "set32 (mem s1) pd (pdi va) (f OR 7)"
    let ?m2 = "set32 ?m1 f (pti va) (pa OR bits)"
    have s': "s' = s1\<lparr>mem := ?m2\<rparr>"
      using ok False 2(1,4) by (simp add: map_with_def Let_def frame_mask_or)
    have al: "aligned pd" using wf by (simp add: pd_wf_def)
    have nin: "f \<notin> pd_frames (mem s) pd" using disj 2(2) by auto
    then have pdf: "pd \<notin> {f}" using pd_frames_self by blast
    note fr = pd_wf_frame [OF 2(7) pdf]
    have wf1: "pd_wf (mem s1) pd" and fr1: "pd_frames (mem s1) pd = pd_frames (mem s) pd"
      using fr wf al by simp_all
    have np: "\<not> present (pde_of (mem s1) pd (pdi va))"
      using pd_entries_frame(1) [OF 2(7) al pdf unat_pdi] False by simp
    note w1 = set_pde_walk [OF wf1 unat_pdi np 2(4) nin [folded fr1] 2(6)]
    note w2 = set_pte_walk [OF w1(2,4), where e = "pa OR bits", unfolded w1(5)]
    have walk1: "walk (mem s1) pd va' = walk (mem s) pd va'" for va'
      using walk_frame [OF 2(7) al] nin by simp
    have se2: "same_except {pd, f} (mem s1) ?m2"
      by (rule same_except_mono [OF same_except_trans [OF w1(6) w2(5)]]) auto
    have inv': "pm_inv lo hi s' (F - {f})"
      unfolding s' using pm.write_ok [OF 2(3) se2] disj pd_frames_self by blast
    have se: "same_except (insert f (pd_frames (mem s) pd)) (mem s) ?m2"
      by (rule same_except_mono [OF same_except_trans [OF 2(7) se2]]) auto
    show ?thesis
      using 2(2) inv' w2 w1 se walk1 bits fr1 Diff_Diff_Int [of F "{f}"]
      by (intro that [of "F - {f}"]) (auto simp: s' present_or)
  qed
qed

lemma map_with_succeeds:
  assumes "pm_inv lo hi s F" "present (pde_of (mem s) pd (pdi va)) \<or> F \<noteq> {}"
  shows "\<exists>s'. map_with bits s pd va pa = Inr s'"
  using assms pm.alloc_succeeds [OF assms(1)] by (auto simp: map_with_def Let_def)

subsection \<open>Unmapping a page\<close>

text \<open>A page that is not mapped is left alone, whatever \<open>physical\<close> says.\<close>

lemma unmap_not_mapped:
  "walk (mem (phys s)) pd va = None \<Longrightarrow> unmap s pd va physical = Inr s"
  by (simp add: unmap_def walk_def Let_def split: if_splits)

lemma unmap_mapped:
  assumes "walk (mem (phys s)) pd va = Some pte"
  defines "s1 \<equiv> (phys s)\<lparr>mem := set32 (mem (phys s)) (pt_of (mem (phys s)) pd (pdi va)) (pti va) 0\<rparr>"
  shows "unmap s pd va False = Inr (invlpg (s\<lparr>phys := s1\<rparr>) va)"
    and "unmap s pd va True =
      rbind (dealloc_frame s1 (frame_mask pte)) (\<lambda>ph. Inr (invlpg (s\<lparr>phys := ph\<rparr>) va))"
  using assms by (auto simp: unmap_def walk_def pt_of_def Let_def rbind_def split: if_splits sum.splits)

lemma walk_SomeD:
  assumes "walk m pd va = Some pte"
  shows "pt_index m pd (pdi va)" "present pte"
  using assms unat_pdi by (auto simp: walk_def pt_index_def Let_def split: if_splits)

lemma unmap_spec:
  assumes inv: "pm_inv lo hi (phys s) F" and wf: "pd_wf (mem (phys s)) pd"
    and disj: "pd_frames (mem (phys s)) pd \<inter> F = {}"
    and mapped: "walk (mem (phys s)) pd va = Some pte"
    and frame: "physical \<Longrightarrow>
      frame_mask pte \<in> frame_pool lo hi \<and> frame_mask pte \<notin> F \<and> frame_mask pte \<notin> pd_frames (mem (phys s)) pd"
  obtains s' where "unmap s pd va physical = Inr s'"
    "pm_inv lo hi (phys s') (if physical then insert (frame_mask pte) F else F)"
    "pd_wf (mem (phys s')) pd" "pd_frames (mem (phys s')) pd = pd_frames (mem (phys s)) pd"
    "walk (mem (phys s')) pd va = None" "tlb s' (framedown va) = None"
    "\<And>va'. ppn va' \<noteq> ppn va \<Longrightarrow> walk (mem (phys s')) pd va' = walk (mem (phys s)) pd va'"
proof -
  let ?m = "mem (phys s)" and ?f = "frame_mask pte"
  let ?m1 = "set32 ?m (pt_of ?m pd (pdi va)) (pti va) 0"
  let ?ph = "(phys s)\<lparr>mem := ?m1\<rparr>"
  have idx: "pt_index ?m pd (pdi va)" using walk_SomeD mapped by blast
  note w = set_pte_walk [OF wf idx, where e = 0]
  have al: "aligned pd" using wf by (simp add: pd_wf_def)
  have inv1: "pm_inv lo hi ?ph F"
    using pm.write_ok [OF inv w(5)] pt_in_pd_frames [OF idx] disj by auto
  show ?thesis
  proof (cases physical)
    case False
    then show ?thesis
      using unmap_mapped(1) [OF mapped] inv1 w
      by (intro that [of "invlpg (s\<lparr>phys := ?ph\<rparr>) va"]) (simp_all add: invlpg_def)
  next
    case True
    then obtain ph where ph: "dealloc_frame ?ph ?f = Inr ph" "pm_inv lo hi ph (insert ?f F)"
      "same_except {?f} ?m1 (mem ph)"
      using pm.dealloc_ok [OF inv1, of ?f] frame by auto
    have nin: "{?f} \<inter> pd_frames ?m1 pd = {}" "pd \<notin> {?f}"
      using frame [OF True] w(4) pd_frames_self by auto
    have "pd_wf (mem ph) pd" "pd_frames (mem ph) pd = pd_frames ?m pd"
      using pd_wf_frame [OF ph(3) nin(2)] w(3,4) al by simp_all
    moreover have "walk (mem ph) pd va' = walk ?m1 pd va'" for va'
      using walk_frame [OF ph(3) al nin(1)] .
    ultimately show ?thesis
      using True unmap_mapped(2) [OF mapped] ph w(1,2)
      by (intro that [of "invlpg (s\<lparr>phys := ph\<rparr>) va"]) (simp_all add: invlpg_def)
  qed
qed

subsection \<open>Pages\<close>

lemma walk_page: "ppn x = ppn y \<Longrightarrow> walk m pd x = walk m pd y"
  using ppn_pdi [of x y] ppn_pti [of x y] by (simp add: walk_def Let_def)

lemma ppn_framedown: "ppn (framedown x) = ppn x"
proof -
  have "framedown x = push_bit 12 (drop_bit 12 x)"
    by (simp add: FRAME_SIZE_eq framedown_def push_bit_eq_mult drop_bit_eq_div)
  then show ?thesis
    unfolding ppn_def using bit_imp_le_length [of x "12 + _"]
    by (auto intro!: bit_word_eqI simp: bit_simps)
qed

lemma ppn_eq_framedown: "ppn x = ppn y \<longleftrightarrow> framedown x = framedown y"
proof
  have "framedown z = ppn z * 4096" for z
    by (simp add: FRAME_SIZE_eq framedown_def ppn_def drop_bit_eq_div)
  then show "framedown x = framedown y" if "ppn x = ppn y" using that by simp
  show "ppn x = ppn y" if "framedown x = framedown y" using that ppn_framedown by metis
qed

lemma framedown_aligned_id: "aligned a \<Longrightarrow> framedown a = a"
  by (simp add: aligned_frame_mask flip: frame_mask_eq_framedown)

end
