(* ===== verification/Address_Space.thy ===== *)
theory Address_Space
  imports Page_Tables
begin

text \<open>
  Whole address spaces, \<^verbatim>\<open>kernel/vmm.cc\<close>: the shared kernel directory built by
  \<^verbatim>\<open>VMM::global_init\<close>, the directory a process starts with (\<^verbatim>\<open>make_pd\<close>), and the two ways its
  private half is given back (\<^verbatim>\<open>delete_private\<close> on exec, \<^verbatim>\<open>delete_pd\<close> on destruction).
\<close>

subsection \<open>Operations (vmm.cc)\<close>

definition make_pd :: "config \<Rightarrow> u32 \<Rightarrow> physmem \<Rightarrow> (physmem \<times> u32) result" where
  "make_pd kConfig shared s =
     rbind (alloc_frame s) (\<lambda>(s, pd).
       let m4 = 4 * 1024 * 1024;
           shared_size = 4 * ((memSize kConfig + m4 - 1) div m4);
           s = s\<lparr>mem := memcpy (mem s) pd shared shared_size\<rparr> in
       rbind (map_page s pd (ioAPIC kConfig) (ioAPIC kConfig)) (\<lambda>s.
       rbind (map_page s pd (localAPIC kConfig) (localAPIC kConfig)) (\<lambda>s.
         Inr (s, pd))))"

text \<open>The private half of an address space: directory entries 512 to 1023.\<close>

definition private_pdis :: "u32 list" where
  "private_pdis = map of_nat [512..<1024]"

definition all_ptis :: "u32 list" where
  "all_ptis = map of_nat [0..<1024]"

definition entry_va :: "u32 \<Rightarrow> u32 \<Rightarrow> u32" where
  "entry_va i j = push_bit 22 i OR push_bit 12 j"

definition delete_private_pte :: "config \<Rightarrow> u32 \<Rightarrow> u32 \<Rightarrow> u32 \<Rightarrow> vmm \<times> bool \<Rightarrow> (vmm \<times> bool) result" where
  "delete_private_pte kConfig di pt ti = (\<lambda>(s, contains_special).
     let va = entry_va di ti in
     if is_special kConfig va then Inr (s, True)
     else
       let pte = get32 (mem (phys s)) pt ti in
       if \<not> present pte then Inr (s, contains_special)
       else
         let s = s\<lparr>phys := (phys s)\<lparr>mem := set32 (mem (phys s)) pt ti 0\<rparr>\<rparr>;
             frame = frame_mask pte in
         rbind (dealloc_frame (phys s) frame) (\<lambda>ph.
           Inr (invlpg (s\<lparr>phys := ph\<rparr>) va, contains_special)))"

definition delete_private_pde :: "config \<Rightarrow> u32 \<Rightarrow> u32 \<Rightarrow> vmm \<Rightarrow> vmm result" where
  "delete_private_pde kConfig pd di s =
     (let pde = get32 (mem (phys s)) pd di in
      if \<not> present pde then Inr s
      else
        let pt = frame_mask pde in
        rbind (rfold (delete_private_pte kConfig di pt) all_ptis (s, False))
          (\<lambda>(s, contains_special).
             if \<not> contains_special
             then
               let ph = (phys s)\<lparr>mem := set32 (mem (phys s)) pd di 0\<rparr> in
               rbind (dealloc_frame ph pt) (\<lambda>ph. Inr (s\<lparr>phys := ph\<rparr>))
             else Inr s))"

definition delete_private :: "config \<Rightarrow> u32 \<Rightarrow> u32 \<Rightarrow> vmm \<Rightarrow> vmm result" where
  "delete_private kConfig cr3 pd s =
     assert_k (pd = cr3) ''uint32_t(pd) == getCR3()''
       (rfold (delete_private_pde kConfig pd) private_pdis s)"

definition delete_pd_pte :: "config \<Rightarrow> u32 \<Rightarrow> u32 \<Rightarrow> u32 \<Rightarrow> physmem \<Rightarrow> physmem result" where
  "delete_pd_pte kConfig di pt ti s =
     (let va = entry_va di ti; pte = get32 (mem s) pt ti in
      if \<not> present pte then Inr s
      else
        let frame = frame_mask pte in
        if \<not> is_special kConfig va then dealloc_frame s frame else Inr s)"

definition delete_pd_pde :: "config \<Rightarrow> u32 \<Rightarrow> u32 \<Rightarrow> physmem \<Rightarrow> physmem result" where
  "delete_pd_pde kConfig pd di s =
     (let pde = get32 (mem s) pd di in
      if \<not> present pde then Inr s
      else
        let pt = frame_mask pde in
        rbind (rfold (delete_pd_pte kConfig di pt) all_ptis s) (\<lambda>s. dealloc_frame s pt))"

definition delete_pd :: "config \<Rightarrow> u32 \<Rightarrow> u32 \<Rightarrow> physmem \<Rightarrow> physmem result" where
  "delete_pd kConfig cr3 pd s =
     assert_k (pd \<noteq> cr3) ''uint32_t(pd) != getCR3()''
       (rbind (rfold (delete_pd_pde kConfig pd) private_pdis s) (\<lambda>s. dealloc_frame s pd))"

text \<open>
  \<^verbatim>\<open>VMM::global_init\<close> maps every page below \<^verbatim>\<open>memSize\<close> to itself, page 0 excepted. The counter is
  a 32-bit address, so the loop takes fuel; \<open>None\<close> means that the fuel ran out.
\<close>

fun global_init_loop :: "nat \<Rightarrow> config \<Rightarrow> u32 \<Rightarrow> u32 \<Rightarrow> physmem \<Rightarrow> physmem result option" where
  "global_init_loop 0 kConfig shared va s = None"
| "global_init_loop (Suc fuel) kConfig shared va s =
     (if va < memSize kConfig
      then case map_page s shared va va of
          Inl e \<Rightarrow> Some (Inl e)
        | Inr s' \<Rightarrow> global_init_loop fuel kConfig shared (va + FRAME_SIZE) s'
      else Some (Inr s))"

definition global_init :: "nat \<Rightarrow> config \<Rightarrow> physmem \<Rightarrow> (physmem \<times> u32) result option" where
  "global_init fuel kConfig s =
     (case alloc_frame s of
        Inl e \<Rightarrow> Some (Inl e)
      | Inr (s, shared) \<Rightarrow>
          map_option (\<lambda>r. rbind r (\<lambda>s. Inr (s, shared)))
            (global_init_loop fuel kConfig shared FRAME_SIZE s))"

subsection \<open>The indices of the loops\<close>

lemma set_all_ptis: "j \<in> set all_ptis \<longleftrightarrow> unat j < 1024"
  unfolding all_ptis_def using set_word_upt [of 1024 j 0] by simp

lemma set_private_pdis: "i \<in> set private_pdis \<longleftrightarrow> 512 \<le> unat i \<and> unat i < 1024"
  unfolding private_pdis_def by (rule set_word_upt) simp

lemma distinct_indices: "distinct all_ptis" "distinct private_pdis"
  unfolding all_ptis_def private_pdis_def by (rule distinct_word_upt, simp)+

subsection \<open>What a page directory owns\<close>

text \<open>
  The present entries of the private half that are not device pages, and the frames behind them.
\<close>

definition user_slot :: "config \<Rightarrow> memory \<Rightarrow> u32 \<Rightarrow> u32 \<Rightarrow> u32 \<Rightarrow> bool" where
  "user_slot cfg m pd i j \<longleftrightarrow>
     i \<in> set private_pdis \<and> j \<in> set all_ptis \<and> pt_index m pd i \<and>
     present (get32 m (pt_of m pd i) j) \<and> \<not> is_special cfg (entry_va i j)"

definition slot_frame :: "memory \<Rightarrow> u32 \<Rightarrow> u32 \<Rightarrow> u32 \<Rightarrow> u32" where
  "slot_frame m pd i j = frame_mask (get32 m (pt_of m pd i) j)"

definition user_frames :: "config \<Rightarrow> memory \<Rightarrow> u32 \<Rightarrow> u32 set" where
  "user_frames cfg m pd = {slot_frame m pd i j |i j. user_slot cfg m pd i j}"

definition private_tables :: "memory \<Rightarrow> u32 \<Rightarrow> u32 set" where
  "private_tables m pd = {pt_of m pd i |i. i \<in> set private_pdis \<and> pt_index m pd i}"

text \<open>No frame is mapped at two user pages, and none of them is a page table.\<close>

definition private_owned :: "config \<Rightarrow> memory \<Rightarrow> u32 \<Rightarrow> bool" where
  "private_owned cfg m pd \<longleftrightarrow>
     pd_wf m pd \<and> user_frames cfg m pd \<inter> pd_frames m pd = {} \<and>
     (\<forall>i j i' j'. user_slot cfg m pd i j \<longrightarrow> user_slot cfg m pd i' j' \<longrightarrow>
        slot_frame m pd i j = slot_frame m pd i' j' \<longrightarrow> i = i' \<and> j = j')"

definition slots_upto :: "config \<Rightarrow> memory \<Rightarrow> u32 \<Rightarrow> u32 \<Rightarrow> u32 list \<Rightarrow> u32 set" where
  "slots_upto cfg m pd i js = {slot_frame m pd i j |j. j \<in> set js \<and> user_slot cfg m pd i j}"

definition tables_upto :: "config \<Rightarrow> memory \<Rightarrow> u32 \<Rightarrow> u32 list \<Rightarrow> u32 set" where
  "tables_upto cfg m pd is =
     {pt_of m pd i |i. i \<in> set is \<and> pt_index m pd i} \<union> (\<Union>i\<in>set is. slots_upto cfg m pd i all_ptis)"

lemma tables_upto_snoc:
  "tables_upto cfg m pd (is @ [i]) =
     tables_upto cfg m pd is \<union> (if pt_index m pd i then {pt_of m pd i} else {}) \<union> slots_upto cfg m pd i all_ptis"
  by (auto simp: tables_upto_def)

lemma tables_upto_all:
  "tables_upto cfg m pd private_pdis = private_tables m pd \<union> user_frames cfg m pd"
  by (auto simp: tables_upto_def private_tables_def user_frames_def slots_upto_def user_slot_def)

subsection \<open>Destroying an address space gives back exactly what it owns\<close>

text \<open>One directory entry: its user frames are freed, then its page table.\<close>

lemma slots_upto_snoc:
  "slots_upto cfg m pd i (js @ [j]) =
     slots_upto cfg m pd i js \<union> (if user_slot cfg m pd i j then {slot_frame m pd i j} else {})"
  by (auto simp: slots_upto_def)

lemma slots_upto_user: "slots_upto cfg m pd i js \<subseteq> user_frames cfg m pd"
  by (auto simp: slots_upto_def user_frames_def)

lemma delete_pd_ptes:
  assumes own: "private_owned cfg m pd" and i: "i \<in> set private_pdis" "pt_index m pd i"
    and pool: "slots_upto cfg m pd i all_ptis \<subseteq> frame_pool lo hi - F"
    and inv: "pm_inv lo hi s F" and same: "same_except G m (mem s)" and G: "pt_of m pd i \<notin> G"
  shows "\<exists>s'. rfold (delete_pd_pte cfg i (pt_of m pd i)) all_ptis s = Inr s' \<and>
    pm_inv lo hi s' (F \<union> slots_upto cfg m pd i all_ptis) \<and>
    same_except (G \<union> slots_upto cfg m pd i all_ptis) m (mem s')"
proof (rule rfold_total [where P = "\<lambda>js s'. pm_inv lo hi s' (F \<union> slots_upto cfg m pd i js) \<and>
    same_except (G \<union> slots_upto cfg m pd i js) m (mem s')"])
  show "pm_inv lo hi s (F \<union> slots_upto cfg m pd i []) \<and>
    same_except (G \<union> slots_upto cfg m pd i []) m (mem s)"
    using inv same by (simp add: slots_upto_def)
next
  fix js j rest s
  assume split: "all_ptis = js @ j # rest"
    and P: "pm_inv lo hi s (F \<union> slots_upto cfg m pd i js) \<and>
      same_except (G \<union> slots_upto cfg m pd i js) m (mem s)"
  have j: "j \<in> set all_ptis" "j \<notin> set js" "set js \<subseteq> set all_ptis"
    using split_distinct [OF split distinct_indices(1)] by blast+
  have "pt_of m pd i \<in> pd_frames m pd" using i(2) by (rule pt_in_pd_frames)
  then have "pt_of m pd i \<notin> G \<union> slots_upto cfg m pd i js"
    using own slots_upto_user G by (fastforce simp: private_owned_def)
  then have pte: "get32 (mem s) (pt_of m pd i) j = get32 m (pt_of m pd i) j"
    using get32_same_except [OF conjunct2 [OF P] pt_aligned] j(1) by (simp add: set_all_ptis)
  show "\<exists>s'. delete_pd_pte cfg i (pt_of m pd i) j s = Inr s' \<and>
    pm_inv lo hi s' (F \<union> slots_upto cfg m pd i (js @ [j])) \<and>
    same_except (G \<union> slots_upto cfg m pd i (js @ [j])) m (mem s')"
  proof (cases "user_slot cfg m pd i j")
    case True
    let ?f = "slot_frame m pd i j"
    have new: "?f \<notin> slots_upto cfg m pd i js"
      using own True j(2) unfolding slots_upto_def private_owned_def by blast
    have "?f \<in> slots_upto cfg m pd i all_ptis" using True j(1) by (auto simp: slots_upto_def)
    then have "?f \<in> frame_pool lo hi - (F \<union> slots_upto cfg m pd i js)" using pool new by blast
    then obtain s' where s': "dealloc_frame s ?f = Inr s'"
      "pm_inv lo hi s' (insert ?f (F \<union> slots_upto cfg m pd i js))" "same_except {?f} (mem s) (mem s')"
      using pm.dealloc_ok P by blast
    have "same_except (G \<union> slots_upto cfg m pd i js \<union> {?f}) m (mem s')"
      using same_except_trans P s'(3) by blast
    moreover have "delete_pd_pte cfg i (pt_of m pd i) j s = Inr s'"
      using True s'(1) pte by (simp add: delete_pd_pte_def user_slot_def slot_frame_def Let_def)
    ultimately show ?thesis using s'(2) True by (simp add: slots_upto_snoc Un_assoc)
  next
    case False
    then have "delete_pd_pte cfg i (pt_of m pd i) j s = Inr s"
      using pte i j(1) by (auto simp: delete_pd_pte_def user_slot_def Let_def)
    then show ?thesis using P False by (simp add: slots_upto_snoc)
  qed
qed

lemma tables_upto_owned:
  assumes "private_owned cfg m pd" "i \<in> set private_pdis" "i \<notin> set is" "set is \<subseteq> set private_pdis"
  shows "pd \<notin> tables_upto cfg m pd is"
    and "pt_index m pd i \<Longrightarrow> pt_of m pd i \<notin> tables_upto cfg m pd is"
    and "slots_upto cfg m pd i all_ptis \<inter> tables_upto cfg m pd is = {}"
proof -
  have wf: "pd_wf m pd" and disj: "user_frames cfg m pd \<inter> pd_frames m pd = {}"
    using assms(1) by (auto simp: private_owned_def)
  have inj: "slot_frame m pd i j = slot_frame m pd i' j' \<Longrightarrow> i = i'"
    if "user_slot cfg m pd i j" "user_slot cfg m pd i' j'" for i j i' j'
    using assms(1) that unfolding private_owned_def by blast
  have us: "slots_upto cfg m pd k js \<inter> pd_frames m pd = {}" for k js
    using disj slots_upto_user by fast
  have ptd: "pt_of m pd k \<noteq> pd" "pt_of m pd k \<in> pd_frames m pd" if "pt_index m pd k" for k
    using wf that pt_in_pd_frames by (auto simp: pd_wf_def)
  show "pd \<notin> tables_upto cfg m pd is"
    using us ptd(1) pd_frames_self by (fastforce simp: tables_upto_def)
  show "pt_of m pd i \<notin> tables_upto cfg m pd is" if i: "pt_index m pd i"
  proof -
    have "pt_of m pd i \<noteq> pt_of m pd k" if "k \<in> set is" "pt_index m pd k" for k
      using wf i that assms(3) unfolding pd_wf_def by blast
    then show ?thesis using us ptd(2) [OF i] by (fastforce simp: tables_upto_def)
  qed
  have "slot_frame m pd i j \<noteq> slot_frame m pd k j'"
    if "k \<in> set is" "user_slot cfg m pd i j" "user_slot cfg m pd k j'" for j k j'
    using inj [OF that(2,3)] that(1) assms(3) by blast
  then show "slots_upto cfg m pd i all_ptis \<inter> tables_upto cfg m pd is = {}"
    using us ptd(2) by (fastforce simp: tables_upto_def slots_upto_def)
qed

lemma delete_pd_pdes:
  assumes own: "private_owned cfg m pd"
    and pool: "private_tables m pd \<union> user_frames cfg m pd \<subseteq> frame_pool lo hi - F"
    and inv: "pm_inv lo hi s F" and m: "m = mem s"
  shows "\<exists>s'. rfold (delete_pd_pde cfg pd) private_pdis s = Inr s' \<and>
    pm_inv lo hi s' (F \<union> tables_upto cfg m pd private_pdis) \<and>
    same_except (tables_upto cfg m pd private_pdis) m (mem s')"
proof (rule rfold_total [where P = "\<lambda>is s'. pm_inv lo hi s' (F \<union> tables_upto cfg m pd is) \<and>
    same_except (tables_upto cfg m pd is) m (mem s')"])
  show "pm_inv lo hi s (F \<union> tables_upto cfg m pd []) \<and> same_except (tables_upto cfg m pd []) m (mem s)"
    using inv m by (simp add: tables_upto_def)
next
  fix "is" i rest s
  let ?T = "tables_upto cfg m pd is" and ?S = "slots_upto cfg m pd i all_ptis"
  assume split: "private_pdis = is @ i # rest"
    and P: "pm_inv lo hi s (F \<union> ?T) \<and> same_except ?T m (mem s)"
  have i: "i \<in> set private_pdis" "i \<notin> set is" "set is \<subseteq> set private_pdis"
    using split_distinct [OF split distinct_indices(2)] by blast+
  note dis = tables_upto_owned [OF own i]
  have "aligned pd" using own by (simp add: private_owned_def pd_wf_def)
  then have pde: "get32 (mem s) pd i = get32 m pd i"
    using get32_same_except [OF conjunct2 [OF P] _ dis(1)] i(1) by (simp add: set_private_pdis)
  show "\<exists>s'. delete_pd_pde cfg pd i s = Inr s' \<and>
    pm_inv lo hi s' (F \<union> tables_upto cfg m pd (is @ [i])) \<and>
    same_except (tables_upto cfg m pd (is @ [i])) m (mem s')"
  proof (cases "pt_index m pd i")
    case True
    have "?S \<subseteq> frame_pool lo hi - (F \<union> ?T)"
      using pool slots_upto_user dis(3) by fast
    then obtain s1 where s1: "rfold (delete_pd_pte cfg i (pt_of m pd i)) all_ptis s = Inr s1"
      "pm_inv lo hi s1 (F \<union> ?T \<union> ?S)" "same_except (?T \<union> ?S) m (mem s1)"
      using delete_pd_ptes [OF own i(1) True _ conjunct1 [OF P] conjunct2 [OF P] dis(2) [OF True]]
      by blast
    have "pt_of m pd i \<in> private_tables m pd" "pt_of m pd i \<in> pd_frames m pd"
      using True i(1) pt_in_pd_frames by (auto simp: private_tables_def)
    then have "pt_of m pd i \<in> frame_pool lo hi - (F \<union> ?T \<union> ?S)"
      using pool dis(2) [OF True] slots_upto_user own by (fastforce simp: private_owned_def)
    then obtain s2 where s2: "dealloc_frame s1 (pt_of m pd i) = Inr s2"
      "pm_inv lo hi s2 (insert (pt_of m pd i) (F \<union> ?T \<union> ?S))"
      "same_except {pt_of m pd i} (mem s1) (mem s2)"
      using pm.dealloc_ok [OF s1(2)] by blast
    have "same_except (?T \<union> ?S \<union> {pt_of m pd i}) m (mem s2)"
      by (rule same_except_trans [OF s1(3) s2(3)])
    moreover have "delete_pd_pde cfg pd i s = Inr s2"
      using True s1(1) s2(1) pde by (simp add: delete_pd_pde_def pt_index_def pt_of_def Let_def)
    moreover have "F \<union> tables_upto cfg m pd (is @ [i]) = insert (pt_of m pd i) (F \<union> ?T \<union> ?S)"
      "tables_upto cfg m pd (is @ [i]) = ?T \<union> ?S \<union> {pt_of m pd i}"
      using True by (auto simp: tables_upto_snoc)
    ultimately show ?thesis using s2(2) by simp
  next
    case False
    then have "delete_pd_pde cfg pd i s = Inr s" "?S = {}"
      using pde i(1) by (auto simp: delete_pd_pde_def pt_index_def set_private_pdis slots_upto_def user_slot_def Let_def)
    then show ?thesis using P False by (simp add: tables_upto_snoc)
  qed
qed

text \<open>
  \<^bold>\<open>C11.\<close> Destroying an address space (\<^verbatim>\<open>delete_pd\<close> in vmm.cc). For a directory that is not the
  current one and that owns its private frames (no frame is mapped at two user pages, none of them
  is a page table), \<^verbatim>\<open>delete_pd\<close> succeeds and the free frames grow by exactly the directory, its
  private page tables and the frames of its user pages; device pages and the shared part stay.
\<close>

theorem delete_pd_spec:
  assumes own: "private_owned cfg (mem s) pd" and cr3: "pd \<noteq> cr3" and inv: "pm_inv lo hi s F"
    and pool: "insert pd (private_tables (mem s) pd \<union> user_frames cfg (mem s) pd) \<subseteq> frame_pool lo hi - F"
  shows "\<exists>s'. delete_pd cfg cr3 pd s = Inr s' \<and>
    pm_inv lo hi s' (F \<union> {pd} \<union> private_tables (mem s) pd \<union> user_frames cfg (mem s) pd)"
proof -
  let ?R = "private_tables (mem s) pd \<union> user_frames cfg (mem s) pd"
  obtain s1 where s1: "rfold (delete_pd_pde cfg pd) private_pdis s = Inr s1" "pm_inv lo hi s1 (F \<union> ?R)"
    using delete_pd_pdes [OF own _ inv refl] pool unfolding tables_upto_all by blast
  have "pd \<notin> ?R"
    using own pd_frames_self by (fastforce simp: private_owned_def private_tables_def pd_wf_def)
  then obtain s2 where "dealloc_frame s1 pd = Inr s2" "pm_inv lo hi s2 (insert pd (F \<union> ?R))"
    using pm.dealloc_ok [OF s1(2), of pd] pool by blast
  then show ?thesis using s1(1) cr3 by (simp add: delete_pd_def Un_assoc)
qed

subsection \<open>The shared kernel directory\<close>

lemma next_page:
  assumes "aligned va" "va < ms" "ms \<le> 0xFFFFF000"
  shows "aligned (va + FRAME_SIZE)" "unat (va + FRAME_SIZE) = unat va + 4096"
    "aligned x \<Longrightarrow> va \<le> x \<longleftrightarrow> x = va \<or> va + FRAME_SIZE \<le> x"
proof -
  have a: "aligned (0xFFFFF000 :: u32)" by (simp add: offset_def)
  have lt: "va < 0xFFFFF000" using assms(2,3) by (rule less_le_trans)
  show "aligned (va + FRAME_SIZE)" using avail_step(1) [OF assms(1) a lt] .
  have "unat va < 4294963200" using lt by (simp add: word_less_nat_alt)
  then show u: "unat (va + FRAME_SIZE) = unat va + 4096"
    by (simp add: FRAME_SIZE_eq unat_add_no_wrap)
  show "va \<le> x \<longleftrightarrow> x = va \<or> va + FRAME_SIZE \<le> x" if "aligned x"
  proof -
    obtain j k where "unat va = 4096 * j" "unat x = 4096 * k"
      using assms(1) \<open>aligned x\<close> by (metis aligned_obtain)
    then show ?thesis using u by (auto simp: word_le_nat_alt word_unat_eq_iff)
  qed
qed

definition pd_inv :: "u32 \<Rightarrow> u32 \<Rightarrow> physmem \<Rightarrow> u32 \<Rightarrow> u32 set \<Rightarrow> bool" where
  "pd_inv lo hi s pd F \<longleftrightarrow> pm_inv lo hi s F \<and> pd_wf (mem s) pd \<and> pd_frames (mem s) pd \<inter> F = {}"

lemma map_with_pd_inv:
  assumes "pd_inv lo hi s pd F" "map_with bits s pd va pa = Inr s'" "present bits"
  obtains F' where "F' \<subseteq> F" "pd_inv lo hi s' pd F'"
    "\<And>x. walk (mem s') pd x = (if ppn x = ppn va then Some (pa OR bits) else walk (mem s) pd x)"
    "card F \<le> card F' + 1"
proof -
  from assms(1) have pre: "pm_inv lo hi s F" "pd_wf (mem s) pd" "pd_frames (mem s) pd \<inter> F = {}"
    by (simp_all add: pd_inv_def)
  obtain F' where F': "F' \<subseteq> F" "pm_inv lo hi s' F'"
    "pd_wf (mem s') pd" "pd_frames (mem s') pd = pd_frames (mem s) pd \<union> (F - F')"
    "same_except (pd_frames (mem s') pd) (mem s) (mem s')"
    "walk (mem s') pd va = Some (pa OR bits)"
    "\<And>va'. ppn va' \<noteq> ppn va \<Longrightarrow> walk (mem s') pd va' = walk (mem s) pd va'" "card (F - F') \<le> 1"
    by (rule map_with_spec [OF pre assms(2,3)]) blast
  have cd: "card F \<le> card F' + 1" using F'(1,8) card_Diff_subset [of F' F] by simp
  have "pd_inv lo hi s' pd F'"
    using F'(1-4) \<open>pd_frames (mem s) pd \<inter> F = {}\<close> by (auto simp: pd_inv_def)
  then show ?thesis
    using that [OF F'(1)] F'(6,7) cd walk_page by (metis (no_types, lifting))
qed

lemma global_init_loop_returns:
  assumes "aligned va" "memSize cfg \<le> 0xFFFFF000" "unat (memSize cfg) \<le> unat va + 4096 * fuel"
  shows "\<exists>r. global_init_loop (Suc fuel) cfg shared va s = Some r"
  using assms
proof (induction fuel arbitrary: va s)
  case 0
  then show ?case by (simp add: word_less_nat_alt)
next
  case (Suc fuel)
  show ?case
  proof (cases "va < memSize cfg")
    case True
    note n = next_page [OF Suc.prems(1) True Suc.prems(2)]
    have "\<exists>r. global_init_loop (Suc fuel) cfg shared (va + FRAME_SIZE) s = Some r" for s
      using n(1,2) Suc.prems by (intro Suc.IH) simp_all
    then show ?thesis using True
      by (subst global_init_loop.simps) (simp split: sum.split del: global_init_loop.simps)
  next
    case False
    then show ?thesis by simp
  qed
qed

lemma global_init_loop_maps:
  assumes "pd_inv lo hi s shared F" "aligned va" "memSize cfg \<le> 0xFFFFF000"
    "global_init_loop fuel cfg shared va s = Some (Inr s')"
  shows "\<exists>F' \<subseteq> F. pd_inv lo hi s' shared F' \<and>
    (\<forall>x. walk (mem s') shared x =
      (if va \<le> framedown x \<and> framedown x < memSize cfg then Some (framedown x OR 3) else walk (mem s) shared x))"
  using assms
proof (induction fuel arbitrary: va s F)
  case 0
  then show ?case by simp
next
  case (Suc fuel)
  show ?case
  proof (cases "va < memSize cfg")
    case True
    then obtain s1 where s1: "map_page s shared va va = Inr s1"
      "global_init_loop fuel cfg shared (va + FRAME_SIZE) s1 = Some (Inr s')"
      using Suc.prems(4) by (auto split: sum.splits)
    obtain F1 where F1: "F1 \<subseteq> F" "pd_inv lo hi s1 shared F1"
      "\<And>x. walk (mem s1) shared x = (if ppn x = ppn va then Some (va OR 3) else walk (mem s) shared x)"
      by (rule map_with_pd_inv [OF Suc.prems(1) s1(1) [unfolded map_page_def]]) auto
    note n = next_page [OF Suc.prems(2) True Suc.prems(3)]
    obtain F' where F': "F' \<subseteq> F1" "pd_inv lo hi s' shared F'"
      "\<And>x. walk (mem s') shared x =
        (if va + FRAME_SIZE \<le> framedown x \<and> framedown x < memSize cfg then Some (framedown x OR 3)
         else walk (mem s1) shared x)"
      using Suc.IH [OF F1(2) n(1) Suc.prems(3) s1(2)] by blast
    have "ppn x = ppn va \<longleftrightarrow> framedown x = va" for x
      using Suc.prems(2) by (simp add: ppn_eq_framedown framedown_aligned_id)
    then have "walk (mem s') shared x =
      (if va \<le> framedown x \<and> framedown x < memSize cfg then Some (framedown x OR 3) else walk (mem s) shared x)" for x
      using F'(3) [of x] F1(3) [of x] n(2) n(3) [of "framedown x"] True by (auto simp: word_le_nat_alt)
    then show ?thesis using F' F1(1) by blast
  next
    case False
    then have "s' = s" using Suc.prems(4) by simp
    moreover have "\<not> (va \<le> y \<and> y < memSize cfg)" for y using False by (meson le_less_trans)
    ultimately show ?thesis using Suc.prems(1) by auto
  qed
qed

lemma map_with_error:
  assumes "pm_inv lo hi s F" "map_with bits s pd va pa = Inl e"
  shows "e = Panic ''no more frames'' \<and> F = {}"
proof (cases rule: pm.alloc_cases [OF assms(1)])
  case 1
  then show ?thesis using assms(2) by (auto simp: map_with_def Let_def split: if_splits)
next
  case (2 s' p)
  then show ?thesis using assms(2) by (auto simp: map_with_def Let_def split: if_splits)
qed

lemma global_init_loop_error:
  assumes "pd_inv lo hi s shared F" "aligned va" "memSize cfg \<le> 0xFFFFF000"
    "global_init_loop fuel cfg shared va s = Some (Inl e)"
  shows "e = Panic ''no more frames''"
  using assms
proof (induction fuel arbitrary: va s F)
  case 0
  then show ?case by simp
next
  case (Suc fuel)
  from Suc.prems(4) have lt: "va < memSize cfg" by (simp split: if_splits)
  show ?case
  proof (cases "map_page s shared va va")
    case (Inl e')
    then show ?thesis
      using Suc.prems(1,4) lt map_with_error by (fastforce simp: map_page_def pd_inv_def)
  next
    case (Inr s1)
    then have rest: "global_init_loop fuel cfg shared (va + FRAME_SIZE) s1 = Some (Inl e)"
      using Suc.prems(4) lt by simp
    have "map_with 3 s shared va va = Inr s1" using Inr by (simp add: map_page_def)
    then obtain F1 where "pd_inv lo hi s1 shared F1"
      by (rule map_with_pd_inv [OF Suc.prems(1)]) simp_all
    then show ?thesis
      using Suc.IH rest next_page(1) [OF Suc.prems(2) lt Suc.prems(3)] Suc.prems(3) by blast
  qed
qed

lemma empty_directory:
  assumes "zero_frame m p" "aligned p"
  shows "pd_wf m p" "pd_frames m p = {p}" "walk m p va = None"
proof -
  have "\<not> present (get32 m p i)" if "unat i < 1024" for i
    using zero_frame_get32 [OF assms that] by simp
  then show "pd_wf m p" "pd_frames m p = {p}" "walk m p va = None"
    using assms(2) unat_pdi by (auto simp: pd_wf_def pd_frames_def pt_index_def walk_def Let_def)
qed

lemma alloc_directory:
  assumes "pm_inv lo hi s F" "alloc_frame s = Inr (s', p)"
  shows "pd_inv lo hi s' p (F - {p})" "walk (mem s') p va = None" "p \<in> F" "aligned p"
    "same_except {p} (mem s) (mem s')" "zero_frame (mem s') p"
proof -
  have a: "p \<in> F" "pm_inv lo hi s' (F - {p})" "zero_frame (mem s') p" "same_except {p} (mem s) (mem s')"
    using pm.alloc_free [OF assms] pm.alloc_mem [OF assms] by auto
  moreover have "aligned p" using pm.free_in_pool [OF assms(1)] a(1) frame_pool_aligned by blast
  ultimately show "pd_inv lo hi s' p (F - {p})" "walk (mem s') p va = None" "p \<in> F" "aligned p"
    "same_except {p} (mem s) (mem s')" "zero_frame (mem s') p"
    using empty_directory [OF a(3)] by (simp_all add: pd_inv_def)
qed

text \<open>
  The shared kernel directory (\<^verbatim>\<open>VMM::global_init\<close> in vmm.cc). With fuel for all pages of a
  32-bit address space the loop ends; unless the frames run out, the directory it builds maps
  exactly the pages from the first one up to \<^verbatim>\<open>memSize\<close>, each to itself, and nothing else.
\<close>

theorem global_init_spec:
  assumes "pm_inv lo hi s F" "memSize cfg \<le> 0xFFFFF000" "1048576 \<le> fuel"
  shows "global_init fuel cfg s = Some (Inl (Panic ''no more frames'')) \<or>
    (\<exists>s' shared F'. global_init fuel cfg s = Some (Inr (s', shared)) \<and> pd_inv lo hi s' shared F' \<and>
      (\<forall>x. walk (mem s') shared x =
        (if FRAME_SIZE \<le> framedown x \<and> framedown x < memSize cfg then Some (framedown x OR 3) else None)))"
proof (cases "alloc_frame s")
  case (Inl e)
  then show ?thesis using pm.alloc_cases [OF assms(1)] by (force simp: global_init_def)
next
  case (Inr sp)
  obtain s1 shared where sp: "sp = (s1, shared)" by (cases sp)
  note a = alloc_directory [OF assms(1) Inr [unfolded sp]]
  have al: "aligned FRAME_SIZE" by (simp add: FRAME_SIZE_eq offset_def)
  obtain n where n: "fuel = Suc n" "1048575 \<le> n" using assms(3) by (cases fuel) auto
  have "unat (memSize cfg) \<le> unat FRAME_SIZE + 4096 * n"
    using n(2) unat_lt_2p32 [of "memSize cfg"] by (simp add: FRAME_SIZE_eq)
  then obtain r where r: "global_init_loop fuel cfg shared FRAME_SIZE s1 = Some r"
    using global_init_loop_returns [OF al assms(2)] n(1) by blast
  show ?thesis
  proof (cases r)
    case (Inl e)
    then show ?thesis
      using r Inr sp global_init_loop_error [OF a(1) al assms(2)] by (simp add: global_init_def)
  next
    case (Inr s')
    obtain F' where F': "pd_inv lo hi s' shared F'" "\<And>x. walk (mem s') shared x =
        (if FRAME_SIZE \<le> framedown x \<and> framedown x < memSize cfg then Some (framedown x OR 3) else None)"
      using global_init_loop_maps [OF a(1) al assms(2) r [unfolded Inr]] a(2) by auto
    have "global_init fuel cfg s = Some (Inr (s', shared))"
      using r Inr \<open>alloc_frame s = Inr sp\<close> sp by (simp add: global_init_def)
    then show ?thesis using F' by blast
  qed
qed

subsection \<open>The directory of a new process\<close>

text \<open>The number of directory entries \<^verbatim>\<open>make_pd\<close> copies from the shared directory.\<close>

definition shared_entries :: "config \<Rightarrow> u32" where
  "shared_entries cfg = (memSize cfg + 4194304 - 1) div 4194304"

lemma copied_directory:
  assumes wf: "pd_wf m shared" and p: "aligned p" "p \<notin> pd_frames m shared" "zero_frame m p"
    and n: "unat n \<le> 1024"
  defines "m' \<equiv> memcpy m p shared (4 * n)"
  shows "pd_wf m' p" "pd_frames m' p \<subseteq> insert p (pd_frames m shared - {shared})"
    and "walk m' p va = (if pdi va < n then walk m shared va else None)"
    and "same_except {p} m m'"
proof -
  have sh: "aligned shared" "p \<noteq> shared" using wf p(2) by (auto simp: pd_wf_def)
  show se: "same_except {p} m m'" unfolding m'_def by (rule memcpy_frame_same [OF p(1) sh n])
  have e: "get32 m' p i = (if i < n then get32 m shared i else 0)" if "unat i < 1024" for i
    unfolding m'_def memcpy_frame_get32 [OF p(1) sh n that]
    using zero_frame_get32 [OF p(3,1) that] by (simp add: word_less_nat_alt)
  have idx: "pt_index m' p i \<longleftrightarrow> i < n \<and> pt_index m shared i" for i
    using e [of i] by (auto simp: pt_index_def split: if_splits)
  have pt: "pt_of m' p i = pt_of m shared i" if "pt_index m' p i" for i
    using that e [of i] idx [of i] by (simp add: pt_of_def pt_index_def)
  have ne: "pt_of m shared i \<noteq> p" if "pt_index m shared i" for i
    using pt_in_pd_frames [OF that] p(2) by auto
  have inj: "i = j" if "pt_index m' p i" "pt_index m' p j" "pt_of m' p i = pt_of m' p j" for i j
    using that wf idx [of i] idx [of j] pt [of i] pt [of j] unfolding pd_wf_def by metis
  have "pt_of m' p i \<noteq> p" if "pt_index m' p i" for i
    using pt [OF that] ne that idx by simp
  then show "pd_wf m' p" using p(1) inj unfolding pd_wf_def by blast
  have "pt_of m' p i \<in> pd_frames m shared - {shared}" if "pt_index m' p i" for i
    using pt [OF that] that idx wf pt_in_pd_frames by (auto simp: pd_wf_def)
  then show "pd_frames m' p \<subseteq> insert p (pd_frames m shared - {shared})"
    by (auto simp: pd_frames_def [of m' p])
  have other: "get32 m' (pt_of m shared i) j = get32 m (pt_of m shared i) j"
    if "pt_index m shared i" "unat j < 1024" for i j
    using get32_same_except [OF se pt_aligned _ that(2)] ne [OF that(1)] by simp
  show "walk m' p va = (if pdi va < n then walk m shared va else None)"
    using e [OF unat_pdi] other [OF _ unat_pti] unat_pdi
    by (auto simp: walk_def pt_of_def pt_index_def Let_def)
qed

lemma new_directory:
  assumes sh: "pd_inv lo hi s shared F" and n: "unat n \<le> 1024" and ne: "F \<noteq> {}"
  obtains s1 pd m where "alloc_frame s = Inr (s1, pd)" "m = memcpy (mem s1) pd shared (4 * n)" "pd \<in> F"
    "pd_inv lo hi (s1\<lparr>mem := m\<rparr>) pd (F - {pd})" "same_except {pd} (mem s) m"
    "\<And>x. walk m pd x = (if pdi x < n then walk (mem s) shared x else None)"
    "\<And>i. \<not> i < n \<Longrightarrow> \<not> pt_index m pd i"
proof -
  have inv: "pm_inv lo hi s F" and wf: "pd_wf (mem s) shared" and dis: "pd_frames (mem s) shared \<inter> F = {}"
    using sh by (simp_all add: pd_inv_def)
  obtain s1 pd where s1: "alloc_frame s = Inr (s1, pd)" using pm.alloc_succeeds [OF inv ne] by blast
  let ?m = "memcpy (mem s1) pd shared (4 * n)"
  note a = alloc_directory [OF inv s1]
  have nin: "pd \<notin> pd_frames (mem s) shared" and al: "aligned shared" using a(3) dis wf by (auto simp: pd_wf_def)
  then have ns: "shared \<notin> {pd}" using pd_frames_self by blast
  note fr = pd_wf_frame [OF a(5) ns]
  note c = copied_directory [OF fr(1) [OF wf] a(4) _ a(6) n, unfolded fr(2) [OF al], OF nin]
  have w: "walk (mem s1) shared x = walk (mem s) shared x" for x using walk_frame [OF a(5) al] nin by simp
  have "pm_inv lo hi (s1\<lparr>mem := ?m\<rparr>) (F - {pd})" using pm.write_ok [OF _ c(4)] a(1) by (simp add: pd_inv_def)
  then have "pd_inv lo hi (s1\<lparr>mem := ?m\<rparr>) pd (F - {pd})" using c(1,2) dis by (auto simp: pd_inv_def)
  moreover have "same_except {pd} (mem s) ?m" using same_except_trans [OF a(5) c(4)] by simp
  moreover have "\<not> pt_index ?m pd i" if "\<not> i < n" for i
    using that ns memcpy_frame_get32 [OF a(4) al _ n, of i "mem s1"] zero_frame_get32 [OF a(6,4), of i]
    by (auto simp: pt_index_def word_less_nat_alt)
  ultimately show thesis using that [OF s1 refl a(3)] c(3) w by simp
qed

text \<open>
  \<^bold>\<open>C13.\<close> The directory of a new process (\<^verbatim>\<open>make_pd\<close> in vmm.cc). With three free frames it succeeds.
  The directory is a frame that was free; it translates the two APIC pages to themselves, shares the kernel's
  translation for the directory entries that cover \<^verbatim>\<open>memSize\<close>, and maps nothing else.
\<close>

theorem make_pd_spec:
  assumes sh: "pd_inv lo hi s shared F" and n: "unat (shared_entries cfg) \<le> 1024" and three: "3 \<le> card F"
  shows "\<exists>s' pd. make_pd cfg shared s = Inr (s', pd) \<and> pd \<in> F \<and> (\<exists>F' \<subseteq> F. pd_inv lo hi s' pd F') \<and>
    (\<forall>x. walk (mem s') pd x =
      (if ppn x = ppn (localAPIC cfg) then Some (localAPIC cfg OR 3)
       else if ppn x = ppn (ioAPIC cfg) then Some (ioAPIC cfg OR 3)
       else if pdi x < shared_entries cfg then walk (mem s) shared x else None))"
proof -
  have "F \<noteq> {}" using three by auto
  then obtain s1 pd m where s1: "alloc_frame s = Inr (s1, pd)" "m = memcpy (mem s1) pd shared (4 * shared_entries cfg)"
    and a: "pd \<in> F" "pd_inv lo hi (s1\<lparr>mem := m\<rparr>) pd (F - {pd})"
      "\<And>x. walk m pd x = (if pdi x < shared_entries cfg then walk (mem s) shared x else None)"
    by (rule new_directory [OF sh n]) blast
  let ?s2 = "s1\<lparr>mem := m\<rparr>"
  note i2 = a(2)
  have two: "2 \<le> card (F - {pd})" using three a(1) by simp
  then have ne: "F - {pd} \<noteq> {}" by (metis card.empty not_numeral_le_zero)
  obtain s3 where s3: "map_with 3 ?s2 pd (ioAPIC cfg) (ioAPIC cfg) = Inr s3"
    using map_with_succeeds [of lo hi ?s2 "F - {pd}" pd "ioAPIC cfg" 3 "ioAPIC cfg"] i2 ne by (auto simp: pd_inv_def)
  obtain F3 where F3: "F3 \<subseteq> F - {pd}" "pd_inv lo hi s3 pd F3"
    "\<And>x. walk (mem s3) pd x = (if ppn x = ppn (ioAPIC cfg) then Some (ioAPIC cfg OR 3) else walk m pd x)"
    "card (F - {pd}) \<le> card F3 + 1"
    by (rule map_with_pd_inv [OF i2 s3]) auto
  have ne3: "F3 \<noteq> {}" using two F3(4) by auto
  obtain s' where s': "map_with 3 s3 pd (localAPIC cfg) (localAPIC cfg) = Inr s'"
    using map_with_succeeds [of lo hi s3 F3 pd "localAPIC cfg" 3 "localAPIC cfg"] F3(2) ne3 by (auto simp: pd_inv_def)
  obtain F4 where F4: "F4 \<subseteq> F3" "pd_inv lo hi s' pd F4"
    "\<And>x. walk (mem s') pd x = (if ppn x = ppn (localAPIC cfg) then Some (localAPIC cfg OR 3) else walk (mem s3) pd x)"
    by (rule map_with_pd_inv [OF F3(2) s']) auto
  have "F4 \<subseteq> F" using F3(1) F4(1) by blast
  moreover have "make_pd cfg shared s = Inr (s', pd)"
    using s1 s3 s' by (simp add: make_pd_def map_page_def Let_def shared_entries_def)
  ultimately show ?thesis using a(1) F4(2,3) F3(3) a(3)
    by (intro exI [of _ s'] exI [of _ pd]) auto
qed

subsection \<open>Witnesses\<close>

definition sample_config :: config where
  "sample_config = \<lparr>memSize = 0x3000, nOtherProcs = 0, totalProcs = 1, localAPIC = 0xFEE00000,
     madtFlags = 0, ioAPIC = 0xFEC00000, apicInfo = [], oemid = []\<rparr>"

text \<open>The sample machine with its first frame in use as an empty page directory.\<close>

definition sample_space :: physmem where
  "sample_space = sample_phys\<lparr>avail := 0x101000\<rparr>"

lemma sample_space_inv: "pm_inv 0x100000 0x200000 sample_space (frame_pool 0x101000 0x200000)"
  by (auto simp: sample_space_def sample_phys_def pm_inv_def pm_wf_def free_frames_def offset_def
      intro!: exI [of _ "[]"])

lemma sample_space_pd: "pd_inv 0x100000 0x200000 sample_space 0x100000 (frame_pool 0x101000 0x200000)"
  "\<And>i. \<not> pt_index (mem sample_space) 0x100000 i"
proof -
  have z: "zero_frame (mem sample_space) 0x100000" by (simp add: sample_space_def sample_phys_def zero_frame_def)
  have al: "aligned 0x100000" by (simp add: offset_def)
  note e = empty_directory [OF z al]
  have "0x100000 \<notin> frame_pool 0x101000 0x200000" by (simp add: frame_pool_def)
  then show "pd_inv 0x100000 0x200000 sample_space 0x100000 (frame_pool 0x101000 0x200000)"
    using sample_space_inv e by (simp add: pd_inv_def)
  show "\<not> pt_index (mem sample_space) 0x100000 i" for i
    using zero_frame_get32 [OF z al] by (auto simp: pt_index_def)
qed

theorem delete_pd_spec_witness:
  "\<exists>s'. delete_pd sample_config 0 0x100000 sample_space = Inr s' \<and>
     pm_inv 0x100000 0x200000 s' (frame_pool 0x101000 0x200000 \<union> {0x100000})"
proof -
  have p: "private_tables (mem sample_space) 0x100000 = {}" "user_frames sample_config (mem sample_space) 0x100000 = {}"
    using sample_space_pd(2) by (auto simp: private_tables_def user_frames_def user_slot_def)
  have "private_owned sample_config (mem sample_space) 0x100000"
    using sample_space_pd p(2) by (auto simp: private_owned_def pd_inv_def user_slot_def)
  moreover have "insert 0x100000 ({} \<union> {}) \<subseteq> frame_pool 0x100000 0x200000 - frame_pool 0x101000 0x200000"
    by (simp add: frame_pool_def offset_def)
  ultimately show ?thesis
    using delete_pd_spec [of sample_config sample_space "0x100000" 0 "0x100000" "0x200000", OF _ _ sample_space_inv] p
    by simp
qed

theorem global_init_spec_witness:
  "global_init 1048576 sample_config sample_phys = Some (Inl (Panic ''no more frames'')) \<or>
   (\<exists>s' shared F'. global_init 1048576 sample_config sample_phys = Some (Inr (s', shared)) \<and>
      pd_inv 0x100000 0x200000 s' shared F' \<and>
      (\<forall>x. walk (mem s') shared x =
        (if FRAME_SIZE \<le> framedown x \<and> framedown x < 0x3000 then Some (framedown x OR 3) else None)))"
proof -
  have "memSize sample_config = 0x3000" by (simp add: sample_config_def)
  then show ?thesis using global_init_spec [OF sample_phys_inv, of sample_config 1048576] by simp
qed

theorem make_pd_spec_witness:
  "\<exists>s' pd. make_pd sample_config 0x100000 sample_space = Inr (s', pd) \<and> pd \<in> frame_pool 0x101000 0x200000 \<and>
    (\<forall>x. walk (mem s') pd x =
      (if ppn x = ppn (localAPIC sample_config) then Some (localAPIC sample_config OR 3)
       else if ppn x = ppn (ioAPIC sample_config) then Some (ioAPIC sample_config OR 3)
       else if pdi x < shared_entries sample_config then walk (mem sample_space) 0x100000 x else None))"
proof -
  have n: "unat (shared_entries sample_config) \<le> 1024" by (simp add: shared_entries_def sample_config_def)
  have "{0x101000, 0x102000, 0x103000} \<subseteq> frame_pool 0x101000 0x200000"
    by (simp add: frame_pool_def offset_def)
  from card_mono [OF _ this] have "3 \<le> card (frame_pool 0x101000 0x200000)" by simp
  then show ?thesis
    using make_pd_spec [OF sample_space_pd(1) n] by blast
qed

text \<open>
  \<^bold>\<open>C10.\<close> Mapping a user page (\<^verbatim>\<open>user_map\<close> in vmm.cc). If a frame is free, \<^verbatim>\<open>user_map\<close> succeeds on a
  well-formed directory: afterwards the page of \<open>va\<close> translates to \<open>pa\<close> with the user bits, every
  other page translates as before, at most one frame was taken for a page table, and the directory
  and the frame pool are well formed again.
\<close>

theorem user_map_contract:
  assumes "pd_inv lo hi s dir F" "F \<noteq> {}"
  shows "\<exists>s' F'. user_map s dir va pa = Inr s' \<and> F' \<subseteq> F \<and> card F \<le> card F' + 1 \<and> pd_inv lo hi s' dir F' \<and>
    (\<forall>x. walk (mem s') dir x = (if ppn x = ppn va then Some (pa OR 7) else walk (mem s) dir x))"
proof -
  obtain s' where ok: "map_with 7 s dir va pa = Inr s'"
    using map_with_succeeds [of lo hi s F dir va 7 pa] assms by (auto simp: pd_inv_def)
  obtain F' where "F' \<subseteq> F" "pd_inv lo hi s' dir F'" "card F \<le> card F' + 1"
    "\<And>x. walk (mem s') dir x = (if ppn x = ppn va then Some (pa OR 7) else walk (mem s) dir x)"
    by (rule map_with_pd_inv [OF assms(1) ok]) auto
  then show ?thesis using ok unfolding user_map_def by blast
qed

theorem user_map_contract_witness:
  "\<exists>s' F'. user_map sample_space 0x100000 0x80000000 0x5000 = Inr s' \<and>
     pd_inv 0x100000 0x200000 s' 0x100000 F' \<and> walk (mem s') 0x100000 0x80000123 = Some 0x5007"
proof -
  have "0x101000 \<in> frame_pool 0x101000 0x200000" by (simp add: frame_pool_def offset_def)
  then have ne: "frame_pool 0x101000 0x200000 \<noteq> {}" by blast
  have "ppn 0x80000123 = ppn 0x80000000" "(0x5000 :: u32) OR 7 = 0x5007" by (simp_all add: ppn_def)
  then show ?thesis
    using user_map_contract [OF sample_space_pd(1) ne, of "0x80000000" "0x5000"] by metis
qed

end
