(* ===== verification/Linked_Chain.thy ===== *)
theory Linked_Chain
  imports Kernel_Prelude "HOL-Library.Multiset"
begin

text \<open>
  Singly linked chains of kernel objects and the contract of the queues built on them. A pointer is
  its address, \<open>nullptr\<close> is address 0, and the \<^verbatim>\<open>next\<close> fields of all objects form one map. The
  locale \<open>chain_queue\<close> is what \<^verbatim>\<open>kernel/queue.h\<close> and \<^verbatim>\<open>kernel/priority_queue.h\<close> promise alike;
  they differ in where \<^verbatim>\<open>add\<close> inserts.
\<close>

type_synonym ptr = u32

abbreviation (input) nullptr :: ptr where
  "nullptr \<equiv> 0"

subsection \<open>Chains\<close>

primrec chain :: "(ptr \<Rightarrow> ptr) \<Rightarrow> ptr \<Rightarrow> ptr list \<Rightarrow> bool" where
  "chain nxt p [] \<longleftrightarrow> p = nullptr"
| "chain nxt p (x # xs) \<longleftrightarrow> p = x \<and> x \<noteq> nullptr \<and> chain nxt (nxt x) xs"

lemma chain_null [simp]: "chain nxt nullptr xs \<longleftrightarrow> xs = []"
  by (cases xs) auto

lemma chain_nonnull: "p \<noteq> nullptr \<Longrightarrow> chain nxt p xs \<longleftrightarrow> (\<exists>ys. xs = p # ys \<and> chain nxt (nxt p) ys)"
  by (cases xs) auto

lemma chain_unique: "chain nxt p xs \<Longrightarrow> chain nxt p ys \<Longrightarrow> xs = ys"
proof (induction xs arbitrary: p ys)
  case (Cons x xs)
  then show ?case by (cases ys) auto
qed auto

lemma chain_nullptr: "chain nxt p xs \<Longrightarrow> nullptr \<notin> set xs"
  by (induction xs arbitrary: p) auto

lemma chain_frame: "chain nxt p xs \<Longrightarrow> (\<And>x. x \<in> set xs \<Longrightarrow> nxt' x = nxt x) \<Longrightarrow> chain nxt' p xs"
  by (induction xs arbitrary: p) auto

lemma chain_upd [simp]: "y \<notin> set xs \<Longrightarrow> chain (nxt(y := z)) p xs \<longleftrightarrow> chain nxt p xs"
  by (auto elim!: chain_frame)

lemma chain_suffix: "chain nxt p (xs @ y # ys) \<Longrightarrow> chain nxt y (y # ys)"
  by (induction xs arbitrary: p) auto

text \<open>A chain that ends has no repetition: a repeated cell would have two different tails.\<close>

lemma chain_distinct: "chain nxt p xs \<Longrightarrow> distinct xs"
proof (induction xs arbitrary: p)
  case (Cons x xs)
  have "x \<notin> set xs"
  proof
    assume "x \<in> set xs"
    then obtain us vs where xs: "xs = us @ x # vs" by (auto dest: split_list)
    have "chain nxt x (x # xs)" using Cons.prems by simp
    moreover have "chain nxt x (x # vs)" using Cons.prems xs by (auto dest: chain_suffix)
    ultimately have "xs = vs" using chain_unique by blast
    then have "length xs = length vs" by simp
    then show False using xs by simp
  qed
  moreover have "distinct xs" using Cons.IH [of "nxt x"] Cons.prems by simp
  ultimately show ?case by simp
qed simp

text \<open>Redirecting the last link of a prefix splices a new tail in.\<close>

lemma chain_splice:
  "chain nxt p (xs @ y # ys) \<Longrightarrow> chain (nxt(y := z)) z zs \<Longrightarrow> chain (nxt(y := z)) p (xs @ y # zs)"
proof (induction xs arbitrary: p)
  case (Cons x xs)
  have "x \<noteq> y" using chain_distinct [OF Cons.prems(1)] by auto
  then show ?case using Cons by simp
qed simp

subsection \<open>The contract of a queue of threads\<close>

text \<open>Adding a list of elements one after the other, and removing until nothing is left.\<close>

fun fill :: "('s \<Rightarrow> ptr \<Rightarrow> 's result option) \<Rightarrow> ptr list \<Rightarrow> 's \<Rightarrow> 's result option" where
  "fill add [] s = Some (Inr s)"
| "fill add (t # ts) s =
     (case add s t of Some (Inr s') \<Rightarrow> fill add ts s' | r \<Rightarrow> r)"

fun drain :: "('s \<Rightarrow> 's \<times> ptr) \<Rightarrow> nat \<Rightarrow> 's \<Rightarrow> 's \<times> ptr list" where
  "drain remove 0 s = (s, [])"
| "drain remove (Suc n) s =
     (let (s', p) = remove s in
      if p = nullptr then (s', []) else let (s'', ps) = drain remove n s' in (s'', p # ps))"

locale chain_queue =
  fixes rel :: "'s \<Rightarrow> ptr list \<Rightarrow> bool"
    and ins :: "ptr \<Rightarrow> ptr list \<Rightarrow> ptr list"
    and add :: "'s \<Rightarrow> ptr \<Rightarrow> 's result option"
    and remove :: "'s \<Rightarrow> 's \<times> ptr"
    and remove_all :: "'s \<Rightarrow> 's \<times> ptr"
    and links :: "'s \<Rightarrow> ptr \<Rightarrow> ptr"
  assumes rel_chain: "rel s xs \<Longrightarrow> \<exists>p. chain (links s) p xs"
    and add_spec: "rel s xs \<Longrightarrow> t \<noteq> nullptr \<Longrightarrow> t \<notin> set xs \<Longrightarrow> \<exists>s'. add s t = Some (Inr s') \<and> rel s' (ins t xs)"
    and ins_mset: "mset (ins t xs) = add_mset t (mset xs)"
    and remove_empty: "rel s [] \<Longrightarrow> remove s = (s, nullptr)"
    and remove_first: "rel s (x # xs) \<Longrightarrow> \<exists>s'. remove s = (s', x) \<and> rel s' xs"
    and remove_all_spec: "rel s xs \<Longrightarrow> \<exists>s' p. remove_all s = (s', p) \<and> rel s' [] \<and> chain (links s') p xs"
begin

lemma set_ins: "set (ins t xs) = insert t (set xs)"
  using ins_mset [of t xs] by (metis set_mset_add_mset_insert set_mset_mset)

lemma fill_spec:
  assumes "rel s xs" "distinct ts" "set ts \<inter> set xs = {}" "nullptr \<notin> set ts"
  shows "\<exists>s'. fill add ts s = Some (Inr s') \<and> rel s' (fold ins ts xs)"
  using assms
proof (induction ts arbitrary: s xs)
  case (Cons t ts)
  obtain s' where s': "add s t = Some (Inr s')" "rel s' (ins t xs)"
    using add_spec [OF Cons.prems(1), of t] Cons.prems by auto
  have "\<exists>s''. fill add ts s' = Some (Inr s'') \<and> rel s'' (fold ins ts (ins t xs))"
    using Cons.prems by (intro Cons.IH [OF s'(2)]) (auto simp: set_ins)
  then show ?case using s'(1) by simp
qed simp

lemma drain_spec:
  assumes "rel s xs" "length xs < n"
  shows "\<exists>s'. drain remove n s = (s', xs) \<and> rel s' []"
  using assms
proof (induction xs arbitrary: s n)
  case Nil
  then show ?case by (cases n) (auto simp: remove_empty)
next
  case (Cons x xs)
  obtain m where n: "n = Suc m" using Cons.prems(2) by (cases n) auto
  obtain s' where s': "remove s = (s', x)" "rel s' xs" using remove_first [OF Cons.prems(1)] by blast
  have "x \<noteq> nullptr" using rel_chain [OF Cons.prems(1)] by (auto dest: chain_nullptr)
  moreover obtain s'' where "drain remove m s' = (s'', xs)" "rel s'' []"
    using Cons.IH [OF s'(2)] Cons.prems(2) n by auto
  ultimately show ?case using n s'(1) by simp
qed

lemma fill_drain:
  assumes "rel s []" "distinct ts" "nullptr \<notin> set ts" "length ts < n"
  shows "\<exists>s' s''. fill add ts s = Some (Inr s') \<and> drain remove n s' = (s'', fold ins ts []) \<and> rel s'' []"
proof -
  obtain s' where s': "fill add ts s = Some (Inr s')" "rel s' (fold ins ts [])"
    using fill_spec [OF assms(1,2)] assms(3) by auto
  have "mset (fold ins ts xs) = mset xs + mset ts" for xs
    by (induction ts arbitrary: xs) (simp_all add: ins_mset)
  from this [of "[]"] have "length (fold ins ts []) = length ts" by (metis mset_eq_length add_0 mset.simps(1))
  then show ?thesis using drain_spec [OF s'(2), of n] assms(4) s'(1) by auto
qed

end

end
