(* ===== verification/Thread_Queue.thy ===== *)
theory Thread_Queue
  imports Linked_Chain
begin

text \<open>
  The intrusive FIFO queue of \<^verbatim>\<open>kernel/queue.h\<close>. Every operation runs under the queue's lock, so
  each one is a single transition of the state: the \<^verbatim>\<open>next\<close> fields, \<^verbatim>\<open>first\<close> and \<^verbatim>\<open>last\<close>.
\<close>

subsection \<open>State and operations (queue.h)\<close>

record tqueue =
  qnext :: "ptr \<Rightarrow> ptr"
  qfirst :: ptr
  qlast :: ptr

definition queue_new :: "(ptr \<Rightarrow> ptr) \<Rightarrow> tqueue" where
  "queue_new nxt = \<lparr>qnext = nxt, qfirst = nullptr, qlast = nullptr\<rparr>"

definition queue_add :: "tqueue \<Rightarrow> ptr \<Rightarrow> tqueue" where
  "queue_add q t =
     (let q = q\<lparr>qnext := (qnext q)(t := nullptr)\<rparr>;
          q = (if qfirst q = nullptr then q\<lparr>qfirst := t\<rparr>
               else q\<lparr>qnext := (qnext q)(qlast q := t)\<rparr>)
      in q\<lparr>qlast := t\<rparr>)"

definition queue_remove :: "tqueue \<Rightarrow> tqueue \<times> ptr" where
  "queue_remove q =
     (if qfirst q = nullptr then (q, nullptr)
      else
        let it = qfirst q;
            q = q\<lparr>qfirst := qnext q it\<rparr>;
            q = (if qfirst q = nullptr then q\<lparr>qlast := nullptr\<rparr> else q)
        in (q, it))"

definition queue_remove_all :: "tqueue \<Rightarrow> tqueue \<times> ptr" where
  "queue_remove_all q = (q\<lparr>qfirst := nullptr, qlast := nullptr\<rparr>, qfirst q)"

subsection \<open>Refinement to lists\<close>

definition queue_rel :: "tqueue \<Rightarrow> ptr list \<Rightarrow> bool" where
  "queue_rel q xs \<longleftrightarrow>
     chain (qnext q) (qfirst q) xs \<and> qlast q = (if xs = [] then nullptr else last xs)"

lemma queue_new_rel: "queue_rel (queue_new nxt) []"
  by (simp add: queue_rel_def queue_new_def)

lemma queue_add_rel:
  assumes q: "queue_rel q xs" and t: "t \<noteq> nullptr" "t \<notin> set xs"
  shows "queue_rel (queue_add q t) (xs @ [t])"
proof (cases xs rule: rev_cases)
  case Nil
  then show ?thesis using q t by (simp add: queue_rel_def queue_add_def Let_def)
next
  case (snoc ys y)
  let ?n = "(qnext q)(t := nullptr)"
  have c: "chain ?n (qfirst q) (ys @ y # [])" and l: "qlast q = y" "qfirst q \<noteq> nullptr" "y \<noteq> t"
    using q t snoc by (auto simp: queue_rel_def)
  have "chain (?n(y := t)) (qfirst q) (ys @ y # [t])"
    using t l(3) by (intro chain_splice [OF c]) simp
  then show ?thesis using l snoc by (simp add: queue_rel_def queue_add_def Let_def)
qed

lemma queue_remove_rel:
  "queue_rel q [] \<Longrightarrow> queue_remove q = (q, nullptr)"
  "queue_rel q (x # xs) \<Longrightarrow> \<exists>q'. queue_remove q = (q', x) \<and> queue_rel q' xs"
  by (auto simp: queue_rel_def queue_remove_def Let_def)

lemma queue_remove_all_rel:
  "queue_rel q xs \<Longrightarrow>
     \<exists>q' p. queue_remove_all q = (q', p) \<and> queue_rel q' [] \<and> chain (qnext q') p xs"
  by (auto simp: queue_rel_def queue_remove_all_def)

interpretation tq: chain_queue queue_rel "\<lambda>t xs. xs @ [t]" "\<lambda>q t. Some (Inr (queue_add q t))"
  queue_remove queue_remove_all qnext
proof unfold_locales
  show "\<exists>p. chain (qnext q) p xs" if "queue_rel q xs" for q xs
    using that by (auto simp: queue_rel_def)
qed (auto intro: queue_add_rel dest: queue_remove_rel queue_remove_all_rel)

subsection \<open>Properties\<close>

text \<open>
  \<^bold>\<open>C16.\<close> First in, first out (queue.h). Adding distinct threads one after the other to an empty queue
  and removing until nothing is left returns exactly these threads in the order of their arrival, and
  leaves an empty queue.
\<close>

theorem queue_fifo:
  assumes "distinct ts" "nullptr \<notin> set ts" "length ts < n"
  shows "\<exists>q q'. fill (\<lambda>q t. Some (Inr (queue_add q t))) ts (queue_new nxt) = Some (Inr q) \<and>
    drain queue_remove n q = (q', ts) \<and> queue_rel q' []"
proof -
  have "fold (\<lambda>t xs. xs @ [t]) ts xs = xs @ ts" for xs :: "ptr list" by (induction ts arbitrary: xs) auto
  then show ?thesis using tq.fill_drain [OF queue_new_rel assms] by simp
qed

theorem queue_fifo_witness:
  "\<exists>q q'. fill (\<lambda>q t. Some (Inr (queue_add q t))) [12, 4, 8] (queue_new (\<lambda>_. 0)) = Some (Inr q) \<and>
     drain queue_remove 5 q = (q', [12, 4, 8]) \<and> queue_rel q' []"
  by (rule queue_fifo) simp_all

end
