(* ===== verification/Semaphores.thy ===== *)
theory Semaphores
  imports Thread_Queue
begin

text \<open>
  \<^verbatim>\<open>kernel/semaphore.h\<close>, \<^verbatim>\<open>kernel/blocking_lock.h\<close> and the data of \<^verbatim>\<open>kernel/future.h\<close>. A semaphore's
  operations hold its interrupt-safe lock until the thread has returned or has been put on the
  waiting queue, so each is one transition. The waiting queue is used through its list refinement
  (theory \<open>Thread_Queue\<close>); a thread is its \<^verbatim>\<open>TCB*\<close>.
\<close>

subsection \<open>Semaphores (semaphore.h)\<close>

record semaphore =
  count :: u64
  waiting :: "ptr list"

definition semaphore_new :: "u32 \<Rightarrow> semaphore" where
  "semaphore_new c = \<lparr>count = ucast c, waiting = []\<rparr>"

text \<open>\<^verbatim>\<open>down\<close> returns whether the caller \<open>me\<close> has blocked, \<^verbatim>\<open>up\<close> the thread to be scheduled.\<close>

definition sem_down :: "semaphore \<Rightarrow> ptr \<Rightarrow> semaphore \<times> bool" where
  "sem_down s me =
     (if count s > 0 then (s\<lparr>count := count s - 1\<rparr>, False)
      else (s\<lparr>waiting := waiting s @ [me]\<rparr>, True))"

definition sem_up :: "semaphore \<Rightarrow> semaphore \<times> ptr option" where
  "sem_up s =
     (case waiting s of
        [] \<Rightarrow> (s\<lparr>count := count s + 1\<rparr>, None)
      | t # ts \<Rightarrow> (s\<lparr>waiting := ts\<rparr>, Some t))"

text \<open>A blocking lock is a semaphore with count 1 (blocking\_lock.h).\<close>

definition blocking_lock_new :: semaphore where
  "blocking_lock_new = semaphore_new 1"

definition lock :: "semaphore \<Rightarrow> ptr \<Rightarrow> semaphore \<times> bool" where
  "lock s me = sem_down s me"

definition unlock :: "semaphore \<Rightarrow> semaphore \<times> ptr option" where
  "unlock s = sem_up s"

text \<open>Nobody waits while the count is positive.\<close>

definition sem_inv :: "semaphore \<Rightarrow> bool" where
  "sem_inv s \<longleftrightarrow> waiting s = [] \<or> count s = 0"

text \<open>The permits minus the waiting threads, the value Dijkstra's semaphore counts.\<close>

definition sem_value :: "semaphore \<Rightarrow> int" where
  "sem_value s = uint (count s) - int (length (waiting s))"

lemma sem_inv_new [simp]: "sem_inv (semaphore_new c)"
  by (simp add: sem_inv_def semaphore_new_def)

lemma sem_value_new: "sem_value (semaphore_new c) = uint c"
  by (simp add: sem_value_def semaphore_new_def unsigned_ucast_eq take_bit_int_eq_self_iff)
    (use uint_bounded [of c] in simp)

lemma sem_down_inv: "sem_inv s \<Longrightarrow> sem_inv (fst (sem_down s me))"
  by (auto simp: sem_inv_def sem_down_def word_gt_0)

lemma sem_up_inv: "sem_inv s \<Longrightarrow> sem_inv (fst (sem_up s))"
  by (auto simp: sem_inv_def sem_up_def split: list.splits)

lemma uint_dec: "0 < c \<Longrightarrow> uint (c - 1 :: u64) = uint c - 1"
  by (simp add: uint_sub_if_size word_less_def)

lemma uint_inc: "c \<noteq> - 1 \<Longrightarrow> uint (c + 1 :: u64) = uint c + 1"
proof -
  assume c: "c \<noteq> - 1"
  have "uint c \<noteq> 2 ^ 64 - 1"
  proof
    assume "uint c = 2 ^ 64 - 1"
    then have "(of_int (uint c) :: u64) = of_int (2 ^ 64 - 1)" by simp
    then show False using c by simp
  qed
  then have "uint c + 1 < 2 ^ 64" using uint_bounded [of c] by simp
  then show ?thesis by (simp add: uint_plus_if_size word_size)
qed

lemma sem_down_value: "sem_value (fst (sem_down s me)) = sem_value s - 1"
  by (auto simp: sem_value_def sem_down_def uint_dec)

lemma sem_up_value:
  assumes "count s \<noteq> - 1 \<or> waiting s \<noteq> []"
  shows "sem_value (fst (sem_up s)) = sem_value s + 1"
proof (cases "waiting s")
  case Nil
  then have "uint (count s + 1) = uint (count s) + 1" using assms uint_inc by simp
  then show ?thesis using Nil by (simp add: sem_value_def sem_up_def)
qed (simp add: sem_value_def sem_up_def)

lemma sem_down_blocks: "snd (sem_down s me) \<longleftrightarrow> count s = 0"
  by (auto simp: sem_down_def word_gt_0)

subsection \<open>Runs of a semaphore\<close>

datatype sem_op = Down ptr | Up

primrec sem_run :: "sem_op list \<Rightarrow> semaphore \<Rightarrow> semaphore" where
  "sem_run [] s = s"
| "sem_run (c # cs) s = sem_run cs (case c of Down t \<Rightarrow> fst (sem_down s t) | Up \<Rightarrow> fst (sem_up s))"

definition ups :: "sem_op list \<Rightarrow> nat" where
  "ups cs = length (filter (\<lambda>c. c = Up) cs)"

definition downs :: "sem_op list \<Rightarrow> nat" where
  "downs cs = length (filter (\<lambda>c. c \<noteq> Up) cs)"

lemma sem_run_value:
  assumes "sem_inv s" "uint (count s) + int (ups cs) < 2 ^ 64"
  shows "sem_inv (sem_run cs s) \<and> sem_value (sem_run cs s) = sem_value s + int (ups cs) - int (downs cs)"
  using assms
proof (induction cs arbitrary: s)
  case Nil
  then show ?case by (simp add: ups_def downs_def)
next
  case (Cons c cs)
  show ?case
  proof (cases c)
    case (Down t)
    have "uint (count (fst (sem_down s t))) \<le> uint (count s)" by (auto simp: sem_down_def uint_dec)
    moreover have "ups (c # cs) = ups cs" "downs (c # cs) = Suc (downs cs)" using Down by (simp_all add: ups_def downs_def)
    ultimately show ?thesis
      using Cons.IH [OF sem_down_inv [OF Cons.prems(1)], of t] Cons.prems(2) Down sem_down_value [of s t] by simp
  next
    case Up
    have u: "ups (c # cs) = Suc (ups cs)" "downs (c # cs) = downs cs" using Up by (simp_all add: ups_def downs_def)
    have "uint (count s) < 2 ^ 64 - 1" using Cons.prems(2) u by simp
    then have ne: "count s \<noteq> - 1"
    proof (rule contrapos_pn)
      assume "count s = - 1"
      then show "\<not> uint (count s) < 2 ^ 64 - 1" by (simp add: unsigned_minus_1_eq_mask mask_eq_exp_minus_1)
    qed
    then have "uint (count (fst (sem_up s))) \<le> uint (count s) + 1"
      by (auto simp: sem_up_def uint_inc split: list.splits)
    then show ?thesis
      using Cons.IH [OF sem_up_inv [OF Cons.prems(1)]] Cons.prems(2) Up u ne sem_up_value [of s] by simp
  qed
qed

text \<open>
  Semaphores count (semaphore.h). After any sequence of \<^verbatim>\<open>down\<close> and \<^verbatim>\<open>up\<close> calls on a new semaphore,
  as long as the 64-bit count does not overflow, the count minus the number of blocked threads is the
  initial value plus the ups minus the downs, and threads are blocked only when the count is zero: no
  wake-up is lost and no permit is invented.
\<close>

theorem semaphore_conserves_permits:
  assumes "uint c + int (ups cs) < 2 ^ 64"
  defines "s \<equiv> sem_run cs (semaphore_new c)"
  shows "uint (count s) - int (length (waiting s)) = uint c + int (ups cs) - int (downs cs) \<and>
    (waiting s = [] \<or> count s = 0)"
proof -
  have "uint (count (semaphore_new c)) = uint c"
    using sem_value_new [of c] by (simp add: sem_value_def semaphore_new_def)
  then show ?thesis
    using sem_run_value [OF sem_inv_new, of c cs] assms(1) sem_value_new [of c]
    by (simp add: s_def sem_value_def sem_inv_def)
qed

theorem semaphore_conserves_permits_witness:
  "let s = sem_run [Down 4, Down 8, Up, Down 12] (semaphore_new 1) in
   uint (count s) - int (length (waiting s)) = - 1 \<and> (waiting s = [] \<or> count s = 0)"
  using semaphore_conserves_permits [of 1 "[Down 4, Down 8, Up, Down 12]"]
  by (simp add: ups_def downs_def Let_def)

end
