(* ===== verification/Process_Tables.thy ===== *)
theory Process_Tables
  imports Semaphores Kernel_Config
begin

text \<open>
  The tables of \<^verbatim>\<open>kernel/process.h\<close> and \<^verbatim>\<open>kernel/process.cc\<close>: open files, semaphores and children of
  a process behind integer ids, and the mapping entries of \<^verbatim>\<open>kernel/vmm.h\<close>. Kernel objects reached
  through \<^verbatim>\<open>Shared<T>\<close> live in append-only stores and are referred to by their position there. Every
  method runs under the process's mutex or on behalf of its only thread.
\<close>

subsection \<open>Mappings (vmm.h)\<close>

text \<open>
  The constructor of \<^verbatim>\<open>VMEntry\<close> leaves the field \<^verbatim>\<open>node\<close> uninitialised; \<open>Uninit\<close> is that state. A
  file is represented by its i-node number.
\<close>

datatype node_ptr = Uninit | Null_Node | Node_At nat

record node_entry =
  node_file :: u32
  num_processes :: u32
  node_pa :: u32

record vm_entry =
  vm_file :: "u32 option"
  vm_size :: u32
  starting_address :: u32
  vm_offset :: u32
  vm_flags :: u32
  vm_prot :: u32
  vm_node :: node_ptr

subsection \<open>Kernel objects (future.h, file.h, u8250.h)\<close>

record future =
  go :: semaphore
  isReady :: bool
  fvalue :: u32

definition future_new :: future where
  "future_new = \<lparr>go = semaphore_new 0, isReady = False, fvalue = 0\<rparr>"

text \<open>\<^verbatim>\<open>set\<close> publishes the value and wakes one waiter, which is the thread returned.\<close>

definition future_set :: "future \<Rightarrow> u32 \<Rightarrow> (future \<times> ptr option) result" where
  "future_set f v =
     assert_k (\<not> isReady f) ''!isReady''
       (let f = f\<lparr>fvalue := v, isReady := True\<rparr>; (g, t) = sem_up (go f) in Inr (f\<lparr>go := g\<rparr>, t))"

datatype kfile = U8250File | FileDescriptor (fd_node: u32) (fd_offset: u32)

fun getNode :: "kfile \<Rightarrow> u32 option" where
  "getNode U8250File = None"
| "getNode (FileDescriptor n off) = Some n"

record kobjects =
  sem_objs :: "semaphore list"
  future_objs :: "future list"
  flag_objs :: "bool list"
  file_objs :: "kfile list"
  node_objs :: "node_entry list"
  node_list :: "nat list"

subsection \<open>Processes (process.h, process.cc)\<close>

definition NSEM :: nat where "NSEM = 10"

definition NCHILD :: nat where "NCHILD = 10"

definition NFILE :: nat where "NFILE = 10"

definition FL :: u32 where "FL = 0x00000000"

definition PROC :: u32 where "PROC = 0x10000000"

definition SEM :: u32 where "SEM = 0x20000000"

definition INDEX_MASK :: u32 where "INDEX_MASK = 0x0FFFFFFF"

record process =
  files :: "nat option list"
  sems :: "nat option list"
  children :: "nat option list"
  kill_flags :: "nat option list"
  proc_output :: nat
  kill_flag :: nat
  run_time :: int
  pd :: u32
  entry_list :: "vm_entry list"

text \<open>The constructor, given the page directory that \<^verbatim>\<open>make_pd\<close> returns.\<close>

definition process_new :: "bool \<Rightarrow> u32 \<Rightarrow> kobjects \<Rightarrow> kobjects \<times> process" where
  "process_new isInit dir k =
     (let f = length (file_objs k);
          p = \<lparr>files = replicate NFILE None, sems = replicate NSEM None,
               children = replicate NCHILD None, kill_flags = replicate NCHILD None,
               proc_output = length (future_objs k), kill_flag = length (flag_objs k), run_time = 0,
               pd = dir, entry_list = []\<rparr>;
          k = k\<lparr>future_objs := future_objs k @ [future_new], flag_objs := flag_objs k @ [False]\<rparr>
      in if isInit
         then (k\<lparr>file_objs := file_objs k @ [U8250File]\<rparr>,
               p\<lparr>files := (files p)[0 := Some f, 1 := Some f, 2 := Some f]\<rparr>)
         else (k, p))"

text \<open>The loop that looks for the first empty slot.\<close>

fun first_null :: "nat \<Rightarrow> 'a option list \<Rightarrow> nat option" where
  "first_null i [] = None"
| "first_null i (None # xs) = Some i"
| "first_null i (Some x # xs) = first_null (Suc i) xs"

definition newSemaphore :: "kobjects \<Rightarrow> process \<Rightarrow> u32 \<Rightarrow> kobjects \<times> process \<times> u32" where
  "newSemaphore k p init =
     (case first_null 0 (sems p) of
        Some i \<Rightarrow>
          (k\<lparr>sem_objs := sem_objs k @ [semaphore_new init]\<rparr>,
           p\<lparr>sems := (sems p)[i := Some (length (sem_objs k))]\<rparr>,
           SEM OR (of_nat i AND INDEX_MASK))
      | None \<Rightarrow> (k, p, - 1))"

definition getSemaphore :: "process \<Rightarrow> u32 \<Rightarrow> nat option" where
  "getSemaphore p i =
     (let idx = i AND INDEX_MASK in
      if unat idx \<ge> NSEM \<or> i AND 0xF0000000 \<noteq> SEM then None else sems p ! unat idx)"

definition table_index :: "u32 \<Rightarrow> nat \<Rightarrow> u32 \<Rightarrow> nat option" where
  "table_index k n i =
     (let kind = i AND 0xF0000000; index = i AND INDEX_MASK in
      if kind \<noteq> k then None else if unat index \<ge> n then None else Some (unat index))"

definition getSemaphoreIndex :: "u32 \<Rightarrow> nat option" where
  "getSemaphoreIndex = table_index SEM NSEM"

definition getChildIndex :: "u32 \<Rightarrow> nat option" where
  "getChildIndex = table_index PROC NCHILD"

definition getFileIndex :: "u32 \<Rightarrow> nat option" where
  "getFileIndex = table_index FL NFILE"

definition getFile :: "process \<Rightarrow> u32 \<Rightarrow> nat option" where
  "getFile p fd = (case getFileIndex fd of None \<Rightarrow> None | Some i \<Rightarrow> files p ! unat fd)"

definition setFile :: "process \<Rightarrow> nat \<Rightarrow> process \<times> u32" where
  "setFile p f =
     (case first_null 0 (files p) of
        Some i \<Rightarrow> (p\<lparr>files := (files p)[i := Some f]\<rparr>, of_nat i)
      | None \<Rightarrow> (p, - 1))"

definition close :: "process \<Rightarrow> u32 \<Rightarrow> process \<times> u32" where
  "close p i =
     (case getSemaphoreIndex i of
        Some idx \<Rightarrow> (case sems p ! idx of None \<Rightarrow> (p, - 1) | Some s \<Rightarrow> (p\<lparr>sems := (sems p)[idx := None]\<rparr>, 0))
      | None \<Rightarrow>
     (case getChildIndex i of
        Some idx \<Rightarrow> (case children p ! idx of None \<Rightarrow> (p, - 1) | Some c \<Rightarrow> (p\<lparr>children := (children p)[idx := None]\<rparr>, 0))
      | None \<Rightarrow>
     (case getFileIndex i of
        Some idx \<Rightarrow> (case files p ! idx of None \<Rightarrow> (p, - 1) | Some f \<Rightarrow> (p\<lparr>files := (files p)[idx := None]\<rparr>, 0))
      | None \<Rightarrow> (p, - 1))))"

text \<open>\<^verbatim>\<open>wait\<close>, where \<open>get c\<close> is what \<^verbatim>\<open>Future::get\<close> returns on the child's future; the value written to
  the caller's pointer is the last component.\<close>

definition proc_wait :: "(nat \<Rightarrow> u32) \<Rightarrow> process \<Rightarrow> u32 \<Rightarrow> process \<times> u32 \<times> u32 option" where
  "proc_wait get p i =
     (case getChildIndex i of
        None \<Rightarrow> (p, - 1, None)
      | Some idx \<Rightarrow>
        (case children p ! idx of
           None \<Rightarrow> (p, - 1, None)
         | Some c \<Rightarrow> (p\<lparr>children := (children p)[idx := None]\<rparr>, 0, Some (get c))))"

definition kill :: "kobjects \<Rightarrow> process \<Rightarrow> u32 \<Rightarrow> kobjects \<times> process \<times> u32" where
  "kill k p i =
     (case getChildIndex i of
        None \<Rightarrow> (k, p, - 1)
      | Some idx \<Rightarrow>
        (case kill_flags p ! idx of
           None \<Rightarrow> (k, p, - 1)
         | Some f \<Rightarrow> (k\<lparr>flag_objs := (flag_objs k)[f := True]\<rparr>, p\<lparr>kill_flags := (kill_flags p)[idx := None]\<rparr>, 0)))"

definition proc_exit :: "kobjects \<Rightarrow> process \<Rightarrow> u32 \<Rightarrow> (kobjects \<times> ptr option) result" where
  "proc_exit k p v =
     rbind (future_set (future_objs k ! proc_output p) v)
       (\<lambda>(f, t). Inr (k\<lparr>future_objs := (future_objs k)[proc_output p := f]\<rparr>, t))"

text \<open>A loop over the mappings that adds \<open>d\<close> to the use count of each one's node.\<close>

definition adjust_node :: "u32 \<Rightarrow> vm_entry \<Rightarrow> node_entry list \<Rightarrow> node_entry list result" where
  "adjust_node d e ns =
     (case vm_node e of
        Uninit \<Rightarrow> Inl (Undefined_Behaviour ''VMEntry::node is not initialised'')
      | Null_Node \<Rightarrow> Inr ns
      | Node_At n \<Rightarrow> Inr (ns[n := (ns ! n)\<lparr>num_processes := num_processes (ns ! n) + d\<rparr>]))"

definition decrementFiles :: "kobjects \<Rightarrow> process \<Rightarrow> kobjects result" where
  "decrementFiles k p =
     rbind (rfold (adjust_node (- 1)) (entry_list p) (node_objs k)) (\<lambda>ns. Inr (k\<lparr>node_objs := ns\<rparr>))"

subsection \<open>Well-formed tables\<close>

definition proc_wf :: "process \<Rightarrow> bool" where
  "proc_wf p \<longleftrightarrow> length (files p) = NFILE \<and> length (sems p) = NSEM \<and>
     length (children p) = NCHILD \<and> length (kill_flags p) = NCHILD"

lemmas table_sizes = NSEM_def NCHILD_def NFILE_def

lemmas id_kinds = FL_def PROC_def SEM_def INDEX_MASK_def

lemma proc_wf_new: "proc_wf (snd (process_new b dir k))"
  by (simp add: proc_wf_def process_new_def Let_def)

lemma first_null_Some:
  "first_null i xs = Some j \<longleftrightarrow>
     i \<le> j \<and> j - i < length xs \<and> xs ! (j - i) = None \<and> (\<forall>k < j - i. xs ! k \<noteq> None)"
proof (induction i xs rule: first_null.induct)
  case (2 i xs)
  show ?case by (cases "j - i") auto
next
  case (3 i x xs)
  show ?case
  proof (cases "Suc i \<le> j")
    case True
    then have e: "j - i = Suc (j - Suc i)" by simp
    show ?thesis using 3 True unfolding e by (auto simp: less_Suc_eq_0_disj)
  next
    case False
    then show ?thesis using 3 by (cases "j = i") auto
  qed
qed auto

lemma first_null_None: "first_null i xs = None \<longleftrightarrow> None \<notin> set xs"
  by (induction i xs rule: first_null.induct) auto

text \<open>Ids: the kind and the index of an id composed from them.\<close>

lemma small_cases: "i < (10 :: nat) \<Longrightarrow> i \<in> {0, 1, 2, 3, 4, 5, 6, 7, 8, 9}"
  by auto

lemma id_parts:
  assumes "i < 10" "k \<in> {FL, PROC, SEM}"
  shows "(k OR (of_nat i AND INDEX_MASK)) AND 0xF0000000 = k"
    "(k OR (of_nat i AND INDEX_MASK)) AND INDEX_MASK = of_nat i"
  using small_cases [OF assms(1)] assms(2) by (auto simp: id_kinds)

lemma table_index_id:
  assumes "i < 10" "k \<in> {FL, PROC, SEM}" "k' \<in> {FL, PROC, SEM}"
  shows "table_index k' 10 (k OR (of_nat i AND INDEX_MASK)) = (if k = k' then Some i else None)"
  using id_parts [OF assms(1,2)] assms(1) by (simp add: table_index_def)

lemma getIndex_simps:
  assumes "i < 10"
  shows "getSemaphoreIndex (SEM OR (of_nat i AND INDEX_MASK)) = Some i"
    "getSemaphoreIndex (PROC OR (of_nat i AND INDEX_MASK)) = None"
    "getChildIndex (PROC OR (of_nat i AND INDEX_MASK)) = Some i"
    "getChildIndex (SEM OR (of_nat i AND INDEX_MASK)) = None"
  using assms table_index_id [of i]
  by (simp_all add: getSemaphoreIndex_def getChildIndex_def table_sizes id_kinds)

lemma table_index_bound: "table_index k n i = Some j \<Longrightarrow> j < n"
  by (auto simp: table_index_def Let_def split: if_splits)

text \<open>An id names a slot of at most one table.\<close>

lemma index_kinds_disjoint:
  "getSemaphoreIndex i \<noteq> None \<Longrightarrow> getChildIndex i = None \<and> getFileIndex i = None"
  "getChildIndex i \<noteq> None \<Longrightarrow> getSemaphoreIndex i = None \<and> getFileIndex i = None"
  by (auto simp: getSemaphoreIndex_def getChildIndex_def getFileIndex_def table_index_def id_kinds Let_def
      split: if_splits)

lemma getFile_slot:
  assumes "unat fd < 10"
  shows "getFile p fd = files p ! unat fd"
proof -
  have "fd = of_nat (unat fd)" by simp
  then obtain i where i: "i < 10" "fd = of_nat i" using assms by metis
  then have "fd AND 0xF0000000 = 0" "fd AND 0x0FFFFFFF = fd"
    using small_cases [OF i(1)] by auto
  then show ?thesis using assms by (simp add: getFile_def getFileIndex_def table_index_def id_kinds table_sizes)
qed

lemma close_preserves_wf: "proc_wf p \<Longrightarrow> proc_wf (fst (close p i))"
  by (auto simp: proc_wf_def close_def split: option.splits)

subsection \<open>Behaviour of the tables\<close>

lemma newSemaphore_slot:
  assumes "proc_wf p" "None \<in> set (sems p)"
  obtains i where "i < 10" "sems p ! i = None" "\<forall>j < i. sems p ! j \<noteq> None"
    "newSemaphore k p init =
       (k\<lparr>sem_objs := sem_objs k @ [semaphore_new init]\<rparr>,
        p\<lparr>sems := (sems p)[i := Some (length (sem_objs k))]\<rparr>, SEM OR (of_nat i AND INDEX_MASK))"
proof -
  obtain i where i: "first_null 0 (sems p) = Some i"
    using assms(2) first_null_None [of 0 "sems p"] by auto
  then have "i < 10" "sems p ! i = None" "\<forall>j < i. sems p ! j \<noteq> None"
    using assms(1) by (auto simp: first_null_Some proc_wf_def table_sizes)
  then show thesis using that i by (simp add: newSemaphore_def)
qed

lemma newSemaphore_full:
  "None \<notin> set (sems p) \<Longrightarrow> newSemaphore k p init = (k, p, - 1)"
  using first_null_None [of 0 "sems p"] by (simp add: newSemaphore_def split: option.splits)

lemma getSemaphore_index: "getSemaphore p i = (case getSemaphoreIndex i of None \<Rightarrow> None | Some j \<Rightarrow> sems p ! j)"
  by (auto simp: getSemaphore_def getSemaphoreIndex_def table_index_def Let_def)

lemma setFile_slot:
  assumes "proc_wf p" "None \<in> set (files p)"
  obtains i where "i < 10" "files p ! i = None" "\<forall>j < i. files p ! j \<noteq> None"
    "setFile p f = (p\<lparr>files := (files p)[i := Some f]\<rparr>, of_nat i)"
proof -
  obtain i where i: "first_null 0 (files p) = Some i"
    using assms(2) first_null_None [of 0 "files p"] by auto
  then have "i < 10" "files p ! i = None" "\<forall>j < i. files p ! j \<noteq> None"
    using assms(1) by (auto simp: first_null_Some proc_wf_def table_sizes)
  then show thesis using that i by (simp add: setFile_def)
qed

lemma setFile_full: "None \<notin> set (files p) \<Longrightarrow> setFile p f = (p, - 1)"
  using first_null_None [of 0 "files p"] by (simp add: setFile_def split: option.splits)

text \<open>Adding \<open>d\<close> to the counts of a list of mappings adds \<open>d\<close> once per mapping of a node.\<close>

definition node_uses :: "nat \<Rightarrow> vm_entry list \<Rightarrow> nat" where
  "node_uses n es = length (filter (\<lambda>e. vm_node e = Node_At n) es)"

lemma adjust_nodes_spec:
  assumes "\<forall>e \<in> set es. vm_node e \<noteq> Uninit" "\<forall>e \<in> set es. \<forall>n. vm_node e = Node_At n \<longrightarrow> n < length ns"
  shows "\<exists>ns'. rfold (adjust_node d) es ns = Inr ns' \<and> length ns' = length ns \<and>
    (\<forall>n < length ns. ns' ! n = (ns ! n)\<lparr>num_processes := num_processes (ns ! n) + of_nat (node_uses n es) * d\<rparr>)"
  using assms
proof (induction es arbitrary: ns)
  case Nil
  then show ?case by (simp add: node_uses_def)
next
  case (Cons e es)
  show ?case
  proof (cases "vm_node e")
    case Uninit
    then show ?thesis using Cons.prems by simp
  next
    case Null_Node
    then show ?thesis using Cons.IH [of ns] Cons.prems by (simp add: adjust_node_def node_uses_def)
  next
    case (Node_At m)
    let ?ns = "ns[m := (ns ! m)\<lparr>num_processes := num_processes (ns ! m) + d\<rparr>]"
    obtain ns' where ns': "rfold (adjust_node d) es ?ns = Inr ns'" "length ns' = length ns"
      "\<forall>n < length ns. ns' ! n = (?ns ! n)\<lparr>num_processes := num_processes (?ns ! n) + of_nat (node_uses n es) * d\<rparr>"
      using Cons.IH [of ?ns] Cons.prems by auto
    have "ns' ! n = (ns ! n)\<lparr>num_processes := num_processes (ns ! n) + of_nat (node_uses n (e # es)) * d\<rparr>"
      if "n < length ns" for n
      using ns'(3) that Node_At by (cases "n = m") (simp_all add: node_uses_def algebra_simps)
    moreover have "rfold (adjust_node d) (e # es) ns = Inr ns'"
      using ns'(1) Node_At by (simp add: adjust_node_def [of d e ns])
    ultimately show ?thesis using ns'(2) by blast
  qed
qed

subsection \<open>Properties\<close>

lemma id_unique:
  assumes "table_index k n j = Some i"
  shows "j = k OR (of_nat i AND INDEX_MASK)"
proof -
  have s: "j AND 0xF0000000 = k" "unat (j AND INDEX_MASK) = i"
    using assms by (auto simp: table_index_def Let_def split: if_splits)
  have "(0xF0000000 :: u32) OR INDEX_MASK = - 1" by (simp add: INDEX_MASK_def)
  then have "j = (j AND 0xF0000000) OR (j AND INDEX_MASK)" by (metis and.right_neutral bit.conj_disj_distrib)
  moreover have "of_nat i = j AND INDEX_MASK" using s(2) by (metis of_nat_unat ucast_id)
  ultimately show ?thesis using s(1) by (metis and.assoc and.idem)
qed

lemma getFile_index:
  "getFile p i = (case getFileIndex i of None \<Rightarrow> None | Some j \<Rightarrow> files p ! j)"
proof (cases "getFileIndex i")
  case (Some j)
  then have t: "table_index FL 10 i = Some j" by (simp add: getFileIndex_def table_sizes)
  have "j < 10" using table_index_bound [OF t] .
  moreover have "i = FL OR (of_nat j AND INDEX_MASK)" using id_unique [OF t] .
  ultimately have "i = of_nat j" "unat (of_nat j :: u32) = j"
    using small_cases [of j] by (auto simp: id_kinds)
  then show ?thesis using Some by (simp add: getFile_def)
qed (simp add: getFile_def)

text \<open>
  \<^bold>\<open>C20.\<close> New semaphores (\<^verbatim>\<open>Process::newSemaphore\<close>, \<^verbatim>\<open>getSemaphore\<close>). If the table has an empty slot, one
  semaphore with the requested initial count is added to the kernel's objects, all of which stay as they were;
  the returned id named nothing before and names that semaphore afterwards, every other id leads to the
  semaphore it led to before, nothing else of the process (files, children, mappings) changes, and the
  tables stay well formed. If the table is full, -1 is returned and nothing changes.
\<close>

theorem newSemaphore_getSemaphore:
  assumes "proc_wf p"
  shows "case newSemaphore k p init of (k', p', i) \<Rightarrow>
    (if None \<in> set (sems p) then
       k' = k\<lparr>sem_objs := sem_objs k @ [semaphore_new init]\<rparr> \<and> p' = p\<lparr>sems := sems p'\<rparr> \<and> proc_wf p' \<and>
       getSemaphore p i = None \<and> getSemaphore p' i = Some (length (sem_objs k)) \<and>
       (\<forall>j. j = i \<or> getSemaphore p' j = getSemaphore p j)
     else k' = k \<and> p' = p \<and> i = - 1)"
proof (cases "None \<in> set (sems p)")
  case True
  obtain i where i: "i < 10" "sems p ! i = None" "newSemaphore k p init =
       (k\<lparr>sem_objs := sem_objs k @ [semaphore_new init]\<rparr>,
        p\<lparr>sems := (sems p)[i := Some (length (sem_objs k))]\<rparr>, SEM OR (of_nat i AND INDEX_MASK))"
    by (rule newSemaphore_slot [OF assms True]) blast
  let ?p = "p\<lparr>sems := (sems p)[i := Some (length (sem_objs k))]\<rparr>" and ?id = "SEM OR (of_nat i AND INDEX_MASK)"
  have len: "length (sems p) = 10" using assms by (simp add: proc_wf_def table_sizes)
  have "getSemaphore ?p ?id = Some (length (sem_objs k))" "getSemaphore p ?id = None"
    using i(1,2) len by (simp_all add: getSemaphore_index getIndex_simps)
  moreover have "j = ?id \<or> getSemaphore ?p j = getSemaphore p j" for j
  proof (cases "getSemaphoreIndex j")
    case (Some x)
    then have "j = ?id \<or> x \<noteq> i" using id_unique [of SEM NSEM j x] by (auto simp: getSemaphoreIndex_def)
    then show ?thesis using Some by (auto simp: getSemaphore_index)
  qed (simp add: getSemaphore_index)
  moreover have "proc_wf ?p" using assms by (simp add: proc_wf_def)
  ultimately show ?thesis using i(3) True by simp
next
  case False
  then have "first_null 0 (sems p) = None" by (simp add: first_null_None)
  then show ?thesis using False by (simp add: newSemaphore_def)
qed

definition boot_objects :: kobjects where
  "boot_objects = \<lparr>sem_objs = [], future_objs = [], flag_objs = [], file_objs = [], node_objs = [], node_list = []\<rparr>"

definition boot_process :: process where
  "boot_process = snd (process_new True 0x100000 boot_objects)"

lemma boot_process_wf: "proc_wf boot_process"
  by (simp add: boot_process_def proc_wf_new)

lemma boot_process_sems: "None \<in> set (sems boot_process)"
  by (simp add: boot_process_def process_new_def Let_def NSEM_def)

theorem newSemaphore_getSemaphore_witness:
  "\<exists>p' i. newSemaphore boot_objects boot_process 3 = (boot_objects\<lparr>sem_objs := [semaphore_new 3]\<rparr>, p', i) \<and>
     p' = boot_process\<lparr>sems := sems p'\<rparr> \<and> getSemaphore boot_process i = None \<and> getSemaphore p' i = Some 0 \<and>
     (\<forall>j. j = i \<or> getSemaphore p' j = getSemaphore boot_process j)"
  using newSemaphore_getSemaphore [OF boot_process_wf, of boot_objects 3] boot_process_sems
  by (cases "newSemaphore boot_objects boot_process 3") (auto simp: boot_objects_def)

text \<open>What each kind of id does under \<^verbatim>\<open>close\<close>.\<close>

lemma close_rejects:
  assumes "getSemaphore p i = None" "getFile p i = None" "\<And>j. getChildIndex i = Some j \<Longrightarrow> children p ! j = None"
  shows "close p i = (p, - 1)"
  using assms by (auto simp: close_def getSemaphore_index getFile_index split: option.splits)

lemma close_semaphore:
  assumes "getSemaphoreIndex i = Some j" "sems p ! j = Some s"
  shows "close p i = (p\<lparr>sems := (sems p)[j := None]\<rparr>, 0)"
  using assms by (simp add: close_def)

lemma close_child:
  assumes "getChildIndex i = Some j" "children p ! j = Some s"
  shows "close p i = (p\<lparr>children := (children p)[j := None]\<rparr>, 0)"
  using assms index_kinds_disjoint(2) [of i] by (simp add: close_def)

lemma close_file:
  assumes "getFileIndex i = Some j" "files p ! j = Some s"
  shows "close p i = (p\<lparr>files := (files p)[j := None]\<rparr>, 0)"
  using assms index_kinds_disjoint [of i] by (auto simp: close_def split: option.splits)

lemma index_bounds:
  "getSemaphoreIndex i = Some j \<Longrightarrow> j < NSEM" "getChildIndex i = Some j \<Longrightarrow> j < NCHILD"
  "getFileIndex i = Some j \<Longrightarrow> j < NFILE"
  by (simp_all add: getSemaphoreIndex_def getChildIndex_def getFileIndex_def table_index_bound)

text \<open>
  \<^bold>\<open>C21.\<close> Closing ids (\<^verbatim>\<open>Process::close\<close>). \<^verbatim>\<open>close\<close> either rejects the id with -1 and changes nothing, which
  happens exactly when it names no semaphore, child or file, or it returns 0, after which the id names
  no semaphore and no file, a second \<^verbatim>\<open>close\<close> of it is rejected, and the tables are well formed.
\<close>

theorem close_contract:
  assumes "proc_wf p"
  shows "if getSemaphore p i = None \<and> getFile p i = None \<and> (\<forall>j. getChildIndex i = Some j \<longrightarrow> children p ! j = None)
    then close p i = (p, - 1)
    else \<exists>p'. close p i = (p', 0) \<and> proc_wf p' \<and> close p' i = (p', - 1) \<and>
      getSemaphore p' i = None \<and> getFile p' i = None"
proof (cases "getSemaphore p i = None \<and> getFile p i = None \<and> (\<forall>j. getChildIndex i = Some j \<longrightarrow> children p ! j = None)")
  case True
  then show ?thesis by (auto intro: close_rejects)
next
  case False
  then consider
    (s) j x where "getSemaphoreIndex i = Some j" "sems p ! j = Some x"
    | (c) j x where "getChildIndex i = Some j" "children p ! j = Some x"
    | (f) j x where "getFileIndex i = Some j" "files p ! j = Some x"
    by (auto simp: getSemaphore_index getFile_index split: option.splits)
  then have "\<exists>p'. close p i = (p', 0) \<and> getSemaphore p' i = None \<and> getFile p' i = None \<and>
      (\<forall>j. getChildIndex i = Some j \<longrightarrow> children p' ! j = None)"
  proof cases
    case s
    then show ?thesis using assms index_kinds_disjoint(1) [of i] index_bounds(1) [OF s(1)]
      by (simp add: close_semaphore getSemaphore_index getFile_index proc_wf_def)
  next
    case c
    then show ?thesis using assms index_kinds_disjoint(2) [of i] index_bounds(2) [OF c(1)]
      by (simp add: close_child getSemaphore_index getFile_index proc_wf_def)
  next
    case f
    then have "getSemaphoreIndex i = None" "getChildIndex i = None"
      using index_kinds_disjoint [of i] by (cases "getSemaphoreIndex i"; cases "getChildIndex i"; simp)+
    then show ?thesis using assms f index_bounds(3) [OF f(1)]
      by (simp add: close_file getSemaphore_index getFile_index proc_wf_def)
  qed
  then obtain p' where p': "close p i = (p', 0)" "getSemaphore p' i = None" "getFile p' i = None"
    "\<And>j. getChildIndex i = Some j \<Longrightarrow> children p' ! j = None" by blast
  have "proc_wf p'" using close_preserves_wf [OF assms, of i] p'(1) by simp
  then show ?thesis unfolding if_not_P [OF False] using p'(1-3) close_rejects [OF p'(2-4)] by blast
qed

theorem close_contract_witness:
  "\<exists>p'. close boot_process 1 = (p', 0) \<and> proc_wf p' \<and> close p' 1 = (p', - 1) \<and>
     getSemaphore p' 1 = None \<and> getFile p' 1 = None"
proof -
  have "getFile boot_process 1 = Some 0"
    by (simp add: getFile_slot boot_process_def process_new_def boot_objects_def Let_def NFILE_def)
  then show ?thesis using close_contract [OF boot_process_wf, of 1] by simp
qed

text \<open>
  Dropping mappings of a dying process (\<^verbatim>\<open>Process::decrementFiles\<close>). When the node pointer of every
  mapping was set, the use count of every node falls by the number of the process's mappings that
  point to it, modulo the word size, and nothing else in the node list changes.
\<close>

theorem decrementFiles_counts:
  assumes "\<forall>e \<in> set (entry_list p). vm_node e \<noteq> Uninit"
    "\<forall>e \<in> set (entry_list p). \<forall>n. vm_node e = Node_At n \<longrightarrow> n < length (node_objs k)"
  shows "\<exists>ns. decrementFiles k p = Inr (k\<lparr>node_objs := ns\<rparr>) \<and> length ns = length (node_objs k) \<and>
    (\<forall>n < length ns. node_file (ns ! n) = node_file (node_objs k ! n) \<and> node_pa (ns ! n) = node_pa (node_objs k ! n) \<and>
       num_processes (ns ! n) = num_processes (node_objs k ! n) - of_nat (node_uses n (entry_list p)))"
proof -
  obtain ns where "rfold (adjust_node (- 1)) (entry_list p) (node_objs k) = Inr ns" "length ns = length (node_objs k)"
    "\<forall>n < length (node_objs k). ns ! n = (node_objs k ! n)\<lparr>num_processes :=
       num_processes (node_objs k ! n) + of_nat (node_uses n (entry_list p)) * - 1\<rparr>"
    using adjust_nodes_spec [OF assms, of "- 1"] by blast
  then show ?thesis by (intro exI [of _ ns]) (simp add: decrementFiles_def)
qed

definition two_uses :: "process" where
  "two_uses = boot_process\<lparr>entry_list :=
     [\<lparr>vm_file = Some 7, vm_size = 0x1000, starting_address = 0x80000000, vm_offset = 0, vm_flags = 2, vm_prot = 0, vm_node = Node_At 0\<rparr>,
      \<lparr>vm_file = Some 7, vm_size = 0x1000, starting_address = 0x80001000, vm_offset = 0, vm_flags = 2, vm_prot = 0, vm_node = Node_At 0\<rparr>]\<rparr>"

definition one_node :: kobjects where
  "one_node = boot_objects\<lparr>node_objs := [\<lparr>node_file = 7, num_processes = 5, node_pa = 0x200000\<rparr>]\<rparr>"

theorem decrementFiles_counts_witness:
  "\<exists>ns. decrementFiles one_node two_uses = Inr (one_node\<lparr>node_objs := ns\<rparr>) \<and> length ns = 1 \<and> num_processes (ns ! 0) = 3"
proof -
  have "\<forall>e \<in> set (entry_list two_uses). vm_node e \<noteq> Uninit"
    "\<forall>e \<in> set (entry_list two_uses). \<forall>n. vm_node e = Node_At n \<longrightarrow> n < length (node_objs one_node)"
    by (simp_all add: two_uses_def one_node_def)
  from decrementFiles_counts [OF this] show ?thesis
    by (auto simp: two_uses_def one_node_def node_uses_def)
qed

end
