(* ===== verification/Mmap.thy ===== *)
theory Mmap
  imports Address_Space Process_Tables
begin

text \<open>
  \<^verbatim>\<open>mmap\<close>, \<^verbatim>\<open>munmap\<close> and the page-fault handler of \<^verbatim>\<open>kernel/vmm.cc\<close>. The mapping list of the current
  process is a list of entries, the list of shared files a list of references into the node store.
  Reading the file behind a mapping is the argument \<open>read_all\<close> (number of the i-node, offset,
  count); theory \<open>Block_IO\<close> models the method.
\<close>

subsection \<open>mmap (vmm.cc)\<close>

definition vm_end :: "vm_entry \<Rightarrow> u32" where
  "vm_end e = starting_address e + vm_size e"

text \<open>The scan keeps \<^verbatim>\<open>prev\<close> and \<^verbatim>\<open>temp\<close>, two neighbours of the list; \<open>k\<close> counts the entries up to
  \<^verbatim>\<open>prev\<close>, so the new entry goes to position \<open>k\<close>.\<close>

fun mmap_scan :: "u32 \<Rightarrow> u32 \<Rightarrow> vm_entry \<Rightarrow> vm_entry list \<Rightarrow> nat \<Rightarrow> u32 \<times> nat" where
  "mmap_scan va sz prv [] k = (va, k)"
| "mmap_scan va sz prv (tmp # es) k =
     (if va \<ge> starting_address tmp then mmap_scan va sz tmp es (Suc k)
      else if va \<ge> vm_end prv \<and> va + sz < starting_address tmp then (va, k)
      else
        let va = vm_end prv in
        if va \<ge> vm_end prv \<and> va + sz < starting_address tmp then (va, k)
        else mmap_scan va sz tmp es (Suc k))"

definition mmap :: "config \<Rightarrow> kobjects \<Rightarrow> process \<Rightarrow> u32 \<Rightarrow> u32 \<Rightarrow> u32 \<Rightarrow> u32 \<Rightarrow> u32 \<Rightarrow> u32 \<Rightarrow>
    (process \<times> u32) result" where
  "mmap cfg k p addr len prot flags fd off =
     (let va = (if addr = 0 then 0x80000000 else addr) in
      if is_special cfg va then Inr (p, 0)
      else
        let sz = frameup len;
            (va, i) = (case entry_list p of [] \<Rightarrow> (va, 0) | e # es \<Rightarrow> mmap_scan va sz e es 1)
        in if va \<noteq> addr \<and> flags AND 2 = 2 then Inr (p, 0)
           else
             rbind
               (if 0 \<le> sint fd then
                  (case getFile p fd of
                     None \<Rightarrow> Inl (Undefined_Behaviour ''getNode of a null File'')
                   | Some f \<Rightarrow> Inr (getNode (file_objs k ! f)))
                else Inr None)
               (\<lambda>file.
                  let e = \<lparr>vm_file = file, vm_size = sz, starting_address = va, vm_offset = off,
                           vm_flags = flags, vm_prot = prot, vm_node = Uninit\<rparr>
                  in Inr (p\<lparr>entry_list := take i (entry_list p) @ e # drop i (entry_list p)\<rparr>, va)))"

subsection \<open>munmap (vmm.cc)\<close>

definition vm_covers :: "u32 \<Rightarrow> vm_entry \<Rightarrow> bool" where
  "vm_covers va e \<longleftrightarrow> va \<ge> starting_address e \<and> va < vm_end e"

text \<open>The loop over the pages need not end when the end of the region is in the last page.\<close>

partial_function (option) unmap_loop :: "u32 \<Rightarrow> bool \<Rightarrow> u32 \<Rightarrow> u32 \<Rightarrow> vmm \<Rightarrow> vmm result option" where
  "unmap_loop dir physical e va s =
     (if va < e then
        (case unmap s dir va physical of
           Inl err \<Rightarrow> Some (Inl err)
         | Inr s \<Rightarrow> unmap_loop dir physical e (va + FRAME_SIZE) s)
      else Some (Inr s))"

definition drop_node_use :: "kobjects \<Rightarrow> node_ptr \<Rightarrow> (kobjects \<times> bool) result" where
  "drop_node_use k np =
     (case np of
        Node_At n \<Rightarrow>
          let c = num_processes (node_objs k ! n) - 1 in
          Inr (k\<lparr>node_objs := (node_objs k)[n := (node_objs k ! n)\<lparr>num_processes := c\<rparr>]\<rparr>, c = 0)
      | _ \<Rightarrow> Inl (Undefined_Behaviour ''num_processes of an invalid node''))"

text \<open>Taking the first node with the mapping's file number off the node list.\<close>

fun remove_file :: "kobjects \<Rightarrow> u32 \<Rightarrow> nat list \<Rightarrow> nat list" where
  "remove_file k num [] = []"
| "remove_file k num (n # ns) =
     (if node_file (node_objs k ! n) = num then ns else n # remove_file k num ns)"

definition remove_node :: "kobjects \<Rightarrow> node_ptr \<Rightarrow> kobjects result" where
  "remove_node k np =
     (case node_list k of
        [] \<Rightarrow> Inl (Undefined_Behaviour ''node_list is null'')
      | n # ns \<Rightarrow>
        (case np of
           Node_At m \<Rightarrow> Inr (k\<lparr>node_list := remove_file k (node_file (node_objs k ! m)) (n # ns)\<rparr>)
         | _ \<Rightarrow> Inl (Undefined_Behaviour ''file of an invalid node'')))"

definition munmap_entry :: "vmm \<Rightarrow> kobjects \<Rightarrow> u32 \<Rightarrow> vm_entry \<Rightarrow> (vmm \<times> kobjects) result option" where
  "munmap_entry s k dir e =
     (case (if vm_flags e AND 1 = 0 then Inr (k, True) else drop_node_use k (vm_node e)) of
        Inl err \<Rightarrow> Some (Inl err)
      | Inr (k, physical) \<Rightarrow>
          map_option (\<lambda>r. rbind r (\<lambda>s.
              if physical then rbind (remove_node k (vm_node e)) (\<lambda>k. Inr (s, k)) else Inr (s, k)))
            (unmap_loop dir physical (vm_end e) (starting_address e) s))"

fun munmap_scan :: "vmm \<Rightarrow> kobjects \<Rightarrow> u32 \<Rightarrow> u32 \<Rightarrow> vm_entry list \<Rightarrow> vm_entry list \<Rightarrow>
    (vmm \<times> kobjects \<times> vm_entry list) result option" where
  "munmap_scan s k dir addr seen [] = Some (Inr (s, k, seen))"
| "munmap_scan s k dir addr seen (e # es) =
     (if vm_covers addr e
      then map_option (\<lambda>r. rbind r (\<lambda>(s, k). Inr (s, k, seen @ es))) (munmap_entry s k dir e)
      else munmap_scan s k dir addr (seen @ [e]) es)"

definition munmap :: "config \<Rightarrow> vmm \<Rightarrow> kobjects \<Rightarrow> process \<Rightarrow> u32 \<Rightarrow> u32 \<Rightarrow>
    (vmm \<times> kobjects \<times> process \<times> u32) result option" where
  "munmap cfg s k p addr len =
     (if is_special cfg addr then Some (Inr (s, k, p, - 1))
      else map_option (\<lambda>r. rbind r (\<lambda>(s, k, es). Inr (s, k, p\<lparr>entry_list := es\<rparr>, 0)))
             (munmap_scan s k (pd p) addr [] (entry_list p)))"

subsection \<open>The page-fault handler (vmm.cc)\<close>

primrec write_bytes :: "memory \<Rightarrow> u32 \<Rightarrow> u8 list \<Rightarrow> memory" where
  "write_bytes m a [] = m"
| "write_bytes m a (b # bs) = write_bytes (m(a := b)) (a + 1) bs"

primrec zero_bytes :: "memory \<Rightarrow> u32 \<Rightarrow> nat \<Rightarrow> memory" where
  "zero_bytes m a 0 = m"
| "zero_bytes m a (Suc n) = zero_bytes (m(a := 0)) (a + 1) n"

text \<open>What \<^verbatim>\<open>read_all\<close> returns: the count (or -1) and the bytes put into the buffer.\<close>

type_synonym file_reader = "u32 \<Rightarrow> u32 \<Rightarrow> u32 \<Rightarrow> (int \<times> u8 list) result"

definition fill_page :: "file_reader \<Rightarrow> u32 \<Rightarrow> vm_entry \<Rightarrow> u32 \<Rightarrow> u32 \<Rightarrow> physmem \<Rightarrow> physmem result" where
  "fill_page read_all file e va pa s =
     (if vm_prot e AND 2 = 2 then
        rbind (read_all file (vm_offset e + va - starting_address e) FRAME_SIZE) (\<lambda>(cnt, bs).
          let m = write_bytes (mem s) pa bs;
              rd = (if cnt = - 1 then 0 else cnt)
          in Inr (s\<lparr>mem := (if cnt \<noteq> 4096 then zero_bytes m (pa + of_int rd) (nat (4096 - rd)) else m)\<rparr>))
      else Inr (s\<lparr>mem := zero_bytes (mem s) pa 4096\<rparr>))"

definition find_node :: "kobjects \<Rightarrow> u32 \<Rightarrow> nat option" where
  "find_node k num = find (\<lambda>n. node_file (node_objs k ! n) = num) (node_list k)"

definition fault_frame :: "file_reader \<Rightarrow> physmem \<Rightarrow> kobjects \<Rightarrow> vm_entry \<Rightarrow> u32 \<Rightarrow>
    (physmem \<times> kobjects \<times> vm_entry \<times> u32) result" where
  "fault_frame read_all s k e va =
     (case vm_file e of
        None \<Rightarrow> rbind (alloc_frame s) (\<lambda>(s, pa). Inr (s, k, e, pa))
      | Some file \<Rightarrow>
        if vm_flags e AND 1 = 0 then rbind (alloc_frame s) (\<lambda>(s, pa). Inr (s, k, e, pa))
        else
          (case find_node k file of
             Some n \<Rightarrow>
               let ne = node_objs k ! n in
               Inr (s, k\<lparr>node_objs := (node_objs k)[n := ne\<lparr>num_processes := num_processes ne + 1\<rparr>]\<rparr>,
                    e\<lparr>vm_node := Node_At n\<rparr>, node_pa ne)
           | None \<Rightarrow>
               rbind (alloc_frame s) (\<lambda>(s, pa).
               let n = length (node_objs k);
                   k = k\<lparr>node_objs := node_objs k @ [\<lparr>node_file = file, num_processes = 1, node_pa = pa\<rparr>],
                         node_list := node_list k @ [n]\<rparr>
               in rbind (fill_page read_all file e va pa s) (\<lambda>s. Inr (s, k, e\<lparr>vm_node := Node_At n\<rparr>, pa)))))"

datatype fault_outcome = Resumed | Killed "ptr option"

fun fault_scan :: "file_reader \<Rightarrow> physmem \<Rightarrow> kobjects \<Rightarrow> u32 \<Rightarrow> u32 \<Rightarrow> vm_entry list \<Rightarrow> vm_entry list \<Rightarrow>
    (physmem \<times> kobjects \<times> vm_entry list) result option" where
  "fault_scan read_all s k dir va seen [] = None"
| "fault_scan read_all s k dir va seen (e # es) =
     (if vm_covers va e then
        Some (rbind (fault_frame read_all s k e va) (\<lambda>(s, k, e, pa).
              rbind (user_map s dir va pa) (\<lambda>s. Inr (s, k, seen @ e # es))))
      else fault_scan read_all s k dir va (seen @ [e]) es)"

definition vmm_pageFault :: "file_reader \<Rightarrow> u32 \<Rightarrow> u32 \<Rightarrow> physmem \<Rightarrow> kobjects \<Rightarrow> process \<Rightarrow> u32 \<Rightarrow>
    (physmem \<times> kobjects \<times> process \<times> fault_outcome) result" where
  "vmm_pageFault read_all cr3 saved_cr3 s k p addr =
     assert_k (pd p = cr3) ''(uint32_t)me->process->pd == getCR3()''
     (assert_k (saved_cr3 = cr3) ''me->saveArea.cr3 == getCR3()''
       (let va = framedown addr;
            hit = (if va \<ge> 0x80000000 then fault_scan read_all s k (pd p) va [] (entry_list p) else None)
        in case hit of
             Some r \<Rightarrow> rbind r (\<lambda>(s, k, es). Inr (s, k, p\<lparr>entry_list := es\<rparr>, Resumed))
           | None \<Rightarrow> rbind (proc_exit k p 1) (\<lambda>(k, t). Inr (s, k, p, Killed t))))"

subsection \<open>Regions\<close>

text \<open>Mappings in address order that neither overlap nor wrap around.\<close>

definition vm_wf :: "vm_entry list \<Rightarrow> bool" where
  "vm_wf es \<longleftrightarrow>
     (\<forall>e \<in> set es. unat (starting_address e) + unat (vm_size e) < 2 ^ 32) \<and>
     sorted_wrt (\<lambda>a b. unat (starting_address a) + unat (vm_size a) \<le> unat (starting_address b)) es"

abbreviation vm_start :: "vm_entry \<Rightarrow> nat" where
  "vm_start e \<equiv> unat (starting_address e)"

abbreviation vm_stop :: "vm_entry \<Rightarrow> nat" where
  "vm_stop e \<equiv> unat (starting_address e) + unat (vm_size e)"

lemma vm_end_unat: "vm_stop e < 2 ^ 32 \<Longrightarrow> unat (vm_end e) = vm_stop e"
  unfolding vm_end_def by (intro unat_add_no_wrap) simp

text \<open>When the scan stops before the end of the list, it stops in a gap.\<close>

lemma mmap_scan_gap:
  assumes "mmap_scan va sz prv es k = (va', j)" "vm_wf (prv # es)"
    and "\<forall>e \<in> set es. vm_start e + unat sz < 2 ^ 32"
  shows "k \<le> j \<and> j \<le> k + length es \<and>
    (j < k + length es \<longrightarrow>
      vm_stop ((prv # es) ! (j - k)) \<le> unat va' \<and>
      unat va' + unat sz < vm_start (es ! (j - k)))"
  using assms
proof (induction es arbitrary: va prv k)
  case Nil
  then show ?case by simp
next
  case (Cons t es)
  have wf: "vm_wf (t # es)" and pt: "vm_stop prv \<le> vm_start t" and pe: "unat (vm_end prv) = vm_stop prv"
    using Cons.prems(2) by (auto simp: vm_wf_def intro: vm_end_unat)
  have nw: "unat (x + sz) = unat x + unat sz" if "unat x \<le> vm_start t" for x
    using Cons.prems(3) that by (intro unat_add_no_wrap) auto
  have skip: ?case if r: "mmap_scan va'' sz t es (Suc k) = (va', j)" for va''
  proof -
    have s: "\<forall>e \<in> set es. vm_start e + unat sz < 2 ^ 32" using Cons.prems(3) by simp
    note IH = Cons.IH [OF r wf s]
    obtain d where d: "j = k + Suc d" using IH by (metis add_Suc_right le_iff_add add_Suc)
    then show ?thesis using IH by simp
  qed
  have stop: ?case if "va' = x" "j = k" "vm_end prv \<le> x" "x + sz < starting_address t" "unat x \<le> vm_start t" for x
    using that nw [of x] pe by (simp add: word_le_nat_alt word_less_nat_alt)
  show ?case
  proof (cases "va \<ge> starting_address t")
    case True
    then show ?thesis using Cons.prems(1) skip by simp
  next
    case False
    then have lt: "unat va \<le> vm_start t" by (simp add: word_le_nat_alt)
    show ?thesis
    proof (cases "va \<ge> vm_end prv \<and> va + sz < starting_address t")
      case True
      then show ?thesis using Cons.prems(1) False stop [of va] lt by simp
    next
      case n1: False
      show ?thesis
      proof (cases "vm_end prv + sz < starting_address t")
        case True
        then show ?thesis using Cons.prems(1) False n1 stop [of "vm_end prv"] pe pt by (auto simp: Let_def)
      next
        case n2: False
        then have "mmap_scan (vm_end prv) sz t es (Suc k) = (va', j)"
          using Cons.prems(1) False n1 by (auto simp: Let_def)
        then show ?thesis by (rule skip)
      qed
    qed
  qed
qed

lemma mmap_scan_finds:
  assumes "vm_wf (prv # es)" "\<forall>e \<in> set es. vm_start e + unat sz < 2 ^ 32"
    and "i < length es" "unat va < vm_start (es ! i)" "vm_stop ((prv # es) ! i) + unat sz < vm_start (es ! i)"
  shows "snd (mmap_scan va sz prv es k) < k + length es"
  using assms
proof (induction es arbitrary: va prv k i)
  case Nil
  then show ?case by simp
next
  case (Cons t es)
  have wf: "vm_wf (t # es)" and pe: "unat (vm_end prv) = vm_stop prv" and pt: "vm_stop prv \<le> vm_start t"
    and s: "\<forall>e \<in> set es. vm_start e + unat sz < 2 ^ 32"
    using Cons.prems(1,2) by (auto simp: vm_wf_def intro: vm_end_unat)
  have nw: "unat (x + sz) = unat x + unat sz" if "unat x \<le> vm_start t" for x
    using Cons.prems(2) that by (intro unat_add_no_wrap) auto
  show ?case
  proof (cases i)
    case 0
    then have "\<not> va \<ge> starting_address t" "vm_end prv + sz < starting_address t"
      using Cons.prems(4,5) nw [of "vm_end prv"] pe by (auto simp: word_le_nat_alt word_less_nat_alt)
    then show ?thesis by (simp add: Let_def)
  next
    case (Suc j)
    have "vm_start t \<le> vm_stop ((t # es) ! j)"
    proof (cases j)
      case (Suc l)
      then have "vm_stop t \<le> vm_start (es ! l)" using wf Cons.prems(3) \<open>i = Suc j\<close> by (simp add: vm_wf_def)
      then show ?thesis using Suc by simp
    qed simp
    then have e: "unat (vm_end prv) < vm_start (es ! j)" using Cons.prems(5) Suc pe pt by simp
    have "snd (mmap_scan x sz t es (Suc k)) < Suc k + length es" if "unat x < vm_start (es ! j)" for x
      using Cons.prems Suc that by (intro Cons.IH [OF wf s, of j]) auto
    from this [of va] this [OF e] show ?thesis using Cons.prems(4) Suc by (simp add: Let_def)
  qed
qed

lemma vm_wf_insert:
  assumes "vm_wf (xs @ a # b # ys)" "vm_stop a \<le> vm_start e" "vm_stop e \<le> vm_start b"
  shows "vm_wf (xs @ a # e # b # ys)"
  using assms by (fastforce simp: vm_wf_def sorted_wrt_append)

lemma split_at: "0 < j \<Longrightarrow> j < length es \<Longrightarrow> es = take (j - 1) es @ es ! (j - 1) # es ! j # drop (Suc j) es"
  by (metis Cons_nth_drop_Suc Suc_diff_1 append_take_drop_id less_imp_diff_less)

text \<open>The mapping a request creates, once the address is chosen.\<close>

definition new_entry :: "u32 \<Rightarrow> u32 \<Rightarrow> u32 \<Rightarrow> u32 \<Rightarrow> u32 \<Rightarrow> u32 option \<Rightarrow> vm_entry" where
  "new_entry va len prot flags off file =
     \<lparr>vm_file = file, vm_size = frameup len, starting_address = va, vm_offset = off,
      vm_flags = flags, vm_prot = prot, vm_node = Uninit\<rparr>"

text \<open>The descriptor argument: negative for an anonymous mapping, or an open file.\<close>

definition mmap_file :: "kobjects \<Rightarrow> process \<Rightarrow> u32 \<Rightarrow> u32 option \<Rightarrow> bool" where
  "mmap_file k p fd file \<longleftrightarrow>
     (if 0 \<le> sint fd then \<exists>f. getFile p fd = Some f \<and> file = getNode (file_objs k ! f) else file = None)"


text \<open>
  A defect of \<^verbatim>\<open>mmap\<close>. With a single mapping in the list its position and size are never looked
  at: any requested address that is not special is granted as it is, even inside that mapping, and
  the new entry goes behind it whatever the addresses are.
\<close>

theorem mmap_ignores_single_mapping:
  assumes "entry_list p = [e]" "addr \<noteq> 0" "\<not> is_special cfg addr" "mmap_file k p fd file"
  shows "mmap cfg k p addr len prot flags fd off =
    Inr (p\<lparr>entry_list := [e, new_entry addr len prot flags off file]\<rparr>, addr)"
  using assms by (auto simp: mmap_def Let_def mmap_file_def new_entry_def split: if_splits)

subsection \<open>Unmapping a region\<close>

lemma unmap_pd_inv:
  assumes "pd_inv lo hi (phys s) dir F"
  shows "\<exists>s'. unmap s dir va False = Inr s' \<and> pd_inv lo hi (phys s') dir F \<and>
    (\<forall>x. walk (mem (phys s')) dir x = (if ppn x = ppn va then None else walk (mem (phys s)) dir x))"
proof (cases "walk (mem (phys s)) dir va")
  case None
  then have "walk (mem (phys s)) dir x = None" if "ppn x = ppn va" for x using walk_page [OF that] by simp
  then show ?thesis using unmap_not_mapped [OF None, of False] assms by (intro exI [of _ s]) auto
next
  case (Some pte)
  from assms have pre: "pm_inv lo hi (phys s) F" "pd_wf (mem (phys s)) dir" "pd_frames (mem (phys s)) dir \<inter> F = {}"
    by (simp_all add: pd_inv_def)
  obtain s' where "unmap s dir va False = Inr s'" "pm_inv lo hi (phys s') F"
    "pd_wf (mem (phys s')) dir" "pd_frames (mem (phys s')) dir = pd_frames (mem (phys s)) dir"
    "walk (mem (phys s')) dir va = None"
    "\<And>x. ppn x \<noteq> ppn va \<Longrightarrow> walk (mem (phys s')) dir x = walk (mem (phys s)) dir x"
    by (rule unmap_spec [OF pre Some, of False]) simp_all
  moreover from this have "walk (mem (phys s')) dir x = (if ppn x = ppn va then None else walk (mem (phys s)) dir x)" for x
    using walk_page [of x va "mem (phys s')" dir] by simp
  ultimately show ?thesis using pre(3) by (intro exI [of _ s']) (simp add: pd_inv_def)
qed

text \<open>The page numbers the loop of \<^verbatim>\<open>munmap\<close> visits.\<close>

definition loop_pages :: "u32 \<Rightarrow> u32 \<Rightarrow> u32 set" where
  "loop_pages va e = ppn ` {w. w < e \<and> va \<le> w \<and> (unat w - unat va) mod 4096 = 0}"

lemma loop_pages_empty: "\<not> va < e \<Longrightarrow> loop_pages va e = {}"
  by (auto simp: loop_pages_def)

lemma loop_pages_step:
  assumes "va < e" "unat e + 4096 \<le> 2 ^ 32"
  shows "loop_pages va e = insert (ppn va) (loop_pages (va + 4096) e)"
proof -
  have u: "unat (va + 4096) = unat va + 4096" using assms by (intro unat_add_no_wrap [THEN trans]) (auto simp: word_less_nat_alt)
  have key: "va \<le> w \<and> (unat w - unat va) mod 4096 = 0 \<longleftrightarrow>
      w = va \<or> va + 4096 \<le> w \<and> (unat w - unat (va + 4096)) mod 4096 = 0" for w
  proof (cases "unat va + 4096 \<le> unat w")
    case True
    then have "unat w - unat va = (unat w - unat (va + 4096)) + 4096" using u by simp
    then have "(unat w - unat va) mod 4096 = (unat w - unat (va + 4096)) mod 4096" by (simp only: mod_add_self2)
    then show ?thesis using True u by (simp add: word_le_nat_alt) force
  next
    case False
    then have "(unat w - unat va) mod 4096 = unat w - unat va" by simp
    then show ?thesis using False u by (auto simp: word_le_nat_alt word_unat_eq_iff)
  qed
  have ins: "{w. w < e \<and> (w = va \<or> Q w)} = insert va {w. w < e \<and> Q w}" for Q using assms(1) by blast
  show ?thesis unfolding loop_pages_def key ins by simp
qed

lemma unmap_loop_spec:
  assumes "pd_inv lo hi (phys s) dir F" "unat e + 4096 \<le> 2 ^ 32"
  shows "\<exists>s'. unmap_loop dir False e va s = Some (Inr s') \<and> pd_inv lo hi (phys s') dir F \<and>
    (\<forall>x. walk (mem (phys s')) dir x = (if ppn x \<in> loop_pages va e then None else walk (mem (phys s)) dir x))"
  using assms(1)
proof (induction "unat e - unat va" arbitrary: va s rule: less_induct)
  case less
  show ?case
  proof (cases "va < e")
    case False
    then show ?thesis using less.prems loop_pages_empty [OF False] by (subst unmap_loop.simps) auto
  next
    case True
    obtain s1 where s1: "unmap s dir va False = Inr s1" "pd_inv lo hi (phys s1) dir F"
      "\<forall>x. walk (mem (phys s1)) dir x = (if ppn x = ppn va then None else walk (mem (phys s)) dir x)"
      using unmap_pd_inv [OF less.prems] by blast
    have u: "unat (va + 4096) = unat va + 4096"
      using assms(2) True by (intro unat_add_no_wrap [THEN trans]) (auto simp: word_less_nat_alt)
    then have "unat e - unat (va + 4096) < unat e - unat va" using True by (simp add: word_less_nat_alt)
    from less.hyps [OF this s1(2)] obtain s' where
      "unmap_loop dir False e (va + 4096) s1 = Some (Inr s')" "pd_inv lo hi (phys s') dir F"
      "\<forall>x. walk (mem (phys s')) dir x = (if ppn x \<in> loop_pages (va + 4096) e then None else walk (mem (phys s1)) dir x)"
      by blast
    then show ?thesis
      using s1 True loop_pages_step [OF True assms(2)]
      by (subst unmap_loop.simps) (auto simp: FRAME_SIZE_eq)
  qed
qed

lemma munmap_scan_hit:
  assumes "\<forall>x \<in> set xs. \<not> vm_covers addr x" "vm_covers addr e"
  shows "munmap_scan s k dir addr seen (xs @ e # ys) =
    map_option (\<lambda>r. rbind r (\<lambda>(s, k). Inr (s, k, seen @ xs @ ys))) (munmap_entry s k dir e)"
  using assms(1) by (induction xs arbitrary: seen) (simp_all add: assms(2))

lemma munmap_scan_miss:
  "\<forall>x \<in> set es. \<not> vm_covers addr x \<Longrightarrow> munmap_scan s k dir addr seen es = Some (Inr (s, k, seen @ es))"
  by (induction es arbitrary: seen) auto

lemma loop_pages_aligned:
  assumes "aligned va" "va \<le> x" "x < e"
  shows "ppn x \<in> loop_pages va e"
proof -
  obtain q where q: "unat va = 4096 * q" by (rule aligned_obtain [OF assms(1)]) blast
  have f: "unat (framedown x) = 4096 * (unat x div 4096)"
    by (simp add: unat_framedown minus_mod_eq_mult_div)
  have "q \<le> unat x div 4096" using div_le_mono [of "unat va" "unat x" 4096] assms(2) q by (simp add: word_le_nat_alt)
  then have "unat va \<le> unat (framedown x)" "unat (framedown x) - unat va = 4096 * (unat x div 4096 - q)"
    using f q by (simp_all add: diff_mult_distrib2)
  moreover have "unat (framedown x) < unat e"
    using assms(3) by (simp add: unat_framedown word_less_nat_alt)
  ultimately have "framedown x \<in> {w. w < e \<and> va \<le> w \<and> (unat w - unat va) mod 4096 = 0}"
    by (simp add: word_le_nat_alt word_less_nat_alt)
  then have "ppn (framedown x) \<in> loop_pages va e" unfolding loop_pages_def by (rule imageI)
  then show ?thesis by (simp add: ppn_framedown)
qed


text \<open>A private mapping never gets a node, and removing one reads the node.\<close>

lemma munmap_entry_private:
  assumes "vm_flags e AND 1 = 0" "vm_node e = Uninit"
  shows "munmap_entry s k dir e \<noteq> Some (Inr r)"
  using assms by (auto simp: munmap_entry_def remove_node_def split: option.splits list.splits)

text \<open>
  A defect of \<^verbatim>\<open>munmap\<close>. The constructor of \<^verbatim>\<open>VMEntry\<close> does not set \<^verbatim>\<open>node\<close>, and only a fault on
  a shared file sets it later. Removing a private mapping reaches the code that reads
  \<^verbatim>\<open>vm_entry->node->file\<close> (or the first node when the node list is empty), so the call never
  returns normally.
\<close>

theorem munmap_private_undefined:
  assumes "entry_list p = xs @ e # ys" "\<forall>x \<in> set xs. \<not> vm_covers addr x" "vm_covers addr e"
    and "\<not> is_special cfg addr" "vm_flags e AND 1 = 0" "vm_node e = Uninit"
  shows "munmap cfg s k p addr len \<noteq> Some (Inr r)"
  using assms munmap_entry_private [OF assms(5,6), of s k "pd p"]
  by (auto simp: munmap_def munmap_scan_hit)

lemma munmap_miss:
  assumes "\<not> is_special cfg addr" "\<forall>x \<in> set (entry_list p). \<not> vm_covers addr x"
  shows "munmap cfg s k p addr len = Some (Inr (s, k, p, 0))"
  using assms by (simp add: munmap_def munmap_scan_miss)

subsection \<open>Page contents\<close>

lemma write_bytes_other: "\<forall>i < length bs. x \<noteq> a + of_nat i \<Longrightarrow> write_bytes m a bs x = m x"
proof (induction bs arbitrary: m a)
  case (Cons b bs)
  have "x \<noteq> a" using Cons.prems by (auto dest: spec [of _ 0])
  moreover have "x \<noteq> a + 1 + of_nat i" if "i < length bs" for i
    using Cons.prems that by (auto dest: spec [of _ "Suc i"] simp: add.assoc)
  moreover from this have "write_bytes (m(a := b)) (a + 1) bs x = (m(a := b)) x" by (intro Cons.IH) simp
  ultimately show ?case by simp
qed simp

lemma of_nat_neq_0: "0 < i \<Longrightarrow> i < 4294967296 \<Longrightarrow> (of_nat i :: u32) \<noteq> 0"
  using unat_of_nat_u32 [of i] by (metis less_irrefl unat_0)

lemma write_bytes_at:
  "i < length bs \<Longrightarrow> length bs \<le> 4096 \<Longrightarrow> write_bytes m a bs (a + of_nat i) = bs ! i"
proof (induction bs arbitrary: m a i)
  case (Cons b bs)
  show ?case
  proof (cases i)
    case 0
    have "a \<noteq> a + 1 + of_nat j" if "j < length bs" for j
      using of_nat_neq_0 [of "Suc j"] that Cons.prems(2) by (auto simp: add.assoc)
    then show ?thesis using 0 write_bytes_other [of bs a "a + 1"] by simp
  next
    case (Suc j)
    then have "write_bytes (m(a := b)) (a + 1) bs (a + 1 + of_nat j) = bs ! j"
      using Cons.prems by (intro Cons.IH) auto
    then show ?thesis using Suc by (simp add: add.assoc)
  qed
qed simp

lemma zero_bytes_write: "zero_bytes m a n = write_bytes m a (replicate n 0)"
  by (induction n arbitrary: m a) auto

lemma write_bytes_append:
  "write_bytes m a (xs @ ys) = write_bytes (write_bytes m a xs) (a + of_nat (length xs)) ys"
  by (induction xs arbitrary: m a) (auto simp: add.assoc add.commute)

text \<open>The bytes of one frame.\<close>

definition frame_bytes :: "memory \<Rightarrow> u32 \<Rightarrow> u8 list" where
  "frame_bytes m p = map (\<lambda>i. m (p + of_nat i)) [0..<4096]"

definition page_of :: "u8 list \<Rightarrow> u8 list" where
  "page_of bs = bs @ replicate (4096 - length bs) 0"

lemma frame_bytes_write:
  assumes "length bs = 4096"
  shows "frame_bytes (write_bytes m p bs) p = bs"
  using assms by (intro nth_equalityI) (auto simp: frame_bytes_def write_bytes_at)

lemma write_bytes_same_except:
  assumes "aligned p" "length bs \<le> 4096"
  shows "same_except {p} m (write_bytes m p bs)"
  unfolding same_except_def
proof (intro allI impI)
  fix a assume a: "frame_mask a \<notin> {p}"
  have "a \<noteq> p + of_nat i" if "i < length bs" for i
  proof
    assume "a = p + of_nat i"
    then have "in_frame p a" using in_frame_diff [OF assms(1), of a] that assms(2) by simp
    then show False using a by (simp add: in_frame_def)
  qed
  then show "write_bytes m p bs a = m a" by (intro write_bytes_other) simp
qed

lemma fill_page_spec:
  assumes pa: "aligned pa" and rd: "vm_prot e AND 2 = 2 \<Longrightarrow>
      read_all file (vm_offset e + va - starting_address e) FRAME_SIZE = Inr (cnt, bs) \<and>
      (cnt = int (length bs) \<or> cnt = - 1 \<and> bs = []) \<and> length bs \<le> 4096"
  shows "\<exists>m. fill_page read_all file e va pa s = Inr (s\<lparr>mem := m\<rparr>) \<and> same_except {pa} (mem s) m \<and>
    frame_bytes m pa = (if vm_prot e AND 2 = 2 then page_of bs else replicate 4096 0)"
proof (cases "vm_prot e AND 2 = 2")
  case False
  then show ?thesis
    using write_bytes_same_except [OF pa, of "replicate 4096 0"] frame_bytes_write [of "replicate 4096 0"]
    by (intro exI [of _ "write_bytes (mem s) pa (replicate 4096 0)"]) (simp add: fill_page_def zero_bytes_write)
next
  case True
  note r = rd [OF True]
  let ?m = "write_bytes (mem s) pa (page_of bs)"
  have len: "length (page_of bs) = 4096" using r by (simp add: page_of_def)
  have "fill_page read_all file e va pa s = Inr (s\<lparr>mem := ?m\<rparr>)"
    using True r
    by (auto simp: fill_page_def Let_def page_of_def write_bytes_append zero_bytes_write nat_diff_distrib)
  then show ?thesis
    using True len write_bytes_same_except [OF pa, of "page_of bs"] frame_bytes_write [OF len]
    by (intro exI [of _ ?m]) simp
qed

subsection \<open>Page faults\<close>

lemma alloc_for_fault:
  assumes inv: "pd_inv lo hi s dir F" and two: "2 \<le> card F"
  obtains s1 pa where "alloc_frame s = Inr (s1, pa)" "pa \<in> F" "pd_inv lo hi s1 dir (F - {pa})" "F - {pa} \<noteq> {}"
    "aligned pa" "pa \<notin> pd_frames (mem s1) dir" "zero_frame (mem s1) pa" "same_except {pa} (mem s) (mem s1)"
    "\<And>x. walk (mem s1) dir x = walk (mem s) dir x"
proof -
  have pm: "pm_inv lo hi s F" and wf: "pd_wf (mem s) dir" and disj: "pd_frames (mem s) dir \<inter> F = {}"
    using inv by (simp_all add: pd_inv_def)
  have "F \<noteq> {}" using two by auto
  then obtain s1 pa where a: "alloc_frame s = Inr (s1, pa)" using pm.alloc_succeeds [OF pm] by blast
  note f = pm.alloc_free [OF pm a] pm.alloc_mem [OF pm a]
  have al: "aligned pa" "aligned dir" using pm.pool_frame [OF pm] pm.free_in_pool [OF pm] f wf by (auto simp: pd_wf_def)
  have nin: "pa \<notin> pd_frames (mem s) dir" using disj f by auto
  then have ne: "dir \<notin> {pa}" using pd_frames_self by blast
  note fr = pd_wf_frame [OF f(2) [THEN conjunct2] ne]
  have "pd_wf (mem s1) dir" "pd_frames (mem s1) dir = pd_frames (mem s) dir" using fr wf al by simp_all
  moreover have "F - {pa} \<noteq> {}"
  proof
    assume "F - {pa} = {}"
    then have "card F \<le> card {pa}" by (intro card_mono) auto
    then show False using two by simp
  qed
  moreover have "walk (mem s1) dir x = walk (mem s) dir x" for x
    using walk_frame [OF f(2) [THEN conjunct2] al(2)] nin by simp
  ultimately show ?thesis using that [OF a] f al nin disj by (auto simp: pd_inv_def)
qed

lemma install_frame:
  assumes inv: "pd_inv lo hi s dir F" and free: "F \<noteq> {}" and pa: "pa \<notin> F" "pa \<notin> pd_frames (mem s) dir"
  obtains s' F' where "user_map s dir va pa = Inr s'" "F' \<subseteq> F" "pd_inv lo hi s' dir F'"
    "\<And>x. walk (mem s') dir x = (if ppn x = ppn va then Some (pa OR 7) else walk (mem s) dir x)"
    "\<And>a. frame_mask a = pa \<Longrightarrow> mem s' a = mem s a"
    "pd_frames (mem s') dir = pd_frames (mem s) dir \<union> (F - F')" "same_except (pd_frames (mem s') dir) (mem s) (mem s')"
    "card F \<le> Suc (card F')"
proof -
  have pre: "pm_inv lo hi s F" "pd_wf (mem s) dir" "pd_frames (mem s) dir \<inter> F = {}"
    using inv by (simp_all add: pd_inv_def)
  obtain s' where ok: "user_map s dir va pa = Inr s'"
    using map_with_succeeds [OF pre(1), of dir va 7 pa] free by (auto simp: user_map_def)
  have ok7: "map_with 7 s dir va pa = Inr s'" using ok by (simp add: user_map_def)
  obtain F' where F': "F' \<subseteq> F" "pm_inv lo hi s' F'" "pd_wf (mem s') dir"
    "pd_frames (mem s') dir = pd_frames (mem s) dir \<union> (F - F')"
    "same_except (pd_frames (mem s') dir) (mem s) (mem s')" "walk (mem s') dir va = Some (pa OR 7)"
    "\<And>x. ppn x \<noteq> ppn va \<Longrightarrow> walk (mem s') dir x = walk (mem s) dir x" "card (F - F') \<le> 1"
    by (rule map_with_spec [OF pre ok7]) auto
  have "card F \<le> Suc (card F')" using F'(1,8) card_Diff_subset [of F' F] by simp
  note extra = F'(4,5) this
  have "pd_inv lo hi s' dir F'" using F'(1-4) pre(3) by (auto simp: pd_inv_def)
  moreover have "walk (mem s') dir x = (if ppn x = ppn va then Some (pa OR 7) else walk (mem s) dir x)" for x
    using F'(6,7) walk_page [of x va "mem s'" dir] by simp
  moreover have "mem s' a = mem s a" if "frame_mask a = pa" for a
    using F'(4,5) pa that by (auto simp: same_except_def)
  ultimately show ?thesis using that [OF ok F'(1)] extra by blast
qed

lemma fault_scan_hit:
  assumes "\<forall>x \<in> set xs. \<not> vm_covers va x" "vm_covers va e"
  shows "fault_scan read_all s k dir va seen (xs @ e # ys) =
    Some (rbind (fault_frame read_all s k e va) (\<lambda>(s, k, e, pa).
          rbind (user_map s dir va pa) (\<lambda>s. Inr (s, k, seen @ xs @ e # ys))))"
  using assms(1) by (induction xs arbitrary: seen) (simp_all add: assms(2))

lemma fault_scan_miss:
  "\<forall>x \<in> set es. \<not> vm_covers va x \<Longrightarrow> fault_scan read_all s k dir va seen es = None"
  by (induction es arbitrary: seen) auto

lemma pageFault_hit:
  assumes "pd p = cr3" "saved = cr3" "framedown addr \<ge> 0x80000000" "entry_list p = xs @ e # ys"
    "\<forall>x \<in> set xs. \<not> vm_covers (framedown addr) x" "vm_covers (framedown addr) e"
    "fault_frame read_all s k e (framedown addr) = Inr (s1, k1, e1, pa)"
    "user_map s1 (pd p) (framedown addr) pa = Inr s2"
  shows "vmm_pageFault read_all cr3 saved s k p addr = Inr (s2, k1, p\<lparr>entry_list := xs @ e1 # ys\<rparr>, Resumed)"
  using assms by (simp add: vmm_pageFault_def Let_def fault_scan_hit)

lemma frame_in: "aligned pa \<Longrightarrow> i < 4096 \<Longrightarrow> frame_mask (pa + of_nat i) = pa"
  using in_frame_diff [of pa "pa + of_nat i"] by (simp add: in_frame_def)

lemma frame_bytes_cong:
  "aligned pa \<Longrightarrow> (\<And>a. frame_mask a = pa \<Longrightarrow> m' a = m a) \<Longrightarrow> frame_bytes m' pa = frame_bytes m pa"
  using frame_in by (simp add: frame_bytes_def)

lemma frame_bytes_zero: "aligned pa \<Longrightarrow> zero_frame m pa \<Longrightarrow> frame_bytes m pa = replicate 4096 0"
  using frame_in by (intro nth_equalityI) (auto simp: frame_bytes_def zero_frame_def in_frame_def)

lemma anonymous_fault:
  assumes inv: "pd_inv lo hi s (pd p) F" and two: "2 \<le> card F"
    and cr3: "pd p = cr3" "saved = cr3" and va: "framedown addr \<ge> 0x80000000"
    and es: "entry_list p = xs @ e # ys" "\<forall>x \<in> set xs. \<not> vm_covers (framedown addr) x"
      "vm_covers (framedown addr) e"
    and priv: "vm_file e = None \<or> vm_flags e AND 1 = 0"
  obtains s' pa F' where "vmm_pageFault read_all cr3 saved s k p addr = Inr (s', k, p, Resumed)"
    "pa \<in> F" "F' \<subseteq> F - {pa}" "pd_inv lo hi s' (pd p) F'" "aligned pa" "zero_frame (mem s') pa"
    "\<And>x. walk (mem s') (pd p) x = (if ppn x = ppn addr then Some (pa OR 7) else walk (mem s) (pd p) x)"
    "pd_frames (mem s') (pd p) \<subseteq> pd_frames (mem s) (pd p) \<union> (F - F')" "pa \<notin> pd_frames (mem s') (pd p)"
    "same_except (pd_frames (mem s) (pd p) \<union> F) (mem s) (mem s')" "card F \<le> card F' + 2"
proof -
  obtain s1 pa where a: "alloc_frame s = Inr (s1, pa)" "pa \<in> F" "pd_inv lo hi s1 (pd p) (F - {pa})" "F - {pa} \<noteq> {}"
    "aligned pa" "pa \<notin> pd_frames (mem s1) (pd p)" "zero_frame (mem s1) pa" "same_except {pa} (mem s) (mem s1)"
    "\<And>x. walk (mem s1) (pd p) x = walk (mem s) (pd p) x"
    by (rule alloc_for_fault [OF inv two]) blast
  obtain s2 F' where m: "user_map s1 (pd p) (framedown addr) pa = Inr s2" "F' \<subseteq> F - {pa}" "pd_inv lo hi s2 (pd p) F'"
    "\<And>x. walk (mem s2) (pd p) x = (if ppn x = ppn (framedown addr) then Some (pa OR 7) else walk (mem s1) (pd p) x)"
    "\<And>b. frame_mask b = pa \<Longrightarrow> mem s2 b = mem s1 b"
    "pd_frames (mem s2) (pd p) = pd_frames (mem s1) (pd p) \<union> (F - {pa} - F')"
    "same_except (pd_frames (mem s2) (pd p)) (mem s1) (mem s2)" "card (F - {pa}) \<le> Suc (card F')"
    by (rule install_frame [OF a(3,4), of pa "framedown addr"]) (use a(6) in auto)
  have "fault_frame read_all s k e (framedown addr) = Inr (s1, k, e, pa)"
    using priv a(1) by (auto simp: fault_frame_def split: option.splits)
  from pageFault_hit [OF cr3 va es this m(1)]
  have run: "vmm_pageFault read_all cr3 saved s k p addr = Inr (s2, k, p, Resumed)" using es(1) by simp
  have nd: "pd p \<notin> {pa}" "aligned (pd p)" using a(2) inv pd_frames_self by (auto simp: pd_inv_def pd_wf_def disjoint_iff)
  have fr: "pd_frames (mem s1) (pd p) = pd_frames (mem s) (pd p)" by (rule pd_wf_frame(2) [OF a(8) nd])
  have se: "same_except (pd_frames (mem s) (pd p) \<union> F) (mem s) (mem s2)"
    by (rule same_except_mono [OF same_except_trans [OF a(8) m(7)]]) (use a(2) in \<open>auto simp: m(6) fr\<close>)
  have cd: "card F \<le> card F' + 2" using m(8) a(2) by (simp add: card_Diff_singleton_if)
  show thesis
    by (rule that [OF run a(2) m(2,3) a(5)]) (use m(4-6) a(5-7,9) fr se cd in \<open>auto simp: ppn_framedown zero_frame_def in_frame_def\<close>)
qed

text \<open>
  \<^bold>\<open>C3.\<close> Anonymous and private mappings (\<^verbatim>\<open>vmm_pageFault\<close>). A fault at an address covered by such a
  mapping of the current process, with two free frames, is resolved: the page is mapped to a frame
  that was free, all 4096 bytes of it are zero, every other page translates as before, and mappings
  and kernel objects are unchanged. In particular a private mapping of a file is not filled from the
  file.
\<close>

theorem pageFault_anonymous_zero_page:
  assumes inv: "pd_inv lo hi s (pd p) F" and two: "2 \<le> card F"
    and cr3: "pd p = cr3" "saved = cr3" and va: "framedown addr \<ge> 0x80000000"
    and es: "entry_list p = xs @ e # ys" "\<forall>x \<in> set xs. \<not> vm_covers (framedown addr) x"
      "vm_covers (framedown addr) e"
    and priv: "vm_file e = None \<or> vm_flags e AND 1 = 0"
  shows "\<exists>s' pa F'. vmm_pageFault read_all cr3 saved s k p addr = Inr (s', k, p, Resumed) \<and>
    pa \<in> F \<and> F' \<subseteq> F - {pa} \<and> pd_inv lo hi s' (pd p) F' \<and> frame_bytes (mem s') pa = replicate 4096 0 \<and>
    (\<forall>x. walk (mem s') (pd p) x = (if ppn x = ppn addr then Some (pa OR 7) else walk (mem s) (pd p) x))"
proof -
  obtain s' pa F' where "vmm_pageFault read_all cr3 saved s k p addr = Inr (s', k, p, Resumed)"
    "pa \<in> F" "F' \<subseteq> F - {pa}" "pd_inv lo hi s' (pd p) F'" "aligned pa" "zero_frame (mem s') pa"
    "\<And>x. walk (mem s') (pd p) x = (if ppn x = ppn addr then Some (pa OR 7) else walk (mem s) (pd p) x)"
    by (rule anonymous_fault [OF assms]) blast
  then show ?thesis using frame_bytes_zero by blast
qed

text \<open>The first fault on a shared file reads the page; the frame becomes the file's frame.\<close>

lemma pageFault_shared_first:
  assumes inv: "pd_inv lo hi s (pd p) F" and two: "2 \<le> card F"
    and cr3: "pd p = cr3" "saved = cr3" and va: "framedown addr \<ge> 0x80000000"
    and es: "entry_list p = xs @ e # ys" "\<forall>x \<in> set xs. \<not> vm_covers (framedown addr) x"
      "vm_covers (framedown addr) e"
    and sh: "vm_file e = Some file" "vm_flags e AND 1 \<noteq> 0" "vm_prot e AND 2 = 2" "find_node k file = None"
    and rd: "read_all file (vm_offset e + framedown addr - starting_address e) FRAME_SIZE = Inr (cnt, bs)"
      "cnt = int (length bs) \<or> cnt = - 1 \<and> bs = []" "length bs \<le> 4096"
  shows "\<exists>s' k' p' pa F'. vmm_pageFault read_all cr3 saved s k p addr = Inr (s', k', p', Resumed) \<and>
    pa \<in> F \<and> F' \<subseteq> F - {pa} \<and> pd_inv lo hi s' (pd p) F' \<and> frame_bytes (mem s') pa = page_of bs \<and>
    (\<forall>x. walk (mem s') (pd p) x = (if ppn x = ppn addr then Some (pa OR 7) else walk (mem s) (pd p) x)) \<and>
    node_list k' = node_list k @ [length (node_objs k)] \<and>
    node_objs k' = node_objs k @ [\<lparr>node_file = file, num_processes = 1, node_pa = pa\<rparr>] \<and>
    p' = p\<lparr>entry_list := xs @ e\<lparr>vm_node := Node_At (length (node_objs k))\<rparr> # ys\<rparr>"
proof -
  let ?va = "framedown addr" and ?n = "length (node_objs k)"
  obtain s1 pa where a: "alloc_frame s = Inr (s1, pa)" "pa \<in> F" "pd_inv lo hi s1 (pd p) (F - {pa})" "F - {pa} \<noteq> {}"
    "aligned pa" "pa \<notin> pd_frames (mem s1) (pd p)" "same_except {pa} (mem s) (mem s1)"
    "\<And>x. walk (mem s1) (pd p) x = walk (mem s) (pd p) x"
    by (rule alloc_for_fault [OF inv two]) blast
  obtain m where m: "fill_page read_all file e ?va pa s1 = Inr (s1\<lparr>mem := m\<rparr>)" "same_except {pa} (mem s1) m"
    "frame_bytes m pa = page_of bs"
    using fill_page_spec [OF a(5), of e read_all "file" ?va cnt bs s1] rd sh(3) by auto
  let ?s1 = "s1\<lparr>mem := m\<rparr>"
  have al: "aligned (pd p)" and pm: "pm_inv lo hi s1 (F - {pa})" using a(3) by (auto simp: pd_inv_def pd_wf_def)
  have ne: "pd p \<notin> {pa}" using a(6) pd_frames_self by blast
  note fr = pd_wf_frame [OF m(2) ne]
  have inv1: "pd_inv lo hi ?s1 (pd p) (F - {pa})" and pdf: "pd_frames m (pd p) = pd_frames (mem s1) (pd p)"
    using fr al a(3) pm.write_ok [OF pm m(2)] by (simp_all add: pd_inv_def)
  have wk: "walk m (pd p) x = walk (mem s) (pd p) x" for x
    using walk_frame [OF m(2) al] a(6,8) by simp
  have nin: "pa \<notin> F - {pa}" "pa \<notin> pd_frames (mem ?s1) (pd p)" using a(6) pdf by simp_all
  obtain s2 F' where u: "user_map ?s1 (pd p) ?va pa = Inr s2" "F' \<subseteq> F - {pa}" "pd_inv lo hi s2 (pd p) F'"
    "\<And>x. walk (mem s2) (pd p) x = (if ppn x = ppn ?va then Some (pa OR 7) else walk (mem ?s1) (pd p) x)"
    "\<And>b. frame_mask b = pa \<Longrightarrow> mem s2 b = mem ?s1 b"
    by (rule install_frame [OF inv1 a(4) nin, of ?va]) blast
  let ?k = "k\<lparr>node_objs := node_objs k @ [\<lparr>node_file = file, num_processes = 1, node_pa = pa\<rparr>],
      node_list := node_list k @ [?n]\<rparr>"
  have "fault_frame read_all s k e ?va = Inr (?s1, ?k, e\<lparr>vm_node := Node_At ?n\<rparr>, pa)"
    using sh a(1) m(1) by (simp add: fault_frame_def Let_def)
  note hit = pageFault_hit [OF cr3 va es this u(1)]
  moreover have "frame_bytes (mem s2) pa = page_of bs"
    using frame_bytes_cong [OF a(5) u(5)] m(3) by simp
  moreover have "walk (mem s2) (pd p) x = (if ppn x = ppn addr then Some (pa OR 7) else walk (mem s) (pd p) x)" for x
    using u(4) wk by (simp add: ppn_framedown)
  ultimately show ?thesis
    using a(2) u(2,3) by (intro exI [of _ s2] exI [of _ ?k] exI [of _ "p\<lparr>entry_list := xs @ e\<lparr>vm_node := Node_At ?n\<rparr> # ys\<rparr>"]
        exI [of _ pa] exI [of _ F']) simp
qed

text \<open>
  A defect of the sharing scheme (\<^verbatim>\<open>vmm_pageFault\<close>). Once a file has a node, a fault on any
  page of any shared mapping of that file maps the node's single frame: neither the offset of the
  mapping nor the position of the page in it matters, and the frame's bytes are left as they are.
\<close>

theorem pageFault_ignores_offset:
  assumes inv: "pd_inv lo hi s (pd p) F" and one: "F \<noteq> {}"
    and cr3: "pd p = cr3" "saved = cr3" and va: "framedown addr \<ge> 0x80000000"
    and es: "entry_list p = xs @ e # ys" "\<forall>x \<in> set xs. \<not> vm_covers (framedown addr) x"
      "vm_covers (framedown addr) e"
    and sh: "vm_file e = Some file" "vm_flags e AND 1 \<noteq> 0" "find_node k file = Some n"
    and pa: "node_pa (node_objs k ! n) \<notin> F" "node_pa (node_objs k ! n) \<notin> pd_frames (mem s) (pd p)"
  shows "\<exists>s' k' p' F'. vmm_pageFault read_all cr3 saved s k p addr = Inr (s', k', p', Resumed) \<and>
    F' \<subseteq> F \<and> pd_inv lo hi s' (pd p) F' \<and>
    (\<forall>x. walk (mem s') (pd p) x =
      (if ppn x = ppn addr then Some (node_pa (node_objs k ! n) OR 7) else walk (mem s) (pd p) x)) \<and>
    (\<forall>a. frame_mask a = node_pa (node_objs k ! n) \<longrightarrow> mem s' a = mem s a)"
proof -
  let ?va = "framedown addr" and ?pa = "node_pa (node_objs k ! n)"
  obtain s2 F' where u: "user_map s (pd p) ?va ?pa = Inr s2" "F' \<subseteq> F" "pd_inv lo hi s2 (pd p) F'"
    "\<And>x. walk (mem s2) (pd p) x = (if ppn x = ppn ?va then Some (?pa OR 7) else walk (mem s) (pd p) x)"
    "\<And>b. frame_mask b = ?pa \<Longrightarrow> mem s2 b = mem s b"
    by (rule install_frame [OF inv one pa, of ?va]) blast
  have "\<exists>k1 e1. fault_frame read_all s k e ?va = Inr (s, k1, e1, ?pa)"
    using sh by (simp add: fault_frame_def Let_def)
  then obtain k1 e1 where "fault_frame read_all s k e ?va = Inr (s, k1, e1, ?pa)" by blast
  from pageFault_hit [OF cr3 va es this u(1)] show ?thesis
    using u(2-5) by (auto simp: ppn_framedown)
qed

text \<open>
  Faults outside every mapping (\<^verbatim>\<open>vmm_pageFault\<close>). A fault below 0x80000000 or at an address
  that no mapping covers ends the process with exit value 1 and leaves memory, page tables and the
  mapping list as they are.
\<close>

theorem pageFault_outside_kills:
  assumes "pd p = cr3" "saved = cr3" "proc_exit k p 1 = Inr (k', t)"
    and "framedown addr < 0x80000000 \<or> (\<forall>x \<in> set (entry_list p). \<not> vm_covers (framedown addr) x)"
  shows "vmm_pageFault read_all cr3 saved s k p addr = Inr (s, k', p, Killed t)"
  using assms by (auto simp: vmm_pageFault_def Let_def fault_scan_miss)

subsection \<open>Properties\<close>

definition sample_process :: process where
  "sample_process =
     \<lparr>files = replicate 10 None, sems = replicate 10 None, children = replicate 10 None,
      kill_flags = replicate 10 None, proc_output = 0, kill_flag = 0, run_time = 0, pd = 0x100000,
      entry_list = [new_entry 0x80000000 0x1000 10 1 0 None, new_entry 0xefc2d000 0x3d1000 10 1 0 None]\<rparr>"

definition sample_objects :: kobjects where
  "sample_objects =
     \<lparr>sem_objs = [], future_objs = [future_new], flag_objs = [False], file_objs = [], node_objs = [], node_list = []\<rparr>"


lemma sample_frames: "2 \<le> card (frame_pool 0x101000 0x200000)"
proof -
  have "{0x101000, 0x102000} \<subseteq> frame_pool 0x101000 0x200000" by (simp add: frame_pool_def offset_def)
  from card_mono [OF _ this] show ?thesis by simp
qed

theorem pageFault_anonymous_zero_page_witness:
  "\<exists>s' pa. vmm_pageFault (\<lambda>_ _ _. Inr (0, [])) 0x100000 0x100000 sample_space sample_objects sample_process 0x80000010 =
      Inr (s', sample_objects, sample_process, Resumed) \<and>
    frame_bytes (mem s') pa = replicate 4096 0 \<and> walk (mem s') 0x100000 0x80000010 = Some (pa OR 7)"
proof -
  let ?e = "new_entry 0x80000000 0x1000 10 1 0 None"
  have p: "pd sample_process = 0x100000" by (simp add: sample_process_def)
  have va: "framedown 0x80000010 = 0x80000000" by (simp add: framedown_def FRAME_SIZE_eq)
  have c: "vm_covers (framedown 0x80000010) ?e"
    by (simp add: va vm_covers_def vm_end_def new_entry_def frameup_def framedown_def FRAME_SIZE_eq)
  have el: "entry_list sample_process = [] @ ?e # [new_entry 0xefc2d000 0x3d1000 10 1 0 None]"
    by (simp add: sample_process_def)
  have inv: "pd_inv 0x100000 0x200000 sample_space (pd sample_process) (frame_pool 0x101000 0x200000)"
    using sample_space_pd(1) p by simp
  have "vm_file ?e = None" by (simp add: new_entry_def)
  then show ?thesis
    using pageFault_anonymous_zero_page [OF inv sample_frames p refl _ el _ c, of "\<lambda>_ _ _. Inr (0, [])" sample_objects]
      p va by auto
qed

definition sample_vmm :: vmm where
  "sample_vmm = \<lparr>phys = sample_space, tlb = (\<lambda>_. None)\<rparr>"

text \<open>A shared mapping of file 12, used by two processes, and a private one.\<close>

definition sample_shared :: vm_entry where
  "sample_shared = \<lparr>vm_file = Some 12, vm_size = 0x2000, starting_address = 0x80000000, vm_offset = 0,
     vm_flags = 1, vm_prot = 2, vm_node = Node_At 0\<rparr>"

definition sample_nodes :: kobjects where
  "sample_nodes = sample_objects\<lparr>node_objs := [\<lparr>node_file = 12, num_processes = 2, node_pa = 0x5000\<rparr>], node_list := [0]\<rparr>"

lemma sample_covers: "vm_covers 0x80001000 sample_shared" "vm_covers 0x80001000 (new_entry 0x80000000 0x2000 2 0 0 None)"
  by (simp_all add: vm_covers_def vm_end_def sample_shared_def new_entry_def frameup_def framedown_def FRAME_SIZE_eq)

lemma sample_not_special: "\<not> is_special sample_config 0x80001000"
  by (simp add: is_special_def sample_config_def)


theorem munmap_private_undefined_witness:
  "\<forall>r. munmap sample_config sample_vmm sample_nodes
     (sample_process\<lparr>entry_list := [new_entry 0x80000000 0x2000 2 0 0 None]\<rparr>) 0x80001000 0x2000 \<noteq> Some (Inr r)"
proof -
  let ?e = "new_entry 0x80000000 0x2000 2 0 0 None"
  have el: "entry_list (sample_process\<lparr>entry_list := [?e]\<rparr>) = [] @ ?e # []" by simp
  have "vm_flags ?e AND 1 = 0" "vm_node ?e = Uninit" by (simp_all add: new_entry_def)
  from munmap_private_undefined [OF el _ sample_covers(2) sample_not_special this] show ?thesis by simp
qed

theorem pageFault_ignores_offset_witness:
  "\<exists>s' k' p'. vmm_pageFault (\<lambda>_ _ _. Inr (0, [])) 0x100000 0x100000 sample_space sample_nodes
      (sample_process\<lparr>entry_list := [sample_shared]\<rparr>) 0x80001000 = Inr (s', k', p', Resumed) \<and>
    walk (mem s') 0x100000 0x80001000 = Some (0x5000 OR 7)"
proof -
  let ?p = "sample_process\<lparr>entry_list := [sample_shared]\<rparr>"
  have inv: "pd_inv 0x100000 0x200000 sample_space (pd ?p) (frame_pool 0x101000 0x200000)"
    and p: "pd ?p = 0x100000" using sample_space_pd(1) by (simp_all add: sample_process_def)
  have ne: "frame_pool 0x101000 0x200000 \<noteq> {}" using sample_frames by auto
  have va: "framedown 0x80001000 = 0x80001000" by (simp add: framedown_def FRAME_SIZE_eq)
  have el: "entry_list ?p = [] @ sample_shared # []" by simp
  have sh: "vm_file sample_shared = Some 12" "vm_flags sample_shared AND 1 \<noteq> 0" "find_node sample_nodes 12 = Some 0"
    by (simp_all add: sample_shared_def sample_nodes_def find_node_def)
  have pf: "pd_frames (mem sample_space) 0x100000 = {0x100000}"
    using sample_space_pd(2) by (simp add: pd_frames_def)
  have pa: "node_pa (node_objs sample_nodes ! 0) = 0x5000" by (simp add: sample_nodes_def)
  have "0x5000 \<notin> frame_pool 0x101000 0x200000" by (simp add: frame_pool_def)
  then show ?thesis
    using pageFault_ignores_offset [OF inv ne p refl _ el _ _ sh, of "0x80001000" "\<lambda>_ _ _. Inr (0, [])"]
      p va pa pf sample_covers(1) by auto
qed

theorem pageFault_outside_kills_witness:
  "\<exists>k' t. vmm_pageFault (\<lambda>_ _ _. Inr (0, [])) 0x100000 0x100000 sample_space sample_objects sample_process 0x1234 =
     Inr (sample_space, k', sample_process, Killed t)"
proof -
  have p: "pd sample_process = 0x100000" by (simp add: sample_process_def)
  have va: "framedown 0x1234 < 0x80000000" by (simp add: framedown_def FRAME_SIZE_eq)
  have "\<exists>k' t. proc_exit sample_objects sample_process 1 = Inr (k', t)"
    by (simp add: proc_exit_def sample_objects_def sample_process_def future_set_def future_new_def
        semaphore_new_def sem_up_def)
  then obtain k' t where "proc_exit sample_objects sample_process 1 = Inr (k', t)" by blast
  from pageFault_outside_kills [OF p refl this, of "0x1234"] va show ?thesis by blast
qed

theorem mmap_ignores_single_mapping_witness:
  "mmap sample_config sample_objects (sample_process\<lparr>entry_list := [sample_shared]\<rparr>) 0x80001000 0x1000 2 1 (- 1) 0 =
     Inr (sample_process\<lparr>entry_list := [sample_shared, new_entry 0x80001000 0x1000 2 1 0 None]\<rparr>, 0x80001000)"
proof -
  have "mmap_file sample_objects (sample_process\<lparr>entry_list := [sample_shared]\<rparr>) (- 1) None"
    by (simp add: mmap_file_def)
  from mmap_ignores_single_mapping [OF _ _ sample_not_special this, of sample_shared] show ?thesis by simp
qed

end
