(* ===== verification/Fork.thy ===== *)
theory Fork
  imports Mmap
begin

text \<open>
  \<^verbatim>\<open>Process::fork\<close> of \<^verbatim>\<open>kernel/process.cc\<close>: the child gets its own page directory, a copy of every page
  of the private half of the parent's address space, a copy of the mapping list, and the parent's
  semaphores and files. Physical memory is identity mapped in the kernel, so frames are accessed by
  their addresses.
\<close>

subsection \<open>The operation (process.cc)\<close>

definition fork_pte :: "u32 \<Rightarrow> u32 \<Rightarrow> u32 \<Rightarrow> physmem \<Rightarrow> physmem result" where
  "fork_pte parent_pt child_pt ti s =
     (let child_pte = get32 (mem s) child_pt ti in
      if present child_pte then Inr s
      else
        let parent_pte = get32 (mem s) parent_pt ti in
        if \<not> present parent_pte then Inr s
        else
          let parent_frame = frame_mask parent_pte in
          rbind (alloc_frame s) (\<lambda>(s, child_frame).
            let s = s\<lparr>mem := memcpy (mem s) child_frame parent_frame FRAME_SIZE\<rparr> in
            Inr (s\<lparr>mem := set32 (mem s) child_pt ti (child_frame OR 7)\<rparr>)))"

definition fork_pde :: "u32 \<Rightarrow> u32 \<Rightarrow> u32 \<Rightarrow> physmem \<Rightarrow> physmem result" where
  "fork_pde parent child di s =
     (let parent_pde = get32 (mem s) parent di in
      if \<not> present parent_pde then Inr s
      else
        let parent_pt = frame_mask parent_pde; child_pde = get32 (mem s) child di in
        rbind
          (if \<not> present child_pde
           then rbind (alloc_frame s) (\<lambda>(s, child_pt). Inr (s\<lparr>mem := set32 (mem s) child di (child_pt OR 7)\<rparr>, child_pt))
           else Inr (s, frame_mask child_pde))
          (\<lambda>(s, child_pt). rfold (fork_pte parent_pt child_pt) all_ptis s))"

definition fork_copy :: "u32 \<Rightarrow> u32 \<Rightarrow> physmem \<Rightarrow> physmem result" where
  "fork_copy parent child = rfold (fork_pde parent child) private_pdis"

text \<open>\<open>None\<close> as the child and the id -1 when the table of children is full.\<close>

definition fork :: "config \<Rightarrow> u32 \<Rightarrow> physmem \<Rightarrow> kobjects \<Rightarrow> process \<Rightarrow>
    (physmem \<times> kobjects \<times> process \<times> process option \<times> u32) result" where
  "fork kConfig shared s k p =
     (case first_null 0 (children p) of
        None \<Rightarrow> Inr (s, k, p, None, - 1)
      | Some index \<Rightarrow>
          rbind (make_pd kConfig shared s) (\<lambda>(s, dir).
          let (k, child) = process_new False dir k in
          rbind (fork_copy (pd p) dir s) (\<lambda>s.
          let child = child\<lparr>entry_list := entry_list p\<rparr> in
          rbind (rfold (adjust_node 1) (entry_list child) (node_objs k)) (\<lambda>ns.
          let k = k\<lparr>node_objs := ns\<rparr>;
              child = child\<lparr>sems := map2 (\<lambda>x y. if x \<noteq> None then x else y) (sems p) (sems child), files := files p\<rparr>;
              p = p\<lparr>children := (children p)[index := Some (proc_output child)],
                    kill_flags := (kill_flags p)[index := Some (kill_flag child)]\<rparr>
          in Inr (s, k, p, Some child, PROC OR of_nat index)))))"

subsection \<open>Directories built from free frames\<close>

text \<open>
  A directory \<open>dir\<close> whose private half is built from the frames \<open>F0\<close> that were free in memory \<open>m0\<close>:
  only such frames have been written, and the tables of the private half are among them.
\<close>

definition built :: "u32 \<Rightarrow> u32 \<Rightarrow> memory \<Rightarrow> u32 set \<Rightarrow> u32 \<Rightarrow> physmem \<Rightarrow> u32 set \<Rightarrow> bool" where
  "built lo hi m0 F0 dir s F \<longleftrightarrow>
     pd_inv lo hi s dir F \<and> F \<subseteq> F0 \<and> dir \<in> F0 \<and> same_except (F0 - F) m0 (mem s) \<and>
     (\<forall>i \<in> set private_pdis. pt_index (mem s) dir i \<longrightarrow> pt_of (mem s) dir i \<in> F0)"

lemma builtD:
  assumes "built lo hi m0 F0 dir s F"
  shows "pm_inv lo hi s F" "pd_wf (mem s) dir" "pd_frames (mem s) dir \<inter> F = {}" "F \<subseteq> F0" "dir \<in> F0" "dir \<notin> F" "aligned dir"
    "same_except (F0 - F) m0 (mem s)"
    "i \<in> set private_pdis \<Longrightarrow> pt_index (mem s) dir i \<Longrightarrow> pt_of (mem s) dir i \<in> F0"
  using assms by (auto simp: built_def pd_inv_def pd_wf_def disjoint_iff)

lemma built_step:
  assumes "built lo hi m0 F0 dir s F" "same_except G (mem s) (mem s')" "G \<subseteq> F0 - F'" "F' \<subseteq> F" "pd_inv lo hi s' dir F'"
    "\<And>i. i \<in> set private_pdis \<Longrightarrow> pt_index (mem s') dir i \<Longrightarrow> pt_of (mem s') dir i \<in> F0"
  shows "built lo hi m0 F0 dir s' F'"
proof -
  have "same_except (F0 - F \<union> G) m0 (mem s')" by (rule same_except_trans [OF builtD(8) [OF assms(1)] assms(2)])
  then have "same_except (F0 - F') m0 (mem s')" by (rule same_except_mono) (use assms(3,4) in auto)
  then show ?thesis using assms unfolding built_def by blast
qed

text \<open>Writing frames that are in use but not part of the directory.\<close>

lemma built_write:
  assumes b: "built lo hi m0 F0 dir s F" and w: "same_except {f} (mem s) m" and f: "f \<in> F0 - F" "f \<notin> pd_frames (mem s) dir"
  shows "built lo hi m0 F0 dir (s\<lparr>mem := m\<rparr>) F" "walk m dir x = walk (mem s) dir x"
    "pd_frames m dir = pd_frames (mem s) dir" "pt_index m dir i = pt_index (mem s) dir i"
    "unat i < 1024 \<Longrightarrow> pt_of m dir i = pt_of (mem s) dir i"
proof -
  note d = builtD [OF b]
  have nd: "dir \<notin> {f}" using f(2) by auto
  note e = pd_entries_frame [OF w d(7) nd] and fr = pd_wf_frame [OF w nd]
  show "pd_frames m dir = pd_frames (mem s) dir" "pt_index m dir i = pt_index (mem s) dir i"
    "unat i < 1024 \<Longrightarrow> pt_of m dir i = pt_of (mem s) dir i"
    using fr(2) [OF d(7)] e by simp_all
  show "walk m dir x = walk (mem s) dir x" by (rule walk_frame [OF w d(7)]) (use f in auto)
  have "pm_inv lo hi (s\<lparr>mem := m\<rparr>) F" using pm.write_ok [OF d(1) w] f by auto
  then have "pd_inv lo hi (s\<lparr>mem := m\<rparr>) dir F" using fr d by (simp add: pd_inv_def)
  then show "built lo hi m0 F0 dir (s\<lparr>mem := m\<rparr>) F"
  proof (rule built_step [OF b, rotated -2])
    fix i assume "i \<in> set private_pdis" "pt_index (mem (s\<lparr>mem := m\<rparr>)) dir i"
    then show "pt_of (mem (s\<lparr>mem := m\<rparr>)) dir i \<in> F0" using e(2,3) d(9) by (simp add: set_private_pdis)
  qed (use w f in auto)
qed

lemma built_alloc:
  assumes b: "built lo hi m0 F0 dir s F" and ne: "F \<noteq> {}"
  obtains s' f where "alloc_frame s = Inr (s', f)" "f \<in> F" "built lo hi m0 F0 dir s' (F - {f})" "aligned f"
    "f \<notin> pd_frames (mem s') dir" "zero_frame (mem s') f" "same_except {f} (mem s) (mem s')"
    "\<And>x. walk (mem s') dir x = walk (mem s) dir x" "pd_frames (mem s') dir = pd_frames (mem s) dir"
    "\<And>i. pt_index (mem s') dir i = pt_index (mem s) dir i"
    "\<And>i. unat i < 1024 \<Longrightarrow> pt_of (mem s') dir i = pt_of (mem s) dir i"
proof -
  note d = builtD [OF b]
  obtain s' f where a: "alloc_frame s = Inr (s', f)" using pm.alloc_succeeds [OF d(1) ne] by blast
  have f: "f \<in> F" "pm_inv lo hi s' (F - {f})" "zero_frame (mem s') f" "same_except {f} (mem s) (mem s')" "aligned f"
    using pm.alloc_free [OF d(1) a] pm.alloc_mem [OF d(1) a] pm.free_in_pool [OF d(1)] frame_pool_aligned by auto
  have nin: "f \<notin> pd_frames (mem s) dir" using d(3) f(1) by auto
  then have nd: "dir \<notin> {f}" by auto
  note e = pd_entries_frame [OF f(4) d(7) nd] and fr = pd_wf_frame [OF f(4) nd]
  have "pd_inv lo hi s' dir (F - {f})" using fr d f(2) by (auto simp: pd_inv_def)
  then have "built lo hi m0 F0 dir s' (F - {f})"
  proof (rule built_step [OF b f(4), rotated -2])
    fix i assume "i \<in> set private_pdis" "pt_index (mem s') dir i"
    then show "pt_of (mem s') dir i \<in> F0" using e(2,3) d(9) by (simp add: set_private_pdis)
  qed (use f d(4) in auto)
  then show thesis
    using that [OF a f(1) _ f(5) _ f(3,4)] walk_frame [OF f(4) d(7)] nin fr(2) [OF d(7)] e(2,3) by simp
qed

text \<open>Installing a table and an entry.\<close>

lemma built_pde:
  assumes b: "built lo hi m0 F0 dir s F" and i: "i \<in> set private_pdis" "\<not> present (pde_of (mem s) dir i)"
    and f: "aligned f" "f \<notin> pd_frames (mem s) dir" "zero_frame (mem s) f" "f \<in> F0 - F"
  defines "m' \<equiv> set32 (mem s) dir i (f OR 7)"
  shows "built lo hi m0 F0 dir (s\<lparr>mem := m'\<rparr>) F" "walk m' dir x = walk (mem s) dir x" "pt_index m' dir i" "pt_of m' dir i = f"
    "pd_frames m' dir = insert f (pd_frames (mem s) dir)" "same_except {dir} (mem s) m'"
proof -
  note d = builtD [OF b]
  have ib: "unat i < 1024" using i(1) by (simp add: set_private_pdis)
  note w = set_pde_walk [OF d(2) ib i(2) f(1-3), folded m'_def]
  show "walk m' dir x = walk (mem s) dir x" "pt_index m' dir i" "pt_of m' dir i = f"
    "pd_frames m' dir = insert f (pd_frames (mem s) dir)" "same_except {dir} (mem s) m'" by (rule w)+
  have "pm_inv lo hi (s\<lparr>mem := m'\<rparr>) F" using pm.write_ok [OF d(1) w(6)] d(6) by auto
  then have "pd_inv lo hi (s\<lparr>mem := m'\<rparr>) dir F" using w(2,3) d(3) f(4) by (auto simp: pd_inv_def)
  then show "built lo hi m0 F0 dir (s\<lparr>mem := m'\<rparr>) F"
  proof (rule built_step [OF b, rotated -2])
    fix j assume j: "j \<in> set private_pdis" "pt_index (mem (s\<lparr>mem := m'\<rparr>)) dir j"
    have "pt_of m' dir j = pt_of (mem s) dir j \<and> pt_index (mem s) dir j" if "j \<noteq> i"
      using that j d(7) ib by (simp add: m'_def pt_of_def pt_index_def set_private_pdis get_set_same_frame)
    then show "pt_of (mem (s\<lparr>mem := m'\<rparr>)) dir j \<in> F0" using d(9) [OF j(1)] w(5) f(4) by (cases "j = i") auto
  qed (use w(6) d(5,6) in auto)
qed

lemma built_pte:
  fixes e :: u32
  assumes b: "built lo hi m0 F0 dir s F" and i: "pdi va \<in> set private_pdis" "pt_index (mem s) dir (pdi va)"
  defines "m' \<equiv> set32 (mem s) (pt_of (mem s) dir (pdi va)) (pti va) e"
  shows "built lo hi m0 F0 dir (s\<lparr>mem := m'\<rparr>) F" "walk m' dir va = (if present e then Some e else None)"
    "ppn x \<noteq> ppn va \<Longrightarrow> walk m' dir x = walk (mem s) dir x" "pd_frames m' dir = pd_frames (mem s) dir"
    "same_except {pt_of (mem s) dir (pdi va)} (mem s) m'"
    "pt_index m' dir j = pt_index (mem s) dir j" "unat j < 1024 \<Longrightarrow> pt_of m' dir j = pt_of (mem s) dir j"
proof -
  note d = builtD [OF b]
  note w = set_pte_walk [OF d(2) i(2), where e = e, folded m'_def]
  show "walk m' dir va = (if present e then Some e else None)" "ppn x \<noteq> ppn va \<Longrightarrow> walk m' dir x = walk (mem s) dir x"
    "pd_frames m' dir = pd_frames (mem s) dir" "same_except {pt_of (mem s) dir (pdi va)} (mem s) m'" by (rule w, assumption?)+
  have pt: "pt_of (mem s) dir (pdi va) \<in> pd_frames (mem s) dir" "pt_of (mem s) dir (pdi va) \<noteq> dir"
    using pt_in_pd_frames [OF i(2)] d(2) i(2) by (auto simp: pd_wf_def)
  then have nd: "dir \<notin> {pt_of (mem s) dir (pdi va)}" by auto
  note e = pd_entries_frame [OF w(5) d(7) nd]
  show "pt_index m' dir j = pt_index (mem s) dir j" "unat j < 1024 \<Longrightarrow> pt_of m' dir j = pt_of (mem s) dir j" using e by simp_all
  have nf: "pt_of (mem s) dir (pdi va) \<notin> F" using pt(1) d(3) by auto
  then have "pm_inv lo hi (s\<lparr>mem := m'\<rparr>) F" using pm.write_ok [OF d(1) w(5)] by auto
  then have "pd_inv lo hi (s\<lparr>mem := m'\<rparr>) dir F" using w(3,4) d(3) by (simp add: pd_inv_def)
  then show "built lo hi m0 F0 dir (s\<lparr>mem := m'\<rparr>) F"
  proof (rule built_step [OF b, rotated -2])
    fix i assume "i \<in> set private_pdis" "pt_index (mem (s\<lparr>mem := m'\<rparr>)) dir i"
    then show "pt_of (mem (s\<lparr>mem := m'\<rparr>)) dir i \<in> F0" using e(2,3) d(9) by (simp add: set_private_pdis)
  qed (use w(5) nf d(9) [OF i] in auto)
qed

text \<open>A page taken for its slot.\<close>

lemma entry_va_index:
  assumes "unat i < 1024" "unat j < 1024"
  shows "pdi (entry_va i j) = i" "pti (entry_va i j) = j"
proof -
  have hi: "n < 10" if "unat w < 1024" "bit w n" for w :: u32 and n
  proof (rule ccontr)
    assume "\<not> n < 10"
    have "(2 :: nat) ^ 10 \<le> 2 ^ n" by (rule power_increasing) (use \<open>\<not> n < 10\<close> in simp_all)
    then have "unat w div 2 ^ n = 0" using that(1) by simp
    then have "\<not> bit (unat w) n" by (simp add: bit_iff_odd)
    then show False using that(2) by (simp add: bit_unsigned_iff)
  qed
  show "pdi (entry_va i j) = i"
    by (rule bit_word_eqI) (auto simp: pdi_def entry_va_def bit_simps dest: hi [OF assms(1)] hi [OF assms(2)])
  have m: "(0x3FF :: u32) = mask 10" by (simp add: mask_eq_exp_minus_1)
  show "pti (entry_va i j) = j"
    unfolding pti_def m
    by (rule bit_word_eqI) (auto simp: entry_va_def bit_simps dest: hi [OF assms(1)] hi [OF assms(2)])
qed

subsection \<open>Copying the pages\<close>

text \<open>
  \<open>m0\<close> is the memory when \<^verbatim>\<open>fork\<close> starts, \<open>m1\<close> the one with the new directory. The parent's directory
  and the frames of its private pages are not among the free frames \<open>F0\<close>.
\<close>

definition parent_ok :: "memory \<Rightarrow> u32 \<Rightarrow> u32 set \<Rightarrow> bool" where
  "parent_ok m0 parent F0 \<longleftrightarrow> pd_wf m0 parent \<and> pd_frames m0 parent \<inter> F0 = {} \<and>
     (\<forall>x e. pdi x \<in> set private_pdis \<longrightarrow> walk m0 parent x = Some e \<longrightarrow> frame_mask e \<notin> F0)"

definition to_copy :: "memory \<Rightarrow> memory \<Rightarrow> u32 \<Rightarrow> u32 \<Rightarrow> u32 \<Rightarrow> bool" where
  "to_copy m0 m1 parent child x \<longleftrightarrow> walk m1 child x = None \<and> walk m0 parent x \<noteq> None"

definition copied :: "memory \<Rightarrow> memory \<Rightarrow> u32 \<Rightarrow> u32 \<Rightarrow> u32 set \<Rightarrow> memory \<Rightarrow> u32 \<Rightarrow> bool" where
  "copied m0 m1 parent child G m x \<longleftrightarrow>
     (if to_copy m0 m1 parent child x
      then \<exists>f. walk m child x = Some (f OR 7) \<and> aligned f \<and> f \<in> G \<and> f \<notin> pd_frames m child \<and>
             frame_bytes m f = frame_bytes m0 (frame_mask (the (walk m0 parent x)))
      else walk m child x = walk m1 child x)"

definition pages :: "memory \<Rightarrow> u32 \<Rightarrow> u32 set \<Rightarrow> u32 set" where
  "pages m0 parent D = ppn ` {x \<in> D. walk m0 parent x \<noteq> None}"

text \<open>The addresses in \<open>D\<close> are done; \<open>n\<close> bounds the number of frames taken for tables.\<close>

definition fork_inv :: "u32 \<Rightarrow> u32 \<Rightarrow> memory \<Rightarrow> memory \<Rightarrow> u32 \<Rightarrow> u32 \<Rightarrow> u32 set \<Rightarrow> nat \<Rightarrow> u32 set \<Rightarrow> physmem \<Rightarrow> u32 set \<Rightarrow> bool" where
  "fork_inv lo hi m0 m1 parent child F0 n D s F \<longleftrightarrow>
     built lo hi m0 F0 child s F \<and> card F0 \<le> card F + n + card (pages m0 parent D) \<and>
     (\<forall>x \<in> D. copied m0 m1 parent child (F0 - F) (mem s) x) \<and> (\<forall>x. x \<notin> D \<longrightarrow> walk (mem s) child x = walk m1 child x) \<and>
     (\<forall>x \<in> D. \<forall>y \<in> D. to_copy m0 m1 parent child x \<longrightarrow> to_copy m0 m1 parent child y \<longrightarrow>
        walk (mem s) child x = walk (mem s) child y \<longrightarrow> ppn x = ppn y)"

lemma parent_same:
  assumes p: "parent_ok m0 parent F0" and se: "same_except (F0 - F) m0 m"
  shows "unat i < 1024 \<Longrightarrow> pde_of m parent i = pde_of m0 parent i"
    "pt_index m0 parent i \<Longrightarrow> unat j < 1024 \<Longrightarrow> get32 m (pt_of m0 parent i) j = get32 m0 (pt_of m0 parent i) j"
    "walk m parent x = walk m0 parent x"
    "aligned f \<Longrightarrow> f \<notin> F0 \<Longrightarrow> frame_bytes m f = frame_bytes m0 f"
proof -
  have al: "aligned parent" and nin: "pd_frames m0 parent \<inter> F0 = {}" using p by (auto simp: parent_ok_def pd_wf_def)
  then have "parent \<notin> F0 - F" using pd_frames_self by blast
  then show "unat i < 1024 \<Longrightarrow> pde_of m parent i = pde_of m0 parent i" using get32_same_except [OF se al] by simp
  show "pt_index m0 parent i \<Longrightarrow> unat j < 1024 \<Longrightarrow> get32 m (pt_of m0 parent i) j = get32 m0 (pt_of m0 parent i) j"
    using pt_in_pd_frames [of m0 parent i] nin by (intro get32_same_except [OF se pt_aligned]) auto
  show "walk m parent x = walk m0 parent x" by (rule walk_frame [OF se al]) (use nin in auto)
  show "aligned f \<Longrightarrow> f \<notin> F0 \<Longrightarrow> frame_bytes m f = frame_bytes m0 f"
    using se by (intro frame_bytes_cong) (auto simp: same_except_def)
qed

lemma copied_frame:
  assumes c: "copied m0 m1 parent child G m x" and w: "walk m' child x = walk m child x" and G: "G \<subseteq> G'"
    and se: "same_except K m m'" "K \<inter> G \<subseteq> pd_frames m child" and f: "pd_frames m' child \<inter> G \<subseteq> pd_frames m child"
  shows "copied m0 m1 parent child G' m' x"
proof (cases "to_copy m0 m1 parent child x")
  case True
  obtain f where f: "walk m child x = Some (f OR 7)" "aligned f" "f \<in> G" "f \<notin> pd_frames m child"
    "frame_bytes m f = frame_bytes m0 (frame_mask (the (walk m0 parent x)))"
    using c True by (auto simp: copied_def)
  have "f \<notin> K" using f(3,4) se(2) by auto
  then have "frame_bytes m' f = frame_bytes m f" using se(1) f(2) by (intro frame_bytes_cong) (auto simp: same_except_def)
  then show ?thesis using f True w G assms(6) by (auto simp: copied_def)
next
  case False
  then show ?thesis using c w by (simp add: copied_def)
qed

lemma walk_slot:
  assumes "pt_index m dir (pdi va)"
  shows "walk m dir va = (let e = get32 m (pt_of m dir (pdi va)) (pti va) in if present e then Some e else None)"
  using assms by (simp add: walk_alt pt_index_def Let_def)

lemma pages_insert:
  "pages m0 parent (D \<union> {x. ppn x = ppn va}) =
     (if walk m0 parent va = None then pages m0 parent D else insert (ppn va) (pages m0 parent D))"
proof -
  let ?P = "{x. ppn x = ppn va}"
  have w: "x \<in> ?P \<Longrightarrow> walk m0 parent x = walk m0 parent va" for x using walk_page [of x va] by blast
  have "{x \<in> D \<union> ?P. walk m0 parent x \<noteq> None} =
      {x \<in> D. walk m0 parent x \<noteq> None} \<union> (if walk m0 parent va = None then {} else ?P)"
  proof (cases "walk m0 parent va = None")
    case True
    then have "x \<in> ?P \<Longrightarrow> walk m0 parent x = None" for x using w by metis
    then show ?thesis using True by auto
  next
    case False
    then have "x \<in> ?P \<Longrightarrow> walk m0 parent x \<noteq> None" for x using w by metis
    then show ?thesis unfolding if_not_P [OF False] by blast
  qed
  moreover have "ppn ` ?P = {ppn va}" by auto
  ultimately show ?thesis by (simp add: pages_def image_Un)
qed

lemma pages_new:
  assumes "D \<inter> {x. ppn x = ppn va} = {}"
  shows "ppn va \<notin> pages m0 parent D"
  using assms by (auto simp: pages_def)

lemma pages_mono: "D \<subseteq> D' \<Longrightarrow> card (pages m0 parent D) \<le> card (pages m0 parent D')"
  by (intro card_mono) (auto simp: pages_def)

text \<open>Pages that are not to be copied are done.\<close>

lemma fork_inv_skip:
  assumes inv: "fork_inv lo hi m0 m1 parent child F0 n D s F" and S: "\<And>x. x \<in> S \<Longrightarrow> \<not> to_copy m0 m1 parent child x"
  shows "fork_inv lo hi m0 m1 parent child F0 n (D \<union> S) s F"
proof -
  have "card F0 \<le> card F + n + card (pages m0 parent (D \<union> S))"
    using inv pages_mono [of D "D \<union> S" m0 parent] unfolding fork_inv_def by fastforce
  moreover have "copied m0 m1 parent child (F0 - F) (mem s) x" if "x \<in> D \<union> S" for x
  proof (cases "x \<in> D")
    case True
    then show ?thesis using inv by (simp add: fork_inv_def)
  next
    case False
    then have "walk (mem s) child x = walk m1 child x" "\<not> to_copy m0 m1 parent child x"
      using inv S that by (simp_all add: fork_inv_def)
    then show ?thesis by (simp add: copied_def)
  qed
  moreover have "to_copy m0 m1 parent child x \<Longrightarrow> x \<in> D \<union> S \<Longrightarrow> x \<in> D" for x using S by blast
  ultimately show ?thesis using inv unfolding fork_inv_def by (meson UnCI)
qed

text \<open>A page that is copied.\<close>

lemma frame_copy:
  assumes "aligned f" "aligned q" "f \<noteq> q"
  shows "same_except {f} m (memcpy m f q FRAME_SIZE)" "frame_bytes (memcpy m f q FRAME_SIZE) f = frame_bytes m q"
proof -
  have n: "FRAME_SIZE = 4 * 1024" "unat (1024 :: u32) \<le> 1024" by (simp_all add: FRAME_SIZE_eq)
  show "same_except {f} m (memcpy m f q FRAME_SIZE)" unfolding n(1) by (rule memcpy_frame_same [OF assms n(2)])
  show "frame_bytes (memcpy m f q FRAME_SIZE) f = frame_bytes m q"
    unfolding n(1) memcpy_frame [OF assms n(2)] by (simp add: frame_bytes_def)
qed

lemma or7_inject: "aligned f \<Longrightarrow> aligned g \<Longrightarrow> f OR 7 = g OR 7 \<Longrightarrow> f = g"
  by (metis entry_bits(4) frame_mask_or)

lemma fork_inv_copy:
  assumes inv: "fork_inv lo hi m0 m1 parent child F0 n D s F" and new: "D \<inter> {x. ppn x = ppn va} = {}"
    and va: "to_copy m0 m1 parent child va" and f: "f \<in> F" "aligned f"
    and b: "built lo hi m0 F0 child s' (F - {f})" and se: "same_except (insert f (pd_frames (mem s) child)) (mem s) (mem s')"
    and fr: "pd_frames (mem s') child = pd_frames (mem s) child"
    and w: "walk (mem s') child va = Some (f OR 7)" "\<And>x. ppn x \<noteq> ppn va \<Longrightarrow> walk (mem s') child x = walk (mem s) child x"
    and bytes: "frame_bytes (mem s') f = frame_bytes m0 (frame_mask (the (walk m0 parent va)))"
  shows "fork_inv lo hi m0 m1 parent child F0 n (D \<union> {x. ppn x = ppn va}) s' (F - {f})"
proof -
  let ?P = "{x. ppn x = ppn va}" and ?tc = "to_copy m0 m1 parent child" and ?G = "F0 - (F - {f})"
  note d = builtD [OF b] and d0 = builtD [of lo hi m0 F0 child s F]
  have bs: "built lo hi m0 F0 child s F" using inv by (simp add: fork_inv_def)
  have fG: "f \<in> ?G" "f \<notin> pd_frames (mem s') child" using f(1) d0(3,4) [OF bs] by (auto simp: fr)
  have wD: "walk (mem s') child x = walk (mem s) child x" if "x \<in> D" for x using that new w(2) by blast
  have oldD: "copied m0 m1 parent child (F0 - F) (mem s) x" if "x \<in> D" for x using that inv by (simp add: fork_inv_def)
  have "copied m0 m1 parent child ?G (mem s') x" if "x \<in> D" for x
    by (rule copied_frame [OF oldD [OF that] wD [OF that] _ se]) (use f(1) fr in auto)
  moreover have "copied m0 m1 parent child ?G (mem s') x" if "x \<in> ?P" for x
  proof -
    have x: "walk m dir x = walk m dir va" for m dir using that by (intro walk_page) simp
    then show ?thesis using va w(1) f(2) fG bytes unfolding copied_def to_copy_def x by auto
  qed
  ultimately have c: "\<forall>x \<in> D \<union> ?P. copied m0 m1 parent child ?G (mem s') x" by blast
  have other: "walk (mem s') child x \<noteq> Some (f OR 7)" if "x \<in> D" "?tc x" for x
  proof -
    note t = that
    obtain g where g: "walk (mem s) child x = Some (g OR 7)" "aligned g" "g \<in> F0 - F"
      using oldD [OF t(1)] t(2) by (auto simp: copied_def)
    then have "g OR 7 \<noteq> f OR 7" using or7_inject [OF g(2) f(2)] f(1) by auto
    then show ?thesis using wD [OF that(1)] g(1) by simp
  qed
  have P: "walk (mem s') child x = Some (f OR 7)" "ppn x = ppn va" if "x \<in> ?P" for x
    using walk_page [of x va "mem s'" child] w(1) that by simp_all
  have inj: "ppn x = ppn y" if "x \<in> D \<union> ?P" "y \<in> D \<union> ?P" "?tc x" "?tc y" "walk (mem s') child x = walk (mem s') child y" for x y
  proof (cases "x \<in> ?P \<or> y \<in> ?P")
    case True
    then have "x \<in> ?P \<and> y \<in> ?P" using that other P(1) by (metis Un_iff)
    then show ?thesis using P(2) by metis
  next
    case False
    then have "x \<in> D" "y \<in> D" using that by auto
    then show ?thesis using inv that(3-5) wD unfolding fork_inv_def by metis
  qed
  have np: "walk m0 parent va \<noteq> None" using va by (simp add: to_copy_def)
  have "card (pages m0 parent (D \<union> ?P)) = Suc (card (pages m0 parent D))"
    unfolding pages_insert if_not_P [OF np] using pages_new [OF new] by simp
  moreover have "card F = Suc (card (F - {f}))" using f(1) by (metis card_Suc_Diff1 finite)
  ultimately have "card F0 \<le> card (F - {f}) + n + card (pages m0 parent (D \<union> ?P))" using inv by (simp add: fork_inv_def)
  moreover have "walk (mem s') child x = walk m1 child x" if "x \<notin> D \<union> ?P" for x
    using that w(2) [of x] inv by (simp add: fork_inv_def)
  ultimately show ?thesis using b c inj unfolding fork_inv_def by blast
qed

lemma fork_pte_step:
  assumes inv: "fork_inv lo hi m0 m1 parent child F0 n D s F" and p: "parent_ok m0 parent F0"
    and i: "pdi va \<in> set private_pdis" "pt_index m0 parent (pdi va)" "pt_index (mem s) child (pdi va)"
    and new: "D \<inter> {x. ppn x = ppn va} = {}" and room: "n + card (pages m0 parent (D \<union> {x. ppn x = ppn va})) \<le> card F0"
  shows "\<exists>s' F'. fork_pte (pt_of m0 parent (pdi va)) (pt_of (mem s) child (pdi va)) (pti va) s = Inr s' \<and>
    fork_inv lo hi m0 m1 parent child F0 n (D \<union> {x. ppn x = ppn va}) s' F' \<and>
    pt_index (mem s') child (pdi va) \<and> pt_of (mem s') child (pdi va) = pt_of (mem s) child (pdi va)"
proof -
  let ?pt = "pt_of (mem s) child (pdi va)" and ?ppt = "pt_of m0 parent (pdi va)"
  have b: "built lo hi m0 F0 child s F" using inv by (simp add: fork_inv_def)
  have "va \<notin> D" using new by auto
  then have wc: "walk (mem s) child va = walk m1 child va" using inv by (simp add: fork_inv_def)
  have pe: "get32 (mem s) ?ppt (pti va) = get32 m0 ?ppt (pti va)"
    by (rule parent_same(2) [OF p builtD(8) [OF b] i(2) unat_pti])
  note slots = walk_slot [OF i(3)] walk_slot [OF i(2)]
  show ?thesis
  proof (cases "to_copy m0 m1 parent child va")
    case False
    then have "present (get32 (mem s) ?pt (pti va)) \<or> \<not> present (get32 m0 ?ppt (pti va))"
      using wc slots by (auto simp: to_copy_def Let_def split: if_splits)
    then have "fork_pte ?ppt ?pt (pti va) s = Inr s" using pe by (auto simp: fork_pte_def)
    moreover have "\<not> to_copy m0 m1 parent child x" if "x \<in> {x. ppn x = ppn va}" for x
      using False walk_page [of x va] that by (simp add: to_copy_def)
    ultimately show ?thesis using fork_inv_skip [OF inv, of "{x. ppn x = ppn va}"] i(3) by blast
  next
    case True
    obtain e where e: "walk m0 parent va = Some e" and wn: "walk (mem s) child va = None" using True wc by (auto simp: to_copy_def)
    have get: "\<not> present (get32 (mem s) ?pt (pti va))" "get32 (mem s) ?ppt (pti va) = e" "present e"
      using slots e wn pe by (auto simp: Let_def split: if_splits)
    have pf: "frame_mask e \<notin> F0" using p i(1) e unfolding parent_ok_def by blast
    have "card (pages m0 parent (D \<union> {x. ppn x = ppn va})) = Suc (card (pages m0 parent D))"
      unfolding pages_insert using e pages_new [OF new] by simp
    then have "0 < card F" using room inv by (simp add: fork_inv_def)
    then have ne: "F \<noteq> {}" by auto
    obtain s1 f where a: "alloc_frame s = Inr (s1, f)" "f \<in> F" "built lo hi m0 F0 child s1 (F - {f})" "aligned f"
      "f \<notin> pd_frames (mem s1) child" "same_except {f} (mem s) (mem s1)" "pd_frames (mem s1) child = pd_frames (mem s) child"
      "\<And>x. walk (mem s1) child x = walk (mem s) child x" "pt_index (mem s1) child (pdi va)" "pt_of (mem s1) child (pdi va) = ?pt"
      using built_alloc [OF b ne] i(3) unat_pdi by (metis (no_types, lifting))
    have ff: "f \<noteq> frame_mask e" "f \<in> F0 - (F - {f})" using pf a(2) builtD(4) [OF b] by auto
    let ?m2 = "memcpy (mem s1) f (frame_mask e) FRAME_SIZE"
    note cp = frame_copy [OF a(4) frame_mask_aligned ff(1)]
    note b2 = built_write [OF a(3) cp(1) ff(2) a(5)]
    have i2: "pt_index (mem (s1\<lparr>mem := ?m2\<rparr>)) child (pdi va)" "pt_of (mem (s1\<lparr>mem := ?m2\<rparr>)) child (pdi va) = ?pt"
      using b2(4,5) a(9,10) unat_pdi by simp_all
    note b3 = built_pte [OF b2(1) i(1) i2(1), where e = "f OR 7", unfolded i2(2)]
    let ?s3 = "s1\<lparr>mem := set32 ?m2 ?pt (pti va) (f OR 7)\<rparr>"
    have run: "fork_pte ?ppt ?pt (pti va) s = Inr ?s3" using get a(1) by (simp add: fork_pte_def Let_def)
    have ptin: "?pt \<in> pd_frames (mem s) child" using pt_in_pd_frames [OF i(3)] .
    have se: "same_except (insert f (pd_frames (mem s) child)) (mem s) (mem ?s3)"
      by (rule same_except_mono [OF same_except_trans [OF same_except_trans [OF a(6) cp(1)]]]) (use b3(5) ptin in auto)
    have "f \<noteq> ?pt" using ptin a(5,7) by auto
    then have "frame_bytes (mem ?s3) f = frame_bytes ?m2 f"
      using b3(5) by (intro frame_bytes_cong [OF a(4)]) (simp add: same_except_def)
    also have "\<dots> = frame_bytes m0 (frame_mask e)"
      unfolding cp(2) by (rule parent_same(4) [OF p builtD(8) [OF a(3)] frame_mask_aligned pf])
    finally have bts: "frame_bytes (mem ?s3) f = frame_bytes m0 (frame_mask (the (walk m0 parent va)))" by (simp add: e)
    have "fork_inv lo hi m0 m1 parent child F0 n (D \<union> {x. ppn x = ppn va}) ?s3 (F - {f})"
      by (rule fork_inv_copy [OF inv new True a(2,4) _ se _ _ _ bts])
        (use b3(1-4) b2(2,3) a(7,8) in \<open>simp_all add: present_or\<close>)
    then show ?thesis using run b3(6,7) i2 unat_pdi by auto
  qed
qed

subsection \<open>The loops\<close>

definition slot_addrs :: "u32 \<Rightarrow> u32 set \<Rightarrow> u32 set" where
  "slot_addrs i js = {x. pdi x = i \<and> pti x \<in> js}"

definition half_addrs :: "u32 set \<Rightarrow> u32 set" where
  "half_addrs is = {x. pdi x \<in> is}"

lemma slot_addrs_page:
  assumes "unat i < 1024" "unat j < 1024"
  shows "slot_addrs i (insert j js) = slot_addrs i js \<union> {x. ppn x = ppn (entry_va i j)}"
proof -
  have "ppn x = ppn (entry_va i j) \<longleftrightarrow> pdi x = i \<and> pti x = j" for x
    using entry_va_index [OF assms] pdi_pti_ppn [of x "entry_va i j"] ppn_pdi ppn_pti by metis
  then show ?thesis by (auto simp: slot_addrs_def)
qed

lemma slot_addrs_all: "slot_addrs i (set all_ptis) = half_addrs {i}"
  using unat_pti by (auto simp: slot_addrs_def half_addrs_def set_all_ptis)

text \<open>One table: all its pages.\<close>

lemma fork_ptes:
  assumes inv: "fork_inv lo hi m0 m1 parent child F0 n (half_addrs is) s F" and p: "parent_ok m0 parent F0"
    and i: "i \<in> set private_pdis" "i \<notin> is" "pt_index m0 parent i" "pt_index (mem s) child i"
    and room: "n + card (pages m0 parent (half_addrs (insert i is))) \<le> card F0"
  shows "\<exists>s' F'. rfold (fork_pte (pt_of m0 parent i) (pt_of (mem s) child i)) all_ptis s = Inr s' \<and>
    fork_inv lo hi m0 m1 parent child F0 n (half_addrs (insert i is)) s' F'"
proof -
  let ?ct = "pt_of (mem s) child i"
  let ?Q = "\<lambda>js s. (\<exists>F. fork_inv lo hi m0 m1 parent child F0 n (half_addrs is \<union> slot_addrs i (set js)) s F) \<and>
    pt_index (mem s) child i \<and> pt_of (mem s) child i = ?ct"
  have ib: "unat i < 1024" using i(1) by (simp add: set_private_pdis)
  have "\<exists>s'. rfold (fork_pte (pt_of m0 parent i) ?ct) all_ptis s = Inr s' \<and> ?Q all_ptis s'"
  proof (rule rfold_total)
    show "?Q [] s" using inv i(4) by (auto simp: slot_addrs_def)
  next
    fix js j rest t
    assume e: "all_ptis = js @ j # rest" and "?Q js t"
    then obtain F where t: "fork_inv lo hi m0 m1 parent child F0 n (half_addrs is \<union> slot_addrs i (set js)) t F"
      "pt_index (mem t) child i" "pt_of (mem t) child i = ?ct" by blast
    note j = split_distinct [OF e distinct_indices(1)]
    have jb: "unat j < 1024" using j set_all_ptis by blast
    let ?va = "entry_va i j"
    note va = entry_va_index [OF ib jb]
    have page: "ppn x = ppn ?va \<Longrightarrow> pdi x = i \<and> pti x = j" for x using va ppn_pdi [of x ?va] ppn_pti [of x ?va] by simp
    have new: "(half_addrs is \<union> slot_addrs i (set js)) \<inter> {x. ppn x = ppn ?va} = {}"
      using page i(2) j by (auto simp: half_addrs_def slot_addrs_def)
    have D: "half_addrs is \<union> slot_addrs i (set js) \<union> {x. ppn x = ppn ?va} = half_addrs is \<union> slot_addrs i (set (js @ [j]))"
      using slot_addrs_page [OF ib jb, of "set js"] by auto
    have "half_addrs is \<union> slot_addrs i (set (js @ [j])) \<subseteq> half_addrs (insert i is)"
      by (auto simp: half_addrs_def slot_addrs_def)
    note m = pages_mono [OF this, of m0 parent]
    have r: "n + card (pages m0 parent (half_addrs is \<union> slot_addrs i (set js) \<union> {x. ppn x = ppn ?va})) \<le> card F0"
      unfolding D using m room by linarith
    show "\<exists>s'. fork_pte (pt_of m0 parent i) ?ct j t = Inr s' \<and> ?Q (js @ [j]) s'"
      using fork_pte_step [OF t(1) p _ _ _ new r, unfolded va, OF i(1,3) t(2)] unfolding D t(3) by blast
  qed
  moreover have "half_addrs is \<union> slot_addrs i (set all_ptis) = half_addrs (insert i is)"
    unfolding slot_addrs_all by (auto simp: half_addrs_def)
  ultimately show ?thesis by auto
qed

text \<open>One directory entry: a table when there is none yet, then its pages.\<close>

lemma fork_inv_more: "fork_inv lo hi m0 m1 parent child F0 n D s F \<Longrightarrow> n \<le> n' \<Longrightarrow> fork_inv lo hi m0 m1 parent child F0 n' D s F"
  unfolding fork_inv_def by (elim conjE, intro conjI; (assumption | linarith))

lemma fork_inv_built:
  assumes inv: "fork_inv lo hi m0 m1 parent child F0 n D s F" and b: "built lo hi m0 F0 child s' F'" and F: "F = insert f F'"
    and w: "\<And>x. walk (mem s') child x = walk (mem s) child x" and se: "same_except {f, child} (mem s) (mem s')"
    and fr: "pd_frames (mem s') child = insert f (pd_frames (mem s) child)"
  shows "fork_inv lo hi m0 m1 parent child F0 (Suc n) D s' F'"
proof -
  have "copied m0 m1 parent child (F0 - F') (mem s') x" if "x \<in> D" for x
  proof (rule copied_frame [OF _ w _ se])
    show "copied m0 m1 parent child (F0 - F) (mem s) x" using inv that by (simp add: fork_inv_def)
    show "F0 - F \<subseteq> F0 - F'" "{f, child} \<inter> (F0 - F) \<subseteq> pd_frames (mem s) child" by (auto simp: F)
    show "pd_frames (mem s') child \<inter> (F0 - F) \<subseteq> pd_frames (mem s) child" unfolding fr by (auto simp: F)
  qed
  moreover have "card F \<le> Suc (card F')" unfolding F by (simp add: card_insert_if)
  then have "card F0 \<le> card F' + Suc n + card (pages m0 parent D)" using inv unfolding fork_inv_def by linarith
  moreover note b
  ultimately show ?thesis using inv unfolding fork_inv_def w by blast
qed

lemma fork_table:
  assumes inv: "fork_inv lo hi m0 m1 parent child F0 n D s F" and i: "i \<in> set private_pdis"
    and np: "\<not> present (pde_of (mem s) child i)" and ne: "F \<noteq> {}"
  shows "\<exists>s1 f F'. alloc_frame s = Inr (s1, f) \<and> aligned f \<and>
    (let s' = s1\<lparr>mem := set32 (mem s1) child i (f OR 7)\<rparr> in
     fork_inv lo hi m0 m1 parent child F0 (Suc n) D s' F' \<and> pt_index (mem s') child i \<and> pt_of (mem s') child i = f)"
proof -
  have b: "built lo hi m0 F0 child s F" using inv by (simp add: fork_inv_def)
  have ib: "unat i < 1024" using i by (simp add: set_private_pdis)
  obtain s1 f where a: "alloc_frame s = Inr (s1, f)" "f \<in> F" "built lo hi m0 F0 child s1 (F - {f})" "aligned f"
    "f \<notin> pd_frames (mem s1) child" "zero_frame (mem s1) f" "same_except {f} (mem s) (mem s1)"
    "\<And>x. walk (mem s1) child x = walk (mem s) child x" "pd_frames (mem s1) child = pd_frames (mem s) child"
    "\<And>i. pt_index (mem s1) child i = pt_index (mem s) child i"
    using built_alloc [OF b ne] by (metis (no_types, lifting))
  have np1: "\<not> present (pde_of (mem s1) child i)" using np a(10) [of i] ib by (simp add: pt_index_def)
  have fF: "f \<in> F0 - (F - {f})" using a(2) builtD(4) [OF b] by auto
  note w = built_pde [OF a(3) i np1 a(4-6) fF]
  let ?s = "s1\<lparr>mem := set32 (mem s1) child i (f OR 7)\<rparr>"
  have "fork_inv lo hi m0 m1 parent child F0 (Suc n) D ?s (F - {f})"
  proof (rule fork_inv_built [OF inv w(1)])
    show "F = insert f (F - {f})" using a(2) by auto
    show "same_except {f, child} (mem s) (mem ?s)"
      by (rule same_except_mono [OF same_except_trans [OF a(7)]]) (use w(6) in auto)
  qed (use w(2,5) a(8,9) in simp_all)
  then show ?thesis using a(1,4) w(3,4) by (auto simp: Let_def)
qed

text \<open>The whole private half, with enough frames for its tables and pages.\<close>

definition tables_in :: "memory \<Rightarrow> u32 \<Rightarrow> u32 set \<Rightarrow> u32 set" where
  "tables_in m0 parent is = {i \<in> is. pt_index m0 parent i}"

definition fork_need :: "memory \<Rightarrow> u32 \<Rightarrow> nat" where
  "fork_need m0 parent = 3 + card (tables_in m0 parent (set private_pdis)) + card (pages m0 parent (half_addrs (set private_pdis)))"

lemma fork_pde_step:
  assumes inv: "fork_inv lo hi m0 m1 parent child F0 n (half_addrs is) s F" and p: "parent_ok m0 parent F0"
    and i: "i \<in> set private_pdis" "i \<notin> is" and n: "n = 3 + card (tables_in m0 parent is)"
    and room: "3 + card (tables_in m0 parent (insert i is)) + card (pages m0 parent (half_addrs (insert i is))) \<le> card F0"
  shows "\<exists>s' F'. fork_pde parent child i s = Inr s' \<and>
    fork_inv lo hi m0 m1 parent child F0 (3 + card (tables_in m0 parent (insert i is))) (half_addrs (insert i is)) s' F'"
proof -
  have b: "built lo hi m0 F0 child s F" using inv by (simp add: fork_inv_def)
  have ib: "unat i < 1024" using i(1) by (simp add: set_private_pdis)
  have pde: "pde_of (mem s) parent i = pde_of m0 parent i" by (rule parent_same(1) [OF p builtD(8) [OF b] ib])
  have D: "half_addrs (insert i is) = half_addrs is \<union> half_addrs {i}" by (auto simp: half_addrs_def)
  show ?thesis
  proof (cases "pt_index m0 parent i")
    case False
    have "walk m0 parent x = None" if "x \<in> half_addrs {i}" for x
      using that False walk_SomeD(1) [of m0 parent x] by (cases "walk m0 parent x") (auto simp: half_addrs_def)
    then have "fork_inv lo hi m0 m1 parent child F0 n (half_addrs (insert i is)) s F"
      unfolding D by (intro fork_inv_skip [OF inv]) (simp add: to_copy_def)
    moreover have "fork_pde parent child i s = Inr s" using False ib pde by (simp add: fork_pde_def pt_index_def)
    moreover have "tables_in m0 parent (insert i is) = tables_in m0 parent is" using False by (auto simp: tables_in_def)
    ultimately show ?thesis using n by auto
  next
    case True
    then have t: "tables_in m0 parent (insert i is) = insert i (tables_in m0 parent is)" "i \<notin> tables_in m0 parent is"
      using i(2) by (auto simp: tables_in_def)
    then have n1: "3 + card (tables_in m0 parent (insert i is)) = Suc n" using n by simp
    have pp: "present (pde_of (mem s) parent i)" "frame_mask (pde_of (mem s) parent i) = pt_of m0 parent i"
      using True pde by (simp_all add: pt_index_def pt_of_def)
    note ptes = fork_ptes [OF _ p i(1,2) True, where n = "Suc n"]
    have room': "Suc n + card (pages m0 parent (half_addrs (insert i is))) \<le> card F0" using room unfolding n1 .
    show ?thesis
    proof (cases "present (pde_of (mem s) child i)")
      case c: True
      then have "pt_index (mem s) child i" using ib by (simp add: pt_index_def)
      from ptes [OF fork_inv_more [OF inv] this room'] obtain s' F' where
        "rfold (fork_pte (pt_of m0 parent i) (pt_of (mem s) child i)) all_ptis s = Inr s'"
        "fork_inv lo hi m0 m1 parent child F0 (Suc n) (half_addrs (insert i is)) s' F'" by auto
      moreover have "fork_pde parent child i s = rfold (fork_pte (pt_of m0 parent i) (pt_of (mem s) child i)) all_ptis s"
        using c pp by (simp add: fork_pde_def Let_def pt_of_def)
      ultimately show ?thesis unfolding n1 by auto
    next
      case c: False
      have "card (pages m0 parent (half_addrs is)) \<le> card (pages m0 parent (half_addrs (insert i is)))"
        by (rule pages_mono) (auto simp: half_addrs_def)
      then have "0 < card F" using inv room' unfolding fork_inv_def by linarith
      then have ne: "F \<noteq> {}" by auto
      obtain s1 f F1 where a: "alloc_frame s = Inr (s1, f)" "aligned f"
        and st: "fork_inv lo hi m0 m1 parent child F0 (Suc n) (half_addrs is) (s1\<lparr>mem := set32 (mem s1) child i (f OR 7)\<rparr>) F1"
        "pt_index (set32 (mem s1) child i (f OR 7)) child i" "pt_of (set32 (mem s1) child i (f OR 7)) child i = f"
        using fork_table [OF inv i(1) c ne] by (auto simp: Let_def)
      have "\<exists>s' F'. rfold (fork_pte (pt_of m0 parent i) f) all_ptis (s1\<lparr>mem := set32 (mem s1) child i (f OR 7)\<rparr>) = Inr s' \<and>
          fork_inv lo hi m0 m1 parent child F0 (Suc n) (half_addrs (insert i is)) s' F'"
        using ptes [OF st(1) _ room'] st(2,3) by simp
      moreover have "fork_pde parent child i s =
          rfold (fork_pte (pt_of m0 parent i) f) all_ptis (s1\<lparr>mem := set32 (mem s1) child i (f OR 7)\<rparr>)"
        using c pp a by (simp add: fork_pde_def Let_def)
      ultimately show ?thesis unfolding n1 by auto
    qed
  qed
qed

lemma fork_copy_spec:
  assumes inv: "fork_inv lo hi m0 m1 parent child F0 3 {} s F" and p: "parent_ok m0 parent F0"
    and room: "fork_need m0 parent \<le> card F0"
  shows "\<exists>s' F' n. fork_copy parent child s = Inr s' \<and>
    fork_inv lo hi m0 m1 parent child F0 n (half_addrs (set private_pdis)) s' F'"
proof -
  let ?Q = "\<lambda>is s. \<exists>F. fork_inv lo hi m0 m1 parent child F0 (3 + card (tables_in m0 parent (set is))) (half_addrs (set is)) s F"
  have "\<exists>s'. rfold (fork_pde parent child) private_pdis s = Inr s' \<and> ?Q private_pdis s'"
  proof (rule rfold_total)
    show "?Q [] s" using inv by (auto simp: half_addrs_def tables_in_def)
  next
    fix "is" i rest t
    assume e: "private_pdis = is @ i # rest" and "?Q is t"
    then obtain F where t: "fork_inv lo hi m0 m1 parent child F0 (3 + card (tables_in m0 parent (set is))) (half_addrs (set is)) t F"
      by blast
    note j = split_distinct [OF e distinct_indices(2)]
    have sub: "insert i (set is) \<subseteq> set private_pdis" using j by auto
    have "card (tables_in m0 parent (insert i (set is))) \<le> card (tables_in m0 parent (set private_pdis))"
      by (rule card_mono) (use sub in \<open>auto simp: tables_in_def\<close>)
    moreover have "card (pages m0 parent (half_addrs (insert i (set is)))) \<le> card (pages m0 parent (half_addrs (set private_pdis)))"
      by (rule pages_mono) (use sub in \<open>auto simp: half_addrs_def\<close>)
    ultimately have r: "3 + card (tables_in m0 parent (insert i (set is))) +
        card (pages m0 parent (half_addrs (insert i (set is)))) \<le> card F0"
      using room unfolding fork_need_def by linarith
    show "\<exists>s'. fork_pde parent child i t = Inr s' \<and> ?Q (is @ [i]) s'"
      using fork_pde_step [OF t p _ _ refl r] j by auto
  qed
  then show ?thesis unfolding fork_copy_def by blast
qed

subsection \<open>The child's directory\<close>

lemma built_map:
  assumes b: "built lo hi m0 F0 dir s F" and va: "pdi va \<in> set private_pdis" and ne: "F \<noteq> {}" and bits: "present bits"
  shows "\<exists>s' F'. map_with bits s dir va pa = Inr s' \<and> built lo hi m0 F0 dir s' F' \<and> card F \<le> Suc (card F') \<and>
    (\<forall>x. walk (mem s') dir x = (if ppn x = ppn va then Some (pa OR bits) else walk (mem s) dir x))"
proof -
  have wp: "walk m dir x = (if ppn x = ppn va then Some (pa OR bits) else walk (mem s) dir x)"
    if "walk m dir va = Some (pa OR bits)" "\<And>x. ppn x \<noteq> ppn va \<Longrightarrow> walk m dir x = walk (mem s) dir x" for m x
    using that walk_page [of x va m dir] by simp
  show ?thesis
  proof (cases "present (pde_of (mem s) dir (pdi va))")
    case True
    then have i: "pt_index (mem s) dir (pdi va)" using unat_pdi by (simp add: pt_index_def)
    note w = built_pte [OF b va i, where e = "pa OR bits"]
    have "map_with bits s dir va pa = Inr (s\<lparr>mem := set32 (mem s) (pt_of (mem s) dir (pdi va)) (pti va) (pa OR bits)\<rparr>)"
      using True by (simp add: map_with_def Let_def pt_of_def)
    then show ?thesis using w(1) wp [OF _ w(3)] w(2) bits by (auto simp: present_or)
  next
    case False
    obtain s1 f where a: "alloc_frame s = Inr (s1, f)" "f \<in> F" "built lo hi m0 F0 dir s1 (F - {f})" "aligned f"
      "f \<notin> pd_frames (mem s1) dir" "zero_frame (mem s1) f" "\<And>x. walk (mem s1) dir x = walk (mem s) dir x"
      "\<And>i. pt_index (mem s1) dir i = pt_index (mem s) dir i"
      using built_alloc [OF b ne] by (metis (no_types, lifting))
    have np: "\<not> present (pde_of (mem s1) dir (pdi va))" using False a(8) [of "pdi va"] unat_pdi by (simp add: pt_index_def)
    have fF: "f \<in> F0 - (F - {f})" using a(2) builtD(4) [OF b] by auto
    let ?m = "set32 (mem s1) dir (pdi va) (f OR 7)"
    note w = built_pde [OF a(3) va np a(4-6) fF]
    have i: "pt_index (mem (s1\<lparr>mem := ?m\<rparr>)) dir (pdi va)" using w(3) by simp
    note v = built_pte [OF w(1) va i, where e = "pa OR bits", simplified, unfolded w(4)]
    have "map_with bits s dir va pa = Inr (s1\<lparr>mem := set32 ?m f (pti va) (pa OR bits)\<rparr>)"
      using False a(1,4) by (simp add: map_with_def Let_def frame_mask_or)
    moreover have "card F \<le> Suc (card (F - {f}))" using a(2) by (simp add: card_Suc_Diff1)
    moreover have "walk (set32 ?m f (pti va) (pa OR bits)) dir x = (if ppn x = ppn va then Some (pa OR bits) else walk (mem s) dir x)" for x
      by (rule wp) (use v(2,3) bits w(2) a(7) in \<open>simp_all add: present_or\<close>)
    ultimately show ?thesis using v(1) by auto
  qed
qed

lemma make_pd_built:
  assumes sh: "pd_inv lo hi s shared F" and n: "unat (shared_entries cfg) \<le> 512" and three: "3 \<le> card F"
    and apic: "pdi (ioAPIC cfg) \<in> set private_pdis" "pdi (localAPIC cfg) \<in> set private_pdis"
  shows "\<exists>s' dir F'. make_pd cfg shared s = Inr (s', dir) \<and> built lo hi (mem s) F dir s' F' \<and> card F \<le> card F' + 3 \<and>
    (\<forall>x. walk (mem s') dir x =
      (if ppn x = ppn (localAPIC cfg) then Some (localAPIC cfg OR 3)
       else if ppn x = ppn (ioAPIC cfg) then Some (ioAPIC cfg OR 3)
       else if pdi x < shared_entries cfg then walk (mem s) shared x else None))"
proof -
  have ne: "F \<noteq> {}" and n': "unat (shared_entries cfg) \<le> 1024" using three n by auto
  obtain s1 dir m where s1: "alloc_frame s = Inr (s1, dir)" "m = memcpy (mem s1) dir shared (4 * shared_entries cfg)"
    and a: "dir \<in> F" "pd_inv lo hi (s1\<lparr>mem := m\<rparr>) dir (F - {dir})" "same_except {dir} (mem s) m"
      "\<And>x. walk m dir x = (if pdi x < shared_entries cfg then walk (mem s) shared x else None)"
      "\<And>i. \<not> i < shared_entries cfg \<Longrightarrow> \<not> pt_index m dir i"
    by (rule new_directory [OF sh n' ne]) blast
  have "\<not> pt_index m dir i" if "i \<in> set private_pdis" for i
    using a(5) [of i] that n by (simp add: set_private_pdis word_less_nat_alt)
  moreover have "F - (F - {dir}) = {dir}" using a(1) by auto
  ultimately have b: "built lo hi (mem s) F dir (s1\<lparr>mem := m\<rparr>) (F - {dir})" using a(1-3) by (auto simp: built_def)
  have cd: "card F = Suc (card (F - {dir}))" using a(1) by (metis card_Suc_Diff1 finite)
  then have "2 \<le> card (F - {dir})" using three by simp
  then have ne1: "F - {dir} \<noteq> {}" by (metis card.empty not_numeral_le_zero)
  obtain s2 F2 where m2: "map_with 3 (s1\<lparr>mem := m\<rparr>) dir (ioAPIC cfg) (ioAPIC cfg) = Inr s2" "built lo hi (mem s) F dir s2 F2"
      "card (F - {dir}) \<le> Suc (card F2)"
      "\<And>x. walk (mem s2) dir x = (if ppn x = ppn (ioAPIC cfg) then Some (ioAPIC cfg OR 3) else walk m dir x)"
    using built_map [OF b apic(1) ne1, of 3 "ioAPIC cfg"] by auto
  have "F2 \<noteq> {}" using m2(3) cd three by auto
  then obtain s3 F3 where m3: "map_with 3 s2 dir (localAPIC cfg) (localAPIC cfg) = Inr s3" "built lo hi (mem s) F dir s3 F3"
      "card F2 \<le> Suc (card F3)"
      "\<And>x. walk (mem s3) dir x = (if ppn x = ppn (localAPIC cfg) then Some (localAPIC cfg OR 3) else walk (mem s2) dir x)"
    using built_map [OF m2(2) apic(2), of 3 "localAPIC cfg"] by auto
  have "make_pd cfg shared s = Inr (s3, dir)"
    using s1 m2(1) m3(1) by (simp add: make_pd_def map_page_def Let_def shared_entries_def)
  moreover have "card F \<le> card F3 + 3" using cd m2(3) m3(3) by simp
  ultimately show ?thesis using m3(2,4) m2(4) a(4) by auto
qed

subsection \<open>Properties\<close>

lemma private_half: "pdi x \<in> set private_pdis \<longleftrightarrow> 0x80000000 \<le> x"
proof -
  have "unat (pdi x) = unat x div 4194304" by (simp add: pdi_def drop_bit_eq_div unat_div_distrib)
  then show ?thesis using unat_pdi [of x] by (simp add: set_private_pdis word_le_nat_alt less_eq_div_iff_mult_less_eq)
qed

lemma fork_space:
  assumes sh: "pd_inv lo hi s shared F" and p: "parent_ok (mem s) parent F" and n: "unat (shared_entries cfg) \<le> 512"
    and apic: "0x80000000 \<le> ioAPIC cfg" "0x80000000 \<le> localAPIC cfg" and room: "fork_need (mem s) parent \<le> card F"
  obtains s1 child s' F' where "make_pd cfg shared s = Inr (s1, child)" "fork_copy parent child s1 = Inr s'"
    "pd_inv lo hi s' child F'" "child \<in> F" "F' \<subseteq> F" "same_except (F - F') (mem s) (mem s')" "\<And>x. walk (mem s') parent x = walk (mem s) parent x"
    "\<And>x. 0x80000000 \<le> x \<Longrightarrow> ppn x \<noteq> ppn (ioAPIC cfg) \<Longrightarrow> ppn x \<noteq> ppn (localAPIC cfg) \<Longrightarrow>
       (case walk (mem s) parent x of None \<Rightarrow> walk (mem s') child x = None
        | Some e \<Rightarrow> \<exists>f \<in> F - F'. walk (mem s') child x = Some (f OR 7) \<and> frame_bytes (mem s') f = frame_bytes (mem s) (frame_mask e))"
    "\<And>x y. 0x80000000 \<le> x \<Longrightarrow> 0x80000000 \<le> y \<Longrightarrow> {ppn x, ppn y} \<inter> {ppn (ioAPIC cfg), ppn (localAPIC cfg)} = {} \<Longrightarrow>
       walk (mem s') child x = walk (mem s') child y \<Longrightarrow> walk (mem s') child x \<noteq> None \<Longrightarrow> ppn x = ppn y"
proof -
  have three: "3 \<le> card F" using room by (simp add: fork_need_def)
  have ap: "pdi (ioAPIC cfg) \<in> set private_pdis" "pdi (localAPIC cfg) \<in> set private_pdis" using apic by (simp_all only: private_half)
  obtain s1 child F1 where m: "make_pd cfg shared s = Inr (s1, child)" "built lo hi (mem s) F child s1 F1" "card F \<le> card F1 + 3"
    and w1: "\<And>x. walk (mem s1) child x = (if ppn x = ppn (localAPIC cfg) then Some (localAPIC cfg OR 3)
       else if ppn x = ppn (ioAPIC cfg) then Some (ioAPIC cfg OR 3)
       else if pdi x < shared_entries cfg then walk (mem s) shared x else None)"
    using make_pd_built [OF sh n three ap] by auto
  have "fork_inv lo hi (mem s) (mem s1) parent child F 3 {} s1 F1" using m(2,3) by (simp add: fork_inv_def)
  then obtain s' F' k where c: "fork_copy parent child s1 = Inr s'"
    and inv: "fork_inv lo hi (mem s) (mem s1) parent child F k (half_addrs (set private_pdis)) s' F'"
    using fork_copy_spec [OF _ p room] by blast
  have b: "built lo hi (mem s) F child s' F'" using inv by (simp add: fork_inv_def)
  have D: "x \<in> half_addrs (set private_pdis) \<longleftrightarrow> 0x80000000 \<le> x" for x by (simp add: half_addrs_def private_half)
  have w1n: "walk (mem s1) child x = None"
    if "0x80000000 \<le> x" "ppn x \<noteq> ppn (ioAPIC cfg)" "ppn x \<noteq> ppn (localAPIC cfg)" for x
  proof -
    have "\<not> pdi x < shared_entries cfg" using that(1) n private_half [of x] by (simp add: set_private_pdis word_less_nat_alt)
    then show ?thesis using w1 that by simp
  qed
  have cp: "copied (mem s) (mem s1) parent child (F - F') (mem s') x" if "0x80000000 \<le> x" for x
    using inv D that by (simp add: fork_inv_def)
  show thesis
  proof (rule that [OF m(1) c])
    show "pd_inv lo hi s' child F'" using b by (simp add: built_def)
    show "child \<in> F" "F' \<subseteq> F" "same_except (F - F') (mem s) (mem s')" using builtD [OF b] by simp_all
    show "walk (mem s') parent x = walk (mem s) parent x" for x by (rule parent_same(3) [OF p builtD(8) [OF b]])
    show "case walk (mem s) parent x of None \<Rightarrow> walk (mem s') child x = None
        | Some e \<Rightarrow> \<exists>f \<in> F - F'. walk (mem s') child x = Some (f OR 7) \<and> frame_bytes (mem s') f = frame_bytes (mem s) (frame_mask e)"
      if "0x80000000 \<le> x" "ppn x \<noteq> ppn (ioAPIC cfg)" "ppn x \<noteq> ppn (localAPIC cfg)" for x
      using cp [OF that(1)] w1n [OF that] by (cases "walk (mem s) parent x") (auto simp: copied_def to_copy_def)
    show "ppn x = ppn y"
      if h: "0x80000000 \<le> x" "0x80000000 \<le> y" "{ppn x, ppn y} \<inter> {ppn (ioAPIC cfg), ppn (localAPIC cfg)} = {}"
        "walk (mem s') child x = walk (mem s') child y" "walk (mem s') child x \<noteq> None" for x y
    proof -
      have n: "walk (mem s1) child x = None" "walk (mem s1) child y = None" using h w1n by auto
      then have "to_copy (mem s) (mem s1) parent child x" "to_copy (mem s) (mem s1) parent child y"
        using cp [OF h(1)] cp [OF h(2)] h(4,5) by (auto simp: copied_def split: if_splits)
      then show ?thesis using inv D h unfolding fork_inv_def by blast
    qed
  qed
qed

lemma fork_full:
  "None \<notin> set (children p) \<Longrightarrow> fork cfg shared s k p = Inr (s, k, p, None, - 1)"
  using first_null_None [of 0 "children p"] by (simp add: fork_def split: option.splits)

lemma fork_sems: "length (sems p) = NSEM \<Longrightarrow> map2 (\<lambda>x y. if x \<noteq> None then x else y) (sems p) (replicate NSEM None) = sems p"
  by (intro nth_equalityI) auto

lemma adjust_nodes_uninit:
  assumes "\<exists>e \<in> set es. vm_node e = Uninit"
  shows "rfold (adjust_node d) es ns = Inl (Undefined_Behaviour ''VMEntry::node is not initialised'')"
  using assms
proof (induction es arbitrary: ns)
  case (Cons e es)
  then show ?case by (cases "vm_node e") (auto simp: adjust_node_def [of d e])
qed simp

text \<open>
  \<^bold>\<open>C38.\<close> \<^verbatim>\<open>Process::fork\<close> copies the address space (process.cc). With a free slot for a child and enough free
  frames for a directory, the parent's tables and its pages, the directory is made and the copy succeeds: the child's directory
  translates every private page the parent maps, and no
  other but the two APIC pages, each to a frame of its own that was free and that holds the same 4096
  bytes; only frames that were free have been written, so the parent's memory and translations are as
  before. Then \<^verbatim>\<open>fork\<close> reads the node pointer of every mapping. The constructor of \<^verbatim>\<open>VMEntry\<close> does not set it, and only a fault on
  a shared file does: with a mapping in which it was never set, as the stack that \<^verbatim>\<open>exec\<close> maps, the outcome is undefined.
  With all of them set or null (\<open>Null_Node\<close>: also what a block of the heap that was never used
  holds), \<^verbatim>\<open>fork\<close> succeeds: the child has this directory and the parent's mappings, files and semaphores; the parent's slot holds the child's
  exit future and kill flag, and the use counts of the nodes rise by the child's mappings of them.
\<close>

theorem fork_copies_address_space:
  assumes sh: "pd_inv lo hi s shared F" "parent_ok (mem s) (pd p) F" "unat (shared_entries cfg) \<le> 512"
      "0x80000000 \<le> ioAPIC cfg" "0x80000000 \<le> localAPIC cfg" "fork_need (mem s) (pd p) \<le> card F"
    and p: "proc_wf p" "None \<in> set (children p)"
      "\<forall>e \<in> set (entry_list p). \<forall>n. vm_node e = Node_At n \<longrightarrow> n < length (node_objs k)"
  shows "\<exists>s1 child s' F'. make_pd cfg shared s = Inr (s1, child) \<and> fork_copy (pd p) child s1 = Inr s' \<and>
    pd_inv lo hi s' child F' \<and> child \<in> F \<and> F' \<subseteq> F \<and> same_except (F - F') (mem s) (mem s') \<and>
    (\<forall>x. walk (mem s') (pd p) x = walk (mem s) (pd p) x) \<and>
    (\<forall>x \<ge> 0x80000000. ppn x \<noteq> ppn (ioAPIC cfg) \<longrightarrow> ppn x \<noteq> ppn (localAPIC cfg) \<longrightarrow>
       (case walk (mem s) (pd p) x of None \<Rightarrow> walk (mem s') child x = None
        | Some e \<Rightarrow> \<exists>f \<in> F - F'. walk (mem s') child x = Some (f OR 7) \<and> frame_bytes (mem s') f = frame_bytes (mem s) (frame_mask e))) \<and>
    (\<forall>x \<ge> 0x80000000. \<forall>y \<ge> 0x80000000. {ppn x, ppn y} \<inter> {ppn (ioAPIC cfg), ppn (localAPIC cfg)} = {} \<longrightarrow>
       walk (mem s') child x = walk (mem s') child y \<longrightarrow> walk (mem s') child x \<noteq> None \<longrightarrow> ppn x = ppn y) \<and>
    (if \<exists>e \<in> set (entry_list p). vm_node e = Uninit
     then fork cfg shared s k p = Inl (Undefined_Behaviour ''VMEntry::node is not initialised'')
     else \<exists>k' p' c i. fork cfg shared s k p = Inr (s', k', p', Some c, PROC OR of_nat i) \<and> i < NCHILD \<and> children p ! i = None \<and>
       p' = p\<lparr>children := (children p)[i := Some (proc_output c)], kill_flags := (kill_flags p)[i := Some (kill_flag c)]\<rparr> \<and>
       pd c = child \<and> entry_list c = entry_list p \<and> files c = files p \<and> sems c = sems p \<and> proc_wf c \<and>
       (\<forall>n < length (node_objs k). num_processes (node_objs k' ! n) =
          num_processes (node_objs k ! n) + of_nat (node_uses n (entry_list p))))"
proof -
  obtain i where fn: "first_null 0 (children p) = Some i" using p(2) first_null_None [of 0 "children p"] by auto
  then have i: "i < NCHILD" "children p ! i = None" using p(1) by (auto simp: first_null_Some proc_wf_def)
  obtain s1 child s' F' where run: "make_pd cfg shared s = Inr (s1, child)" "fork_copy (pd p) child s1 = Inr s'"
    and mem: "pd_inv lo hi s' child F'" "child \<in> F" "F' \<subseteq> F" "same_except (F - F') (mem s) (mem s')"
      "\<And>x. walk (mem s') (pd p) x = walk (mem s) (pd p) x"
      "\<And>x. 0x80000000 \<le> x \<Longrightarrow> ppn x \<noteq> ppn (ioAPIC cfg) \<Longrightarrow> ppn x \<noteq> ppn (localAPIC cfg) \<Longrightarrow>
        (case walk (mem s) (pd p) x of None \<Rightarrow> walk (mem s') child x = None
        | Some e \<Rightarrow> \<exists>f \<in> F - F'. walk (mem s') child x = Some (f OR 7) \<and> frame_bytes (mem s') f = frame_bytes (mem s) (frame_mask e))"
      "\<And>x y. 0x80000000 \<le> x \<Longrightarrow> 0x80000000 \<le> y \<Longrightarrow> {ppn x, ppn y} \<inter> {ppn (ioAPIC cfg), ppn (localAPIC cfg)} = {} \<Longrightarrow>
        walk (mem s') child x = walk (mem s') child y \<Longrightarrow> walk (mem s') child x \<noteq> None \<Longrightarrow> ppn x = ppn y"
    by (rule fork_space [OF sh]) blast
  have w: "\<forall>x. walk (mem s') (pd p) x = walk (mem s) (pd p) x"
    "\<forall>x \<ge> 0x80000000. ppn x \<noteq> ppn (ioAPIC cfg) \<longrightarrow> ppn x \<noteq> ppn (localAPIC cfg) \<longrightarrow>
       (case walk (mem s) (pd p) x of None \<Rightarrow> walk (mem s') child x = None
        | Some e \<Rightarrow> \<exists>f \<in> F - F'. walk (mem s') child x = Some (f OR 7) \<and> frame_bytes (mem s') f = frame_bytes (mem s) (frame_mask e))"
    "(\<forall>x \<ge> 0x80000000. \<forall>y \<ge> 0x80000000. {ppn x, ppn y} \<inter> {ppn (ioAPIC cfg), ppn (localAPIC cfg)} = {} \<longrightarrow>
       walk (mem s') child x = walk (mem s') child y \<longrightarrow> walk (mem s') child x \<noteq> None \<longrightarrow> ppn x = ppn y)"
    by (rule allI, rule mem(5)) (intro allI impI, rule mem(6), assumption+, intro allI impI, rule mem(7), assumption+)
  have no: "node_objs (fst (process_new False child k)) = node_objs k" by (simp add: process_new_def Let_def)
  have out: "if \<exists>e \<in> set (entry_list p). vm_node e = Uninit
     then fork cfg shared s k p = Inl (Undefined_Behaviour ''VMEntry::node is not initialised'')
     else \<exists>k' p' c i. fork cfg shared s k p = Inr (s', k', p', Some c, PROC OR of_nat i) \<and> i < NCHILD \<and> children p ! i = None \<and>
       p' = p\<lparr>children := (children p)[i := Some (proc_output c)], kill_flags := (kill_flags p)[i := Some (kill_flag c)]\<rparr> \<and>
       pd c = child \<and> entry_list c = entry_list p \<and> files c = files p \<and> sems c = sems p \<and> proc_wf c \<and>
       (\<forall>n < length (node_objs k). num_processes (node_objs k' ! n) =
          num_processes (node_objs k ! n) + of_nat (node_uses n (entry_list p)))"
  proof (cases "\<exists>e \<in> set (entry_list p). vm_node e = Uninit")
    case True
    then have "fork cfg shared s k p = Inl (Undefined_Behaviour ''VMEntry::node is not initialised'')"
      using fn run by (simp add: fork_def case_prod_beta adjust_nodes_uninit [OF True] no)
    then show ?thesis unfolding if_P [OF True] .
  next
    case False
    then have "\<forall>e \<in> set (entry_list p). vm_node e \<noteq> Uninit" by blast
    from adjust_nodes_spec [OF this p(3), of 1]
    obtain ns where ns: "rfold (adjust_node 1) (entry_list p) (node_objs k) = Inr ns"
      "\<forall>n < length (node_objs k). ns ! n = (node_objs k ! n)\<lparr>num_processes := num_processes (node_objs k ! n) + of_nat (node_uses n (entry_list p)) * 1\<rparr>"
      by blast
    let ?c = "(snd (process_new False child k))\<lparr>entry_list := entry_list p, sems := sems p, files := files p\<rparr>"
    let ?k = "(fst (process_new False child k))\<lparr>node_objs := ns\<rparr>"
    let ?p = "p\<lparr>children := (children p)[i := Some (proc_output ?c)], kill_flags := (kill_flags p)[i := Some (kill_flag ?c)]\<rparr>"
    have f: "fork cfg shared s k p = Inr (s', ?k, ?p, Some ?c, PROC OR of_nat i)"
      using fn run ns(1) p(1) fork_sems [of p] no by (simp add: fork_def process_new_def Let_def proc_wf_def)
    have c: "pd ?c = child" "entry_list ?c = entry_list p" "files ?c = files p" "sems ?c = sems p" "proc_wf ?c"
      using p(1) by (simp_all add: process_new_def Let_def proc_wf_def)
    have n: "\<forall>n < length (node_objs k). num_processes (node_objs ?k ! n) =
        num_processes (node_objs k ! n) + of_nat (node_uses n (entry_list p))" using ns(2) by simp
    show ?thesis
      unfolding if_not_P [OF False]
      by (rule exI [of _ ?k], rule exI [of _ ?p], rule exI [of _ ?c], rule exI [of _ i], intro conjI) (rule refl | fact f i c n)+
  qed
  show ?thesis
    by (rule exI [of _ s1], rule exI [of _ child], rule exI [of _ s'], rule exI [of _ F'], intro conjI) (fact run mem(1-4) w out)+
qed

text \<open>A parent with one page: its directory is the first frame of the pool, its table the second.\<close>

definition parent_mem :: memory where
  "parent_mem = set32 (set32 (\<lambda>_. 0) 0x100000 512 (0x101000 OR 7)) 0x101000 0 (0x5000 OR 7)"

definition parent_phys :: physmem where
  "parent_phys = \<lparr>mem = parent_mem, firstFree = 0, avail = 0x102000, limit = 0x200000\<rparr>"

lemma parent_mem_facts:
  "pd_wf parent_mem 0x100000" "pd_frames parent_mem 0x100000 = {0x100000, 0x101000}"
  "walk parent_mem 0x100000 0x80000000 = Some 0x5007" "ppn x \<noteq> ppn 0x80000000 \<Longrightarrow> walk parent_mem 0x100000 x = None"
  "zero_frame parent_mem 0x3000"
proof -
  have al: "aligned 0x100000" "aligned 0x101000" "aligned 0x3000" by (simp_all add: offset_def)
  note e = empty_directory [of "\<lambda>_. 0" "0x100000", OF _ al(1)]
  have z: "zero_frame (\<lambda>_. 0) p" for p by (simp add: zero_frame_def)
  have n: "unat (512 :: u32) < 1024" "\<not> present (pde_of (\<lambda>_. 0) 0x100000 512)" "0x101000 \<notin> pd_frames (\<lambda>_. 0) 0x100000"
    using zero_frame_get32 [OF z al(1), of 512] e(2) [OF z] by simp_all
  note a = set_pde_walk [OF e(1) [OF z] n(1,2) al(2) n(3) z]
  have va: "pdi 0x80000000 = 512" "pti 0x80000000 = 0" by (simp_all add: pdi_def pti_def)
  note b = set_pte_walk [OF a(2), of "0x80000000", where e = "0x5000 OR 7", unfolded va, OF a(4), unfolded a(5), folded parent_mem_def]
  have "present (0x5000 OR 7)" by (simp add: present_def)
  then show "pd_wf parent_mem 0x100000" "pd_frames parent_mem 0x100000 = {0x100000, 0x101000}"
    "walk parent_mem 0x100000 0x80000000 = Some 0x5007"
    using b(1,3,4) a(3) e(2) [OF z] by auto
  show "walk parent_mem 0x100000 x = None" if "ppn x \<noteq> ppn 0x80000000" for x using b(2) [OF that] a(1) e(3) [OF z] by simp
  have se: "same_except {0x100000, 0x101000} (\<lambda>_. 0) parent_mem"
    by (rule same_except_mono [OF same_except_trans [OF a(6) b(5)]]) auto
  show "zero_frame parent_mem 0x3000" using se al(3) by (auto simp: zero_frame_def same_except_def in_frame_def)
qed

lemma parent_phys_inv:
  "pd_inv 0x100000 0x200000 parent_phys 0x3000 (frame_pool 0x102000 0x200000)"
  "parent_ok parent_mem 0x100000 (frame_pool 0x102000 0x200000)" "fork_need parent_mem 0x100000 \<le> 5"
  "5 \<le> card (frame_pool 0x102000 0x200000)"
proof -
  note e = empty_directory [OF parent_mem_facts(5)]
  show "pd_inv 0x100000 0x200000 parent_phys 0x3000 (frame_pool 0x102000 0x200000)"
    using e by (auto simp: pd_inv_def parent_phys_def pm_inv_def pm_wf_def free_frames_def offset_def frame_pool_def intro!: exI [of _ "[]"])
  have w: "walk parent_mem 0x100000 x = Some e \<Longrightarrow> ppn x = ppn 0x80000000 \<and> e = 0x5007" for x e
    using parent_mem_facts(3,4) walk_page [of x "0x80000000" parent_mem "0x100000"] by (cases "ppn x = ppn 0x80000000") auto
  then show "parent_ok parent_mem 0x100000 (frame_pool 0x102000 0x200000)"
    using parent_mem_facts(1,2) by (fastforce simp: parent_ok_def frame_pool_def frame_mask_def)
  have "pages parent_mem 0x100000 (half_addrs (set private_pdis)) \<subseteq> {ppn 0x80000000}" using w by (auto simp: pages_def)
  then have p: "card (pages parent_mem 0x100000 (half_addrs (set private_pdis))) \<le> 1" using card_mono [of "{ppn 0x80000000}"] by fastforce
  have "pt_of parent_mem 0x100000 i = 0x101000" if "pt_index parent_mem 0x100000 i" for i
    using pt_in_pd_frames [OF that] parent_mem_facts(1,2) that by (auto simp: pd_wf_def)
  then have "i = j" if "pt_index parent_mem 0x100000 i" "pt_index parent_mem 0x100000 j" for i j
    using parent_mem_facts(1) that unfolding pd_wf_def by metis
  then have "card (tables_in parent_mem 0x100000 (set private_pdis)) \<le> Suc 0" by (auto simp: card_le_Suc0_iff_eq tables_in_def)
  then show "fork_need parent_mem 0x100000 \<le> 5" using p by (simp add: fork_need_def)
  have "{0x102000, 0x103000, 0x104000, 0x105000, 0x106000} \<subseteq> frame_pool 0x102000 0x200000" by (simp add: frame_pool_def offset_def)
  from card_mono [OF _ this] show "5 \<le> card (frame_pool 0x102000 0x200000)" by simp
qed

text \<open>
  Its mappings are a stack, whose node pointer is \<open>np\<close>, and a file that it shares with another process.
\<close>

definition fork_parent :: "node_ptr \<Rightarrow> process" where
  "fork_parent np = boot_process\<lparr>pd := 0x100000, entry_list :=
     [(new_entry 0x90000000 0x1000 2 1 0 (Some 12))\<lparr>vm_node := Node_At 0\<rparr>, (new_entry 0xefc2d000 0x3d1000 10 1 0 None)\<lparr>vm_node := np\<rparr>]\<rparr>"

definition fork_objects :: kobjects where
  "fork_objects = boot_objects\<lparr>node_objs := [\<lparr>node_file = 12, num_processes = 2, node_pa = 0x7000\<rparr>], node_list := [0]\<rparr>"

theorem fork_copies_address_space_witness:
  "(\<exists>s' k' p' c i f. fork sample_config 0x3000 parent_phys fork_objects (fork_parent Null_Node) = Inr (s', k', p', Some c, PROC OR of_nat i) \<and>
     walk (mem s') (pd c) 0x80000000 = Some (f OR 7) \<and> frame_bytes (mem s') f = frame_bytes parent_mem 0x5000 \<and>
     walk (mem s') 0x100000 0x80000000 = Some 0x5007 \<and> num_processes (node_objs k' ! 0) = 3) \<and>
   fork sample_config 0x3000 parent_phys fork_objects (fork_parent Uninit) = Inl (Undefined_Behaviour ''VMEntry::node is not initialised'')"
proof -
  let ?p = "fork_parent" and ?F = "frame_pool 0x102000 0x200000"
  have p: "proc_wf (?p np)" "None \<in> set (children (?p np))" for np
    by (simp_all add: fork_parent_def boot_process_def process_new_def proc_wf_def Let_def NCHILD_def)
  have pn: "\<forall>e \<in> set (entry_list (?p np)). \<forall>n. vm_node e = Node_At n \<longrightarrow> n < length (node_objs fork_objects)"
    if "\<forall>n. np \<noteq> Node_At n" for np using that by (simp add: fork_parent_def fork_objects_def)
  have e: "pd (?p np) = 0x100000" "mem parent_phys = parent_mem" for np by (simp_all add: fork_parent_def parent_phys_def)
  have c: "unat (shared_entries sample_config) \<le> 512" "0x80000000 \<le> ioAPIC sample_config" "0x80000000 \<le> localAPIC sample_config"
    by (simp_all add: shared_entries_def sample_config_def)
  have ap: "ppn 0x80000000 \<noteq> ppn (ioAPIC sample_config)" "ppn 0x80000000 \<noteq> ppn (localAPIC sample_config)"
    by (simp_all add: ppn_def sample_config_def)
  have room: "fork_need parent_mem 0x100000 \<le> card ?F" using parent_phys_inv(3,4) by (rule le_trans)
  note t = fork_copies_address_space [OF parent_phys_inv(1) _ c _ p pn, unfolded e, OF parent_phys_inv(2) room]
  have u: "(\<exists>e \<in> set (entry_list (?p np)). vm_node e = Uninit) = (np = Uninit)" for np by (simp add: fork_parent_def)
  have n: "\<forall>n. Null_Node \<noteq> Node_At n" "\<forall>n. Uninit \<noteq> Node_At n" by simp_all
  have nu: "Null_Node \<noteq> Uninit" by simp
  have un: "fork sample_config 0x3000 parent_phys fork_objects (?p Uninit) = Inl (Undefined_Behaviour ''VMEntry::node is not initialised'')"
    using t [OF n(2)] unfolding u by (elim exE conjE) simp
  obtain s' k' p' child c i F' where f: "fork sample_config 0x3000 parent_phys fork_objects (?p Null_Node) = Inr (s', k', p', Some c, PROC OR of_nat i)"
    "pd c = child" "num_processes (node_objs k' ! 0) = num_processes (node_objs fork_objects ! 0) + of_nat (node_uses 0 (entry_list (?p Null_Node)))"
    and w: "\<forall>x. walk (mem s') 0x100000 x = walk parent_mem 0x100000 x"
    "\<forall>x \<ge> 0x80000000. ppn x \<noteq> ppn (ioAPIC sample_config) \<longrightarrow> ppn x \<noteq> ppn (localAPIC sample_config) \<longrightarrow>
       (case walk parent_mem 0x100000 x of None \<Rightarrow> walk (mem s') child x = None
        | Some e \<Rightarrow> \<exists>f \<in> ?F - F'. walk (mem s') child x = Some (f OR 7) \<and> frame_bytes (mem s') f = frame_bytes parent_mem (frame_mask e))"
    using t [OF n(1)] unfolding u if_not_P [OF nu]
    by (elim exE conjE) (rule that, assumption+, simp add: fork_objects_def, assumption+)
  have "num_processes (node_objs k' ! 0) = 3" using f(3) by (simp add: fork_objects_def fork_parent_def node_uses_def)
  moreover have "frame_mask 0x5007 = 0x5000" by (simp add: frame_mask_def)
  then obtain g where "walk (mem s') child 0x80000000 = Some (g OR 7)" "frame_bytes (mem s') g = frame_bytes parent_mem 0x5000"
    using w(2) [THEN spec [of _ "0x80000000"]] ap parent_mem_facts(3) by auto
  ultimately show ?thesis using f(1,2) w(1) parent_mem_facts(3) un by fastforce
qed

end
