(* ===== verification/Priority_Queue.thy ===== *)
theory Priority_Queue
  imports Linked_Chain
begin

text \<open>
  The ready queue of \<^verbatim>\<open>kernel/priority_queue.h\<close>: a chain kept in the order of the run time of the
  threads' processes. The run time of a thread (\<^verbatim>\<open>t->process->run_time->get()\<close>, a C \<^verbatim>\<open>int\<close>) is read
  through the argument \<open>rt\<close>. The search of \<^verbatim>\<open>add\<close> need not end on a cyclic chain (\<open>None\<close>).
\<close>

subsection \<open>State and operations (priority\_queue.h)\<close>

record pqueue =
  pnext :: "ptr \<Rightarrow> ptr"
  pfirst :: ptr
  psize :: u32

definition pq_new :: "(ptr \<Rightarrow> ptr) \<Rightarrow> pqueue" where
  "pq_new nxt = \<lparr>pnext = nxt, pfirst = nullptr, psize = 0\<rparr>"

partial_function (option) pq_search ::
  "(ptr \<Rightarrow> int) \<Rightarrow> (ptr \<Rightarrow> ptr) \<Rightarrow> ptr \<Rightarrow> ptr \<Rightarrow> ptr \<Rightarrow> (ptr \<times> ptr) option" where
  "pq_search rt nxt t prv tmp =
     (if tmp \<noteq> nullptr \<and> rt tmp \<le> rt t then pq_search rt nxt t tmp (nxt tmp)
      else Some (prv, tmp))"

definition pq_add :: "(ptr \<Rightarrow> int) \<Rightarrow> pqueue \<Rightarrow> ptr \<Rightarrow> pqueue result option" where
  "pq_add rt q t =
     (if pfirst q = nullptr \<or> rt t < rt (pfirst q) then
        Some (Inr (q\<lparr>pnext := (pnext q)(t := pfirst q), pfirst := t, psize := psize q + 1\<rparr>))
      else
        map_option (\<lambda>(prv, tmp).
            if prv = nullptr then Inl (Undefined_Behaviour ''prev->next of a null pointer'')
            else Inr (q\<lparr>pnext := (pnext q)(prv := t, t := tmp)\<rparr>))
          (pq_search rt (pnext q) t nullptr (pfirst q)))"

definition pq_remove :: "pqueue \<Rightarrow> pqueue \<times> ptr" where
  "pq_remove q =
     (if pfirst q = nullptr then (q, nullptr)
      else let it = pfirst q in (q\<lparr>pfirst := pnext q it\<rparr>, it))"

definition pq_remove_all :: "pqueue \<Rightarrow> pqueue \<times> ptr" where
  "pq_remove_all q = (q\<lparr>pfirst := nullptr\<rparr>, pfirst q)"

subsection \<open>Refinement to lists\<close>

definition pq_rel :: "pqueue \<Rightarrow> ptr list \<Rightarrow> bool" where
  "pq_rel q xs \<longleftrightarrow> chain (pnext q) (pfirst q) xs"

text \<open>Where \<^verbatim>\<open>add\<close> puts a thread: before the first one with a greater run time.\<close>

definition pq_ins :: "(ptr \<Rightarrow> int) \<Rightarrow> ptr \<Rightarrow> ptr list \<Rightarrow> ptr list" where
  "pq_ins rt t xs = takeWhile (\<lambda>x. rt x \<le> rt t) xs @ t # dropWhile (\<lambda>x. rt x \<le> rt t) xs"

lemma pq_search_eq:
  assumes "chain nxt tmp xs"
  shows "pq_search rt nxt t prv tmp =
    Some (last (prv # takeWhile (\<lambda>x. rt x \<le> rt t) xs),
          case dropWhile (\<lambda>x. rt x \<le> rt t) xs of [] \<Rightarrow> nullptr | y # ys \<Rightarrow> y)"
  using assms
proof (induction xs arbitrary: prv tmp)
  case Nil
  then show ?case by (subst pq_search.simps) simp
next
  case (Cons x xs)
  then show ?case by (subst pq_search.simps) auto
qed

lemma pq_new_rel: "pq_rel (pq_new nxt) []"
  by (simp add: pq_rel_def pq_new_def)

lemma pq_ins_mset: "mset (pq_ins rt t xs) = add_mset t (mset xs)"
  by (simp add: pq_ins_def) (metis mset_append takeWhile_dropWhile_id)

lemma pq_add_front:
  assumes "pq_rel q xs" "xs = [] \<or> rt t < rt (hd xs)" "t \<noteq> nullptr" "t \<notin> set xs"
  shows "\<exists>q'. pq_add rt q t = Some (Inr q') \<and> pq_rel q' (t # xs) \<and> psize q' = psize q + 1"
  using assms by (cases xs) (auto simp: pq_add_def pq_rel_def)

lemma pq_add_middle:
  assumes q: "pq_rel q xs" and x: "xs \<noteq> []" "\<not> rt t < rt (hd xs)" and t: "t \<noteq> nullptr" "t \<notin> set xs"
  shows "\<exists>q'. pq_add rt q t = Some (Inr q') \<and> pq_rel q' (pq_ins rt t xs) \<and> psize q' = psize q"
proof -
  let ?as = "takeWhile (\<lambda>x. rt x \<le> rt t) xs" and ?bs = "dropWhile (\<lambda>x. rt x \<le> rt t) xs"
  have c: "chain (pnext q) (pfirst q) xs" using q by (simp add: pq_rel_def)
  have f: "pfirst q \<noteq> nullptr" "pfirst q = hd xs" using c x(1) by (cases xs; auto)+
  have "?as \<noteq> []" using x by (cases xs) auto
  then obtain us v where as: "?as = us @ [v]" by (cases ?as rule: rev_cases) auto
  have xs: "xs = us @ v # ?bs" using as takeWhile_dropWhile_id [of "\<lambda>x. rt x \<le> rt t" xs] by simp
  let ?tmp = "case ?bs of [] \<Rightarrow> nullptr | y # ys \<Rightarrow> y"
  have v: "v \<noteq> nullptr" "v \<noteq> t" using chain_nullptr [OF c] t(2) xs by (metis in_set_conv_decomp)+
  have "chain (pnext q) (pnext q v) ?bs"
    using chain_suffix [of "pnext q" "pfirst q" us v ?bs] c xs by simp
  then have b1: "chain (pnext q) ?tmp ?bs"
    by (metis (no_types, lifting) chain.simps list.case list.exhaust)
  have b2: "t \<notin> set ?bs" using t(2) by (auto dest: set_dropWhileD)
  have "distinct (us @ v # ?bs)" using chain_distinct [OF c] xs by simp
  then have b3: "v \<notin> set ?bs" by simp
  note bs = b1 b2 b3
  let ?n = "(pnext q)(t := ?tmp)"
  have "chain ?n (pfirst q) (us @ v # ?bs)" using c t(2) xs by (metis chain_upd)
  moreover have "chain (?n(v := t)) t (t # ?bs)" using bs t(1) v(2) by simp
  ultimately have "chain (?n(v := t)) (pfirst q) (us @ v # t # ?bs)" by (rule chain_splice)
  moreover have "?n(v := t) = (pnext q)(v := t, t := ?tmp)" using v(2) by (simp add: fun_upd_twist)
  ultimately have "chain ((pnext q)(v := t, t := ?tmp)) (pfirst q) (pq_ins rt t xs)"
    by (simp add: pq_ins_def as)
  then show ?thesis
    using x(2) f v(1) as pq_search_eq [OF c, of rt t nullptr] by (simp add: pq_add_def pq_rel_def)
qed

lemma pq_add_rel:
  assumes "pq_rel q xs" "t \<noteq> nullptr" "t \<notin> set xs"
  shows "\<exists>q'. pq_add rt q t = Some (Inr q') \<and> pq_rel q' (pq_ins rt t xs)"
proof (cases "xs = [] \<or> rt t < rt (hd xs)")
  case True
  then have "pq_ins rt t xs = t # xs" by (cases xs) (auto simp: pq_ins_def)
  then show ?thesis using pq_add_front [OF assms(1) True assms(2,3)] by auto
next
  case False
  then show ?thesis using pq_add_middle [of q xs rt t] assms by auto
qed

lemma pq_remove_rel:
  "pq_rel q [] \<Longrightarrow> pq_remove q = (q, nullptr)"
  "pq_rel q (x # xs) \<Longrightarrow> \<exists>q'. pq_remove q = (q', x) \<and> pq_rel q' xs"
  by (auto simp: pq_rel_def pq_remove_def)

lemma pq_remove_all_rel:
  "pq_rel q xs \<Longrightarrow> \<exists>q' p. pq_remove_all q = (q', p) \<and> pq_rel q' [] \<and> chain (pnext q') p xs"
  by (auto simp: pq_rel_def pq_remove_all_def)

interpretation pq: chain_queue pq_rel "pq_ins rt" "pq_add rt" pq_remove pq_remove_all pnext for rt
proof unfold_locales
  show "\<exists>p. chain (pnext q) p xs" if "pq_rel q xs" for q xs
    using that by (auto simp: pq_rel_def)
qed (auto simp: pq_ins_mset intro: pq_add_rel dest: pq_remove_rel pq_remove_all_rel)

subsection \<open>Order\<close>

lemma pq_ins_sorted:
  assumes "sorted (map rt xs)"
  shows "sorted (map rt (pq_ins rt t xs))"
  using assms
proof (induction xs)
  case Nil
  then show ?case by (simp add: pq_ins_def)
next
  case (Cons x xs)
  have "set (pq_ins rt t xs) = insert t (set xs)"
    by (metis pq_ins_mset set_mset_add_mset_insert set_mset_mset)
  moreover have "pq_ins rt t (x # xs) = (if rt x \<le> rt t then x # pq_ins rt t xs else t # x # xs)"
    by (simp add: pq_ins_def)
  ultimately show ?case using Cons by force
qed

lemma pq_ins_stable:
  "filter (\<lambda>x. rt x = k) (pq_ins rt t xs) = (if rt t = k then filter (\<lambda>x. rt x = k) xs @ [t] else filter (\<lambda>x. rt x = k) xs)"
  if "sorted (map rt xs)"
proof -
  have "filter (\<lambda>x. rt x = rt t) (dropWhile (\<lambda>x. rt x \<le> rt t) xs) = []"
    using that by (induction xs) (auto simp: filter_empty_conv)
  then have "rt t = k \<Longrightarrow> filter (\<lambda>x. rt x = k) (dropWhile (\<lambda>x. rt x \<le> rt t) xs) = []" by simp
  moreover have "filter (\<lambda>x. rt x = k) xs =
      filter (\<lambda>x. rt x = k) (takeWhile (\<lambda>x. rt x \<le> rt t) xs) @
      filter (\<lambda>x. rt x = k) (dropWhile (\<lambda>x. rt x \<le> rt t) xs)"
    by (metis filter_append takeWhile_dropWhile_id)
  ultimately show ?thesis by (cases "rt t = k") (simp_all add: pq_ins_def)
qed

text \<open>Filling an empty ready queue sorts the threads by run time, equal run times in arrival order.\<close>

lemma pq_fold_sort: "fold (pq_ins rt) ts [] = sort_key rt ts"
proof -
  have "sorted (map rt (fold (pq_ins rt) ts xs)) \<and>
      filter (\<lambda>x. rt x = k) (fold (pq_ins rt) ts xs) = filter (\<lambda>x. rt x = k) (xs @ ts)"
    if "sorted (map rt xs)" for xs k
    using that
  proof (induction ts arbitrary: xs)
    case (Cons t ts)
    have "sorted (map rt (pq_ins rt t xs))" using Cons.prems by (rule pq_ins_sorted)
    from Cons.IH [OF this] show ?case using pq_ins_stable [OF Cons.prems, of k t] by simp
  qed simp
  from this [of "[]"] have s: "sorted (map rt (fold (pq_ins rt) ts []))"
    and f: "filter (\<lambda>x. rt x = k) (fold (pq_ins rt) ts []) = filter (\<lambda>x. rt x = k) ts" for k
    by simp_all
  have m: "mset (fold (pq_ins rt) ts xs) = mset xs + mset ts" for xs
    by (induction ts arbitrary: xs) (simp_all add: pq_ins_mset)
  have "mset (fold (pq_ins rt) ts []) = mset ts" using m [of "[]"] by simp
  moreover have "filter (\<lambda>x. rt k = rt x) (fold (pq_ins rt) ts []) = filter (\<lambda>x. rt k = rt x) ts" for k
    using f [of "rt k"] by (simp only: eq_commute [of "rt k"])
  ultimately show ?thesis using s by (intro properties_for_sort_key [symmetric])
qed

subsection \<open>Properties\<close>

text \<open>
  \<^bold>\<open>C15.\<close> The ready queue orders threads by run time (priority\_queue.h). Adding distinct threads to an
  empty queue while run times stay fixed, and removing until nothing is left, returns them sorted by
  the run time of their processes, threads with equal run time in the order of their arrival.
\<close>

theorem ready_queue_stable_sort:
  assumes "distinct ts" "nullptr \<notin> set ts" "length ts < n"
  shows "\<exists>q q'. fill (pq_add rt) ts (pq_new nxt) = Some (Inr q) \<and>
    drain pq_remove n q = (q', sort_key rt ts) \<and> pq_rel q' []"
  using pq.fill_drain [OF pq_new_rel assms, of rt] by (simp add: pq_fold_sort)

theorem ready_queue_stable_sort_witness:
  "\<exists>q q'. fill (pq_add (\<lambda>t. if t = 8 then 1 else 2)) [12, 4, 8] (pq_new (\<lambda>_. 0)) = Some (Inr q) \<and>
     drain pq_remove 5 q = (q', [8, 12, 4]) \<and> pq_rel q' []"
  using ready_queue_stable_sort [of "[12, 4, 8]" 5 "\<lambda>t. if t = 8 then 1 else 2" "\<lambda>_. 0"] by simp

text \<open>
  The field \<^verbatim>\<open>size\<close> does not count the queue (priority\_queue.h). Adding a thread that does not
  go to the front leaves \<^verbatim>\<open>size\<close> unchanged, and removing one never changes it; idle cores that
  monitor this field are not woken by such an addition.
\<close>

theorem ready_queue_size_not_counted:
  assumes "pq_rel q xs" "xs \<noteq> []" "rt (hd xs) \<le> rt t" "t \<noteq> nullptr" "t \<notin> set xs"
  shows "\<exists>q'. pq_add rt q t = Some (Inr q') \<and> pq_rel q' (pq_ins rt t xs) \<and> psize q' = psize q \<and>
    psize (fst (pq_remove q')) = psize q'"
  using pq_add_middle [OF assms(1,2) _ assms(4,5), of rt] assms(3) by (auto simp: pq_remove_def Let_def not_less)

theorem ready_queue_size_not_counted_witness:
  "\<exists>q'. pq_add (\<lambda>_. 0) \<lparr>pnext = (\<lambda>_. 0), pfirst = 4, psize = 1\<rparr> 8 = Some (Inr q') \<and>
     pq_rel q' [4, 8] \<and> psize q' = 1"
  using ready_queue_size_not_counted [of "\<lparr>pnext = (\<lambda>_. 0), pfirst = 4, psize = 1\<rparr>" "[4]" "\<lambda>_. 0" 8]
  by (auto simp: pq_rel_def pq_ins_def)

end
