(* ===== verification/Scheduler.thy ===== *)
theory Scheduler
  imports Process_Tables Priority_Queue
begin

text \<open>
  Threads and the scheduler: \<^verbatim>\<open>kernel/threads.h\<close>, \<^verbatim>\<open>kernel/threads.cc\<close>, the switch of
  \<^verbatim>\<open>kernel/context.s\<close> and the timer handler of \<^verbatim>\<open>kernel/pit.cc\<close>. The ready queue and the zombies are
  the linked queues of the theories \<open>Priority_Queue\<close> and \<open>Thread_Queue\<close> over one common map of
  \<^verbatim>\<open>TCB::next\<close> fields; the queues of threads that wait for semaphores and futures are in the kernel
  objects. A core is its number. \<open>tcbs\<close> lists the thread control blocks that are allocated, so that
  a deleted one is recognised. Every call runs with interrupts disabled or under the lock of the
  queue it changes, so each is one transition.
\<close>

subsection \<open>State (threads.h, threads.cc)\<close>

record sched =
  tnext :: "ptr \<Rightarrow> ptr"
  rq_first :: ptr
  rq_size :: u32
  zq_first :: ptr
  zq_last :: ptr
  activeThreads :: "ptr list"
  idleThreads :: "ptr list"
  isIdle :: "ptr \<Rightarrow> bool"
  tcb_id :: "ptr \<Rightarrow> u32"
  next_id :: u32
  tproc :: "ptr \<Rightarrow> nat"
  no_preempt :: "ptr \<Rightarrow> u32"
  interruptEsp :: "ptr \<Rightarrow> u32"
  esp0 :: "u32 list"
  procs :: "process list"
  kobj :: kobjects
  jiffies :: u32
  tcbs :: "ptr list"

definition readyQ :: "sched \<Rightarrow> pqueue" where
  "readyQ s = \<lparr>pnext = tnext s, pfirst = rq_first s, psize = rq_size s\<rparr>"

definition set_readyQ :: "sched \<Rightarrow> pqueue \<Rightarrow> sched" where
  "set_readyQ s q = s\<lparr>tnext := pnext q, rq_first := pfirst q, rq_size := psize q\<rparr>"

definition zombies :: "sched \<Rightarrow> tqueue" where
  "zombies s = \<lparr>qnext = tnext s, qfirst = zq_first s, qlast = zq_last s\<rparr>"

definition set_zombies :: "sched \<Rightarrow> tqueue \<Rightarrow> sched" where
  "set_zombies s q = s\<lparr>tnext := qnext q, zq_first := qfirst q, zq_last := qlast q\<rparr>"

definition run_time_of :: "sched \<Rightarrow> ptr \<Rightarrow> int" where
  "run_time_of s t = run_time (procs s ! tproc s t)"

definition current :: "sched \<Rightarrow> nat \<Rightarrow> ptr" where
  "current s core = activeThreads s ! core"

subsection \<open>Scheduling (threads.h, threads.cc)\<close>

definition schedule :: "sched \<Rightarrow> ptr \<Rightarrow> sched result option" where
  "schedule s t =
     (if \<not> isIdle s t
      then obind (pq_add (run_time_of s) (readyQ s) t) (\<lambda>q. Some (Inr (set_readyQ s q)))
      else Some (Inr s))"

datatype block_option = MustBlock | CanReturn

text \<open>
  \<^verbatim>\<open>block\<close> returns at once when nothing is ready and it may; an idle thread spins until something is;
  otherwise it switches, and \<open>f\<close> runs on the new stack with the thread that was left.
\<close>

datatype block_outcome = Returned | Spins | Switched

definition contextSwitch :: "sched \<Rightarrow> ptr \<Rightarrow> ptr \<Rightarrow> sched" where
  "contextSwitch s me nxt = s\<lparr>no_preempt := (no_preempt s)(me := 0, nxt := 0)\<rparr>"

definition switch_to :: "nat \<Rightarrow> ptr \<Rightarrow> ptr \<Rightarrow> sched \<Rightarrow> sched" where
  "switch_to core me nxt s =
     (let s = s\<lparr>no_preempt := (no_preempt s)(nxt := 1)\<rparr>;
          s = s\<lparr>activeThreads := (activeThreads s)[core := nxt]\<rparr>;
          s = s\<lparr>esp0 := (esp0 s)[core := interruptEsp s nxt]\<rparr>
      in contextSwitch s me nxt)"

definition block :: "nat \<Rightarrow> bool \<Rightarrow> block_option \<Rightarrow> (sched \<Rightarrow> ptr \<Rightarrow> sched result option) \<Rightarrow> sched \<Rightarrow>
    (sched \<times> block_outcome) result option" where
  "block core irq_on opt f s =
     (let me = activeThreads s ! core;
          s = s\<lparr>no_preempt := (no_preempt s)(me := 1)\<rparr>;
          (q, next_tcb) = pq_remove (readyQ s);
          s = set_readyQ s q
      in if next_tcb = nullptr \<and> opt = CanReturn then Some (Inr (s, Returned))
         else if next_tcb = nullptr \<and> isIdle s me then
           Some (assert_k irq_on ''!Interrupts::isDisabled()''
             (assert_k (me = idleThreads s ! core) ''me == idleThreads[core_id]''
               (assert_k (me = activeThreads s ! core) ''me == activeThreads[core_id]'' (Inr (s, Spins)))))
         else
           let next_tcb = (if next_tcb = nullptr then idleThreads s ! core else next_tcb) in
           obind (f (switch_to core me next_tcb s) me) (\<lambda>s. Some (Inr (s, Switched))))"

definition yield :: "nat \<Rightarrow> bool \<Rightarrow> sched \<Rightarrow> (sched \<times> block_outcome) result option" where
  "yield core irq_on s = block core irq_on CanReturn schedule s"

text \<open>One round of the loop of \<^verbatim>\<open>stop\<close>; only an idle thread comes back for another one.\<close>

definition stop :: "nat \<Rightarrow> bool \<Rightarrow> sched \<Rightarrow> (sched \<times> block_outcome) result option" where
  "stop core irq_on s =
     block core irq_on MustBlock
       (\<lambda>s me. Some (Inr (if \<not> isIdle s me then set_zombies s (queue_add (zombies s) me) else s))) s"

partial_function (option) delete_zombies :: "sched \<Rightarrow> sched option" where
  "delete_zombies s =
     (let (q, it) = queue_remove (zombies s);
          s = set_zombies s q
      in if it = nullptr then Some s else delete_zombies (s\<lparr>tcbs := remove1 it (tcbs s)\<rparr>))"

text \<open>
  A new thread control block at address \<open>t\<close> for process \<open>p\<close>; \<open>esp\<close> is the end of its stack. The
  constructor of an idle thread leaves \<^verbatim>\<open>no_preempt\<close> as the allocator returned it.
\<close>

definition tcb_new :: "ptr \<Rightarrow> nat \<Rightarrow> bool \<Rightarrow> u32 \<Rightarrow> sched \<Rightarrow> sched" where
  "tcb_new t p idle esp s =
     s\<lparr>isIdle := (isIdle s)(t := idle), tcb_id := (tcb_id s)(t := next_id s), next_id := next_id s + 1,
       tproc := (tproc s)(t := p), no_preempt := (if idle then no_preempt s else (no_preempt s)(t := 0)),
       interruptEsp := (interruptEsp s)(t := esp), tcbs := t # tcbs s\<rparr>"

definition thread_new :: "ptr \<Rightarrow> nat \<Rightarrow> u32 \<Rightarrow> sched \<Rightarrow> sched result option" where
  "thread_new t p esp s =
     (case delete_zombies s of
        None \<Rightarrow> None
      | Some s \<Rightarrow> schedule (tcb_new t p False esp s) t)"

text \<open>\<^verbatim>\<open>threadsInit\<close> without the reaper, which is one more thread; \<open>ts\<close> are the idle threads of the cores.\<close>

definition idle_state :: "sched \<Rightarrow> ptr list \<Rightarrow> sched" where
  "idle_state s ts =
     (let s = fold (\<lambda>t s. tcb_new t 0 True 0 s) ts s in s\<lparr>idleThreads := ts, activeThreads := ts\<rparr>)"

subsection \<open>Waiting (semaphore.h, future.h, process.h)\<close>

definition sem_wait :: "nat \<Rightarrow> bool \<Rightarrow> nat \<Rightarrow> sched \<Rightarrow> (sched \<times> block_outcome) result option" where
  "sem_wait core irq_on i s =
     (let k = kobj s; sem = sem_objs k ! i in
      if count sem > 0
      then Some (Inr (s\<lparr>kobj := k\<lparr>sem_objs := (sem_objs k)[i := sem\<lparr>count := count sem - 1\<rparr>]\<rparr>\<rparr>, Returned))
      else
        block core irq_on MustBlock
          (\<lambda>s me. Some (assert_k (\<not> isIdle s me) ''!me->isIdle''
             (let k = kobj s; sem = sem_objs k ! i in
              Inr (s\<lparr>kobj := k\<lparr>sem_objs := (sem_objs k)[i := sem\<lparr>waiting := waiting sem @ [me]\<rparr>]\<rparr>\<rparr>)))) s)"

definition sem_signal :: "nat \<Rightarrow> sched \<Rightarrow> sched result option" where
  "sem_signal i s =
     (let k = kobj s; (sem, t) = sem_up (sem_objs k ! i);
          s = s\<lparr>kobj := k\<lparr>sem_objs := (sem_objs k)[i := sem]\<rparr>\<rparr>
      in case t of None \<Rightarrow> Some (Inr s) | Some t \<Rightarrow> schedule s t)"

text \<open>
  The semaphore of a future: \<open>future_down\<close> and \<open>future_up\<close> are the two calls that \<^verbatim>\<open>Future::get\<close> makes when the value is not
  ready; \<open>future_wait\<close> is the case in which the thread has to wait.
\<close>

definition future_wait :: "nat \<Rightarrow> nat \<Rightarrow> sched \<Rightarrow> (sched \<times> block_outcome) result option" where
  "future_wait core i s =
     block core True MustBlock
       (\<lambda>s me. Some (assert_k (\<not> isIdle s me) ''!me->isIdle''
          (let k = kobj s; f = future_objs k ! i in
           Inr (s\<lparr>kobj := k\<lparr>future_objs := (future_objs k)[i := f\<lparr>go := (go f)\<lparr>waiting := waiting (go f) @ [me]\<rparr>\<rparr>]\<rparr>\<rparr>)))) s"

definition future_down :: "nat \<Rightarrow> nat \<Rightarrow> sched \<Rightarrow> (sched \<times> block_outcome) result option" where
  "future_down core i s =
     (let k = kobj s; f = future_objs k ! i in
      if count (go f) > 0
      then Some (Inr (s\<lparr>kobj := k\<lparr>future_objs := (future_objs k)[i := f\<lparr>go := (go f)\<lparr>count := count (go f) - 1\<rparr>\<rparr>]\<rparr>\<rparr>, Returned))
      else future_wait core i s)"

definition future_up :: "nat \<Rightarrow> sched \<Rightarrow> sched result option" where
  "future_up i s =
     (let k = kobj s; f = future_objs k ! i; (g, t) = sem_up (go f);
          s = s\<lparr>kobj := k\<lparr>future_objs := (future_objs k)[i := f\<lparr>go := g\<rparr>]\<rparr>\<rparr>
      in case t of None \<Rightarrow> Some (Inr s) | Some t \<Rightarrow> schedule s t)"

text \<open>The end of a process: its future is set, which wakes one thread that waits for it.\<close>

definition exit_process :: "nat \<Rightarrow> u32 \<Rightarrow> sched \<Rightarrow> sched result option" where
  "exit_process p v s =
     (case proc_exit (kobj s) (procs s ! p) v of
        Inl e \<Rightarrow> Some (Inl e)
      | Inr (k, t) \<Rightarrow>
          let s = s\<lparr>kobj := k\<rparr> in
          (case t of None \<Rightarrow> Some (Inr s) | Some t \<Rightarrow> schedule s t))"

subsection \<open>The timer (pit.cc)\<close>

definition charge :: "nat \<Rightarrow> sched \<Rightarrow> sched" where
  "charge p s = s\<lparr>procs := (procs s)[p := (procs s ! p)\<lparr>run_time := signed_take_bit 31 (run_time (procs s ! p) + 1)\<rparr>]\<rparr>"

definition apitHandler :: "nat \<Rightarrow> sched \<Rightarrow> sched result option" where
  "apitHandler core s =
     (let s = (if core = 0 then s\<lparr>jiffies := jiffies s + 1\<rparr> else s);
          me = activeThreads s ! core
      in if me = nullptr \<or> isIdle s me \<or> no_preempt s me \<noteq> 0 then Some (Inr s)
         else
           let p = tproc s me; s = charge p s in
           if flag_objs (kobj s) ! kill_flag (procs s ! p)
           then obind (exit_process p 1 s) (\<lambda>s. obind (stop core False s) (\<lambda>(s, _). Some (Inr s)))
           else obind (yield core False s) (\<lambda>(s, _). Some (Inr s)))"

subsection \<open>Every thread is in one place\<close>

text \<open>
  The threads that exist outside the processor: ready, dead, running, or waiting. \<open>M\<close> are threads on
  their way from one place to another.
\<close>

definition sem_waiters :: "kobjects \<Rightarrow> ptr list" where
  "sem_waiters k = concat (map waiting (sem_objs k)) @ concat (map (\<lambda>f. waiting (go f)) (future_objs k))"

definition running :: "sched \<Rightarrow> ptr list" where
  "running s = filter (\<lambda>t. \<not> isIdle s t) (activeThreads s)"

definition placed :: "sched \<Rightarrow> ptr list \<Rightarrow> ptr list \<Rightarrow> ptr list" where
  "placed s rs zs = rs @ zs @ running s @ sem_waiters (kobj s)"

definition cores_inv :: "sched \<Rightarrow> bool" where
  "cores_inv s \<longleftrightarrow> length (activeThreads s) = length (idleThreads s) \<and> set (idleThreads s) \<subseteq> set (tcbs s) \<and>
     (\<forall>c < length (idleThreads s). isIdle s (idleThreads s ! c) \<and>
        (isIdle s (activeThreads s ! c) \<longrightarrow> activeThreads s ! c = idleThreads s ! c)) \<and>
     (\<forall>t \<in> set (tcbs s). tproc s t < length (procs s)) \<and>
     (\<forall>p \<in> set (procs s). proc_output p < length (future_objs (kobj s)))"

definition sched_inv :: "sched \<Rightarrow> ptr list \<Rightarrow> ptr list \<Rightarrow> ptr list \<Rightarrow> bool" where
  "sched_inv s rs zs M \<longleftrightarrow>
     pq_rel (readyQ s) rs \<and> queue_rel (zombies s) zs \<and> distinct (M @ placed s rs zs) \<and>
     set (M @ placed s rs zs) = {t \<in> set (tcbs s). \<not> isIdle s t} \<and> distinct (tcbs s) \<and> nullptr \<notin> set (tcbs s) \<and>
     cores_inv s"

lemma pq_add_frame:
  assumes "pq_rel q xs" "pq_add rt q t = Some (Inr q')" "x \<notin> set xs" "x \<noteq> t"
  shows "pnext q' x = pnext q x"
proof (cases "pfirst q = nullptr \<or> rt t < rt (pfirst q)")
  case True
  then show ?thesis using assms by (auto simp: pq_add_def)
next
  case False
  let ?as = "takeWhile (\<lambda>x. rt x \<le> rt t) xs"
  have c: "chain (pnext q) (pfirst q) xs" using assms(1) by (simp add: pq_rel_def)
  have l: "last (nullptr # ?as) \<noteq> nullptr \<Longrightarrow> last (nullptr # ?as) \<in> set xs"
    by (metis last_ConsL last_ConsR last_in_set set_takeWhileD)
  show ?thesis using assms(2-4) False l pq_search_eq [OF c, of rt t nullptr]
    by (auto simp: pq_add_def split: if_splits)
qed

lemma queue_add_frame:
  assumes "queue_rel q xs" "x \<notin> set xs" "x \<noteq> t"
  shows "qnext (queue_add q t) x = qnext q x"
  using assms by (cases xs rule: rev_cases) (auto simp: queue_rel_def queue_add_def Let_def)

text \<open>Threads that only change their place keep the invariant.\<close>

lemma sched_inv_move:
  assumes inv: "sched_inv s rs zs M" and q: "pq_rel (readyQ s') rs'" "queue_rel (zombies s') zs'"
    and m: "mset (M' @ placed s' rs' zs') = mset (M @ placed s rs zs)"
    and e: "isIdle s' = isIdle s" "tcbs s' = tcbs s" and c: "cores_inv s'"
  shows "sched_inv s' rs' zs' M'"
proof -
  have "distinct (M' @ placed s' rs' zs')" using mset_eq_imp_distinct_iff [OF m] inv by (simp add: sched_inv_def)
  moreover have "set (M' @ placed s' rs' zs') = {t \<in> set (tcbs s). \<not> isIdle s t}"
    unfolding mset_eq_setD [OF m] using inv by (simp add: sched_inv_def)
  ultimately show ?thesis using inv q e c by (simp add: sched_inv_def)
qed

text \<open>Changing fields the invariant does not read, and links of threads in no queue.\<close>

lemma zombies_frame:
  assumes "queue_rel (zombies s) zs" "\<And>x. x \<in> set zs \<Longrightarrow> nxt x = tnext s x"
  shows "queue_rel (zombies (s\<lparr>tnext := nxt\<rparr>)) zs"
  using assms chain_frame [of "tnext s" "zq_first s" zs nxt] by (simp add: queue_rel_def zombies_def)

lemma readyQ_frame:
  assumes "pq_rel (readyQ s) rs" "\<And>x. x \<in> set rs \<Longrightarrow> nxt x = tnext s x"
  shows "pq_rel (readyQ (s\<lparr>tnext := nxt\<rparr>)) rs"
  using assms chain_frame [of "tnext s" "rq_first s" rs nxt] by (simp add: pq_rel_def readyQ_def)

lemma schedule_ok:
  assumes inv: "sched_inv s rs zs (t # M)"
  shows "\<exists>s'. schedule s t = Some (Inr s') \<and> sched_inv s' (pq_ins (run_time_of s) t rs) zs M"
proof -
  have d: "distinct ((t # M) @ placed s rs zs)" and t: "t \<noteq> nullptr" "\<not> isIdle s t" "t \<notin> set rs" "t \<notin> set zs"
    using inv by (auto simp: sched_inv_def placed_def)
  have disj: "x \<notin> set rs" if "x \<in> set zs" for x using d that by (auto simp: placed_def)
  have rq: "pq_rel (readyQ s) rs" using inv by (simp add: sched_inv_def)
  obtain q where q: "pq_add (run_time_of s) (readyQ s) t = Some (Inr q)" "pq_rel q (pq_ins (run_time_of s) t rs)"
    using pq_add_rel [OF rq t(1,3)] by blast
  let ?s = "set_readyQ s q"
  have "pnext q x = tnext s x" if "x \<in> set zs" for x
    using pq_add_frame [OF rq q(1), of x] disj [OF that] that t(4) by (auto simp: readyQ_def)
  then have "queue_rel (zombies (s\<lparr>tnext := pnext q\<rparr>)) zs"
    using inv by (intro zombies_frame) (simp_all add: sched_inv_def)
  then have z: "queue_rel (zombies ?s) zs" by (simp add: zombies_def set_readyQ_def)
  have r: "pq_rel (readyQ ?s) (pq_ins (run_time_of s) t rs)" using q(2) by (simp add: readyQ_def set_readyQ_def pq_rel_def)
  have m: "mset (M @ placed ?s (pq_ins (run_time_of s) t rs) zs) = mset ((t # M) @ placed s rs zs)"
    by (simp add: placed_def running_def set_readyQ_def pq_ins_mset)
  have "sched_inv ?s (pq_ins (run_time_of s) t rs) zs M"
    by (rule sched_inv_move [OF inv r z m]) (use inv in \<open>simp_all add: sched_inv_def cores_inv_def set_readyQ_def\<close>)
  then show ?thesis using t(2) q(1) by (simp add: schedule_def)
qed

lemma bury_ok:
  assumes inv: "sched_inv s rs zs (t # M)"
  shows "sched_inv (set_zombies s (queue_add (zombies s) t)) rs (zs @ [t]) M"
proof -
  have d: "distinct ((t # M) @ placed s rs zs)" and t: "t \<noteq> nullptr" "t \<notin> set rs" "t \<notin> set zs"
    using inv by (auto simp: sched_inv_def placed_def)
  have zq: "queue_rel (zombies s) zs" using inv by (simp add: sched_inv_def)
  let ?q = "queue_add (zombies s) t"
  let ?s = "set_zombies s ?q"
  have "qnext ?q x = tnext s x" if "x \<in> set rs" for x
    using queue_add_frame [OF zq, of x t] d that t(2) by (auto simp: zombies_def placed_def)
  then have "pq_rel (readyQ (s\<lparr>tnext := qnext ?q\<rparr>)) rs"
    using inv by (intro readyQ_frame) (simp_all add: sched_inv_def)
  then have r: "pq_rel (readyQ ?s) rs" by (simp add: readyQ_def set_zombies_def)
  have z: "queue_rel (zombies ?s) (zs @ [t])"
    using queue_add_rel [OF zq t(1,3)] by (simp add: zombies_def set_zombies_def queue_rel_def)
  have m: "mset (M @ placed ?s rs (zs @ [t])) = mset ((t # M) @ placed s rs zs)"
    by (simp add: placed_def running_def set_zombies_def)
  show ?thesis
    by (rule sched_inv_move [OF inv r z m]) (use inv in \<open>simp_all add: sched_inv_def cores_inv_def set_zombies_def\<close>)
qed

abbreviation transit :: "sched \<Rightarrow> ptr \<Rightarrow> ptr list" where
  "transit s t \<equiv> if isIdle s t then [] else [t]"

lemma running_switch:
  assumes "core < length (activeThreads s)"
  shows "mset (transit s (activeThreads s ! core) @ running (s\<lparr>activeThreads := (activeThreads s)[core := nxt]\<rparr>)) =
    mset (transit s nxt @ running s)"
proof -
  obtain xs ys where a: "activeThreads s = xs @ (activeThreads s ! core) # ys" "length xs = core"
    using id_take_nth_drop [OF assms] assms by (metis length_take min.absorb4)
  define me where "me = activeThreads s ! core"
  have "activeThreads s = xs @ me # ys" using a(1) by (simp add: me_def)
  then show ?thesis unfolding running_def a(2) [symmetric] by simp
qed

lemma mset_around: "mset (a @ b) = mset (c @ d) \<Longrightarrow> mset (a @ rs @ zs @ b @ w) = mset (c @ rs @ zs @ d @ w)"
  by (simp only: mset_append) (metis add.assoc add.left_commute)

lemma switch_ok:
  assumes inv: "sched_inv s rs zs (transit s nxt)" and core: "core < length (idleThreads s)"
    and nxt: "isIdle s nxt \<Longrightarrow> nxt = idleThreads s ! core"
  defines "me \<equiv> activeThreads s ! core"
  shows "sched_inv (switch_to core me nxt s) rs zs (transit s me)"
proof -
  let ?s = "switch_to core me nxt s"
  have len: "core < length (activeThreads s)" using core inv by (simp add: sched_inv_def cores_inv_def)
  have f: "tnext ?s = tnext s" "rq_first ?s = rq_first s" "rq_size ?s = rq_size s" "zq_first ?s = zq_first s"
    "zq_last ?s = zq_last s" "idleThreads ?s = idleThreads s" "isIdle ?s = isIdle s" "kobj ?s = kobj s" "tcbs ?s = tcbs s"
    "activeThreads ?s = (activeThreads s)[core := nxt]" "tproc ?s = tproc s" "procs ?s = procs s"
    by (simp_all add: switch_to_def contextSwitch_def Let_def)
  have "running ?s = running (s\<lparr>activeThreads := (activeThreads s)[core := nxt]\<rparr>)" by (simp add: running_def f)
  then have m: "mset (transit s me @ placed ?s rs zs) = mset (transit s nxt @ placed s rs zs)"
    unfolding placed_def f(8) using running_switch [OF len, of nxt] by (intro mset_around) (simp only: me_def)
  have "readyQ ?s = readyQ s" "zombies ?s = zombies s" by (simp_all add: readyQ_def zombies_def f)
  then have q: "pq_rel (readyQ ?s) rs" "queue_rel (zombies ?s) zs" using inv by (simp_all add: sched_inv_def)
  have "cores_inv s" using inv by (simp add: sched_inv_def)
  then have "cores_inv ?s" using nxt len unfolding cores_inv_def f by (auto simp: nth_list_update)
  then show ?thesis by (rule sched_inv_move [OF inv q m f(7,9)])
qed

text \<open>Taking the next thread off the ready queue.\<close>

lemma ready_remove_ok:
  assumes inv: "sched_inv s rs zs []"
  obtains q t where "pq_remove (readyQ s) = (q, t)" "rs = [] \<Longrightarrow> t = nullptr" "rs \<noteq> [] \<Longrightarrow> t = hd rs \<and> t \<noteq> nullptr \<and> \<not> isIdle s t"
    "sched_inv (set_readyQ s q) (tl rs) zs (if rs = [] then [] else [hd rs])"
proof (cases rs)
  case Nil
  then have "pq_remove (readyQ s) = (readyQ s, nullptr)" using inv pq_remove_rel(1) by (simp add: sched_inv_def)
  moreover have "set_readyQ s (readyQ s) = s" by (simp add: set_readyQ_def readyQ_def)
  ultimately show ?thesis using that inv Nil by simp
next
  case (Cons t ts)
  have c: "chain (tnext s) (rq_first s) (t # ts)" using inv Cons by (simp add: sched_inv_def pq_rel_def readyQ_def)
  let ?q = "(readyQ s)\<lparr>pfirst := tnext s t\<rparr>"
  have "pq_remove (readyQ s) = (?q, t)" using c by (auto simp: pq_remove_def readyQ_def)
  moreover have "sched_inv (set_readyQ s ?q) ts zs [t]"
  proof (rule sched_inv_move [OF inv])
    show "pq_rel (readyQ (set_readyQ s ?q)) ts" using c by (simp add: pq_rel_def readyQ_def set_readyQ_def)
    show "queue_rel (zombies (set_readyQ s ?q)) zs" "cores_inv (set_readyQ s ?q)"
      using inv by (simp_all add: sched_inv_def zombies_def readyQ_def set_readyQ_def cores_inv_def)
    show "mset ([t] @ placed (set_readyQ s ?q) ts zs) = mset ([] @ placed s rs zs)"
      by (simp add: placed_def running_def set_readyQ_def Cons)
  qed (simp_all add: set_readyQ_def)
  moreover have "t \<noteq> nullptr" "\<not> isIdle s t" using inv Cons by (auto simp: sched_inv_def placed_def)
  ultimately show ?thesis using that Cons by simp
qed

lemma sched_inv_no_preempt [simp]: "sched_inv (s\<lparr>no_preempt := n\<rparr>) rs zs M = sched_inv s rs zs M"
  by (simp add: sched_inv_def pq_rel_def readyQ_def queue_rel_def zombies_def placed_def running_def cores_inv_def)

lemma block_ok:
  assumes inv: "sched_inv s rs zs []" and core: "core < length (idleThreads s)"
    and irq: "isIdle s (activeThreads s ! core) \<Longrightarrow> irq_on"
    and f: "\<And>s1 rs1. sched_inv s1 rs1 zs (transit s1 (activeThreads s ! core)) \<Longrightarrow> kobj s1 = kobj s \<Longrightarrow>
      isIdle s1 = isIdle s \<Longrightarrow> \<exists>s' rs' zs'. f s1 (activeThreads s ! core) = Some (Inr s') \<and> sched_inv s' rs' zs' []"
  shows "\<exists>s' r rs' zs'. block core irq_on opt f s = Some (Inr (s', r)) \<and> sched_inv s' rs' zs' []"
proof -
  let ?me = "activeThreads s ! core" and ?s = "s\<lparr>no_preempt := (no_preempt s)(activeThreads s ! core := 1)\<rparr>"
  have inv': "sched_inv ?s rs zs []" using inv by simp
  obtain q t where q: "pq_remove (readyQ ?s) = (q, t)" "rs = [] \<Longrightarrow> t = nullptr"
    "rs \<noteq> [] \<Longrightarrow> t = hd rs \<and> t \<noteq> nullptr \<and> \<not> isIdle ?s t"
    "sched_inv (set_readyQ ?s q) (tl rs) zs (if rs = [] then [] else [hd rs])"
    by (rule ready_remove_ok [OF inv']) blast
  let ?s1 = "set_readyQ ?s q"
  have e: "activeThreads ?s1 = activeThreads s" "idleThreads ?s1 = idleThreads s" "isIdle ?s1 = isIdle s" "kobj ?s1 = kobj s"
    by (simp_all add: set_readyQ_def)
  have idle: "isIdle s ?me \<Longrightarrow> ?me = idleThreads s ! core" "isIdle s (idleThreads s ! core)"
    using inv core by (auto simp: sched_inv_def cores_inv_def)
  let ?n = "if t = nullptr then idleThreads s ! core else t"
  have sw: "\<exists>s' rs' zs'. f (switch_to core ?me ?n ?s1) ?me = Some (Inr s') \<and> sched_inv s' rs' zs' []"
  proof -
    have "sched_inv ?s1 (tl rs) zs (transit ?s1 ?n)" using q(2-4) idle(2) by (cases "rs = []") (auto simp: e)
    then have "sched_inv (switch_to core ?me ?n ?s1) (tl rs) zs (transit ?s1 ?me)"
      using switch_ok [of ?s1 "tl rs" zs ?n core] core q(2,3) by (cases "rs = []") (auto simp: e)
    then show ?thesis by (rule_tac f) (simp_all add: e switch_to_def contextSwitch_def Let_def)
  qed
  show ?thesis
  proof (cases "t = nullptr \<and> (opt = CanReturn \<or> isIdle s ?me)")
    case True
    then have "sched_inv ?s1 rs zs []" using q(2-4) by (cases "rs = []") auto
    then show ?thesis using True q(1) irq idle e unfolding block_def by (auto simp: Let_def)
  next
    case False
    obtain s' rs' zs' where "f (switch_to core ?me ?n ?s1) ?me = Some (Inr s')" "sched_inv s' rs' zs' []" using sw by blast
    moreover have "block core irq_on opt f s = Some (Inr (s', Switched))"
      using calculation(1) False q(1) e unfolding block_def by (cases "t = nullptr") (simp_all add: Let_def)
    ultimately show ?thesis by blast
  qed
qed

lemma yield_ok:
  assumes "sched_inv s rs zs []" "core < length (idleThreads s)" "isIdle s (activeThreads s ! core) \<Longrightarrow> irq_on"
  shows "\<exists>s' r rs' zs'. yield core irq_on s = Some (Inr (s', r)) \<and> sched_inv s' rs' zs' []"
  unfolding yield_def
proof (rule block_ok [OF assms])
  let ?me = "activeThreads s ! core"
  fix s1 rs1 assume i: "sched_inv s1 rs1 zs (transit s1 ?me)"
  show "\<exists>s' rs' zs'. schedule s1 ?me = Some (Inr s') \<and> sched_inv s' rs' zs' []"
  proof (cases "isIdle s1 ?me")
    case True
    then show ?thesis using i by (auto simp: schedule_def)
  next
    case False
    then show ?thesis using i schedule_ok [of s1 rs1 zs ?me "[]"] by auto
  qed
qed

lemma stop_ok:
  assumes "sched_inv s rs zs []" "core < length (idleThreads s)" "isIdle s (activeThreads s ! core) \<Longrightarrow> irq_on"
  shows "\<exists>s' r rs' zs'. stop core irq_on s = Some (Inr (s', r)) \<and> sched_inv s' rs' zs' []"
  unfolding stop_def
proof (rule block_ok [OF assms])
  fix s1 rs1 assume "sched_inv s1 rs1 zs (transit s1 (activeThreads s ! core))"
  then show "\<exists>s' rs' zs'. Some (Inr (if \<not> isIdle s1 (activeThreads s ! core)
      then set_zombies s1 (queue_add (zombies s1) (activeThreads s ! core)) else s1)) = Some (Inr s') \<and> sched_inv s' rs' zs' []"
    using bury_ok [of s1 rs1 zs "activeThreads s ! core" "[]"] by (auto split: if_splits)
qed

lemma delete_zombies_ok:
  assumes "sched_inv s rs zs M"
  shows "\<exists>s'. delete_zombies s = Some s' \<and> sched_inv s' rs [] M \<and> set (tcbs s') \<subseteq> set (tcbs s) \<and>
    length (procs s') = length (procs s)"
  using assms
proof (induction zs arbitrary: s)
  case Nil
  then have "queue_remove (zombies s) = (zombies s, nullptr)" by (simp add: sched_inv_def queue_remove_rel)
  moreover have "set_zombies s (zombies s) = s" by (simp add: set_zombies_def zombies_def)
  ultimately show ?case using Nil by (subst delete_zombies.simps) simp
next
  case (Cons z zs)
  have zq: "queue_rel (zombies s) (z # zs)" and d: "distinct (M @ placed s rs (z # zs))" "z \<noteq> nullptr" "distinct (tcbs s)"
    "\<not> isIdle s z"
    using Cons.prems by (auto simp: sched_inv_def placed_def)
  obtain q where q: "queue_remove (zombies s) = (q, z)" "queue_rel q zs" using queue_remove_rel(2) [OF zq] by blast
  have nx: "qnext q = tnext s" using q(1) zq by (auto simp: queue_remove_def zombies_def Let_def queue_rel_def split: if_splits)
  let ?s = "(set_zombies s q)\<lparr>tcbs := remove1 z (tcbs s)\<rparr>"
  have t: "set (tcbs ?s) = set (tcbs s) - {z}" using d(3) by simp
  have p: "placed ?s rs zs = rs @ zs @ running s @ sem_waiters (kobj s)" "z \<notin> set (M @ placed ?s rs zs)"
    using d(1) by (auto simp: placed_def running_def set_zombies_def)
  have "set (M @ placed s rs (z # zs)) = {t \<in> set (tcbs s). \<not> isIdle s t}" using Cons.prems by (simp only: sched_inv_def)
  moreover have "set (M @ placed s rs (z # zs)) = insert z (set (M @ placed ?s rs zs))" unfolding p(1) by (auto simp: placed_def)
  ultimately have "set (M @ placed ?s rs zs) = {t \<in> set (tcbs s) - {z}. \<not> isIdle s t}" using p(2) by blast
  then have "set (M @ placed ?s rs zs) = {t \<in> set (tcbs ?s). \<not> isIdle ?s t}" unfolding t by (simp add: set_zombies_def)
  moreover have "cores_inv ?s"
    using Cons.prems d(4) unfolding cores_inv_def t by (auto simp: sched_inv_def cores_inv_def set_zombies_def in_set_conv_nth)
  moreover have "pq_rel (readyQ ?s) rs" "queue_rel (zombies ?s) zs"
    using Cons.prems q(2) nx by (simp_all add: sched_inv_def pq_rel_def readyQ_def set_zombies_def queue_rel_def zombies_def)
  moreover have "distinct (M @ placed ?s rs zs)" using d(1) unfolding p(1) by (auto simp: placed_def)
  moreover have "distinct (tcbs ?s)" "nullptr \<notin> set (tcbs ?s)"
    using Cons.prems d(3) t by (auto simp: sched_inv_def distinct_remove1)
  ultimately have "sched_inv ?s rs zs M" unfolding sched_inv_def by blast
  from Cons.IH [OF this] have "\<exists>s'. delete_zombies ?s = Some s' \<and> sched_inv s' rs [] M \<and> set (tcbs s') \<subseteq> set (tcbs s) \<and>
      length (procs s') = length (procs s)"
    using t by (auto simp: set_zombies_def)
  moreover have "tcbs (set_zombies s q) = tcbs s" by (simp add: set_zombies_def)
  ultimately show ?case using q(1) d(2) by (subst delete_zombies.simps) simp
qed

lemma active_known:
  assumes "sched_inv s rs zs M" "t \<in> set (activeThreads s)"
  shows "t \<in> set (tcbs s)"
proof (cases "isIdle s t")
  case True
  have c: "cores_inv s" using assms(1) by (simp add: sched_inv_def)
  obtain i where "i < length (activeThreads s)" "t = activeThreads s ! i" using assms(2) by (auto simp: in_set_conv_nth)
  then have "t = idleThreads s ! i" "i < length (idleThreads s)" using c True by (auto simp: cores_inv_def)
  then show ?thesis using c nth_mem [of i "idleThreads s"] by (auto simp: cores_inv_def)
next
  case False
  then have "t \<in> set (M @ placed s rs zs)" using assms(2) by (simp add: placed_def running_def)
  then show ?thesis using assms(1) unfolding sched_inv_def by blast
qed

lemma tcb_new_ok:
  assumes inv: "sched_inv s rs zs M" and t: "t \<notin> set (tcbs s)" "t \<noteq> nullptr" and p: "p < length (procs s)"
  shows "sched_inv (tcb_new t p False esp s) rs zs (t # M)"
proof -
  let ?s = "tcb_new t p False esp s"
  have "running ?s = running s"
    unfolding running_def using active_known [OF inv] t(1) by (auto simp: tcb_new_def intro!: filter_cong)
  then have pl: "placed ?s rs zs = placed s rs zs" by (simp add: placed_def tcb_new_def)
  have nt: "t \<notin> set (M @ placed s rs zs)" using inv t(1) by (auto simp: sched_inv_def)
  have c: "cores_inv ?s" using inv t(1) p active_known [OF inv]
    by (fastforce simp: cores_inv_def sched_inv_def tcb_new_def dest: nth_mem)
  have "readyQ ?s = readyQ s" "zombies ?s = zombies s" by (simp_all add: readyQ_def zombies_def tcb_new_def)
  then show ?thesis using inv pl nt t c unfolding sched_inv_def by (auto simp: tcb_new_def)
qed

lemma thread_new_ok:
  assumes "sched_inv s rs zs []" "t \<notin> set (tcbs s)" "t \<noteq> nullptr" "p < length (procs s)"
  shows "\<exists>s' rs'. thread_new t p esp s = Some (Inr s') \<and> sched_inv s' rs' [] []"
proof -
  obtain s1 where s1: "delete_zombies s = Some s1" "sched_inv s1 rs [] []" "set (tcbs s1) \<subseteq> set (tcbs s)"
    "length (procs s1) = length (procs s)"
    using delete_zombies_ok [OF assms(1)] by blast
  have "sched_inv (tcb_new t p False esp s1) rs [] [t]" using s1 assms by (intro tcb_new_ok) auto
  from schedule_ok [OF this] show ?thesis using s1(1) by (auto simp: thread_new_def)
qed

text \<open>Changes of the kernel objects that move a thread from or to a queue of waiting threads.\<close>

lemma sched_inv_kobj:
  assumes inv: "sched_inv s rs zs M" and m: "mset (M' @ sem_waiters k) = mset (M @ sem_waiters (kobj s))"
    and len: "length (future_objs k) = length (future_objs (kobj s))"
  shows "sched_inv (s\<lparr>kobj := k\<rparr>) rs zs M'"
proof (rule sched_inv_move [OF inv])
  show "mset (M' @ placed (s\<lparr>kobj := k\<rparr>) rs zs) = mset (M @ placed s rs zs)"
    using mset_around [OF m, of rs "zs @ running s" "[]"] by (simp add: placed_def running_def)
qed (use inv len in \<open>simp_all add: sched_inv_def pq_rel_def readyQ_def queue_rel_def zombies_def cores_inv_def\<close>)

lemma concat_map_update:
  assumes "i < length xs"
  shows "mset (concat (map f (xs[i := x]))) + mset (f (xs ! i)) = mset (concat (map f xs)) + mset (f x)"
proof -
  obtain ys zs where "xs = ys @ xs ! i # zs" "length ys = i"
    using id_take_nth_drop [OF assms] assms by (metis length_take min.absorb4)
  moreover define y where "y = xs ! i"
  ultimately have xs: "xs = ys @ y # zs" and i: "i = length ys" by simp_all
  show ?thesis unfolding xs i by (simp add: ac_simps)
qed

lemma sem_waiters_update:
  assumes "i < length (sem_objs k)"
  shows "mset (sem_waiters (k\<lparr>sem_objs := (sem_objs k)[i := sem]\<rparr>)) + mset (waiting (sem_objs k ! i)) =
    mset (sem_waiters k) + mset (waiting sem)"
  using concat_map_update [OF assms, of waiting sem] by (simp add: sem_waiters_def ac_simps)

lemma future_waiters_update:
  assumes "i < length (future_objs k)"
  shows "mset (sem_waiters (k\<lparr>future_objs := (future_objs k)[i := f]\<rparr>)) + mset (waiting (go (future_objs k ! i))) =
    mset (sem_waiters k) + mset (waiting (go f))"
  using concat_map_update [OF assms, of "\<lambda>f. waiting (go f)" f] by (simp add: sem_waiters_def ac_simps)

lemma sem_up_waiting:
  "sem_up s = (s', t) \<Longrightarrow> mset (waiting s) = mset (waiting s') + mset (case t of None \<Rightarrow> [] | Some t \<Rightarrow> [t])"
  by (auto simp: sem_up_def split: list.splits)

lemma sem_wait_ok:
  assumes inv: "sched_inv s rs zs []" and core: "core < length (idleThreads s)"
    and me: "\<not> isIdle s (activeThreads s ! core)" and i: "i < length (sem_objs (kobj s))"
  shows "\<exists>s' r rs' zs'. sem_wait core irq_on i s = Some (Inr (s', r)) \<and> sched_inv s' rs' zs' []"
proof (cases "count (sem_objs (kobj s) ! i) > 0")
  case True
  let ?sem = "(sem_objs (kobj s) ! i)\<lparr>count := count (sem_objs (kobj s) ! i) - 1\<rparr>"
  let ?k = "kobj s\<lparr>sem_objs := (sem_objs (kobj s))[i := ?sem]\<rparr>"
  have "sched_inv (s\<lparr>kobj := ?k\<rparr>) rs zs []"
    using sem_waiters_update [OF i, of ?sem] by (intro sched_inv_kobj [OF inv]) simp_all
  then show ?thesis using True by (auto simp: sem_wait_def Let_def)
next
  case False
  let ?f = "\<lambda>s me. Some (assert_k (\<not> isIdle s me) ''!me->isIdle''
     (let k = kobj s; sem = sem_objs k ! i in
      Inr (s\<lparr>kobj := k\<lparr>sem_objs := (sem_objs k)[i := sem\<lparr>waiting := waiting sem @ [me]\<rparr>]\<rparr>\<rparr>)))"
  have "\<exists>s' r rs' zs'. block core irq_on MustBlock ?f s = Some (Inr (s', r)) \<and> sched_inv s' rs' zs' []"
  proof (rule block_ok [OF inv core])
    let ?me = "activeThreads s ! core"
    fix s1 rs1 assume s1: "sched_inv s1 rs1 zs (transit s1 ?me)" "kobj s1 = kobj s" "isIdle s1 = isIdle s"
    let ?sem = "(sem_objs (kobj s) ! i)\<lparr>waiting := waiting (sem_objs (kobj s) ! i) @ [?me]\<rparr>"
    let ?k = "kobj s\<lparr>sem_objs := (sem_objs (kobj s))[i := ?sem]\<rparr>"
    have "sched_inv (s1\<lparr>kobj := ?k\<rparr>) rs1 zs []"
      using sem_waiters_update [OF i, of ?sem] s1 me by (intro sched_inv_kobj [OF s1(1)]) simp_all
    then show "\<exists>s' rs' zs'. ?f s1 ?me = Some (Inr s') \<and> sched_inv s' rs' zs' []"
      using s1 me by (auto simp: Let_def)
  qed (use me in simp)
  then show ?thesis using False by (simp add: sem_wait_def Let_def)
qed

lemma wake_ok:
  assumes "sched_inv s rs zs (case t of None \<Rightarrow> [] | Some t \<Rightarrow> [t])"
  shows "\<exists>s' rs'. (case t of None \<Rightarrow> Some (Inr s) | Some t \<Rightarrow> schedule s t) = Some (Inr s') \<and> sched_inv s' rs' zs []"
proof (cases t)
  case (Some x)
  then have "sched_inv s rs zs [x]" using assms by simp
  from schedule_ok [OF this] show ?thesis using Some by auto
qed (use assms in auto)

lemma sem_signal_ok:
  assumes inv: "sched_inv s rs zs []" and i: "i < length (sem_objs (kobj s))"
  shows "\<exists>s' rs'. sem_signal i s = Some (Inr s') \<and> sched_inv s' rs' zs []"
proof -
  obtain sem t where u: "sem_up (sem_objs (kobj s) ! i) = (sem, t)" by fastforce
  let ?k = "kobj s\<lparr>sem_objs := (sem_objs (kobj s))[i := sem]\<rparr>"
  have "mset (sem_waiters ?k) + mset (case t of None \<Rightarrow> [] | Some t \<Rightarrow> [t]) = mset (sem_waiters (kobj s))"
    using sem_waiters_update [OF i, of sem] sem_up_waiting [OF u] by (simp add: ac_simps)
  then have "sched_inv (s\<lparr>kobj := ?k\<rparr>) rs zs (case t of None \<Rightarrow> [] | Some t \<Rightarrow> [t])"
    by (intro sched_inv_kobj [OF inv]) (simp_all add: ac_simps)
  from wake_ok [OF this] show ?thesis using u by (simp add: sem_signal_def Let_def)
qed

lemma future_down_ok:
  assumes inv: "sched_inv s rs zs []" and core: "core < length (idleThreads s)"
    and me: "\<not> isIdle s (activeThreads s ! core)" and i: "i < length (future_objs (kobj s))"
  shows "\<exists>s' r rs' zs'. future_down core i s = Some (Inr (s', r)) \<and> sched_inv s' rs' zs' []"
proof (cases "count (go (future_objs (kobj s) ! i)) > 0")
  case True
  let ?f = "(future_objs (kobj s) ! i)\<lparr>go := (go (future_objs (kobj s) ! i))\<lparr>count := count (go (future_objs (kobj s) ! i)) - 1\<rparr>\<rparr>"
  let ?k = "kobj s\<lparr>future_objs := (future_objs (kobj s))[i := ?f]\<rparr>"
  have "sched_inv (s\<lparr>kobj := ?k\<rparr>) rs zs []"
    using future_waiters_update [OF i, of ?f] by (intro sched_inv_kobj [OF inv]) simp_all
  then show ?thesis using True by (auto simp: future_down_def Let_def)
next
  case False
  let ?g = "\<lambda>s me. Some (assert_k (\<not> isIdle s me) ''!me->isIdle''
     (let k = kobj s; f = future_objs k ! i in
      Inr (s\<lparr>kobj := k\<lparr>future_objs := (future_objs k)[i := f\<lparr>go := (go f)\<lparr>waiting := waiting (go f) @ [me]\<rparr>\<rparr>]\<rparr>\<rparr>)))"
  have "\<exists>s' r rs' zs'. block core True MustBlock ?g s = Some (Inr (s', r)) \<and> sched_inv s' rs' zs' []"
  proof (rule block_ok [OF inv core])
    let ?me = "activeThreads s ! core" and ?h = "go (future_objs (kobj s) ! i)"
    fix s1 rs1 assume s1: "sched_inv s1 rs1 zs (transit s1 ?me)" "kobj s1 = kobj s" "isIdle s1 = isIdle s"
    let ?f = "(future_objs (kobj s) ! i)\<lparr>go := ?h\<lparr>waiting := waiting ?h @ [?me]\<rparr>\<rparr>"
    let ?k = "kobj s\<lparr>future_objs := (future_objs (kobj s))[i := ?f]\<rparr>"
    have "sched_inv (s1\<lparr>kobj := ?k\<rparr>) rs1 zs []"
      using future_waiters_update [OF i, of ?f] s1 me by (intro sched_inv_kobj [OF s1(1)]) simp_all
    then show "\<exists>s' rs' zs'. ?g s1 ?me = Some (Inr s') \<and> sched_inv s' rs' zs' []"
      using s1 me by (auto simp: Let_def)
  qed (use me in simp)
  then show ?thesis using False by (simp add: future_down_def future_wait_def Let_def)
qed

lemma future_up_ok:
  assumes inv: "sched_inv s rs zs []" and i: "i < length (future_objs (kobj s))"
  shows "\<exists>s' rs'. future_up i s = Some (Inr s') \<and> sched_inv s' rs' zs []"
proof -
  let ?f = "future_objs (kobj s) ! i"
  obtain g t where u: "sem_up (go ?f) = (g, t)" by fastforce
  let ?k = "kobj s\<lparr>future_objs := (future_objs (kobj s))[i := ?f\<lparr>go := g\<rparr>]\<rparr>"
  have "mset (sem_waiters ?k) + mset (case t of None \<Rightarrow> [] | Some t \<Rightarrow> [t]) = mset (sem_waiters (kobj s))"
    using future_waiters_update [OF i, of "?f\<lparr>go := g\<rparr>"] sem_up_waiting [OF u] by (simp add: ac_simps)
  then have "sched_inv (s\<lparr>kobj := ?k\<rparr>) rs zs (case t of None \<Rightarrow> [] | Some t \<Rightarrow> [t])"
    by (intro sched_inv_kobj [OF inv]) (simp_all add: ac_simps)
  from wake_ok [OF this] show ?thesis using u by (simp add: future_up_def Let_def)
qed

text \<open>New kernel objects and processes, for which no thread waits yet.\<close>

lemma sched_inv_objects:
  assumes inv: "sched_inv s rs zs M" and k: "sem_waiters k = sem_waiters (kobj s)" "length (procs s) \<le> length ps"
    "\<forall>p \<in> set ps. proc_output p < length (future_objs k)"
  shows "sched_inv (s\<lparr>kobj := k, procs := ps\<rparr>) rs zs M"
proof (rule sched_inv_move [OF inv])
  show "cores_inv (s\<lparr>kobj := k, procs := ps\<rparr>)" using inv k(2,3) by (fastforce simp: sched_inv_def cores_inv_def)
  show "pq_rel (readyQ (s\<lparr>kobj := k, procs := ps\<rparr>)) rs" "queue_rel (zombies (s\<lparr>kobj := k, procs := ps\<rparr>)) zs"
    using inv by (simp_all add: sched_inv_def readyQ_def zombies_def)
qed (simp_all add: placed_def running_def k(1))

lemma new_semaphore_ok:
  assumes inv: "sched_inv s rs zs M" and p: "p < length (procs s)" and n: "newSemaphore (kobj s) (procs s ! p) init = (k, q, i)"
  shows "sched_inv (s\<lparr>kobj := k, procs := (procs s)[p := q]\<rparr>) rs zs M"
proof (rule sched_inv_objects [OF inv])
  have "sem_waiters k = sem_waiters (kobj s) \<and> future_objs k = future_objs (kobj s) \<and> proc_output q = proc_output (procs s ! p)"
    using n by (auto simp: newSemaphore_def sem_waiters_def semaphore_new_def split: option.splits)
  moreover have "\<forall>p \<in> set (procs s). proc_output p < length (future_objs (kobj s))" using inv unfolding sched_inv_def cores_inv_def by blast
  ultimately show "sem_waiters k = sem_waiters (kobj s)" "\<forall>p \<in> set ((procs s)[p := q]). proc_output p < length (future_objs k)"
    using p by (auto dest!: set_update_subset_insert [THEN subsetD])
qed simp

lemma new_process_ok:
  assumes inv: "sched_inv s rs zs M" and n: "process_new isInit dir (kobj s) = (k, q)"
  shows "sched_inv (s\<lparr>kobj := k, procs := procs s @ [q]\<rparr>) rs zs M"
proof (rule sched_inv_objects [OF inv])
  have "sem_waiters k = sem_waiters (kobj s) \<and> length (future_objs k) = Suc (length (future_objs (kobj s))) \<and>
      proc_output q = length (future_objs (kobj s))"
    using n by (auto simp: process_new_def Let_def sem_waiters_def future_new_def semaphore_new_def split: if_splits)
  moreover have "\<forall>p \<in> set (procs s). proc_output p < length (future_objs (kobj s))" using inv unfolding sched_inv_def cores_inv_def by blast
  ultimately show "sem_waiters k = sem_waiters (kobj s)" "\<forall>p \<in> set (procs s @ [q]). proc_output p < length (future_objs k)" by auto
qed simp

lemma exit_process_ok:
  assumes inv: "sched_inv s rs zs []" and p: "p < length (procs s)" and r: "exit_process p v s = Some (Inr s')"
  shows "\<exists>rs'. sched_inv s' rs' zs [] \<and> activeThreads s' = activeThreads s \<and> idleThreads s' = idleThreads s"
proof -
  let ?o = "proc_output (procs s ! p)"
  have o: "?o < length (future_objs (kobj s))" using inv p by (auto simp: sched_inv_def cores_inv_def)
  obtain k t where x: "proc_exit (kobj s) (procs s ! p) v = Inr (k, t)"
    "(case t of None \<Rightarrow> Some (Inr (s\<lparr>kobj := k\<rparr>)) | Some t \<Rightarrow> schedule (s\<lparr>kobj := k\<rparr>) t) = Some (Inr s')"
    using r by (auto simp: exit_process_def Let_def split: sum.splits prod.splits)
  obtain g where g: "sem_up (go (future_objs (kobj s) ! ?o)) = (g, t)"
    "k = kobj s\<lparr>future_objs := (future_objs (kobj s))[?o := (future_objs (kobj s) ! ?o)\<lparr>fvalue := v, isReady := True, go := g\<rparr>]\<rparr>"
    using x(1) by (auto simp: proc_exit_def future_set_def Let_def split: prod.splits)
  define f where "f = (future_objs (kobj s) ! ?o)\<lparr>fvalue := v, isReady := True, go := g\<rparr>"
  have f: "k = kobj s\<lparr>future_objs := (future_objs (kobj s))[?o := f]\<rparr>" "sem_up (go (future_objs (kobj s) ! ?o)) = (go f, t)"
    using g by (simp_all add: f_def)
  have "mset (sem_waiters k) + mset (case t of None \<Rightarrow> [] | Some t \<Rightarrow> [t]) = mset (sem_waiters (kobj s))"
    using future_waiters_update [OF o, of f] sem_up_waiting [OF f(2)] f(1) by (simp add: ac_simps)
  then have inv': "sched_inv (s\<lparr>kobj := k\<rparr>) rs zs (case t of None \<Rightarrow> [] | Some t \<Rightarrow> [t])"
    by (intro sched_inv_kobj [OF inv]) (simp_all add: ac_simps f(1))
  have "activeThreads s' = activeThreads s \<and> idleThreads s' = idleThreads s"
    using x(2) by (auto simp: schedule_def set_readyQ_def split: option.splits if_splits)
  moreover have "\<exists>rs'. sched_inv s' rs' zs []" using wake_ok [OF inv'] x(2) by auto
  ultimately show ?thesis by blast
qed

lemma charge_ok:
  assumes inv: "sched_inv s rs zs M" and p: "p < length (procs s)"
  shows "sched_inv (charge p s) rs zs M"
proof (rule sched_inv_move [OF inv])
  let ?ps = "procs (charge p s)"
  have "proc_output (?ps ! i) = proc_output (procs s ! i)" if "i < length (procs s)" for i
    using that p by (cases "i = p") (simp_all add: charge_def)
  moreover have "length ?ps = length (procs s)" by (simp add: charge_def)
  moreover have "\<forall>q \<in> set (procs s). proc_output q < length (future_objs (kobj s))" using inv unfolding sched_inv_def cores_inv_def by blast
  ultimately have "\<forall>q \<in> set ?ps. proc_output q < length (future_objs (kobj s))" by (metis in_set_conv_nth)
  then show "cores_inv (charge p s)" using inv by (simp add: sched_inv_def cores_inv_def charge_def)
  have "readyQ (charge p s) = readyQ s" "zombies (charge p s) = zombies s" by (simp_all add: charge_def readyQ_def zombies_def)
  then show "pq_rel (readyQ (charge p s)) rs" "queue_rel (zombies (charge p s)) zs" using inv by (simp_all add: sched_inv_def)
qed (simp_all add: charge_def placed_def running_def)

lemma sched_inv_jiffies: "sched_inv (s\<lparr>jiffies := n\<rparr>) rs zs M = sched_inv s rs zs M"
  by (simp add: sched_inv_def pq_rel_def readyQ_def queue_rel_def zombies_def placed_def running_def cores_inv_def)

lemma apitHandler_ok:
  assumes inv: "sched_inv s rs zs []" and core: "core < length (idleThreads s)" and r: "apitHandler core s = Some (Inr s')"
  shows "\<exists>rs' zs'. sched_inv s' rs' zs' []"
proof -
  define s0 where "s0 = (if core = 0 then s\<lparr>jiffies := jiffies s + 1\<rparr> else s)"
  have inv0: "sched_inv s0 rs zs []" and core0: "core < length (idleThreads s0)"
    using inv core by (auto simp: s0_def sched_inv_jiffies)
  let ?me = "activeThreads s0 ! core"
  let ?p = "tproc s0 ?me"
  let ?s1 = "charge ?p s0"
  have "?me \<in> set (tcbs s0)" using inv0 core0 by (intro active_known [OF inv0] nth_mem) (simp add: sched_inv_def cores_inv_def)
  then have p0: "?p < length (procs s0)" using inv0 unfolding sched_inv_def cores_inv_def by blast
  have inv1: "sched_inv ?s1 rs zs []" by (rule charge_ok [OF inv0 p0])
  have e: "activeThreads ?s1 = activeThreads s0" "idleThreads ?s1 = idleThreads s0" "isIdle ?s1 = isIdle s0" "length (procs ?s1) = length (procs s0)"
    by (simp_all add: charge_def)
  show ?thesis
  proof (cases "?me = nullptr \<or> isIdle s0 ?me \<or> no_preempt s0 ?me \<noteq> 0")
    case True
    then show ?thesis using r inv0 by (auto simp: apitHandler_def Let_def simp flip: s0_def)
  next
    case False
    have p: "?p < length (procs ?s1)" using p0 e by simp
    consider b where "yield core False ?s1 = Some (Inr (s', b))"
      | s2 b where "exit_process ?p 1 ?s1 = Some (Inr s2)" "stop core False s2 = Some (Inr (s', b))"
      using r False by (auto simp: apitHandler_def Let_def simp flip: s0_def split: if_splits)
    then show ?thesis
    proof cases
      case 1
      then show ?thesis using yield_ok [OF inv1, of core False] core0 False e by auto
    next
      case 2
      obtain rs2 where s2: "sched_inv s2 rs2 zs []" "activeThreads s2 = activeThreads s0" "idleThreads s2 = idleThreads s0"
        using exit_process_ok [OF inv1 p 2(1)] e by auto
      have "isIdle s2 = isIdle ?s1"
        using 2(1) by (auto simp: exit_process_def Let_def schedule_def set_readyQ_def split: sum.splits prod.splits option.splits if_splits)
      then show ?thesis using stop_ok [OF s2(1), of core False] 2(2) s2 core0 False e by auto
    qed
  qed
qed

subsection \<open>Runs of the kernel\<close>

text \<open>
  What can happen on the cores: timer ticks, yields, the end of a thread, idle cores looking for work,
  new threads, the reaper, waiting for and signalling semaphores, the two calls on the semaphore of a future, the end of a process,
  which sets its future, and new semaphores and processes.
\<close>

inductive sched_step :: "sched \<Rightarrow> sched \<Rightarrow> bool" where
  Tick: "core < length (idleThreads s) \<Longrightarrow> apitHandler core s = Some (Inr s') \<Longrightarrow> sched_step s s'"
| Yield: "core < length (idleThreads s) \<Longrightarrow> yield core True s = Some (Inr (s', r)) \<Longrightarrow> sched_step s s'"
| Stop: "core < length (idleThreads s) \<Longrightarrow> stop core True s = Some (Inr (s', r)) \<Longrightarrow> sched_step s s'"
| Thread: "t \<notin> set (tcbs s) \<Longrightarrow> t \<noteq> nullptr \<Longrightarrow> p < length (procs s) \<Longrightarrow> thread_new t p esp s = Some (Inr s') \<Longrightarrow> sched_step s s'"
| Reap: "delete_zombies s = Some s' \<Longrightarrow> sched_step s s'"
| Wait: "core < length (idleThreads s) \<Longrightarrow> \<not> isIdle s (activeThreads s ! core) \<Longrightarrow> i < length (sem_objs (kobj s)) \<Longrightarrow>
    sem_wait core True i s = Some (Inr (s', r)) \<Longrightarrow> sched_step s s'"
| Signal: "i < length (sem_objs (kobj s)) \<Longrightarrow> sem_signal i s = Some (Inr s') \<Longrightarrow> sched_step s s'"
| Future_Down: "core < length (idleThreads s) \<Longrightarrow> \<not> isIdle s (activeThreads s ! core) \<Longrightarrow> i < length (future_objs (kobj s)) \<Longrightarrow>
    future_down core i s = Some (Inr (s', r)) \<Longrightarrow> sched_step s s'"
| Future_Up: "i < length (future_objs (kobj s)) \<Longrightarrow> future_up i s = Some (Inr s') \<Longrightarrow> sched_step s s'"
| Exit: "p < length (procs s) \<Longrightarrow> exit_process p v s = Some (Inr s') \<Longrightarrow> sched_step s s'"
| New_Semaphore: "p < length (procs s) \<Longrightarrow> newSemaphore (kobj s) (procs s ! p) init = (k, q, i) \<Longrightarrow>
    sched_step s (s\<lparr>kobj := k, procs := (procs s)[p := q]\<rparr>)"
| New_Process: "process_new isInit dir (kobj s) = (k, q) \<Longrightarrow> sched_step s (s\<lparr>kobj := k, procs := procs s @ [q]\<rparr>)"

definition sched_ok :: "sched \<Rightarrow> bool" where
  "sched_ok s \<longleftrightarrow> (\<exists>rs zs. sched_inv s rs zs [])"

lemma sched_step_ok: "sched_step s s' \<Longrightarrow> sched_ok s \<Longrightarrow> sched_ok s'"
proof (induction rule: sched_step.induct)
  case (Tick core s s')
  then show ?case unfolding sched_ok_def using apitHandler_ok by blast
next
  case (Yield core s s' r)
  then show ?case unfolding sched_ok_def using yield_ok [of s _ _ core True] by fastforce
next
  case (Stop core s s' r)
  then show ?case unfolding sched_ok_def using stop_ok [of s _ _ core True] by fastforce
next
  case (Thread t s p esp s')
  then show ?case unfolding sched_ok_def using thread_new_ok [of s _ _ t p esp] by fastforce
next
  case (Reap s s')
  then show ?case unfolding sched_ok_def using delete_zombies_ok by fastforce
next
  case (Wait core s i s' r)
  then show ?case unfolding sched_ok_def using sem_wait_ok [of s _ _ core i True] by fastforce
next
  case (Signal i s s')
  then show ?case unfolding sched_ok_def using sem_signal_ok [of s] by fastforce
next
  case (Future_Down core s i s' r)
  then show ?case unfolding sched_ok_def using future_down_ok [of s _ _ core i] by fastforce
next
  case (Future_Up i s s')
  then show ?case unfolding sched_ok_def using future_up_ok [of s] by fastforce
next
  case (Exit p s v s')
  then show ?case unfolding sched_ok_def using exit_process_ok by blast
next
  case (New_Semaphore p s init k q i)
  then show ?case unfolding sched_ok_def using new_semaphore_ok by blast
next
  case (New_Process isInit dir s k q)
  then show ?case unfolding sched_ok_def using new_process_ok by blast
qed

text \<open>The state after \<^verbatim>\<open>threadsInit\<close>: one idle thread per core, nothing ready, nobody waiting.\<close>

definition boot_state :: "ptr list \<Rightarrow> process list \<Rightarrow> kobjects \<Rightarrow> sched" where
  "boot_state ts ps k =
     idle_state \<lparr>tnext = (\<lambda>_. nullptr), rq_first = nullptr, rq_size = 0, zq_first = nullptr, zq_last = nullptr,
       activeThreads = [], idleThreads = [], isIdle = (\<lambda>_. False), tcb_id = (\<lambda>_. 0), next_id = 0, tproc = (\<lambda>_. 0),
       no_preempt = (\<lambda>_. 0), interruptEsp = (\<lambda>_. 0), esp0 = replicate MAX_PROCS 0, procs = ps, kobj = k, jiffies = 0,
       tcbs = []\<rparr> ts"

definition new_idles :: "ptr list \<Rightarrow> sched \<Rightarrow> sched" where
  "new_idles ts s = fold (\<lambda>t s. tcb_new t 0 True 0 s) ts s"

lemma new_idles_Cons: "new_idles (t # ts) s = new_idles ts (tcb_new t 0 True 0 s)"
  by (simp add: new_idles_def)

lemma new_idles_fields:
  "tnext (new_idles ts s) = tnext s" "rq_first (new_idles ts s) = rq_first s" "zq_first (new_idles ts s) = zq_first s"
  "zq_last (new_idles ts s) = zq_last s" "kobj (new_idles ts s) = kobj s" "procs (new_idles ts s) = procs s"
  "tcbs (new_idles ts s) = rev ts @ tcbs s"
  "isIdle (new_idles ts s) t = (t \<in> set ts \<or> isIdle s t)" "tproc (new_idles ts s) t = (if t \<in> set ts then 0 else tproc s t)"
  by (induction ts arbitrary: s) (simp_all add: new_idles_Cons, simp_all add: new_idles_def tcb_new_def)

lemma boot_state_ok:
  assumes "distinct ts" "nullptr \<notin> set ts" "ps \<noteq> []" "sem_waiters k = []" "\<forall>p \<in> set ps. proc_output p < length (future_objs k)"
  shows "sched_ok (boot_state ts ps k)"
proof -
  let ?s = "boot_state ts ps k"
  have f: "tnext ?s = (\<lambda>_. nullptr)" "rq_first ?s = nullptr" "zq_first ?s = nullptr" "zq_last ?s = nullptr"
    "activeThreads ?s = ts" "idleThreads ?s = ts" "\<And>t. isIdle ?s t = (t \<in> set ts)" "tcbs ?s = rev ts" "kobj ?s = k" "procs ?s = ps"
    "\<And>t. tproc ?s t = 0"
    unfolding boot_state_def idle_state_def Let_def new_idles_def [symmetric] by (simp_all add: new_idles_fields)
  have "placed ?s [] [] = []" using assms(4) by (simp add: placed_def running_def f)
  moreover have "cores_inv ?s" using assms(3,5) by (auto simp: cores_inv_def f)
  ultimately have "sched_inv ?s [] [] []"
    using assms(1,2) by (simp add: sched_inv_def pq_rel_def readyQ_def queue_rel_def zombies_def f)
  then show ?thesis unfolding sched_ok_def by blast
qed

lemma reachable_ok: "sched_step\<^sup>*\<^sup>* s s' \<Longrightarrow> sched_ok s \<Longrightarrow> sched_ok s'"
  by (induction rule: rtranclp_induct) (auto intro: sched_step_ok)

text \<open>
  \<^bold>\<open>C36.\<close> A thread is in one place (threads.h, threads.cc, pit.cc). In every state the kernel reaches from
  the boot of its cores by ticks, yields, thread ends, new threads, the reaper, semaphores, futures, process ends and new objects, the links
  of the ready queue and of the zombies form finite lists, and the threads that exist, other than the idle ones, are exactly
  the ready threads, the zombies, the threads running on the cores and the threads that wait for semaphores and futures, each of
  them once: none is lost, none runs on two cores, none is ready while it runs, and no thread that is still needed was
  deleted. Idle threads run only on their own core and are never queued. On every core \<^verbatim>\<open>yield\<close> and \<^verbatim>\<open>stop\<close> can
  be called without failing an assertion.
\<close>

theorem threads_in_one_place:
  assumes "distinct ts" "nullptr \<notin> set ts" "ps \<noteq> []" "sem_waiters k = []" "\<forall>p \<in> set ps. proc_output p < length (future_objs k)"
    and "sched_step\<^sup>*\<^sup>* (boot_state ts ps k) s"
  shows "\<exists>rs zs. chain (tnext s) (rq_first s) rs \<and> chain (tnext s) (zq_first s) zs \<and>
    distinct (rs @ zs @ running s @ sem_waiters (kobj s)) \<and>
    (\<forall>t. t \<in> set (tcbs s) \<and> \<not> isIdle s t \<longleftrightarrow> t \<in> set (rs @ zs @ running s @ sem_waiters (kobj s))) \<and>
    (\<forall>c < length (activeThreads s). (isIdle s (activeThreads s ! c) \<longrightarrow> activeThreads s ! c = idleThreads s ! c) \<and>
       (\<exists>s' r. yield c True s = Some (Inr (s', r))) \<and> (\<exists>s' r. stop c True s = Some (Inr (s', r))))"
proof -
  have "sched_ok s" using reachable_ok [OF assms(6)] boot_state_ok [OF assms(1-5)] by blast
  then obtain rs zs where inv: "sched_inv s rs zs []" unfolding sched_ok_def by blast
  have len: "length (activeThreads s) = length (idleThreads s)" using inv by (simp add: sched_inv_def cores_inv_def)
  have y: "\<exists>s' r. yield c True s = Some (Inr (s', r))" "\<exists>s' r. stop c True s = Some (Inr (s', r))" if "c < length (activeThreads s)" for c
    using yield_ok [OF inv, of c True] stop_ok [OF inv, of c True] that len by auto
  have e: "set (rs @ zs @ running s @ sem_waiters (kobj s)) = {t \<in> set (tcbs s). \<not> isIdle s t}"
    using inv by (simp add: sched_inv_def placed_def)
  show ?thesis unfolding e
    using inv y len unfolding sched_inv_def placed_def cores_inv_def
    by (intro exI [of _ rs] exI [of _ zs]) (simp add: pq_rel_def readyQ_def queue_rel_def zombies_def)
qed

definition first_boot :: sched where
  "first_boot = boot_state [16] [boot_process] (fst (process_new True 0x100000 boot_objects))"

lemma first_boot_fields:
  "tnext first_boot = (\<lambda>_. nullptr)" "rq_first first_boot = nullptr" "zq_first first_boot = nullptr" "zq_last first_boot = nullptr"
  "tcbs first_boot = [16]" "procs first_boot = [boot_process]" "idleThreads first_boot = [16]" "activeThreads first_boot = [16]"
  unfolding first_boot_def boot_state_def idle_state_def Let_def new_idles_def [symmetric] by (simp_all add: new_idles_fields)

theorem threads_in_one_place_witness:
  "\<exists>s. sched_step\<^sup>*\<^sup>* first_boot s \<and> rq_first s = 32 \<and> (\<exists>s' r. yield 0 True s = Some (Inr (s', r))) \<and>
     (\<exists>rs zs. chain (tnext s) (rq_first s) rs \<and> distinct (rs @ zs @ running s @ sem_waiters (kobj s)) \<and>
        32 \<in> set (rs @ zs @ running s @ sem_waiters (kobj s)))"
proof -
  let ?k = "fst (process_new True 0x100000 boot_objects)"
  have hyps: "distinct [16 :: ptr]" "nullptr \<notin> set [16 :: ptr]" "[boot_process] \<noteq> []" "sem_waiters ?k = []"
    "\<forall>p \<in> set [boot_process]. proc_output p < length (future_objs ?k)"
    by (simp_all add: sem_waiters_def process_new_def boot_objects_def boot_process_def Let_def future_new_def semaphore_new_def)
  have "delete_zombies first_boot = Some first_boot"
    by (subst delete_zombies.simps) (simp add: queue_remove_def zombies_def set_zombies_def first_boot_fields)
  then obtain s where s: "thread_new 32 0 0x9000 first_boot = Some (Inr s)" "rq_first s = 32"
    "32 \<in> set (tcbs s)" "\<not> isIdle s 32" "activeThreads s = [16]"
    by (simp add: thread_new_def schedule_def tcb_new_def pq_add_def readyQ_def set_readyQ_def first_boot_fields)
  have "sched_step first_boot s"
    by (rule sched_step.Thread [OF _ _ _ s(1)]) (simp_all add: first_boot_fields)
  then have r: "sched_step\<^sup>*\<^sup>* (boot_state [16] [boot_process] ?k) s" by (simp add: first_boot_def)
  obtain rs zs where t: "chain (tnext s) (rq_first s) rs" "distinct (rs @ zs @ running s @ sem_waiters (kobj s))"
    "\<forall>t. t \<in> set (tcbs s) \<and> \<not> isIdle s t \<longleftrightarrow> t \<in> set (rs @ zs @ running s @ sem_waiters (kobj s))"
    "\<exists>s' r. yield 0 True s = Some (Inr (s', r))"
    using threads_in_one_place [OF hyps r] unfolding s(5) by auto
  have "32 \<in> set (rs @ zs @ running s @ sem_waiters (kobj s))" using t(3) s(3,4) by blast
  then show ?thesis using t(1,2,4) r s(2) unfolding first_boot_def by blast
qed

lemma masked_tick:
  assumes "no_preempt s (activeThreads s ! core) \<noteq> 0"
  shows "apitHandler core s = Some (Inr (if core = 0 then s\<lparr>jiffies := jiffies s + 1\<rparr> else s))"
  using assms by (cases "core = 0") (simp_all add: apitHandler_def Let_def)

text \<open>
  A defect of \<^verbatim>\<open>block\<close> (threads.h, pit.cc). When a tick finds no other thread ready, \<^verbatim>\<open>yield\<close> returns
  without clearing the \<^verbatim>\<open>no_preempt\<close> mark it has set. From then on ticks on that core do nothing but count
  time: the thread is neither charged nor preempted, even when others become ready, and a kill flag set
  later is not noticed.
\<close>

theorem lone_thread_never_preempted:
  assumes "core < length (activeThreads s)" "activeThreads s ! core = me" "me \<noteq> nullptr" "\<not> isIdle s me" "no_preempt s me = 0"
    and "rq_first s = nullptr" "\<not> flag_objs (kobj s) ! kill_flag (procs s ! tproc s me)"
  shows "\<exists>s'. apitHandler core s = Some (Inr s') \<and> activeThreads s' ! core = me \<and>
    (\<forall>k nxt q. apitHandler core (s'\<lparr>kobj := k, tnext := nxt, rq_first := q\<rparr>) =
       Some (Inr (if core = 0 then s'\<lparr>kobj := k, tnext := nxt, rq_first := q, jiffies := jiffies s' + 1\<rparr>
                  else s'\<lparr>kobj := k, tnext := nxt, rq_first := q\<rparr>)))"
proof -
  define s0 where "s0 = (if core = 0 then s\<lparr>jiffies := jiffies s + 1\<rparr> else s)"
  have e: "activeThreads s0 ! core = me" "isIdle s0 = isIdle s" "no_preempt s0 = no_preempt s" "rq_first s0 = nullptr"
    "kobj s0 = kobj s" "procs s0 = procs s" "tproc s0 = tproc s"
    using assms by (auto simp: s0_def)
  let ?s1 = "charge (tproc s me) s0"
  let ?s = "?s1\<lparr>no_preempt := (no_preempt s)(me := 1)\<rparr>"
  have kf: "kill_flag (procs (charge p s0) ! p) = kill_flag (procs s0 ! p)" for p
    by (cases "p < length (procs s0)") (simp_all add: charge_def list_update_beyond)
  have "kobj ?s1 = kobj s" "activeThreads ?s1 ! core = me" "no_preempt ?s1 = no_preempt s" "rq_first ?s1 = nullptr"
    "isIdle ?s1 = isIdle s"
    using e by (simp_all add: charge_def)
  note c = this kf [of "tproc s me", unfolded e(6)]
  have y: "yield core False ?s1 = Some (Inr (?s, Returned))"
    using c by (simp add: yield_def block_def pq_remove_def readyQ_def set_readyQ_def Let_def)
  have "apitHandler core s = Some (Inr ?s)"
    using assms e c y by (simp add: apitHandler_def flip: s0_def)
  moreover have a: "activeThreads ?s ! core = me" using c by simp
  moreover have "apitHandler core (?s\<lparr>kobj := k, tnext := nxt, rq_first := q\<rparr>) =
      Some (Inr (if core = 0 then ?s\<lparr>kobj := k, tnext := nxt, rq_first := q, jiffies := jiffies ?s + 1\<rparr>
                 else ?s\<lparr>kobj := k, tnext := nxt, rq_first := q\<rparr>))" for k nxt q
    by (subst masked_tick) (use a in simp_all)
  ultimately show ?thesis by blast
qed

theorem lone_thread_never_preempted_witness:
  "\<exists>s'. apitHandler 0 (first_boot\<lparr>activeThreads := [32]\<rparr>) = Some (Inr s') \<and>
     apitHandler 0 (s'\<lparr>kobj := kobj s'\<lparr>flag_objs := [True]\<rparr>\<rparr>) =
       Some (Inr (s'\<lparr>kobj := kobj s'\<lparr>flag_objs := [True]\<rparr>, jiffies := jiffies s' + 1\<rparr>))"
proof -
  let ?s = "first_boot\<lparr>activeThreads := [32]\<rparr>"
  have "\<not> isIdle ?s 32" "no_preempt ?s 32 = 0" "tproc ?s 32 = 0" "kobj ?s = fst (process_new True 0x100000 boot_objects)"
    unfolding first_boot_def boot_state_def idle_state_def Let_def by (simp_all add: tcb_new_def)
  then obtain s' where s': "apitHandler 0 ?s = Some (Inr s')"
    "\<forall>k nxt q. apitHandler 0 (s'\<lparr>kobj := k, tnext := nxt, rq_first := q\<rparr>) =
       Some (Inr (s'\<lparr>kobj := k, tnext := nxt, rq_first := q, jiffies := jiffies s' + 1\<rparr>))"
    using lone_thread_never_preempted [of 0 ?s 32]
    by (auto simp: first_boot_fields process_new_def boot_objects_def boot_process_def Let_def)
  then show ?thesis
    using s'(2) [THEN spec [of _ "kobj s'\<lparr>flag_objs := [True]\<rparr>"], THEN spec [of _ "tnext s'"], THEN spec [of _ "rq_first s'"]]
    by (intro exI [of _ s']) simp
qed

end
