(* ===== verification/Block_IO.thy ===== *)
theory Block_IO
  imports LibK
begin

text \<open>
  \<^verbatim>\<open>kernel/block_io.h\<close> and \<^verbatim>\<open>kernel/block_io.cc\<close>: reading bytes through an object that reads blocks.
  The record \<open>block_io\<close> holds the object's virtual methods. What a caller's buffer receives is
  returned as a list of bytes next to the method's result.
\<close>

subsection \<open>Operations (block\_io.h, block\_io.cc)\<close>

record block_io =
  block_size :: u32
  size_in_bytes :: u32
  read_block :: "u32 \<Rightarrow> u8 list result"

definition size_in_blocks :: "block_io \<Rightarrow> u32" where
  "size_in_blocks io = (size_in_bytes io + block_size io - 1) div block_size io"

text \<open>
  \<^verbatim>\<open>new char[n]\<close> for the temporary block (heap.cc): the heap of five megabytes never has a block of more than two
  gigabytes, so \<^verbatim>\<open>operator new[]\<close> panics; above 0xFFFFFFFC the size wraps around and the block is too small for what is read into it.
  A block that is not larger is taken to be available. So \<^verbatim>\<open>memcpy\<close>, whose counter is signed, is only
  asked for fewer than \<open>2 ^ 31\<close> bytes, a part of a block.
\<close>

definition new_char :: "u32 \<Rightarrow> unit result" where
  "new_char n =
     (if n \<le> 0x80000000 then Inr ()
      else if n \<le> 0xFFFFFFFC then Inl (Panic ''out of memory'')
      else Inl (Undefined_Behaviour ''write behind a block of the heap''))"

definition bio_read :: "block_io \<Rightarrow> u32 \<Rightarrow> u32 \<Rightarrow> (int \<times> u8 list) result" where
  "bio_read io off desired_n =
     (let sz = size_in_bytes io; bsz = block_size io in
      if off > sz then Inr (- 1, [])
      else if off = sz then Inr (0, [])
      else if bsz = 0 then Inl (Undefined_Behaviour ''division by zero'')
      else
        let n = kmin desired_n (sz - off);
            block_number = off div bsz;
            offset_in_block = off mod bsz;
            actual_n = kmin (bsz - offset_in_block) n
        in assert_k (actual_n \<le> n) ''actual_n <= n''
          (assert_k (off + actual_n \<le> sz) ''offset + actual_n <= sz''
            (if actual_n = bsz then
               assert_k (offset_in_block = 0) ''offset_in_block == 0''
                 (rbind (read_block io block_number) (\<lambda>buffer. Inr (uint actual_n, buffer)))
             else
               assert_k (offset_in_block + actual_n \<le> bsz) ''offset_in_block + actual_n <= block_size''
                 (rbind (new_char bsz) (\<lambda>_.
                  rbind (read_block io block_number) (\<lambda>temp.
                    Inr (uint actual_n, take (nat (sint actual_n)) (drop (unat offset_in_block) temp))))))))"

lemma bio_read_count:
  assumes "bio_read io off n = Inr (cnt, bs)" "0 < cnt"
  shows "cnt \<le> uint n" "uint (n - of_int cnt) = uint n - cnt"
proof -
  have "\<exists>a. cnt = uint a \<and> a \<le> n"
    using assms unfolding bio_read_def Let_def kmin_def
    by (auto simp: not_less split: if_splits)
  then obtain a where a: "cnt = uint a" "a \<le> n" by blast
  then show "cnt \<le> uint n" by (simp add: word_le_def)
  then show "uint (n - of_int cnt) = uint n - cnt" using a by (simp add: uint_sub_if_size)
qed

lemma bio_read_decreases:
  assumes "bio_read io off n = Inr (cnt, bs)" "\<not> cnt < 0" "cnt \<noteq> 0"
  shows "unat (n - of_int cnt) < unat n"
proof -
  have c: "0 < cnt" using assms(2,3) by simp
  note b = bio_read_count [OF assms(1) c]
  have "nat (uint (n - of_int cnt)) < nat (uint n)" unfolding b(2) using b(1) c by arith
  then show ?thesis by (simp only: unat_eq_nat_uint)
qed

function read_all_loop :: "block_io \<Rightarrow> u32 \<Rightarrow> u32 \<Rightarrow> int \<Rightarrow> u8 list \<Rightarrow> (int \<times> u8 list) result" where
  "read_all_loop io off n total_count buffer =
     (if n > 0 then
        (case bio_read io off n of
           Inl e \<Rightarrow> Inl e
         | Inr (cnt, bs) \<Rightarrow>
             if cnt < 0 then Inr (cnt, buffer)
             else if cnt = 0 then Inr (total_count, buffer)
             else read_all_loop io (off + of_int cnt) (n - of_int cnt) (total_count + cnt) (buffer @ bs))
      else Inr (total_count, buffer))"
  by pat_completeness auto

termination
  by (relation "measure (\<lambda>(io, off, n, t, b). unat n)") (auto intro: bio_read_decreases)

declare read_all_loop.simps [simp del]

definition read_all :: "block_io \<Rightarrow> u32 \<Rightarrow> u32 \<Rightarrow> (int \<times> u8 list) result" where
  "read_all io off n = read_all_loop io off n 0 []"

text \<open>The template \<^verbatim>\<open>read\<close> fills an object of a given size.\<close>

definition read_object :: "block_io \<Rightarrow> u32 \<Rightarrow> nat \<Rightarrow> u8 list result" where
  "read_object io off sz =
     rbind (read_all io off (of_nat sz)) (\<lambda>(cnt, bs).
       assert_k (cnt = int sz) ''cnt == sizeof(T)'' (Inr bs))"

subsection \<open>The contract of a block device\<close>

text \<open>A block device that holds \<open>content\<close>: every block that contains some of it can be read whole, and
  its bytes are those of the content where the content reaches. A block has at most \<open>2 ^ 31\<close> bytes.\<close>

definition holds_content :: "block_io \<Rightarrow> u8 list \<Rightarrow> bool" where
  "holds_content io content \<longleftrightarrow>
     0 < block_size io \<and> block_size io \<le> 0x80000000 \<and> length content = unat (size_in_bytes io) \<and>
     (\<forall>i. unat i * unat (block_size io) < length content \<longrightarrow>
        (\<exists>b. read_block io i = Inr b \<and> length b = unat (block_size io) \<and>
          (\<forall>j < length b. unat i * unat (block_size io) + j < length content \<longrightarrow>
             b ! j = content ! (unat i * unat (block_size io) + j))))"

lemma holds_content_block:
  assumes "holds_content io content" "unat i * unat (block_size io) < length content"
  obtains b where "read_block io i = Inr b" "length b = unat (block_size io)"
    "\<And>j. j < unat (block_size io) \<Longrightarrow> unat i * unat (block_size io) + j < length content \<Longrightarrow>
       b ! j = content ! (unat i * unat (block_size io) + j)"
  using assms unfolding holds_content_def by metis

lemma unat_kmin: "unat (kmin a b) = min (unat a) (unat b)"
  by (simp add: kmin_def word_less_nat_alt)

lemma bio_read_end: "off > size_in_bytes io \<Longrightarrow> bio_read io off n = Inr (- 1, [])"
  "off = size_in_bytes io \<Longrightarrow> bio_read io off n = Inr (0, [])"
  by (simp_all add: bio_read_def Let_def)

text \<open>One read: a non-empty prefix of what was asked for, up to the end of the block.\<close>

lemma bio_read_some:
  assumes h: "holds_content io content" and off: "unat off < length content" and n: "0 < n"
  obtains c where "0 < c" "c \<le> unat n" "unat off + c \<le> length content"
    "bio_read io off n = Inr (int c, take c (drop (unat off) content))"
proof -
  let ?bsz = "block_size io" and ?sz = "size_in_bytes io"
  define B where "B = unat ?bsz"
  have B: "0 < B" and len: "length content = unat ?sz"
    using h by (auto simp: holds_content_def B_def unat_gt_0)
  let ?n = "kmin n (?sz - off)" and ?ob = "off mod ?bsz"
  let ?a = "kmin (?bsz - ?ob) ?n"
  have o: "unat ?ob = unat off mod B" "unat (off div ?bsz) = unat off div B"
    by (simp_all add: unat_mod_distrib unat_div_distrib B_def)
  have oB: "unat off mod B < B" using B by simp
  have u1: "unat (?sz - off) = unat ?sz - unat off" using off len by (simp add: unat_sub word_le_nat_alt)
  have u2: "unat (?bsz - ?ob) = B - unat off mod B"
    using o oB by (simp add: unat_sub word_le_nat_alt B_def)
  define c where "c = min (B - unat off mod B) (min (unat n) (unat ?sz - unat off))"
  have a: "unat ?a = c" by (simp only: unat_kmin u1 u2 c_def)
  have ua: "uint ?a = int c" by (simp flip: a)
  have c: "0 < c" "c \<le> unat n" "unat off + c \<le> unat ?sz" "unat off mod B + c \<le> B"
    using oB n off len by (auto simp: c_def word_less_nat_alt)
  have e1: "off + ?a \<le> ?sz"
    using c(3) a unat_lt_2p32 [of ?sz] by (simp add: word_le_nat_alt unat_add_no_wrap)
  have e2: "?ob + ?a \<le> ?bsz"
    using c(4) a o(1) unat_lt_2p32 [of ?bsz] by (simp add: word_le_nat_alt unat_add_no_wrap B_def)
  have e3: "?a \<le> ?n" unfolding kmin_def by auto
  have e4: "new_char ?bsz = Inr ()" using h by (simp add: holds_content_def new_char_def)
  have q: "unat off div B * B + unat off mod B = unat off" by simp
  then have "unat (off div ?bsz) * unat ?bsz < length content" using o(2) off by (metis B_def le_add1 le_less_trans)
  from holds_content_block [OF h this] obtain b where b: "read_block io (off div ?bsz) = Inr b" "length b = B"
    "\<And>j. j < B \<Longrightarrow> unat off div B * B + j < length content \<Longrightarrow> b ! j = content ! (unat off div B * B + j)"
    unfolding o(2) B_def [symmetric] by blast
  have slice: "take c (drop (unat off mod B) b) = take c (drop (unat off) content)"
  proof (rule nth_equalityI)
    show "length (take c (drop (unat off mod B) b)) = length (take c (drop (unat off) content))"
      using c b(2) len by simp
    fix i assume "i < length (take c (drop (unat off mod B) b))"
    then have i: "i < c" by simp
    have "unat off div B * B + (unat off mod B + i) = unat off + i" using q by simp
    then show "take c (drop (unat off mod B) b) ! i = take c (drop (unat off) content) ! i"
      using i c b(2) b(3) [of "unat off mod B + i"] len by simp
  qed
  have lt: "\<not> off > ?sz" "off \<noteq> ?sz" "?bsz \<noteq> 0"
    using off len B by (auto simp: word_less_nat_alt B_def)
  have "bio_read io off n = Inr (int c, take c (drop (unat off) content))"
  proof (cases "?a = ?bsz")
    case True
    then have cB: "c = B" "unat off mod B = 0" using a c(4) by (auto simp: B_def)
    then have "?ob = 0" using o(1) by (simp add: unat_eq_zero)
    then show ?thesis using lt e1 e3 True b(1,2) slice cB ua by (simp add: bio_read_def Let_def)
  next
    case False
    then have "c < B" using a c(4) by (auto simp: B_def word_unat_eq_iff)
    then have "c < 2147483648" using h by (simp add: holds_content_def B_def word_le_nat_alt)
    then have "nat (sint ?a) = c" using a sint_small [of ?a] by simp
    then show ?thesis using False lt e1 e2 e3 e4 b(1) slice ua o(1) by (simp add: bio_read_def Let_def)
  qed
  then show ?thesis using that [of c] c len by simp
qed

lemma read_all_loop_content:
  assumes "holds_content io content" "unat off \<le> length content"
  shows "read_all_loop io off n t buf =
    Inr (t + int (min (unat n) (length content - unat off)), buf @ take (unat n) (drop (unat off) content))"
  using assms(2)
proof (induction "unat n" arbitrary: off n t buf rule: less_induct)
  case less
  have len: "length content = unat (size_in_bytes io)" using assms(1) by (simp add: holds_content_def)
  consider "n = 0" | "0 < n" "unat off = length content" | "0 < n" "unat off < length content"
    using less.prems by (metis le_neq_implies_less word_gt_0)
  then show ?case
  proof cases
    case 1
    then show ?thesis by (subst read_all_loop.simps) simp
  next
    case 2
    then have "off = size_in_bytes io" using len by (simp add: word_unat_eq_iff)
    then show ?thesis using 2 by (subst read_all_loop.simps) (simp add: bio_read_end)
  next
    case 3
    obtain c where c: "0 < c" "c \<le> unat n" "unat off + c \<le> length content"
      "bio_read io off n = Inr (int c, take c (drop (unat off) content))"
      by (rule bio_read_some [OF assms(1) 3(2,1)]) blast
    have lim: "length content < 4294967296" using len unat_lt_2p32 by simp
    have uc: "unat (of_nat c :: u32) = c" using c(3) lim by simp
    have u: "unat (off + of_nat c) = unat off + c" "unat (n - of_nat c) = unat n - c"
      using uc c lim by (simp_all add: unat_add_no_wrap unat_sub word_le_nat_alt)
    have "read_all_loop io off n t buf =
        read_all_loop io (off + of_nat c) (n - of_nat c) (t + int c) (buf @ take c (drop (unat off) content))"
      using 3 c by (subst read_all_loop.simps) simp
    also have "\<dots> = Inr (t + int c + int (min (unat n - c) (length content - (unat off + c))),
        (buf @ take c (drop (unat off) content)) @ take (unat n - c) (drop (unat off + c) content))"
      using less.hyps [of "n - of_nat c" "off + of_nat c"] c u by simp
    finally have r: "read_all_loop io off n t buf = \<dots>" .
    have tk: "take (unat n) (drop (unat off) content) =
        take c (drop (unat off) content) @ take (unat n - c) (drop (unat off + c) content)"
      using c(2) by (metis add.commute drop_drop le_add_diff_inverse take_add)
    have "c + min (unat n - c) (length content - (unat off + c)) = min (unat n) (length content - unat off)"
      using c(2,3) by linarith
    then have "t + int c + int (min (unat n - c) (length content - (unat off + c))) =
        t + int (min (unat n) (length content - unat off))"
      by (simp only: add.assoc flip: of_nat_add)
    then show ?thesis unfolding r tk by simp
  qed
qed

text \<open>The whole of \<^verbatim>\<open>read_all\<close>: a slice of the content, clipped at its end; -1 beyond the end.\<close>

lemma read_all_content:
  assumes "holds_content io content"
  shows "read_all io off n =
    (if 0 < n \<and> length content < unat off then Inr (- 1, [])
     else Inr (int (min (unat n) (length content - unat off)), take (unat n) (drop (unat off) content)))"
proof (cases "length content < unat off")
  case True
  then have "off > size_in_bytes io" using assms by (simp add: holds_content_def word_less_nat_alt)
  then show ?thesis using True
    by (cases "n = 0") (simp_all add: read_all_def read_all_loop.simps [of io off] bio_read_end word_gt_0)
next
  case False
  then show ?thesis using read_all_loop_content [OF assms, of off n 0 "[]"] by (simp add: read_all_def)
qed

lemma read_object_content:
  assumes "holds_content io content" "unat off + sz \<le> length content"
  shows "read_object io off sz = Inr (take sz (drop (unat off) content))"
proof -
  have "length content = unat (size_in_bytes io)" using assms(1) by (simp add: holds_content_def)
  then have "sz < 4294967296" using assms(2) unat_lt_2p32 [of "size_in_bytes io"] by linarith
  then show ?thesis using assms by (auto simp: read_object_def read_all_content [OF assms(1)])
qed

text \<open>
  What clients of \<^verbatim>\<open>read_all\<close> rely on, independent of blocks: a byte source. A device that stores a
  content (\<open>stored_content\<close>) is one.
\<close>

locale byte_source =
  fixes fetch :: "u32 \<Rightarrow> u32 \<Rightarrow> (int \<times> u8 list) result"
    and content :: "u8 list"
  assumes fetch_inside: "unat off \<le> length content \<Longrightarrow>
      fetch off n = Inr (int (min (unat n) (length content - unat off)), take (unat n) (drop (unat off) content))"
    and fetch_beyond: "length content < unat off \<Longrightarrow> 0 < n \<Longrightarrow> fetch off n = Inr (- 1, [])"
begin

lemma fetch_full:
  "unat off + unat n \<le> length content \<Longrightarrow> fetch off n = Inr (uint n, take (unat n) (drop (unat off) content))"
  using fetch_inside [of off n] by simp

lemma fetch_at_end: "unat off = length content \<Longrightarrow> fetch off n = Inr (0, [])"
  using fetch_inside [of off n] by simp

text \<open>Two consecutive reads give the bytes of one.\<close>

lemma fetch_split:
  assumes "unat off + unat n + unat k \<le> length content" "length content < 2 ^ 32"
    and "fetch off n = Inr (c, bs)" "fetch (off + n) k = Inr (d, cs)"
  shows "fetch off (n + k) = Inr (c + d, bs @ cs)"
proof -
  have u: "unat (off + n) = unat off + unat n" "unat (n + k) = unat n + unat k"
    using assms(1,2) by (simp_all add: unat_add_no_wrap)
  have f: "c = uint n" "bs = take (unat n) (drop (unat off) content)"
    "d = uint k" "cs = take (unat k) (drop (unat off + unat n) content)"
    using assms fetch_full [of off n] fetch_full [of "off + n" k] u by auto
  have "uint (n + k) = uint n + uint k" using u(2) by (metis of_nat_add uint_nat)
  then show ?thesis
    using fetch_full [of off "n + k"] assms(1) u f take_add [of "unat n" "unat k" "drop (unat off) content"]
    by (simp add: add.commute [of "unat n" "unat off"])
qed

end

locale stored_content =
  fixes io :: block_io and content :: "u8 list"
  assumes holds: "holds_content io content"

sublocale stored_content \<subseteq> byte_source "read_all io" content
  by unfold_locales (simp_all add: read_all_content [OF holds])

subsection \<open>Properties\<close>

text \<open>
  \<^bold>\<open>C17.\<close> Reading a range of a block device (\<^verbatim>\<open>BlockIO::read_all\<close>, \<^verbatim>\<open>read\<close>). On a device whose blocks hold
  \<open>content\<close>, reading \<open>n\<close> bytes from offset \<open>off\<close> ends and returns exactly that slice of the content, cut
  at its end, with the number of bytes; a non-empty read from beyond the end returns -1 and nothing.
  The result does not depend on the block size (up to \<open>2 ^ 31\<close>, the largest power of two) or on how the range lies in the blocks.
\<close>

theorem read_all_slice:
  assumes "holds_content io content"
  shows "read_all io off n =
    (if 0 < n \<and> length content < unat off then Inr (- 1, [])
     else let bs = take (unat n) (drop (unat off) content) in Inr (int (length bs), bs))"
  using read_all_content [OF assms, of off n] by (simp add: Let_def min.commute)

definition tiny_disk :: block_io where
  "tiny_disk = \<lparr>block_size = 4, size_in_bytes = 6,
     read_block = (\<lambda>i. if i = 0 then Inr [11, 12, 13, 14] else Inr [15, 16, 0, 0])\<rparr>"

lemma tiny_disk_holds: "holds_content tiny_disk [11, 12, 13, 14, 15, 16]"
proof -
  have "\<exists>b. read_block tiny_disk i = Inr b \<and> length b = 4 \<and>
      (\<forall>j < length b. unat i * 4 + j < 6 \<longrightarrow> b ! j = [11, 12, 13, 14, 15, 16] ! (unat i * 4 + j))"
    if "unat i * 4 < 6" for i
  proof -
    have "i = 0 \<or> i = 1" using that by (auto simp: word_unat_eq_iff)
    then show ?thesis by (auto simp: tiny_disk_def less_Suc_eq numeral_eq_Suc)
  qed
  moreover have "unat (block_size tiny_disk) = 4" "unat (size_in_bytes tiny_disk) = 6" "0 < block_size tiny_disk" "block_size tiny_disk \<le> 0x80000000"
    and "length [11, 12, 13, 14, 15, 16 :: u8] = 6"
    by (simp_all add: tiny_disk_def)
  ultimately show ?thesis unfolding holds_content_def by (simp only: simp_thms) blast
qed

theorem read_all_slice_witness:
  "read_all tiny_disk 2 3 = Inr (3, [13, 14, 15]) \<and> read_all tiny_disk 7 1 = Inr (- 1, [])"
  using read_all_slice [OF tiny_disk_holds, of 2 3] read_all_slice [OF tiny_disk_holds, of 7 1] by simp

end
