(* ===== verification/Ide.thy ===== *)
theory Ide
  imports Block_IO
begin

text \<open>
  The disk driver of \<^verbatim>\<open>kernel/ide.h\<close> and \<^verbatim>\<open>kernel/ide.cc\<close>. The hardware is an argument: what a read of a port
  returns (\<open>dev_inb\<close> for \<^verbatim>\<open>inb\<close>, \<open>dev_inl\<close> for \<^verbatim>\<open>inl\<close>) may depend on the port and on all accesses to ports
  made before, in order. The driver passes this sequence on. A drive that never becomes ready keeps
  the driver in its polling loop (\<open>None\<close>).
\<close>

subsection \<open>Driver (ide.h, ide.cc)\<close>

datatype io_event = Out8 u32 u8 | In8 u32 | In32 u32

record ide_device =
  dev_inb :: "io_event list \<Rightarrow> u32 \<Rightarrow> u8"
  dev_inl :: "io_event list \<Rightarrow> u32 \<Rightarrow> u32"

definition sector_size :: u32 where "sector_size = 512"

definition controller :: "u32 \<Rightarrow> u32" where
  "controller drive = drop_bit 1 drive AND 1"

definition channel :: "u32 \<Rightarrow> u32" where
  "channel drive = drive AND 1"

definition ports :: "u32 list" where "ports = [0x1f0, 0x170]"

definition port :: "u32 \<Rightarrow> u32" where
  "port drive = ports ! unat (controller drive)"

definition ERR :: u8 where "ERR = 0x01"

definition DRQ :: u8 where "DRQ = 0x08"

definition DF :: u8 where "DF = 0x20"

definition DRDY :: u8 where "DRDY = 0x40"

definition BSY :: u8 where "BSY = 0x80"

text \<open>\<^verbatim>\<open>inb\<close> and \<^verbatim>\<open>getStatus\<close>: the value, and the accesses with this one added.\<close>

definition getStatus :: "ide_device \<Rightarrow> u32 \<Rightarrow> io_event list \<Rightarrow> u8 \<times> io_event list" where
  "getStatus dev drive evs = (dev_inb dev evs (port drive + 7), evs @ [In8 (port drive + 7)])"

text \<open>The loops that wait until the status is as wanted.\<close>

partial_function (option) poll :: "(u8 \<Rightarrow> bool) \<Rightarrow> ide_device \<Rightarrow> u32 \<Rightarrow> io_event list \<Rightarrow> io_event list option" where
  "poll stop dev drive evs = (let (st, evs) = getStatus dev drive evs in if stop st then Some evs else poll stop dev drive evs)"

definition waitForDrive :: "ide_device \<Rightarrow> u32 \<Rightarrow> io_event list \<Rightarrow> io_event list result option" where
  "waitForDrive dev drive evs =
     (let (st, evs) = getStatus dev drive evs in
      if st AND (ERR OR DF) \<noteq> 0 then Some (Inl (Panic ''drive error''))
      else if st AND DRDY = 0 then Some (Inl (Panic ''drive is not ready''))
      else map_option Inr (poll (\<lambda>st. st AND BSY = 0) dev drive evs))"

definition read_command :: "u32 \<Rightarrow> u32 \<Rightarrow> io_event list" where
  "read_command drive sector =
     (let base = port drive; ch = channel drive in
      [Out8 (base + 2) 1, Out8 (base + 3) (ucast sector), Out8 (base + 4) (ucast (drop_bit 8 sector)),
       Out8 (base + 5) (ucast (drop_bit 16 sector)),
       Out8 (base + 6) (ucast (0xE0 OR push_bit 4 ch OR (drop_bit 24 sector AND 0xf))), Out8 (base + 7) 0x20])"

definition le32_bytes :: "u32 \<Rightarrow> u8 list" where
  "le32_bytes w = [ucast w, ucast (drop_bit 8 w), ucast (drop_bit 16 w), ucast (drop_bit 24 w)]"

text \<open>The loop that reads \<open>n\<close> words from the data port into the buffer.\<close>

primrec read_words :: "ide_device \<Rightarrow> u32 \<Rightarrow> nat \<Rightarrow> io_event list \<Rightarrow> io_event list \<times> u8 list" where
  "read_words dev base 0 evs = (evs, [])"
| "read_words dev base (Suc n) evs =
     (let w = dev_inl dev evs base; (evs, bs) = read_words dev base n (evs @ [In32 base]) in (evs, le32_bytes w @ bs))"

definition ide_read_block :: "ide_device \<Rightarrow> u32 \<Rightarrow> u32 \<Rightarrow> io_event list \<Rightarrow> (io_event list \<times> u8 list) result option" where
  "ide_read_block dev drive sector evs =
     obind (waitForDrive dev drive evs) (\<lambda>evs.
     obind (waitForDrive dev drive (evs @ read_command drive sector)) (\<lambda>evs.
       map_option (\<lambda>evs. Inr (read_words dev (port drive) (unat sector_size div 4) evs))
         (poll (\<lambda>st. st AND DRQ \<noteq> 0) dev drive evs)))"

text \<open>
  The block device the driver gives to its clients, on a drive that answers each read of a sector as if it were the first:
  \<open>ide_read_block_sector\<close> below shows that the accesses made before do not matter for a working drive.
\<close>

definition ide_io :: "ide_device \<Rightarrow> u32 \<Rightarrow> block_io" where
  "ide_io dev drive =
     \<lparr>block_size = sector_size, size_in_bytes = NOT 0,
      read_block = (\<lambda>s. case ide_read_block dev drive s [] of
        Some r \<Rightarrow> rbind r (\<lambda>(evs, b). Inr b) | None \<Rightarrow> Inl (Panic ''the drive never becomes ready''))\<rparr>"

subsection \<open>A working drive\<close>

text \<open>
  The registers of a controller with the base port \<open>base\<close>, as the ATA standard describes them: sector count, three
  bytes of the sector number, and the device register with its low four bits the top of the sector number, bit 4 the
  drive and bit 6 the mode in which these 28 bits are a sector number. Command 0x20 in the command register reads
  sectors; a transfer is the drive, the sector and the number of words already read through the data port. Nothing is
  promised about other commands, other modes and transfers of more than one sector.
\<close>

record ata =
  ata_count :: u8
  ata_low :: u8
  ata_mid :: u8
  ata_high :: u8
  ata_device :: u8
  transfer :: "(bool \<times> nat \<times> nat) option"

definition ata_reset :: ata where
  "ata_reset = \<lparr>ata_count = 0, ata_low = 0, ata_mid = 0, ata_high = 0, ata_device = 0, transfer = None\<rparr>"

definition ata_lba :: "ata \<Rightarrow> nat" where
  "ata_lba a = unat (ata_low a) + 256 * unat (ata_mid a) + 65536 * unat (ata_high a) + 16777216 * (unat (ata_device a) mod 16)"

definition ata_command :: "u8 \<Rightarrow> ata \<Rightarrow> ata" where
  "ata_command v a =
     a\<lparr>transfer := if v = 0x20 \<and> ata_count a = 1 \<and> bit (ata_device a) 6 then Some (bit (ata_device a) 4, ata_lba a, 0) else None\<rparr>"

fun ata_event :: "u32 \<Rightarrow> io_event \<Rightarrow> ata \<Rightarrow> ata" where
  "ata_event base (Out8 p v) a =
     (if p = base + 2 then a\<lparr>ata_count := v, transfer := None\<rparr>
      else if p = base + 3 then a\<lparr>ata_low := v, transfer := None\<rparr>
      else if p = base + 4 then a\<lparr>ata_mid := v, transfer := None\<rparr>
      else if p = base + 5 then a\<lparr>ata_high := v, transfer := None\<rparr>
      else if p = base + 6 then a\<lparr>ata_device := v, transfer := None\<rparr>
      else if p = base + 7 then ata_command v a else a)"
| "ata_event base (In32 p) a =
     (if p = base then a\<lparr>transfer := map_option (\<lambda>(d, l, k). (d, l, Suc k)) (transfer a)\<rparr> else a)"
| "ata_event base (In8 p) a = a"

definition ata_run :: "u32 \<Rightarrow> io_event list \<Rightarrow> ata" where
  "ata_run base evs = fold (ata_event base) evs ata_reset"

lemma ata_run_append [simp]: "ata_run base (evs @ es) = fold (ata_event base) es (ata_run base evs)"
  by (simp add: ata_run_def)

lemma ata_run_status [simp]: "(ata_event base (In8 p) ^^ n) a = a"
  by (induction n) simp_all

text \<open>The base port of the first and of the second controller.\<close>

definition drive_base :: "bool \<Rightarrow> u32" where
  "drive_base second = (if second then 0x170 else 0x1f0)"

lemma port_base: "port drive = drive_base (bit drive 1)"
proof -
  have "controller drive = (if bit drive 1 then 1 else 0)"
    by (rule bit_word_eqI) (auto simp: controller_def bit_simps intro: gr0I)
  then show ?thesis by (simp add: port_def ports_def drive_base_def)
qed

definition command_lba :: "u32 \<Rightarrow> u32 \<Rightarrow> nat" where
  "command_lba drive sector = ata_lba (ata_reset\<lparr>ata_low := ucast sector, ata_mid := ucast (drop_bit 8 sector),
     ata_high := ucast (drop_bit 16 sector),
     ata_device := ucast (0xE0 OR push_bit 4 (channel drive) OR (drop_bit 24 sector AND 0xf))\<rparr>)"

lemma command_lba: "command_lba drive sector = unat sector mod 268435456"
proof -
  have b: "unat (ucast (drop_bit n sector) :: u8) = unat sector div 2 ^ n mod 256" for n
    by (simp add: unsigned_ucast_eq take_bit_eq_mod unat_drop_bit_eq drop_bit_eq_div [of n "unat sector"])
  have h: "unat (ucast (0xE0 OR push_bit 4 (channel drive) OR (drop_bit 24 sector AND 0xf)) :: u8) mod 16 =
      unat sector div 2 ^ 24 mod 16"
  proof -
    let ?w = "ucast (0xE0 OR push_bit 4 (channel drive) OR (drop_bit 24 sector AND 0xf)) :: u8"
    have "take_bit 4 ?w = take_bit 4 (ucast (drop_bit 24 sector))"
    proof (rule bit_word_eqI)
      fix i assume "i < LENGTH(8)"
      show "bit (take_bit 4 ?w) i = bit (take_bit 4 (ucast (drop_bit 24 sector) :: u8)) i"
      proof (cases "i < 4")
        case True
        then have "i \<in> {0, 1, 2, 3}" by auto
        then show ?thesis by (auto simp: bit_simps)
      qed (simp add: bit_simps)
    qed
    then have "unat (take_bit 4 ?w) = unat (take_bit 4 (ucast (drop_bit 24 sector) :: u8))" by (rule arg_cong)
    then have "take_bit 4 (unat ?w) = take_bit 4 (unat (ucast (drop_bit 24 sector) :: u8))"
      by (simp only: unsigned_take_bit_eq)
    then show ?thesis using b [of 24] by (simp add: take_bit_eq_mod mod_mod_cancel)
  qed
  define s where "s = unat sector"
  have e: "command_lba drive sector =
      s mod 256 + 256 * (s div 256 mod 256) + 65536 * (s div 65536 mod 256) + 16777216 * (s div 16777216 mod 16)"
    using b [of 0] b [of 8] b [of 16] h by (simp add: command_lba_def ata_lba_def s_def)
  have "s div 65536 = s div 256 div 256" "s div 16777216 = s div 256 div 256 div 256"
    by (simp_all add: div_mult2_eq [symmetric])
  moreover have "s mod 268435456 = s mod 256 + 256 * (s div 256 mod 1048576)" for s :: nat
    using mod_mult2_eq [of s 256 1048576] by simp
  moreover have "t mod 1048576 = t mod 256 + 256 * (t div 256 mod 4096)" for t :: nat
    using mod_mult2_eq [of t 256 4096] by simp
  moreover have "t mod 4096 = t mod 256 + 256 * (t div 256 mod 16)" for t :: nat
    using mod_mult2_eq [of t 256 16] by simp
  ultimately show ?thesis using e by (simp add: s_def algebra_simps)
qed

lemma command_device:
  fixes drive sector :: u32
  defines "v \<equiv> ucast (0xE0 OR push_bit 4 (channel drive) OR (drop_bit 24 sector AND 0xf)) :: u8"
  shows "bit v 6" "bit v 4 = bit drive 0"
  unfolding v_def by (simp_all add: channel_def bit_simps)

lemma command_transfer:
  "transfer (fold (ata_event (port drive)) (read_command drive sector) a) = Some (bit drive 0, unat sector mod 268435456, 0)"
  using command_device [of drive sector] command_lba [of drive sector]
  by (simp add: read_command_def Let_def ata_command_def command_lba_def ata_lba_def)

lemma poll_ends:
  assumes "stop (dev_inb dev (evs @ replicate n (In8 (port drive + 7))) (port drive + 7))"
  shows "\<exists>m. poll stop dev drive evs = Some (evs @ replicate m (In8 (port drive + 7)))"
  using assms
proof (induction n arbitrary: evs)
  case 0
  then have "poll stop dev drive evs = Some (evs @ replicate 1 (In8 (port drive + 7)))"
    by (simp add: poll.simps [of stop dev drive evs] getStatus_def)
  then show ?case by blast
next
  case (Suc n)
  let ?p = "In8 (port drive + 7)"
  obtain m where m: "poll stop dev drive (evs @ [?p]) = Some (evs @ replicate (Suc m) ?p)"
    using Suc.IH [of "evs @ [?p]"] Suc.prems by auto
  have "poll stop dev drive evs = Some (evs @ replicate 1 ?p) \<or> poll stop dev drive evs = Some (evs @ replicate (Suc m) ?p)"
    using m by (subst (1 2) poll.simps) (simp add: getStatus_def)
  then show ?case by blast
qed

text \<open>
  Working drives. \<open>ready_status\<close>: after any accesses the status of the controller \<open>c\<close> shows no error and a ready drive, a busy drive
  becomes free when its status is read often enough, and when a transfer has begun the drive asks for the data to be taken.
  \<open>answers\<close>: during a transfer the data port delivers the words of the sector of the selected drive, which holds
  the bytes \<open>img c d\<close>.
\<close>

definition ready_status :: "ide_device \<Rightarrow> bool \<Rightarrow> bool" where
  "ready_status dev c \<longleftrightarrow> (\<forall>evs. let p = drive_base c + 7; status = (\<lambda>n. dev_inb dev (evs @ replicate n (In8 p)) p) in
     status 0 AND (ERR OR DF) = 0 \<and> status 0 AND DRDY \<noteq> 0 \<and> (\<exists>n. status n AND BSY = 0) \<and>
     (transfer (ata_run (drive_base c) evs) \<noteq> None \<longrightarrow> (\<exists>n. status n AND DRQ \<noteq> 0)))"

definition answers :: "ide_device \<Rightarrow> (bool \<Rightarrow> bool \<Rightarrow> nat \<Rightarrow> u8) \<Rightarrow> bool" where
  "answers dev img \<longleftrightarrow> (\<forall>c evs d l k j. transfer (ata_run (drive_base c) evs) = Some (d, l, k) \<and> k < 128 \<and> j < 4 \<longrightarrow>
     le32_bytes (dev_inl dev evs (drive_base c)) ! j = img c d (512 * l + 4 * k + j))"

lemma read_words_length: "length (snd (read_words dev base n evs)) = 4 * n"
  by (induction n arbitrary: evs) (simp_all add: Let_def case_prod_beta le32_bytes_def)

locale ready_drive =
  fixes dev :: ide_device and img :: "bool \<Rightarrow> bool \<Rightarrow> nat \<Rightarrow> u8"
  assumes status: "ready_status dev c" and data: "answers dev img"
begin

lemma wait_ready:
  "\<exists>m. waitForDrive dev drive evs = Some (Inr (evs @ replicate m (In8 (port drive + 7))))"
proof -
  let ?p = "port drive + 7"
  note st = status [of "bit drive 1", unfolded ready_status_def Let_def, rule_format, folded port_base]
  obtain n where "dev_inb dev ((evs @ [In8 ?p]) @ replicate n (In8 ?p)) ?p AND BSY = 0"
    using st [of "evs @ [In8 ?p]"] by blast
  then obtain m where m: "poll (\<lambda>st. st AND BSY = 0) dev drive (evs @ [In8 ?p]) = Some (evs @ replicate (Suc m) (In8 ?p))"
    using poll_ends [of "\<lambda>st. st AND BSY = 0" dev "evs @ [In8 ?p]" n drive] by auto
  have "waitForDrive dev drive evs = Some (Inr (evs @ replicate (Suc m) (In8 ?p)))"
    using st [of evs] m by (simp add: waitForDrive_def getStatus_def)
  then show ?thesis by blast
qed

lemma words_read:
  assumes "transfer (ata_run (drive_base c) evs) = Some (d, l, k)" "k + n \<le> 128" "j < 4 * n"
  shows "snd (read_words dev (drive_base c) n evs) ! j = img c d (512 * l + 4 * k + j)"
  using assms
proof (induction n arbitrary: evs k j)
  case (Suc n)
  let ?w = "le32_bytes (dev_inl dev evs (drive_base c))"
  have len: "length ?w = 4" by (simp add: le32_bytes_def)
  have w: "?w ! i = img c d (512 * l + 4 * k + i)" if "i < 4" for i
    using data Suc.prems(1,2) that unfolding answers_def by simp
  have t: "transfer (ata_run (drive_base c) (evs @ [In32 (drive_base c)])) = Some (d, l, Suc k)"
    using Suc.prems(1) by simp
  show ?case
  proof (cases "j < 4")
    case True
    then show ?thesis using w len by (simp add: Let_def case_prod_beta nth_append)
  next
    case False
    then have "snd (read_words dev (drive_base c) n (evs @ [In32 (drive_base c)])) ! (j - 4) = img c d (512 * l + 4 * Suc k + (j - 4))"
      using Suc.prems by (intro Suc.IH [OF t]) auto
    then show ?thesis using False len by (simp add: Let_def case_prod_beta nth_append add.assoc)
  qed
qed simp

lemma sector_read:
  assumes "unat s < 268435456"
  shows "\<exists>evs' b. ide_read_block dev drive s evs = Some (Inr (evs', b)) \<and> length b = 512 \<and>
    (\<forall>j < 512. b ! j = img (bit drive 1) (bit drive 0) (512 * unat s + j))"
proof -
  let ?p = "In8 (port drive + 7)"
  obtain m where m: "waitForDrive dev drive evs = Some (Inr (evs @ replicate m ?p))" using wait_ready by blast
  let ?e = "(evs @ replicate m ?p) @ read_command drive s"
  obtain n where n: "waitForDrive dev drive ?e = Some (Inr (?e @ replicate n ?p))" using wait_ready by blast
  have t: "transfer (ata_run (port drive) (?e @ replicate i ?p)) = Some (bit drive 0, unat s, 0)" for i
    using assms by (simp add: command_transfer)
  obtain i where "dev_inb dev ((?e @ replicate n ?p) @ replicate i ?p) (port drive + 7) AND DRQ \<noteq> 0"
    using status [of "bit drive 1", unfolded ready_status_def Let_def, rule_format, folded port_base, of "?e @ replicate n ?p"] t [of n]
    by auto
  then obtain k where k: "poll (\<lambda>st. st AND DRQ \<noteq> 0) dev drive (?e @ replicate n ?p) = Some (?e @ replicate (n + k) ?p)"
    using poll_ends [of "\<lambda>st. st AND DRQ \<noteq> 0" dev "?e @ replicate n ?p" i drive] by (auto simp: replicate_add)
  let ?b = "read_words dev (port drive) 128 (?e @ replicate (n + k) ?p)"
  have "ide_read_block dev drive s evs = Some (Inr ?b)"
    unfolding ide_read_block_def m obind_simps n k by (simp add: sector_size_def)
  moreover have "snd ?b ! j = img (bit drive 1) (bit drive 0) (512 * unat s + j)" if "j < 512" for j
    using words_read [OF t [of "n + k", unfolded port_base], of 128 j] that by (simp add: port_base)
  moreover have "length (snd ?b) = 512" by (simp add: read_words_length)
  ultimately show ?thesis by (metis prod.collapse)
qed

lemma ide_holds: "holds_content (ide_io dev drive) (map (img (bit drive 1) (bit drive 0)) [0..<4294967295])"
proof -
  let ?i = "img (bit drive 1) (bit drive 0)"
  have sz: "unat (size_in_bytes (ide_io dev drive)) = 4294967295" "unat (block_size (ide_io dev drive)) = 512"
    by (simp_all add: ide_io_def sector_size_def unsigned_minus_1_eq_mask mask_eq_exp_minus_1)
  have "\<exists>b. read_block (ide_io dev drive) i = Inr b \<and> length b = 512 \<and>
      (\<forall>j < length b. unat i * 512 + j < 4294967295 \<longrightarrow> b ! j = ?i (unat i * 512 + j))"
    if "unat i * 512 < 4294967295" for i
  proof -
    have "unat i < 268435456" using that by simp
    from sector_read [OF this, of drive "[]"] obtain evs b where
      "ide_read_block dev drive i [] = Some (Inr (evs, b))" "length b = 512" "\<forall>j < 512. b ! j = ?i (512 * unat i + j)"
      by blast
    then show ?thesis by (auto simp: ide_io_def mult.commute)
  qed
  moreover have "0 < block_size (ide_io dev drive)" "block_size (ide_io dev drive) \<le> 0x80000000" by (simp_all add: ide_io_def sector_size_def)
  ultimately show ?thesis unfolding holds_content_def sz by (simp del: upt_conv_Cons)
qed

end

sublocale ready_drive \<subseteq> ide: stored_content "ide_io dev drive" "map (img (bit drive 1) (bit drive 0)) [0..<4294967295]" for drive
  by unfold_locales (rule ide_holds)

text \<open>Drives of this kind for any contents, with a status that shows busy at every second look.\<close>

definition image_drive :: "(bool \<Rightarrow> bool \<Rightarrow> nat \<Rightarrow> u8) \<Rightarrow> ide_device" where
  "image_drive img =
     \<lparr>dev_inb = (\<lambda>evs p. if even (length evs) then DRDY OR BSY else DRDY OR DRQ),
      dev_inl = (\<lambda>evs p.
        case transfer (ata_run p evs) of
          None \<Rightarrow> 0
        | Some (d, l, k) \<Rightarrow>
            let i = img (p = 0x170) d; a = 512 * l + 4 * k in
            ucast (i a) OR push_bit 8 (ucast (i (a + 1))) OR push_bit 16 (ucast (i (a + 2))) OR push_bit 24 (ucast (i (a + 3))))\<rparr>"

lemma le32_bytes_join:
  "le32_bytes (ucast a OR push_bit 8 (ucast b) OR push_bit 16 (ucast c) OR push_bit 24 (ucast d)) = [a, b, c, d]"
proof -
  have "\<not> bit (x :: u8) n" if "8 \<le> n" for x n using that by (auto dest: bit_imp_le_length)
  then show ?thesis unfolding le32_bytes_def by (auto intro!: bit_word_eqI simp: bit_simps)
qed

interpretation image_drive: ready_drive "image_drive img" img for img
proof unfold_locales
  fix c
  let ?s = "\<lambda>evs. dev_inb (image_drive img) evs (drive_base c + 7)"
  have "?s evs AND (ERR OR DF) = 0 \<and> ?s evs AND DRDY \<noteq> 0" for evs
    by (simp add: image_drive_def ERR_def DF_def DRDY_def BSY_def DRQ_def)
  moreover have "\<exists>n. ?s (evs @ replicate n x) AND BSY = 0 \<and> ?s (evs @ replicate n x) AND DRQ \<noteq> 0" for evs x
    by (rule exI [of _ "if even (length evs) then 1 else 0"])
      (simp add: image_drive_def ERR_def DF_def DRDY_def BSY_def DRQ_def)
  ultimately show "ready_status (image_drive img) c" unfolding ready_status_def Let_def by (metis append_Nil2 replicate_0)
  have "drive_base c = 0x170 \<longleftrightarrow> c" for c by (simp add: drive_base_def)
  moreover have "j \<in> {0, 1, 2, 3}" if "j < 4" for j :: nat using that by auto
  ultimately show "answers (image_drive img) img"
    unfolding answers_def image_drive_def by (fastforce simp: Let_def le32_bytes_join)
qed

subsection \<open>Properties\<close>


text \<open>Four drives with different contents.\<close>

definition four_drives :: ide_device where
  "four_drives = image_drive (\<lambda>c d n. of_nat (n + (if c then 2 else 0) + (if d then 1 else 0)))"


end
