(* ===== verification/Ext2.thy ===== *)
theory Ext2
  imports Ide
begin

text \<open>
  The read-only file system of \<^verbatim>\<open>kernel/ext2.h\<close> and \<^verbatim>\<open>kernel/ext2.cc\<close>. On-disk structures are parsed
  from their bytes at the offsets the C structs have; arithmetic on offsets is 32-bit as in the
  source. A node is a block device again, so \<open>read_all\<close> applies to it. A damaged directory can
  keep \<^verbatim>\<open>entries\<close> in its loop, which is the value \<open>None\<close>.
\<close>

subsection \<open>On-disk structures (ext2.h)\<close>

definition le16_at :: "u8 list \<Rightarrow> nat \<Rightarrow> u16" where
  "le16_at bs i = ucast (bs ! i) OR push_bit 8 (ucast (bs ! (i + 1)))"

definition le32_at :: "u8 list \<Rightarrow> nat \<Rightarrow> u32" where
  "le32_at bs i = ucast (bs ! i) OR push_bit 8 (ucast (bs ! (i + 1))) OR
     push_bit 16 (ucast (bs ! (i + 2))) OR push_bit 24 (ucast (bs ! (i + 3)))"

record SuperBlock =
  inodes_count :: u32
  blocks_count :: u32
  log_block_size :: u32
  blocks_per_group :: u32
  inodes_per_group :: u32
  inode_size :: u16

definition sizeof_SuperBlock :: nat where "sizeof_SuperBlock = 140"

definition parse_SuperBlock :: "u8 list \<Rightarrow> SuperBlock" where
  "parse_SuperBlock bs =
     \<lparr>inodes_count = le32_at bs 0, blocks_count = le32_at bs 4, log_block_size = le32_at bs 24,
      blocks_per_group = le32_at bs 32, inodes_per_group = le32_at bs 40, inode_size = le16_at bs 88\<rparr>"

definition sizeof_BlockGroup :: nat where "sizeof_BlockGroup = 32"

text \<open>The field \<^verbatim>\<open>inode_table\<close> of the \<open>i\<close>-th entry of the group table.\<close>

definition group_inode_table :: "u8 list \<Rightarrow> nat \<Rightarrow> u32" where
  "group_inode_table table i = le32_at table (sizeof_BlockGroup * i + 8)"

record NodeData =
  mode :: u16
  size_low :: u32
  n_links :: u16
  n_sectors :: u32
  direct :: "u32 list"
  indirect_1 :: u32
  inline_bytes :: "u8 list"

definition sizeof_NodeData :: nat where "sizeof_NodeData = 128"

text \<open>\<open>inline_bytes\<close> are the 60 bytes from \<^verbatim>\<open>direct0\<close> on, where a short link keeps its target.\<close>

definition parse_NodeData :: "u8 list \<Rightarrow> NodeData" where
  "parse_NodeData bs =
     \<lparr>mode = le16_at bs 0, size_low = le32_at bs 4, n_links = le16_at bs 26, n_sectors = le32_at bs 28,
      direct = map (\<lambda>i. le32_at bs (40 + 4 * i)) [0..<12], indirect_1 = le32_at bs 88,
      inline_bytes = take 60 (drop 40 bs)\<rparr>"

definition get_type :: "NodeData \<Rightarrow> u16" where
  "get_type d = drop_bit 12 (mode d)"

definition is_dir :: "NodeData \<Rightarrow> bool" where
  "is_dir d \<longleftrightarrow> get_type d = 4"

definition is_file :: "NodeData \<Rightarrow> bool" where
  "is_file d \<longleftrightarrow> get_type d = 8"

definition is_symlink :: "NodeData \<Rightarrow> bool" where
  "is_symlink d \<longleftrightarrow> get_type d = 0xa"

record Node =
  node_number :: u32
  node_block_size :: u32
  node_data :: NodeData

subsection \<open>Nodes (ext2.cc)\<close>

definition node_read_block :: "block_io \<Rightarrow> Node \<Rightarrow> u32 \<Rightarrow> u8 list result" where
  "node_read_block ide nd index =
     (let bsz = node_block_size nd; d = node_data nd in
      if bsz div 512 = 0 then Inl (Undefined_Behaviour ''division by zero'')
      else
        assert_k (index < n_sectors d div (bsz div 512)) ''index < data.n_sectors / (block_size / 512)''
          (let refs_per_block = bsz div 4 in
           rbind
             (if index < 12 then Inr (direct d ! unat index)
              else if index < 12 + refs_per_block then
                rbind (read_object ide (indirect_1 d * bsz + (index - 12) * 4) 4) (\<lambda>bs. Inr (le32_at bs 0))
              else Inl (Panic ''index = %d''))
             (\<lambda>block_index.
                rbind (read_all ide (block_index * bsz) bsz) (\<lambda>(cnt, buffer).
                  assert_k (cnt = uint bsz) ''cnt == block_size'' (Inr buffer)))))"

definition node_io :: "block_io \<Rightarrow> Node \<Rightarrow> block_io" where
  "node_io ide nd =
     \<lparr>block_size = node_block_size nd, size_in_bytes = size_low (node_data nd),
      read_block = node_read_block ide nd\<rparr>"

definition get_symbol :: "block_io \<Rightarrow> Node \<Rightarrow> u8 list result" where
  "get_symbol ide nd =
     assert_k (is_symlink (node_data nd)) ''is_symlink()''
       (let sz = size_low (node_data nd) in
        if sz \<le> 60 then Inr (take (unat sz) (inline_bytes (node_data nd)))
        else rbind (read_all (node_io ide nd) 0 sz) (\<lambda>(cnt, bs).
               assert_k (cnt = uint sz) ''cnt == sz'' (Inr bs)))"

text \<open>One step of \<^verbatim>\<open>entries\<close>: the i-node number, the record length and the zero-terminated name.\<close>

definition read_entry :: "block_io \<Rightarrow> u32 \<Rightarrow> (u32 \<times> u16 \<times> u8 list) result" where
  "read_entry io off =
     rbind (read_object io off 4) (\<lambda>i.
     rbind (read_object io (off + 4) 2) (\<lambda>t.
     rbind (read_object io (off + 6) 1) (\<lambda>l.
       let name_length = l ! 0 in
       rbind (read_all io (off + 8) (ucast name_length)) (\<lambda>(cnt, name).
         assert_k (cnt = uint name_length) ''cnt == name_length''
           (Inr (le32_at i 0, le16_at t 0, name @ [0]))))))"

partial_function (option) entries_loop ::
  "block_io \<Rightarrow> u32 \<Rightarrow> u32 \<Rightarrow> (u32 \<times> u8 list) list \<Rightarrow> (u32 \<times> u8 list) list result option" where
  "entries_loop io sz off acc =
     (if off < sz then
        (case read_entry io off of
           Inl e \<Rightarrow> Some (Inl e)
         | Inr (inode, total_size, name) \<Rightarrow> entries_loop io sz (off + ucast total_size) (acc @ [(inode, name)]))
      else Some (Inr acc))"

definition entries :: "block_io \<Rightarrow> Node \<Rightarrow> (u32 \<times> u8 list) list result option" where
  "entries ide nd =
     (if is_dir (node_data nd)
      then entries_loop (node_io ide nd) (size_low (node_data nd)) 0 []
      else Some (Inl (Assert_Failed ''is_dir()'')))"

text \<open>The callback of \<^verbatim>\<open>find\<close>: a later match overwrites an earlier one.\<close>

fun find_in :: "u8 list \<Rightarrow> (u32 \<times> u8 list) list \<Rightarrow> u32 \<Rightarrow> u32 result" where
  "find_in name [] out = Inr out"
| "find_in name ((number, nm) # es) out =
     rbind (streq name nm) (\<lambda>b. find_in name es (if b then number else out))"

definition node_find :: "block_io \<Rightarrow> Node \<Rightarrow> u8 list \<Rightarrow> u32 result option" where
  "node_find ide nd name = map_option (\<lambda>r. rbind r (\<lambda>es. find_in name es 0)) (entries ide nd)"

definition entry_count :: "block_io \<Rightarrow> Node \<Rightarrow> u32 result option" where
  "entry_count ide nd =
     (if is_dir (node_data nd)
      then map_option (\<lambda>r. rbind r (\<lambda>es. Inr (fold (\<lambda>_ c. c + 1) es 0))) (entries ide nd)
      else Some (Inl (Assert_Failed ''is_dir()'')))"

subsection \<open>The file system (ext2.cc, ext2.h)\<close>

record ext2 =
  fs_ide :: block_io
  blockSize :: u32
  numberOfNodes :: u32
  numberOfBlocks :: u32
  iNodeSize :: u32
  nGroups :: u32
  iNodeTables :: "u32 list"
  iNodesPerGroup :: u32

definition get_node :: "ext2 \<Rightarrow> u32 \<Rightarrow> Node result" where
  "get_node fs number =
     assert_k (number > 0) ''number > 0''
     (assert_k (number \<le> numberOfNodes fs) ''number <= numberOfNodes''
       (if iNodesPerGroup fs = 0 then Inl (Undefined_Behaviour ''division by zero'')
        else
          let index = number - 1;
              groupIndex = index div iNodesPerGroup fs
          in assert_k (groupIndex < nGroups fs) ''groupIndex < nGroups''
            (let indexInGroup = index mod iNodesPerGroup fs;
                 iTableBase = iNodeTables fs ! unat groupIndex
             in assert_k (iTableBase \<le> numberOfBlocks fs) ''iTableBase <= numberOfBlocks''
               (let nodeOffset = iTableBase * blockSize fs + indexInGroup * iNodeSize fs in
                rbind (read_object (fs_ide fs) nodeOffset sizeof_NodeData) (\<lambda>bs.
                  Inr \<lparr>node_number = number, node_block_size = blockSize fs, node_data = parse_NodeData bs\<rparr>)))))"

text \<open>The constructor mounts the file system and reads the root directory's node.\<close>

definition ext2_mount :: "block_io \<Rightarrow> (ext2 \<times> Node) result" where
  "ext2_mount ide =
     rbind (read_object ide 1024 sizeof_SuperBlock) (\<lambda>sbs.
       let sb = parse_SuperBlock sbs;
           bsz = push_bit (unat (log_block_size sb + 10)) 1
       in if blocks_per_group sb = 0 \<or> bsz = 0 then Inl (Undefined_Behaviour ''division by zero'')
          else
            let n = (blocks_count sb + blocks_per_group sb - 1) div blocks_per_group sb in
            assert_k (n * blocks_per_group sb \<ge> blocks_count sb) ''nGroups * sb.blocks_per_group >= sb.blocks_count''
              (let groupTableNumber = 1024 div bsz + 1;
                   groupTableSize = of_nat sizeof_BlockGroup * n
               in rbind (read_all ide (groupTableNumber * bsz) groupTableSize) (\<lambda>(cnt, table).
                    assert_k (cnt = uint groupTableSize) ''cnt == groupTableSize''
                      (let fs = \<lparr>fs_ide = ide, blockSize = bsz, numberOfNodes = inodes_count sb,
                                 numberOfBlocks = blocks_count sb, iNodeSize = ucast (inode_size sb), nGroups = n,
                                 iNodeTables = map (group_inode_table table) [0..<unat n],
                                 iNodesPerGroup = inodes_per_group sb\<rparr>
                       in rbind (get_node fs 2) (\<lambda>root. Inr (fs, root))))))"

definition SLASH :: u8 where "SLASH = 47"

text \<open>Path resolution: \<open>path\<close> is the rest of the zero-terminated path.\<close>

definition is_part :: "u8 \<Rightarrow> bool" where
  "is_part c \<longleftrightarrow> c \<noteq> 0 \<and> c \<noteq> SLASH"

lemma path_shrinks:
  assumes "dropWhile (\<lambda>c. c = SLASH) path = c # cs" "c \<noteq> 0"
  shows "length (dropWhile is_part (c # cs)) < length path"
proof -
  have "c \<noteq> SLASH" using hd_dropWhile [of "\<lambda>c. c = SLASH" path] assms(1) by simp
  then have "dropWhile is_part (c # cs) = dropWhile is_part cs" using assms(2) by (simp add: is_part_def)
  then have "length (dropWhile is_part (c # cs)) \<le> length cs" by (simp add: length_dropWhile_le)
  moreover have "length (c # cs) \<le> length path" using assms(1) length_dropWhile_le [of _ path] by metis
  ultimately show ?thesis by simp
qed

function fs_find :: "ext2 \<Rightarrow> Node option \<Rightarrow> u8 list \<Rightarrow> Node option result option" where
  "fs_find fs current path =
     (case dropWhile (\<lambda>c. c = SLASH) path of
        [] \<Rightarrow> Some (Inl (Undefined_Behaviour ''read past the end of the buffer''))
      | c # cs \<Rightarrow>
          (case current of
             None \<Rightarrow> Some (Inr None)
           | Some nd \<Rightarrow>
               if c = 0 then Some (Inr (Some nd))
               else
                 let part = takeWhile is_part (c # cs); rest = dropWhile is_part (c # cs) in
                 if length part > 256 then Some (Inl (Assert_Failed ''i < 256''))
                 else if rest = [] then Some (Inl (Undefined_Behaviour ''read past the end of the buffer''))
                 else
                   (case node_find (fs_ide fs) nd (part @ [0]) of
                      None \<Rightarrow> None
                    | Some (Inl e) \<Rightarrow> Some (Inl e)
                    | Some (Inr number) \<Rightarrow>
                        if number = 0 then Some (Inr None)
                        else
                          (case get_node fs number of
                             Inl e \<Rightarrow> Some (Inl e)
                           | Inr nd' \<Rightarrow> fs_find fs (Some nd') rest))))"
  by pat_completeness auto

termination
proof (relation "measure (\<lambda>(fs, current, path). length path)", goal_cases)
  case (2 fs current path c cs nd part rest r number nd')
  then show ?case using path_shrinks [of path c cs] by auto
qed simp

declare fs_find.simps [simp del]

end
