(* ===== verification/Ext2_Correctness.thy ===== *)
theory Ext2_Correctness
  imports Ext2
begin

text \<open>
  What the file system reads: the content of a node assembled from its direct and indirect blocks,
  and the entries of a directory, proved against the layout of the disk's bytes.
\<close>

subsection \<open>Little-endian fields\<close>

definition le16_bytes :: "u16 \<Rightarrow> u8 list" where
  "le16_bytes w = [ucast w, ucast (drop_bit 8 w)]"

lemma bytes_lengths [simp]: "length (le16_bytes x) = 2" "length (le32_bytes w) = 4"
  by (simp_all add: le16_bytes_def le32_bytes_def)

lemma byte_bit: "8 \<le> n \<Longrightarrow> \<not> bit (x :: u8) n"
  by (auto dest: bit_imp_le_length)

lemma le16_round_trip: "le16_at (le16_bytes w) 0 = w"
proof (rule bit_word_eqI)
  fix n assume "n < LENGTH(16)"
  then show "bit (le16_at (le16_bytes w) 0) n = bit w n"
    by (cases "n < 8") (auto simp: le16_at_def le16_bytes_def bit_simps not_less)
qed

lemma le32_round_trip: "le32_at (le32_bytes w) 0 = w"
proof (rule bit_word_eqI)
  fix n assume n: "n < LENGTH(32)"
  then consider "n < 8" | "8 \<le> n" "n < 16" | "16 \<le> n" "n < 24" | "24 \<le> n" "n < 32" by fastforce
  then show "bit (le32_at (le32_bytes w) 0) n = bit w n"
    by cases (auto simp: le32_at_def le32_bytes_def bit_simps not_less)
qed

lemma le32_at_drop: "i + 4 \<le> length bs \<Longrightarrow> le32_at (take 4 (drop i bs)) 0 = le32_at bs i"
  by (simp add: le32_at_def)

subsection \<open>The content of a node\<close>

text \<open>The disk block that holds block \<open>i\<close> of a node, for a disk with the bytes \<open>D\<close>.\<close>

definition node_block :: "u8 list \<Rightarrow> Node \<Rightarrow> nat \<Rightarrow> u32" where
  "node_block D nd i =
     (if i < 12 then direct (node_data nd) ! i
      else le32_at D (unat (indirect_1 (node_data nd)) * unat (node_block_size nd) + (i - 12) * 4))"

definition node_wf :: "u8 list \<Rightarrow> Node \<Rightarrow> bool" where
  "node_wf D nd \<longleftrightarrow>
     (let B = unat (node_block_size nd); d = node_data nd; sz = unat (size_low d) in
      512 \<le> B \<and> B \<le> 2147483648 \<and>
      (12 * B < sz \<longrightarrow> unat (indirect_1 d) * B + B \<le> length D) \<and>
      (\<forall>i. i * B < sz \<longrightarrow>
         i < unat (n_sectors d) div (B div 512) \<and> i < 12 + B div 4 \<and>
         unat (node_block D nd i) * B + B \<le> length D))"

definition node_content :: "u8 list \<Rightarrow> Node \<Rightarrow> u8 list" where
  "node_content D nd =
     (let B = unat (node_block_size nd) in
      map (\<lambda>j. D ! (unat (node_block D nd (j div B)) * B + j mod B)) [0..<unat (size_low (node_data nd))])"

lemma unat_mult_no_wrap: "unat (a :: u32) * unat b < 4294967296 \<Longrightarrow> unat (a * b) = unat a * unat b"
  by (simp add: unat_word_ariths)

lemma node_read_block_content:
  assumes D: "holds_content ide D" and wf: "node_wf D nd"
    and i: "unat i * unat (node_block_size nd) < unat (size_low (node_data nd))"
  defines "B \<equiv> unat (node_block_size nd)"
  shows "node_read_block ide nd i = Inr (take B (drop (unat (node_block D nd (unat i)) * B) D))"
proof -
  let ?bsz = "node_block_size nd" and ?d = "node_data nd"
  have lim: "length D < 4294967296" using D unat_lt_2p32 by (simp add: holds_content_def)
  have B: "512 \<le> B" and idx: "unat i < unat (n_sectors ?d) div (B div 512)" "unat i < 12 + B div 4"
    and blk: "unat (node_block D nd (unat i)) * B + B \<le> length D"
    and ind: "12 * B < unat (size_low ?d) \<Longrightarrow> unat (indirect_1 ?d) * B + B \<le> length D"
    using wf i by (auto simp: node_wf_def B_def Let_def)
  have B512: "unat (?bsz div 512) = B div 512" by (simp add: B_def unat_div_distrib)
  have "0 < B div 512" using B by (simp add: div_greater_zero_iff)
  then have nz: "?bsz div 512 \<noteq> 0" using B512 by (metis less_irrefl unat_0)
  have a1: "i < n_sectors ?d div (?bsz div 512)"
    using idx(1) B512 by (simp add: word_less_nat_alt unat_div_distrib)
  have refs: "unat (12 + ?bsz div 4) = 12 + B div 4"
  proof -
    have "unat (?bsz div 4) = B div 4" by (simp add: B_def unat_div_distrib)
    moreover have "B div 4 < 1073741824" using unat_lt_2p32 [of ?bsz] by (simp add: B_def)
    ultimately show ?thesis by (simp add: unat_add_no_wrap)
  qed
  let ?sel = "if i < 12 then Inr (direct ?d ! unat i)
    else if i < 12 + ?bsz div 4 then
      rbind (read_object ide (indirect_1 ?d * ?bsz + (i - 12) * 4) 4) (\<lambda>bs. Inr (le32_at bs 0))
    else Inl (Panic ''index = %d'')"
  have sel: "?sel = Inr (node_block D nd (unat i))"
  proof (cases "unat i < 12")
    case True
    then show ?thesis by (simp add: node_block_def word_less_nat_alt)
  next
    case False
    have lt: "\<not> i < 12" "i < 12 + ?bsz div 4" using False idx(2) refs by (simp_all add: word_less_nat_alt)
    have ui: "unat (i - 12) = unat i - 12" using False by (simp add: unat_sub word_le_nat_alt)
    have k: "(unat i - 12) * 4 + 4 \<le> B" using idx(2) False by linarith
    have "12 * B \<le> unat i * B" using False by simp
    then have "12 * B < unat (size_low ?d)" using i unfolding B_def by (rule le_less_trans)
    then have ib: "unat (indirect_1 ?d) * B + B \<le> length D" by (rule ind)
    have u1: "unat ((i - 12) * 4) = (unat i - 12) * 4"
    proof -
      have "unat (i - 12) * unat (4 :: u32) < 4294967296" using k ui unat_lt_2p32 [of ?bsz] unfolding B_def by simp
      from unat_mult_no_wrap [OF this] show ?thesis using ui by simp
    qed
    have u2: "unat (indirect_1 ?d * ?bsz) = unat (indirect_1 ?d) * B"
      using ib lim by (simp add: unat_mult_no_wrap B_def)
    have u: "unat (indirect_1 ?d * ?bsz + (i - 12) * 4) = unat (indirect_1 ?d) * B + (unat i - 12) * 4"
      using u1 u2 ib k lim by (subst unat_add_no_wrap) auto
    have fits: "unat (indirect_1 ?d * ?bsz + (i - 12) * 4) + 4 \<le> length D" using u ib k by simp
    show ?thesis
      using lt False read_object_content [OF D fits] le32_at_drop [OF fits] u
      by (simp add: node_block_def B_def)
  qed
  have ub: "unat (node_block D nd (unat i) * ?bsz) = unat (node_block D nd (unat i)) * B"
    using blk lim by (simp add: unat_mult_no_wrap B_def)
  have "read_all ide (node_block D nd (unat i) * ?bsz) ?bsz =
      Inr (uint ?bsz, take B (drop (unat (node_block D nd (unat i)) * B) D))"
    using blk ub by (simp add: read_all_content [OF D] B_def)
  then show ?thesis using nz a1 sel by (simp add: node_read_block_def Let_def)
qed

lemma node_holds:
  assumes D: "holds_content ide D" and wf: "node_wf D nd"
  shows "holds_content (node_io ide nd) (node_content D nd)"
proof -
  let ?B = "unat (node_block_size nd)" and ?sz = "unat (size_low (node_data nd))"
  have B: "512 \<le> ?B" "?B \<le> 2147483648" using wf by (simp_all add: node_wf_def Let_def)
  have len: "length (node_content D nd) = ?sz" by (simp add: node_content_def Let_def)
  have "\<exists>b. read_block (node_io ide nd) i = Inr b \<and> length b = ?B \<and>
      (\<forall>j < length b. unat i * ?B + j < ?sz \<longrightarrow> b ! j = node_content D nd ! (unat i * ?B + j))"
    if i: "unat i * ?B < ?sz" for i
  proof -
    let ?o = "unat (node_block D nd (unat i)) * ?B"
    have o: "?o + ?B \<le> length D" using wf i by (simp add: node_wf_def Let_def)
    have q: "(unat i * ?B + j) div ?B = unat i" "(unat i * ?B + j) mod ?B = j" if "j < ?B" for j
      using that by auto
    have "read_block (node_io ide nd) i = Inr (take ?B (drop ?o D))"
      using node_read_block_content [OF D wf i] by (simp add: node_io_def)
    then show ?thesis using o q by (simp add: node_content_def Let_def)
  qed
  moreover have "0 < node_block_size nd" "node_block_size nd \<le> 0x80000000" using B by (auto simp: word_gt_0 word_le_nat_alt)
  ultimately show ?thesis using len by (simp add: holds_content_def node_io_def)
qed

subsection \<open>Directories\<close>

text \<open>An entry on disk: i-node number, record length, length of the name, type, name, padding.\<close>

type_synonym dirent = "u32 \<times> u16 \<times> u8 \<times> u8 list \<times> u8 list"

fun encode_entry :: "dirent \<Rightarrow> u8 list" where
  "encode_entry (i, t, ty, name, pad) = le32_bytes i @ le16_bytes t @ [of_nat (length name), ty] @ name @ pad"

fun entry_wf :: "dirent \<Rightarrow> bool" where
  "entry_wf (i, t, ty, name, pad) \<longleftrightarrow> length name < 256 \<and> unat t = 8 + length name + length pad"

fun entry_view :: "dirent \<Rightarrow> u32 \<times> u8 list" where
  "entry_view (i, t, ty, name, pad) = (i, name @ [0])"

lemma encode_entry_length: "entry_wf (i, t, ty, name, pad) \<Longrightarrow> length (encode_entry (i, t, ty, name, pad)) = unat t"
  by simp

lemma unat_byte: "n < 256 \<Longrightarrow> unat (of_nat n :: u8) = n"
  by (simp add: unsigned_of_nat take_bit_nat_eq_self)

lemma slice_append:
  "length xs = n \<Longrightarrow> length ys = k \<Longrightarrow> take k (drop n (xs @ ys @ zs)) = ys"
  by auto

lemma read_entry_encoded:
  assumes h: "holds_content io (pre @ encode_entry (i, t, ty, name, pad) @ post)"
    and wf: "entry_wf (i, t, ty, name, pad)" and off: "unat off = length pre"
  shows "read_entry io off = Inr (i, t, name @ [0])"
proof -
  let ?c = "pre @ encode_entry (i, t, ty, name, pad) @ post"
  have nm: "length name < 256" using wf by simp
  have lim: "length ?c < 4294967296" using h unat_lt_2p32 by (simp add: holds_content_def)
  have u: "unat (off + 4) = length pre + 4" "unat (off + 6) = length pre + 6" "unat (off + 8) = length pre + 8"
    using off lim by (simp_all add: unat_add_no_wrap)
  have r1: "read_object io off 4 = Inr (le32_bytes i)"
    using read_object_content [OF h, of off 4] off slice_append [of pre "length pre" "le32_bytes i" 4] by simp
  have r2: "read_object io (off + 4) 2 = Inr (le16_bytes t)"
    using read_object_content [OF h, of "off + 4" 2] u
      slice_append [of "pre @ le32_bytes i" "length pre + 4" "le16_bytes t" 2] by simp
  have r3: "read_object io (off + 6) 1 = Inr [of_nat (length name)]"
    using read_object_content [OF h, of "off + 6" 1] u
      slice_append [of "pre @ le32_bytes i @ le16_bytes t" "length pre + 6" "[of_nat (length name)]" 1] by simp
  have n: "unat (ucast (of_nat (length name) :: u8) :: u32) = length name"
    using nm unat_byte [OF nm] by (simp add: unsigned_ucast_eq take_bit_nat_eq_self)
  have un: "uint (of_nat (length name) :: u8) = int (length name)"
    using unat_byte [OF nm] by (metis int_nat_eq uint_nat)
  have r4: "read_all io (off + 8) (ucast (of_nat (length name) :: u8)) = Inr (int (length name), name)"
    using u n
      slice_append [of "pre @ le32_bytes i @ le16_bytes t @ [of_nat (length name), ty]" "length pre + 8" name "length name"]
    by (simp add: read_all_content [OF h])
  show ?thesis
    using r1 r2 r3 r4 un by (simp add: read_entry_def le32_round_trip le16_round_trip)
qed

lemma entries_loop_encoded:
  assumes "holds_content io (concat (map encode_entry (ds @ es)))" "\<forall>d \<in> set es. entry_wf d"
    and "unat off = length (concat (map encode_entry ds))" "unat sz = length (concat (map encode_entry (ds @ es)))"
  shows "entries_loop io sz off acc = Some (Inr (acc @ map entry_view es))"
  using assms
proof (induction es arbitrary: ds off acc)
  case Nil
  then show ?case by (subst entries_loop.simps) (simp add: word_less_nat_alt)
next
  case (Cons e es)
  obtain i t ty name pad where e: "e = (i, t, ty, name, pad)" by (cases e) auto
  let ?pre = "concat (map encode_entry ds)" and ?post = "concat (map encode_entry es)"
  have h: "holds_content io (?pre @ encode_entry (i, t, ty, name, pad) @ ?post)" using Cons.prems(1) e by simp
  have wf: "entry_wf (i, t, ty, name, pad)" using Cons.prems(2) e by simp
  have len: "length (encode_entry (i, t, ty, name, pad)) = unat t" using wf by (rule encode_entry_length)
  have rd: "read_entry io off = Inr (i, t, name @ [0])" by (rule read_entry_encoded [OF h wf Cons.prems(3)])
  have "0 < unat t" using wf by simp
  then have lt: "off < sz" using Cons.prems(3,4) e len by (simp add: word_less_nat_alt)
  have ut: "unat (ucast t :: u32) = unat t" by (simp add: unsigned_ucast_eq take_bit_nat_eq_self order_less_le_trans [OF unsigned_less])
  have "unat (off + ucast t) = length ?pre + unat t"
    using Cons.prems(3,4) e len ut unat_lt_2p32 [of sz] by (subst unat_add_no_wrap) auto
  then have "unat (off + ucast t) = length (concat (map encode_entry (ds @ [e])))" using e len by simp
  then have "entries_loop io sz (off + ucast t) (acc @ [(i, name @ [0])]) =
      Some (Inr ((acc @ [(i, name @ [0])]) @ map entry_view es))"
    using Cons.prems by (intro Cons.IH [of "ds @ [e]"]) auto
  then show ?case using lt rd e by (subst entries_loop.simps) simp
qed

text \<open>A directory whose content is a sequence of encoded entries is read back entry by entry.\<close>

lemma entries_encoded:
  assumes "is_dir (node_data nd)" "holds_content (node_io ide nd) (concat (map encode_entry es))" "\<forall>d \<in> set es. entry_wf d"
  shows "entries ide nd = Some (Inr (map entry_view es))"
proof -
  have "unat (size_low (node_data nd)) = length (concat (map encode_entry es))"
    using assms(2) by (simp add: holds_content_def node_io_def)
  then show ?thesis
    using assms entries_loop_encoded [of "node_io ide nd" "[]" es 0] by (simp add: entries_def)
qed

lemma find_in_last:
  assumes "0 \<in> set name" "\<forall>(i, nm) \<in> set es. 0 \<in> set nm"
  shows "find_in name es out =
    Inr (last (out # map fst (filter (\<lambda>(i, nm). c_text nm = c_text name) es)))"
  using assms(2)
proof (induction es arbitrary: out)
  case (Cons e es)
  then show ?case
    using assms(1) by (cases e) (auto simp: streq_c_text split: if_splits)
qed simp

subsection \<open>Paths\<close>

lemma fs_find_slash: "fs_find fs cur (SLASH # path) = fs_find fs cur path"
  by (subst (1 2) fs_find.simps) simp

text \<open>A path is resolved one component at a time.\<close>

lemma fs_find_component:
  assumes "part \<noteq> []" "\<forall>c \<in> set part. is_part c" "length part \<le> 256" "\<not> is_part d"
  shows "fs_find fs (Some nd) (part @ d # rest) =
    (case node_find (fs_ide fs) nd (part @ [0]) of
       None \<Rightarrow> None
     | Some (Inl e) \<Rightarrow> Some (Inl e)
     | Some (Inr number) \<Rightarrow>
         if number = 0 then Some (Inr None)
         else (case get_node fs number of
                 Inl e \<Rightarrow> Some (Inl e)
               | Inr nd' \<Rightarrow> fs_find fs (Some nd') (d # rest)))"
proof -
  obtain c cs where p: "part = c # cs" using assms(1) by (cases part) auto
  have c: "c \<noteq> 0" "c \<noteq> SLASH" using assms(2) p by (auto simp: is_part_def)
  have "is_part c" "takeWhile is_part (cs @ d # rest) = cs" "dropWhile is_part (cs @ d # rest) = d # rest"
    using assms(2,4) p by (auto simp: takeWhile_append2 dropWhile_append2)
  then show ?thesis using c p assms(3,4) by (subst fs_find.simps) (simp add: Let_def cong: option.case_cong sum.case_cong if_cong)
qed

subsection \<open>Properties\<close>

text \<open>
  \<^bold>\<open>C18.\<close> Reading a file (\<^verbatim>\<open>Node::read_block\<close> under \<^verbatim>\<open>read_all\<close>). On a disk with the bytes \<open>D\<close>, a read from a
  well-formed node returns the slice of the file's content, which is made of the node's direct blocks
  and of the blocks listed in its indirect block, cut at the size of the node.
\<close>

theorem node_read_all:
  assumes "holds_content ide D" "node_wf D nd"
  shows "read_all (node_io ide nd) off n =
    (if 0 < n \<and> size_low (node_data nd) < off then Inr (- 1, [])
     else let bs = take (unat n) (drop (unat off) (node_content D nd)) in Inr (int (length bs), bs))"
proof -
  have "length (node_content D nd) = unat (size_low (node_data nd))" by (simp add: node_content_def Let_def)
  then show ?thesis
    using read_all_content [OF node_holds [OF assms], of off n]
    by (simp add: Let_def min.commute word_less_nat_alt)
qed

text \<open>A node of one block, block 5 of a disk with blocks of 1024 bytes, and such a disk.\<close>

definition block5_node :: "u16 \<Rightarrow> u8 list \<Rightarrow> Node" where
  "block5_node m bs = \<lparr>node_number = 12, node_block_size = 1024,
     node_data = \<lparr>mode = m, size_low = of_nat (length bs), n_links = 1, n_sectors = 2,
       direct = 5 # replicate 11 0, indirect_1 = 0, inline_bytes = replicate 60 0\<rparr>\<rparr>"

definition block5_image :: "u8 list \<Rightarrow> nat \<Rightarrow> u8" where
  "block5_image bs a = (if 5120 \<le> a \<and> a < 5120 + length bs then bs ! (a - 5120) else 0)"

abbreviation block5_disk :: "u8 list \<Rightarrow> block_io" where
  "block5_disk bs \<equiv> ide_io (image_drive (\<lambda>c d. block5_image bs)) 1"

abbreviation block5_bytes :: "u8 list \<Rightarrow> u8 list" where
  "block5_bytes bs \<equiv> map (block5_image bs) [0..<4294967295]"

definition block5_wf :: "Node \<Rightarrow> u8 list \<Rightarrow> bool" where
  "block5_wf nd bs \<longleftrightarrow> length bs \<le> 1024 \<and> node_block_size nd = 1024 \<and> size_low (node_data nd) = of_nat (length bs) \<and>
     n_sectors (node_data nd) = 2 \<and> direct (node_data nd) ! 0 = 5"

lemma block5_node_wf: "length bs \<le> 1024 \<Longrightarrow> block5_wf (block5_node m bs) bs"
  by (simp add: block5_wf_def block5_node_def)

lemma block5_any:
  assumes "block5_wf nd bs"
  shows "node_wf (block5_bytes bs) nd" "node_content (block5_bytes bs) nd = bs"
proof -
  let ?D = "block5_bytes bs"
  have len: "length bs \<le> 1024" using assms by (simp add: block5_wf_def)
  have sz: "unat (size_low (node_data nd)) = length bs" "node_block_size nd = 1024"
    using assms by (simp_all add: block5_wf_def)
  have b: "node_block ?D nd 0 = 5" using assms by (simp add: node_block_def block5_wf_def)
  have z: "i = 0" if "i * 1024 < length bs" for i using len that by simp
  have s: "unat (n_sectors (node_data nd)) = 2" using assms by (simp add: block5_wf_def)
  show "node_wf ?D nd"
    unfolding node_wf_def Let_def sz s
  proof (intro conjI allI impI)
    fix i assume "i * unat (1024 :: u32) < length bs"
    then have "i = 0" using z by simp
    then show "i < 2 div (unat (1024 :: u32) div 512)" "i < 12 + unat (1024 :: u32) div 4"
      "unat (node_block ?D nd i) * unat (1024 :: u32) + unat (1024 :: u32) \<le> length ?D"
      using b by (simp_all del: upt_conv_Cons)
  qed (use len in simp_all)
  show "node_content ?D nd = bs"
  proof (rule nth_equalityI)
    show "length (node_content ?D nd) = length bs" by (simp add: node_content_def Let_def sz)
    fix i assume "i < length (node_content ?D nd)"
    then have i: "i < length bs" "i < 1024" using len by (simp_all add: node_content_def Let_def sz)
    then have "?D ! (5120 + i) = bs ! i" by (simp add: block5_image_def del: upt_conv_Cons)
    then show "node_content ?D nd ! i = bs ! i"
      using i b sz by (simp add: node_content_def Let_def del: upt_conv_Cons)
  qed
qed

lemmas block5 = block5_any [OF block5_node_wf]

lemma block5_holds:
  assumes "length bs \<le> 1024"
  shows "holds_content (block5_disk bs) (block5_bytes bs)" "holds_content (node_io (block5_disk bs) (block5_node m bs)) bs"
proof -
  show h: "holds_content (block5_disk bs) (block5_bytes bs)" by (rule image_drive.ide_holds)
  show "holds_content (node_io (block5_disk bs) (block5_node m bs)) bs"
    using node_holds [OF h] block5 [OF assms, of m] by metis
qed

theorem node_read_all_witness:
  "read_all (node_io (block5_disk [104, 101, 108, 108, 111]) (block5_node 0x8000 [104, 101, 108, 108, 111])) 1 3 =
     Inr (3, [101, 108, 108])"
proof -
  let ?bs = "[104, 101, 108, 108, 111] :: u8 list"
  have l: "length ?bs \<le> 1024" by simp
  have sz: "size_low (node_data (block5_node 0x8000 ?bs)) = 5" by (simp add: block5_node_def)
  show ?thesis
    unfolding node_read_all [OF block5_holds(1) [OF l] block5(1) [OF l]] block5(2) [OF l] using sz by simp
qed

definition entry_name :: "dirent \<Rightarrow> u8 list" where
  "entry_name d = (case d of (i, t, ty, name, pad) \<Rightarrow> name)"

lemma entry_view_name: "entry_view d = (fst d, entry_name d @ [0])"
  by (cases d) (simp add: entry_name_def)

lemma last_filter_unique:
  assumes "distinct (map f es)" "d \<in> set es"
  shows "filter (\<lambda>e. f e = f d) es = [d]"
  using assms
proof (induction es)
  case (Cons e es)
  show ?case
  proof (cases "d = e")
    case True
    then have "filter (\<lambda>e. f e = f d) es = []" using Cons.prems(1) by (fastforce simp: filter_empty_conv image_iff)
    then show ?thesis using True by simp
  next
    case False
    then show ?thesis using Cons by force
  qed
qed simp

lemma node_find_encoded:
  assumes "is_dir (node_data nd)" "holds_content (node_io ide nd) (concat (map encode_entry es))"
    "\<forall>d \<in> set es. entry_wf d" "\<forall>d \<in> set es. 0 \<notin> set (entry_name d)" "0 \<notin> set name"
  shows "node_find ide nd (name @ [0]) = Some (Inr (last (0 # map fst (filter (\<lambda>d. entry_name d = name) es))))"
proof -
  have "find_in (name @ [0]) (map entry_view es) 0 =
      Inr (last (0 # map fst (filter (\<lambda>(i, nm). c_text nm = c_text (name @ [0])) (map entry_view es))))"
    by (rule find_in_last) (auto simp: entry_view_name)
  moreover have "filter (\<lambda>(i, nm). c_text nm = c_text (name @ [0])) (map entry_view es) =
      map entry_view (filter (\<lambda>d. entry_name d = name) es)"
    using assms(4,5) by (induction es) (auto simp: entry_view_name)
  moreover have "fst \<circ> entry_view = fst" by (rule ext) (simp add: entry_view_name)
  ultimately show ?thesis using entries_encoded [OF assms(1-3)] by (simp add: node_find_def)
qed

text \<open>
  \<^bold>\<open>C19.\<close> Directories (\<^verbatim>\<open>Node::entries\<close>, \<^verbatim>\<open>Node::find\<close>). If the content of a directory is the sequence of the
  on-disk records of entries with distinct names, then \<^verbatim>\<open>entries\<close> ends and passes exactly those entries
  in order, \<^verbatim>\<open>find\<close> of the name of an entry returns its i-node number, and \<^verbatim>\<open>find\<close> of any other name
  returns 0.
\<close>

theorem directory_round_trip:
  assumes "is_dir (node_data nd)" "holds_content (node_io ide nd) (concat (map encode_entry es))"
    "\<forall>d \<in> set es. entry_wf d" "\<forall>d \<in> set es. 0 \<notin> set (entry_name d)" "distinct (map entry_name es)"
  shows "entries ide nd = Some (Inr (map entry_view es)) \<and>
    (\<forall>d \<in> set es. node_find ide nd (entry_name d @ [0]) = Some (Inr (fst d))) \<and>
    (\<forall>name. 0 \<notin> set name \<longrightarrow> name \<notin> entry_name ` set es \<longrightarrow> node_find ide nd (name @ [0]) = Some (Inr 0))"
proof (intro conjI ballI allI impI)
  show "entries ide nd = Some (Inr (map entry_view es))" by (rule entries_encoded [OF assms(1-3)])
next
  fix d assume d: "d \<in> set es"
  then have "0 \<notin> set (entry_name d)" using assms(4) by blast
  then show "node_find ide nd (entry_name d @ [0]) = Some (Inr (fst d))"
    using node_find_encoded [OF assms(1-4)] last_filter_unique [OF assms(5) d] by simp
next
  fix name assume n: "0 \<notin> set name" "name \<notin> entry_name ` set es"
  then have "filter (\<lambda>d. entry_name d = name) es = []" by (auto simp: filter_empty_conv)
  then show "node_find ide nd (name @ [0]) = Some (Inr 0)"
    using node_find_encoded [OF assms(1-4) n(1)] by simp
qed

definition two_entries :: "dirent list" where
  "two_entries = [(2, 12, 2, [46], [0, 0, 0]), (11, 12, 1, [97, 98], [0, 0])]"

theorem directory_round_trip_witness:
  "node_find (block5_disk (concat (map encode_entry two_entries)))
     (block5_node 0x4000 (concat (map encode_entry two_entries))) [97, 98, 0] = Some (Inr 11)"
proof -
  let ?bs = "concat (map encode_entry two_entries)"
  have l: "length ?bs \<le> 1024" by (simp add: two_entries_def)
  have d: "is_dir (node_data (block5_node 0x4000 ?bs))" by (simp add: is_dir_def get_type_def block5_node_def)
  have "\<forall>d \<in> set two_entries. entry_wf d" "\<forall>d \<in> set two_entries. 0 \<notin> set (entry_name d)"
    "distinct (map entry_name two_entries)"
    by (simp_all add: two_entries_def entry_name_def)
  from directory_round_trip [OF d block5_holds(2) [OF l] this] show ?thesis
    by (simp add: two_entries_def entry_name_def)
qed

text \<open>A disk whose i-node table is block 5, with one i-node; its file is that block.\<close>

definition self_bytes :: "u8 list" where
  "self_bytes = [0, 0x80, 0, 0, 128, 0, 0, 0] @ replicate 20 0 @ [2, 0, 0, 0] @ replicate 8 0 @ [5, 0, 0, 0] @ replicate 84 0"

definition self_fs :: ext2 where
  "self_fs = \<lparr>fs_ide = block5_disk self_bytes, blockSize = 1024, numberOfNodes = 8, numberOfBlocks = 16,
     iNodeSize = 128, nGroups = 1, iNodeTables = [5], iNodesPerGroup = 8\<rparr>"

definition self_node :: Node where
  "self_node = \<lparr>node_number = 1, node_block_size = 1024, node_data = parse_NodeData self_bytes\<rparr>"

lemma self_bytes_facts:
  "length self_bytes = 128" "size_low (parse_NodeData self_bytes) = 128" "n_sectors (parse_NodeData self_bytes) = 2"
  "direct (parse_NodeData self_bytes) ! 0 = 5"
  by code_simp+

lemma self_node_wf: "block5_wf self_node self_bytes"
  by (simp add: block5_wf_def self_node_def self_bytes_facts)

lemma self_get_node: "get_node self_fs 1 = Inr self_node"
proof -
  let ?D = "block5_bytes self_bytes"
  have h: "holds_content (block5_disk self_bytes) ?D" by (rule block5_holds(1)) (simp add: self_bytes_facts)
  have "take 128 (drop 5120 ?D) = self_bytes"
    by (rule nth_equalityI) (simp_all add: self_bytes_facts block5_image_def del: upt_conv_Cons)
  then have "read_object (block5_disk self_bytes) 5120 128 = Inr self_bytes"
    using read_object_content [OF h, of 5120 128] by (simp del: upt_conv_Cons)
  then show ?thesis by (simp add: get_node_def self_fs_def self_node_def sizeof_NodeData_def)
qed

end
