(* ===== verification/User_Memory.thy ===== *)
theory User_Memory
  imports Fork Scheduler Ext2_Correctness
begin

text \<open>
  The state of the kernel as a whole and its access to the memory of the running process. A system call
  follows user pointers through the page tables of the current process; a page that is not present
  raises a page fault, which \<^verbatim>\<open>vmm_pageFault\<close> resolves from the mapped file or ends the process.
\<close>

subsection \<open>Kernel state\<close>

text \<open>\<open>console\<close> holds the bytes sent to the UART, \<open>keyboard\<close> the bytes it will deliver.\<close>

record kernel =
  sch :: sched
  vm :: vmm
  console :: "u8 list"
  keyboard :: "u8 list"

text \<open>
  \<^verbatim>\<open>vmm_pageFault\<close> reads through the node of the mapped file. On a mounted file system the reader is
  \<open>read_all\<close> of the block device that the node is.
\<close>

definition ext2_reader :: "ext2 \<Rightarrow> file_reader" where
  "ext2_reader fs number off n = rbind (get_node fs number) (\<lambda>nd. read_all (node_io (fs_ide fs) nd) off n)"

definition cur_index :: "nat \<Rightarrow> kernel \<Rightarrow> nat" where
  "cur_index core st = tproc (sch st) (current (sch st) core)"

definition cur_proc :: "nat \<Rightarrow> kernel \<Rightarrow> process" where
  "cur_proc core st = procs (sch st) ! cur_index core st"

definition set_proc :: "nat \<Rightarrow> process \<Rightarrow> kernel \<Rightarrow> kernel" where
  "set_proc core p st = st\<lparr>sch := (sch st)\<lparr>procs := (procs (sch st))[cur_index core st := p]\<rparr>\<rparr>"

definition set_kobj :: "kobjects \<Rightarrow> kernel \<Rightarrow> kernel" where
  "set_kobj k st = st\<lparr>sch := (sch st)\<lparr>kobj := k\<rparr>\<rparr>"

definition set_phys :: "physmem \<Rightarrow> kernel \<Rightarrow> kernel" where
  "set_phys s st = st\<lparr>vm := (vm st)\<lparr>phys := s\<rparr>\<rparr>"

abbreviation kmem :: "kernel \<Rightarrow> memory" where
  "kmem st \<equiv> mem (phys (vm st))"

subsection \<open>Sequencing\<close>

text \<open>\<open>Ended\<close>: the thread that made the access was stopped, the rest of its code does not run.\<close>

datatype 'a access = Ok 'a | Ended

type_synonym 'a kcode = "kernel \<Rightarrow> (kernel \<times> 'a access) result option"

definition kreturn :: "'a \<Rightarrow> 'a kcode" where
  "kreturn x st = Some (Inr (st, Ok x))"

definition kbind :: "'a kcode \<Rightarrow> ('a \<Rightarrow> 'b kcode) \<Rightarrow> 'b kcode" where
  "kbind m f st = obind (m st) (\<lambda>(st, r). case r of Ok x \<Rightarrow> f x st | Ended \<Rightarrow> Some (Inr (st, Ended)))"

definition klift :: "'a result \<Rightarrow> 'a kcode" where
  "klift r st = (case r of Inl e \<Rightarrow> Some (Inl e) | Inr x \<Rightarrow> Some (Inr (st, Ok x)))"

lemma kbind_Ok [simp]: "m st = Some (Inr (st', Ok x)) \<Longrightarrow> kbind m f st = f x st'"
  by (simp add: kbind_def)

lemma kreturn_bind [simp]: "kbind (kreturn x) f = f x"
  by (rule ext) (simp add: kreturn_def kbind_def)

lemma klift_simps [simp]: "klift (Inr x) st = Some (Inr (st, Ok x))" "klift (Inl e) st = Some (Inl e)"
  by (simp_all add: klift_def)

subsection \<open>Page faults of the running thread\<close>

text \<open>The end of the running thread; \<open>t\<close> is the thread that waited for its process.\<close>

definition end_thread :: "nat \<Rightarrow> ptr option \<Rightarrow> 'a kcode" where
  "end_thread core t st =
     obind (case t of None \<Rightarrow> Some (Inr (sch st)) | Some t \<Rightarrow> schedule (sch st) t) (\<lambda>sc.
     obind (stop core True sc) (\<lambda>(sc, _). Some (Inr (st\<lparr>sch := sc\<rparr>, Ended))))"

definition page_fault :: "ext2 \<Rightarrow> nat \<Rightarrow> u32 \<Rightarrow> unit kcode" where
  "page_fault fs core va st =
     (let p = cur_proc core st in
      case vmm_pageFault (ext2_reader fs) (pd p) (pd p) (phys (vm st)) (kobj (sch st)) p va of
        Inl e \<Rightarrow> Some (Inl e)
      | Inr (s, k, p, r) \<Rightarrow>
          let st = set_proc core p (set_kobj k (set_phys s st)) in
          (case r of Resumed \<Rightarrow> kreturn () st | Killed t \<Rightarrow> end_thread core t st))"

text \<open>The physical address behind a virtual one; the access is repeated after a fault.\<close>

definition frame_addr :: "u32 \<Rightarrow> u32 \<Rightarrow> u32" where
  "frame_addr pte va = frame_mask pte + offset va"

definition translate :: "nat \<Rightarrow> u32 \<Rightarrow> kernel \<Rightarrow> u32 option" where
  "translate core va st = map_option (\<lambda>pte. frame_addr pte va) (walk (kmem st) (pd (cur_proc core st)) va)"

definition touch :: "ext2 \<Rightarrow> nat \<Rightarrow> u32 \<Rightarrow> u32 kcode" where
  "touch fs core va st =
     (case translate core va st of
        Some pa \<Rightarrow> kreturn pa st
      | None \<Rightarrow>
          kbind (page_fault fs core va) (\<lambda>_ st.
            case translate core va st of
              Some pa \<Rightarrow> kreturn pa st
            | None \<Rightarrow> Some (Inl (Undefined_Behaviour ''the fault was not resolved''))) st)"

subsection \<open>Reading and writing user memory\<close>

definition vread8 :: "ext2 \<Rightarrow> nat \<Rightarrow> u32 \<Rightarrow> u8 kcode" where
  "vread8 fs core va = kbind (touch fs core va) (\<lambda>pa st. kreturn (kmem st pa) st)"

definition vwrite8 :: "ext2 \<Rightarrow> nat \<Rightarrow> u32 \<Rightarrow> u8 \<Rightarrow> unit kcode" where
  "vwrite8 fs core va b = kbind (touch fs core va) (\<lambda>pa st.
     kreturn () (set_phys ((phys (vm st))\<lparr>mem := (kmem st)(pa := b)\<rparr>) st))"

definition vread32 :: "ext2 \<Rightarrow> nat \<Rightarrow> u32 \<Rightarrow> u32 kcode" where
  "vread32 fs core va =
     kbind (vread8 fs core va) (\<lambda>b0. kbind (vread8 fs core (va + 1)) (\<lambda>b1.
     kbind (vread8 fs core (va + 2)) (\<lambda>b2. kbind (vread8 fs core (va + 3)) (\<lambda>b3.
       kreturn (ucast b0 OR push_bit 8 (ucast b1) OR push_bit 16 (ucast b2) OR push_bit 24 (ucast b3))))))"

text \<open>A sequence of byte stores, in order.\<close>

fun vstores :: "ext2 \<Rightarrow> nat \<Rightarrow> (u32 \<times> u8) list \<Rightarrow> unit kcode" where
  "vstores fs core [] = kreturn ()"
| "vstores fs core ((a, b) # xs) = kbind (vwrite8 fs core a b) (\<lambda>_. vstores fs core xs)"

fun byte_stores :: "u32 \<Rightarrow> u8 list \<Rightarrow> (u32 \<times> u8) list" where
  "byte_stores a [] = []"
| "byte_stores a (b # bs) = (a, b) # byte_stores (a + 1) bs"

definition word_stores :: "u32 \<Rightarrow> u32 \<Rightarrow> (u32 \<times> u8) list" where
  "word_stores a v = byte_stores a [ucast v, ucast (drop_bit 8 v), ucast (drop_bit 16 v), ucast (drop_bit 24 v)]"

text \<open>The bytes of a zero-terminated string of the user, without the terminator.\<close>

partial_function (option) vstring :: "ext2 \<Rightarrow> nat \<Rightarrow> u32 \<Rightarrow> u8 list \<Rightarrow> u8 list kcode" where
  "vstring fs core va acc st =
     (case vread8 fs core va st of
        None \<Rightarrow> None
      | Some (Inl e) \<Rightarrow> Some (Inl e)
      | Some (Inr (st, Ended)) \<Rightarrow> Some (Inr (st, Ended))
      | Some (Inr (st, Ok c)) \<Rightarrow> if c = 0 then Some (Inr (st, Ok acc)) else vstring fs core (va + 1) (acc @ [c]) st)"

subsection \<open>Memory as the process sees it\<close>

text \<open>A page of an anonymous mapping that was not touched yet reads as zeros.\<close>

definition uview :: "nat \<Rightarrow> kernel \<Rightarrow> memory" where
  "uview core st a = (case translate core a st of None \<Rightarrow> 0 | Some pa \<Rightarrow> kmem st pa)"

definition anon_at :: "vm_entry list \<Rightarrow> u32 \<Rightarrow> bool" where
  "anon_at es a \<longleftrightarrow> (\<exists>xs e ys. es = xs @ e # ys \<and> (\<forall>x \<in> set xs. \<not> vm_covers (framedown a) x) \<and>
     vm_covers (framedown a) e \<and> (vm_file e = None \<or> vm_flags e AND 1 = 0))"

text \<open>
  The addresses \<open>A\<close> are usable: each is mapped to a frame that no other page of \<open>A\<close> and no table uses,
  or belongs to an anonymous mapping, with free frames for the pages that are still missing.
\<close>

definition missing :: "nat \<Rightarrow> u32 set \<Rightarrow> kernel \<Rightarrow> u32 set" where
  "missing core A st = ppn ` {a \<in> A. walk (kmem st) (pd (cur_proc core st)) a = None}"

definition space_ok :: "u32 \<Rightarrow> u32 \<Rightarrow> nat \<Rightarrow> u32 set \<Rightarrow> u32 set \<Rightarrow> kernel \<Rightarrow> bool" where
  "space_ok lo hi core A F st \<longleftrightarrow>
     (let dir = pd (cur_proc core st) in
      cur_index core st < length (procs (sch st)) \<and> pd_inv lo hi (phys (vm st)) dir F \<and>
      (\<forall>a \<in> A. 0x80000000 \<le> a \<and> anon_at (entry_list (cur_proc core st)) a) \<and>
      (\<forall>a \<in> A. \<forall>e. walk (kmem st) dir a = Some e \<longrightarrow> frame_mask e \<notin> F \<and> frame_mask e \<notin> pd_frames (kmem st) dir) \<and>
      (\<forall>a \<in> A. \<forall>b \<in> A. \<forall>e e'. walk (kmem st) dir a = Some e \<longrightarrow> walk (kmem st) dir b = Some e' \<longrightarrow>
         frame_mask e = frame_mask e' \<longrightarrow> ppn a = ppn b) \<and>
      2 * card (missing core A st) \<le> card F)"

lemma space_okD:
  assumes "space_ok lo hi core A F st"
  shows "cur_index core st < length (procs (sch st))" "pd_inv lo hi (phys (vm st)) (pd (cur_proc core st)) F"
    "a \<in> A \<Longrightarrow> 0x80000000 \<le> a" "a \<in> A \<Longrightarrow> anon_at (entry_list (cur_proc core st)) a"
    "a \<in> A \<Longrightarrow> walk (kmem st) (pd (cur_proc core st)) a = Some e \<Longrightarrow> frame_mask e \<notin> F"
    "a \<in> A \<Longrightarrow> walk (kmem st) (pd (cur_proc core st)) a = Some e \<Longrightarrow> frame_mask e \<notin> pd_frames (kmem st) (pd (cur_proc core st))"
    "a \<in> A \<Longrightarrow> b \<in> A \<Longrightarrow> walk (kmem st) (pd (cur_proc core st)) a = Some e \<Longrightarrow> walk (kmem st) (pd (cur_proc core st)) b = Some e' \<Longrightarrow>
      frame_mask e = frame_mask e' \<Longrightarrow> ppn a = ppn b"
    "2 * card (missing core A st) \<le> card F"
  using assms unfolding space_ok_def Let_def by blast+

lemma space_okI:
  assumes "cur_index core st < length (procs (sch st))" "pd_inv lo hi (phys (vm st)) (pd (cur_proc core st)) F"
    "\<And>a. a \<in> A \<Longrightarrow> 0x80000000 \<le> a" "\<And>a. a \<in> A \<Longrightarrow> anon_at (entry_list (cur_proc core st)) a"
    "\<And>a e. a \<in> A \<Longrightarrow> walk (kmem st) (pd (cur_proc core st)) a = Some e \<Longrightarrow> frame_mask e \<notin> F"
    "\<And>a e. a \<in> A \<Longrightarrow> walk (kmem st) (pd (cur_proc core st)) a = Some e \<Longrightarrow> frame_mask e \<notin> pd_frames (kmem st) (pd (cur_proc core st))"
    "\<And>a b e e'. a \<in> A \<Longrightarrow> b \<in> A \<Longrightarrow> walk (kmem st) (pd (cur_proc core st)) a = Some e \<Longrightarrow>
      walk (kmem st) (pd (cur_proc core st)) b = Some e' \<Longrightarrow> frame_mask e = frame_mask e' \<Longrightarrow> ppn a = ppn b"
    "2 * card (missing core A st) \<le> card F"
  shows "space_ok lo hi core A F st"
  unfolding space_ok_def Let_def using assms by blast

lemma space_ok_subset:
  assumes "space_ok lo hi core A F st" "B \<subseteq> A"
  shows "space_ok lo hi core B F st"
proof -
  have "card (missing core B st) \<le> card (missing core A st)" by (rule card_mono) (use assms(2) in \<open>auto simp: missing_def\<close>)
  then show ?thesis using assms unfolding space_ok_def Let_def by (meson le_trans mult_le_mono2 subsetD)
qed

lemma high_page: "0x80000000 \<le> a \<Longrightarrow> 0x80000000 \<le> framedown a"
proof -
  assume "0x80000000 \<le> a"
  then have "(2147483648 :: nat) \<le> unat a" by (simp add: word_le_nat_alt)
  then have "2147483648 div 4096 \<le> unat a div 4096" by (rule div_le_mono)
  then have "2147483648 \<le> unat a - unat a mod 4096" by (simp add: minus_mod_eq_mult_div)
  then show ?thesis by (simp add: word_le_nat_alt unat_framedown)
qed

lemma set_phys_simps [simp]:
  "sch (set_phys s st) = sch st" "phys (vm (set_phys s st)) = s" "console (set_phys s st) = console st"
  "keyboard (set_phys s st) = keyboard st" "cur_proc core (set_phys s st) = cur_proc core st"
  "cur_index core (set_phys s st) = cur_index core st" "set_phys s' (set_phys s st) = set_phys s' st"
  by (simp_all add: set_phys_def cur_proc_def cur_index_def)

lemma set_same [simp]: "set_proc core (cur_proc core st) st = st" "set_kobj (kobj (sch st)) st = st"
  by (simp_all add: set_proc_def set_kobj_def cur_proc_def)

lemma set_proc_kobj: "set_proc core p (set_kobj k (set_phys s st)) = set_phys s (set_proc core p (set_kobj k st))"
  by (simp add: set_proc_def set_kobj_def set_phys_def cur_index_def)

text \<open>The first touch of a page.\<close>

lemma fault_resolved:
  assumes ok: "space_ok lo hi core A F st" and a: "a \<in> A" and w: "walk (kmem st) (pd (cur_proc core st)) a = None"
  obtains s pa F' where "page_fault fs core a st = Some (Inr (set_phys s st, Ok ()))" "space_ok lo hi core A F' (set_phys s st)"
    "walk (mem s) (pd (cur_proc core st)) a = Some (pa OR 7)" "\<And>b. b \<in> A \<Longrightarrow> uview core (set_phys s st) b = uview core st b"
proof -
  let ?p = "cur_proc core st" and ?m = "kmem st"
  let ?dir = "pd ?p"
  note d = space_okD [OF ok]
  note inv = d(2) and fr = d(5,6) and inj = d(7) and cd = d(8)
  have "ppn a \<in> missing core A st" using a w by (auto simp: missing_def)
  then have "0 < card (missing core A st)" by (auto simp: card_gt_0_iff)
  then have two: "2 \<le> card F" using cd by linarith
  obtain xs e ys where es: "entry_list ?p = xs @ e # ys" "\<forall>x \<in> set xs. \<not> vm_covers (framedown a) x"
    "vm_covers (framedown a) e" "vm_file e = None \<or> vm_flags e AND 1 = 0" using d(4) [OF a] by (auto simp: anon_at_def)
  obtain s pa F' where f: "vmm_pageFault (ext2_reader fs) ?dir ?dir (phys (vm st)) (kobj (sch st)) ?p a = Inr (s, kobj (sch st), ?p, Resumed)"
    "pa \<in> F" "F' \<subseteq> F - {pa}" "pd_inv lo hi s ?dir F'" "aligned pa" "zero_frame (mem s) pa"
    "\<And>x. walk (mem s) ?dir x = (if ppn x = ppn a then Some (pa OR 7) else walk ?m ?dir x)"
    "pd_frames (mem s) ?dir \<subseteq> pd_frames ?m ?dir \<union> (F - F')" "pa \<notin> pd_frames (mem s) ?dir"
    "same_except (pd_frames ?m ?dir \<union> F) ?m (mem s)" "card F \<le> card F' + 2"
    by (rule anonymous_fault [OF inv two refl refl high_page [OF d(3) [OF a]] es]) blast
  have fm: "frame_mask (pa OR 7) = pa" using f(5) by (simp add: frame_mask_or)
  have old: "walk ?m ?dir b = Some e" if "walk (mem s) ?dir b = Some e" "ppn b \<noteq> ppn a" for b e using that f(7) by simp
  have new: "e = pa OR 7" if "walk (mem s) ?dir b = Some e" "ppn b = ppn a" for b e using that f(7) by simp
  have frame': "frame_mask e \<notin> F' \<and> frame_mask e \<notin> pd_frames (mem s) ?dir" if "b \<in> A" "walk (mem s) ?dir b = Some e" for b e
    using fr [OF that(1) old [OF that(2)]] new [OF that(2)] f(3,8,9) fm by (cases "ppn b = ppn a") auto
  have inj': "ppn b = ppn c" if h: "b \<in> A" "c \<in> A" "walk (mem s) ?dir b = Some e" "walk (mem s) ?dir c = Some e'" "frame_mask e = frame_mask e'" for b c e e'
  proof (cases "ppn b = ppn a"; cases "ppn c = ppn a")
    assume "ppn b = ppn a" "ppn c \<noteq> ppn a"
    then have "frame_mask e = pa" "frame_mask e' \<notin> F" using new [OF h(3)] fm fr [OF h(2) old [OF h(4)]] by auto
    then show ?thesis using h(5) f(2) by simp
  next
    assume "ppn b \<noteq> ppn a" "ppn c = ppn a"
    then have "frame_mask e' = pa" "frame_mask e \<notin> F" using new [OF h(4)] fm fr [OF h(1) old [OF h(3)]] by auto
    then show ?thesis using h(5) f(2) by simp
  next
    assume "ppn b \<noteq> ppn a" "ppn c \<noteq> ppn a"
    then show ?thesis using inj [OF h(1,2) old [OF h(3)] old [OF h(4)] h(5)] by simp
  qed simp
  have "missing core A (set_phys s st) = missing core A st - {ppn a}" by (auto simp: missing_def f(7))
  then have "card (missing core A st) = Suc (card (missing core A (set_phys s st)))"
    using \<open>ppn a \<in> missing core A st\<close> by (metis card_Suc_Diff1 finite)
  then have room: "2 * card (missing core A (set_phys s st)) \<le> card F'" using cd f(11) by linarith
  have ok': "space_ok lo hi core A F' (set_phys s st)"
  proof (rule space_okI, unfold set_phys_simps)
    show "cur_index core st < length (procs (sch st))" "pd_inv lo hi s ?dir F'"
      "2 * card (missing core A (set_phys s st)) \<le> card F'" by (fact d(1) f(4) room)+
    fix b c e e' assume b: "b \<in> A"
    show "0x80000000 \<le> b" "anon_at (entry_list ?p) b" using d(3,4) [OF b] .
    assume e: "walk (mem s) ?dir b = Some e"
    show "frame_mask e \<notin> F'" "frame_mask e \<notin> pd_frames (mem s) ?dir" using frame' [OF b e] by (rule conjunct1, rule conjunct2)
    assume "c \<in> A" "walk (mem s) ?dir c = Some e'" "frame_mask e = frame_mask e'"
    then show "ppn b = ppn c" by (rule inj' [OF b _ e])
  qed
  have view: "uview core (set_phys s st) b = uview core st b" if "b \<in> A" for b
  proof (cases "ppn b = ppn a")
    case True
    then have n: "walk ?m ?dir b = None" using w walk_page [OF True, of ?m ?dir] by simp
    have "frame_mask (pa + offset b) = pa"
      using frame_mask_plus [OF f(5), of "offset b"] unat_offset [of b] by simp
    then have "mem s (frame_addr (pa OR 7) b) = 0" using f(6) by (simp add: frame_addr_def fm zero_frame_def in_frame_def)
    then show ?thesis using True f(7) n by (simp add: uview_def translate_def)
  next
    case False
    then have e: "walk (mem s) ?dir b = walk ?m ?dir b" using f(7) by simp
    have "mem s (frame_addr e b) = ?m (frame_addr e b)" if "walk ?m ?dir b = Some e" for e
    proof -
      have "frame_mask (frame_addr e b) = frame_mask e"
        using frame_mask_plus [OF frame_mask_aligned, of "offset b"] unat_offset [of b] by (simp add: frame_addr_def)
      then show ?thesis using f(10) fr [OF \<open>b \<in> A\<close> that] by (simp add: same_except_def)
    qed
    then show ?thesis by (cases "walk ?m ?dir b") (simp_all add: uview_def translate_def e)
  qed
  have "page_fault fs core a st = Some (Inr (set_phys s st, Ok ()))"
    using f(1) by (simp add: page_fault_def set_proc_kobj kreturn_def)
  then show thesis using that ok' f(7) view by simp
qed

lemma touch_ok:
  assumes ok: "space_ok lo hi core A F st" and a: "a \<in> A"
  obtains s e F' where "touch fs core a st = Some (Inr (set_phys s st, Ok (frame_addr e a)))" "space_ok lo hi core A F' (set_phys s st)"
    "walk (mem s) (pd (cur_proc core st)) a = Some e" "\<And>b. b \<in> A \<Longrightarrow> uview core (set_phys s st) b = uview core st b"
proof (cases "walk (kmem st) (pd (cur_proc core st)) a")
  case (Some e)
  have "set_phys (phys (vm st)) st = st" by (simp add: set_phys_def)
  then show ?thesis using that [of "phys (vm st)" e F] Some ok by (simp add: touch_def translate_def kreturn_def)
next
  case None
  obtain s pa F' where f: "page_fault fs core a st = Some (Inr (set_phys s st, Ok ()))" "space_ok lo hi core A F' (set_phys s st)"
    "walk (mem s) (pd (cur_proc core st)) a = Some (pa OR 7)" "\<And>b. b \<in> A \<Longrightarrow> uview core (set_phys s st) b = uview core st b"
    by (rule fault_resolved [OF ok a None]) blast
  have "touch fs core a st = Some (Inr (set_phys s st, Ok (frame_addr (pa OR 7) a)))"
    using None f(1,3) by (simp add: touch_def translate_def kreturn_def)
  then show ?thesis using that f by blast
qed

lemma frame_addr_frame: "frame_mask (frame_addr e a) = frame_mask e"
  using frame_mask_plus [OF frame_mask_aligned, of "offset a" e] unat_offset [of a] by (simp add: frame_addr_def)

lemma frame_addr_inj:
  assumes "frame_addr e a = frame_addr e' b" "ppn a = ppn b"
  shows "a = b"
proof -
  have "frame_mask e = frame_mask e'" using assms(1) frame_addr_frame by metis
  then have "offset a = offset b" using assms(1) by (simp add: frame_addr_def)
  then have "unat a mod 4096 = unat b mod 4096" by (metis unat_offset)
  moreover have "unat a - unat a mod 4096 = unat b - unat b mod 4096"
    using assms(2) unat_framedown ppn_eq_framedown by metis
  ultimately have "unat a = unat b" by (metis le_add_diff_inverse2 mod_less_eq_dividend)
  then show ?thesis by (simp add: word_unat_eq_iff)
qed

text \<open>Writing a byte of user memory changes exactly that byte of what the process sees.\<close>

lemma vwrite8_ok:
  assumes ok: "space_ok lo hi core A F st" and a: "a \<in> A"
  obtains s F' where "vwrite8 fs core a v st = Some (Inr (set_phys s st, Ok ()))" "space_ok lo hi core A F' (set_phys s st)"
    "\<And>b. b \<in> A \<Longrightarrow> uview core (set_phys s st) b = ((uview core st)(a := v)) b"
proof -
  obtain s e F' where t: "touch fs core a st = Some (Inr (set_phys s st, Ok (frame_addr e a)))"
    "space_ok lo hi core A F' (set_phys s st)" "walk (mem s) (pd (cur_proc core st)) a = Some e"
    "\<And>b. b \<in> A \<Longrightarrow> uview core (set_phys s st) b = uview core st b"
    by (rule touch_ok [OF ok a]) blast
  let ?dir = "pd (cur_proc core st)" and ?pa = "frame_addr e a"
  let ?m = "(mem s)(?pa := v)"
  let ?s = "s\<lparr>mem := ?m\<rparr>"
  have se: "same_except {frame_mask e} (mem s) ?m" by (auto simp: same_except_def frame_addr_frame)
  note d = space_okD [OF t(2), unfolded set_phys_simps]
  note inv = d(2) and fe = d(5,6) [OF a t(3)] and inj = d(7) [OF a _ t(3)]
  have al: "aligned ?dir" and nd: "?dir \<notin> {frame_mask e}" using inv fe(2) pd_frames_self by (auto simp: pd_inv_def pd_wf_def)
  have w: "walk ?m ?dir x = walk (mem s) ?dir x" for x by (rule walk_frame [OF se al]) (use fe in auto)
  have fr: "pd_frames ?m ?dir = pd_frames (mem s) ?dir" by (rule pd_wf_frame(2) [OF se nd al])
  have "pm_inv lo hi ?s F'" using pm.write_ok [of lo hi s F', OF _ se] inv fe(1) by (simp add: pd_inv_def)
  then have pdi': "pd_inv lo hi ?s ?dir F'" using inv pd_wf_frame(1) [OF se nd] fr by (simp add: pd_inv_def)
  have ok': "space_ok lo hi core A F' (set_phys ?s st)"
  proof (rule space_okI, unfold set_phys_simps)
    show "cur_index core st < length (procs (sch st))" "pd_inv lo hi ?s ?dir F'" by (fact d(1) pdi')+
    show "2 * card (missing core A (set_phys ?s st)) \<le> card F'" using d(8) by (simp add: missing_def w)
    fix b c e e' assume b: "b \<in> A"
    show "0x80000000 \<le> b" "anon_at (entry_list (cur_proc core st)) b" using d(3,4) [OF b] .
    assume "walk (mem ?s) ?dir b = Some e"
    then have e: "walk (mem s) ?dir b = Some e" by (simp add: w)
    show "frame_mask e \<notin> F'" "frame_mask e \<notin> pd_frames (mem ?s) ?dir" using d(5,6) [OF b e] by (simp_all add: fr)
    assume "c \<in> A" "walk (mem ?s) ?dir c = Some e'" "frame_mask e = frame_mask e'"
    then show "ppn b = ppn c" by (intro d(7) [OF b _ e]) (simp_all add: w)
  qed
  have view: "uview core (set_phys ?s st) b = ((uview core st)(a := v)) b" if b: "b \<in> A" for b
  proof (cases "walk (mem s) ?dir b")
    case None
    then have "b \<noteq> a" using t(3) by auto
    then show ?thesis using t(4) [OF b] None by (simp add: uview_def translate_def w)
  next
    case (Some e')
    have "frame_addr e' b = ?pa \<longleftrightarrow> b = a"
    proof
      assume h: "frame_addr e' b = ?pa"
      then have "frame_mask e = frame_mask e'" using frame_addr_frame by metis
      then show "b = a" using frame_addr_inj [OF h] inj [OF b Some] by simp
    qed (use Some t(3) in simp)
    then show ?thesis using t(4) [OF b] Some by (simp add: uview_def translate_def w)
  qed
  have "vwrite8 fs core a v st = Some (Inr (set_phys ?s st, Ok ()))" using t(1) by (simp add: vwrite8_def kreturn_def)
  then show thesis using that ok' view by blast
qed

definition apply_stores :: "(u32 \<times> u8) list \<Rightarrow> memory \<Rightarrow> memory" where
  "apply_stores xs m = fold (\<lambda>(a, b) m. m(a := b)) xs m"

lemma apply_stores_simps [simp]:
  "apply_stores [] m = m" "apply_stores ((a, b) # xs) m = apply_stores xs (m(a := b))"
  "apply_stores (xs @ ys) m = apply_stores ys (apply_stores xs m)"
  by (simp_all add: apply_stores_def)

lemma apply_byte_stores [simp]: "apply_stores (byte_stores a bs) m = write_bytes m a bs"
  by (induction bs arbitrary: a m) simp_all

lemma apply_word_stores [simp]: "apply_stores (word_stores a v) m = store32 m a v"
  by (simp add: word_stores_def store32_def add.assoc)

lemma apply_stores_cong: "(\<And>x. x \<in> A \<Longrightarrow> m x = m' x) \<Longrightarrow> x \<in> A \<Longrightarrow> apply_stores xs m x = apply_stores xs m' x"
proof (induction xs arbitrary: m m')
  case (Cons ab xs)
  obtain a b where ab: "ab = (a, b)" by (cases ab)
  have "apply_stores xs (m(a := b)) x = apply_stores xs (m'(a := b)) x" by (rule Cons.IH) (use Cons.prems in auto)
  then show ?case by (simp add: ab)
qed simp

text \<open>A sequence of stores through the page tables has the effect of the stores on flat memory.\<close>

lemma vstores_ok:
  assumes "space_ok lo hi core A F st" "fst ` set xs \<subseteq> A"
  shows "\<exists>s F'. vstores fs core xs st = Some (Inr (set_phys s st, Ok ())) \<and> space_ok lo hi core A F' (set_phys s st) \<and>
    (\<forall>a \<in> A. uview core (set_phys s st) a = apply_stores xs (uview core st) a)"
  using assms
proof (induction xs arbitrary: st F)
  case Nil
  have "set_phys (phys (vm st)) st = st" by (simp add: set_phys_def)
  then show ?case using Nil by (intro exI [of _ "phys (vm st)"] exI [of _ F]) (simp add: kreturn_def)
next
  case (Cons ab xs)
  obtain a b where ab: "ab = (a, b)" by (cases ab)
  have a: "a \<in> A" using Cons.prems(2) by (simp add: ab)
  obtain s1 F1 where w: "vwrite8 fs core a b st = Some (Inr (set_phys s1 st, Ok ()))" "space_ok lo hi core A F1 (set_phys s1 st)"
    "\<And>x. x \<in> A \<Longrightarrow> uview core (set_phys s1 st) x = ((uview core st)(a := b)) x"
    by (rule vwrite8_ok [OF Cons.prems(1) a]) blast
  obtain s F' where r: "vstores fs core xs (set_phys s1 st) = Some (Inr (set_phys s st, Ok ()))" "space_ok lo hi core A F' (set_phys s st)"
    "\<forall>x \<in> A. uview core (set_phys s st) x = apply_stores xs (uview core (set_phys s1 st)) x"
    using Cons.IH [OF w(2)] Cons.prems(2) by auto
  have "\<forall>x \<in> A. uview core (set_phys s st) x = apply_stores xs ((uview core st)(a := b)) x"
    using r(3) apply_stores_cong [of A "uview core (set_phys s1 st)" "(uview core st)(a := b)"] w(3) by metis
  moreover have "vstores fs core (ab # xs) st = Some (Inr (set_phys s st, Ok ()))" using w(1) r(1) by (simp add: ab)
  ultimately show ?case using r(2) by (auto simp: ab)
qed

text \<open>Reading does not change what the process sees.\<close>

lemma vread8_ok:
  assumes ok: "space_ok lo hi core A F st" and a: "a \<in> A"
  obtains s F' where "vread8 fs core a st = Some (Inr (set_phys s st, Ok (uview core st a)))" "space_ok lo hi core A F' (set_phys s st)"
    "\<And>b. b \<in> A \<Longrightarrow> uview core (set_phys s st) b = uview core st b"
proof -
  obtain s e F' where t: "touch fs core a st = Some (Inr (set_phys s st, Ok (frame_addr e a)))"
    "space_ok lo hi core A F' (set_phys s st)" "walk (mem s) (pd (cur_proc core st)) a = Some e"
    "\<And>b. b \<in> A \<Longrightarrow> uview core (set_phys s st) b = uview core st b"
    by (rule touch_ok [OF ok a]) blast
  have "uview core st a = mem s (frame_addr e a)" using t(4) [OF a] t(3) by (simp add: uview_def translate_def)
  then show thesis using that t(1,2,4) by (simp add: vread8_def kreturn_def)
qed

end
