(* ===== verification/Exec.thy ===== *)
theory Exec
  imports User_Memory
begin

text \<open>
  Loading a program: \<^verbatim>\<open>ELF::load\<close> of \<^verbatim>\<open>kernel/elf.cc\<close> with the headers of \<^verbatim>\<open>kernel/elf.h\<close>, and
  \<^verbatim>\<open>SYS::exec\<close> of \<^verbatim>\<open>kernel/sys.cc\<close>. All addresses of the new program are virtual addresses of the
  current process, so segments and arguments are written through its page tables. The path and the
  arguments are the kernel's copies of the strings; \<open>over i\<close> are the bytes that follow the copy of
  argument \<open>i\<close> in the kernel heap, of which \<^verbatim>\<open>memcpy\<close> reads up to three.
\<close>

subsection \<open>ELF files (elf.h, elf.cc)\<close>

record ElfHeader =
  magic :: "u8 list"
  cls :: u8
  encoding :: u8
  abi :: u8
  elf_type :: u16
  elf_version :: u32
  elf_entry :: u32
  phoff :: u32
  phentsize :: u16
  phnum :: u16

definition sizeof_ElfHeader :: nat where "sizeof_ElfHeader = 52"

definition parse_ElfHeader :: "u8 list \<Rightarrow> ElfHeader" where
  "parse_ElfHeader bs =
     \<lparr>magic = take 4 bs, cls = bs ! 4, encoding = bs ! 5, abi = bs ! 7, elf_type = le16_at bs 16,
      elf_version = le32_at bs 20, elf_entry = le32_at bs 24, phoff = le32_at bs 28,
      phentsize = le16_at bs 42, phnum = le16_at bs 44\<rparr>"

record ProgramHeader =
  ph_type :: u32
  ph_offset :: u32
  ph_vaddr :: u32
  ph_filesz :: u32
  ph_memsz :: u32

definition sizeof_ProgramHeader :: nat where "sizeof_ProgramHeader = 32"

definition parse_ProgramHeader :: "u8 list \<Rightarrow> ProgramHeader" where
  "parse_ProgramHeader bs =
     \<lparr>ph_type = le32_at bs 0, ph_offset = le32_at bs 4, ph_vaddr = le32_at bs 8, ph_filesz = le32_at bs 16,
      ph_memsz = le32_at bs 20\<rparr>"

text \<open>\<^verbatim>\<open>VMM::mmap\<close> for the current process.\<close>

definition kmmap :: "config \<Rightarrow> nat \<Rightarrow> u32 \<Rightarrow> u32 \<Rightarrow> u32 \<Rightarrow> u32 \<Rightarrow> u32 \<Rightarrow> u32 \<Rightarrow> u32 kcode" where
  "kmmap cfg core addr len prot flags fd off st =
     kbind (klift (mmap cfg (kobj (sch st)) (cur_proc core st) addr len prot flags fd off))
       (\<lambda>(p, va) st. kreturn va (set_proc core p st)) st"

definition load_segment :: "config \<Rightarrow> ext2 \<Rightarrow> nat \<Rightarrow> block_io \<Rightarrow> ProgramHeader \<Rightarrow> unit kcode" where
  "load_segment cfg fs core io ph =
     (let p = ph_vaddr ph; memsz = ph_memsz ph; filesz = ph_filesz ph in
      kbind (kmmap cfg core p memsz 0xa 0x1 (- 1) (ph_offset ph)) (\<lambda>_.
      kbind (klift (read_all io (ph_offset ph) filesz)) (\<lambda>(cnt, bs).
      kbind (vstores fs core (byte_stores p bs)) (\<lambda>_.
        vstores fs core (byte_stores (p + filesz) (replicate (asm_count (memsz - filesz)) 0))))))"

primrec load_segments :: "config \<Rightarrow> ext2 \<Rightarrow> nat \<Rightarrow> block_io \<Rightarrow> u32 \<Rightarrow> nat \<Rightarrow> u32 \<Rightarrow> unit kcode" where
  "load_segments cfg fs core io entsize 0 hoff = kreturn ()"
| "load_segments cfg fs core io entsize (Suc n) hoff =
     kbind (klift (read_object io hoff sizeof_ProgramHeader)) (\<lambda>bs.
       let ph = parse_ProgramHeader bs in
       kbind (if ph_type ph = 1 then load_segment cfg fs core io ph else kreturn ()) (\<lambda>_.
         load_segments cfg fs core io entsize n (hoff + entsize)))"

definition elf_load :: "config \<Rightarrow> ext2 \<Rightarrow> nat \<Rightarrow> block_io \<Rightarrow> u32 kcode" where
  "elf_load cfg fs core io =
     kbind (klift (read_object io 0 sizeof_ElfHeader)) (\<lambda>bs.
       let hdr = parse_ElfHeader bs in
       kbind (load_segments cfg fs core io (ucast (phentsize hdr)) (unat (phnum hdr)) (phoff hdr)) (\<lambda>_.
         kreturn (elf_entry hdr)))"

subsection \<open>exec (sys.cc)\<close>

text \<open>What a system call does for its thread.\<close>

datatype sys_outcome = Returns u32 | Exits | Suspends | Enters u32 u32 | Shuts_down

definition elf_valid :: "ElfHeader \<Rightarrow> bool" where
  "elf_valid hdr \<longleftrightarrow> magic hdr = [0x7F, 0x45, 0x4C, 0x46] \<and> encoding hdr = 1 \<and> cls hdr = 1 \<and>
     abi hdr = 0 \<and> elf_version hdr = 1 \<and> elf_type hdr = 2 \<and> phoff hdr \<noteq> 0"

definition clear_private :: "config \<Rightarrow> nat \<Rightarrow> unit kcode" where
  "clear_private cfg core st =
     (let dir = pd (cur_proc core st) in
      kbind (klift (delete_private cfg dir dir (vm st))) (\<lambda>v st. kreturn () (st\<lparr>vm := v\<rparr>)) st)"

definition arg_size :: "u8 list \<Rightarrow> u32" where
  "arg_size a = (let n = of_nat (length a) + 1 in n + (4 - n mod 4) mod 4)"

definition exec_sp :: "u8 list list \<Rightarrow> u32" where
  "exec_sp args = 0xefffe000 - fold (\<lambda>a t. t + arg_size a) args (12 + 4 * of_nat (length args))"

text \<open>The stores of the loop over the arguments: \<open>ap\<close> is \<^verbatim>\<open>&argv_ptr[i]\<close>, \<open>av\<close> is \<^verbatim>\<open>argv_val\<close>.\<close>

fun arg_stores :: "(nat \<Rightarrow> u8 list) \<Rightarrow> nat \<Rightarrow> u32 \<Rightarrow> u32 \<Rightarrow> u8 list list \<Rightarrow> (u32 \<times> u8) list" where
  "arg_stores over i ap av [] = []"
| "arg_stores over i ap av (a # args) =
     word_stores ap av @
     byte_stores av (take (unat (arg_size a)) (a @ [0] @ over i)) @
     [(av + of_nat (length a), 0)] @
     arg_stores over (Suc i) (ap + 4) (av + arg_size a) args"

definition exec_stores :: "(nat \<Rightarrow> u8 list) \<Rightarrow> u8 list list \<Rightarrow> (u32 \<times> u8) list" where
  "exec_stores over args =
     (let sp = exec_sp args; argc = of_nat (length args); argv_ptr = sp + 8 in
      word_stores sp argc @
      word_stores (sp + 4) argv_ptr @
      arg_stores over 0 argv_ptr (sp + 8 + 4 * (argc + 1)) args @
      word_stores (argv_ptr + 4 * argc) 0)"

definition exec :: "config \<Rightarrow> ext2 \<Rightarrow> Node \<Rightarrow> (nat \<Rightarrow> u8 list) \<Rightarrow> nat \<Rightarrow> u8 list \<Rightarrow> u8 list list \<Rightarrow> sys_outcome kcode" where
  "exec cfg fs root over core path args st =
     obind (fs_find fs (Some root) (path @ [0])) (\<lambda>file.
       case file of
         None \<Rightarrow> kreturn (Returns (- 1)) st
       | Some nd \<Rightarrow>
           if \<not> is_file (node_data nd) then kreturn (Returns (- 1)) st
           else
             let io = node_io (fs_ide fs) nd in
             kbind (klift (read_object io 0 sizeof_ElfHeader)) (\<lambda>bs.
               if \<not> elf_valid (parse_ElfHeader bs) then kreturn (Returns (- 1))
               else
                 kbind (clear_private cfg core) (\<lambda>_.
                 kbind (elf_load cfg fs core io) (\<lambda>e.
                 kbind (kmmap cfg core (0xefffe000 - 4000000) 4000000 0xa 0x1 (- 1) 0) (\<lambda>_.
                 kbind (vstores fs core (exec_stores over args)) (\<lambda>_.
                   kreturn (Enters e (exec_sp args))))))) st)"

subsection \<open>The argument block\<close>

text \<open>The bytes of a string with its terminator at address \<open>a\<close>.\<close>

definition string_at :: "memory \<Rightarrow> u32 \<Rightarrow> u8 list \<Rightarrow> bool" where
  "string_at m a s \<longleftrightarrow> (\<forall>i < length s. m (a + of_nat i) = s ! i) \<and> m (a + of_nat (length s)) = 0"

fun args_at :: "memory \<Rightarrow> u32 \<Rightarrow> u32 \<Rightarrow> u8 list list \<Rightarrow> bool" where
  "args_at m ap av [] = True"
| "args_at m ap av (a # as) = (load32 m ap = av \<and> string_at m av a \<and> args_at m (ap + 4) (av + arg_size a) as)"

definition args_bytes :: "u8 list list \<Rightarrow> nat" where
  "args_bytes args = sum_list (map (\<lambda>a. unat (arg_size a)) args)"

lemma round_up_4: "4 dvd k + (4 - k mod 4) mod (4 :: nat)"
proof -
  have "k mod 4 = 0 \<or> k mod 4 = 1 \<or> k mod 4 = 2 \<or> k mod 4 = 3" using mod_less_divisor [of 4 k] by linarith
  then have "(k mod 4 + (4 - k mod 4) mod 4) mod 4 = 0" by (elim disjE) simp_all
  then show ?thesis by (simp only: mod_add_left_eq dvd_eq_mod_eq_0)
qed

lemma arg_size_bounds:
  assumes "length a < 4294967290"
  shows "length a < unat (arg_size a)" "unat (arg_size a) \<le> length a + 4" "4 dvd unat (arg_size a)"
proof -
  let ?n = "of_nat (length a) + 1 :: u32"
  have n: "unat ?n = length a + 1" using assms by (simp add: unat_add_no_wrap)
  have m: "unat (?n mod 4) = (length a + 1) mod 4" by (simp add: unat_mod_distrib n)
  have d: "unat (4 - ?n mod 4) = 4 - (length a + 1) mod 4"
    using m by (subst unat_sub) (simp_all add: word_le_nat_alt)
  have r: "unat ((4 - ?n mod 4) mod 4) = (4 - (length a + 1) mod 4) mod 4" by (simp add: unat_mod_distrib d)
  have "unat (?n + (4 - ?n mod 4) mod 4) = unat ?n + unat ((4 - ?n mod 4) mod 4)"
    by (rule unat_add_no_wrap) (use assms n r in simp)
  then have u: "unat (arg_size a) = length a + 1 + (4 - (length a + 1) mod 4) mod 4"
    using n r by (simp add: arg_size_def Let_def)
  show "length a < unat (arg_size a)" "unat (arg_size a) \<le> length a + 4" using u by simp_all
  show "4 dvd unat (arg_size a)" unfolding u by (rule round_up_4)
qed

lemma load32_window: "unat p + 4 \<le> 4294967296 \<Longrightarrow> (\<And>x. unat p \<le> unat x \<Longrightarrow> unat x < unat p + 4 \<Longrightarrow> m x = m' x) \<Longrightarrow> load32 m p = load32 m' p"
proof -
  assume p: "unat p + 4 \<le> 4294967296" and h: "\<And>x. unat p \<le> unat x \<Longrightarrow> unat x < unat p + 4 \<Longrightarrow> m x = m' x"
  have "m (p + k) = m' (p + k)" if "unat k < 4" for k
    using h [of "p + k"] that p by (simp add: unat_add_no_wrap)
  from this [of 0] this [of 1] this [of 2] this [of 3] show ?thesis by (simp add: load32_def)
qed

lemma string_window:
  assumes "unat p + length s < 4294967296" "\<And>x. unat p \<le> unat x \<Longrightarrow> unat x \<le> unat p + length s \<Longrightarrow> m x = m' x"
  shows "string_at m p s = string_at m' p s"
proof -
  have "m (p + of_nat i) = m' (p + of_nat i)" if "i \<le> length s" for i
    using assms(2) [of "p + of_nat i"] that assms(1) by (simp add: unat_add_no_wrap)
  then show ?thesis by (simp add: string_at_def)
qed

lemma write_bytes_outside:
  assumes "unat a + length bs \<le> 4294967296" "unat x < unat a \<or> unat a + length bs \<le> unat x"
  shows "write_bytes m a bs x = m x"
proof (rule write_bytes_other, intro allI impI)
  fix i assume "i < length bs"
  then have "unat (a + of_nat i) = unat a + i" using assms(1) by (simp add: unat_add_no_wrap)
  then show "x \<noteq> a + of_nat i" using assms(2) \<open>i < length bs\<close> by auto
qed

lemma write_bytes_inside:
  assumes "unat a + length bs \<le> 4294967296" "i < length bs"
  shows "write_bytes m a bs (a + of_nat i) = bs ! i"
proof -
  have e: "bs = take i bs @ bs ! i # drop (Suc i) bs" using assms(2) by (rule id_take_nth_drop)
  have u: "unat (a + of_nat i) = unat a + i" using assms by (simp add: unat_add_no_wrap)
  have "write_bytes (m'(a + of_nat i := bs ! i)) (a + of_nat i + 1) (drop (Suc i) bs) (a + of_nat i) = bs ! i" for m'
  proof (cases "drop (Suc i) bs = []")
    case False
    then have "unat (a + of_nat i + 1) = unat a + i + 1" using assms u by (simp add: unat_add_no_wrap)
    then show ?thesis using u assms by (subst write_bytes_outside) auto
  qed simp
  then show ?thesis using assms(2) by (subst e) (simp add: write_bytes_append)
qed

lemma store32_outside:
  assumes "unat a + 4 \<le> 4294967296" "unat x < unat a \<or> unat a + 4 \<le> unat x"
  shows "store32 m a v x = m x"
proof -
  have "x \<noteq> a + k" if "unat k < 4" for k using assms that unat_add_no_wrap [of a k] by auto
  from this [of 0] this [of 1] this [of 2] this [of 3] show ?thesis by (simp add: store32_def)
qed

text \<open>The loop writes the pointers to \<open>ap\<close> and the strings to \<open>av\<close>, and nothing else.\<close>

lemma arg_stores_effect:
  assumes "\<forall>a \<in> set args. length a < 4294967290" "unat ap + 4 * length args \<le> unat av" "unat av + args_bytes args < 4294967296"
  shows "args_at (apply_stores (arg_stores over i ap av args) m) ap av args \<and>
    (\<forall>x. unat x < unat ap \<or> unat ap + 4 * length args \<le> unat x \<and> unat x < unat av \<or> unat av + args_bytes args \<le> unat x \<longrightarrow>
       apply_stores (arg_stores over i ap av args) m x = m x)"
  using assms
proof (induction args arbitrary: i ap av m)
  case (Cons a args)
  have len: "length a < 4294967290" using Cons.prems(1) by simp
  note b = arg_size_bounds [OF len]
  let ?bs = "take (unat (arg_size a)) (a @ [0] @ over i)"
  let ?m1 = "(write_bytes (store32 m ap av) av ?bs)(av + of_nat (length a) := 0)"
  let ?m' = "apply_stores (arg_stores over (Suc i) (ap + 4) (av + arg_size a) args) ?m1"
  have tot: "args_bytes (a # args) = unat (arg_size a) + args_bytes args" by (simp add: args_bytes_def)
  have av: "unat (av + arg_size a) = unat av + unat (arg_size a)" using Cons.prems(3) tot by (simp add: unat_add_no_wrap)
  have ap: "unat (ap + 4) = unat ap + 4" using Cons.prems(2,3) tot by (simp add: unat_add_no_wrap)
  have l: "length ?bs \<le> unat (arg_size a)" "length a < length ?bs" using b(1) by simp_all
  have avl: "unat (av + of_nat (length a)) = unat av + length a" using Cons.prems(3) tot b(1) by (simp add: unat_add_no_wrap)
  have IH: "args_at ?m' (ap + 4) (av + arg_size a) args"
    "\<And>x. unat x < unat ap + 4 \<or> unat ap + 4 + 4 * length args \<le> unat x \<and> unat x < unat av + unat (arg_size a) \<or>
       unat av + unat (arg_size a) + args_bytes args \<le> unat x \<Longrightarrow> ?m' x = ?m1 x"
  proof -
    have "\<forall>a \<in> set args. length a < 4294967290" "unat (ap + 4) + 4 * length args \<le> unat (av + arg_size a)"
      "unat (av + arg_size a) + args_bytes args < 4294967296"
      using Cons.prems av ap tot by simp_all
    note ih = Cons.IH [OF this, of "Suc i" ?m1]
    show "args_at ?m' (ap + 4) (av + arg_size a) args" using ih by (rule conjunct1)
    show "?m' x = ?m1 x" if "unat x < unat ap + 4 \<or> unat ap + 4 + 4 * length args \<le> unat x \<and> unat x < unat av + unat (arg_size a) \<or>
       unat av + unat (arg_size a) + args_bytes args \<le> unat x" for x :: u32
      using ih [THEN conjunct2, THEN spec [of _ x], unfolded av ap] that by (rule mp)
  qed
  have out: "?m1 x = store32 m ap av x" if "unat x < unat av \<or> unat av + unat (arg_size a) \<le> unat x" for x
    using that avl b(1) l(1) Cons.prems(3) tot by (auto simp: write_bytes_outside)
  have "load32 ?m' ap = load32 (store32 m ap av) ap"
  proof (rule load32_window)
    fix x :: u32 assume x: "unat ap \<le> unat x" "unat x < unat ap + 4"
    then show "?m' x = store32 m ap av x" using IH(2) [of x] out [of x] Cons.prems(2) by simp
  qed (use Cons.prems(2,3) tot in simp)
  moreover have "string_at ?m' av a = string_at ?m1 av a"
    by (rule string_window) (use IH(2) Cons.prems(2,3) tot b(1) in auto)
  moreover have "string_at ?m1 av a"
  proof -
    have "write_bytes m0 av ?bs (av + of_nat j) = a ! j" if "j < length a" for m0 j
      using write_bytes_inside [of av ?bs j m0] that l Cons.prems(3) tot b(1) by (simp add: nth_append)
    moreover have "av + of_nat j \<noteq> av + of_nat (length a)" if "j < length a" for j
    proof -
      have "unat (av + of_nat j) = unat av + j" using that Cons.prems(3) tot b(1) by (simp add: unat_add_no_wrap)
      then show ?thesis using avl that by (metis nat_neq_iff add_left_cancel)
    qed
    ultimately show ?thesis by (simp add: string_at_def)
  qed
  moreover have "?m' x = m x" if "unat x < unat ap \<or> unat ap + 4 * length (a # args) \<le> unat x \<and> unat x < unat av \<or>
      unat av + args_bytes (a # args) \<le> unat x" for x
  proof -
    have "?m' x = ?m1 x" using that tot b(1) Cons.prems(2) by (intro IH(2)) auto
    also have "\<dots> = store32 m ap av x" using that tot Cons.prems(2) by (intro out) auto
    also have "\<dots> = m x" using that Cons.prems(2,3) tot by (intro store32_outside) auto
    finally show ?thesis .
  qed
  ultimately show ?case using IH(1) by simp
qed (simp add: args_bytes_def)

lemma args_window:
  assumes "\<forall>a \<in> set args. length a < 4294967290" "unat ap + 4 * length args \<le> unat av" "unat av + args_bytes args < 4294967296"
    and "\<And>x. unat ap \<le> unat x \<and> unat x < unat ap + 4 * length args \<or> unat av \<le> unat x \<and> unat x < unat av + args_bytes args \<Longrightarrow> m x = m' x"
  shows "args_at m ap av args = args_at m' ap av args"
  using assms
proof (induction args arbitrary: ap av)
  case (Cons a args)
  note b = arg_size_bounds [of a]
  have tot: "args_bytes (a # args) = unat (arg_size a) + args_bytes args" by (simp add: args_bytes_def)
  have len: "length a < unat (arg_size a)" using b(1) Cons.prems(1) by simp
  have av: "unat (av + arg_size a) = unat av + unat (arg_size a)" using Cons.prems(3) tot by (simp add: unat_add_no_wrap)
  have ap: "unat (ap + 4) = unat ap + 4" using Cons.prems(2,3) tot by (simp add: unat_add_no_wrap)
  have "load32 m ap = load32 m' ap"
    by (rule load32_window) (use Cons.prems tot in \<open>auto intro: Cons.prems(4)\<close>)
  moreover have "string_at m av a = string_at m' av a"
    by (rule string_window) (use Cons.prems(3) tot len in \<open>auto intro: Cons.prems(4)\<close>)
  moreover have "args_at m (ap + 4) (av + arg_size a) args = args_at m' (ap + 4) (av + arg_size a) args"
    by (rule Cons.IH) (use Cons.prems(1-3) av ap tot in \<open>auto intro: Cons.prems(4)\<close>)
  ultimately show ?case by simp
qed simp

lemma args_at_nth:
  "args_at m ap av args \<Longrightarrow> i < length args \<Longrightarrow> string_at m (load32 m (ap + 4 * of_nat i)) (args ! i)"
proof (induction args arbitrary: ap av i)
  case (Cons a args)
  show ?case
  proof (cases i)
    case (Suc j)
    then have "string_at m (load32 m (ap + 4 + 4 * of_nat j)) (args ! j)" using Cons.prems by (intro Cons.IH) auto
    then show ?thesis using Suc by (simp add: algebra_simps)
  qed (use Cons.prems in simp)
qed simp

lemma byte_stores_addrs: "x \<in> fst ` set (byte_stores a bs) \<Longrightarrow> \<exists>i < length bs. x = a + of_nat i"
proof (induction bs arbitrary: a)
  case (Cons b bs)
  show ?case
  proof (cases "x = a")
    case False
    then have "x \<in> fst ` set (byte_stores (a + 1) bs)" using Cons.prems by auto
    from Cons.IH [OF this] obtain i where "i < length bs" "x = a + 1 + of_nat i" by blast
    then show ?thesis by (intro exI [of _ "Suc i"]) (simp add: algebra_simps)
  qed (auto intro!: exI [of _ 0])
qed simp

lemma byte_stores_range:
  assumes "unat a + length bs \<le> 4294967296" "x \<in> fst ` set (byte_stores a bs)"
  shows "unat a \<le> unat x" "unat x < unat a + length bs"
proof -
  obtain i where "i < length bs" "x = a + of_nat i" using byte_stores_addrs [OF assms(2)] by blast
  moreover from this have "unat x = unat a + i" using assms(1) by (simp add: unat_add_no_wrap)
  ultimately show "unat a \<le> unat x" "unat x < unat a + length bs" by simp_all
qed

lemma word_stores_range:
  assumes "unat a + 4 \<le> 4294967296" "x \<in> fst ` set (word_stores a v)"
  shows "unat a \<le> unat x" "unat x < unat a + 4"
  using byte_stores_range [OF _ assms(2) [unfolded word_stores_def]] assms(1) by simp_all

lemma arg_stores_range:
  assumes "\<forall>a \<in> set args. length a < 4294967290" "unat ap + 4 * length args \<le> unat av" "unat av + args_bytes args < 4294967296"
    and "x \<in> fst ` set (arg_stores over i ap av args)"
  shows "unat ap \<le> unat x \<and> unat x < unat av + args_bytes args"
  using assms
proof (induction args arbitrary: i ap av)
  case (Cons a args)
  let ?bs = "take (unat (arg_size a)) (a @ [0] @ over i)"
  have tot: "args_bytes (a # args) = unat (arg_size a) + args_bytes args" by (simp add: args_bytes_def)
  have len: "length a < unat (arg_size a)" using arg_size_bounds(1) Cons.prems(1) by simp
  have av: "unat (av + arg_size a) = unat av + unat (arg_size a)" using Cons.prems(3) tot by (simp add: unat_add_no_wrap)
  have ap: "unat (ap + 4) = unat ap + 4" using Cons.prems(2,3) tot by (simp add: unat_add_no_wrap)
  have avl: "unat (av + of_nat (length a)) = unat av + length a" using Cons.prems(3) tot len by (simp add: unat_add_no_wrap)
  have lb: "length ?bs \<le> unat (arg_size a)" by simp
  consider "x \<in> fst ` set (word_stores ap av)" | "x \<in> fst ` set (byte_stores av ?bs)" | "x = av + of_nat (length a)"
    | "x \<in> fst ` set (arg_stores over (Suc i) (ap + 4) (av + arg_size a) args)"
    using Cons.prems(4) by (auto simp: image_Un)
  then show ?case
  proof cases
    case 1
    then show ?thesis using word_stores_range [of ap x av] Cons.prems(2,3) tot by auto
  next
    case 2
    then show ?thesis using byte_stores_range [of av ?bs x] Cons.prems(2,3) tot lb by auto
  next
    case 3
    then show ?thesis using avl len tot Cons.prems(2) by simp
  next
    case 4
    have "unat (ap + 4) \<le> unat x \<and> unat x < unat (av + arg_size a) + args_bytes args"
      by (rule Cons.IH [OF _ _ _ 4]) (use Cons.prems av ap tot in auto)
    then show ?thesis using av ap tot by simp
  qed
qed simp

lemma exec_sp_unat:
  assumes "12 + 4 * length args + args_bytes args \<le> 4000000"
  shows "unat (exec_sp args) = 0xefffe000 - (12 + 4 * length args + args_bytes args)"
proof -
  have f: "unat (fold (\<lambda>a t. t + arg_size a) args t) = unat t + args_bytes args" if "unat t + args_bytes args \<le> 4000000" for t
    using that
  proof (induction args arbitrary: t)
    case (Cons a args)
    have tot: "args_bytes (a # args) = unat (arg_size a) + args_bytes args" by (simp add: args_bytes_def)
    have "unat (t + arg_size a) = unat t + unat (arg_size a)" using Cons.prems tot by (simp add: unat_add_no_wrap)
    then show ?case using Cons.IH [of "t + arg_size a"] Cons.prems tot by simp
  qed (simp add: args_bytes_def)
  have t: "unat (12 + 4 * of_nat (length args) :: u32) = 12 + 4 * length args"
    using assms by (simp add: unat_word_ariths)
  then have "unat (fold (\<lambda>a t. t + arg_size a) args (12 + 4 * of_nat (length args))) = 12 + 4 * length args + args_bytes args"
    using f [of "12 + 4 * of_nat (length args)"] assms by simp
  then show ?thesis unfolding exec_sp_def using assms by (subst unat_sub) (simp_all add: word_le_nat_alt)
qed

text \<open>A sufficient condition for the arguments to fit: their texts with eight bytes each.\<close>

definition args_fit :: "u8 list list \<Rightarrow> bool" where
  "args_fit args \<longleftrightarrow> 12 + sum_list (map (\<lambda>a. length a + 8) args) \<le> 4000000"

lemma args_fit_bound:
  assumes "args_fit args"
  shows "12 + 4 * length args + args_bytes args \<le> 4000000" "\<forall>a \<in> set args. length a < 4294967290"
proof -
  have "length a + 8 \<le> sum_list (map (\<lambda>a. length a + 8) args)" if "a \<in> set args" for a
    using that by (intro member_le_sum_list) auto
  then show l: "\<forall>a \<in> set args. length a < 4294967290" using assms by (fastforce simp: args_fit_def)
  have "4 * length as + args_bytes as \<le> sum_list (map (\<lambda>a. length a + 8) as)" if "\<forall>a \<in> set as. length a < 4294967290" for as
    using that
  proof (induction as)
    case (Cons a as)
    have "unat (arg_size a) \<le> length a + 4" using Cons.prems by (intro arg_size_bounds) simp
    then show ?case using Cons by (simp add: args_bytes_def)
  qed (simp add: args_bytes_def)
  from this [OF l] show "12 + 4 * length args + args_bytes args \<le> 4000000" using assms by (simp add: args_fit_def)
qed

definition stack_range :: "u8 list list \<Rightarrow> u32 set" where
  "stack_range args = {a. exec_sp args \<le> a \<and> a < 0xefffe000}"

lemma exec_layout:
  assumes fit: "args_fit args"
  defines "sp \<equiv> exec_sp args" and "n \<equiv> length args" and "B \<equiv> args_bytes args"
  defines "av \<equiv> sp + 8 + 4 * (of_nat n + 1)"
  shows "unat sp + 12 + 4 * n + B = 0xefffe000" "unat (sp + 4) = unat sp + 4" "unat (sp + 8) = unat sp + 8" "unat av = unat sp + 12 + 4 * n"
    "unat (sp + 8 + 4 * of_nat n) = unat sp + 8 + 4 * n" "fst ` set (exec_stores over args) \<subseteq> stack_range args"
    "let m' = apply_stores (exec_stores over args) m in load32 m' sp = of_nat n \<and> load32 m' (sp + 4) = sp + 8 \<and>
       args_at m' (sp + 8) av args \<and> load32 m' (sp + 8 + 4 * of_nat n) = 0"
proof -
  note b = args_fit_bound [OF fit, folded n_def B_def]
  show s: "unat sp + 12 + 4 * n + B = 0xefffe000" using exec_sp_unat [OF args_fit_bound(1) [OF fit]] b by (simp add: sp_def n_def B_def)
  have n4: "unat (4 * of_nat n :: u32) = 4 * n" "unat (4 * (of_nat n + 1) :: u32) = 4 * n + 4"
    using b(1) by (simp_all add: unat_word_ariths)
  show s4: "unat (sp + 4) = unat sp + 4" and s8: "unat (sp + 8) = unat sp + 8" using s by (simp_all add: unat_add_no_wrap)
  show sav: "unat av = unat sp + 12 + 4 * n" using s s8 n4(2) unfolding av_def by (subst unat_add_no_wrap) simp_all
  show send: "unat (sp + 8 + 4 * of_nat n) = unat sp + 8 + 4 * n" using s s8 n4(1) by (subst unat_add_no_wrap) simp_all
  have pre: "\<forall>a \<in> set args. length a < 4294967290" "unat (sp + 8) + 4 * length args \<le> unat av" "unat av + args_bytes args < 4294967296"
    using b(2) s s8 sav by (simp_all add: n_def B_def)
  have ex: "exec_stores over args = word_stores sp (of_nat n) @ word_stores (sp + 4) (sp + 8) @
      arg_stores over 0 (sp + 8) av args @ word_stores (sp + 8 + 4 * of_nat n) 0"
    by (simp add: exec_stores_def sp_def n_def av_def Let_def)
  show "fst ` set (exec_stores over args) \<subseteq> stack_range args"
  proof
    fix x assume "x \<in> fst ` set (exec_stores over args)"
    then consider "x \<in> fst ` set (word_stores sp (of_nat n))" | "x \<in> fst ` set (word_stores (sp + 4) (sp + 8))"
      | "x \<in> fst ` set (arg_stores over 0 (sp + 8) av args)" | "x \<in> fst ` set (word_stores (sp + 8 + 4 * of_nat n) 0)"
      unfolding ex by (auto simp: image_Un)
    then have "unat sp \<le> unat x \<and> unat x < 0xefffe000"
    proof cases
      case 1
      then show ?thesis using word_stores_range [OF _ 1] s by auto
    next
      case 2
      then show ?thesis using word_stores_range [OF _ 2] s s4 by auto
    next
      case 3
      then show ?thesis using arg_stores_range [OF pre 3] s s8 sav by (auto simp: B_def)
    next
      case 4
      then show ?thesis using word_stores_range [OF _ 4] s send by auto
    qed
    then show "x \<in> stack_range args" by (simp add: stack_range_def sp_def word_le_nat_alt word_less_nat_alt)
  qed
  let ?m2 = "store32 (store32 m sp (of_nat n)) (sp + 4) (sp + 8)"
  let ?m3 = "apply_stores (arg_stores over 0 (sp + 8) av args) ?m2"
  let ?m' = "store32 ?m3 (sp + 8 + 4 * of_nat n) 0"
  note ef = arg_stores_effect [OF pre, of over 0 ?m2]
  have out: "?m3 x = ?m2 x" if "unat x < unat (sp + 8)" for x using ef that by blast
  have top: "?m' x = ?m3 x" if "unat x < unat (sp + 8 + 4 * of_nat n) \<or> unat av \<le> unat x" for x
    by (rule store32_outside) (use that s send sav in auto)
  have "load32 ?m' sp = load32 (store32 m sp (of_nat n)) sp"
  proof (rule load32_window)
    fix x :: u32 assume "unat sp \<le> unat x" "unat x < unat sp + 4"
    then show "?m' x = store32 m sp (of_nat n) x" using top [of x] out [of x] s s4 s8 send by (simp add: store32_outside)
  qed (use s in simp)
  moreover have "load32 ?m' (sp + 4) = load32 ?m2 (sp + 4)"
  proof (rule load32_window)
    fix x :: u32 assume "unat (sp + 4) \<le> unat x" "unat x < unat (sp + 4) + 4"
    then show "?m' x = ?m2 x" using top [of x] out [of x] s s4 s8 send by simp
  qed (use s s4 in simp)
  moreover have "args_at ?m' (sp + 8) av args = args_at ?m3 (sp + 8) av args"
    by (rule args_window [OF pre]) (use top s8 send sav in \<open>auto simp: n_def\<close>)
  ultimately show "let m' = apply_stores (exec_stores over args) m in load32 m' sp = of_nat n \<and> load32 m' (sp + 4) = sp + 8 \<and>
       args_at m' (sp + 8) av args \<and> load32 m' (sp + 8 + 4 * of_nat n) = 0"
    using ef by (simp add: ex Let_def)
qed

text \<open>
  \<^bold>\<open>C39.\<close> The arguments of a new program (\<^verbatim>\<open>SYS::exec\<close>, with demand paging). When the arguments fit into
  the stack and there are frames for its pages that were not touched yet, all stores succeed, through
  page faults where needed. Afterwards the process sees, from the new stack pointer on, the number of
  arguments, a pointer to the array of argument pointers behind it, for every argument a pointer to its
  text with a terminating zero, and a null pointer as the end of the array; the block ends exactly
  at the top of the stack.
\<close>

theorem exec_argument_block:
  assumes fit: "args_fit args" and ok: "space_ok lo hi core (stack_range args) F st"
  shows "\<exists>s F'. vstores fs core (exec_stores over args) st = Some (Inr (set_phys s st, Ok ())) \<and>
    space_ok lo hi core (stack_range args) F' (set_phys s st) \<and>
    (let m = uview core (set_phys s st); sp = exec_sp args in
     load32 m sp = of_nat (length args) \<and> load32 m (sp + 4) = sp + 8 \<and>
     (\<forall>i < length args. string_at m (load32 m (sp + 8 + 4 * of_nat i)) (args ! i)) \<and>
     load32 m (sp + 8 + 4 * of_nat (length args)) = 0 \<and>
     unat sp + 12 + 4 * length args + args_bytes args = 0xefffe000)"
proof -
  let ?sp = "exec_sp args" and ?n = "length args"
  let ?av = "?sp + 8 + 4 * (of_nat ?n + 1)"
  note l = exec_layout [OF fit]
  obtain s F' where v: "vstores fs core (exec_stores over args) st = Some (Inr (set_phys s st, Ok ()))"
    "space_ok lo hi core (stack_range args) F' (set_phys s st)"
    "\<forall>a \<in> stack_range args. uview core (set_phys s st) a = apply_stores (exec_stores over args) (uview core st) a"
    using vstores_ok [OF ok l(6) [of over]] by blast
  let ?m = "uview core (set_phys s st)" and ?m' = "apply_stores (exec_stores over args) (uview core st)"
  have eq: "?m x = ?m' x" if "unat ?sp \<le> unat x" "unat x < 0xefffe000" for x
    using v(3) that by (simp add: stack_range_def word_le_nat_alt word_less_nat_alt)
  note flat = l(7) [of over "uview core st", unfolded Let_def]
  have w: "load32 ?m p = load32 ?m' p" if "unat ?sp \<le> unat p" "unat p + 4 \<le> 0xefffe000" for p
    by (rule load32_window) (use that eq in auto)
  have "load32 ?m ?sp = of_nat ?n" "load32 ?m (?sp + 4) = ?sp + 8" "load32 ?m (?sp + 8 + 4 * of_nat ?n) = 0"
    using w [of ?sp] w [of "?sp + 4"] w [of "?sp + 8 + 4 * of_nat ?n"] flat l(1-5) by simp_all
  moreover have "args_at ?m (?sp + 8) ?av args = args_at ?m' (?sp + 8) ?av args"
    by (rule args_window) (use args_fit_bound(2) [OF fit] l(1-5) eq in auto)
  then have "string_at ?m (load32 ?m (?sp + 8 + 4 * of_nat i)) (args ! i)" if "i < ?n" for i
    using args_at_nth [of ?m "?sp + 8" ?av args i] that flat by simp
  ultimately have "let m = ?m; sp = ?sp in load32 m sp = of_nat ?n \<and> load32 m (sp + 4) = sp + 8 \<and>
     (\<forall>i < ?n. string_at m (load32 m (sp + 8 + 4 * of_nat i)) (args ! i)) \<and> load32 m (sp + 8 + 4 * of_nat ?n) = 0 \<and>
     unat sp + 12 + 4 * ?n + args_bytes args = 0xefffe000"
    using l(1) by (simp add: Let_def)
  then show ?thesis using v(1,2) by blast
qed

text \<open>A process with an empty private half and the stack mapping that \<^verbatim>\<open>exec\<close> makes, and one argument.\<close>

definition stack_process :: process where
  "stack_process = boot_process\<lparr>entry_list := [\<lparr>vm_file = None, vm_size = 4001792, starting_address = 0xefffe000 - 4000000,
     vm_offset = 0, vm_flags = 1, vm_prot = 0xa, vm_node = Uninit\<rparr>]\<rparr>"

definition stack_kernel :: kernel where
  "stack_kernel = \<lparr>sch = first_boot\<lparr>activeThreads := [32], procs := [stack_process]\<rparr>,
     vm = \<lparr>phys = sample_space, tlb = (\<lambda>_. None)\<rparr>, console = [], keyboard = []\<rparr>"

definition no_disk :: ext2 where
  "no_disk = \<lparr>fs_ide = \<lparr>block_size = 512, size_in_bytes = 0, read_block = (\<lambda>_. Inr [])\<rparr>, blockSize = 1024, numberOfNodes = 0,
     numberOfBlocks = 0, iNodeSize = 128, nGroups = 0, iNodeTables = [], iNodesPerGroup = 1\<rparr>"

definition init_args :: "u8 list list" where
  "init_args = [[105, 110, 105, 116]]"

lemma init_args_facts: "args_fit init_args" "exec_sp init_args = 0xefffdfe8"
  by (simp_all add: init_args_def args_fit_def exec_sp_def arg_size_def)

definition stack_page :: "u32 set" where
  "stack_page = {a. 0xefffd000 \<le> a \<and> a < 0xefffe000}"

lemma stack_page_page: "a \<in> stack_page \<Longrightarrow> framedown a = 0xefffd000 \<and> 0x80000000 \<le> a \<and> ppn a = ppn 0xefffd000"
proof -
  assume "a \<in> stack_page"
  then have r: "(4026519552 :: nat) \<le> unat a" "unat a < 4026523648"
    by (simp_all add: stack_page_def word_le_nat_alt word_less_nat_alt)
  then have "unat a div 4096 = 983037" by (simp add: div_nat_eqI)
  then have "unat (framedown a) = 4026519552" by (simp add: unat_framedown minus_mod_eq_mult_div)
  then have f: "framedown a = 0xefffd000" by (simp add: word_unat_eq_iff)
  have "framedown 0xefffd000 = 0xefffd000" by (simp add: framedown_def FRAME_SIZE_eq offset_def)
  then show ?thesis using f r by (simp add: ppn_eq_framedown word_le_nat_alt)
qed

lemma fresh_stack_ok:
  assumes "cur_index 0 st < length (procs (sch st))" "pd (cur_proc 0 st) = 0x100000" "phys (vm st) = sample_space"
    "entry_list (cur_proc 0 st) = entry_list stack_process"
  shows "space_ok 0x100000 0x200000 0 stack_page (frame_pool 0x101000 0x200000) st"
proof -
  have w: "walk (mem sample_space) 0x100000 x = None" for x
    using empty_directory(3) [of "mem sample_space" "0x100000"] by (simp add: sample_space_def sample_phys_def zero_frame_def offset_def)
  have "missing 0 stack_page st \<subseteq> {ppn 0xefffd000}" using stack_page_page by (auto simp: missing_def)
  from card_mono [OF _ this] have c: "card (missing 0 stack_page st) \<le> 1" by simp
  show ?thesis
  proof (rule space_okI, unfold assms)
    show "cur_index 0 st < length (procs (sch st))" by fact
    show "2 * card (missing 0 stack_page st) \<le> card (frame_pool 0x101000 0x200000)" using c sample_frames by linarith
    show "pd_inv 0x100000 0x200000 sample_space 0x100000 (frame_pool 0x101000 0x200000)" by (rule sample_space_pd(1))
    fix a assume a: "a \<in> stack_page"
    show "0x80000000 \<le> a" using stack_page_page [OF a] by simp
    have "vm_covers 0xefffd000 (hd (entry_list stack_process))" by (simp add: stack_process_def vm_covers_def vm_end_def)
    then show "anon_at (entry_list stack_process) a"
      unfolding anon_at_def stack_page_page [OF a, THEN conjunct1] by (intro exI [of _ "[]"]) (simp add: stack_process_def)
  qed (simp_all add: w)
qed

lemma stack_kernel_ok: "space_ok 0x100000 0x200000 0 (stack_range init_args) (frame_pool 0x101000 0x200000) stack_kernel"
proof (rule space_ok_subset)
  show "space_ok 0x100000 0x200000 0 stack_page (frame_pool 0x101000 0x200000) stack_kernel"
    by (rule fresh_stack_ok)
      (simp_all add: cur_index_def cur_proc_def current_def stack_kernel_def first_boot_def boot_state_def idle_state_def Let_def
        tcb_new_def stack_process_def boot_process_def process_new_def)
  show "stack_range init_args \<subseteq> stack_page" by (auto simp: stack_range_def stack_page_def init_args_facts word_le_nat_alt)
qed

theorem exec_argument_block_witness:
  "\<exists>s. vstores no_disk 0 (exec_stores (\<lambda>_. [1, 2, 3]) init_args) stack_kernel = Some (Inr (set_phys s stack_kernel, Ok ())) \<and>
     load32 (uview 0 (set_phys s stack_kernel)) 0xefffdfe8 = 1 \<and>
     string_at (uview 0 (set_phys s stack_kernel)) (load32 (uview 0 (set_phys s stack_kernel)) 0xefffdff0) [105, 110, 105, 116]"
proof -
  obtain s F' where "vstores no_disk 0 (exec_stores (\<lambda>_. [1, 2, 3]) init_args) stack_kernel = Some (Inr (set_phys s stack_kernel, Ok ()))"
    "load32 (uview 0 (set_phys s stack_kernel)) (exec_sp init_args) = of_nat (length init_args)"
    "\<forall>i < length init_args. string_at (uview 0 (set_phys s stack_kernel))
       (load32 (uview 0 (set_phys s stack_kernel)) (exec_sp init_args + 8 + 4 * of_nat i)) (init_args ! i)"
    using exec_argument_block [OF init_args_facts(1) stack_kernel_ok, of no_disk "\<lambda>_. [1, 2, 3]"] by (auto simp: Let_def)
  then show ?thesis unfolding init_args_facts(2) by (intro exI [of _ s]) (simp add: init_args_def)
qed

end
