(* ===== verification/Syscalls.thy ===== *)
theory Syscalls
  imports Exec
begin

text \<open>
  The system-call handler of \<^verbatim>\<open>kernel/sys.cc\<close>, with the methods of \<^verbatim>\<open>FileDescriptor\<close> (sys.cc) and
  \<^verbatim>\<open>U8250File\<close> (u8250.h). Arguments are read from the user's stack; \<open>userEsp\<close> and \<open>userPC\<close> are what the
  trap frame holds. A handler that waits suspends its thread; what it does when the thread runs again
  is a definition of its own.
\<close>

subsection \<open>Files (sys.cc, u8250.h)\<close>

text \<open>\<^verbatim>\<open>U8250::get\<close> polls until a byte arrives: without one it does not return.\<close>

definition uart_get :: "u8 kcode" where
  "uart_get st = (case keyboard st of [] \<Rightarrow> None | c # cs \<Rightarrow> kreturn c (st\<lparr>keyboard := cs\<rparr>))"

definition uart_put :: "u8 \<Rightarrow> unit kcode" where
  "uart_put c st = kreturn () (st\<lparr>console := console st @ [c]\<rparr>)"

definition set_file :: "nat \<Rightarrow> kfile \<Rightarrow> kernel \<Rightarrow> kernel" where
  "set_file f x st = set_kobj ((kobj (sch st))\<lparr>file_objs := (file_objs (kobj (sch st)))[f := x]\<rparr>) st"

fun file_size :: "ext2 \<Rightarrow> kfile \<Rightarrow> u32 result" where
  "file_size fs U8250File = Inr 0x7FFFFFFF"
| "file_size fs (FileDescriptor n off) = rbind (get_node fs n) (\<lambda>nd. Inr (size_low (node_data nd)))"

definition file_seek :: "nat \<Rightarrow> u32 \<Rightarrow> u32 kcode" where
  "file_seek f off st =
     (case file_objs (kobj (sch st)) ! f of
        U8250File \<Rightarrow> kreturn off st
      | FileDescriptor n _ \<Rightarrow> kreturn off (set_file f (FileDescriptor n off) st))"

definition file_read :: "ext2 \<Rightarrow> nat \<Rightarrow> nat \<Rightarrow> u32 \<Rightarrow> u32 \<Rightarrow> u32 kcode" where
  "file_read fs core f buf n st =
     (case file_objs (kobj (sch st)) ! f of
        U8250File \<Rightarrow>
          if n = 0 then kreturn 0 st
          else kbind uart_get (\<lambda>c. kbind (vwrite8 fs core buf c) (\<lambda>_. kreturn 1)) st
      | FileDescriptor number off \<Rightarrow>
          kbind (klift (ext2_reader fs number off n)) (\<lambda>(cnt, bs).
          kbind (vstores fs core (byte_stores buf bs)) (\<lambda>_ st.
            let rd = (of_int cnt :: u32) in
            kreturn rd (if rd > 0 then set_file f (FileDescriptor number (off + rd)) st else st))) st)"

definition file_write :: "ext2 \<Rightarrow> nat \<Rightarrow> nat \<Rightarrow> u32 \<Rightarrow> u32 \<Rightarrow> u32 kcode" where
  "file_write fs core f buf n st =
     (case file_objs (kobj (sch st)) ! f of
        U8250File \<Rightarrow>
          if n = 0 then kreturn 0 st
          else kbind (vread8 fs core buf) (\<lambda>c. kbind (uart_put c) (\<lambda>_. kreturn 1)) st
      | FileDescriptor number off \<Rightarrow> kreturn (- 1) st)"

subsection \<open>The handlers (sys.cc)\<close>

definition bad_pointer :: "config \<Rightarrow> u32 \<Rightarrow> bool" where
  "bad_pointer cfg p \<longleftrightarrow> p < 0x80000000 \<or> p = ioAPIC cfg \<or> p = localAPIC cfg"

definition user_arg :: "ext2 \<Rightarrow> nat \<Rightarrow> u32 \<Rightarrow> u32 \<Rightarrow> u32 kcode" where
  "user_arg fs core userEsp i = vread32 fs core (userEsp + 4 * i)"

text \<open>Call 0: the process ends with a status.\<close>

definition sys_exit :: "nat \<Rightarrow> u32 \<Rightarrow> sys_outcome kcode" where
  "sys_exit core status st =
     (let p = cur_proc core st in
      kbind (klift (decrementFiles (kobj (sch st)) p)) (\<lambda>k st.
      kbind (klift (proc_exit k p status)) (\<lambda>(k, t) st. end_thread core t (set_kobj k st)) st) st)"

definition with_file :: "nat \<Rightarrow> u32 \<Rightarrow> (nat \<Rightarrow> u32 kcode) \<Rightarrow> sys_outcome kcode" where
  "with_file core fd f st =
     (case getFile (cur_proc core st) fd of
        None \<Rightarrow> kreturn (Returns (- 1)) st
      | Some i \<Rightarrow> kbind (f i) (\<lambda>r. kreturn (Returns r)) st)"

text \<open>Call 2: the child's thread is allocated at \<open>t\<close> with a kernel stack that ends at \<open>esp\<close>.\<close>

definition sys_fork :: "config \<Rightarrow> u32 \<Rightarrow> ptr \<Rightarrow> u32 \<Rightarrow> nat \<Rightarrow> sys_outcome kcode" where
  "sys_fork cfg shared t esp core st =
     kbind (klift (fork cfg shared (phys (vm st)) (kobj (sch st)) (cur_proc core st))) (\<lambda>(s, k, p, child, i) st.
       let st = set_proc core p (set_kobj k (set_phys s st)) in
       (case child of
          None \<Rightarrow> Some (Inl (Undefined_Behaviour ''process of a null child''))
        | Some c \<Rightarrow>
            let sc = (sch st)\<lparr>procs := procs (sch st) @ [c]\<rparr> in
            obind (thread_new t (length (procs (sch st))) esp sc) (\<lambda>sc. kreturn (Returns i) (st\<lparr>sch := sc\<rparr>)))) st"

definition with_semaphore :: "nat \<Rightarrow> u32 \<Rightarrow> (nat \<Rightarrow> sys_outcome kcode) \<Rightarrow> sys_outcome kcode" where
  "with_semaphore core i f st =
     (case getSemaphore (cur_proc core st) i of None \<Rightarrow> kreturn (Returns (- 1)) st | Some s \<Rightarrow> f s st)"

definition sys_up :: "nat \<Rightarrow> sys_outcome kcode" where
  "sys_up i st = obind (sem_signal i (sch st)) (\<lambda>sc. kreturn (Returns 0) (st\<lparr>sch := sc\<rparr>))"

definition sys_down :: "nat \<Rightarrow> nat \<Rightarrow> sys_outcome kcode" where
  "sys_down core i st =
     obind (sem_wait core True i (sch st)) (\<lambda>(sc, r).
       kreturn (if r = Returned then Returns 0 else Suspends) (st\<lparr>sch := sc\<rparr>))"

definition wait_status :: "ext2 \<Rightarrow> nat \<Rightarrow> u32 \<Rightarrow> u32 \<Rightarrow> u32 \<Rightarrow> sys_outcome kcode" where
  "wait_status fs core i status v st =
     kbind (vstores fs core (word_stores status v)) (\<lambda>_ st.
       let (p, r, _) = proc_wait (\<lambda>_. v) (cur_proc core st) i in
       kreturn (Returns r) (set_proc core p st)) st"

definition sys_wait :: "ext2 \<Rightarrow> nat \<Rightarrow> u32 \<Rightarrow> u32 \<Rightarrow> sys_outcome kcode" where
  "sys_wait fs core i status st =
     (case getChildIndex i of
        None \<Rightarrow> kreturn (Returns (- 1)) st
      | Some idx \<Rightarrow>
        (case children (cur_proc core st) ! idx of
           None \<Rightarrow> kreturn (Returns (- 1)) st
         | Some c \<Rightarrow>
             let f = future_objs (kobj (sch st)) ! c in
             if isReady f then wait_status fs core i status (fvalue f) st
             else obind (future_wait core c (sch st)) (\<lambda>(sc, _). kreturn Suspends (st\<lparr>sch := sc\<rparr>))))"

text \<open>The rest of \<^verbatim>\<open>wait\<close> when the thread runs again: it passes the signal on and stores the value.\<close>

definition wait_resumed :: "ext2 \<Rightarrow> nat \<Rightarrow> u32 \<Rightarrow> u32 \<Rightarrow> nat \<Rightarrow> sys_outcome kcode" where
  "wait_resumed fs core i status c st =
     (let k = kobj (sch st); (g, t) = sem_up (go (future_objs k ! c));
          st = set_kobj (k\<lparr>future_objs := (future_objs k)[c := (future_objs k ! c)\<lparr>go := g\<rparr>]\<rparr>) st
      in obind (case t of None \<Rightarrow> Some (Inr (sch st)) | Some t \<Rightarrow> schedule (sch st) t) (\<lambda>sc.
           wait_status fs core i status (fvalue (future_objs k ! c)) (st\<lparr>sch := sc\<rparr>)))"

text \<open>Call 9: the arguments up to a null pointer.\<close>

partial_function (option) exec_args :: "ext2 \<Rightarrow> nat \<Rightarrow> u32 \<Rightarrow> u32 \<Rightarrow> u32 list \<Rightarrow> u32 list kcode" where
  "exec_args fs core userEsp i acc st =
     (case user_arg fs core userEsp i st of
        None \<Rightarrow> None
      | Some (Inl e) \<Rightarrow> Some (Inl e)
      | Some (Inr (st, Ended)) \<Rightarrow> Some (Inr (st, Ended))
      | Some (Inr (st, Ok a)) \<Rightarrow> if a = 0 then Some (Inr (st, Ok acc)) else exec_args fs core userEsp (i + 1) (acc @ [a]) st)"

primrec user_strings :: "ext2 \<Rightarrow> nat \<Rightarrow> u32 list \<Rightarrow> u8 list list kcode" where
  "user_strings fs core [] = kreturn []"
| "user_strings fs core (a # as) =
     kbind (vstring fs core a []) (\<lambda>s. kbind (user_strings fs core as) (\<lambda>ss. kreturn (s # ss)))"

definition sys_execl :: "config \<Rightarrow> ext2 \<Rightarrow> Node \<Rightarrow> (nat \<Rightarrow> u8 list) \<Rightarrow> nat \<Rightarrow> u32 \<Rightarrow> sys_outcome kcode" where
  "sys_execl cfg fs root over core userEsp =
     kbind (user_arg fs core userEsp 1) (\<lambda>a.
       if a = 0 then kreturn (Returns (- 1))
       else
         kbind (vstring fs core a []) (\<lambda>path.
         kbind (exec_args fs core userEsp 2 []) (\<lambda>as.
         kbind (user_strings fs core as) (\<lambda>args. exec cfg fs root over core path args))))"

text \<open>Call 10: symbolic links are followed from the root; a chain of links need not end.\<close>

partial_function (option) follow_links :: "ext2 \<Rightarrow> Node \<Rightarrow> Node \<Rightarrow> Node result option" where
  "follow_links fs root nd =
     (if is_symlink (node_data nd) then
        (case get_symbol (fs_ide fs) nd of
           Inl e \<Rightarrow> Some (Inl e)
         | Inr symbol \<Rightarrow>
             (case fs_find fs (Some root) (symbol @ [0]) of
                None \<Rightarrow> None
              | Some (Inl e) \<Rightarrow> Some (Inl e)
              | Some (Inr None) \<Rightarrow> Some (Inl (Undefined_Behaviour ''is_symlink of a null node''))
              | Some (Inr (Some nd)) \<Rightarrow> follow_links fs root nd))
      else Some (Inr nd))"

definition sys_open :: "ext2 \<Rightarrow> Node \<Rightarrow> nat \<Rightarrow> u32 \<Rightarrow> sys_outcome kcode" where
  "sys_open fs root core filename =
     (if filename = 0 \<or> filename < 0x80000000 then kreturn (Returns (- 1))
      else
        kbind (vstring fs core filename []) (\<lambda>path st.
          obind (fs_find fs (Some root) (path @ [0])) (\<lambda>node.
            case node of
              None \<Rightarrow> kreturn (Returns (- 1)) st
            | Some nd \<Rightarrow>
                obind (follow_links fs root nd) (\<lambda>nd.
                  let k = kobj (sch st); f = length (file_objs k);
                      st = set_kobj (k\<lparr>file_objs := file_objs k @ [FileDescriptor (node_number nd) 0]\<rparr>) st;
                      (p, r) = setFile (cur_proc core st) f
                  in kreturn (Returns r) (set_proc core p st)))))"

text \<open>
  What the handler depends on besides the kernel's state: the configuration, the mounted file system
  with its root directory, the shared page directory, the bytes behind the kernel's copies of exec
  arguments, and the memory the allocator gives a new thread.
\<close>

record sys_env =
  env_config :: config
  env_fs :: ext2
  env_root :: Node
  env_shared :: u32
  env_over :: "nat \<Rightarrow> u8 list"
  env_tcb :: ptr
  env_esp :: u32

definition sys_pure :: "(kobjects \<Rightarrow> process \<Rightarrow> kobjects \<times> process \<times> u32) \<Rightarrow> nat \<Rightarrow> sys_outcome kcode" where
  "sys_pure f core st =
     (let (k, p, r) = f (kobj (sch st)) (cur_proc core st) in kreturn (Returns r) (set_proc core p (set_kobj k st)))"

definition sys_munmap :: "config \<Rightarrow> nat \<Rightarrow> u32 \<Rightarrow> u32 \<Rightarrow> sys_outcome kcode" where
  "sys_munmap cfg core addr len st =
     obind (munmap cfg (vm st) (kobj (sch st)) (cur_proc core st) addr len) (\<lambda>(v, k, p, r).
       kreturn (Returns r) (set_proc core p (set_kobj k (st\<lparr>vm := v\<rparr>))))"

text \<open>Calls 13 and 14.\<close>

definition sys_seek :: "ext2 \<Rightarrow> nat \<Rightarrow> u32 \<Rightarrow> sys_outcome kcode" where
  "sys_seek fs core userEsp =
     (let arg = user_arg fs core userEsp in
      kbind (arg 1) (\<lambda>fd.
        if fd = 1 then kreturn (Returns (- 1))
        else kbind (arg 2) (\<lambda>off. with_file core fd (\<lambda>f. file_seek f off))))"

definition sys_mmap :: "config \<Rightarrow> ext2 \<Rightarrow> nat \<Rightarrow> u32 \<Rightarrow> sys_outcome kcode" where
  "sys_mmap cfg fs core userEsp =
     (let arg = user_arg fs core userEsp in
      kbind (arg 1) (\<lambda>addr. kbind (arg 2) (\<lambda>len. kbind (arg 3) (\<lambda>prot. kbind (arg 4) (\<lambda>flags.
      kbind (arg 5) (\<lambda>fd. kbind (arg 6) (\<lambda>off.
        kbind (kmmap cfg core addr len prot flags fd off) (\<lambda>va. kreturn (Returns va)))))))))"

definition sysHandler :: "sys_env \<Rightarrow> nat \<Rightarrow> u32 \<Rightarrow> u32 \<Rightarrow> sys_outcome kcode" where
  "sysHandler E core eax userEsp =
     (let cfg = env_config E; fs = env_fs E; arg = user_arg fs core userEsp in
      if eax = 0 then kbind (arg 1) (sys_exit core)
      else if eax = 1 then
        kbind (arg 1) (\<lambda>fd. kbind (arg 2) (\<lambda>buf.
          if bad_pointer cfg buf then kreturn (Returns (- 1))
          else kbind (arg 3) (\<lambda>n. with_file core fd (\<lambda>f. file_write fs core f buf n))))
      else if eax = 2 then sys_fork cfg (env_shared E) (env_tcb E) (env_esp E) core
      else if eax = 3 then kbind (arg 1) (\<lambda>init. sys_pure (\<lambda>k p. newSemaphore k p init) core)
      else if eax = 4 then kbind (arg 1) (\<lambda>i. with_semaphore core i sys_up)
      else if eax = 5 then kbind (arg 1) (\<lambda>i. with_semaphore core i (sys_down core))
      else if eax = 6 then kbind (arg 1) (\<lambda>i. sys_pure (\<lambda>k p. (k, close p i)) core)
      else if eax = 7 then kreturn Shuts_down
      else if eax = 8 then
        kbind (arg 1) (\<lambda>i. kbind (arg 2) (\<lambda>status.
          if bad_pointer cfg status then kreturn (Returns (- 1)) else sys_wait fs core i status))
      else if eax = 9 then sys_execl cfg fs (env_root E) (env_over E) core userEsp
      else if eax = 10 then kbind (arg 1) (sys_open fs (env_root E) core)
      else if eax = 11 then
        kbind (arg 1) (\<lambda>fd. with_file core fd (\<lambda>f st. klift (file_size fs (file_objs (kobj (sch st)) ! f)) st))
      else if eax = 12 then
        kbind (arg 1) (\<lambda>fd.
          if fd = 1 then kreturn (Returns (- 1))
          else kbind (arg 2) (\<lambda>buf.
            if bad_pointer cfg buf then kreturn (Returns (- 1))
            else kbind (arg 3) (\<lambda>n. with_file core fd (\<lambda>f. file_read fs core f buf n))))
      else if eax = 13 then sys_seek fs core userEsp
      else if eax = 14 then sys_mmap cfg fs core userEsp
      else if eax = 15 then kbind (arg 1) (\<lambda>addr. kbind (arg 2) (sys_munmap cfg core addr))
      else if eax = 16 then kbind (arg 1) (\<lambda>i. sys_pure (\<lambda>k p. kill k p i) core)
      else kreturn (Returns (- 1)))"

subsection \<open>Arguments and files\<close>

text \<open>Reading a word of usable user memory.\<close>

lemma vread32_ok:
  assumes ok: "space_ok lo hi core A F st" and a: "{a, a + 1, a + 2, a + 3} \<subseteq> A"
  obtains s F' where "vread32 fs core a st = Some (Inr (set_phys s st, Ok (load32 (uview core st) a)))"
    "space_ok lo hi core A F' (set_phys s st)" "\<And>b. b \<in> A \<Longrightarrow> uview core (set_phys s st) b = uview core st b"
proof -
  obtain s0 F0 where r0: "vread8 fs core a st = Some (Inr (set_phys s0 st, Ok (uview core st a)))" "space_ok lo hi core A F0 (set_phys s0 st)"
    "\<And>b. b \<in> A \<Longrightarrow> uview core (set_phys s0 st) b = uview core st b"
    using a by (rule_tac vread8_ok [OF ok, of a fs]) auto
  obtain s1 F1 where r1: "vread8 fs core (a + 1) (set_phys s0 st) = Some (Inr (set_phys s1 st, Ok (uview core st (a + 1))))"
    "space_ok lo hi core A F1 (set_phys s1 st)" "\<And>b. b \<in> A \<Longrightarrow> uview core (set_phys s1 st) b = uview core st b"
    using a r0(3) by (rule_tac vread8_ok [OF r0(2), of "a + 1" fs]) auto
  obtain s2 F2 where r2: "vread8 fs core (a + 2) (set_phys s1 st) = Some (Inr (set_phys s2 st, Ok (uview core st (a + 2))))"
    "space_ok lo hi core A F2 (set_phys s2 st)" "\<And>b. b \<in> A \<Longrightarrow> uview core (set_phys s2 st) b = uview core st b"
    using a r1(3) by (rule_tac vread8_ok [OF r1(2), of "a + 2" fs]) auto
  obtain s3 F3 where r3: "vread8 fs core (a + 3) (set_phys s2 st) = Some (Inr (set_phys s3 st, Ok (uview core st (a + 3))))"
    "space_ok lo hi core A F3 (set_phys s3 st)" "\<And>b. b \<in> A \<Longrightarrow> uview core (set_phys s3 st) b = uview core st b"
    using a r2(3) by (rule_tac vread8_ok [OF r2(2), of "a + 3" fs]) auto
  have "vread32 fs core a st = Some (Inr (set_phys s3 st, Ok (load32 (uview core st) a)))"
    using r0(1) r1(1) r2(1) r3(1) by (simp add: vread32_def kreturn_def load32_def)
  then show thesis using that r3(2,3) by blast
qed

lemma set_kobj_simps [simp]:
  "vm (set_kobj k st) = vm st" "kobj (sch (set_kobj k st)) = k" "cur_proc core (set_kobj k st) = cur_proc core st"
  "cur_index core (set_kobj k st) = cur_index core st" "uview core (set_kobj k st) = uview core st"
  by (simp_all add: set_kobj_def cur_proc_def cur_index_def current_def uview_def translate_def fun_eq_iff split: option.splits)

lemma space_ok_set_kobj: "space_ok lo hi core A F (set_kobj k st) = space_ok lo hi core A F st"
proof -
  have "procs (sch (set_kobj k st)) = procs (sch st)" by (simp add: set_kobj_def)
  then show ?thesis by (simp add: space_ok_def missing_def Let_def)
qed

lemma set_kobj_console: "console (set_kobj k st) = console st"
  by (simp add: set_kobj_def)

text \<open>Reading from a file through a descriptor.\<close>

lemma file_read_ok:
  assumes ok: "space_ok lo hi core A F st" and f: "file_objs (kobj (sch st)) ! f = FileDescriptor number off" "f < length (file_objs (kobj (sch st)))"
    and fs: "get_node fs number = Inr nd" "holds_content (fs_ide fs) D" "node_wf D nd" and off: "unat off \<le> length (node_content D nd)"
    and buf: "unat buf + unat n \<le> 4294967296" "\<And>a. buf \<le> a \<Longrightarrow> unat a < unat buf + unat n \<Longrightarrow> a \<in> A"
  defines "bs \<equiv> take (unat n) (drop (unat off) (node_content D nd))"
  shows "\<exists>st'. file_read fs core f buf n st = Some (Inr (st', Ok (of_nat (length bs)))) \<and>
    (\<forall>a \<in> A. uview core st' a = write_bytes (uview core st) buf bs a) \<and> cur_proc core st' = cur_proc core st \<and>
    file_objs (kobj (sch st')) = (file_objs (kobj (sch st)))[f := FileDescriptor number (off + of_nat (length bs))] \<and>
    console st' = console st \<and> (\<exists>F'. space_ok lo hi core A F' st')"
proof -
  have lb: "length bs = min (unat n) (length (node_content D nd) - unat off)" "length bs \<le> unat n" by (simp_all add: bs_def)
  have rd: "ext2_reader fs number off n = Inr (int (length bs), bs)"
    using read_all_content [OF node_holds [OF fs(2,3)], of off n] off by (simp add: ext2_reader_def fs(1) bs_def min.commute)
  have "fst ` set (byte_stores buf bs) \<subseteq> A"
  proof
    fix x assume x: "x \<in> fst ` set (byte_stores buf bs)"
    note r = byte_stores_range [OF _ x]
    show "x \<in> A" by (rule buf(2)) (use r buf(1) lb(2) in \<open>auto simp: word_le_nat_alt\<close>)
  qed
  then obtain s F' where v: "vstores fs core (byte_stores buf bs) st = Some (Inr (set_phys s st, Ok ()))"
    "\<forall>a \<in> A. uview core (set_phys s st) a = write_bytes (uview core st) buf bs a" "space_ok lo hi core A F' (set_phys s st)"
    using vstores_ok [OF ok] by fastforce
  let ?st = "if (of_nat (length bs) :: u32) > 0 then set_file f (FileDescriptor number (off + of_nat (length bs))) (set_phys s st) else set_phys s st"
  have "file_read fs core f buf n st = Some (Inr (?st, Ok (of_nat (length bs))))"
    using f(1) rd v(1) by (simp add: file_read_def klift_def kbind_def kreturn_def Let_def)
  moreover have "uview core ?st = uview core (set_phys s st)" "cur_proc core ?st = cur_proc core st" by (simp_all add: set_file_def)
  moreover have "file_objs (kobj (sch ?st)) = (file_objs (kobj (sch st)))[f := FileDescriptor number (off + of_nat (length bs))]"
    using f list_update_id [of "file_objs (kobj (sch st))" f] by (auto simp: set_file_def word_gt_0)
  moreover have "console ?st = console st" "space_ok lo hi core A F' ?st" using v(3) by (simp_all add: set_file_def set_kobj_console space_ok_set_kobj)
  ultimately show ?thesis using v(2) by metis
qed

text \<open>A write to the console takes the first byte of the buffer.\<close>

lemma file_write_console:
  assumes ok: "space_ok lo hi core A F st" and f: "file_objs (kobj (sch st)) ! f = U8250File" and n: "n \<noteq> 0" and buf: "buf \<in> A"
  obtains s F' where "file_write fs core f buf n st =
      Some (Inr ((set_phys s st)\<lparr>console := console st @ [uview core st buf]\<rparr>, Ok 1))" "space_ok lo hi core A F' (set_phys s st)"
    "\<And>b. b \<in> A \<Longrightarrow> uview core (set_phys s st) b = uview core st b"
proof -
  obtain s F' where "vread8 fs core buf st = Some (Inr (set_phys s st, Ok (uview core st buf)))" "space_ok lo hi core A F' (set_phys s st)"
    "\<And>b. b \<in> A \<Longrightarrow> uview core (set_phys s st) b = uview core st b"
    by (rule vread8_ok [OF ok buf]) blast
  then show thesis using that f n by (simp add: file_write_def uart_put_def kreturn_def)
qed

lemma user_arg_ok:
  assumes "space_ok lo hi core A F st" "\<And>j. j < 4 \<Longrightarrow> userEsp + 4 * i + j \<in> A"
  obtains s F' where "user_arg fs core userEsp i st = Some (Inr (set_phys s st, Ok (load32 (uview core st) (userEsp + 4 * i))))"
    "space_ok lo hi core A F' (set_phys s st)" "\<And>b. b \<in> A \<Longrightarrow> uview core (set_phys s st) b = uview core st b"
    "\<And>p. {p, p + 1, p + 2, p + 3} \<subseteq> A \<Longrightarrow> load32 (uview core (set_phys s st)) p = load32 (uview core st) p"
proof -
  have "{userEsp + 4 * i, userEsp + 4 * i + 1, userEsp + 4 * i + 2, userEsp + 4 * i + 3} \<subseteq> A"
    using assms(2) [of 0] assms(2) [of 1] assms(2) [of 2] assms(2) [of 3] by simp
  then obtain s F' where r: "vread32 fs core (userEsp + 4 * i) st = Some (Inr (set_phys s st, Ok (load32 (uview core st) (userEsp + 4 * i))))"
    "space_ok lo hi core A F' (set_phys s st)" "\<And>b. b \<in> A \<Longrightarrow> uview core (set_phys s st) b = uview core st b"
    by (rule vread32_ok [OF assms(1)]) blast
  moreover have "load32 (uview core (set_phys s st)) p = load32 (uview core st) p" if "{p, p + 1, p + 2, p + 3} \<subseteq> A" for p
    using that r(3) by (simp add: load32_def)
  ultimately show thesis using that unfolding user_arg_def by blast
qed

text \<open>The three arguments of \<^verbatim>\<open>read\<close> and \<^verbatim>\<open>write\<close>.\<close>

lemma three_args:
  assumes ok: "space_ok lo hi core A F st"
    and args: "\<And>i j. 1 \<le> i \<Longrightarrow> i \<le> 3 \<Longrightarrow> j < 4 \<Longrightarrow> esp + 4 * i + j \<in> A"
      "load32 (uview core st) (esp + 4) = fd" "load32 (uview core st) (esp + 8) = buf" "load32 (uview core st) (esp + 12) = n"
  obtains s1 s2 s3 F' where "user_arg fs core esp 1 st = Some (Inr (set_phys s1 st, Ok fd))"
    "user_arg fs core esp 2 (set_phys s1 st) = Some (Inr (set_phys s2 st, Ok buf))"
    "user_arg fs core esp 3 (set_phys s2 st) = Some (Inr (set_phys s3 st, Ok n))"
    "space_ok lo hi core A F' (set_phys s3 st)" "\<forall>b \<in> A. uview core (set_phys s3 st) b = uview core st b"
proof -
  have sub: "{esp + 4 * i, esp + 4 * i + 1, esp + 4 * i + 2, esp + 4 * i + 3} \<subseteq> A" if "1 \<le> i" "i \<le> 3" for i
    using args(1) [of i 0] args(1) [of i 1] args(1) [of i 2] args(1) [of i 3] that by simp
  have i3: "(1 :: u32) \<le> 2" "(1 :: u32) \<le> 3" "(2 :: u32) \<le> 3" "(1 :: u32) \<le> 1" "(3 :: u32) \<le> 3" by simp_all
  obtain s1 F1 where a1: "user_arg fs core esp 1 st = Some (Inr (set_phys s1 st, Ok fd))" "space_ok lo hi core A F1 (set_phys s1 st)"
    "\<And>b. b \<in> A \<Longrightarrow> uview core (set_phys s1 st) b = uview core st b"
    "\<And>p. {p, p + 1, p + 2, p + 3} \<subseteq> A \<Longrightarrow> load32 (uview core (set_phys s1 st)) p = load32 (uview core st) p"
    using args(1) [OF i3(4,2)] args(2) by (rule_tac user_arg_ok [OF ok, of esp 1 fs]) auto
  have l2: "load32 (uview core (set_phys s1 st)) (esp + 4 * 2) = buf" using a1(4) [OF sub [OF i3(1,3)]] args(3) by simp
  obtain s2 F2 where a2: "user_arg fs core esp 2 (set_phys s1 st) = Some (Inr (set_phys s2 st, Ok buf))" "space_ok lo hi core A F2 (set_phys s2 st)"
    "\<And>b. b \<in> A \<Longrightarrow> uview core (set_phys s2 st) b = uview core (set_phys s1 st) b"
    "\<And>p. {p, p + 1, p + 2, p + 3} \<subseteq> A \<Longrightarrow> load32 (uview core (set_phys s2 st)) p = load32 (uview core (set_phys s1 st)) p"
    using args(1) [OF i3(1,3)] l2 by (rule_tac user_arg_ok [OF a1(2), of esp 2 fs]) auto
  have l3: "load32 (uview core (set_phys s2 st)) (esp + 4 * 3) = n"
    using a2(4) [OF sub [OF i3(2,5)]] a1(4) [OF sub [OF i3(2,5)]] args(4) by simp
  obtain s3 F3 where a3: "user_arg fs core esp 3 (set_phys s2 st) = Some (Inr (set_phys s3 st, Ok n))" "space_ok lo hi core A F3 (set_phys s3 st)"
    "\<And>b. b \<in> A \<Longrightarrow> uview core (set_phys s3 st) b = uview core (set_phys s2 st) b"
    using args(1) [OF i3(2,5)] l3 by (rule_tac user_arg_ok [OF a2(2), of esp 3 fs]) auto
  show thesis using that [OF a1(1) a2(1) a3(1,2)] a1(3) a2(3) a3(3) by simp
qed

subsection \<open>Properties\<close>

text \<open>
  \<^bold>\<open>C40.\<close> The system call \<^verbatim>\<open>read\<close> (\<^verbatim>\<open>sysHandler\<close>, case 12, through the process's tables, page tables and the
  file system). With the descriptor, buffer and count on the user's stack, a descriptor of a file of
  the disk \<open>D\<close> positioned inside the file and a buffer in usable user memory, the call returns the number
  of bytes up to the count or the end of the file; the buffer then holds exactly those bytes of the
  file, every other byte of the memory the process uses is unchanged, and the position has
  advanced by that number.
\<close>

theorem sys_read_file:
  assumes ok: "space_ok lo hi core A F st"
    and args: "\<And>i j. 1 \<le> i \<Longrightarrow> i \<le> 3 \<Longrightarrow> j < 4 \<Longrightarrow> esp + 4 * i + j \<in> A"
      "load32 (uview core st) (esp + 4) = fd" "load32 (uview core st) (esp + 8) = buf" "load32 (uview core st) (esp + 12) = n"
    and fd: "fd \<noteq> 1" "\<not> bad_pointer (env_config E) buf" "getFile (cur_proc core st) fd = Some f"
      "file_objs (kobj (sch st)) ! f = FileDescriptor number off" "f < length (file_objs (kobj (sch st)))"
    and fs: "get_node (env_fs E) number = Inr nd" "holds_content (fs_ide (env_fs E)) D" "node_wf D nd" "unat off \<le> length (node_content D nd)"
    and buf: "unat buf + unat n \<le> 4294967296" "\<And>a. buf \<le> a \<Longrightarrow> unat a < unat buf + unat n \<Longrightarrow> a \<in> A"
  shows "\<exists>st' k. sysHandler E core 12 esp st = Some (Inr (st', Ok (Returns (of_nat k)))) \<and>
    k = min (unat n) (length (node_content D nd) - unat off) \<and>
    (\<forall>i < k. uview core st' (buf + of_nat i) = node_content D nd ! (unat off + i)) \<and>
    (\<forall>a \<in> A. a < buf \<or> unat buf + k \<le> unat a \<longrightarrow> uview core st' a = uview core st a) \<and>
    file_objs (kobj (sch st')) ! f = FileDescriptor number (off + of_nat k)"
proof -
  let ?bs = "take (unat n) (drop (unat off) (node_content D nd))"
  let ?fs = "env_fs E"
  obtain s1 s2 s3 F3 where a: "user_arg ?fs core esp 1 st = Some (Inr (set_phys s1 st, Ok fd))"
    "user_arg ?fs core esp 2 (set_phys s1 st) = Some (Inr (set_phys s2 st, Ok buf))"
    "user_arg ?fs core esp 3 (set_phys s2 st) = Some (Inr (set_phys s3 st, Ok n))"
    "space_ok lo hi core A F3 (set_phys s3 st)" "\<forall>b \<in> A. uview core (set_phys s3 st) b = uview core st b"
    by (rule three_args [OF ok args, where fs = ?fs]) blast
  obtain st' where r: "file_read ?fs core f buf n (set_phys s3 st) = Some (Inr (st', Ok (of_nat (length ?bs))))"
    "\<forall>a \<in> A. uview core st' a = write_bytes (uview core (set_phys s3 st)) buf ?bs a"
    "file_objs (kobj (sch st')) = (file_objs (kobj (sch st)))[f := FileDescriptor number (off + of_nat (length ?bs))]"
    using file_read_ok [OF a(4) _ _ fs(1-4) buf, of f] fd(4,5) by auto
  have run: "sysHandler E core 12 esp st = Some (Inr (st', Ok (Returns (of_nat (length ?bs)))))"
    using a(1-3) fd(1-3) r(1) by (simp add: sysHandler_def Let_def with_file_def kreturn_def)
  have lb: "length ?bs \<le> unat n" "unat buf + length ?bs \<le> 4294967296" using buf(1) by simp_all
  have bytes: "uview core st' (buf + of_nat i) = node_content D nd ! (unat off + i)" if "i < length ?bs" for i
  proof -
    have "i < unat n" using that by simp
    then have "unat (buf + of_nat i) = unat buf + i" using buf(1) unat_lt_2p32 [of n] by (simp add: unat_add_no_wrap)
    then have "buf + of_nat i \<in> A" using that lb by (intro buf(2)) (simp_all add: word_le_nat_alt)
    then show ?thesis using r(2) write_bytes_inside [OF lb(2) that] that fs(4) by simp
  qed
  have same: "uview core st' a = uview core st a" if "a \<in> A" "a < buf \<or> unat buf + length ?bs \<le> unat a" for a
    using r(2) that(1) a(5) write_bytes_outside [OF lb(2), of a] that(2) by (simp add: word_less_nat_alt)
  have k: "length ?bs = min (unat n) (length (node_content D nd) - unat off)" by (simp add: min.commute)
  show ?thesis
    by (rule exI [of _ st'], rule exI [of _ "length ?bs"]) (use run k bytes same r(3) fd(5) in auto)
qed

text \<open>A process with the open files \<open>fl\<close>, which refer to the kernel objects \<open>objs\<close>.\<close>

definition files_kernel :: "nat option list \<Rightarrow> kfile list \<Rightarrow> kernel" where
  "files_kernel fl objs = set_proc 0 (stack_process\<lparr>files := fl\<rparr>) (set_kobj (boot_objects\<lparr>file_objs := objs\<rparr>) stack_kernel)"

text \<open>
  A process whose descriptor 0 is a file of the disk and whose stack holds the arguments 0, \<open>0xefffd000\<close>
  and 8 of a \<^verbatim>\<open>read\<close>.
\<close>

definition read_kernel :: kernel where
  "read_kernel = files_kernel (Some 0 # replicate 9 None) [FileDescriptor 1 4]"

definition read_args :: "(u32 \<times> u8) list" where
  "read_args = word_stores 0xefffdff4 0 @ word_stores 0xefffdff8 0xefffd000 @ word_stores 0xefffdffc 8"

definition read_env :: sys_env where
  "read_env = \<lparr>env_config = sample_config, env_fs = self_fs, env_root = self_node, env_shared = 0x3000, env_over = (\<lambda>_. []),
     env_tcb = 64, env_esp = 0x9000\<rparr>"

lemma files_kernel_facts:
  "cur_index 0 (files_kernel fl objs) = 0" "length (procs (sch (files_kernel fl objs))) = 1" "pd (cur_proc 0 (files_kernel fl objs)) = 0x100000"
  "entry_list (cur_proc 0 (files_kernel fl objs)) = entry_list stack_process" "phys (vm (files_kernel fl objs)) = sample_space"
  "files (cur_proc 0 (files_kernel fl objs)) = fl" "file_objs (kobj (sch (files_kernel fl objs))) = objs"
proof -
  let ?k = "files_kernel fl objs"
  have k: "cur_index 0 stack_kernel = 0" "procs (sch stack_kernel) = [stack_process]" "vm stack_kernel = \<lparr>phys = sample_space, tlb = (\<lambda>_. None)\<rparr>"
    by (simp_all add: cur_index_def current_def stack_kernel_def first_boot_def boot_state_def idle_state_def Let_def tcb_new_def)
  have d: "pd stack_process = 0x100000" by (simp add: stack_process_def boot_process_def process_new_def Let_def)
  have i: "cur_index 0 (set_proc c p st) = cur_index 0 st" for c p st by (simp add: cur_index_def set_proc_def current_def)
  then show "cur_index 0 ?k = 0" by (simp add: files_kernel_def k)
  then have c: "cur_proc 0 ?k = stack_process\<lparr>files := fl\<rparr>"
    using k by (simp add: cur_proc_def files_kernel_def set_proc_def i) (simp add: set_kobj_def)
  show "length (procs (sch ?k)) = 1" "pd (cur_proc 0 ?k) = 0x100000"
    "entry_list (cur_proc 0 ?k) = entry_list stack_process" "phys (vm ?k) = sample_space"
    "files (cur_proc 0 ?k) = fl" "file_objs (kobj (sch ?k)) = objs"
    using k d unfolding c by (simp_all add: files_kernel_def set_proc_def) (simp_all add: set_kobj_def)
qed

lemmas read_kernel_facts = files_kernel_facts [of "Some 0 # replicate 9 None" "[FileDescriptor 1 4]", folded read_kernel_def]

theorem sys_read_file_witness:
  "\<exists>s st'. vstores self_fs 0 read_args read_kernel = Some (Inr (set_phys s read_kernel, Ok ())) \<and>
     sysHandler read_env 0 12 0xefffdff0 (set_phys s read_kernel) = Some (Inr (st', Ok (Returns 8))) \<and>
     uview 0 st' 0xefffd000 = self_bytes ! 4 \<and> file_objs (kobj (sch st')) ! 0 = FileDescriptor 1 12"
proof -
  note k = read_kernel_facts
  have ok: "space_ok 0x100000 0x200000 0 stack_page (frame_pool 0x101000 0x200000) read_kernel"
    by (rule fresh_stack_ok) (simp_all add: k)
  have "fst ` set read_args \<subseteq> stack_page" by (simp add: read_args_def word_stores_def stack_page_def)
  then obtain s F' where v: "vstores self_fs 0 read_args read_kernel = Some (Inr (set_phys s read_kernel, Ok ()))"
    "space_ok 0x100000 0x200000 0 stack_page F' (set_phys s read_kernel)"
    "\<forall>a \<in> stack_page. uview 0 (set_phys s read_kernel) a = apply_stores read_args (uview 0 read_kernel) a"
    using vstores_ok [OF ok] by blast
  let ?st = "set_phys s read_kernel"
  have fa: "load32 (apply_stores read_args m) 0xefffdff4 = 0" "load32 (apply_stores read_args m) 0xefffdff8 = 0xefffd000"
    "load32 (apply_stores read_args m) 0xefffdffc = 8" for m
    by (simp_all add: read_args_def word_stores_def load32_def)
  have at: "load32 (uview 0 ?st) p = load32 (apply_stores read_args (uview 0 read_kernel)) p" if "{p, p + 1, p + 2, p + 3} \<subseteq> stack_page" for p
    using that v(3) by (simp add: load32_def)
  have l: "load32 (uview 0 ?st) (0xefffdff0 + 4) = 0" "load32 (uview 0 ?st) (0xefffdff0 + 8) = 0xefffd000" "load32 (uview 0 ?st) (0xefffdff0 + 12) = 8"
    using at [of "0xefffdff4"] at [of "0xefffdff8"] at [of "0xefffdffc"] fa by (simp_all add: stack_page_def)
  have h: "holds_content (fs_ide self_fs) (block5_bytes self_bytes)"
    unfolding self_fs_def using block5_holds(1) [of self_bytes] by (simp add: self_bytes_facts)
  have addr: "0xefffdff0 + 4 * i + j \<in> stack_page" if "1 \<le> i" "i \<le> 3" "j < 4" for i j :: u32
  proof -
    have u: "1 \<le> unat i" "unat i \<le> 3" "unat j < 4" using that by (simp_all add: word_le_nat_alt word_less_nat_alt)
    then have "unat (0xefffdff0 + 4 * i + j) = 4026523632 + 4 * unat i + unat j" by (simp add: unat_word_ariths)
    then show ?thesis using u by (simp add: stack_page_def word_le_nat_alt word_less_nat_alt)
  qed
  have pb: "\<not> bad_pointer (env_config read_env) 0xefffd000" by (simp add: bad_pointer_def read_env_def sample_config_def)
  have gf: "getFile (cur_proc 0 ?st) 0 = Some 0" "file_objs (kobj (sch ?st)) ! 0 = FileDescriptor 1 4" "0 < length (file_objs (kobj (sch ?st)))"
    using k by (simp_all add: getFile_slot)
  have e: "get_node (env_fs read_env) 1 = Inr self_node" "holds_content (fs_ide (env_fs read_env)) (block5_bytes self_bytes)"
    using self_get_node h by (simp_all add: read_env_def)
  have c: "node_content (block5_bytes self_bytes) self_node = self_bytes" by (rule block5_any(2) [OF self_node_wf])
  have o: "unat (4 :: u32) \<le> length (node_content (block5_bytes self_bytes) self_node)" unfolding c by (simp add: self_bytes_facts)
  have b: "a \<in> stack_page" if "0xefffd000 \<le> a" "unat a < unat (0xefffd000 :: u32) + unat (8 :: u32)" for a
    using that by (simp add: stack_page_def word_less_nat_alt)
  obtain st' where r: "sysHandler read_env 0 12 0xefffdff0 ?st = Some (Inr (st', Ok (Returns 8)))"
    "\<forall>i < 8. uview 0 st' (0xefffd000 + of_nat i) = self_bytes ! (4 + i)" "file_objs (kobj (sch st')) ! 0 = FileDescriptor 1 12"
    using sys_read_file [OF v(2) addr l _ pb gf e block5_any(1) [OF self_node_wf] o _ b] unfolding c by (auto simp: self_bytes_facts)
  have "uview 0 st' 0xefffd000 = self_bytes ! 4" using r(2) [THEN spec [of _ 0]] by simp
  then show ?thesis using v(1) r(1,3) by blast
qed

text \<open>
  Two defects. Reading at a position beyond the end of a file returns -1, and the position moves back by
  one, because the count is kept in an unsigned variable.
\<close>

lemma read_past_end_moves_back:
  assumes f: "file_objs (kobj (sch st)) ! f = FileDescriptor number off" "f < length (file_objs (kobj (sch st)))" "0 < n"
    and fs: "get_node fs number = Inr nd" "holds_content (fs_ide fs) D" "node_wf D nd" and off: "length (node_content D nd) < unat off"
  shows "\<exists>st'. file_read fs core f buf n st = Some (Inr (st', Ok (- 1))) \<and> uview core st' = uview core st \<and>
    file_objs (kobj (sch st')) ! f = FileDescriptor number (off - 1)"
proof -
  have "ext2_reader fs number off n = Inr (- 1, [])"
    using read_all_content [OF node_holds [OF fs(2,3)], of off n] off f(3) by (simp add: ext2_reader_def fs(1))
  then have "file_read fs core f buf n st = Some (Inr (set_file f (FileDescriptor number (off - 1)) st, Ok (- 1)))"
    using f(1) by (simp add: file_read_def klift_def kbind_def kreturn_def Let_def word_gt_0)
  then show ?thesis using f(2) by (simp add: set_file_def)
qed

text \<open>Forking with a full table of children reads the page directory of a null process.\<close>

lemma fork_full_undefined:
  assumes "None \<notin> set (children (cur_proc core st))"
  shows "sysHandler E core 2 userEsp st = Some (Inl (Undefined_Behaviour ''process of a null child''))"
  using fork_full [OF assms] by (simp add: sysHandler_def Let_def sys_fork_def kbind_def)

text \<open>Pointers below the user half and the APIC addresses are refused before the file is looked at.\<close>

lemma write_refuses_kernel_pointer:
  assumes ok: "space_ok lo hi core A F st" and args: "\<And>i j. 1 \<le> i \<Longrightarrow> i \<le> 2 \<Longrightarrow> j < 4 \<Longrightarrow> esp + 4 * i + j \<in> A"
    and bad: "bad_pointer (env_config E) (load32 (uview core st) (esp + 8))"
  shows "\<exists>s. sysHandler E core 1 esp st = Some (Inr (set_phys s st, Ok (Returns (- 1)))) \<and>
    (\<forall>a \<in> A. uview core (set_phys s st) a = uview core st a)"
proof -
  let ?fs = "env_fs E"
  have i: "(1 :: u32) \<le> 1" "(1 :: u32) \<le> 2" "(2 :: u32) \<le> 2" by simp_all
  obtain s1 F1 where a1: "user_arg ?fs core esp 1 st = Some (Inr (set_phys s1 st, Ok (load32 (uview core st) (esp + 4 * 1))))"
    "space_ok lo hi core A F1 (set_phys s1 st)" "\<And>b. b \<in> A \<Longrightarrow> uview core (set_phys s1 st) b = uview core st b"
    "\<And>p. {p, p + 1, p + 2, p + 3} \<subseteq> A \<Longrightarrow> load32 (uview core (set_phys s1 st)) p = load32 (uview core st) p"
    using args [OF i(1,2)] by (rule_tac user_arg_ok [OF ok, of esp 1 ?fs]) auto
  have "load32 (uview core (set_phys s1 st)) (esp + 4 * 2) = load32 (uview core st) (esp + 8)"
    using a1(4) [of "esp + 4 * 2"] args [OF i(2,3), of 0] args [OF i(2,3), of 1] args [OF i(2,3), of 2] args [OF i(2,3), of 3] by simp
  then obtain s2 F2 where a2: "user_arg ?fs core esp 2 (set_phys s1 st) = Some (Inr (set_phys s2 st, Ok (load32 (uview core st) (esp + 8))))"
    "\<And>b. b \<in> A \<Longrightarrow> uview core (set_phys s2 st) b = uview core (set_phys s1 st) b"
    using args [OF i(2,3)] by (rule_tac user_arg_ok [OF a1(2), of esp 2 ?fs]) auto
  have "sysHandler E core 1 esp st = Some (Inr (set_phys s2 st, Ok (Returns (- 1))))"
    using a1(1) a2(1) bad by (simp add: sysHandler_def Let_def kreturn_def)
  then show ?thesis using a1(3) a2(2) by (intro exI [of _ s2]) simp
qed

end
