(* ===== verification/Locks.thy ===== *)
theory Locks
  imports Kernel_Prelude
begin

text \<open>
  \<^verbatim>\<open>kernel/atomic.h\<close>: the atomic cells, the interrupt flag and the three spinning locks. The methods of
  a lock are split where another processor, an interrupt or a context switch can come between: one
  step is one atomic access or one change of the interrupt flag. Threads run on processors; a thread
  can be taken off its processor at every step at which its interrupts are enabled, and between its
  uses of the lock.
\<close>

subsection \<open>Atomic cells (Atomic<T>)\<close>

text \<open>Each operation gives the new value of the cell and the value returned.\<close>

definition fetch_add :: "'a::len word \<Rightarrow> 'a word \<Rightarrow> 'a word \<times> 'a word" where
  "fetch_add v inc = (v + inc, v)"

definition add_fetch :: "'a::len word \<Rightarrow> 'a word \<Rightarrow> 'a word \<times> 'a word" where
  "add_fetch v inc = (v + inc, v + inc)"

definition exchange :: "'a \<Rightarrow> 'a \<Rightarrow> 'a \<times> 'a" where
  "exchange v x = (x, v)"

subsection \<open>The interrupt flag (Interrupts)\<close>

text \<open>The argument is the processor's flags register, bit 9 of which enables interrupts.\<close>

definition cli :: "u32 \<Rightarrow> u32" where
  "cli flags = flags AND NOT 0x200"

definition sti :: "u32 \<Rightarrow> u32" where
  "sti flags = flags OR 0x200"

definition isDisabled :: "u32 \<Rightarrow> bool" where
  "isDisabled flags \<longleftrightarrow> flags AND 0x200 = 0"

definition disable :: "u32 \<Rightarrow> u32 \<times> bool" where
  "disable flags =
     (let wasDisabled = isDisabled flags in
      (if \<not> wasDisabled then cli flags else flags, wasDisabled))"

definition restore :: "u32 \<Rightarrow> bool \<Rightarrow> u32" where
  "restore flags wasDisabled = (if \<not> wasDisabled then sti flags else flags)"

definition protect :: "(u32 \<Rightarrow> 's \<Rightarrow> u32 \<times> 's) \<Rightarrow> u32 \<Rightarrow> 's \<Rightarrow> u32 \<times> 's" where
  "protect work flags s =
     (let (flags, was) = disable flags; (flags, s) = work flags s in (restore flags was, s))"

lemma bit_x200: "bit (0x200 :: u32) n \<longleftrightarrow> n = 9"
proof -
  have "(0x200 :: u32) = 2 ^ 9" by simp
  then show ?thesis by (simp only: bit_exp_iff) auto
qed

lemma isDisabled_bit: "isDisabled f \<longleftrightarrow> \<not> bit f 9"
proof
  assume "isDisabled f"
  then have "\<not> bit (f AND 0x200) 9" by (simp add: isDisabled_def)
  then show "\<not> bit f 9" by (simp only: bit_and_iff bit_x200) simp
next
  assume "\<not> bit f 9"
  then have "\<not> bit (f AND 0x200) n" for n by (simp only: bit_and_iff bit_x200) auto
  then show "isDisabled f" by (simp add: isDisabled_def bit_word_eqI)
qed

lemma sti_cli_bit: "\<not> bit (cli f) 9" "bit (sti f) 9"
proof -
  have "\<not> bit (f AND NOT 0x200) 9" by (simp only: bit_and_iff bit_not_iff bit_x200) simp
  then show "\<not> bit (cli f) 9" by (simp add: cli_def)
  have "bit (f OR 0x200) 9" by (simp only: bit_or_iff bit_x200) simp
  then show "bit (sti f) 9" by (simp add: sti_def)
qed

lemma isDisabled_simps [simp]:
  "isDisabled (cli f)" "\<not> isDisabled (sti f)" "isDisabled (fst (disable f))"
  "snd (disable f) = isDisabled f" "isDisabled (restore f w) \<longleftrightarrow> w \<and> isDisabled f"
  by (simp_all add: isDisabled_bit sti_cli_bit disable_def restore_def Let_def)

lemma protect_restores:
  assumes "\<And>f s. isDisabled f \<Longrightarrow> isDisabled (fst (work f s))"
  shows "isDisabled (fst (protect work flags s)) = isDisabled flags"
  using assms [of "fst (disable flags)" s] by (simp add: protect_def split_beta)

subsection \<open>SpinLock\<close>

text \<open>\<open>Spin_Exchange\<close> is the test of the loop of \<^verbatim>\<open>lock\<close>; \<open>Spin_Held\<close> lies between the two calls.\<close>

datatype spin_pc = Spin_Out | Spin_Exchange | Spin_Held | Spin_Clear

fun spin_step :: "spin_pc \<Rightarrow> u32 \<Rightarrow> bool \<Rightarrow> spin_pc \<times> u32 \<times> bool" where
  "spin_step Spin_Out f taken = (Spin_Exchange, f, taken)"
| "spin_step Spin_Exchange f taken =
     (let (taken, old) = exchange taken True in
      (if old then Spin_Exchange else Spin_Held, f, taken))"
| "spin_step Spin_Held f taken = (Spin_Clear, f, taken)"
| "spin_step Spin_Clear f taken = (Spin_Out, f, False)"

subsection \<open>InterruptSafeLock\<close>

record interrupt_safe_lock =
  taken :: bool
  was :: bool

definition interrupt_safe_lock_new :: interrupt_safe_lock where
  "interrupt_safe_lock_new = \<lparr>taken = False, was = False\<rparr>"

text \<open>The boolean is the local variable \<^verbatim>\<open>wasDisabled\<close> of \<^verbatim>\<open>lock\<close> and of \<^verbatim>\<open>unlock\<close>.\<close>

datatype is_pc = Out | Disable | Exchange bool | Store_Was bool | Give_Up bool
  | Held | Load_Was | Clear bool | Restore bool

fun is_step :: "is_pc \<Rightarrow> u32 \<Rightarrow> interrupt_safe_lock \<Rightarrow> is_pc \<times> u32 \<times> interrupt_safe_lock" where
  "is_step Out f l = (Disable, f, l)"
| "is_step Disable f l = (let (f, wasDisabled) = disable f in (Exchange wasDisabled, f, l))"
| "is_step (Exchange w) f l =
     (let (tk, old) = exchange (taken l) True in
      (if \<not> old then Store_Was w else Give_Up w, f, l\<lparr>taken := tk\<rparr>))"
| "is_step (Store_Was w) f l = (Held, f, l\<lparr>was := w\<rparr>)"
| "is_step (Give_Up w) f l = (Disable, restore f w, l)"
| "is_step Held f l = (Load_Was, f, l)"
| "is_step Load_Was f l = (Clear (was l), f, l)"
| "is_step (Clear w) f l = (Restore w, f, l\<lparr>taken := False\<rparr>)"
| "is_step (Restore w) f l = (Out, restore f w, l)"

subsection \<open>ISL\<close>

text \<open>
  \<^verbatim>\<open>lock\<close> returns the old interrupt state and the caller passes it to \<^verbatim>\<open>unlock\<close>, as \<^verbatim>\<open>Semaphore\<close> does.
\<close>

datatype isl_pc = Isl_Out | Isl_Disable | Isl_Exchange bool | Isl_Give_Up bool
  | Isl_Held bool | Isl_Clear bool | Isl_Restore bool

fun isl_step :: "isl_pc \<Rightarrow> u32 \<Rightarrow> bool \<Rightarrow> isl_pc \<times> u32 \<times> bool" where
  "isl_step Isl_Out f tk = (Isl_Disable, f, tk)"
| "isl_step Isl_Disable f tk = (let (f, wasDisabled) = disable f in (Isl_Exchange wasDisabled, f, tk))"
| "isl_step (Isl_Exchange w) f tk =
     (let (tk, old) = exchange tk True in (if \<not> old then Isl_Held w else Isl_Give_Up w, f, tk))"
| "isl_step (Isl_Give_Up w) f tk = (Isl_Disable, restore f w, tk)"
| "isl_step (Isl_Held w) f tk = (Isl_Clear w, f, tk)"
| "isl_step (Isl_Clear w) f tk = (Isl_Restore w, f, False)"
| "isl_step (Isl_Restore w) f tk = (Isl_Out, if w then cli f else sti f, tk)"

subsection \<open>Threads on processors\<close>

text \<open>
  \<open>running\<close> gives the thread on each processor. \<open>entry\<close> is a history variable: whether interrupts
  were disabled when the thread called \<^verbatim>\<open>lock\<close>.
\<close>

record ('p, 'l) lock_system =
  pc :: "nat \<Rightarrow> 'p"
  flags :: "nat \<Rightarrow> u32"
  cell :: 'l
  running :: "nat \<Rightarrow> nat"
  entry :: "nat \<Rightarrow> bool"

definition run_thread ::
  "('p \<Rightarrow> u32 \<Rightarrow> 'l \<Rightarrow> 'p \<times> u32 \<times> 'l) \<Rightarrow> ('p \<Rightarrow> bool) \<Rightarrow> nat \<Rightarrow> ('p, 'l) lock_system \<Rightarrow> ('p, 'l) lock_system" where
  "run_thread exec out t s =
     (let (p, f, l) = exec (pc s t) (flags s t) (cell s) in
      s\<lparr>pc := (pc s)(t := p), flags := (flags s)(t := f), cell := l,
        entry := (if out (pc s t) then (entry s)(t := isDisabled (flags s t)) else entry s)\<rparr>)"

text \<open>
  A step of the thread on processor \<open>c\<close>; a change of the flags by its other code; and a context
  switch to a thread that is not running.
\<close>

inductive lock_run ::
  "('p \<Rightarrow> u32 \<Rightarrow> 'l \<Rightarrow> 'p \<times> u32 \<times> 'l) \<Rightarrow> ('p \<Rightarrow> bool) \<Rightarrow> ('p, 'l) lock_system \<Rightarrow> ('p, 'l) lock_system \<Rightarrow> bool"
  for exec out s0 where
  start: "lock_run exec out s0 s0"
| exec: "lock_run exec out s0 s \<Longrightarrow> lock_run exec out s0 (run_thread exec out (running s c) s)"
| other_code: "lock_run exec out s0 s \<Longrightarrow> out (pc s (running s c)) \<Longrightarrow>
    lock_run exec out s0 (s\<lparr>flags := (flags s)(running s c := f)\<rparr>)"
| switch: "lock_run exec out s0 s \<Longrightarrow>
    out (pc s (running s c)) \<or> \<not> isDisabled (flags s (running s c)) \<Longrightarrow> \<forall>d. running s d \<noteq> t \<Longrightarrow>
    lock_run exec out s0 (s\<lparr>running := (running s)(c := t)\<rparr>)"

subsection \<open>The contract of a lock\<close>

locale test_and_set =
  fixes exec :: "'p \<Rightarrow> u32 \<Rightarrow> 'l \<Rightarrow> 'p \<times> u32 \<times> 'l" and out holds :: "'p \<Rightarrow> bool" and held :: "'l \<Rightarrow> bool"
  assumes out_not_holds: "out p \<Longrightarrow> \<not> holds p"
    and acquire: "exec p f l = (p', f', l') \<Longrightarrow> \<not> holds p \<Longrightarrow> holds p' \<Longrightarrow> \<not> held l \<and> held l'"
    and keep: "exec p f l = (p', f', l') \<Longrightarrow> holds p' = holds p \<Longrightarrow> held l' = held l"
    and release: "exec p f l = (p', f', l') \<Longrightarrow> holds p \<Longrightarrow> \<not> holds p' \<Longrightarrow> \<not> held l'"
begin

definition one_holder :: "('p, 'l) lock_system \<Rightarrow> bool" where
  "one_holder s \<longleftrightarrow> (held (cell s) \<longleftrightarrow> (\<exists>t. holds (pc s t))) \<and>
     (\<forall>t u. holds (pc s t) \<longrightarrow> holds (pc s u) \<longrightarrow> t = u)"

lemma one_holder_exec:
  assumes "one_holder s"
  shows "one_holder (run_thread exec out t s)"
proof -
  obtain p f l where e: "exec (pc s t) (flags s t) (cell s) = (p, f, l)" by (metis prod_cases3)
  have "held l \<longleftrightarrow> (if holds p = holds (pc s t) then held (cell s) else holds p)"
    and "holds p \<Longrightarrow> \<not> holds (pc s t) \<Longrightarrow> \<not> held (cell s)"
    using acquire [OF e] keep [OF e] release [OF e] by auto
  then show ?thesis
    using assms unfolding one_holder_def run_thread_def e by (simp split: if_splits; metis)
qed

theorem mutual_exclusion:
  assumes "lock_run exec out s0 s" "\<And>t. out (pc s0 t)" "\<not> held (cell s0)"
  shows "one_holder s"
  using assms(1)
proof induction
  case start
  then show ?case using assms out_not_holds by (auto simp: one_holder_def)
next
  case (exec s c)
  then show ?case by (intro one_holder_exec)
qed (simp_all add: one_holder_def)

end

text \<open>
  A lock that keeps the interrupts of its holder disabled: \<open>masked\<close> are the points at which they are.
\<close>

locale interrupt_masking = test_and_set +
  fixes masked :: "'a \<Rightarrow> bool"
  assumes holds_masked: "holds p \<Longrightarrow> masked p"
    and out_not_masked: "out p \<Longrightarrow> \<not> masked p"
    and stays_masked: "exec p f l = (p', f', l') \<Longrightarrow> masked p' \<Longrightarrow> masked p \<longrightarrow> isDisabled f \<Longrightarrow> isDisabled f'"
begin

definition masked_runs :: "('a, 'b) lock_system \<Rightarrow> bool" where
  "masked_runs s \<longleftrightarrow> (\<forall>t. masked (pc s t) \<longrightarrow> isDisabled (flags s t) \<and> (\<exists>c. running s c = t))"

theorem holder_not_interrupted:
  assumes "lock_run exec out s0 s" "\<And>t. out (pc s0 t)"
  shows "masked_runs s"
  using assms(1)
proof induction
  case start
  then show ?case using assms out_not_masked by (simp add: masked_runs_def)
next
  case (exec s c)
  obtain p f l where e: "exec (pc s (running s c)) (flags s (running s c)) (cell s) = (p, f, l)"
    by (metis prod_cases3)
  show ?case using exec.IH stays_masked [OF e] by (auto simp: masked_runs_def run_thread_def e)
next
  case (other_code s c f)
  then show ?case using out_not_masked by (simp add: masked_runs_def)
next
  case (switch s c t)
  have "\<not> masked (pc s (running s c))"
    using switch.hyps(2) switch.IH out_not_masked by (auto simp: masked_runs_def)
  then show ?case using switch.IH unfolding masked_runs_def by simp metis
qed

end

subsection \<open>The three locks keep the contract\<close>

definition spin_holds :: "spin_pc \<Rightarrow> bool" where
  "spin_holds p \<longleftrightarrow> p \<in> {Spin_Held, Spin_Clear}"

fun is_holds :: "is_pc \<Rightarrow> bool" where
  "is_holds (Store_Was w) = True"
| "is_holds Held = True"
| "is_holds Load_Was = True"
| "is_holds (Clear w) = True"
| "is_holds p = False"

definition is_masked :: "is_pc \<Rightarrow> bool" where
  "is_masked p \<longleftrightarrow> p \<noteq> Out \<and> p \<noteq> Disable"

fun isl_holds :: "isl_pc \<Rightarrow> bool" where
  "isl_holds (Isl_Held w) = True"
| "isl_holds (Isl_Clear w) = True"
| "isl_holds p = False"

definition isl_masked :: "isl_pc \<Rightarrow> bool" where
  "isl_masked p \<longleftrightarrow> p \<noteq> Isl_Out \<and> p \<noteq> Isl_Disable"

interpretation spin: test_and_set spin_step "\<lambda>p. p = Spin_Out" spin_holds "\<lambda>taken. taken"
proof unfold_locales
  fix p p' f f' l l'
  assume "spin_step p f l = (p', f', l')"
  then show "\<not> spin_holds p \<Longrightarrow> spin_holds p' \<Longrightarrow> \<not> l \<and> l'"
    and "spin_holds p' = spin_holds p \<Longrightarrow> l' = l"
    and "spin_holds p \<Longrightarrow> \<not> spin_holds p' \<Longrightarrow> \<not> l'"
    by (cases p; auto simp: spin_holds_def exchange_def split: if_splits)+
qed (simp add: spin_holds_def)

interpretation isafe: interrupt_masking is_step "\<lambda>p. p = Out" is_holds taken is_masked
proof unfold_locales
  fix p p' f f' l l'
  assume e: "is_step p f l = (p', f', l')"
  show "\<not> is_holds p \<Longrightarrow> is_holds p' \<Longrightarrow> \<not> taken l \<and> taken l'"
    and "is_holds p' = is_holds p \<Longrightarrow> taken l' = taken l"
    and "is_holds p \<Longrightarrow> \<not> is_holds p' \<Longrightarrow> \<not> taken l'"
    using e by (cases p; auto simp: exchange_def split_beta split: if_splits)+
  show "is_masked p' \<Longrightarrow> is_masked p \<longrightarrow> isDisabled f \<Longrightarrow> isDisabled f'"
    using e by (cases p) (auto simp: is_masked_def exchange_def split_beta split: if_splits)
next
  show "is_holds p \<Longrightarrow> is_masked p" for p by (cases p) (simp_all add: is_masked_def)
qed (simp_all add: is_masked_def)

interpretation isl: interrupt_masking isl_step "\<lambda>p. p = Isl_Out" isl_holds "\<lambda>tk. tk" isl_masked
proof unfold_locales
  fix p p' f f' l l'
  assume e: "isl_step p f l = (p', f', l')"
  show "\<not> isl_holds p \<Longrightarrow> isl_holds p' \<Longrightarrow> \<not> l \<and> l'"
    and "isl_holds p' = isl_holds p \<Longrightarrow> l' = l"
    and "isl_holds p \<Longrightarrow> \<not> isl_holds p' \<Longrightarrow> \<not> l'"
    using e by (cases p; auto simp: exchange_def split_beta split: if_splits)+
  show "isl_masked p' \<Longrightarrow> isl_masked p \<longrightarrow> isDisabled f \<Longrightarrow> isDisabled f'"
    using e by (cases p) (auto simp: isl_masked_def exchange_def split_beta split: if_splits)
next
  show "isl_holds p \<Longrightarrow> isl_masked p" for p by (cases p) (simp_all add: isl_masked_def)
qed (simp_all add: isl_masked_def)

subsection \<open>InterruptSafeLock gives back the interrupt state\<close>

fun is_saved :: "is_pc \<Rightarrow> u32 \<Rightarrow> bool \<Rightarrow> bool \<Rightarrow> bool" where
  "is_saved Out f w e = True"
| "is_saved Disable f w e = (isDisabled f = e)"
| "is_saved (Exchange v) f w e = (v = e)"
| "is_saved (Store_Was v) f w e = (v = e)"
| "is_saved (Give_Up v) f w e = (v = e)"
| "is_saved Held f w e = (w = e)"
| "is_saved Load_Was f w e = (w = e)"
| "is_saved (Clear v) f w e = (v = e)"
| "is_saved (Restore v) f w e = (v = e)"

definition all_saved :: "(is_pc, interrupt_safe_lock) lock_system \<Rightarrow> bool" where
  "all_saved s \<longleftrightarrow> (\<forall>t. is_saved (pc s t) (flags s t) (was (cell s)) (entry s t))"

lemma all_savedD: "all_saved s \<Longrightarrow> is_saved (pc s t) (flags s t) (was (cell s)) (entry s t)"
  by (simp add: all_saved_def)

lemma is_saved_other: "is_saved p f w e \<Longrightarrow> \<not> is_holds p \<Longrightarrow> is_saved p f w' e"
  by (cases p) simp_all

lemma is_step_was: "is_step p f l = (p', f', l') \<Longrightarrow> \<not> is_holds p \<Longrightarrow> was l' = was l"
  by (cases p) (auto simp: exchange_def split_beta)

lemma is_step_saved:
  assumes "is_step p f l = (p', f', l')" "is_saved p f (was l) e" "is_masked p \<longrightarrow> isDisabled f"
  shows "is_saved p' f' (was l') (if p = Out then isDisabled f else e)"
  using assms by (cases p) (auto simp: exchange_def split_beta is_masked_def)

lemma all_saved_exec:
  assumes "all_saved s" "isafe.one_holder s" "isafe.masked_runs s"
  shows "all_saved (run_thread is_step (\<lambda>p. p = Out) t s)"
proof -
  obtain p f l where e: "is_step (pc s t) (flags s t) (cell s) = (p, f, l)" by (metis prod_cases3)
  have t: "is_saved p f (was l) (if pc s t = Out then isDisabled (flags s t) else entry s t)"
    using assms by (intro is_step_saved [OF e]) (auto simp: all_saved_def isafe.masked_runs_def)
  have "is_saved (pc s u) (flags s u) (was l) (entry s u)" if "u \<noteq> t" for u
  proof (cases "is_holds (pc s t)")
    case True
    then have "\<not> is_holds (pc s u)" using assms(2) that unfolding isafe.one_holder_def by blast
    then show ?thesis using is_saved_other all_savedD [OF assms(1)] by blast
  next
    case False
    then show ?thesis using is_step_was [OF e] all_savedD [OF assms(1)] by simp
  qed
  then show ?thesis using t by (auto simp: all_saved_def run_thread_def e)
qed

lemma interrupts_saved:
  assumes "lock_run is_step (\<lambda>p. p = Out) s0 s" "\<And>t. pc s0 t = Out" "\<not> taken (cell s0)"
  shows "all_saved s"
  using assms(1)
proof induction
  case start
  then show ?case using assms(2) by (simp add: all_saved_def)
next
  case (exec s c)
  have "isafe.one_holder s" "isafe.masked_runs s"
    by (rule isafe.mutual_exclusion [OF exec.hyps] isafe.holder_not_interrupted [OF exec.hyps];
        simp add: assms)+
  then show ?case using exec.IH by (intro all_saved_exec)
qed (auto simp: all_saved_def)

subsection \<open>Progress\<close>

lemma run_thread_running [simp]:
  "running ((run_thread exec out t ^^ n) s) = running s"
  by (induction n) (simp_all add: run_thread_def split_beta)

lemma run_thread_others: "u \<noteq> t \<Longrightarrow> pc ((run_thread exec out t ^^ n) s) u = pc s u"
  by (induction n) (simp_all add: run_thread_def split_beta)

lemma lock_run_iterate:
  "lock_run exec out s0 s \<Longrightarrow> lock_run exec out s0 ((run_thread exec out (running s c) ^^ n) s)"
proof (induction n)
  case (Suc n)
  then show ?case using lock_run.exec [OF Suc.IH [OF Suc.prems], of c] by simp
qed simp

fun is_to_get :: "is_pc \<Rightarrow> nat" where
  "is_to_get (Exchange w) = 1" | "is_to_get Disable = 2" | "is_to_get Out = 3"
| "is_to_get (Give_Up w) = 3" | "is_to_get (Restore w) = 4" | "is_to_get p = 0"

fun is_to_release :: "is_pc \<Rightarrow> nat" where
  "is_to_release (Clear w) = 1" | "is_to_release Load_Was = 2" | "is_to_release Held = 3"
| "is_to_release (Store_Was w) = 4" | "is_to_release p = 0"

lemma is_free_gets:
  assumes "\<not> taken (cell s)"
  shows "\<exists>n. is_holds (pc ((run_thread is_step out t ^^ n) s) t)"
  using assms
proof (induction "is_to_get (pc s t)" arbitrary: s rule: less_induct)
  case less
  show ?case
  proof (cases "is_holds (pc s t)")
    case True
    then show ?thesis by (intro exI [of _ 0]) simp
  next
    case False
    let ?s = "run_thread is_step out t s"
    have "is_holds (pc ?s t) \<or> is_to_get (pc ?s t) < is_to_get (pc s t) \<and> \<not> taken (cell ?s)"
      using False less.prems
      by (cases "pc s t") (auto simp: run_thread_def exchange_def split_beta)
    then show ?thesis
    proof
      assume "is_holds (pc ?s t)"
      then show ?thesis by (intro exI [of _ 1]) simp
    next
      assume "is_to_get (pc ?s t) < is_to_get (pc s t) \<and> \<not> taken (cell ?s)"
      then obtain n where "is_holds (pc ((run_thread is_step out t ^^ n) ?s) t)" using less.hyps by blast
      then show ?thesis by (intro exI [of _ "Suc n"]) (simp add: funpow_swap1)
    qed
  qed
qed

lemma is_holder_releases:
  assumes "is_holds (pc s t)"
  shows "\<exists>n. \<not> taken (cell ((run_thread is_step out t ^^ n) s)) \<and>
    \<not> is_holds (pc ((run_thread is_step out t ^^ n) s) t)"
  using assms
proof (induction "is_to_release (pc s t)" arbitrary: s rule: less_induct)
  case less
  let ?s = "run_thread is_step out t s"
  have "\<not> taken (cell ?s) \<and> \<not> is_holds (pc ?s t) \<or>
      is_to_release (pc ?s t) < is_to_release (pc s t) \<and> is_holds (pc ?s t)"
    using less.prems by (cases "pc s t") (auto simp: run_thread_def split_beta)
  then show ?case
  proof
    assume "\<not> taken (cell ?s) \<and> \<not> is_holds (pc ?s t)"
    then show ?thesis by (intro exI [of _ 1]) simp
  next
    assume "is_to_release (pc ?s t) < is_to_release (pc s t) \<and> is_holds (pc ?s t)"
    then obtain n where "\<not> taken (cell ((run_thread is_step out t ^^ n) ?s)) \<and>
      \<not> is_holds (pc ((run_thread is_step out t ^^ n) ?s) t)" using less.hyps by blast
    then show ?thesis by (intro exI [of _ "Suc n"]) (simp add: funpow_swap1)
  qed
qed

subsection \<open>Properties\<close>

definition lock_start :: "'p \<Rightarrow> 'l \<Rightarrow> ('p, 'l) lock_system" where
  "lock_start p l = \<lparr>pc = (\<lambda>_. p), flags = (\<lambda>_. 0x202), cell = l, running = (\<lambda>c. c), entry = (\<lambda>_. False)\<rparr>"

text \<open>
  \<^bold>\<open>C31.\<close> \<^verbatim>\<open>InterruptSafeLock\<close> (atomic.h). Under every interleaving of any number of threads on any number
  of processors, with preemption and migration wherever interrupts are enabled: at most one thread
  is between the successful exchange of \<^verbatim>\<open>lock\<close> and the store of \<^verbatim>\<open>unlock\<close>; the lock is taken exactly
  when there is such a thread; that thread has interrupts disabled and is on a processor, so it cannot
  be preempted; and \<^verbatim>\<open>unlock\<close> returns with the interrupt state with which the same thread called
  \<^verbatim>\<open>lock\<close>, although the field \<^verbatim>\<open>was\<close> is shared by all threads.
\<close>

theorem interrupt_safe_lock_correct:
  assumes "lock_run is_step (\<lambda>p. p = Out) s0 s"
    and "\<forall>t. pc s0 t = Out" "cell s0 = interrupt_safe_lock_new"
  shows "(\<forall>t u. is_holds (pc s t) \<and> is_holds (pc s u) \<longrightarrow> t = u) \<and>
    (taken (cell s) \<longleftrightarrow> (\<exists>t. is_holds (pc s t))) \<and>
    (\<forall>t. is_holds (pc s t) \<longrightarrow> isDisabled (flags s t) \<and> (\<exists>c. running s c = t)) \<and>
    (\<forall>t s'. s' = run_thread is_step (\<lambda>p. p = Out) t s \<and> pc s' t = Out \<longrightarrow>
       isDisabled (flags s' t) = entry s t)"
proof (intro conjI)
  have free: "\<not> taken (cell s0)" using assms(3) by (simp add: interrupt_safe_lock_new_def)
  have o: "isafe.one_holder s" by (rule isafe.mutual_exclusion [OF assms(1)]) (simp_all add: assms(2) free)
  then show "\<forall>t u. is_holds (pc s t) \<and> is_holds (pc s u) \<longrightarrow> t = u"
    and "taken (cell s) \<longleftrightarrow> (\<exists>t. is_holds (pc s t))" by (simp_all add: isafe.one_holder_def)
  have m: "isafe.masked_runs s" by (rule isafe.holder_not_interrupted [OF assms(1)]) (simp add: assms(2))
  then show "\<forall>t. is_holds (pc s t) \<longrightarrow> isDisabled (flags s t) \<and> (\<exists>c. running s c = t)"
    using isafe.holds_masked by (simp add: isafe.masked_runs_def)
  have a: "all_saved s" using interrupts_saved [OF assms(1)] assms(2) free by simp
  show "\<forall>t s'. s' = run_thread is_step (\<lambda>p. p = Out) t s \<and> pc s' t = Out \<longrightarrow>
      isDisabled (flags s' t) = entry s t"
  proof (intro allI impI, elim conjE)
    fix t s'
    assume s': "s' = run_thread is_step (\<lambda>p. p = Out) t s" "pc s' t = Out"
    then obtain w where w: "pc s t = Restore w"
      by (cases "pc s t") (auto simp: run_thread_def exchange_def split_beta split: if_splits)
    then have "isDisabled (flags s t)" using m unfolding isafe.masked_runs_def by (simp add: is_masked_def)
    then show "isDisabled (flags s' t) = entry s t"
      using all_savedD [OF a, of t] w s'(1) by (simp add: run_thread_def)
  qed
qed

lemma lock_run_fold:
  "running s0 = (\<lambda>c. c) \<Longrightarrow> lock_run exec out s0 s \<Longrightarrow> running s = (\<lambda>c. c) \<Longrightarrow>
     lock_run exec out s0 (fold (run_thread exec out) ts s)"
proof (induction ts arbitrary: s)
  case (Cons t ts)
  then show ?case
    using lock_run.exec [OF Cons.prems(2), of t] run_thread_running [where n = 1 and s = s]
    by (simp del: run_thread_running)
qed simp

definition contended :: "(is_pc, interrupt_safe_lock) lock_system" where
  "contended = fold (run_thread is_step (\<lambda>p. p = Out)) [0, 0, 1, 1, 0, 1, 0, 1]
     (lock_start Out interrupt_safe_lock_new)"

lemma contended_run: "lock_run is_step (\<lambda>p. p = Out) (lock_start Out interrupt_safe_lock_new) contended"
  unfolding contended_def by (intro lock_run_fold lock_run.start) (simp_all add: lock_start_def)

theorem interrupt_safe_lock_correct_witness:
  "taken (cell contended) \<and> pc contended 0 = Held \<and> pc contended 1 = Disable \<and>
   isDisabled (flags contended 0) \<and> (\<exists>c. running contended c = 0)"
proof -
  have pcs: "pc contended 0 = Held" "pc contended 1 = Disable"
    by (simp_all add: contended_def lock_start_def interrupt_safe_lock_new_def run_thread_def
        exchange_def split_beta)
  then have h: "is_holds (pc contended 0)" by simp
  then have "\<exists>t. is_holds (pc contended t)" by blast
  then show ?thesis
    using interrupt_safe_lock_correct [OF contended_run] pcs h
    by (simp add: lock_start_def)
qed

text \<open>
  \<^bold>\<open>C32.\<close> No deadlock (atomic.h). From every state that threads using one \<^verbatim>\<open>InterruptSafeLock\<close> can reach,
  each thread that is on a processor can get the lock by steps of the holder followed by its own.
\<close>

theorem interrupt_safe_lock_progress:
  assumes "lock_run is_step (\<lambda>p. p = Out) s0 s"
    and "\<forall>t. pc s0 t = Out" "cell s0 = interrupt_safe_lock_new" "running s c = t"
  shows "\<exists>h m n. let s' = (run_thread is_step (\<lambda>p. p = Out) t ^^ n)
      ((run_thread is_step (\<lambda>p. p = Out) h ^^ m) s)
    in lock_run is_step (\<lambda>p. p = Out) s0 s' \<and> is_holds (pc s' t)"
proof -
  let ?run = "run_thread is_step (\<lambda>p. p = Out)"
  have free: "\<not> taken (cell s0)" using assms(3) by (simp add: interrupt_safe_lock_new_def)
  have o: "isafe.one_holder s" by (rule isafe.mutual_exclusion [OF assms(1)]) (simp_all add: assms(2) free)
  have m: "isafe.masked_runs s" by (rule isafe.holder_not_interrupted [OF assms(1)]) (simp add: assms(2))
  obtain h d k where h: "running s d = h" "\<not> taken (cell ((?run h ^^ k) s))"
  proof (cases "taken (cell s)")
    case True
    then obtain h where h: "is_holds (pc s h)" using o by (auto simp: isafe.one_holder_def)
    then obtain d where "running s d = h"
      using m isafe.holds_masked unfolding isafe.masked_runs_def by metis
    then show ?thesis using that is_holder_releases [OF h] by metis
  next
    case False
    then show ?thesis using that [OF assms(4), of 0] by simp
  qed
  let ?s = "(?run h ^^ k) s"
  obtain n where n: "is_holds (pc ((?run t ^^ n) ?s) t)" using is_free_gets [OF h(2)] by blast
  have "lock_run is_step (\<lambda>p. p = Out) s0 ?s" using lock_run_iterate [OF assms(1), of k d] h(1) by simp
  then have "lock_run is_step (\<lambda>p. p = Out) s0 ((?run t ^^ n) ?s)"
    using lock_run_iterate [of is_step "\<lambda>p. p = Out" s0 ?s n c] assms(4) by simp
  then show ?thesis using n by (auto simp: Let_def)
qed

theorem interrupt_safe_lock_progress_witness:
  "\<exists>h m n. let s' = (run_thread is_step (\<lambda>p. p = Out) 1 ^^ n)
      ((run_thread is_step (\<lambda>p. p = Out) h ^^ m) contended)
    in lock_run is_step (\<lambda>p. p = Out) (lock_start Out interrupt_safe_lock_new) s' \<and> is_holds (pc s' 1)"
proof -
  have "running contended 1 = 1"
    by (simp add: contended_def lock_start_def interrupt_safe_lock_new_def run_thread_def
        exchange_def split_beta)
  then show ?thesis
    by (intro interrupt_safe_lock_progress [OF contended_run]) (simp_all add: lock_start_def)
qed

text \<open>
  \<^verbatim>\<open>ISL\<close> (atomic.h), the lock of the semaphores. Under every interleaving, at most one thread is between
  the successful exchange of \<^verbatim>\<open>lock\<close> and the store of \<^verbatim>\<open>unlock\<close>, it has interrupts disabled and is on a
  processor: what a semaphore does while it holds the lock is not interleaved with another use of it.
\<close>

theorem isl_exclusive:
  assumes "lock_run isl_step (\<lambda>p. p = Isl_Out) s0 s" "\<forall>t. pc s0 t = Isl_Out" "\<not> cell s0"
  shows "(\<forall>t u. isl_holds (pc s t) \<and> isl_holds (pc s u) \<longrightarrow> t = u) \<and>
    (\<forall>t. isl_holds (pc s t) \<longrightarrow> cell s \<and> isDisabled (flags s t) \<and> (\<exists>c. running s c = t))"
proof -
  have "isl.one_holder s" by (rule isl.mutual_exclusion [OF assms(1)]) (simp_all add: assms(2,3))
  moreover have "isl.masked_runs s" by (rule isl.holder_not_interrupted [OF assms(1)]) (simp add: assms(2))
  ultimately show ?thesis
    using isl.holds_masked by (auto simp: isl.one_holder_def isl.masked_runs_def)
qed

theorem isl_exclusive_witness:
  "let s = fold (run_thread isl_step (\<lambda>p. p = Isl_Out)) [0, 1, 1, 0, 0, 1] (lock_start Isl_Out False) in
   isl_holds (pc s 0) \<and> \<not> isl_holds (pc s 1) \<and> isDisabled (flags s 0)"
proof -
  let ?s = "fold (run_thread isl_step (\<lambda>p. p = Isl_Out)) [0, 1, 1, 0, 0, 1] (lock_start Isl_Out False)"
  have r: "lock_run isl_step (\<lambda>p. p = Isl_Out) (lock_start Isl_Out False) ?s"
    by (intro lock_run_fold lock_run.start) (simp_all add: lock_start_def)
  have "isl_holds (pc ?s 0)" by (simp add: lock_start_def run_thread_def exchange_def split_beta)
  moreover have "(\<forall>t u. isl_holds (pc ?s t) \<and> isl_holds (pc ?s u) \<longrightarrow> t = u) \<and>
    (\<forall>t. isl_holds (pc ?s t) \<longrightarrow> cell ?s \<and> isDisabled (flags ?s t) \<and> (\<exists>c. running ?s c = t))"
    by (rule isl_exclusive [OF r]) (simp_all add: lock_start_def)
  ultimately show ?thesis unfolding Let_def by (metis zero_neq_one)
qed

lemma spin_lock_exclusive:
  assumes "lock_run spin_step (\<lambda>p. p = Spin_Out) s0 s" "\<forall>t. pc s0 t = Spin_Out" "\<not> cell s0"
    "spin_holds (pc s t)" "spin_holds (pc s u)"
  shows "t = u"
  using spin.mutual_exclusion [OF assms(1)] assms(2-5) by (simp add: spin.one_holder_def)

end
