(* ===== verification/Sync_Threads.thy ===== *)
theory Sync_Threads
  imports Semaphores
begin

text \<open>
  Threads that synchronise with semaphores, for the clients of \<^verbatim>\<open>kernel/semaphore.h\<close>. A program gives
  for each of its points the next atomic action: a \<^verbatim>\<open>down\<close>, an \<^verbatim>\<open>up\<close>, or one access to the shared
  variables. A thread that blocked in \<^verbatim>\<open>down\<close> is in the semaphore's waiting queue and does not move
  until an \<^verbatim>\<open>up\<close> has removed it (and scheduled it). Threads are interleaved in every order.
\<close>

subsection \<open>Interleaved threads\<close>

datatype ('s, 'v, 'p) action = Sem_Down 's 'p | Sem_Up 's 'p | Local 'v 'p | Done

record ('s, 'v, 'p) tsystem =
  sems :: "'s \<Rightarrow> semaphore"
  shared :: 'v
  at :: "ptr \<Rightarrow> 'p"

definition asleep :: "('s, 'v, 'p) tsystem \<Rightarrow> ptr \<Rightarrow> bool" where
  "asleep st t \<longleftrightarrow> (\<exists>s. t \<in> set (waiting (sems st s)))"

definition tstep :: "('p \<Rightarrow> 'v \<Rightarrow> ('s, 'v, 'p) action) \<Rightarrow> ptr \<Rightarrow> ('s, 'v, 'p) tsystem \<Rightarrow> ('s, 'v, 'p) tsystem" where
  "tstep prog t st =
     (if asleep st t then st
      else case prog (at st t) (shared st) of
        Sem_Down s p \<Rightarrow>
          st\<lparr>sems := (sems st)(s := fst (sem_down (sems st s) t)), at := (at st)(t := p)\<rparr>
      | Sem_Up s p \<Rightarrow>
          st\<lparr>sems := (sems st)(s := fst (sem_up (sems st s))), at := (at st)(t := p)\<rparr>
      | Local v p \<Rightarrow> st\<lparr>shared := v, at := (at st)(t := p)\<rparr>
      | Done \<Rightarrow> st)"

inductive treach ::
  "('p \<Rightarrow> 'v \<Rightarrow> ('s, 'v, 'p) action) \<Rightarrow> ptr set \<Rightarrow> ('s, 'v, 'p) tsystem \<Rightarrow> ('s, 'v, 'p) tsystem \<Rightarrow> bool"
  for prog T st0 where
  start: "treach prog T st0 st0"
| step: "treach prog T st0 st \<Longrightarrow> t \<in> T \<Longrightarrow> treach prog T st0 (tstep prog t st)"

lemma treach_fold: "set ts \<subseteq> T \<Longrightarrow> treach prog T st0 st \<Longrightarrow> treach prog T st0 (fold (tstep prog) ts st)"
  by (induction ts arbitrary: st) (auto intro: treach.step)

lemma asleep_iff: "(\<And>s. t \<notin> set (waiting (sems st s))) \<Longrightarrow> \<not> asleep st t"
  by (simp add: asleep_def)

subsection \<open>Sleeping threads are where their semaphore left them\<close>

text \<open>\<open>after s p\<close>: the point \<open>p\<close> follows a \<^verbatim>\<open>down\<close> on \<open>s\<close>.\<close>

locale sem_client =
  fixes prog :: "'p \<Rightarrow> 'v \<Rightarrow> ('s, 'v, 'p) action" and after :: "'s \<Rightarrow> 'p \<Rightarrow> bool"
  assumes after_down: "prog p v = Sem_Down s p' \<Longrightarrow> after s p'"
begin

definition parked :: "ptr set \<Rightarrow> ('s, 'v, 'p) tsystem \<Rightarrow> bool" where
  "parked T st \<longleftrightarrow>
     (\<forall>s. sem_inv (sems st s) \<and> distinct (waiting (sems st s)) \<and>
       (\<forall>t \<in> set (waiting (sems st s)). t \<in> T \<and> after s (at st t))) \<and>
     (\<forall>s s' t. t \<in> set (waiting (sems st s)) \<longrightarrow> t \<in> set (waiting (sems st s')) \<longrightarrow> s = s')"

lemma parkedD:
  assumes "parked T st"
  shows "sem_inv (sems st s)" "distinct (waiting (sems st s))"
    and "t \<in> set (waiting (sems st s)) \<Longrightarrow> t \<in> T" "t \<in> set (waiting (sems st s)) \<Longrightarrow> after s (at st t)"
    and "t \<in> set (waiting (sems st s)) \<Longrightarrow> t \<in> set (waiting (sems st s')) \<Longrightarrow> s = s'"
  using assms by (auto simp: parked_def)

lemma parked_change:
  assumes p: "parked T st" and t: "t \<in> T" "\<not> asleep st t"
    and inv: "\<And>u. sem_inv (sems st' u)" "\<And>u. distinct (waiting (sems st' u))"
    and w: "\<And>u x. x \<in> set (waiting (sems st' u)) \<Longrightarrow>
      x \<in> set (waiting (sems st u)) \<or> x = t \<and> u = s \<and> after s (at st' t)"
    and a: "\<And>x. x \<noteq> t \<Longrightarrow> at st' x = at st x"
  shows "parked T st'"
proof -
  have n: "t \<notin> set (waiting (sems st u))" for u using t(2) by (auto simp: asleep_def)
  have "x \<in> T \<and> after u (at st' x)" if "x \<in> set (waiting (sems st' u))" for u x
    using w [OF that] n a [of x] t(1) parkedD(3,4) [OF p] by (cases "x = t") auto
  moreover have "u = u'" if "x \<in> set (waiting (sems st' u))" "x \<in> set (waiting (sems st' u'))" for u u' x
    using w [OF that(1)] w [OF that(2)] n parkedD(5) [OF p] by (cases "x = t") auto
  ultimately show ?thesis using inv by (auto simp: parked_def)
qed

lemma parked_tstep:
  assumes p: "parked T st" and t: "t \<in> T"
  shows "parked T (tstep prog t st)"
proof (cases "asleep st t")
  case False
  note change = parked_change [OF p t False]
  have n: "t \<notin> set (waiting (sems st u))" for u using False by (auto simp: asleep_def)
  note inv = parkedD(1) [OF p] parkedD(2) [OF p]
  show ?thesis
  proof (cases "prog (at st t) (shared st)")
    case (Sem_Down s q)
    then show ?thesis
      using n inv sem_down_inv [OF inv(1)] after_down [OF Sem_Down] False
      by (intro change [where s = s]) (auto simp: tstep_def sem_down_def split: if_splits)
  next
    case (Sem_Up s q)
    have "set (waiting (fst (sem_up (sems st s)))) \<subseteq> set (waiting (sems st s))"
      "distinct (waiting (fst (sem_up (sems st s))))"
      using inv(2) [of s] by (auto simp: sem_up_def split: list.splits)
    then show ?thesis
      using Sem_Up inv sem_up_inv [OF inv(1)] False
      by (intro change) (auto simp: tstep_def split: if_splits)
  next
    case (Local v q)
    then show ?thesis using inv False by (intro change) (auto simp: tstep_def)
  next
    case Done
    then show ?thesis using p False by (simp add: tstep_def)
  qed
qed (simp add: tstep_def p)

end

subsection \<open>Permits and their owners\<close>

lemma unat_dec: "0 < c \<Longrightarrow> Suc (unat (c - 1)) = unat (c :: u64)"
  by (metis Suc_pred' unat_gt_0 unat_minus_one word_gt_0)

text \<open>
  The ledger of one semaphore \<open>s\<close>: the threads at a point with \<open>own\<close> that do not wait for \<open>s\<close> own one
  permit each; with the count they add up to \<open>g\<close> of the shared variables.
\<close>

locale sem_ledger = sem_client +
  fixes s :: 'c and own :: "'a \<Rightarrow> bool" and g :: "'b \<Rightarrow> nat" and ok :: "'a \<Rightarrow> 'b \<Rightarrow> bool"
  assumes own_down: "prog p v = Sem_Down s' p' \<Longrightarrow> (if s' = s then \<not> own p \<and> own p' else own p' = own p)"
    and own_up: "prog p v = Sem_Up s' p' \<Longrightarrow> (if s' = s then own p \<and> \<not> own p' else own p' = own p)"
    and own_local: "prog p v = Local v' p' \<Longrightarrow> ok p v \<Longrightarrow> g v' + of_bool (own p) = g v + of_bool (own p')"
    and own_after: "after s p \<Longrightarrow> own p"
begin

definition owners :: "ptr set \<Rightarrow> ('c, 'b, 'a) tsystem \<Rightarrow> ptr set" where
  "owners T st = {t \<in> T. own (at st t) \<and> t \<notin> set (waiting (sems st s))}"

definition balanced :: "ptr set \<Rightarrow> ('c, 'b, 'a) tsystem \<Rightarrow> bool" where
  "balanced T st \<longleftrightarrow> unat (count (sems st s)) + card (owners T st) = g (shared st)"

lemma owner_counts:
  assumes "balanced T st" "finite T" "t \<in> owners T st"
  shows "unat (count (sems st s)) < g (shared st)"
proof -
  have "0 < card (owners T st)" using assms(2,3) by (auto simp: card_gt_0_iff owners_def)
  then show ?thesis using assms(1) by (simp add: balanced_def)
qed

lemma owners_move:
  assumes "finite T" "t \<in> T" "\<And>u. u \<noteq> t \<Longrightarrow> (u \<in> owners T st') = (u \<in> owners T st)"
  shows "card (owners T st') + of_bool (t \<in> owners T st) = card (owners T st) + of_bool (t \<in> owners T st')"
proof -
  have f: "finite (owners T st)" "finite (owners T st')" using assms(1) by (simp_all add: owners_def)
  have "owners T st' - {t} = owners T st - {t}" using assms(3) by blast
  then show ?thesis
    using card_Suc_Diff1 [OF f(1), of t] card_Suc_Diff1 [OF f(2), of t]
    by (cases "t \<in> owners T st"; cases "t \<in> owners T st'") (auto simp: Diff_insert_absorb)
qed

lemma balanced_down:
  assumes p: "parked T st" and b: "balanced T st" and f: "finite T" and t: "t \<in> T" "\<not> asleep st t"
    and a: "prog (at st t) (shared st) = Sem_Down s' q"
  shows "balanced T (tstep prog t st)"
proof -
  let ?st = "tstep prog t st"
  have st: "?st = st\<lparr>sems := (sems st)(s' := fst (sem_down (sems st s') t)), at := (at st)(t := q)\<rparr>"
    using t(2) a by (simp add: tstep_def)
  have n: "t \<notin> set (waiting (sems st s))" using t(2) by (auto simp: asleep_def)
  have "card (owners T ?st) + of_bool (t \<in> owners T st) = card (owners T st) + of_bool (t \<in> owners T ?st)"
    by (rule owners_move [OF f t(1)]) (auto simp: owners_def st sem_down_def)
  moreover have "unat (count (sems ?st s)) + of_bool (t \<in> owners T ?st) =
      unat (count (sems st s)) + of_bool (t \<in> owners T st)"
    using own_down [OF a] t(1) n by (auto simp: owners_def st sem_down_def unat_dec split: if_splits)
  ultimately show ?thesis using b by (simp add: balanced_def st)
qed

lemma balanced_up:
  assumes p: "parked T st" and b: "balanced T st" and f: "finite T" and t: "t \<in> T" "\<not> asleep st t"
    and a: "prog (at st t) (shared st) = Sem_Up s' q" and g: "g (shared st) < 2 ^ 64"
  shows "balanced T (tstep prog t st)"
proof (cases "s' = s \<and> waiting (sems st s) \<noteq> []")
  case True
  then obtain u us where u: "waiting (sems st s) = u # us" "s' = s" by (cases "waiting (sems st s)") auto
  have w: "u \<in> set (waiting (sems st s))" "t \<notin> set (waiting (sems st s))"
    subgoal using u(1) by simp
    subgoal using t(2) unfolding asleep_def by blast
    done
  then have ne: "u \<noteq> t" by blast
  have d: "u \<notin> set us" "u \<in> T" "own (at st u)"
    using parkedD(2) [OF p, of s] parkedD(3,4) [OF p w(1)] u(1) own_after by auto
  have o: "t \<in> owners T st" "u \<notin> owners T st" and q: "\<not> own q"
    using own_up [OF a] u d t(1) w by (auto simp: owners_def)
  have "owners T (tstep prog t st) = insert u (owners T st - {t})"
    using t a u d q ne w(2) by (auto simp: owners_def tstep_def sem_up_def)
  moreover have "finite (owners T st)" using f by (simp add: owners_def)
  ultimately have "card (owners T (tstep prog t st)) = card (owners T st)"
    using o ne by (simp add: card.insert_remove card_Suc_Diff1 del: card_Diff_insert card_Diff_singleton)
  then show ?thesis using b t(2) a u by (simp add: balanced_def tstep_def sem_up_def)
next
  case False
  let ?st = "tstep prog t st"
  have st: "?st = st\<lparr>sems := (sems st)(s' := fst (sem_up (sems st s'))), at := (at st)(t := q)\<rparr>"
    using t(2) a by (simp add: tstep_def)
  have n: "t \<notin> set (waiting (sems st s))" using t(2) by (auto simp: asleep_def)
  have "card (owners T ?st) + of_bool (t \<in> owners T st) = card (owners T st) + of_bool (t \<in> owners T ?st)"
    using False by (intro owners_move [OF f t(1)]) (auto simp: owners_def st sem_up_def)
  moreover have "unat (count (sems ?st s)) + of_bool (t \<in> owners T ?st) =
      unat (count (sems st s)) + of_bool (t \<in> owners T st)"
  proof (cases "s' = s")
    case True
    then have o: "t \<in> owners T st" "\<not> own q" using own_up [OF a] t(1) n by (auto simp: owners_def)
    then have "unat (count (sems st s)) + 1 < 2 ^ 64" using owner_counts [OF b f o(1)] g by simp
    then have "unat (count (sems st s) + 1) = unat (count (sems st s)) + 1"
      by (simp add: unat_word_ariths)
    then show ?thesis using True False o by (simp add: st sem_up_def owners_def)
  next
    case False
    then show ?thesis using own_up [OF a] by (simp add: st owners_def)
  qed
  ultimately show ?thesis using b by (simp add: balanced_def st)
qed

theorem balanced_tstep:
  assumes p: "parked T st" and b: "balanced T st" and f: "finite T" and t: "t \<in> T"
    and ok: "\<not> asleep st t \<Longrightarrow> ok (at st t) (shared st)" and g: "g (shared st) < 2 ^ 64"
  shows "balanced T (tstep prog t st)"
proof (cases "asleep st t")
  case False
  show ?thesis
  proof (cases "prog (at st t) (shared st)")
    case (Local v q)
    let ?st = "tstep prog t st"
    have st: "?st = st\<lparr>shared := v, at := (at st)(t := q)\<rparr>" using False Local by (simp add: tstep_def)
    have n: "t \<notin> set (waiting (sems st s))" using False by (auto simp: asleep_def)
    have "card (owners T ?st) + of_bool (t \<in> owners T st) = card (owners T st) + of_bool (t \<in> owners T ?st)"
      by (rule owners_move [OF f t]) (auto simp: owners_def st)
    then show ?thesis
      using b own_local [OF Local ok [OF False]] n t by (auto simp: balanced_def owners_def st split: if_splits)
  next
    case Done
    then show ?thesis using b by (simp add: tstep_def)
  qed (use balanced_down balanced_up p b f t False g in blast)+
qed (simp add: tstep_def b)

end

end
