(* ===== verification/Bounded_Buffer.thy ===== *)
theory Bounded_Buffer
  imports Sync_Threads
begin

text \<open>
  \<^verbatim>\<open>kernel/bb.h\<close>: the bounded buffer, a circular array with three semaphores. \<^verbatim>\<open>put\<close> and \<^verbatim>\<open>get\<close> are split at
  each access to the shared fields; any number of threads, each with its own list of calls, are
  interleaved. The history \<open>bb_log\<close> records the elements in the order in which \<^verbatim>\<open>n\<close> is changed.
\<close>

subsection \<open>State and operations (bb.h)\<close>

datatype bb_sem = NEmpty | NFull | BLock

datatype 'a bb_event = Enq 'a | Deq 'a

record 'a bounded_buffer =
  bb_head :: u32
  bb_n :: u32
  bb_data :: "'a list"
  bb_log :: "'a bb_event list"

datatype 'a bb_call = Put 'a | Get

text \<open>
  The points of \<^verbatim>\<open>put\<close> and \<^verbatim>\<open>get\<close>, named after the action that follows; each carries the calls the
  thread has still to make, and \<^verbatim>\<open>get\<close> its local variable \<^verbatim>\<open>out\<close>.
\<close>

datatype 'a bb_pc =
    Next "'a bb_call list"
  | Put_Lock 'a "'a bb_call list" | Put_Write 'a "'a bb_call list" | Put_Count 'a "'a bb_call list"
  | Put_Unlock "'a bb_call list" | Put_Full "'a bb_call list"
  | Get_Lock "'a bb_call list" | Get_Read "'a bb_call list" | Get_Head 'a "'a bb_call list"
  | Get_Count 'a "'a bb_call list" | Get_Unlock 'a "'a bb_call list" | Get_Empty 'a "'a bb_call list"

definition bb_slot :: "u32 \<Rightarrow> 'a bounded_buffer \<Rightarrow> nat" where
  "bb_slot N b = unat ((bb_head b + bb_n b) mod N)"

fun bb_prog :: "u32 \<Rightarrow> 'a bb_pc \<Rightarrow> 'a bounded_buffer \<Rightarrow> (bb_sem, 'a bounded_buffer, 'a bb_pc) action" where
  "bb_prog N (Next []) b = Done"
| "bb_prog N (Next (Put x # k)) b = Sem_Down NEmpty (Put_Lock x k)"
| "bb_prog N (Put_Lock x k) b = Sem_Down BLock (Put_Write x k)"
| "bb_prog N (Put_Write x k) b = Local (b\<lparr>bb_data := (bb_data b)[bb_slot N b := x]\<rparr>) (Put_Count x k)"
| "bb_prog N (Put_Count x k) b = Local (b\<lparr>bb_n := bb_n b + 1, bb_log := bb_log b @ [Enq x]\<rparr>) (Put_Unlock k)"
| "bb_prog N (Put_Unlock k) b = Sem_Up BLock (Put_Full k)"
| "bb_prog N (Put_Full k) b = Sem_Up NFull (Next k)"
| "bb_prog N (Next (Get # k)) b = Sem_Down NFull (Get_Lock k)"
| "bb_prog N (Get_Lock k) b = Sem_Down BLock (Get_Read k)"
| "bb_prog N (Get_Read k) b = Local b (Get_Head (bb_data b ! unat (bb_head b)) k)"
| "bb_prog N (Get_Head x k) b = Local (b\<lparr>bb_head := (bb_head b + 1) mod N\<rparr>) (Get_Count x k)"
| "bb_prog N (Get_Count x k) b = Local (b\<lparr>bb_n := bb_n b - 1, bb_log := bb_log b @ [Deq x]\<rparr>) (Get_Unlock x k)"
| "bb_prog N (Get_Unlock x k) b = Sem_Up BLock (Get_Empty x k)"
| "bb_prog N (Get_Empty x k) b = Sem_Up NEmpty (Next k)"

definition bb_sems :: "u32 \<Rightarrow> bb_sem \<Rightarrow> semaphore" where
  "bb_sems N s = (case s of NEmpty \<Rightarrow> semaphore_new N | NFull \<Rightarrow> semaphore_new 0 | BLock \<Rightarrow> semaphore_new 1)"

text \<open>A new buffer of capacity \<open>N\<close> over an array of \<open>N\<close> default elements.\<close>

definition bb_new :: "'a \<Rightarrow> u32 \<Rightarrow> 'a bounded_buffer" where
  "bb_new d N = \<lparr>bb_head = 0, bb_n = 0, bb_data = replicate (unat N) d, bb_log = []\<rparr>"

definition bb_start :: "'a \<Rightarrow> u32 \<Rightarrow> (ptr \<Rightarrow> 'a bb_call list) \<Rightarrow> (bb_sem, 'a bounded_buffer, 'a bb_pc) tsystem" where
  "bb_start d N calls = \<lparr>sems = bb_sems N, shared = bb_new d N, at = (\<lambda>t. Next (calls t))\<rparr>"

subsection \<open>The specification\<close>

text \<open>A queue of at most \<open>N\<close> elements that accepts an event or rejects the sequence.\<close>

fun fifo :: "nat \<Rightarrow> 'a bb_event list \<Rightarrow> 'a list \<Rightarrow> 'a list option" where
  "fifo N [] q = Some q"
| "fifo N (Enq x # es) q = (if length q < N then fifo N es (q @ [x]) else None)"
| "fifo N (Deq x # es) q = (case q of [] \<Rightarrow> None | y # ys \<Rightarrow> if y = x then fifo N es ys else None)"

lemma fifo_append: "fifo N (es @ fs) q = (case fifo N es q of None \<Rightarrow> None | Some r \<Rightarrow> fifo N fs r)"
  by (induction N es q rule: fifo.induct) (auto split: list.splits)

lemma fifo_bound: "fifo N es q = Some r \<Longrightarrow> length q \<le> N \<Longrightarrow> length r \<le> N"
  by (induction N es q rule: fifo.induct) (auto split: if_splits list.splits)

subsection \<open>Who owns what\<close>

fun bb_after :: "bb_sem \<Rightarrow> 'a bb_pc \<Rightarrow> bool" where
  "bb_after NEmpty (Put_Lock x k) = True"
| "bb_after NFull (Get_Lock k) = True"
| "bb_after BLock (Put_Write x k) = True"
| "bb_after BLock (Get_Read k) = True"
| "bb_after s p = False"

fun own_empty :: "'a bb_pc \<Rightarrow> bool" where
  "own_empty (Put_Lock x k) = True" | "own_empty (Put_Write x k) = True" | "own_empty (Put_Count x k) = True"
| "own_empty (Get_Unlock x k) = True" | "own_empty (Get_Empty x k) = True" | "own_empty p = False"

fun own_full :: "'a bb_pc \<Rightarrow> bool" where
  "own_full (Get_Lock k) = True" | "own_full (Get_Read k) = True" | "own_full (Get_Head x k) = True"
| "own_full (Get_Count x k) = True" | "own_full (Put_Unlock k) = True" | "own_full (Put_Full k) = True"
| "own_full p = False"

fun own_lock :: "'a bb_pc \<Rightarrow> bool" where
  "own_lock (Put_Write x k) = True" | "own_lock (Put_Count x k) = True" | "own_lock (Put_Unlock k) = True"
| "own_lock (Get_Read k) = True" | "own_lock (Get_Head x k) = True" | "own_lock (Get_Count x k) = True"
| "own_lock (Get_Unlock x k) = True" | "own_lock p = False"

fun bb_room :: "u32 \<Rightarrow> 'a bb_pc \<Rightarrow> 'a bounded_buffer \<Rightarrow> bool" where
  "bb_room N (Put_Count x k) b = (bb_n b < N)"
| "bb_room N (Get_Count x k) b = (0 < bb_n b \<and> bb_n b \<le> N)"
| "bb_room N p b = True"

lemma unat_inc32: "n < (N :: u32) \<Longrightarrow> unat (n + 1) = unat n + 1"
  using unat_lt_2p32 [of N] by (subst unat_add_no_wrap) (simp_all add: word_less_nat_alt)

lemma unat_dec32: "0 < (n :: u32) \<Longrightarrow> unat n = unat (n - 1) + 1"
  by (metis Suc_eq_plus1 Suc_pred' unat_gt_0 unat_minus_one word_gt_0)

lemma room_arith:
  "n < (N :: u32) \<Longrightarrow> Suc (unat N - unat (n + 1)) = unat N - unat n"
  "0 < n \<Longrightarrow> n \<le> (N :: u32) \<Longrightarrow> unat N - unat (n - 1) = Suc (unat N - unat n)"
  using unat_inc32 [of n N] unat_dec32 [of n] by (auto simp: word_less_nat_alt word_le_nat_alt)

interpretation bb_empty: sem_ledger "bb_prog N" bb_after NEmpty own_empty "\<lambda>b. unat N - unat (bb_n b)" "bb_room N"
proof unfold_locales
  fix p p' :: "'a bb_pc" and b b' s'
  show "bb_prog N p b = Sem_Down s' p' \<Longrightarrow> bb_after s' p'" by (cases "(N, p, b)" rule: bb_prog.cases) auto
  show "bb_prog N p b = Sem_Down s' p' \<Longrightarrow>
      if s' = NEmpty then \<not> own_empty p \<and> own_empty p' else own_empty p' = own_empty p"
    by (cases "(N, p, b)" rule: bb_prog.cases) auto
  show "bb_prog N p b = Sem_Up s' p' \<Longrightarrow>
      if s' = NEmpty then own_empty p \<and> \<not> own_empty p' else own_empty p' = own_empty p"
    by (cases "(N, p, b)" rule: bb_prog.cases) auto
  show "bb_prog N p b = Local b' p' \<Longrightarrow> bb_room N p b \<Longrightarrow>
      unat N - unat (bb_n b') + of_bool (own_empty p) = unat N - unat (bb_n b) + of_bool (own_empty p')"
    by (cases "(N, p, b)" rule: bb_prog.cases)
       (auto simp: room_arith)
  show "bb_after NEmpty p \<Longrightarrow> own_empty p" by (cases "(NEmpty, p)" rule: bb_after.cases) auto
qed

interpretation bb_full: sem_ledger "bb_prog N" bb_after NFull own_full "\<lambda>b. unat (bb_n b)" "bb_room N"
proof unfold_locales
  fix p p' :: "'a bb_pc" and b b' s'
  show "bb_prog N p b = Sem_Down s' p' \<Longrightarrow>
      if s' = NFull then \<not> own_full p \<and> own_full p' else own_full p' = own_full p"
    by (cases "(N, p, b)" rule: bb_prog.cases) auto
  show "bb_prog N p b = Sem_Up s' p' \<Longrightarrow>
      if s' = NFull then own_full p \<and> \<not> own_full p' else own_full p' = own_full p"
    by (cases "(N, p, b)" rule: bb_prog.cases) auto
  show "bb_prog N p b = Local b' p' \<Longrightarrow> bb_room N p b \<Longrightarrow>
      unat (bb_n b') + of_bool (own_full p) = unat (bb_n b) + of_bool (own_full p')"
    by (cases "(N, p, b)" rule: bb_prog.cases) (auto simp: unat_inc32 unat_dec32)
  show "bb_after NFull p \<Longrightarrow> own_full p" by (cases "(NFull, p)" rule: bb_after.cases) auto
qed

interpretation bb_lock: sem_ledger "bb_prog N" bb_after BLock own_lock "\<lambda>b. Suc 0" "\<lambda>p b. True"
proof unfold_locales
  fix p p' :: "'a bb_pc" and b b' s'
  show "bb_prog N p b = Sem_Down s' p' \<Longrightarrow>
      if s' = BLock then \<not> own_lock p \<and> own_lock p' else own_lock p' = own_lock p"
    by (cases "(N, p, b)" rule: bb_prog.cases) auto
  show "bb_prog N p b = Sem_Up s' p' \<Longrightarrow>
      if s' = BLock then own_lock p \<and> \<not> own_lock p' else own_lock p' = own_lock p"
    by (cases "(N, p, b)" rule: bb_prog.cases) auto
  show "bb_prog N p b = Local b' p' \<Longrightarrow> Suc 0 + of_bool (own_lock p) = Suc 0 + of_bool (own_lock p')"
    by (cases "(N, p, b)" rule: bb_prog.cases) auto
  show "bb_after BLock p \<Longrightarrow> own_lock p" by (cases "(BLock, p)" rule: bb_after.cases) auto
qed

lemmas bb_balance = bb_empty.balanced_def bb_full.balanced_def bb_lock.balanced_def

subsection \<open>The circular array\<close>

definition window :: "'a list \<Rightarrow> nat \<Rightarrow> nat \<Rightarrow> nat \<Rightarrow> 'a list" where
  "window d N h n = map (\<lambda>i. d ! ((h + i) mod N)) [0..<n]"

lemma window_write: "n < N \<Longrightarrow> window (d[(h + n) mod N := x]) N h n = window d N h n"
proof -
  assume n: "n < N"
  have "(h + i) mod N \<noteq> (h + n) mod N" if "i < n" for i
  proof
    assume "(h + i) mod N = (h + n) mod N"
    then have "(h + n - (h + i)) mod N = 0" using mod_eq_dvd_iff_nat [of "h + i" "h + n" N] that by (simp add: mod_eq_0_iff_dvd)
    then show False using that n by simp
  qed
  then have "d[(h + n) mod N := x] ! ((h + i) mod N) = d ! ((h + i) mod N)" if "i < n" for i
    using that by (metis nth_list_update_neq)
  then show ?thesis by (simp add: window_def)
qed

lemma window_Suc: "window d N h (Suc n) = window d N h n @ [d ! ((h + n) mod N)]"
  by (simp add: window_def)

lemma window_head: "0 < n \<Longrightarrow> h < N \<Longrightarrow> window d N h n = d ! h # window d N (Suc h mod N) (n - 1)"
proof -
  assume "0 < n" "h < N"
  then have "[0..<n] = 0 # map Suc [0..<n - 1]" by (metis Suc_pred' map_Suc_upt upt_conv_Cons)
  then show ?thesis using \<open>h < N\<close> by (simp add: window_def mod_Suc_eq mod_add_left_eq comp_def)
qed

lemma length_window [simp]: "length (window d N h n) = n"
  by (simp add: window_def)

subsection \<open>The invariant\<close>

abbreviation bb_queue :: "u32 \<Rightarrow> 'a bounded_buffer \<Rightarrow> 'a list option" where
  "bb_queue N b \<equiv> fifo (unat N) (bb_log b) []"

definition bb_window :: "u32 \<Rightarrow> 'a bounded_buffer \<Rightarrow> 'a list" where
  "bb_window N b = window (bb_data b) (unat N) (unat (bb_head b)) (unat (bb_n b))"

fun bb_at :: "u32 \<Rightarrow> 'a bb_pc \<Rightarrow> 'a bounded_buffer \<Rightarrow> bool" where
  "bb_at N (Put_Count x k) b = (bb_queue N b = Some (bb_window N b) \<and> bb_data b ! bb_slot N b = x)"
| "bb_at N (Get_Head x k) b = (bb_queue N b = Some (bb_window N b) \<and> bb_data b ! unat (bb_head b) = x)"
| "bb_at N (Get_Count x k) b =
     (bb_queue N b = Some (x # window (bb_data b) (unat N) (unat (bb_head b)) (unat (bb_n b - 1))))"
| "bb_at N p b = (bb_queue N b = Some (bb_window N b))"

definition bb_shape :: "u32 \<Rightarrow> 'a bounded_buffer \<Rightarrow> bool" where
  "bb_shape N b \<longleftrightarrow> length (bb_data b) = unat N \<and> bb_head b < N \<and> bb_n b \<le> N"

definition bb_consistent :: "u32 \<Rightarrow> ptr set \<Rightarrow> (bb_sem, 'a bounded_buffer, 'a bb_pc) tsystem \<Rightarrow> bool" where
  "bb_consistent N T st \<longleftrightarrow> bb_shape N (shared st) \<and>
     (\<forall>t \<in> bb_lock.owners T st. bb_at N (at st t) (shared st)) \<and>
     (bb_lock.owners T st = {} \<longrightarrow> bb_queue N (shared st) = Some (bb_window N (shared st)))"

definition bb_inv :: "u32 \<Rightarrow> ptr set \<Rightarrow> (bb_sem, 'a bounded_buffer, 'a bb_pc) tsystem \<Rightarrow> bool" where
  "bb_inv N T st \<longleftrightarrow>
     bb_consistent N T st \<and> bb_empty.parked T st \<and>
     bb_empty.balanced N T st \<and> bb_full.balanced T st \<and> bb_lock.balanced T st"

lemma bb_consistentD:
  assumes "bb_consistent N T st"
  shows "bb_shape N (shared st)"
    and "t \<in> bb_lock.owners T st \<Longrightarrow> bb_at N (at st t) (shared st)"
    and "bb_lock.owners T st = {} \<Longrightarrow> bb_queue N (shared st) = Some (bb_window N (shared st))"
  using assms by (auto simp: bb_consistent_def)

lemma bb_slot_nat:
  assumes "bb_shape N b" "N \<le> 0x80000000"
  shows "bb_slot N b = (unat (bb_head b) + unat (bb_n b)) mod unat N"
proof -
  have "unat N \<le> 2147483648" using assms(2) by (simp add: word_le_nat_alt)
  then have "unat (bb_head b) + unat (bb_n b) < 2 ^ 32"
    using assms(1) by (auto simp: bb_shape_def word_less_nat_alt word_le_nat_alt)
  then show ?thesis by (simp add: bb_slot_def unat_mod unat_add_no_wrap)
qed

text \<open>One access inside the critical section.\<close>

lemma bb_local_step:
  assumes sh: "bb_shape N b" and N: "N \<le> 0x80000000" and e: "bb_prog N p b = Local b' p'"
    and a: "bb_at N p b" and room: "own_empty p \<Longrightarrow> own_lock p \<Longrightarrow> \<not> own_full p \<Longrightarrow> bb_room N (Put_Count x []) b"
    and room': "own_full p \<Longrightarrow> own_lock p \<Longrightarrow> 0 < bb_n b"
  shows "bb_shape N b' \<and> bb_at N p' b'"
proof -
  note nat = word_less_nat_alt word_le_nat_alt
  show ?thesis
  proof (cases "(N, p, b)" rule: bb_prog.cases)
    case (4 M x k c)
    then show ?thesis using e sh a N room by (auto simp: bb_shape_def bb_window_def bb_slot_nat nat window_write)
  next
    case (5 M x k c)
    then show ?thesis using e sh a N room
      by (auto simp: bb_shape_def bb_window_def bb_slot_nat nat window_Suc fifo_append unat_inc32)
  next
    case (10 M k c)
    then show ?thesis using e sh a by auto
  next
    case (11 M x k c)
    have n: "0 < bb_n b" using 11 room' by simp
    have h: "unat ((bb_head b + 1) mod N) = Suc (unat (bb_head b)) mod unat N"
      using sh unat_inc32 [of "bb_head b" N] by (simp add: bb_shape_def unat_mod)
    have "bb_window N b = bb_data b ! unat (bb_head b) # window (bb_data b) (unat N)
        (Suc (unat (bb_head b)) mod unat N) (unat (bb_n b) - 1)"
      unfolding bb_window_def using n sh by (intro window_head) (auto simp: bb_shape_def nat)
    moreover have "unat (bb_n b) - 1 = unat (bb_n b - 1)" using unat_dec32 [OF n] by simp
    moreover have "0 < unat N" using sh by (auto simp: bb_shape_def nat)
    ultimately show ?thesis using 11 e sh a h by (auto simp: bb_shape_def nat)
  next
    case (12 M x k c)
    have n: "0 < bb_n b" using 12 room' by simp
    show ?thesis using 12 e sh a unat_dec32 [OF n] by (auto simp: bb_shape_def bb_window_def nat fifo_append)
  qed (use e in auto)
qed

lemma bb_after_at: "bb_after BLock p \<Longrightarrow> bb_at N p b \<longleftrightarrow> bb_queue N b = Some (bb_window N b)"
  by (cases "(BLock, p)" rule: bb_after.cases) auto

text \<open>What the awake threads own, from the three ledgers.\<close>

lemma bb_awake:
  assumes inv: "bb_inv N T st" and T: "finite T" "t \<in> T" "\<not> asleep st t"
  shows "own_empty (at st t) \<Longrightarrow> bb_n (shared st) < N"
    and "own_full (at st t) \<Longrightarrow> 0 < bb_n (shared st)"
    and "own_lock (at st t) \<Longrightarrow> bb_lock.owners T st = {t}"
proof -
  have w: "t \<notin> set (waiting (sems st s))" for s using T(3) unfolding asleep_def by blast
  have b: "bb_empty.balanced N T st" "bb_full.balanced T st" "bb_lock.balanced T st"
    using inv by (simp_all add: bb_inv_def)
  show "bb_n (shared st) < N" if "own_empty (at st t)"
    using bb_empty.owner_counts [OF b(1) T(1), of t] that T(2) w by (simp add: bb_empty.owners_def word_less_nat_alt)
  show "0 < bb_n (shared st)" if "own_full (at st t)"
    using bb_full.owner_counts [OF b(2) T(1), of t] that T(2) w by (auto simp: bb_full.owners_def word_gt_0)
  show "bb_lock.owners T st = {t}" if "own_lock (at st t)"
  proof -
    have o: "t \<in> bb_lock.owners T st" using that T(2) w by (simp add: bb_lock.owners_def)
    then have "unat (count (sems st BLock)) = 0" using bb_lock.owner_counts [OF b(3) T(1) o] by simp
    then have "card (bb_lock.owners T st) = 1" using b(3) unfolding bb_lock.balanced_def by simp
    then show ?thesis using o by (auto simp: card_1_singleton_iff)
  qed
qed

text \<open>A step on a semaphore leaves the array alone; whoever gets the lock finds it consistent.\<close>

lemma bb_sem_step:
  assumes con: "bb_consistent N T st" and sh: "shared st' = shared st"
    and keep: "bb_queue N (shared st) \<noteq> Some (bb_window N (shared st)) \<Longrightarrow>
      bb_lock.owners T st' = bb_lock.owners T st"
    and new: "\<And>u. u \<in> bb_lock.owners T st' \<Longrightarrow>
      u \<in> bb_lock.owners T st \<and> at st' u = at st u \<or>
      bb_queue N (shared st) = Some (bb_window N (shared st)) \<and> bb_after BLock (at st' u)"
  shows "bb_consistent N T st'"
proof -
  have "bb_at N (at st' u) (shared st')" if "u \<in> bb_lock.owners T st'" for u
    using new [OF that] bb_consistentD(2) [OF con] bb_after_at [of "at st' u" N "shared st"] sh by auto
  moreover have "bb_queue N (shared st') = Some (bb_window N (shared st'))" if "bb_lock.owners T st' = {}"
    using that keep bb_consistentD(3) [OF con] sh by fastforce
  ultimately show ?thesis using bb_consistentD(1) [OF con] sh by (simp add: bb_consistent_def)
qed

lemma bb_down_step:
  assumes inv: "bb_inv N T st" and T: "finite T" "t \<in> T" "\<not> asleep st t"
    and a: "bb_prog N (at st t) (shared st) = Sem_Down s q"
  shows "bb_consistent N T (tstep (bb_prog N) t st)"
proof -
  let ?st = "tstep (bb_prog N) t st" and ?fits = "bb_queue N (shared st) = Some (bb_window N (shared st))"
  have con: "bb_consistent N T st" and b: "bb_lock.balanced T st" using inv by (simp_all add: bb_inv_def)
  have st: "?st = st\<lparr>sems := (sems st)(s := fst (sem_down (sems st s) t)), at := (at st)(t := q)\<rparr>"
    using T(3) a by (simp add: tstep_def)
  have p: "\<not> own_lock (at st t)" "own_lock q \<longleftrightarrow> s = BLock" "s = BLock \<longrightarrow> bb_after BLock q"
    using a by (cases "(N, at st t, shared st)" rule: bb_prog.cases; auto)+
  have w: "t \<notin> set (waiting (sems st s))" for s using T(3) unfolding asleep_def by blast
  have free: "?fits" if "s = BLock" "count (sems st BLock) > 0"
  proof -
    have "0 < unat (count (sems st BLock))" using that(2) by (simp add: word_less_nat_alt)
    then have "card (bb_lock.owners T st) = 0" using b unfolding bb_lock.balanced_def by linarith
    then show ?thesis using T(1) bb_consistentD(3) [OF con] by (simp add: bb_lock.owners_def)
  qed
  show ?thesis
  proof (rule bb_sem_step [OF con])
    show "shared ?st = shared st" by (simp add: st)
    show "bb_lock.owners T ?st = bb_lock.owners T st" if "\<not> ?fits"
      using that free p w by (auto simp: bb_lock.owners_def st sem_down_def)
    show "u \<in> bb_lock.owners T st \<and> at ?st u = at st u \<or> ?fits \<and> bb_after BLock (at ?st u)"
      if "u \<in> bb_lock.owners T ?st" for u
      using that free p by (auto simp: bb_lock.owners_def st sem_down_def split: if_splits)
  qed
qed

lemma bb_up_step:
  assumes inv: "bb_inv N T st" and T: "finite T" "t \<in> T" "\<not> asleep st t"
    and a: "bb_prog N (at st t) (shared st) = Sem_Up s q"
  shows "bb_consistent N T (tstep (bb_prog N) t st)"
proof -
  let ?st = "tstep (bb_prog N) t st" and ?fits = "bb_queue N (shared st) = Some (bb_window N (shared st))"
  have con: "bb_consistent N T st" and parked: "bb_empty.parked T st" using inv by (simp_all add: bb_inv_def)
  have st: "?st = st\<lparr>sems := (sems st)(s := fst (sem_up (sems st s))), at := (at st)(t := q)\<rparr>"
    using T(3) a by (simp add: tstep_def)
  have p: "own_lock (at st t) \<longleftrightarrow> s = BLock" "\<not> own_lock q"
    and fits: "s = BLock \<Longrightarrow> bb_at N (at st t) (shared st) \<Longrightarrow> ?fits"
    using a by (cases "(N, at st t, shared st)" rule: bb_prog.cases; auto)+
  have lock: "?fits \<and> bb_lock.owners T st = {t}" if "s = BLock"
    using bb_awake(3) [OF inv T] p(1) that fits bb_consistentD(2) [OF con, of t] by simp
  show ?thesis
  proof (rule bb_sem_step [OF con])
    show "shared ?st = shared st" by (simp add: st)
    show "bb_lock.owners T ?st = bb_lock.owners T st" if "\<not> ?fits"
      using that lock p by (auto simp: bb_lock.owners_def st)
    show "u \<in> bb_lock.owners T st \<and> at ?st u = at st u \<or> ?fits \<and> bb_after BLock (at ?st u)"
      if u: "u \<in> bb_lock.owners T ?st" for u
    proof (cases "s = BLock")
      case True
      have ne: "u \<noteq> t" using u p by (auto simp: bb_lock.owners_def st)
      then have "u \<in> set (waiting (sems st BLock))"
        using u lock [OF True] by (auto simp: bb_lock.owners_def st set_eq_iff)
      then have "bb_after BLock (at st u)" by (rule bb_empty.parkedD(4) [OF parked])
      then show ?thesis using lock True ne by (simp add: st)
    next
      case False
      then show ?thesis using u p by (auto simp: bb_lock.owners_def st split: if_splits)
    qed
  qed
qed

lemma bb_access_step:
  assumes inv: "bb_inv N T st" and T: "finite T" "t \<in> T" "\<not> asleep st t" and N: "N \<le> 0x80000000"
    and a: "bb_prog N (at st t) (shared st) = Local b q"
  shows "bb_consistent N T (tstep (bb_prog N) t st)"
proof -
  have con: "bb_consistent N T st" using inv by (simp add: bb_inv_def)
  have w: "t \<notin> set (waiting (sems st s))" for s using T(3) unfolding asleep_def by blast
  have own: "own_lock (at st t) \<and> own_lock q" using a by (cases "(N, at st t, shared st)" rule: bb_prog.cases) auto
  have o: "bb_lock.owners T st = {t}" using bb_awake(3) [OF inv T] own by simp
  then have o': "bb_lock.owners T (tstep (bb_prog N) t st) = {t}"
    using own w T a by (auto simp: tstep_def bb_lock.owners_def set_eq_iff)
  have "bb_at N (at st t) (shared st)" using bb_consistentD(2) [OF con] o by simp
  then have "bb_shape N b \<and> bb_at N q b"
    by (rule bb_local_step [OF bb_consistentD(1) [OF con] N a]) (simp_all add: bb_awake [OF inv T])
  then show ?thesis using o' T(3) a by (simp add: bb_consistent_def) (simp add: tstep_def)
qed

lemma bb_ledgers_step:
  assumes inv: "bb_inv N T st" and T: "finite T" "t \<in> T" "\<not> asleep st t"
  defines "st' \<equiv> tstep (bb_prog N) t st"
  shows "bb_empty.parked T st'" "bb_empty.balanced N T st'" "bb_full.balanced T st'" "bb_lock.balanced T st'"
proof -
  have parked: "bb_empty.parked T st" and sh: "bb_shape N (shared st)"
    and b: "bb_empty.balanced N T st" "bb_full.balanced T st" "bb_lock.balanced T st"
    using inv by (simp_all add: bb_inv_def bb_consistent_def)
  have room: "bb_room N (at st t) (shared st)"
    using bb_awake [OF inv T] sh by (cases "(N, at st t, shared st)" rule: bb_room.cases) (auto simp: bb_shape_def)
  have n: "unat (bb_n (shared st)) < 2 ^ 64" "unat N - unat (bb_n (shared st)) < 2 ^ 64"
    using unat_lt_2p32 [of "bb_n (shared st)"] unat_lt_2p32 [of N] by simp_all
  show "bb_empty.parked T st'" "bb_empty.balanced N T st'" "bb_full.balanced T st'" "bb_lock.balanced T st'"
    unfolding st'_def
    by (rule bb_empty.parked_tstep [OF parked T(2)] bb_empty.balanced_tstep [OF parked b(1) T(1,2) room n(2)]
        bb_full.balanced_tstep [OF parked b(2) T(1,2) room n(1)] bb_lock.balanced_tstep [OF parked b(3) T(1,2)]; simp)+
qed

lemma bb_inv_step:
  assumes inv: "bb_inv N T st" and T: "finite T" "t \<in> T" and N: "N \<le> 0x80000000"
  shows "bb_inv N T (tstep (bb_prog N) t st)"
proof (cases "asleep st t")
  case True
  then show ?thesis using inv by (simp add: tstep_def)
next
  case False
  have "bb_consistent N T (tstep (bb_prog N) t st)"
  proof (cases "bb_prog N (at st t) (shared st)")
    case Done
    then show ?thesis using inv False by (simp add: tstep_def bb_inv_def)
  qed (blast intro: bb_down_step [OF inv T False] bb_up_step [OF inv T False] bb_access_step [OF inv T False N])+
  then show ?thesis using bb_ledgers_step [OF inv T False] by (simp add: bb_inv_def)
qed

lemma bb_inv_start:
  assumes "0 < N"
  shows "bb_inv N T (bb_start d N calls)"
proof -
  have "unat (ucast N :: u64) = unat N"
    using unat_lt_2p32 [of N] by (simp add: unsigned_ucast_eq take_bit_nat_eq_self)
  then show ?thesis
    using assms
    by (auto simp: bb_inv_def bb_consistent_def bb_shape_def bb_start_def bb_new_def bb_sems_def bb_window_def
        window_def semaphore_new_def sem_inv_def bb_empty.parked_def bb_balance bb_empty.owners_def
        bb_full.owners_def bb_lock.owners_def split: bb_sem.splits)
qed

lemma bb_invariant:
  assumes "treach (bb_prog N) T (bb_start d N calls) st" "finite T" "0 < N" "N \<le> 0x80000000"
  shows "bb_inv N T st"
  using assms(1)
proof induction
  case start
  then show ?case by (intro bb_inv_start assms(3))
next
  case (step st t)
  then show ?case using bb_inv_step assms(2,4) by blast
qed

subsection \<open>Properties\<close>

text \<open>
  \<^bold>\<open>C35.\<close> The bounded buffer is a bounded FIFO queue (bb.h). Whatever calls of \<^verbatim>\<open>put\<close> and \<^verbatim>\<open>get\<close> any finite
  number of threads make, in every interleaving of their accesses to the shared fields: the sequence of
  insertions and removals is accepted by a queue of capacity \<open>N\<close> (nothing is lost, duplicated or
  reordered, nothing is taken from an empty buffer or put into a full one), at most one thread is
  in the critical section, all indices stay inside the array, and when nobody is inside, the array
  from \<^verbatim>\<open>head\<close> on holds exactly the queue. Capacities up to \<open>2 ^ 31\<close> are covered; above, \<^verbatim>\<open>head + n\<close> can wrap.
\<close>

theorem bounded_buffer_refines_fifo:
  assumes "treach (bb_prog N) T (bb_start d N calls) st" "finite T" "0 < N" "N \<le> 0x80000000"
  shows "\<exists>q. fifo (unat N) (bb_log (shared st)) [] = Some q \<and> length q \<le> unat N \<and>
    length (bb_data (shared st)) = unat N \<and> bb_head (shared st) < N \<and>
    (\<forall>t u. t \<in> bb_lock.owners T st \<and> u \<in> bb_lock.owners T st \<longrightarrow> t = u) \<and>
    (bb_lock.owners T st = {} \<longrightarrow> q = bb_window N (shared st))"
proof -
  have inv: "bb_inv N T st" by (rule bb_invariant [OF assms])
  have b: "bb_lock.balanced T st" and con: "bb_consistent N T st" using inv by (simp_all add: bb_inv_def)
  have c: "card (bb_lock.owners T st) \<le> 1" using b unfolding bb_lock.balanced_def by linarith
  have f: "finite (bb_lock.owners T st)" using assms(2) by (simp add: bb_lock.owners_def)
  have one: "t = u" if "t \<in> bb_lock.owners T st" "u \<in> bb_lock.owners T st" for t u
    using card_le_Suc0_iff_eq [OF f] c that by auto
  obtain q where q: "fifo (unat N) (bb_log (shared st)) [] = Some q"
  proof (cases "bb_lock.owners T st = {}")
    case True
    then show ?thesis using that bb_consistentD(3) [OF con] by blast
  next
    case False
    then obtain t where "bb_at N (at st t) (shared st)" using bb_consistentD(2) [OF con] by blast
    then show ?thesis using that by (cases "(N, at st t, shared st)" rule: bb_at.cases) auto
  qed
  then show ?thesis
    using one fifo_bound [OF q] bb_consistentD [OF con] by (auto simp: bb_shape_def)
qed

definition bb_demo :: "(bb_sem, nat bounded_buffer, nat bb_pc) tsystem" where
  "bb_demo = fold (tstep (bb_prog 1)) [4, 8, 4, 12, 4, 8, 4, 4, 4, 12, 12, 12]
     (bb_start 0 1 ((\<lambda>_. [])(4 := [Put 7], 8 := [Put 9], 12 := [Get])))"

lemma asleep_bb: "asleep st t \<longleftrightarrow> t \<in> set (waiting (sems st NEmpty)) \<or> t \<in> set (waiting (sems st NFull)) \<or>
   t \<in> set (waiting (sems st BLock))"
  unfolding asleep_def by (metis bb_sem.exhaust)

lemmas bb_run = tstep_def asleep_bb bb_start_def bb_new_def bb_sems_def semaphore_new_def sem_down_def sem_up_def bb_slot_def

lemma bb_demo_log: "bb_log (shared bb_demo) = [Enq 7]" "bb_lock.owners {4, 8, 12} bb_demo = {12}"
  by (simp_all add: bb_demo_def bb_run bb_lock.owners_def Collect_conv_if) auto

lemma bb_demo_reach: "treach (bb_prog 1) {4, 8, 12} (bb_start 0 1 ((\<lambda>_. [])(4 := [Put 7], 8 := [Put 9], 12 := [Get]))) bb_demo"
  unfolding bb_demo_def by (intro treach_fold treach.start) auto

theorem bounded_buffer_refines_fifo_witness:
  "\<exists>q. fifo 1 (bb_log (shared bb_demo)) [] = Some q \<and> length q \<le> 1 \<and> bb_log (shared bb_demo) = [Enq 7]"
  using bounded_buffer_refines_fifo [OF bb_demo_reach] by (simp add: bb_demo_log)

text \<open>A thread asleep on one semaphore is at a point that owns nothing of the others.\<close>

lemma bb_asleep_owns:
  assumes "bb_empty.parked T st" "t \<in> set (waiting (sems st s))"
  shows "own_empty (at st t) \<Longrightarrow> s \<noteq> NFull" "own_full (at st t) \<Longrightarrow> s \<noteq> NEmpty" "own_lock (at st t) \<Longrightarrow> s = BLock"
  using bb_empty.parkedD(4) [OF assms] by (cases "(s, at st t)" rule: bb_after.cases; auto)+

text \<open>
  No lost wake-up (bb.h). When every thread has finished its calls or sleeps, the threads that
  sleep in \<^verbatim>\<open>put\<close> do so because the buffer is full and those that sleep in \<^verbatim>\<open>get\<close> because it is
  empty; nobody sleeps on the lock. So producers and consumers never wait for each other.
\<close>

theorem bounded_buffer_no_lost_wakeup:
  assumes "treach (bb_prog N) T (bb_start d N calls) st" "finite T" "0 < N" "N \<le> 0x80000000"
    and quiet: "\<forall>t \<in> T. asleep st t \<or> at st t = Next []"
  shows "waiting (sems st BLock) = [] \<and>
    (waiting (sems st NEmpty) \<noteq> [] \<longrightarrow> bb_n (shared st) = N) \<and>
    (waiting (sems st NFull) \<noteq> [] \<longrightarrow> bb_n (shared st) = 0)"
proof -
  have inv: "bb_inv N T st" by (rule bb_invariant [OF assms(1-4)])
  then have p: "bb_empty.parked T st" and sh: "bb_n (shared st) \<le> N"
    and b: "bb_empty.balanced N T st" "bb_full.balanced T st" "bb_lock.balanced T st"
    by (simp_all add: bb_inv_def bb_consistent_def bb_shape_def)
  have sleeps: "\<exists>s. t \<in> set (waiting (sems st s))" if "t \<in> T" "own_empty (at st t) \<or> own_full (at st t) \<or> own_lock (at st t)" for t
    using quiet that by (auto simp: asleep_def)
  have "bb_lock.owners T st = {}"
    using sleeps bb_asleep_owns(3) [OF p] by (force simp: bb_lock.owners_def)
  then have "unat (count (sems st BLock)) = 1" using b(3) unfolding bb_lock.balanced_def by simp
  then have lock: "waiting (sems st BLock) = []"
    using bb_empty.parkedD(1) [OF p, of BLock] by (auto simp: sem_inv_def)
  have two: "s = NEmpty \<or> s = NFull" if "t \<in> set (waiting (sems st s))" for s t
    using that lock by (cases s) auto
  have "bb_empty.owners T st = {}" "bb_full.owners T st = {}"
    using sleeps two bb_asleep_owns(1,2) [OF p] by (force simp: bb_empty.owners_def bb_full.owners_def)+
  then have c: "unat (count (sems st NEmpty)) = unat N - unat (bb_n (shared st))"
    "unat (count (sems st NFull)) = unat (bb_n (shared st))"
    using b(1,2) by (simp_all add: bb_balance)
  have "bb_n (shared st) = N" if "waiting (sems st NEmpty) \<noteq> []"
    using that bb_empty.parkedD(1) [OF p, of NEmpty] c(1) sh
    by (auto simp: sem_inv_def word_le_nat_alt word_unat_eq_iff)
  moreover have "bb_n (shared st) = 0" if "waiting (sems st NFull) \<noteq> []"
    using that bb_empty.parkedD(1) [OF p, of NFull] c(2) by (auto simp: sem_inv_def word_unat_eq_iff)
  ultimately show ?thesis using lock by blast
qed

definition bb_stuck :: "(bb_sem, nat bounded_buffer, nat bb_pc) tsystem" where
  "bb_stuck = fold (tstep (bb_prog 1)) [4, 4, 4, 4, 4, 4, 4, 8]
     (bb_start 0 1 ((\<lambda>_. [])(4 := [Put 7, Put 9])))"

theorem bounded_buffer_no_lost_wakeup_witness:
  "waiting (sems bb_stuck NEmpty) = [4] \<and> bb_n (shared bb_stuck) = 1"
proof -
  have r: "treach (bb_prog 1) {4, 8} (bb_start 0 1 ((\<lambda>_. [])(4 := [Put 7, Put 9]))) bb_stuck"
    unfolding bb_stuck_def by (intro treach_fold treach.start) auto
  have w: "waiting (sems bb_stuck NEmpty) = [4]" "at bb_stuck 8 = Next []"
    by (simp_all add: bb_stuck_def bb_run)
  then have "\<forall>t \<in> {4, 8}. asleep bb_stuck t \<or> at bb_stuck t = Next []" by (simp add: asleep_bb)
  then show ?thesis using bounded_buffer_no_lost_wakeup [OF r] w by simp
qed

end
