(* ===== verification/Barriers.thy ===== *)
theory Barriers
  imports Sync_Threads
begin

text \<open>
  The one-shot barrier of \<^verbatim>\<open>kernel/barrier.h\<close> and the futures of \<^verbatim>\<open>kernel/future.h\<close>, both built from one
  semaphore, with their methods split at each access to the shared fields and the threads that
  call them interleaved in every order.
\<close>

subsection \<open>Barrier (barrier.h)\<close>

text \<open>The points of \<^verbatim>\<open>sync\<close>: before the atomic decrement, before \<^verbatim>\<open>down\<close>, before \<^verbatim>\<open>up\<close>, returned.\<close>

datatype barrier_pc = B_Sync | B_Down | B_Up | B_Out | B_Panic

fun barrier_prog :: "barrier_pc \<Rightarrow> u32 \<Rightarrow> (unit, u32, barrier_pc) action" where
  "barrier_prog B_Sync c =
     (let x = c + - 1 in
      Local x (if sint x < 0 then B_Panic else if x = 0 then B_Up else B_Down))"
| "barrier_prog B_Down c = Sem_Down () B_Up"
| "barrier_prog B_Up c = Sem_Up () B_Out"
| "barrier_prog B_Out c = Done"
| "barrier_prog B_Panic c = Done"

definition barrier_new :: "u32 \<Rightarrow> (unit, u32, barrier_pc) tsystem" where
  "barrier_new c = \<lparr>sems = (\<lambda>_. semaphore_new 0), shared = c, at = (\<lambda>_. B_Sync)\<rparr>"

interpretation barrier: sem_ledger barrier_prog "\<lambda>_ p. p = B_Up" "()" "\<lambda>p. p = B_Up" "\<lambda>c. of_bool (c = 0)"
  "\<lambda>p c. p = B_Sync \<longrightarrow> c \<noteq> 0 \<and> 0 \<le> sint (c - 1)"
proof unfold_locales
  fix p p' c c' s'
  show "barrier_prog p c = Sem_Down s' p' \<Longrightarrow> p' = B_Up" by (cases p) (auto simp: Let_def)
  show "barrier_prog p c = Sem_Down s' p' \<Longrightarrow>
      if s' = () then p \<noteq> B_Up \<and> p' = B_Up else (p' = B_Up) = (p = B_Up)" by (cases p) (auto simp: Let_def)
  show "barrier_prog p c = Sem_Up s' p' \<Longrightarrow>
      if s' = () then p = B_Up \<and> p' \<noteq> B_Up else (p' = B_Up) = (p = B_Up)" by (cases p) (auto simp: Let_def)
  show "barrier_prog p c = Local c' p' \<Longrightarrow> p = B_Sync \<longrightarrow> c \<noteq> 0 \<and> 0 \<le> sint (c - 1) \<Longrightarrow>
      of_bool (c' = 0) + of_bool (p = B_Up) = of_bool (c = 0) + (of_bool (p' = B_Up) :: nat)"
    by (cases p) (auto simp: Let_def)
qed auto

text \<open>The count is the number of threads still to come; nobody returns before it is zero.\<close>

definition barrier_inv :: "ptr set \<Rightarrow> (unit, u32, barrier_pc) tsystem \<Rightarrow> bool" where
  "barrier_inv T st \<longleftrightarrow>
     barrier.parked T st \<and> barrier.balanced T st \<and>
     unat (shared st) = card {t \<in> T. at st t = B_Sync} \<and>
     (\<forall>t \<in> T. at st t \<noteq> B_Panic \<and> (at st t = B_Out \<longrightarrow> shared st = 0))"

lemma barrier_count:
  assumes inv: "barrier_inv T st" and T: "finite T" "t \<in> T" "card T < 2 ^ 31" and a: "at st t = B_Sync"
  shows "shared st \<noteq> 0 \<and> 0 \<le> sint (shared st - 1) \<and> unat (shared st - 1) = unat (shared st) - 1"
proof -
  have c: "unat (shared st) = card {t \<in> T. at st t = B_Sync}" using inv by (simp add: barrier_inv_def)
  then have "0 < unat (shared st)" using T a by (auto simp: card_gt_0_iff)
  then have n: "shared st \<noteq> 0" by auto
  then have m: "unat (shared st - 1) = unat (shared st) - 1" by (rule unat_minus_one)
  have "card {t \<in> T. at st t = B_Sync} \<le> card T" using T(1) by (intro card_mono) auto
  then have "unat (shared st - 1) < 2 ^ 31" using c m T(3) by linarith
  then have "sint (shared st - 1) = int (unat (shared st - 1))" by (rule sint_small)
  then show ?thesis using n m by simp
qed

lemma barrier_inv_step:
  assumes inv: "barrier_inv T st" and T: "finite T" "t \<in> T" "card T < 2 ^ 31"
  shows "barrier_inv T (tstep barrier_prog t st)"
proof (cases "asleep st t")
  case True
  then show ?thesis using inv by (simp add: tstep_def)
next
  case False
  let ?st = "tstep barrier_prog t st"
  have p: "barrier.parked T st" "barrier.balanced T st" using inv by (simp_all add: barrier_inv_def)
  have ledger: "barrier.parked T ?st" "barrier.balanced T ?st"
    using barrier_count [OF inv T] barrier.parked_tstep [OF p(1) T(2)] barrier.balanced_tstep [OF p T(1,2)]
    by simp_all
  have up: "shared st = 0" if "at st t = B_Up"
  proof -
    have "t \<in> barrier.owners T st" using that T(2) False by (simp add: barrier.owners_def asleep_def)
    from barrier.owner_counts [OF p(2) T(1) this] show ?thesis by (cases "shared st = 0") simp_all
  qed
  have "unat (shared ?st) = card {u \<in> T. at ?st u = B_Sync} \<and>
     (\<forall>u \<in> T. at ?st u \<noteq> B_Panic \<and> (at ?st u = B_Out \<longrightarrow> shared ?st = 0))"
  proof (cases "at st t = B_Sync")
    case True
    note c = barrier_count [OF inv T True]
    have "{u \<in> T. at ?st u = B_Sync} = {u \<in> T. at st u = B_Sync} - {t}"
      using True False c by (auto simp: tstep_def Let_def)
    moreover have "unat (shared ?st) = unat (shared st) - 1"
      using True False c by (simp add: tstep_def Let_def)
    moreover have "at st u \<noteq> B_Out" if "u \<in> T" for u using inv that c by (auto simp: barrier_inv_def)
    ultimately show ?thesis using inv True False c T by (auto simp: barrier_inv_def tstep_def Let_def)
  next
    case s: False
    then have "at ?st t \<noteq> B_Sync" "shared ?st = shared st" using False by (cases "at st t"; simp add: tstep_def)+
    moreover have "{u \<in> T. at ?st u = B_Sync} = {u \<in> T. at st u = B_Sync}"
      using s False by (cases "at st t") (auto simp: tstep_def)
    ultimately show ?thesis using inv s False up by (cases "at st t") (auto simp: barrier_inv_def tstep_def)
  qed
  then show ?thesis using ledger by (simp add: barrier_inv_def)
qed

lemma barrier_invariant:
  assumes "treach barrier_prog T (barrier_new (of_nat (card T))) st" "finite T" "card T < 2 ^ 31" "T \<noteq> {}"
  shows "barrier_inv T st"
  using assms(1)
proof induction
  case start
  have "unat (of_nat (card T) :: u32) = card T" "card T \<noteq> 0" using assms by simp_all
  moreover from this have "(of_nat (card T) :: u32) \<noteq> 0" by auto
  ultimately show ?case
    by (auto simp: barrier_inv_def barrier_new_def barrier.parked_def barrier.balanced_def barrier.owners_def
        semaphore_new_def sem_inv_def)
next
  case (step st t)
  then show ?case using barrier_inv_step assms by blast
qed

text \<open>
  The barrier (barrier.h). When as many threads as the barrier counts call \<^verbatim>\<open>sync\<close>, in every
  interleaving: none panics, none returns before all have called, and when no thread can move any
  more all have returned.
\<close>

theorem barrier_correct:
  assumes "treach barrier_prog T (barrier_new (of_nat (card T))) st" "finite T" "card T < 2 ^ 31" "T \<noteq> {}"
  shows "(\<forall>t \<in> T. at st t \<noteq> B_Panic) \<and>
    (\<forall>t \<in> T. at st t = B_Out \<longrightarrow> (\<forall>u \<in> T. at st u \<noteq> B_Sync)) \<and>
    ((\<forall>t \<in> T. asleep st t \<or> tstep barrier_prog t st = st) \<longrightarrow> (\<forall>t \<in> T. at st t = B_Out))"
proof (intro conjI impI)
  have inv: "barrier_inv T st" by (rule barrier_invariant [OF assms])
  then show "\<forall>t \<in> T. at st t \<noteq> B_Panic" by (simp add: barrier_inv_def)
  have none: "\<forall>u \<in> T. at st u \<noteq> B_Sync" if "shared st = 0"
    using inv that assms(2) by (auto simp: barrier_inv_def)
  then show "\<forall>t \<in> T. at st t = B_Out \<longrightarrow> (\<forall>u \<in> T. at st u \<noteq> B_Sync)"
    using inv by (auto simp: barrier_inv_def)
  have p: "barrier.parked T st" "barrier.balanced T st" using inv by (simp_all add: barrier_inv_def)
  assume q: "\<forall>t \<in> T. asleep st t \<or> tstep barrier_prog t st = st"
  have stays: "at st t = B_Out" if "t \<in> T" "\<not> asleep st t" for t
  proof -
    have "tstep barrier_prog t st = st" using q that by blast
    then have "at (tstep barrier_prog t st) t = at st t" by simp
    then show ?thesis using that inv by (cases "at st t") (auto simp: tstep_def barrier_inv_def Let_def split: if_splits)
  qed
  have up: "at st t = B_Up" if "asleep st t" for t
    using that barrier.parkedD(4) [OF p(1)] by (auto simp: asleep_def)
  have "\<forall>u \<in> T. at st u \<noteq> B_Sync" using stays up by force
  then have "unat (shared st) = 0" using inv by (auto simp: barrier_inv_def)
  moreover have "barrier.owners T st = {}"
    using stays by (force simp: barrier.owners_def asleep_def)
  ultimately have "unat (count (sems st ())) = 1" using p(2) by (simp add: barrier.balanced_def unat_eq_0)
  then have "waiting (sems st s) = []" for s
    using barrier.parkedD(1) [OF p(1), of s] by (auto simp: sem_inv_def)
  then show "\<forall>t \<in> T. at st t = B_Out" using stays by (simp add: asleep_def)
qed

definition barrier_demo :: "(unit, u32, barrier_pc) tsystem" where
  "barrier_demo = fold (tstep barrier_prog) [4, 8, 4, 8, 4] (barrier_new 2)"

lemma asleep_unit: "asleep st t \<longleftrightarrow> t \<in> set (waiting (sems st ()))"
  by (simp add: asleep_def)

theorem barrier_correct_witness:
  "at barrier_demo 8 = B_Out \<and> at barrier_demo 4 \<noteq> B_Sync"
proof -
  have r: "treach barrier_prog {4, 8} (barrier_new (of_nat (card {4 :: ptr, 8}))) barrier_demo"
    unfolding barrier_demo_def by (rule treach_fold) (simp_all add: treach.start)
  have "at barrier_demo 8 = B_Out"
    by (simp add: barrier_demo_def barrier_new_def tstep_def asleep_unit semaphore_new_def sem_down_def
        sem_up_def Let_def)
  then show ?thesis using barrier_correct [OF r] by simp
qed

text \<open>One call too many stops the kernel.\<close>

lemma barrier_overrun_panics: "barrier_prog B_Sync 0 = Local (- 1) B_Panic"
  by (simp add: Let_def)

subsection \<open>Future (future.h)\<close>

record 'a future_cell =
  isReady :: bool
  result :: "'a option"

text \<open>\<open>F_Fail\<close> is the failing assertion of \<^verbatim>\<open>set\<close>; \<open>F_Got x\<close> has returned \<open>x\<close> from \<^verbatim>\<open>get\<close>.\<close>

datatype 'a future_pc = F_Set 'a | F_Store 'a | F_Mark | F_Wake | F_Fail | F_Finished
  | F_Get | F_Down | F_Up | F_Read | F_Got "'a option"

fun future_prog :: "'a future_pc \<Rightarrow> 'a future_cell \<Rightarrow> (unit, 'a future_cell, 'a future_pc) action" where
  "future_prog (F_Set v) c = Local c (if \<not> isReady c then F_Store v else F_Fail)"
| "future_prog (F_Store v) c = Local (c\<lparr>result := Some v\<rparr>) F_Mark"
| "future_prog F_Mark c = Local (c\<lparr>isReady := True\<rparr>) F_Wake"
| "future_prog F_Wake c = Sem_Up () F_Finished"
| "future_prog F_Get c = Local c (if \<not> isReady c then F_Down else F_Read)"
| "future_prog F_Down c = Sem_Down () F_Up"
| "future_prog F_Up c = Sem_Up () F_Read"
| "future_prog F_Read c = Local c (F_Got (result c))"
| "future_prog F_Fail c = Done"
| "future_prog F_Finished c = Done"
| "future_prog (F_Got x) c = Done"

definition future_start :: "(ptr \<Rightarrow> 'a future_pc) \<Rightarrow> (unit, 'a future_cell, 'a future_pc) tsystem" where
  "future_start start = \<lparr>sems = (\<lambda>_. semaphore_new 0), shared = \<lparr>isReady = False, result = None\<rparr>, at = start\<rparr>"

interpretation future: sem_ledger future_prog "\<lambda>_ p. p = F_Up" "()" "\<lambda>p. p = F_Up \<or> p = F_Wake"
  "\<lambda>c. of_bool (isReady c)" "\<lambda>p c. p = F_Mark \<longrightarrow> \<not> isReady c"
proof unfold_locales
  fix p p' :: "'a future_pc" and c c' s'
  show "future_prog p c = Sem_Down s' p' \<Longrightarrow> p' = F_Up" by (cases p) auto
  show "future_prog p c = Sem_Down s' p' \<Longrightarrow>
      if s' = () then \<not> (p = F_Up \<or> p = F_Wake) \<and> (p' = F_Up \<or> p' = F_Wake)
      else (p' = F_Up \<or> p' = F_Wake) = (p = F_Up \<or> p = F_Wake)" by (cases p) auto
  show "future_prog p c = Sem_Up s' p' \<Longrightarrow>
      if s' = () then (p = F_Up \<or> p = F_Wake) \<and> \<not> (p' = F_Up \<or> p' = F_Wake)
      else (p' = F_Up \<or> p' = F_Wake) = (p = F_Up \<or> p = F_Wake)" by (cases p) auto
  show "future_prog p c = Local c' p' \<Longrightarrow> p = F_Mark \<longrightarrow> \<not> isReady c \<Longrightarrow>
      of_bool (isReady c') + of_bool (p = F_Up \<or> p = F_Wake) =
      of_bool (isReady c) + (of_bool (p' = F_Up \<or> p' = F_Wake) :: nat)"
    by (cases p) (auto split: if_splits)
qed auto

text \<open>Where the thread that sets the value and the threads that get it can be.\<close>

fun future_at :: "bool \<Rightarrow> 'a \<Rightarrow> 'a future_cell \<Rightarrow> 'a future_pc \<Rightarrow> bool" where
  "future_at True v c (F_Set x) = (x = v \<and> \<not> isReady c)"
| "future_at True v c (F_Store x) = (x = v \<and> \<not> isReady c)"
| "future_at True v c F_Mark = (result c = Some v \<and> \<not> isReady c)"
| "future_at True v c F_Wake = (result c = Some v \<and> isReady c)"
| "future_at True v c F_Finished = (result c = Some v \<and> isReady c)"
| "future_at False v c F_Get = True"
| "future_at False v c F_Down = True"
| "future_at False v c F_Up = True"
| "future_at False v c F_Read = isReady c"
| "future_at False v c (F_Got x) = (x = Some v \<and> isReady c)"
| "future_at b v c p = False"

definition future_inv :: "ptr set \<Rightarrow> ptr \<Rightarrow> 'a \<Rightarrow> (unit, 'a future_cell, 'a future_pc) tsystem \<Rightarrow> bool" where
  "future_inv T w v st \<longleftrightarrow> future.parked T st \<and> future.balanced T st \<and>
     (\<forall>t \<in> T. future_at (t = w) v (shared st) (at st t))"

text \<open>A step of one thread leaves the condition on every other thread true.\<close>

lemma future_local:
  assumes "future_prog p c = Local c' p'" "future_at (t = w) v c p" "future_at True v c q"
  shows "future_at (t = w) v c' p'" "\<And>r. future_at False v c r \<Longrightarrow> future_at False v c' r"
    "t \<noteq> w \<Longrightarrow> c' = c"
proof -
  show "future_at (t = w) v c' p'"
    using assms by (cases "t = w"; cases p; cases q) auto
  show "future_at False v c' r" if "future_at False v c r" for r
    using assms that by (cases p; cases r) auto
  show "t \<noteq> w \<Longrightarrow> c' = c" using assms by (cases p) auto
qed

lemma future_inv_step:
  assumes inv: "future_inv T w v st" and T: "finite T" "t \<in> T" "w \<in> T"
  shows "future_inv T w v (tstep future_prog t st)"
proof (cases "asleep st t")
  case True
  then show ?thesis using inv by (simp add: tstep_def)
next
  case False
  let ?st = "tstep future_prog t st" and ?c = "shared st"
  have p: "future.parked T st" "future.balanced T st" using inv by (simp_all add: future_inv_def)
  have f: "future_at (u = w) v ?c (at st u)" if "u \<in> T" for u using inv that by (simp add: future_inv_def)
  have w: "future_at True v ?c (at st w)" using f [OF T(3)] by simp
  have mark: "at st t = F_Mark \<longrightarrow> \<not> isReady ?c" using f [OF T(2)] by (cases "t = w") auto
  have ready: "isReady ?c" if "at st t = F_Up"
  proof -
    have "t \<in> future.owners T st" using that T(2) False by (simp add: future.owners_def asleep_def)
    from future.owner_counts [OF p(2) T(1) this] show ?thesis by (cases "isReady ?c") simp_all
  qed
  have "future_at (u = w) v (shared ?st) (at ?st u)" if "u \<in> T" for u
  proof (cases "future_prog (at st t) ?c")
    case (Local c' p')
    then have st: "?st = st\<lparr>shared := c', at := (at st)(t := p')\<rparr>" using False by (simp add: tstep_def)
    note l = future_local [OF Local f [OF T(2)] w]
    show ?thesis
    proof (cases "u = t")
      case True
      then show ?thesis using l(1) by (simp add: st)
    next
      case ne: False
      then show ?thesis using f [OF that] l(2,3) by (cases "u = w") (auto simp: st)
    qed
  next
    case (Sem_Down s q)
    then show ?thesis using f [OF that] f [OF T(2)] False by (cases "at st t"; cases "t = w") (auto simp: tstep_def)
  next
    case (Sem_Up s q)
    then show ?thesis using f [OF that] f [OF T(2)] False ready
      by (cases "at st t"; cases "t = w") (auto simp: tstep_def)
  next
    case Done
    then show ?thesis using f [OF that] False by (simp add: tstep_def)
  qed
  moreover have "future.balanced T ?st" by (rule future.balanced_tstep [OF p T(1,2)]) (simp_all add: mark)
  ultimately show ?thesis using future.parked_tstep [OF p(1) T(2)] by (simp add: future_inv_def)
qed

lemma future_invariant:
  assumes "treach future_prog T (future_start start) st" "finite T" "w \<in> T"
    and "start w = F_Set v" "\<forall>t \<in> T - {w}. start t = F_Get"
  shows "future_inv T w v st"
  using assms(1)
proof induction
  case start
  have "future_at (t = w) v \<lparr>isReady = False, result = None\<rparr> (start t)" if "t \<in> T" for t
    using that assms(4,5) by (cases "t = w") auto
  moreover have "start t \<noteq> F_Up \<and> start t \<noteq> F_Wake" if "t \<in> T" for t
    using that assms(4,5) by (cases "t = w") auto
  ultimately show ?case
    by (auto simp: future_inv_def future_start_def future.parked_def future.balanced_def future.owners_def
        semaphore_new_def sem_inv_def)
next
  case (step st t)
  show ?case by (rule future_inv_step [OF step.IH assms(2) step.hyps(2) assms(3)])
qed

text \<open>
  Futures (future.h). When one thread calls \<^verbatim>\<open>set(v)\<close> and any number of others call \<^verbatim>\<open>get\<close>, in every
  interleaving: the assertion of \<^verbatim>\<open>set\<close> holds, a \<^verbatim>\<open>get\<close> that has returned did so after \<open>v\<close> was stored and
  returned \<open>v\<close>, and when no thread can move any more \<^verbatim>\<open>set\<close> and all calls of \<^verbatim>\<open>get\<close> have returned.
\<close>

theorem future_correct:
  assumes "treach future_prog T (future_start start) st" "finite T" "w \<in> T"
    and "start w = F_Set v" "\<forall>t \<in> T - {w}. start t = F_Get"
  shows "(\<forall>t \<in> T. at st t \<noteq> F_Fail) \<and>
    (\<forall>t \<in> T. \<forall>x. at st t = F_Got x \<longrightarrow> x = Some v \<and> result (shared st) = Some v) \<and>
    ((\<forall>t \<in> T. asleep st t \<or> tstep future_prog t st = st) \<longrightarrow>
       at st w = F_Finished \<and> (\<forall>t \<in> T - {w}. at st t = F_Got (Some v)))"
proof (intro conjI impI)
  have inv: "future_inv T w v st" by (rule future_invariant [OF assms])
  have f: "future_at (u = w) v (shared st) (at st u)" if "u \<in> T" for u using inv that by (simp add: future_inv_def)
  have w: "future_at True v (shared st) (at st w)" using f [OF assms(3)] by simp
  show "\<forall>t \<in> T. at st t \<noteq> F_Fail"
  proof
    show "at st t \<noteq> F_Fail" if "t \<in> T" for t using f [OF that] by (cases "t = w") auto
  qed
  have res: "result (shared st) = Some v" if "isReady (shared st)"
    using w that by (cases "at st w") auto
  show "\<forall>t \<in> T. \<forall>x. at st t = F_Got x \<longrightarrow> x = Some v \<and> result (shared st) = Some v"
  proof (intro ballI allI impI)
    show "x = Some v \<and> result (shared st) = Some v" if "t \<in> T" "at st t = F_Got x" for t x
      using f [OF that(1)] that(2) res by (cases "t = w") auto
  qed
  assume q: "\<forall>t \<in> T. asleep st t \<or> tstep future_prog t st = st"
  have p: "future.parked T st" "future.balanced T st" using inv by (simp_all add: future_inv_def)
  have stays: "at st t = F_Finished \<or> (\<exists>x. at st t = F_Got x)" if "t \<in> T" "\<not> asleep st t" for t
  proof -
    have "tstep future_prog t st = st" using q that by blast
    then have "at (tstep future_prog t st) t = at st t" by simp
    then show ?thesis
      using that(2) f [OF that(1)] by (cases "at st t"; cases "t = w") (auto simp: tstep_def split: if_splits)
  qed
  have up: "at st t = F_Up" if "asleep st t" for t
    using that future.parkedD(4) [OF p(1)] by (auto simp: asleep_def)
  have "\<not> asleep st w" using up w by (cases "asleep st w") auto
  then have fin: "at st w = F_Finished" using stays [OF assms(3)] w by auto
  have "future.owners T st = {}" using stays by (force simp: future.owners_def asleep_def)
  moreover have "isReady (shared st)" using fin w by simp
  ultimately have "unat (count (sems st ())) = 1" using p(2) by (simp add: future.balanced_def)
  then have "waiting (sems st s) = []" for s
    using future.parkedD(1) [OF p(1), of s] by (auto simp: sem_inv_def)
  then have awake: "\<not> asleep st t" for t by (simp add: asleep_def)
  show "at st w = F_Finished" by (rule fin)
  show "\<forall>t \<in> T - {w}. at st t = F_Got (Some v)"
  proof
    fix t
    assume t: "t \<in> T - {w}"
    then show "at st t = F_Got (Some v)" using stays [of t] awake f [of t] by (cases "at st t") auto
  qed
qed

definition future_demo :: "(unit, nat future_cell, nat future_pc) tsystem" where
  "future_demo = fold (tstep future_prog) [8, 8, 4, 4, 4, 4, 8, 8] (future_start ((\<lambda>_. F_Get)(4 := F_Set 7)))"

theorem future_correct_witness:
  "at future_demo 8 = F_Got (Some 7) \<and> result (shared future_demo) = Some 7"
proof -
  have r: "treach future_prog {4, 8} (future_start ((\<lambda>_. F_Get)(4 := F_Set 7))) future_demo"
    unfolding future_demo_def by (rule treach_fold) (simp_all add: treach.start)
  have "at future_demo 8 = F_Got (Some 7)"
    by (simp add: future_demo_def future_start_def tstep_def asleep_unit semaphore_new_def sem_down_def sem_up_def)
  then show ?thesis using future_correct [OF r, of 4 7] by simp
qed

end
