(* ===== verification/Conditions.thy ===== *)
theory Conditions
  imports Semaphores
begin

text \<open>
  The condition variables of \<^verbatim>\<open>kernel/condition.h\<close> and the reusable barrier of \<^verbatim>\<open>kernel/barrier.h\<close>. The
  interrupt-safe lock is the thread that holds it (theory \<open>Locks\<close> shows that there is at most one);
  acquiring it waits until it is free. What runs while the lock is held is one step; releasing it,
  acquiring it again, and going to sleep are separate steps. The queue of the condition is used
  through its list refinement (theory \<open>Thread_Queue\<close>).
\<close>

subsection \<open>Condition (condition.h)\<close>

record condition =
  the_lock :: "ptr option"
  cepoch :: u64
  cqueue :: "ptr list"

definition condition_new :: condition where
  "condition_new = \<lparr>the_lock = None, cepoch = 0, cqueue = []\<rparr>"

text \<open>\<^verbatim>\<open>wait\<close>: remember the epoch and release the lock; on the next stack, with the lock held again, queue
  the thread or, when the epoch has moved on, let it continue. \<open>Inl\<close> is the failing assertion.\<close>

definition wait_release :: "condition \<Rightarrow> condition \<times> u64" where
  "wait_release c = (c\<lparr>the_lock := None\<rparr>, cepoch c)"

definition wait_block :: "ptr \<Rightarrow> u64 \<Rightarrow> condition \<Rightarrow> condition result" where
  "wait_block me old_epoch c =
     (if cepoch c = old_epoch then Inr (c\<lparr>cqueue := cqueue c @ [me], the_lock := None\<rparr>)
      else assert_k (cepoch c > old_epoch) ''epoch > old_epoch'' (Inr (c\<lparr>the_lock := None\<rparr>)))"

text \<open>\<^verbatim>\<open>notify\<close> also gives the threads it schedules.\<close>

definition notify :: "u64 \<Rightarrow> condition \<Rightarrow> condition \<times> ptr list" where
  "notify limit c =
     (c\<lparr>cepoch := cepoch c + 1, cqueue := drop (unat limit) (cqueue c)\<rparr>, take (unat limit) (cqueue c))"

definition notifyOne :: "condition \<Rightarrow> condition \<times> ptr list" where
  "notifyOne c = notify 1 c"

definition notifyAll :: "condition \<Rightarrow> condition \<times> ptr list" where
  "notifyAll c = notify (NOT 0) c"

subsection \<open>ReusableBarrier (barrier.h)\<close>

text \<open>The points of \<^verbatim>\<open>sync\<close>; the first word is the local variable \<^verbatim>\<open>t\<close>, the second \<^verbatim>\<open>old_epoch\<close> of \<^verbatim>\<open>wait\<close>.\<close>

datatype rb_pc = RB_Out | RB_Enter | RB_Loop u64 | RB_Relock u64 u64 | RB_Check u64 u64 | RB_Sleep u64
  | RB_Leave | RB_Failed

text \<open>\<open>arrived\<close> and \<open>returned\<close> are history variables: how often each thread has counted itself and has left.\<close>

record reusable_barrier =
  newEpoch :: condition
  initial_count :: u32
  rb_count :: u32
  rb_epoch :: u64
  rb_at :: "ptr \<Rightarrow> rb_pc"
  arrived :: "ptr \<Rightarrow> nat"
  returned :: "ptr \<Rightarrow> nat"

definition reusable_barrier_new :: "u32 \<Rightarrow> reusable_barrier" where
  "reusable_barrier_new c =
     \<lparr>newEpoch = condition_new, initial_count = c, rb_count = c, rb_epoch = 0,
      rb_at = (\<lambda>_. RB_Out), arrived = (\<lambda>_. 0), returned = (\<lambda>_. 0)\<rparr>"

definition rb_goto :: "ptr \<Rightarrow> rb_pc \<Rightarrow> reusable_barrier \<Rightarrow> reusable_barrier" where
  "rb_goto t p b = b\<lparr>rb_at := (rb_at b)(t := p)\<rparr>"

definition rb_lock :: "ptr \<Rightarrow> rb_pc \<Rightarrow> reusable_barrier \<Rightarrow> reusable_barrier" where
  "rb_lock t p b =
     (if the_lock (newEpoch b) = None
      then rb_goto t p (b\<lparr>newEpoch := (newEpoch b)\<lparr>the_lock := Some t\<rparr>\<rparr>)
      else b)"

text \<open>The code between \<^verbatim>\<open>lock\<close> and the first release of the lock.\<close>

definition rb_enter :: "ptr \<Rightarrow> reusable_barrier \<Rightarrow> reusable_barrier" where
  "rb_enter t b =
     (if rb_count b = 0 then rb_goto t RB_Failed b
      else
        let ep = rb_epoch b;
            b = b\<lparr>rb_count := rb_count b - 1, arrived := (arrived b)(t := Suc (arrived b t))\<rparr>
        in if rb_count b = 0
           then rb_goto t RB_Leave (b\<lparr>rb_epoch := rb_epoch b + 1, rb_count := initial_count b,
                  newEpoch := fst (notifyAll (newEpoch b))\<rparr>)
           else rb_goto t (RB_Loop ep) b)"

text \<open>One step of thread \<open>t\<close>, which calls \<^verbatim>\<open>sync\<close> \<open>K\<close> times; the state is unchanged when it cannot move.\<close>

definition rb_step :: "nat \<Rightarrow> ptr \<Rightarrow> reusable_barrier \<Rightarrow> reusable_barrier" where
  "rb_step K t b =
     (case rb_at b t of
        RB_Out \<Rightarrow> if returned b t < K then rb_lock t RB_Enter b else b
      | RB_Enter \<Rightarrow> rb_enter t b
      | RB_Loop ep \<Rightarrow>
          if rb_epoch b \<le> ep
          then (case wait_release (newEpoch b) of (c, old) \<Rightarrow> rb_goto t (RB_Relock ep old) (b\<lparr>newEpoch := c\<rparr>))
          else rb_goto t RB_Leave b
      | RB_Relock ep old \<Rightarrow> rb_lock t (RB_Check ep old) b
      | RB_Check ep old \<Rightarrow>
          (case wait_block t old (newEpoch b) of
             Inl e \<Rightarrow> rb_goto t RB_Failed b
           | Inr c \<Rightarrow> rb_goto t (RB_Sleep ep) (b\<lparr>newEpoch := c\<rparr>))
      | RB_Sleep ep \<Rightarrow> if t \<in> set (cqueue (newEpoch b)) then b else rb_lock t (RB_Loop ep) b
      | RB_Leave \<Rightarrow>
          rb_goto t RB_Out (b\<lparr>newEpoch := (newEpoch b)\<lparr>the_lock := None\<rparr>,
            returned := (returned b)(t := Suc (returned b t))\<rparr>)
      | RB_Failed \<Rightarrow> b)"

inductive rb_reach :: "nat \<Rightarrow> ptr set \<Rightarrow> reusable_barrier \<Rightarrow> reusable_barrier \<Rightarrow> bool" for K T b0 where
  start: "rb_reach K T b0 b0"
| step: "rb_reach K T b0 b \<Longrightarrow> t \<in> T \<Longrightarrow> rb_reach K T b0 (rb_step K t b)"

subsection \<open>The invariant\<close>

text \<open>
  Where a thread can be, given the epoch \<open>E\<close>, whether it is queued (\<open>q\<close>), whether it holds the lock
  (\<open>h\<close>), and how often it has arrived (\<open>a\<close>) and returned (\<open>r\<close>).
\<close>

fun rb_point :: "nat \<Rightarrow> nat \<Rightarrow> bool \<Rightarrow> bool \<Rightarrow> rb_pc \<Rightarrow> nat \<Rightarrow> nat \<Rightarrow> bool" where
  "rb_point K E q h RB_Out a r = (\<not> h \<and> \<not> q \<and> a = E \<and> r = E)"
| "rb_point K E q h RB_Enter a r = (h \<and> \<not> q \<and> a = E \<and> r = E \<and> r < K)"
| "rb_point K E q h (RB_Loop ep) a r =
     (h \<and> \<not> q \<and> a = Suc r \<and> unat ep = r \<and> (r = E \<or> Suc r = E) \<and> r < K)"
| "rb_point K E q h (RB_Relock ep old) a r =
     (\<not> h \<and> \<not> q \<and> a = Suc r \<and> unat ep = r \<and> old = ep \<and> (r = E \<or> Suc r = E) \<and> r < K)"
| "rb_point K E q h (RB_Check ep old) a r =
     (h \<and> \<not> q \<and> a = Suc r \<and> unat ep = r \<and> old = ep \<and> (r = E \<or> Suc r = E) \<and> r < K)"
| "rb_point K E q h (RB_Sleep ep) a r =
     (\<not> h \<and> (q \<longrightarrow> r = E) \<and> a = Suc r \<and> unat ep = r \<and> (r = E \<or> Suc r = E) \<and> r < K)"
| "rb_point K E q h RB_Leave a r = (h \<and> \<not> q \<and> a = E \<and> a = Suc r \<and> r < K)"
| "rb_point K E q h RB_Failed a r = False"

abbreviation epoch_nat :: "reusable_barrier \<Rightarrow> nat" where
  "epoch_nat b \<equiv> unat (rb_epoch b)"

abbreviation rb_here :: "nat \<Rightarrow> reusable_barrier \<Rightarrow> ptr \<Rightarrow> bool" where
  "rb_here K b t \<equiv> rb_point K (epoch_nat b) (t \<in> set (cqueue (newEpoch b))) (the_lock (newEpoch b) = Some t)
     (rb_at b t) (arrived b t) (returned b t)"

definition rb_inv :: "nat \<Rightarrow> ptr set \<Rightarrow> reusable_barrier \<Rightarrow> bool" where
  "rb_inv K T b \<longleftrightarrow>
     (\<forall>t \<in> T. rb_here K b t) \<and> cepoch (newEpoch b) = rb_epoch b \<and>
     unat (initial_count b) = card T \<and> rb_count b \<noteq> 0 \<and>
     unat (rb_count b) + card {t \<in> T. arrived b t = Suc (epoch_nat b)} = card T \<and>
     distinct (cqueue (newEpoch b)) \<and> set (cqueue (newEpoch b)) \<subseteq> T \<and> set_option (the_lock (newEpoch b)) \<subseteq> T \<and>
     epoch_nat b \<le> K"

lemma rb_invD:
  assumes "rb_inv K T b"
  shows "t \<in> T \<Longrightarrow> rb_here K b t" "cepoch (newEpoch b) = rb_epoch b" "unat (initial_count b) = card T"
    "rb_count b \<noteq> 0" "unat (rb_count b) + card {t \<in> T. arrived b t = Suc (epoch_nat b)} = card T"
    "distinct (cqueue (newEpoch b))" "set (cqueue (newEpoch b)) \<subseteq> T" "set_option (the_lock (newEpoch b)) \<subseteq> T"
    "epoch_nat b \<le> K"
  using assms by (simp_all add: rb_inv_def)

lemmas rb_run_simps = rb_goto_def rb_lock_def wait_release_def wait_block_def assert_k_def

text \<open>Steps that change neither epoch, count nor histories: only the point of \<open>t\<close>, the lock and the queue.\<close>

lemma rb_quiet_step:
  assumes inv: "rb_inv K T b" and t: "t \<in> T"
    and same: "cepoch (newEpoch b') = cepoch (newEpoch b)" "initial_count b' = initial_count b"
      "rb_count b' = rb_count b" "rb_epoch b' = rb_epoch b" "arrived b' = arrived b"
    and others: "\<And>u. u \<noteq> t \<Longrightarrow> rb_at b' u = rb_at b u \<and> returned b' u = returned b u \<and>
      (u \<in> set (cqueue (newEpoch b')) \<longleftrightarrow> u \<in> set (cqueue (newEpoch b))) \<and>
      (the_lock (newEpoch b') = Some u \<longleftrightarrow> the_lock (newEpoch b) = Some u)"
    and here: "rb_here K b' t" and q: "distinct (cqueue (newEpoch b'))"
  shows "rb_inv K T b'"
proof -
  have "rb_here K b' u" if "u \<in> T" for u
    using rb_invD(1) [OF inv that] others [of u] here same by (cases "u = t") auto
  moreover have "u \<in> T" if "u \<in> set (cqueue (newEpoch b')) \<or> the_lock (newEpoch b') = Some u" for u
    using others [of u] rb_invD(7,8) [OF inv] t that by (cases "u = t") auto
  ultimately show ?thesis using rb_invD(2-5,9) [OF inv] same q by (auto simp: rb_inv_def)
qed

text \<open>A thread that counts itself: not the last one, and the last one.\<close>

lemma rb_enter_more:
  assumes inv: "rb_inv K T b" and T: "finite T" "t \<in> T" and p: "rb_at b t = RB_Enter" and more: "rb_count b \<noteq> 1"
  shows "rb_inv K T (rb_enter t b)"
proof -
  let ?E = "epoch_nat b" and ?C = "{u \<in> T. arrived b u = Suc (epoch_nat b)}"
  let ?b = "rb_goto t (RB_Loop (rb_epoch b)) (b\<lparr>rb_count := rb_count b - 1, arrived := (arrived b)(t := Suc (arrived b t))\<rparr>)"
  have here: "the_lock (newEpoch b) = Some t" "t \<notin> set (cqueue (newEpoch b))" "arrived b t = ?E" "returned b t = ?E" "?E < K"
    using rb_invD(1) [OF inv T(2)] p by simp_all
  have n: "rb_count b - 1 \<noteq> 0" "rb_count b \<noteq> 0" using more rb_invD(4) [OF inv] by simp_all
  have dec: "unat (rb_count b - 1) = unat (rb_count b) - 1" "0 < unat (rb_count b)"
    using n(2) unat_minus_one by (auto simp: unat_gt_0)
  have C: "finite ?C" "t \<notin> ?C" using T(1) here by auto
  have b': "rb_enter t b = ?b" using n by (simp add: rb_enter_def Let_def)
  have "{u \<in> T. arrived ?b u = Suc (epoch_nat ?b)} = insert t ?C" using T here by (auto simp: rb_goto_def)
  then have "unat (rb_count ?b) + card {u \<in> T. arrived ?b u = Suc (epoch_nat ?b)} = card T"
    using C rb_invD(5) [OF inv] dec by (simp add: rb_goto_def)
  moreover have "rb_here K ?b u" if "u \<in> T" for u
    using rb_invD(1) [OF inv that] here by (cases "u = t") (auto simp: rb_goto_def)
  ultimately show ?thesis unfolding b' using rb_invD [OF inv] n by (simp add: rb_inv_def rb_goto_def)
qed

lemma rb_enter_last_fields:
  fixes t :: ptr
  assumes "rb_count b = 1" "length (cqueue (newEpoch b)) < 2 ^ 64 - 1"
  defines "b' \<equiv> rb_enter t b"
  shows "rb_at b' = (rb_at b)(t := RB_Leave)" "arrived b' = (arrived b)(t := Suc (arrived b t))"
    "returned b' = returned b" "rb_epoch b' = rb_epoch b + 1" "rb_count b' = initial_count b"
    "initial_count b' = initial_count b"
    "newEpoch b' = (newEpoch b)\<lparr>cepoch := cepoch (newEpoch b) + 1, cqueue := []\<rparr>"
  using assms(1,2) unfolding b'_def
  by (simp_all add: rb_enter_def rb_goto_def Let_def notifyAll_def notify_def
      unsigned_minus_1_eq_mask mask_eq_exp_minus_1)

lemma rb_enter_last:
  assumes inv: "rb_inv K T b" and T: "finite T" "t \<in> T" "card T < 2 ^ 32" and K: "K < 2 ^ 64 - 1"
    and p: "rb_at b t = RB_Enter" and last: "rb_count b = 1"
  shows "rb_inv K T (rb_enter t b)"
proof -
  let ?E = "epoch_nat b" and ?C = "{u \<in> T. arrived b u = Suc (epoch_nat b)}" and ?b = "rb_enter t b"
  have here: "the_lock (newEpoch b) = Some t" "arrived b t = ?E" "returned b t = ?E" "?E < K"
    using rb_invD(1) [OF inv T(2)] p by simp_all
  have "length (cqueue (newEpoch b)) \<le> card T"
    using card_mono [OF T(1) rb_invD(7) [OF inv]] distinct_card [OF rb_invD(6) [OF inv]] by simp
  then have "length (cqueue (newEpoch b)) < 2 ^ 64 - 1" using T(3) by simp
  note f = rb_enter_last_fields [OF last this, of t]
  have "?E + unat (1 :: u64) < 2 ^ 64" using here(4) K by simp
  then have ep: "unat (rb_epoch b + 1) = Suc ?E" by (simp add: unat_word_ariths)
  have "card ?C = card (T - {t})" using rb_invD(5) [OF inv] last T by (simp add: card_Diff_singleton)
  moreover have "?C \<subseteq> T - {t}" using here by auto
  ultimately have all: "?C = T - {t}" using T(1) by (intro card_subset_eq) auto
  have "rb_here K ?b u" if "u \<in> T" for u
  proof (cases "u = t")
    case True
    then show ?thesis using here ep by (simp add: f)
  next
    case False
    then have "arrived b u = Suc ?E" using all that by blast
    then show ?thesis using rb_invD(1) [OF inv that] False ep here(1) by (cases "rb_at b u") (auto simp: f)
  qed
  moreover have "arrived ?b u = Suc ?E" if "u \<in> T" for u
    using all here(2) that by (cases "u = t") (auto simp: f)
  then have "{u \<in> T. arrived ?b u = Suc (epoch_nat ?b)} = {}" using ep by (simp add: f(4))
  moreover have "initial_count b \<noteq> 0" using rb_invD(3) [OF inv] T by (auto simp: unat_eq_0)
  ultimately show ?thesis
    unfolding rb_inv_def using rb_invD [OF inv] ep here(4) by (simp add: f)
qed

lemma rb_inv_step:
  assumes inv: "rb_inv K T b" and T: "finite T" "t \<in> T" "card T < 2 ^ 32" and K: "K < 2 ^ 64 - 1"
  shows "rb_inv K T (rb_step K t b)"
proof -
  note here = rb_invD(1) [OF inv T(2)] and inv' = rb_invD(2,6) [OF inv]
  note quiet = rb_quiet_step [OF inv T(2)]
  show ?thesis
  proof (cases "rb_at b t")
    case RB_Out
    then show ?thesis using inv inv' here by (auto simp: rb_step_def rb_run_simps intro!: quiet)
  next
    case RB_Enter
    then show ?thesis
      using rb_enter_more [OF inv T(1,2)] rb_enter_last [OF inv T K] by (cases "rb_count b = 1") (simp_all add: rb_step_def)
  next
    case (RB_Loop ep)
    then show ?thesis using inv' here
      by (auto simp: rb_step_def rb_run_simps word_le_nat_alt word_unat_eq_iff intro!: quiet)
  next
    case (RB_Relock ep old)
    then show ?thesis using inv inv' here by (auto simp: rb_step_def rb_run_simps intro!: quiet)
  next
    case (RB_Check ep old)
    then have h: "the_lock (newEpoch b) = Some t" "t \<notin> set (cqueue (newEpoch b))" "old = ep" "unat ep = returned b t"
        "returned b t = epoch_nat b \<or> Suc (returned b t) = epoch_nat b" "arrived b t = Suc (returned b t)" "returned b t < K"
      using here by simp_all
    show ?thesis
    proof (cases "rb_epoch b = ep")
      case True
      then show ?thesis using RB_Check inv' h by (intro quiet) (simp_all add: rb_step_def rb_run_simps)
    next
      case False
      then have "unat ep \<noteq> epoch_nat b" by (simp add: word_unat_eq_iff)
      then have "ep < rb_epoch b" using h by (simp add: word_less_nat_alt)
      then show ?thesis using False RB_Check inv' h by (intro quiet) (simp_all add: rb_step_def rb_run_simps)
    qed
  next
    case (RB_Sleep ep)
    then show ?thesis using inv inv' here by (auto simp: rb_step_def rb_run_simps intro!: quiet)
  next
    case RB_Leave
    then show ?thesis using inv' here by (auto simp: rb_step_def rb_run_simps intro!: quiet)
  next
    case RB_Failed
    then show ?thesis using inv by (simp add: rb_step_def)
  qed
qed

lemma rb_invariant:
  assumes "rb_reach K T (reusable_barrier_new (of_nat (card T))) b" "finite T" "T \<noteq> {}" "card T < 2 ^ 32" "K < 2 ^ 64 - 1"
  shows "rb_inv K T b"
  using assms(1)
proof induction
  case start
  have "unat (of_nat (card T) :: u32) = card T" "card T \<noteq> 0" using assms by simp_all
  moreover from this have "(of_nat (card T) :: u32) \<noteq> 0" by auto
  ultimately show ?case by (simp add: rb_inv_def reusable_barrier_new_def condition_new_def)
next
  case (step b t)
  show ?case by (rule rb_inv_step [OF step.IH assms(2) step.hyps(2) assms(4,5)])
qed

text \<open>A thread that does not move while the lock is free has finished or is queued in the current epoch.\<close>

lemma rb_stuck:
  assumes "rb_here K b t" "rb_step K t b = b" "the_lock (newEpoch b) = None"
  shows "rb_at b t = RB_Out \<and> returned b t = epoch_nat b \<and> K \<le> epoch_nat b \<or>
    arrived b t = Suc (epoch_nat b) \<and> epoch_nat b < K"
proof -
  have "rb_at (rb_step K t b) t = rb_at b t" using assms(2) by simp
  then show ?thesis
    using assms(1,3) by (cases "rb_at b t") (auto simp: rb_step_def rb_run_simps split: if_splits)
qed

lemma rb_holder_moves:
  assumes "rb_here K b t" "the_lock (newEpoch b) = Some t"
  shows "rb_step K t b \<noteq> b"
proof
  assume "rb_step K t b = b"
  then have "rb_at (rb_step K t b) t = rb_at b t" by simp
  then show False
    using assms by (cases "rb_at b t") (auto simp: rb_step_def rb_enter_def Let_def rb_run_simps split: if_splits)
qed

text \<open>
  The reusable barrier and its condition variable (barrier.h, condition.h). When the threads a reusable
  barrier counts call \<^verbatim>\<open>sync\<close> \<open>K\<close> times each, in every interleaving: no assertion fails; no thread has
  returned from more calls than every other thread has entered, so nobody leaves a round before all have
  come; and when no thread can move any more, all have returned from all \<open>K\<close> calls: no notification
  is missed between the release of the lock and the sleep in \<^verbatim>\<open>wait\<close>.
\<close>

theorem reusable_barrier_correct:
  assumes "rb_reach K T (reusable_barrier_new (of_nat (card T))) b" "finite T" "T \<noteq> {}" "card T < 2 ^ 32" "K < 2 ^ 64 - 1"
  shows "(\<forall>t \<in> T. rb_at b t \<noteq> RB_Failed) \<and>
    (\<forall>t \<in> T. \<forall>u \<in> T. returned b t \<le> arrived b u) \<and>
    ((\<forall>t \<in> T. rb_step K t b = b) \<longrightarrow> (\<forall>t \<in> T. returned b t = K))"
proof (intro conjI impI)
  have inv: "rb_inv K T b" by (rule rb_invariant [OF assms])
  have here: "rb_here K b t" if "t \<in> T" for t by (rule rb_invD(1) [OF inv that])
  show "\<forall>t \<in> T. rb_at b t \<noteq> RB_Failed" using here by force
  have between: "returned b t \<le> epoch_nat b \<and> epoch_nat b \<le> arrived b t" if "t \<in> T" for t
    using here [OF that] by (cases "rb_at b t") auto
  then show "\<forall>t \<in> T. \<forall>u \<in> T. returned b t \<le> arrived b u" by (meson le_trans)
  assume q: "\<forall>t \<in> T. rb_step K t b = b"
  have "the_lock (newEpoch b) = None"
  proof (rule ccontr)
    assume "the_lock (newEpoch b) \<noteq> None"
    then obtain h where "the_lock (newEpoch b) = Some h" "h \<in> T" using rb_invD(8) [OF inv] by auto
    then show False using rb_holder_moves [OF here] q by blast
  qed
  note stuck = rb_stuck [OF here _ this]
  have "{t \<in> T. arrived b t = Suc (epoch_nat b)} \<noteq> T"
    using rb_invD(4,5) [OF inv] by (metis add_eq_self_zero add.commute unat_eq_0)
  then obtain u where u: "u \<in> T" "arrived b u \<noteq> Suc (epoch_nat b)" by blast
  then have "K \<le> epoch_nat b" using stuck [of u] q by auto
  then have fin: "returned b t = epoch_nat b \<and> rb_at b t = RB_Out" if "t \<in> T" for t using stuck [OF that] q that by auto
  then show "\<forall>t \<in> T. returned b t = K" using \<open>K \<le> epoch_nat b\<close> rb_invD(9) [OF inv] by simp
qed

lemma rb_reach_fold: "set ts \<subseteq> T \<Longrightarrow> rb_reach K T b0 b \<Longrightarrow> rb_reach K T b0 (fold (rb_step K) ts b)"
  by (induction ts arbitrary: b) (auto intro: rb_reach.step)

definition rb_demo :: reusable_barrier where
  "rb_demo = fold (rb_step 1) [4, 4, 4, 8, 8, 8, 4, 4, 4, 4] (reusable_barrier_new 2)"

theorem reusable_barrier_correct_witness:
  "returned rb_demo 8 = 1 \<and> returned rb_demo 8 \<le> arrived rb_demo 4 \<and> rb_at rb_demo 4 \<noteq> RB_Failed"
proof -
  have r: "rb_reach 1 {4, 8} (reusable_barrier_new (of_nat (card {4 :: ptr, 8}))) rb_demo"
    unfolding rb_demo_def by (rule rb_reach_fold) (simp_all add: rb_reach.start)
  have "returned rb_demo 8 = 1"
    by (simp add: rb_demo_def reusable_barrier_new_def condition_new_def rb_step_def rb_run_simps rb_enter_def
        notifyAll_def notify_def Let_def)
  then show ?thesis using reusable_barrier_correct [OF r] by simp
qed

end
