(* ===== verification/Shared_Pointers.thy ===== *)
theory Shared_Pointers
  imports Linked_Chain
begin

text \<open>
  \<^verbatim>\<open>kernel/shared.h\<close>: reference counted pointers. A fat pointer holds the object's address and its own
  counter and is named by the number of its allocation; \<open>fats\<close> are those allocated. A variable of
  type \<^verbatim>\<open>Shared<T>\<close> is a number: \<open>handles\<close> gives its field \<^verbatim>\<open>fatPointer\<close> (\<open>None\<close> inside for null)
  while it is alive. \<open>deleted\<close> are the objects that were deleted, in order.
\<close>

subsection \<open>State and operations (shared.h)\<close>

record fat_pointer =
  pointer :: ptr
  counter :: u32

record shared_state =
  fats :: "nat \<rightharpoonup> fat_pointer"
  fat_next :: nat
  handles :: "nat \<rightharpoonup> nat option"
  deleted :: "ptr list"

definition shared_empty :: shared_state where
  "shared_empty = \<lparr>fats = Map.empty, fat_next = 0, handles = Map.empty, deleted = []\<rparr>"

definition fat :: "shared_state \<Rightarrow> nat option \<Rightarrow> (nat \<times> fat_pointer) result" where
  "fat s fp =
     (case fp of
        None \<Rightarrow> Inl (Undefined_Behaviour ''null fatPointer'')
      | Some f \<Rightarrow> (case fats s f of None \<Rightarrow> Inl (Undefined_Behaviour ''deleted fatPointer'') | Some x \<Rightarrow> Inr (f, x)))"

definition decrementCounter :: "shared_state \<Rightarrow> nat option \<Rightarrow> shared_state result" where
  "decrementCounter s fp =
     (if fp = None then Inr s
      else rbind (fat s fp) (\<lambda>(f, x).
        if pointer x = nullptr then Inr s
        else let c = counter x + - 1 in
          if c = 0 then Inr (s\<lparr>fats := (fats s)(f := None), deleted := deleted s @ [pointer x]\<rparr>)
          else Inr (s\<lparr>fats := (fats s)(f \<mapsto> x\<lparr>counter := c\<rparr>)\<rparr>)))"

definition incrementCounter :: "shared_state \<Rightarrow> nat option \<Rightarrow> shared_state result" where
  "incrementCounter s fp =
     rbind (fat s fp) (\<lambda>(f, x).
       if pointer x \<noteq> nullptr then Inr (s\<lparr>fats := (fats s)(f \<mapsto> x\<lparr>counter := counter x + 1\<rparr>)\<rparr>) else Inr s)"

definition new_fat :: "shared_state \<Rightarrow> ptr \<Rightarrow> shared_state \<times> nat" where
  "new_fat s it =
     (s\<lparr>fats := (fats s)(fat_next s \<mapsto> \<lparr>pointer = it, counter = 0\<rparr>), fat_next := Suc (fat_next s)\<rparr>, fat_next s)"

definition set_handle :: "shared_state \<Rightarrow> nat \<Rightarrow> nat option \<Rightarrow> shared_state" where
  "set_handle s h fp = s\<lparr>handles := (handles s)(h \<mapsto> fp)\<rparr>"

definition handle :: "shared_state \<Rightarrow> nat \<Rightarrow> nat option" where
  "handle s h = (case handles s h of None \<Rightarrow> None | Some fp \<Rightarrow> fp)"

definition shared_of :: "shared_state \<Rightarrow> nat \<Rightarrow> ptr \<Rightarrow> shared_state result" where
  "shared_of s h it = (let (s, f) = new_fat s it in incrementCounter (set_handle s h (Some f)) (Some f))"

definition shared_default :: "shared_state \<Rightarrow> nat \<Rightarrow> shared_state result" where
  "shared_default s h = (let (s, f) = new_fat s nullptr in Inr (set_handle s h (Some f)))"

definition shared_copy :: "shared_state \<Rightarrow> nat \<Rightarrow> nat \<Rightarrow> shared_state result" where
  "shared_copy s h rhs = incrementCounter (set_handle s h (handle s rhs)) (handle s rhs)"

definition shared_move :: "shared_state \<Rightarrow> nat \<Rightarrow> nat \<Rightarrow> shared_state result" where
  "shared_move s h rhs = Inr (set_handle (set_handle s h (handle s rhs)) rhs None)"

definition shared_drop :: "shared_state \<Rightarrow> nat \<Rightarrow> shared_state result" where
  "shared_drop s h = rbind (decrementCounter s (handle s h)) (\<lambda>s. Inr (s\<lparr>handles := (handles s)(h := None)\<rparr>))"

definition shared_arrow :: "shared_state \<Rightarrow> nat \<Rightarrow> ptr result" where
  "shared_arrow s h = rbind (fat s (handle s h)) (\<lambda>(f, x). Inr (pointer x))"

definition assign_pointer :: "shared_state \<Rightarrow> nat \<Rightarrow> ptr \<Rightarrow> shared_state result" where
  "assign_pointer s h it =
     rbind (fat s (handle s h)) (\<lambda>(f, x).
       if pointer x \<noteq> it
       then rbind (decrementCounter s (handle s h)) (\<lambda>s.
              let (s, f) = new_fat s it in incrementCounter (set_handle s h (Some f)) (Some f))
       else Inr s)"

definition assign_copy :: "shared_state \<Rightarrow> nat \<Rightarrow> nat \<Rightarrow> shared_state result" where
  "assign_copy s h rhs =
     (if handle s h \<noteq> handle s rhs
      then rbind (decrementCounter s (handle s h)) (\<lambda>s.
             incrementCounter (set_handle s h (handle s rhs)) (handle s rhs))
      else Inr s)"

definition assign_move :: "shared_state \<Rightarrow> nat \<Rightarrow> nat \<Rightarrow> shared_state result" where
  "assign_move s h rhs =
     rbind (decrementCounter s (handle s h)) (\<lambda>s.
       Inr (set_handle (set_handle s h (handle s rhs)) rhs None))"

definition is_null :: "shared_state \<Rightarrow> nat option \<Rightarrow> bool result" where
  "is_null s fp = (if fp = None then Inr True else rbind (fat s fp) (\<lambda>(f, x). Inr (pointer x = nullptr)))"

definition shared_eq :: "shared_state \<Rightarrow> nat \<Rightarrow> nat \<Rightarrow> bool result" where
  "shared_eq s h rhs =
     rbind (is_null s (handle s h)) (\<lambda>n.
       if n then is_null s (handle s rhs) else Inr (handle s h = handle s rhs))"

definition shared_neq :: "shared_state \<Rightarrow> nat \<Rightarrow> nat \<Rightarrow> bool result" where
  "shared_neq s h rhs =
     rbind (is_null s (handle s h)) (\<lambda>n.
       if n then rbind (is_null s (handle s rhs)) (\<lambda>m. Inr (\<not> m)) else Inr (handle s h \<noteq> handle s rhs))"

definition shared_eq_pointer :: "shared_state \<Rightarrow> nat \<Rightarrow> ptr \<Rightarrow> bool result" where
  "shared_eq_pointer s h it =
     rbind (is_null s (handle s h)) (\<lambda>n.
       if n then Inr (it = nullptr) else rbind (fat s (handle s h)) (\<lambda>(f, x). Inr (pointer x = it)))"

definition shared_neq_pointer :: "shared_state \<Rightarrow> nat \<Rightarrow> ptr \<Rightarrow> bool result" where
  "shared_neq_pointer s h it =
     rbind (is_null s (handle s h)) (\<lambda>n.
       if n then Inr (it \<noteq> nullptr) else rbind (fat s (handle s h)) (\<lambda>(f, x). Inr (pointer x \<noteq> it)))"

lemma shared_neq_not:
  "shared_neq s h rhs = rbind (shared_eq s h rhs) (\<lambda>e. Inr (\<not> e))"
  "shared_neq_pointer s h it = rbind (shared_eq_pointer s h it) (\<lambda>e. Inr (\<not> e))"
  by (auto simp: shared_neq_def shared_eq_def shared_neq_pointer_def shared_eq_pointer_def rbind_def split: sum.splits)

subsection \<open>Programs that use shared pointers\<close>

datatype shared_op = S_Of nat ptr | S_Default nat | S_Copy nat nat | S_Move nat nat | S_Drop nat
  | S_Set nat ptr | S_Assign nat nat | S_Assign_Move nat nat

fun shared_apply :: "shared_op \<Rightarrow> shared_state \<Rightarrow> shared_state result" where
  "shared_apply (S_Of h p) s = shared_of s h p"
| "shared_apply (S_Default h) s = shared_default s h"
| "shared_apply (S_Copy h r) s = shared_copy s h r"
| "shared_apply (S_Move h r) s = shared_move s h r"
| "shared_apply (S_Drop h) s = shared_drop s h"
| "shared_apply (S_Set h p) s = assign_pointer s h p"
| "shared_apply (S_Assign h r) s = assign_copy s h r"
| "shared_apply (S_Assign_Move h r) s = assign_move s h r"

fun op_pointers :: "shared_op \<Rightarrow> ptr set" where
  "op_pointers (S_Of h p) = {p} - {0}"
| "op_pointers (S_Set h p) = {p} - {0}"
| "op_pointers c = {}"

definition room :: "shared_state \<Rightarrow> nat \<Rightarrow> bool" where
  "room s h \<longleftrightarrow> handles s h = None \<and> card (dom (handles s)) < 2 ^ 31"

text \<open>
  What the code relies on: a variable is constructed once and used until it is destroyed, an object
  is given to one shared pointer only (\<open>M\<close> are the objects given so far), a moved-from variable is only
  moved, assigned by a move or destroyed, and there are fewer than \<open>2 ^ 31\<close> variables.
\<close>

fun legal :: "ptr set \<Rightarrow> shared_state \<Rightarrow> shared_op \<Rightarrow> bool" where
  "legal M s (S_Of h p) = (room s h \<and> p \<notin> M)"
| "legal M s (S_Default h) = room s h"
| "legal M s (S_Copy h r) = (room s h \<and> handle s r \<noteq> None)"
| "legal M s (S_Move h r) = (room s h \<and> handles s r \<noteq> None)"
| "legal M s (S_Drop h) = (handles s h \<noteq> None)"
| "legal M s (S_Set h p) = (handle s h \<noteq> None \<and> (p \<notin> M \<or> shared_arrow s h = Inr p))"
| "legal M s (S_Assign h r) = (handles s h \<noteq> None \<and> handle s r \<noteq> None)"
| "legal M s (S_Assign_Move h r) = (handles s h \<noteq> None \<and> handles s r \<noteq> None)"

inductive shared_reach :: "ptr set \<Rightarrow> shared_state \<Rightarrow> bool" where
  start: "shared_reach {} shared_empty"
| step: "shared_reach M s \<Longrightarrow> legal M s c \<Longrightarrow> shared_apply c s = Inr s' \<Longrightarrow> shared_reach (M \<union> op_pointers c) s'"

subsection \<open>Counters count references\<close>

text \<open>\<open>n f\<close> is the number of references to \<open>f\<close> that the counters should show.\<close>

definition counted :: "shared_state \<Rightarrow> (nat \<Rightarrow> nat) \<Rightarrow> ptr set \<Rightarrow> bool" where
  "counted s n M \<longleftrightarrow>
     (\<forall>f x. fats s f = Some x \<longrightarrow> f < fat_next s \<and>
        (pointer x \<noteq> 0 \<longrightarrow> unat (counter x) = n f \<and> 0 < n f \<and> pointer x \<in> M \<and> pointer x \<notin> set (deleted s))) \<and>
     (\<forall>f. 0 < n f \<longrightarrow> fats s f \<noteq> None) \<and>
     (\<forall>f g x y. fats s f = Some x \<longrightarrow> fats s g = Some y \<longrightarrow> pointer x = pointer y \<longrightarrow> pointer x \<noteq> 0 \<longrightarrow> f = g) \<and>
     distinct (deleted s) \<and> set (deleted s) \<subseteq> M \<and> 0 \<notin> M \<and>
     (\<forall>p \<in> M. p \<in> set (deleted s) \<or> (\<exists>f x. fats s f = Some x \<and> pointer x = p))"

lemma countedD:
  assumes "counted s n M"
  shows "fats s f = Some x \<Longrightarrow> f < fat_next s"
    "fats s f = Some x \<Longrightarrow> pointer x \<noteq> 0 \<Longrightarrow>
      unat (counter x) = n f \<and> 0 < n f \<and> pointer x \<in> M \<and> pointer x \<notin> set (deleted s)"
    "0 < n f \<Longrightarrow> \<exists>x. fats s f = Some x"
    "fats s f = Some x \<Longrightarrow> fats s g = Some y \<Longrightarrow> pointer x = pointer y \<Longrightarrow> pointer x \<noteq> 0 \<Longrightarrow> f = g"
    "distinct (deleted s)" "set (deleted s) \<subseteq> M" "0 \<notin> M"
    "p \<in> M \<Longrightarrow> p \<in> set (deleted s) \<or> (\<exists>f x. fats s f = Some x \<and> pointer x = p)"
  using assms unfolding counted_def by blast+

lemma countedI:
  assumes "\<And>f x. fats s f = Some x \<Longrightarrow> f < fat_next s"
    "\<And>f x. fats s f = Some x \<Longrightarrow> pointer x \<noteq> 0 \<Longrightarrow>
      unat (counter x) = n f \<and> 0 < n f \<and> pointer x \<in> M \<and> pointer x \<notin> set (deleted s)"
    "\<And>f. 0 < n f \<Longrightarrow> \<exists>x. fats s f = Some x"
    "\<And>f g x y. fats s f = Some x \<Longrightarrow> fats s g = Some y \<Longrightarrow> pointer x = pointer y \<Longrightarrow> pointer x \<noteq> 0 \<Longrightarrow> f = g"
    "distinct (deleted s)" "set (deleted s) \<subseteq> M" "0 \<notin> M"
    "\<And>p. p \<in> M \<Longrightarrow> p \<in> set (deleted s) \<or> (\<exists>f x. fats s f = Some x \<and> pointer x = p)"
  shows "counted s n M"
  unfolding counted_def using assms by blast

lemma counted_handles [simp]: "counted (s\<lparr>handles := hs\<rparr>) n M = counted s n M"
  by (simp add: counted_def)

text \<open>Replacing the fat pointer \<open>f\<close> of an object by one with the same object and another count.\<close>

lemma counted_recount:
  assumes c: "counted s n M" and f: "fats s f = Some x" and k: "0 < k" "unat v = k"
  shows "counted (s\<lparr>fats := (fats s)(f \<mapsto> x\<lparr>counter := v\<rparr>)\<rparr>) (n(f := k)) M" (is "counted ?s ?n M")
proof (rule countedI)
  note d = countedD [OF c]
  have old: "\<exists>y'. fats s g = Some y' \<and> pointer y' = pointer y" if "fats ?s g = Some y" for g y
    using that f by (cases "g = f") auto
  show "g < fat_next ?s" if "fats ?s g = Some y" for g y using old [OF that] d(1) by auto
  show "unat (counter y) = ?n g \<and> 0 < ?n g \<and> pointer y \<in> M \<and> pointer y \<notin> set (deleted ?s)"
    if "fats ?s g = Some y" "pointer y \<noteq> 0" for g y
    using that d(2) [OF f] d(2) [of g y] k by (cases "g = f") auto
  show "\<exists>y. fats ?s g = Some y" if "0 < ?n g" for g using that d(3) by (cases "g = f") auto
  show "g = h" if "fats ?s g = Some y" "fats ?s h = Some z" "pointer y = pointer z" "pointer y \<noteq> 0" for g h y z
    using old [OF that(1)] old [OF that(2)] that(3,4) d(4) by metis
  show "p \<in> set (deleted ?s) \<or> (\<exists>g y. fats ?s g = Some y \<and> pointer y = p)" if p: "p \<in> M" for p
  proof (cases "p \<in> set (deleted s)")
    case False
    then obtain g y where g: "fats s g = Some y" "pointer y = p" using d(8) [OF p] by blast
    then have "\<exists>y'. fats ?s g = Some y' \<and> pointer y' = p" using f by (cases "g = f") auto
    then show ?thesis by blast
  qed simp
qed (use countedD(5-7) [OF c] in simp_all)

lemma counted_null:
  assumes c: "counted s n M" and f: "fats s f = Some x" "pointer x = 0"
  shows "counted s (n(f := k)) M"
proof (rule countedI)
  note d = countedD [OF c]
  show "unat (counter y) = (n(f := k)) g \<and> 0 < (n(f := k)) g \<and> pointer y \<in> M \<and> pointer y \<notin> set (deleted s)"
    if "fats s g = Some y" "pointer y \<noteq> 0" for g y
    using d(2) [OF that] that f by (cases "g = f") auto
  show "\<exists>y. fats s g = Some y" if "0 < (n(f := k)) g" for g using that d(3) f by (cases "g = f") auto
qed (use countedD [OF c] in auto)

lemma counted_delete:
  assumes c: "counted s n M" and f: "fats s f = Some x" "pointer x \<noteq> 0"
  shows "counted (s\<lparr>fats := (fats s)(f := None), deleted := deleted s @ [pointer x]\<rparr>) (n(f := 0)) M" (is "counted ?s ?n M")
proof (rule countedI)
  note d = countedD [OF c]
  note x = d(2) [OF f]
  have old: "g \<noteq> f \<and> fats s g = Some y" if "fats ?s g = Some y" for g y
    using that by (cases "g = f") auto
  show "g < fat_next ?s" if "fats ?s g = Some y" for g y using old [OF that] d(1) by auto
  show "unat (counter y) = ?n g \<and> 0 < ?n g \<and> pointer y \<in> M \<and> pointer y \<notin> set (deleted ?s)"
    if "fats ?s g = Some y" "pointer y \<noteq> 0" for g y
    using old [OF that(1)] that(2) d(2) [of g y] d(4) [of g y f x] f by auto
  show "\<exists>y. fats ?s g = Some y" if "0 < ?n g" for g using that d(3) by (cases "g = f") auto
  show "g = h" if "fats ?s g = Some y" "fats ?s h = Some z" "pointer y = pointer z" "pointer y \<noteq> 0" for g h y z
    using old [OF that(1)] old [OF that(2)] that(3,4) d(4) by blast
  show "distinct (deleted ?s)" "set (deleted ?s) \<subseteq> M" using d(5,6) x by auto
  show "p \<in> set (deleted ?s) \<or> (\<exists>g y. fats ?s g = Some y \<and> pointer y = p)" if p: "p \<in> M" for p
  proof (cases "p \<in> set (deleted s)")
    case False
    then obtain g y where g: "fats s g = Some y" "pointer y = p" using d(8) [OF p] by blast
    then show ?thesis using f by (cases "g = f") auto
  qed simp
qed (use countedD(7) [OF c] in simp)

lemma decrement_counted:
  assumes c: "counted s n M" and f: "0 < n f" "n f < 2 ^ 32"
  shows "\<exists>s'. decrementCounter s (Some f) = Inr s' \<and> counted s' (n(f := n f - 1)) M \<and> handles s' = handles s"
proof -
  obtain x where x: "fats s f = Some x" using countedD(3) [OF c f(1)] by blast
  show ?thesis
  proof (cases "pointer x = 0")
    case True
    then show ?thesis using x counted_null [OF c x] by (simp add: decrementCounter_def fat_def)
  next
    case False
    have n: "unat (counter x) = n f" using countedD(2) [OF c x False] by blast
    then have v: "unat (counter x - 1) = n f - 1" using f(1) unat_minus_one [of "counter x"] by force
    show ?thesis
    proof (cases "counter x = 1")
      case True
      then show ?thesis using x False n counted_delete [OF c x False] by (simp add: decrementCounter_def fat_def Let_def)
    next
      case more: False
      then have "unat (counter x) \<noteq> 1" by (metis unat_1 word_unat_eq_iff)
      then show ?thesis
        using x False n v more f counted_recount [OF c x, of "n f - 1" "counter x - 1"]
        by (simp add: decrementCounter_def fat_def Let_def)
    qed
  qed
qed

lemma increment_counted:
  assumes c: "counted s n M" and f: "0 < n f" "Suc (n f) < 2 ^ 32"
  shows "\<exists>s'. incrementCounter s (Some f) = Inr s' \<and> counted s' (n(f := Suc (n f))) M \<and> handles s' = handles s"
proof -
  obtain x where x: "fats s f = Some x" using countedD(3) [OF c f(1)] by blast
  show ?thesis
  proof (cases "pointer x = 0")
    case True
    then show ?thesis using x counted_null [OF c x] by (simp add: incrementCounter_def fat_def)
  next
    case False
    have n: "unat (counter x) = n f" using countedD(2) [OF c x False] by blast
    then have "unat (counter x + 1) = Suc (n f)" using f(2) by (simp add: unat_word_ariths)
    then show ?thesis
      using x False f counted_recount [OF c x, of "Suc (n f)" "counter x + 1"]
      by (simp add: incrementCounter_def fat_def)
  qed
qed

text \<open>A new fat pointer for a new object (or for none) with its first reference.\<close>

lemma new_counted:
  assumes c: "counted s n M" and p: "p \<notin> M"
    and v: "p \<noteq> 0 \<Longrightarrow> v = 1"
  defines "f \<equiv> fat_next s"
  shows "n f = 0" "fats s f = None"
    "counted (s\<lparr>fats := (fats s)(f \<mapsto> \<lparr>pointer = p, counter = v\<rparr>), fat_next := Suc f\<rparr>) (n(f := 1)) (M \<union> ({p} - {0}))"
proof -
  note d = countedD [OF c]
  show none: "fats s f = None" using d(1) [of f] by (cases "fats s f") (auto simp: f_def)
  then show "n f = 0" using d(3) [of f] by auto
  have lt: "fats s g = Some y \<Longrightarrow> g < Suc f \<and> g \<noteq> f" for g y using d(1) [of g y] by (auto simp: f_def)
  have old: "fats s g = Some y \<Longrightarrow> pointer y \<noteq> 0 \<Longrightarrow> pointer y \<noteq> p" for g y using d(2) [of g y] p by blast
  have all: "q \<in> set (deleted s) \<or> (\<exists>g y. g \<noteq> f \<and> fats s g = Some y \<and> pointer y = q)" if "q \<in> M" for q
    using d(8) [OF that] lt by blast
  have pd: "p \<notin> set (deleted s)" using p d(6) by blast
  show "counted (s\<lparr>fats := (fats s)(f \<mapsto> \<lparr>pointer = p, counter = v\<rparr>), fat_next := Suc f\<rparr>) (n(f := 1)) (M \<union> ({p} - {0}))"
    (is "counted ?s ?n ?M")
  proof (rule countedI)
    have cases: "g = f \<and> y = \<lparr>pointer = p, counter = v\<rparr> \<or> g \<noteq> f \<and> fats s g = Some y" if "fats ?s g = Some y" for g y
      using that by (cases "g = f") auto
    show "g < fat_next ?s" if "fats ?s g = Some y" for g y using cases [OF that] lt by auto
    show "unat (counter y) = ?n g \<and> 0 < ?n g \<and> pointer y \<in> ?M \<and> pointer y \<notin> set (deleted ?s)"
      if "fats ?s g = Some y" "pointer y \<noteq> 0" for g y
      using cases [OF that(1)] that(2) d(2) [of g y] pd v by auto
    show "\<exists>y. fats ?s g = Some y" if "0 < ?n g" for g using that d(3) by (cases "g = f") auto
    show "g = h" if g: "fats ?s g = Some y" "fats ?s h = Some z" "pointer y = pointer z" "pointer y \<noteq> 0" for g h y z
      using cases [OF g(1)] cases [OF g(2)] g(3,4) old [of g y] old [of h z] d(4) [of g y h z] by auto
    show "q \<in> set (deleted ?s) \<or> (\<exists>g y. fats ?s g = Some y \<and> pointer y = q)" if "q \<in> ?M" for q
    proof (cases "q \<in> M")
      case True
      from all [OF True] show ?thesis
      proof
        assume "\<exists>g y. g \<noteq> f \<and> fats s g = Some y \<and> pointer y = q"
        then obtain g y where g: "g \<noteq> f" "fats s g = Some y" "pointer y = q" by blast
        then have "fats ?s g = Some y" by simp
        then show ?thesis using g(3) by blast
      qed simp
    next
      case False
      then have "fats ?s f = Some \<lparr>pointer = p, counter = v\<rparr>" "q = p" using that by auto
      then show ?thesis by (metis fat_pointer.select_convs(1))
    qed
  qed (use d(5-7) in auto)
qed

subsection \<open>References of the variables\<close>

definition refs :: "(nat \<rightharpoonup> nat option) \<Rightarrow> nat \<Rightarrow> nat" where
  "refs hs f = card {h. hs h = Some (Some f)}"

lemma finite_refs: "finite (dom hs) \<Longrightarrow> finite {h. hs h = Some (Some f)}"
  by (rule finite_subset [of _ "dom hs"]) auto

lemma card_split_at: "finite A \<Longrightarrow> card A = card (A - {a}) + of_bool (a \<in> A)"
  using card_Suc_Diff1 [of A a] by (cases "a \<in> A") simp_all

lemma refs_update:
  assumes "finite (dom hs)"
  shows "refs (hs(h := w)) f + of_bool (hs h = Some (Some f)) = refs hs f + of_bool (w = Some (Some f))"
proof -
  let ?A = "{x. hs x = Some (Some f)}" and ?B = "{x. (hs(h := w)) x = Some (Some f)}"
  have "finite (dom (hs(h := w)))" using assms by simp
  from finite_refs [OF assms] finite_refs [OF this] have f: "finite ?A" "finite ?B" .
  have "?B - {h} = ?A - {h}" by auto
  then have "card ?B + of_bool (h \<in> ?A) = card ?A + of_bool (h \<in> ?B)"
    using card_split_at [OF f(1), of h] card_split_at [OF f(2), of h] by simp
  then show ?thesis unfolding refs_def by simp
qed

lemma refs_clear:
  assumes "finite (dom hs)"
  shows "refs (hs(h := None)) = (case hs h of Some (Some f) \<Rightarrow> (refs hs)(f := refs hs f - 1) | _ \<Rightarrow> refs hs)"
proof
  fix g
  show "refs (hs(h := None)) g = (case hs h of Some (Some f) \<Rightarrow> (refs hs)(f := refs hs f - 1) | _ \<Rightarrow> refs hs) g"
    using refs_update [OF assms, of h None g] by (auto split: option.splits)
qed

lemma refs_add:
  assumes "finite (dom hs)" "\<And>g. hs h \<noteq> Some (Some g)"
  shows "refs (hs(h \<mapsto> v)) = (case v of Some f \<Rightarrow> (refs hs)(f := Suc (refs hs f)) | None \<Rightarrow> refs hs)"
proof
  fix g
  show "refs (hs(h \<mapsto> v)) g = (case v of Some f \<Rightarrow> (refs hs)(f := Suc (refs hs f)) | None \<Rightarrow> refs hs) g"
    using refs_update [OF assms(1), of h "Some v" g] assms(2) [of g] by (auto split: option.splits)
qed

lemma refs_bound: "finite (dom hs) \<Longrightarrow> refs hs f \<le> card (dom hs)"
  unfolding refs_def by (rule card_mono) auto

lemma refs_pos: "finite (dom hs) \<Longrightarrow> hs h = Some (Some f) \<Longrightarrow> 0 < refs hs f"
  unfolding refs_def using finite_refs by (auto simp: card_gt_0_iff)

definition shared_inv :: "ptr set \<Rightarrow> shared_state \<Rightarrow> bool" where
  "shared_inv M s \<longleftrightarrow> finite (dom (handles s)) \<and> card (dom (handles s)) \<le> 2 ^ 31 \<and> counted s (refs (handles s)) M"

lemma shared_invD:
  assumes "shared_inv M s"
  shows "finite (dom (handles s))" "card (dom (handles s)) \<le> 2 ^ 31" "counted s (refs (handles s)) M"
    "refs (handles s) f \<le> 2 ^ 31"
  using assms refs_bound [of "handles s" f] by (auto simp: shared_inv_def)

lemma shared_invI:
  assumes "shared_inv M s" "counted s' (refs hs) M'" "handles s' = hs" "finite (dom hs)" "card (dom hs) \<le> 2 ^ 31"
  shows "shared_inv M' s'"
  using assms by (simp add: shared_inv_def)

lemma room_dom: "shared_inv M s \<Longrightarrow> room s h \<Longrightarrow> finite (dom ((handles s)(h \<mapsto> v))) \<and> card (dom ((handles s)(h \<mapsto> v))) \<le> 2 ^ 31"
  by (simp add: shared_inv_def room_def card_insert_if)

lemma handle_Some: "handle s h = Some f \<longleftrightarrow> handles s h = Some (Some f)"
  by (auto simp: handle_def split: option.splits)

text \<open>Dropping the reference of variable \<open>h\<close>, which then no longer counts.\<close>

lemma drop_reference:
  assumes inv: "shared_inv M s" and h: "handles s h \<noteq> None"
  shows "\<exists>s'. decrementCounter s (handle s h) = Inr s' \<and> handles s' = handles s \<and>
    counted s' (refs ((handles s)(h := None))) M"
proof (cases "handle s h")
  case None
  then have "handles s h = Some None" using h by (auto simp: handle_def split: option.splits)
  then have "refs ((handles s)(h := None)) = refs (handles s)"
    using refs_clear [OF shared_invD(1) [OF inv], of h] by simp
  then show ?thesis using None shared_invD(3) [OF inv] by (simp add: decrementCounter_def)
next
  case (Some f)
  then have hf: "handles s h = Some (Some f)" by (simp add: handle_Some)
  have "refs ((handles s)(h := None)) = (refs (handles s))(f := refs (handles s) f - 1)"
    using refs_clear [OF shared_invD(1) [OF inv], of h] hf by simp
  then show ?thesis
    using decrement_counted [OF shared_invD(3) [OF inv] refs_pos [OF shared_invD(1) [OF inv] hf]]
      shared_invD(4) [OF inv, of f] Some by auto
qed

text \<open>Then the variable gets another reference, a new one, or none.\<close>

lemma take_reference:
  assumes c: "counted s (refs hs) M" and hs: "finite (dom hs)" "card (dom hs) \<le> 2 ^ 31" "\<And>g. hs h \<noteq> Some (Some g)"
    and r: "hs r = Some (Some f)"
  shows "\<exists>s'. incrementCounter (s\<lparr>handles := hs'\<rparr>) (Some f) = Inr s' \<and> handles s' = hs' \<and>
    counted s' (refs (hs(h \<mapsto> Some f))) M"
proof -
  have "0 < refs hs f" "Suc (refs hs f) < 2 ^ 32" using refs_pos [OF hs(1) r] refs_bound [OF hs(1), of f] hs(2) by simp_all
  from increment_counted [of "s\<lparr>handles := hs'\<rparr>" "refs hs" M, OF _ this] c show ?thesis
    by (auto simp: refs_add [OF hs(1,3)])
qed

lemma new_reference:
  assumes c: "counted s (refs hs) M" and p: "p \<notin> M" and hs: "finite (dom hs)" "\<And>g. hs h \<noteq> Some (Some g)"
  shows "\<exists>s'. (let (s, f) = new_fat s p in incrementCounter (set_handle s h (Some f)) (Some f)) = Inr s' \<and>
    handles s' = (handles s)(h \<mapsto> Some (fat_next s)) \<and> counted s' (refs (hs(h \<mapsto> Some (fat_next s)))) (M \<union> ({p} - {0}))"
proof -
  note n = new_counted [OF c p, of "of_bool (p \<noteq> 0)"]
  have r: "refs (hs(h \<mapsto> Some (fat_next s))) = (refs hs)(fat_next s := 1)"
    using n(1) by (simp add: refs_add [OF hs])
  let ?s = "s\<lparr>fats := (fats s)(fat_next s \<mapsto> \<lparr>pointer = p, counter = of_bool (p \<noteq> 0)\<rparr>), fat_next := Suc (fat_next s),
    handles := (handles s)(h \<mapsto> Some (fat_next s))\<rparr>"
  have "(let (s, f) = new_fat s p in incrementCounter (set_handle s h (Some f)) (Some f)) = Inr ?s"
    by (cases "p = 0") (simp_all add: new_fat_def set_handle_def incrementCounter_def fat_def)
  moreover have "counted ?s (refs (hs(h \<mapsto> Some (fat_next s)))) (M \<union> ({p} - {0}))"
    unfolding counted_handles r using n(3) by simp
  ultimately show ?thesis by auto
qed

lemma dom_replace: "handles s h \<noteq> None \<Longrightarrow> dom ((handles s)(h \<mapsto> v)) = dom (handles s)"
  by auto

lemma construct_step:
  assumes inv: "shared_inv M s" and l: "legal M s c" and c: "c \<in> {S_Of h p, S_Default h, S_Copy h r, S_Move h r}"
  shows "\<exists>s'. shared_apply c s = Inr s' \<and> shared_inv (M \<union> op_pointers c) s'"
proof -
  note d = shared_invD [OF inv]
  have room: "room s h" using l c by auto
  then have free: "handles s h \<noteq> Some (Some g)" for g by (simp add: room_def)
  note dom = room_dom [OF inv room]
  have z: "(0 :: ptr) \<notin> M" by (rule countedD(7) [OF d(3)])
  consider "c = S_Of h p" | "c = S_Default h" | "c = S_Copy h r" | "c = S_Move h r" using c by auto
  then show ?thesis
  proof cases
    case 1
    then show ?thesis
      using new_reference [OF d(3) _ d(1) free, of p] l dom by (auto simp: shared_of_def shared_inv_def)
  next
    case 2
    then show ?thesis
      using new_reference [OF d(3) z d(1) free] dom
      by (auto simp: shared_default_def new_fat_def set_handle_def incrementCounter_def fat_def shared_inv_def)
  next
    case 3
    then obtain f where f: "handle s r = Some f" "handles s r = Some (Some f)" using l by (auto simp: handle_Some)
    show ?thesis
      using take_reference [OF d(3,1,2) free f(2), of "(handles s)(h \<mapsto> Some f)"] 3 f(1) dom
      by (auto simp: shared_copy_def set_handle_def shared_inv_def)
  next
    case 4
    let ?hs = "(handles s)(r \<mapsto> None)"
    have r: "handles s r \<noteq> None" "h \<noteq> r" using l room 4 by (auto simp: room_def)
    have "refs ((handles s)(h \<mapsto> handle s r, r \<mapsto> None)) = refs (handles s)"
    proof
      fix g
      have "refs ((handles s)(h \<mapsto> handle s r, r \<mapsto> None)) g + of_bool (handles s r = Some (Some g)) =
          refs ((handles s)(h \<mapsto> handle s r)) g"
        using refs_update [of "(handles s)(h \<mapsto> handle s r)" r "Some None" g] d(1) r by simp
      then show "refs ((handles s)(h \<mapsto> handle s r, r \<mapsto> None)) g = refs (handles s) g"
        using refs_update [OF d(1), of h "Some (handle s r)" g] free [of g] by (simp add: handle_Some)
    qed
    moreover have "insert r (insert h (dom (handles s))) = insert h (dom (handles s))" using r(1) by auto
    ultimately show ?thesis using 4 d dom r by (simp add: shared_move_def set_handle_def shared_inv_def)
  qed
qed

lemma drop_step:
  assumes inv: "shared_inv M s" and h: "handles s h \<noteq> None"
  shows "\<exists>s'. shared_drop s h = Inr s' \<and> shared_inv M s'"
proof -
  note d = shared_invD [OF inv]
  obtain s1 where s1: "decrementCounter s (handle s h) = Inr s1" "handles s1 = handles s"
    "counted s1 (refs ((handles s)(h := None))) M" using drop_reference [OF inv h] by blast
  have "card (dom (handles s) - {h}) \<le> card (dom (handles s))" by (rule card_mono [OF d(1)]) blast
  then show ?thesis using s1 d(1,2) by (simp add: shared_drop_def shared_inv_def)
qed

lemma assign_pointer_step:
  assumes inv: "shared_inv M s" and h: "handle s h \<noteq> None" and p: "p \<notin> M \<or> shared_arrow s h = Inr p"
  shows "\<exists>s'. assign_pointer s h p = Inr s' \<and> shared_inv (M \<union> ({p} - {0})) s'"
proof -
  note d = shared_invD [OF inv]
  obtain f where f: "handle s h = Some f" "handles s h = Some (Some f)" using h by (auto simp: handle_Some)
  obtain x where x: "fats s f = Some x" using countedD(3) [OF d(3) refs_pos [OF d(1) f(2)]] by blast
  show ?thesis
  proof (cases "pointer x = p")
    case True
    then have "p \<in> M \<or> p = 0" using countedD(2) [OF d(3) x] by auto
    then have "M \<union> ({p} - {0}) = M" by auto
    then show ?thesis using True f x inv by (simp add: assign_pointer_def fat_def)
  next
    case False
    then have p: "p \<notin> M" using p f x by (auto simp: shared_arrow_def fat_def)
    obtain s1 where s1: "decrementCounter s (handle s h) = Inr s1" "handles s1 = handles s"
      "counted s1 (refs ((handles s)(h := None))) M" using drop_reference [OF inv, of h] f(2) by auto
    from new_reference [OF s1(3) p, of h] d(1)
    obtain s2 where s2: "(let (s, f) = new_fat s1 p in incrementCounter (set_handle s h (Some f)) (Some f)) = Inr s2"
      "handles s2 = (handles s)(h \<mapsto> Some (fat_next s1))"
      "counted s2 (refs ((handles s)(h \<mapsto> Some (fat_next s1)))) (M \<union> ({p} - {0}))" using s1(2) by auto
    have "dom (handles s2) = dom (handles s)" using s2(2) f(2) by auto
    then have "shared_inv (M \<union> ({p} - {0})) s2" using s2 d(1,2) by (simp add: shared_inv_def)
    then show ?thesis using False f(1) x s1(1) s2(1) by (simp add: assign_pointer_def fat_def)
  qed
qed

lemma assign_copy_step:
  assumes inv: "shared_inv M s" and h: "handles s h \<noteq> None" and r: "handle s r \<noteq> None"
  shows "\<exists>s'. assign_copy s h r = Inr s' \<and> shared_inv M s'"
proof (cases "handle s h = handle s r")
  case True
  then show ?thesis using inv by (simp add: assign_copy_def)
next
  case False
  note d = shared_invD [OF inv]
  obtain f where f: "handle s r = Some f" "handles s r = Some (Some f)" using r by (auto simp: handle_Some)
  have hr: "h \<noteq> r" using False by auto
  obtain s1 where s1: "decrementCounter s (handle s h) = Inr s1" "handles s1 = handles s"
    "counted s1 (refs ((handles s)(h := None))) M" using drop_reference [OF inv h] by blast
  have "card (dom (handles s) - {h}) \<le> card (dom (handles s))" by (rule card_mono [OF d(1)]) blast
  with take_reference [OF s1(3), of h r f "(handles s)(h \<mapsto> Some f)"] d(1,2) f(2) hr
  obtain s2 where s2: "incrementCounter (s1\<lparr>handles := (handles s)(h \<mapsto> Some f)\<rparr>) (Some f) = Inr s2"
    "handles s2 = (handles s)(h \<mapsto> Some f)" "counted s2 (refs ((handles s)(h \<mapsto> Some f))) M" by auto
  have "dom (handles s2) = dom (handles s)" using s2(2) h by auto
  then have "shared_inv M s2" using s2 d(1,2) by (simp add: shared_inv_def)
  moreover have "handle s1 r = Some f" using f s1(2) by (simp add: handle_Some)
  ultimately show ?thesis using False f(1) s1(1,2) s2(1) by (simp add: assign_copy_def set_handle_def)
qed

lemma assign_move_step:
  assumes inv: "shared_inv M s" and h: "handles s h \<noteq> None" and r: "handles s r \<noteq> None"
  shows "\<exists>s'. assign_move s h r = Inr s' \<and> shared_inv M s'"
proof -
  note d = shared_invD [OF inv]
  obtain s1 where s1: "decrementCounter s (handle s h) = Inr s1" "handles s1 = handles s"
    "counted s1 (refs ((handles s)(h := None))) M" using drop_reference [OF inv h] by blast
  let ?hs = "(handles s)(h \<mapsto> handle s r, r \<mapsto> None)"
  have "refs ?hs g = refs ((handles s)(h := None)) g" for g
    using refs_update [OF d(1), of h None g] refs_update [OF d(1), of h "Some (handle s r)" g]
      refs_update [of "(handles s)(h \<mapsto> handle s r)" r "Some None" g] d(1) r h
    by (cases "h = r") (auto simp: handle_Some handle_def split: option.splits)
  then have "refs ?hs = refs ((handles s)(h := None))" by (rule ext)
  moreover have "dom ?hs = dom (handles s)" using h r by auto
  moreover have "handle s1 r = handle s r" using s1(2) by (simp add: handle_def)
  ultimately show ?thesis using s1 d(1,2) by (auto simp: assign_move_def set_handle_def shared_inv_def simp del: dom_fun_upd)
qed

lemma shared_step:
  assumes inv: "shared_inv M s" and l: "legal M s c"
  shows "\<exists>s'. shared_apply c s = Inr s' \<and> shared_inv (M \<union> op_pointers c) s'"
proof (cases c)
  case (S_Drop h)
  then show ?thesis using drop_step [OF inv, of h] l by simp
next
  case (S_Set h p)
  then show ?thesis using assign_pointer_step [OF inv, of h p] l by simp
next
  case (S_Assign h r)
  then show ?thesis using assign_copy_step [OF inv, of h r] l by simp
next
  case (S_Assign_Move h r)
  then show ?thesis using assign_move_step [OF inv, of h r] l by simp
qed (use construct_step [OF inv l] in blast)+

lemma shared_invariant: "shared_reach M s \<Longrightarrow> shared_inv M s"
proof (induction rule: shared_reach.induct)
  case start
  show ?case by (simp add: shared_inv_def shared_empty_def counted_def refs_def)
next
  case (step M s c s')
  then show ?case using shared_step [OF step.IH step.hyps(2)] by auto
qed

subsection \<open>Properties\<close>

definition holds_object :: "shared_state \<Rightarrow> nat \<Rightarrow> ptr \<Rightarrow> bool" where
  "holds_object s h p \<longleftrightarrow> (\<exists>f x. handles s h = Some (Some f) \<and> fats s f = Some x \<and> pointer x = p)"

text \<open>
  \<^bold>\<open>C26.\<close> Shared pointers (shared.h). In every program that constructs, copies, moves, assigns and destroys shared
  pointers as the code allows, each operation succeeds without touching freed memory, the counter of every object
  that is alive is the number of variables that hold it and is not zero, an object is
  deleted exactly when no variable holds it any more, and no object is deleted twice.
\<close>

theorem shared_pointers_correct:
  assumes "shared_reach M s"
  shows "(\<forall>c. legal M s c \<longrightarrow> (\<exists>s'. shared_apply c s = Inr s')) \<and> distinct (deleted s) \<and>
    (\<forall>f x. fats s f = Some x \<longrightarrow> pointer x \<noteq> 0 \<longrightarrow>
       unat (counter x) = card {h. holds_object s h (pointer x)} \<and> counter x \<noteq> 0 \<and> pointer x \<in> M - set (deleted s)) \<and>
    (\<forall>p \<in> M. p \<in> set (deleted s) \<longleftrightarrow> (\<forall>h. \<not> holds_object s h p))"
proof (intro conjI allI impI ballI)
  have inv: "shared_inv M s" by (rule shared_invariant [OF assms])
  note c = shared_invD(3) [OF inv] and fin = shared_invD(1) [OF inv]
  show "\<exists>s'. shared_apply c s = Inr s'" if "legal M s c" for c using shared_step [OF inv that] by blast
  show "distinct (deleted s)" by (rule countedD(5) [OF c])
  {
    fix f x
    assume f: "fats s f = Some x" "pointer x \<noteq> 0"
    note n = countedD(2) [OF c f]
    have "{h. holds_object s h (pointer x)} = {h. handles s h = Some (Some f)}"
    proof (intro Collect_cong iffI)
      fix h
      assume "holds_object s h (pointer x)"
      then obtain g y where "handles s h = Some (Some g)" "fats s g = Some y" "pointer y = pointer x" unfolding holds_object_def by blast
      then show "handles s h = Some (Some f)" using countedD(4) [OF c f(1), of g y] f(2) by simp
    qed (use f(1) in \<open>auto simp: holds_object_def\<close>)
    then show "unat (counter x) = card {h. holds_object s h (pointer x)}" using n by (simp add: refs_def)
    show "counter x \<noteq> 0" "pointer x \<in> M - set (deleted s)" using n by auto
  }
  fix p
  assume p: "p \<in> M"
  then have z: "p \<noteq> 0" using countedD(7) [OF c] by blast
  show "p \<in> set (deleted s) \<longleftrightarrow> (\<forall>h. \<not> holds_object s h p)"
  proof
    assume "p \<in> set (deleted s)"
    then show "\<forall>h. \<not> holds_object s h p" using countedD(2) [OF c] z by (auto simp: holds_object_def)
  next
    assume none: "\<forall>h. \<not> holds_object s h p"
    show "p \<in> set (deleted s)"
    proof (rule ccontr)
      assume "p \<notin> set (deleted s)"
      then obtain f x where f: "fats s f = Some x" "pointer x = p" using countedD(8) [OF c p] by blast
      then have "0 < refs (handles s) f" using countedD(2) [OF c f(1)] z by blast
      then obtain h where "handles s h = Some (Some f)" by (auto simp: refs_def card_gt_0_iff)
      then show False using none f by (auto simp: holds_object_def)
    qed
  qed
qed

lemma shared_run_example:
  "\<exists>s. shared_reach {64} s \<and> handles s = [1 \<mapsto> Some 0, 0 \<mapsto> None] \<and> fats s = [0 \<mapsto> \<lparr>pointer = 64, counter = 1\<rparr>] \<and> deleted s = []"
proof -
  obtain s1 where s1: "shared_apply (S_Of 0 64) shared_empty = Inr s1"
    "fats s1 = [0 \<mapsto> \<lparr>pointer = 64, counter = 1\<rparr>]" "handles s1 = [0 \<mapsto> Some 0]" "deleted s1 = []"
    by (simp add: shared_of_def new_fat_def set_handle_def incrementCounter_def fat_def shared_empty_def)
  have r1: "shared_reach {64} s1"
    using shared_reach.step [OF shared_reach.start _ s1(1)] by (simp add: room_def shared_empty_def)
  obtain s2 where s2: "shared_apply (S_Move 1 0) s1 = Inr s2"
    "fats s2 = fats s1" "handles s2 = [1 \<mapsto> Some 0, 0 \<mapsto> None]" "deleted s2 = []"
    using s1 by (simp add: shared_move_def set_handle_def handle_def fun_upd_twist)
  have "shared_reach {64} s2"
    using shared_reach.step [OF r1 _ s2(1)] s1 by (simp add: room_def)
  then show ?thesis using s1 s2 by auto
qed

theorem shared_pointers_correct_witness:
  "\<exists>s. shared_reach {64} s \<and> holds_object s 1 64 \<and> 64 \<notin> set (deleted s) \<and> card {h. holds_object s h 64} = 1 \<and>
     (\<exists>s'. shared_apply (S_Copy 2 1) s = Inr s')"
proof -
  obtain s where s: "shared_reach {64} s" "handles s = [1 \<mapsto> Some 0, 0 \<mapsto> None]"
    "fats s = [0 \<mapsto> \<lparr>pointer = 64, counter = 1\<rparr>]" using shared_run_example by blast
  have "holds_object s 1 64" using s by (simp add: holds_object_def)
  moreover have "legal {64} s (S_Copy 2 1)" using s by (simp add: room_def handle_def)
  moreover have "fats s 0 = Some \<lparr>pointer = 64, counter = 1\<rparr>" using s(3) by simp
  then have "card {h. holds_object s h 64} = 1"
    using shared_pointers_correct [OF s(1), THEN conjunct2, THEN conjunct2, THEN conjunct1, rule_format, of 0] by simp
  ultimately show ?thesis using s(1) shared_pointers_correct [OF s(1)] by blast
qed

text \<open>
  What the conditions of \<open>legal\<close> keep away: a moved-from variable has a null fat pointer, and copying it
  dereferences it; and a default constructed variable never gives back its fat pointer and counter.
\<close>

lemma copy_of_moved_undefined:
  assumes "handles s r = Some None"
  shows "shared_copy s h r = Inl (Undefined_Behaviour ''null fatPointer'')"
  using assms by (simp add: shared_copy_def handle_def incrementCounter_def fat_def)

lemma default_leaks:
  "\<exists>s1 s2. shared_default shared_empty 0 = Inr s1 \<and> shared_drop s1 0 = Inr s2 \<and>
     handles s2 = Map.empty \<and> fats s2 \<noteq> Map.empty"
  by (simp add: shared_default_def shared_drop_def new_fat_def set_handle_def shared_empty_def handle_def
      decrementCounter_def fat_def)

end
