(* ===== verification/Config_Tables.thy ===== *)
theory Config_Tables
  imports Kernel_Config
begin

text \<open>
  \<^verbatim>\<open>kernel/config.cc\<close>: the machine configuration read from the ACPI tables in memory. A pointer into a
  table is its address; the members of the packed structs are at the offsets of their declarations.
  A table whose entry has length 0 makes the loop of \<^verbatim>\<open>configInit\<close> run forever (\<open>None\<close>).
\<close>

subsection \<open>Searching the tables (config.cc)\<close>

record mem_info =
  ax :: u16
  bx :: u16
  cx :: u16
  dx :: u16

definition load16 :: "memory \<Rightarrow> u32 \<Rightarrow> u16" where
  "load16 m a = ucast (m a) OR push_bit 8 (ucast (m (a + 1)))"

text \<open>\<open>b\<close> is the constant string compared with, of the length given in the call.\<close>

primrec iseq :: "memory \<Rightarrow> u32 \<Rightarrow> u8 list \<Rightarrow> bool" where
  "iseq m a [] = True"
| "iseq m a (b # bs) = (if m a \<noteq> b then False else iseq m (a + 1) bs)"

definition chars :: "string \<Rightarrow> u8 list" where
  "chars s = map (\<lambda>c. of_nat (of_char c)) s"

partial_function (option) findRSDInRange :: "memory \<Rightarrow> u32 \<Rightarrow> u32 \<Rightarrow> u32 option" where
  "findRSDInRange m i e =
     (if i < e then if iseq m i (chars ''RSD PTR '') then Some i else findRSDInRange m (i + 16) e
      else Some 0)"

definition findRSD :: "memory \<Rightarrow> u32 option" where
  "findRSD m =
     (case findRSDInRange m 0xE0000 0x100000 of
        None \<Rightarrow> None
      | Some it \<Rightarrow>
          if it = 0
          then let base = push_bit 4 (ucast (load16 m 0x40E)) in findRSDInRange m base (base + push_bit 10 1)
          else Some it)"

definition sizeof_SDT :: u32 where
  "sizeof_SDT = 36"

definition rootSDT :: "memory \<Rightarrow> u32 \<Rightarrow> u32" where
  "rootSDT m rsdp = load32 m (rsdp + 16)"

definition sdt_Length :: "memory \<Rightarrow> u32 \<Rightarrow> u32" where
  "sdt_Length m t = load32 m (t + 4)"

function findSDT_loop :: "memory \<Rightarrow> u32 \<Rightarrow> u8 list \<Rightarrow> nat \<Rightarrow> nat \<Rightarrow> u32" where
  "findSDT_loop m others name entries i =
     (if i < entries
      then let h = get32 m others (of_nat i) in
        if iseq m h name then h else findSDT_loop m others name entries (Suc i)
      else 0)"
  by pat_completeness auto
termination by (relation "measure (\<lambda>(m, others, name, entries, i). entries - i)") auto

declare findSDT_loop.simps [simp del]

definition findSDT :: "memory \<Rightarrow> u32 \<Rightarrow> u8 list \<Rightarrow> u32 result" where
  "findSDT m rsdp name =
     (if rsdp = 0 then Inl (Undefined_Behaviour ''null rsdp'')
      else let rsdt = rootSDT m rsdp; entries = (sdt_Length m rsdt - sizeof_SDT) div 4 in
        Inr (findSDT_loop m (rsdt + sizeof_SDT) name (unat entries) 0))"

definition memAbove1M :: "mem_info \<Rightarrow> u32 result" where
  "memAbove1M mi =
     assert_k (cx mi = 15 * 1024 \<or> dx mi = 0) ''(memInfo.cx == 15 * 1024) || (memInfo.dx == 0)''
       (Inr (push_bit 10 (ucast (ax mi OR cx mi)) + push_bit 16 (ucast (bx mi OR dx mi))))"

subsection \<open>The interrupt controller table (configInit)\<close>

text \<open>One entry of the table, at address \<open>p\<close>: the bodies of the two branches of the loop.\<close>

definition madt_entry :: "memory \<Rightarrow> u32 \<Rightarrow> config \<Rightarrow> config result" where
  "madt_entry m p c =
     (if m p = 0 then
        if m (p + 2) = 0 then Inr c
        else if MAX_PROCS \<le> unat (nOtherProcs c) then Inl (Undefined_Behaviour ''apicInfo'')
        else Inr (c\<lparr>apicInfo := (apicInfo c)[unat (nOtherProcs c) :=
                \<lparr>processorId = m (p + 2), apicId = m (p + 3), apic_flags = load32 m (p + 4)\<rparr>],
              nOtherProcs := nOtherProcs c + 1\<rparr>)
      else if m p = 1 then Inr (c\<lparr>ioAPIC := load32 m (p + 4)\<rparr>)
      else Inr c)"

partial_function (option) madt_loop :: "memory \<Rightarrow> u32 \<Rightarrow> u32 \<Rightarrow> config \<Rightarrow> config result option" where
  "madt_loop m entryPtr bytesForEntries c =
     (if 0 < sint bytesForEntries
      then let len = ucast (m (entryPtr + 1));
               entryPtr = entryPtr + len;
               bytesForEntries = bytesForEntries - len
        in (case madt_entry m entryPtr c of
              Inl e \<Rightarrow> Some (Inl e)
            | Inr c \<Rightarrow> madt_loop m entryPtr bytesForEntries c)
      else Some (Inr c))"

definition sizeof_MADT :: u32 where
  "sizeof_MADT = 44"

definition set_oemid :: "memory \<Rightarrow> u32 \<Rightarrow> config \<Rightarrow> config" where
  "set_oemid m rsdp c = c\<lparr>oemid := map (\<lambda>i. m (rsdp + 9 + of_nat i)) [0..<6] @ [0]\<rparr>"

definition configInit :: "memory \<Rightarrow> mem_info \<Rightarrow> config \<Rightarrow> config result option" where
  "configInit m mi c =
     obind (Some (memAbove1M mi)) (\<lambda>sz.
       let c = c\<lparr>memSize := sz + push_bit 20 1\<rparr> in
       case findRSD m of
         None \<Rightarrow> None
       | Some rsdp \<Rightarrow>
           let c = (if rsdp \<noteq> 0 then set_oemid m rsdp c else c) in
           obind (Some (findSDT m rsdp (chars ''APIC''))) (\<lambda>madt.
             if madt = 0 then Some (Inl (Undefined_Behaviour ''null madt''))
             else
               let c = c\<lparr>localAPIC := load32 m (madt + 36), madtFlags := load32 m (madt + 40), nOtherProcs := 0\<rparr> in
               obind (madt_loop m (madt + sizeof_MADT) (sdt_Length m madt - sizeof_MADT) c) (\<lambda>c.
                 Some (Inr (c\<lparr>totalProcs := nOtherProcs c + 1\<rparr>)))))"

subsection \<open>What the searches find\<close>

lemma iseq_iff: "iseq m a bs \<longleftrightarrow> (\<forall>i < length bs. m (a + of_nat i) = bs ! i)"
proof (induction bs arbitrary: a)
  case (Cons b bs)
  have "(\<forall>i < length (b # bs). m (a + of_nat i) = (b # bs) ! i) \<longleftrightarrow>
      m a = b \<and> (\<forall>i < length bs. m (a + 1 + of_nat i) = bs ! i)"
    by (simp add: All_less_Suc2 add.assoc)
  then show ?case using Cons.IH by simp
qed simp

lemma findRSDInRange_hit:
  assumes "iseq m (s + 16 * of_nat k) (chars ''RSD PTR '')" "unat s + 16 * k < unat e"
    and "\<And>j. j < k \<Longrightarrow> \<not> iseq m (s + 16 * of_nat j) (chars ''RSD PTR '')"
  shows "findRSDInRange m s e = Some (s + 16 * of_nat k)"
  using assms
proof (induction k arbitrary: s)
  case 0
  then show ?case by (subst findRSDInRange.simps) (simp add: word_less_nat_alt)
next
  case (Suc k)
  have lt: "s < e" using Suc.prems(2) by (simp add: word_less_nat_alt)
  have s: "unat (s + 16) = unat s + 16" using Suc.prems(2) unat_lt_2p32 [of e] by (subst unat_add_no_wrap) simp_all
  have no: "\<not> iseq m s (chars ''RSD PTR '')" using Suc.prems(3) [of 0] by simp
  have "findRSDInRange m (s + 16) e = Some (s + 16 + 16 * of_nat k)"
  proof (rule Suc.IH)
    show "iseq m (s + 16 + 16 * of_nat k) (chars ''RSD PTR '')" using Suc.prems(1) by (simp add: algebra_simps)
    show "unat (s + 16) + 16 * k < unat e" using Suc.prems(2) s by simp
    show "\<not> iseq m (s + 16 + 16 * of_nat j) (chars ''RSD PTR '')" if "j < k" for j
      using Suc.prems(3) [of "Suc j"] that by (simp add: algebra_simps)
  qed
  then show ?case using lt no by (subst findRSDInRange.simps) (simp add: algebra_simps)
qed

text \<open>The search always ends where the kernel uses it.\<close>

lemma findRSDInRange_ends:
  assumes "unat e + 16 \<le> 2 ^ 32"
  shows "\<exists>p. findRSDInRange m s e = Some p"
proof (induction "unat e - unat s" arbitrary: s rule: less_induct)
  case less
  show ?case
  proof (cases "s < e")
    case True
    then have "unat (s + 16) = unat s + 16"
      using assms by (subst unat_add_no_wrap) (simp_all add: word_less_nat_alt)
    then have "unat e - unat (s + 16) < unat e - unat s" using True by (simp add: word_less_nat_alt)
    then obtain p where "findRSDInRange m (s + 16) e = Some p" using less by blast
    then show ?thesis by (subst findRSDInRange.simps) simp
  next
    case False
    then show ?thesis by (subst findRSDInRange.simps) simp
  qed
qed

lemma findSDT_loop_first:
  assumes "i \<le> j" "j < entries" "iseq m (get32 m others (of_nat j)) name"
    and "\<And>k. i \<le> k \<Longrightarrow> k < j \<Longrightarrow> \<not> iseq m (get32 m others (of_nat k)) name"
  shows "findSDT_loop m others name entries i = get32 m others (of_nat j)"
  using assms
proof (induction "j - i" arbitrary: i)
  case 0
  then show ?case by (subst findSDT_loop.simps) (simp add: Let_def)
next
  case (Suc d)
  have "findSDT_loop m others name entries (Suc i) = get32 m others (of_nat j)"
    using Suc.prems Suc.hyps(2) by (intro Suc.hyps(1)) auto
  moreover have "i < entries" "\<not> iseq m (get32 m others (of_nat i)) name"
    using Suc.prems(1,2) Suc.prems(4) [of i] Suc.hyps(2) by auto
  ultimately show ?case by (subst findSDT_loop.simps) (simp add: Let_def)
qed

subsection \<open>The loop over the entries\<close>

text \<open>\<open>ls\<close> are the lengths of the entries of a table that starts at \<open>p\<close>.\<close>

fun madt_layout :: "memory \<Rightarrow> u32 \<Rightarrow> u8 list \<Rightarrow> bool" where
  "madt_layout m p [] = True"
| "madt_layout m p (l # ls) = (l \<noteq> 0 \<and> m (p + 1) = l \<and> madt_layout m (p + ucast l) ls)"

fun entry_ends :: "u32 \<Rightarrow> u8 list \<Rightarrow> u32 list" where
  "entry_ends p [] = []"
| "entry_ends p (l # ls) = (p + ucast l) # entry_ends (p + ucast l) ls"

lemma unat_ucast8: "unat (ucast (l :: u8) :: u32) = unat l"
proof -
  have "unat l < 2 ^ LENGTH(8)" by (rule unsigned_less)
  then show ?thesis by (simp add: unsigned_ucast_eq take_bit_nat_eq_self)
qed

lemma sint_of_nat: "n < 2 ^ 31 \<Longrightarrow> sint (of_nat n :: u32) = int n"
  using sint_small [of "of_nat n"] by simp

lemma madt_loop_entries:
  assumes "madt_layout m p ls" "sum_list (map unat ls) < 2 ^ 31"
  shows "madt_loop m p (of_nat (sum_list (map unat ls))) c = Some (rfold (madt_entry m) (entry_ends p ls) c)"
  using assms
proof (induction ls arbitrary: p c)
  case Nil
  then show ?case by (subst madt_loop.simps) simp
next
  case (Cons l ls)
  let ?n = "sum_list (map unat ls)"
  have l: "l \<noteq> 0" "m (p + 1) = l" "madt_layout m (p + ucast l) ls" using Cons.prems(1) by simp_all
  have pos: "0 < sint (of_nat (unat l + ?n) :: u32)"
  proof -
    have "0 < unat l + ?n" "unat l + ?n < 2 ^ 31" using l(1) Cons.prems(2) by (simp_all add: unat_gt_0)
    then show ?thesis by (simp only: sint_of_nat of_nat_0_less_iff)
  qed
  have "(of_nat (unat l) :: u32) = ucast l" by simp
  then have rest: "(of_nat (unat l + ?n) :: u32) - ucast l = of_nat ?n" by simp
  have IH: "madt_loop m (p + ucast l) (of_nat ?n) c' = Some (rfold (madt_entry m) (entry_ends (p + ucast l) ls) c')" for c'
    using Cons.prems(2) l(3) by (intro Cons.IH) simp_all
  have "madt_loop m p (of_nat (unat l + ?n)) c =
      (case madt_entry m (p + ucast l) c of Inl e \<Rightarrow> Some (Inl e)
       | Inr c \<Rightarrow> Some (rfold (madt_entry m) (entry_ends (p + ucast l) ls) c))"
    by (subst madt_loop.simps) (simp only: pos if_True Let_def l(2) rest, simp add: IH split: sum.splits)
  then show ?case by (simp add: rbind_def split: sum.splits)
qed

subsection \<open>Properties\<close>

text \<open>
  What \<^verbatim>\<open>configInit\<close> computes (config.cc). When the BIOS area holds a root pointer, first at the 16-byte step
  \<open>k\<close>, whose root table has its first \<^verbatim>\<open>APIC\<close> table at index \<open>j\<close>, and that table consists of entries of lengths
  \<open>ls\<close>, then \<^verbatim>\<open>configInit\<close> ends and sets memory size, OEM name, APIC address and flags from the tables,
  and the processors and the I/O APIC by looking at the ends of the entries: at every entry but the first,
  and at the bytes behind the table as if they were one more entry.
\<close>

theorem configInit_tables:
  assumes rsd: "rsd = 0xE0000 + 16 * of_nat k" "k < 8192" "iseq m rsd (chars ''RSD PTR '')"
      "\<forall>i < k. \<not> iseq m (0xE0000 + 16 * of_nat i) (chars ''RSD PTR '')"
    and root: "others = rootSDT m rsd + 36" "j < unat ((sdt_Length m (rootSDT m rsd) - 36) div 4)"
      "madt = get32 m others (of_nat j)" "madt \<noteq> 0" "iseq m madt (chars ''APIC'')"
      "\<forall>i < j. \<not> iseq m (get32 m others (of_nat i)) (chars ''APIC'')"
    and entries: "madt_layout m (madt + 44) ls" "sdt_Length m madt = 44 + of_nat (sum_list (map unat ls))"
      "sum_list (map unat ls) < 2 ^ 31"
    and mem: "memAbove1M mi = Inr sz"
  shows "configInit m mi c = Some (rbind
    (rfold (madt_entry m) (entry_ends (madt + 44) ls)
      (set_oemid m rsd (c\<lparr>memSize := sz + 0x100000\<rparr>)\<lparr>localAPIC := load32 m (madt + 36),
         madtFlags := load32 m (madt + 40), nOtherProcs := 0\<rparr>))
    (\<lambda>c. Inr (c\<lparr>totalProcs := nOtherProcs c + 1\<rparr>)))"
proof -
  have "findRSDInRange m 0xE0000 0x100000 = Some (0xE0000 + 16 * of_nat k)"
    using rsd by (intro findRSDInRange_hit) auto
  then have hit: "findRSDInRange m 0xE0000 0x100000 = Some rsd" using rsd(1) by simp
  have "unat (16 * of_nat k :: u32) = 16 * k" using rsd(2) by (simp add: unat_word_ariths)
  then have "unat rsd = 0xE0000 + 16 * k" using rsd(1,2) by (simp add: unat_word_ariths)
  then have nz: "rsd \<noteq> 0" by auto
  then have "findRSD m = Some rsd" using hit by (simp add: findRSD_def)
  moreover have "findSDT m rsd (chars ''APIC'') = Inr madt"
    using findSDT_loop_first [of 0 j _ m others "chars ''APIC''"] root nz
    by (simp add: findSDT_def sizeof_SDT_def Let_def)
  moreover note madt_loop_entries [OF entries(1,3)]
  ultimately show ?thesis
    using mem root(4) nz entries(2)
    by (simp add: configInit_def sizeof_MADT_def Let_def obind_def rbind_def push_bit_eq_mult split: sum.splits)
qed

definition place :: "u32 \<Rightarrow> u8 list \<Rightarrow> memory \<Rightarrow> memory" where
  "place a bs m = (\<lambda>x. if unat (x - a) < length bs then bs ! unat (x - a) else m x)"

text \<open>A root table at 0x1000 with one \<^verbatim>\<open>APIC\<close> table at 0x2000, which has two processors.\<close>

definition sample_tables :: memory where
  "sample_tables =
     place 0xE0000 (chars ''RSD PTR '' @ replicate 8 0 @ [0, 0x10, 0, 0])
    (place 0x1000 (chars ''RSDT'' @ [40, 0, 0, 0] @ replicate 28 0 @ [0, 0x20, 0, 0])
    (place 0x2000 (chars ''APIC'' @ [60, 0, 0, 0] @ replicate 28 0 @ [0, 0, 0xE0, 0xFE, 1, 0, 0, 0]
       @ [0, 8, 1, 1, 1, 0, 0, 0] @ [0, 8, 2, 2, 1, 0, 0, 0])
    (\<lambda>_. 0xFF)))"

lemmas table_eval = sample_tables_def place_def chars_def load32_def sdt_Length_def rootSDT_def get32_def nth_append

theorem configInit_tables_witness:
  "\<forall>c. configInit sample_tables \<lparr>ax = 0, bx = 0, cx = 0, dx = 0\<rparr> c = Some (rbind
    (rfold (madt_entry sample_tables) [0x2034, 0x203C]
      (set_oemid sample_tables 0xE0000 (c\<lparr>memSize := 0x100000\<rparr>)\<lparr>localAPIC := load32 sample_tables 0x2024,
         madtFlags := load32 sample_tables 0x2028, nOtherProcs := 0\<rparr>))
    (\<lambda>c. Inr (c\<lparr>totalProcs := nOtherProcs c + 1\<rparr>)))"
proof -
  have root: "rootSDT sample_tables 0xE0000 = 0x1000" "sdt_Length sample_tables 0x1000 = 40"
    "get32 sample_tables 0x1024 0 = 0x2000" "sdt_Length sample_tables 0x2000 = 60"
    by (simp_all add: table_eval)
  have "configInit sample_tables \<lparr>ax = 0, bx = 0, cx = 0, dx = 0\<rparr> c = Some (rbind
    (rfold (madt_entry sample_tables) (entry_ends (0x2000 + 44) [8, 8])
      (set_oemid sample_tables 0xE0000 (c\<lparr>memSize := 0 + 0x100000\<rparr>)\<lparr>localAPIC := load32 sample_tables (0x2000 + 36),
         madtFlags := load32 sample_tables (0x2000 + 40), nOtherProcs := 0\<rparr>))
    (\<lambda>c. Inr (c\<lparr>totalProcs := nOtherProcs c + 1\<rparr>)))" for c
    by (rule configInit_tables [where k = 0 and j = 0 and others = "0x1024"])
      (simp_all add: root, simp_all add: table_eval memAbove1M_def)
  then show ?thesis by simp
qed

end
