(* ===== verification/Devices.thy ===== *)
theory Devices
  imports Kernel_Config
begin

text \<open>
  Interrupt vectors (\<^verbatim>\<open>idt.cc\<close>), the registers of the local interrupt controller (\<^verbatim>\<open>smp.h\<close>, \<^verbatim>\<open>smp.cc\<close>) and the
  calibration of its timer (\<^verbatim>\<open>pit.cc\<close>). What the code sends to devices is kept as a log in program order; what
  it reads from them is an argument.
\<close>

unbundle bit_operations_syntax

subsection \<open>State\<close>

datatype io = Outb u16 u8 | Store u32 u32 | Wrmsr u32 u64

text \<open>The addresses held by the register pointers of class \<^verbatim>\<open>SMP\<close>.\<close>

record smp_regs =
  id_reg :: u32
  eoi_reg :: u32
  spurious :: u32
  icr_low :: u32
  icr_high :: u32
  apit_lvt_timer :: u32
  apit_initial_count :: u32
  apit_current_count :: u32
  apit_divide :: u32

record machine =
  idt :: "int \<Rightarrow> u32"
  regs :: smp_regs
  io_log :: "io list"
  apitCounter :: u32
  jiffiesPerSecond :: u32

definition outb :: "u16 \<Rightarrow> u8 \<Rightarrow> machine \<Rightarrow> machine" where
  "outb port v m = m\<lparr>io_log := io_log m @ [Outb port v]\<rparr>"

definition set_reg :: "u32 \<Rightarrow> u32 \<Rightarrow> machine \<Rightarrow> machine" where
  "set_reg a v m = m\<lparr>io_log := io_log m @ [Store a v]\<rparr>"

definition wrmsr :: "u32 \<Rightarrow> u64 \<Rightarrow> machine \<Rightarrow> machine" where
  "wrmsr r v m = m\<lparr>io_log := io_log m @ [Wrmsr r v]\<rparr>"

subsection \<open>Interrupt descriptors (idt.cc)\<close>

definition IDT_interrupt :: "u32 \<Rightarrow> int \<Rightarrow> u32 \<Rightarrow> machine \<Rightarrow> machine" where
  "IDT_interrupt kernelCS index handler m =
     (let i0 = 2 * index;
          i1 = i0 + 1;
          t = (idt m)(i0 := push_bit 16 kernelCS + (handler AND 0xffff));
          t = t(i1 := (handler AND 0xffff0000) OR 0x8e00)
      in m\<lparr>idt := t\<rparr>)"

definition IDT_trap :: "u32 \<Rightarrow> int \<Rightarrow> u32 \<Rightarrow> u32 \<Rightarrow> machine \<Rightarrow> machine" where
  "IDT_trap kernelCS index handler dpl m =
     (let i0 = 2 * index;
          i1 = i0 + 1;
          t = (idt m)(i0 := push_bit 16 kernelCS + (handler AND 0xffff));
          t = t(i1 := (handler AND 0xffff0000) OR 0x8f00 OR push_bit 13 dpl)
      in m\<lparr>idt := t\<rparr>)"

text \<open>\<^verbatim>\<open>SYS::init\<close> (sys.cc); \<open>sys_entry\<close> is the address of the assembly entry point.\<close>

definition SYS_init :: "u32 \<Rightarrow> u32 \<Rightarrow> machine \<Rightarrow> machine" where
  "SYS_init kernelCS sys_entry m = IDT_trap kernelCS 48 sys_entry 3 m"

subsection \<open>The local interrupt controller (smp.h, smp.cc)\<close>

definition MSR :: u32 where
  "MSR = 0x1B"

definition ENABLE :: u64 where
  "ENABLE = push_bit 11 1"

definition smp_registers :: "config \<Rightarrow> smp_regs" where
  "smp_registers kConfig =
     \<lparr>id_reg = localAPIC kConfig + 0x20, eoi_reg = localAPIC kConfig + 0xb0, spurious = localAPIC kConfig + 0xf0,
      icr_low = localAPIC kConfig + 0x300, icr_high = localAPIC kConfig + 0x310,
      apit_lvt_timer = localAPIC kConfig + 0x320, apit_initial_count = localAPIC kConfig + 0x380,
      apit_current_count = localAPIC kConfig + 0x390, apit_divide = localAPIC kConfig + 0x3e0\<rparr>"

text \<open>\<open>msr\<close> is what \<^verbatim>\<open>rdmsr\<close> returns.\<close>

definition SMP_init :: "config \<Rightarrow> u32 \<Rightarrow> u32 \<Rightarrow> u64 \<Rightarrow> bool \<Rightarrow> machine \<Rightarrow> machine" where
  "SMP_init kConfig kernelCS spurious_entry msr isFirst m =
     (let m = (if isFirst then IDT_interrupt kernelCS 0xff spurious_entry (m\<lparr>regs := smp_registers kConfig\<rparr>) else m);
          m = outb 0x21 0xff m;
          m = outb 0xa1 0xff m;
          m = wrmsr MSR (msr OR ENABLE) m
      in set_reg (spurious (regs m)) 0x1ff m)"

text \<open>\<open>idv\<close> is the value of the identification register.\<close>

definition SMP_me :: "u32 \<Rightarrow> u32" where
  "SMP_me idv = drop_bit 24 idv"

definition SMP_eoi :: "machine \<Rightarrow> machine" where
  "SMP_eoi m = set_reg (eoi_reg (regs m)) 0 m"

text \<open>\<open>low k\<close> is what the \<open>k\<close>-th poll of the command register reads; the bit is set while the message is on its way.\<close>

partial_function (option) ipi_poll :: "(nat \<Rightarrow> u32) \<Rightarrow> nat \<Rightarrow> nat option" where
  "ipi_poll low k = (if low k AND push_bit 12 1 \<noteq> 0 then ipi_poll low (Suc k) else Some k)"

definition SMP_ipi :: "(nat \<Rightarrow> u32) \<Rightarrow> u32 \<Rightarrow> u32 \<Rightarrow> machine \<Rightarrow> machine option" where
  "SMP_ipi low i num m =
     (let m = set_reg (icr_high (regs m)) (push_bit 24 i) m;
          m = set_reg (icr_low (regs m)) num m
      in map_option (\<lambda>_. m) (ipi_poll low 0))"

subsection \<open>The timer (pit.cc)\<close>

definition PIT_FREQ :: u32 where
  "PIT_FREQ = 1193182"

definition APIT_vector :: u32 where
  "APIT_vector = 40"

text \<open>\<open>wave k\<close> is the \<open>k\<close>-th value read from port 0x61. The result is the number of values read.\<close>

partial_function (option) calibrate_loop :: "(nat \<Rightarrow> u8) \<Rightarrow> nat \<Rightarrow> u32 \<Rightarrow> u32 \<Rightarrow> nat option" where
  "calibrate_loop wave k was changes =
     (if changes < 40
      then let t = ucast (wave k) AND 0x20 in
        if t \<noteq> was then calibrate_loop wave (Suc k) t (changes + 1) else calibrate_loop wave (Suc k) was changes
      else Some k)"

definition pit_divider :: u32 where
  "pit_divider = (let d = PIT_FREQ div 20 in if d AND 0xffff \<noteq> d then 0xffff else d)"

text \<open>\<open>now k\<close> is the timer's current count after \<open>k\<close> values were read from the port.\<close>

definition calibrate :: "u32 \<Rightarrow> u32 \<Rightarrow> (nat \<Rightarrow> u8) \<Rightarrow> (nat \<Rightarrow> u32) \<Rightarrow> u32 \<Rightarrow> machine \<Rightarrow> machine result option" where
  "calibrate kernelCS apit_entry wave now hz m =
     (let m = set_reg (apit_lvt_timer (regs m)) 0x00010000 m;
          m = set_reg (apit_divide (regs m)) 0x0000000B m;
          d = pit_divider;
          initial = 0xffffffff;
          m = set_reg (apit_initial_count (regs m)) initial m;
          m = outb 0x61 1 m;
          m = outb 0x43 0xB6 m;
          m = outb 0x42 (ucast d) m;
          m = outb 0x42 (ucast (drop_bit 8 d)) m
      in case calibrate_loop wave 1 (ucast (wave 0) AND 0x20) 0 of
           None \<Rightarrow> None
         | Some k \<Rightarrow>
             let diff = initial - now k;
                 m = outb 0x61 0 m
             in if hz = 0 then Some (Inl (Undefined_Behaviour ''division by zero''))
                else Some (Inr (IDT_interrupt kernelCS (uint APIT_vector) apit_entry
                       (m\<lparr>apitCounter := diff div hz, jiffiesPerSecond := hz\<rparr>))))"

definition Pit_init :: "machine \<Rightarrow> machine result" where
  "Pit_init m =
     (if apitCounter m = 0 then Inl (Panic ''apiCounter == 0, did you call Pit::calibrate?'')
      else
        let m = set_reg (apit_divide (regs m)) 0x0000000B m;
            m = set_reg (apit_lvt_timer (regs m)) (push_bit 17 1 OR push_bit 16 0 OR APIT_vector) m
        in Inr (set_reg (apit_initial_count (regs m)) (apitCounter m) m))"

text \<open>The part of \<^verbatim>\<open>kernelInit\<close> that sets up interrupts; \<^verbatim>\<open>IDT::init\<close> is empty.\<close>

definition boot_devices ::
  "config \<Rightarrow> u32 \<Rightarrow> u32 \<Rightarrow> u32 \<Rightarrow> u32 \<Rightarrow> u64 \<Rightarrow> (nat \<Rightarrow> u8) \<Rightarrow> (nat \<Rightarrow> u32) \<Rightarrow> machine \<Rightarrow> machine result option" where
  "boot_devices kConfig kernelCS sys_entry spurious_entry apit_entry msr wave now m =
     (let m = SYS_init kernelCS sys_entry m;
          m = SMP_init kConfig kernelCS spurious_entry msr True m
      in calibrate kernelCS apit_entry wave now 1000 m)"

definition secondsToJiffies :: "machine \<Rightarrow> u32 \<Rightarrow> u32" where
  "secondsToJiffies m secs = jiffiesPerSecond m * secs"

definition seconds :: "machine \<Rightarrow> u32 \<Rightarrow> u32 result" where
  "seconds m jiffies =
     (if jiffiesPerSecond m = 0 then Inl (Undefined_Behaviour ''division by zero'') else Inr (jiffies div jiffiesPerSecond m))"

subsection \<open>How the processor reads a descriptor\<close>

definition gate_offset :: "machine \<Rightarrow> int \<Rightarrow> u32" where
  "gate_offset m v = (idt m (2 * v) AND 0xffff) OR (idt m (2 * v + 1) AND 0xffff0000)"

definition gate_selector :: "machine \<Rightarrow> int \<Rightarrow> u32" where
  "gate_selector m v = drop_bit 16 (idt m (2 * v))"

definition gate_type :: "machine \<Rightarrow> int \<Rightarrow> u32" where
  "gate_type m v = drop_bit 8 (idt m (2 * v + 1)) AND 0x1f"

definition gate_dpl :: "machine \<Rightarrow> int \<Rightarrow> u32" where
  "gate_dpl m v = drop_bit 13 (idt m (2 * v + 1)) AND 3"

definition gate_present :: "machine \<Rightarrow> int \<Rightarrow> bool" where
  "gate_present m v \<longleftrightarrow> bit (idt m (2 * v + 1)) 15"

lemmas gate_defs = gate_offset_def gate_selector_def gate_type_def gate_dpl_def gate_present_def

text \<open>An interrupt gate has type 14, a trap gate 15; \<open>dpl\<close> is the least privileged level that may raise it.\<close>

definition gate :: "machine \<Rightarrow> int \<Rightarrow> u32 \<Rightarrow> u32 \<Rightarrow> u32 \<Rightarrow> u32 \<Rightarrow> bool" where
  "gate m v handler selector ty dpl \<longleftrightarrow>
     gate_offset m v = handler \<and> gate_selector m v = take_bit 16 selector \<and> gate_type m v = ty \<and>
     gate_dpl m v = dpl \<and> gate_present m v"

lemma low_half_add: "push_bit 16 (cs :: u32) + (h AND 0xffff) = push_bit 16 cs OR (h AND 0xffff)"
proof (rule disjunctive_add)
  fix n
  have m: "(0xffff :: u32) = mask 16" by (simp add: mask_eq_exp_minus_1)
  show "\<not> bit (push_bit 16 cs) n \<or> \<not> bit (h AND 0xffff) n"
    unfolding m by (auto simp: bit_push_bit_iff bit_and_iff bit_mask_iff)
qed

lemma gate_low:
  "(push_bit 16 (cs :: u32) + (h AND 0xffff)) AND 0xffff = h AND 0xffff"
  "drop_bit 16 (push_bit 16 (cs :: u32) + (h AND 0xffff)) = take_bit 16 cs"
proof -
  have m: "(0xffff :: u32) = mask 16" by (simp add: mask_eq_exp_minus_1)
  show "(push_bit 16 cs + (h AND 0xffff)) AND 0xffff = h AND 0xffff"
    unfolding low_half_add unfolding m by (rule bit_word_eqI) (auto simp: bit_simps)
  show "drop_bit 16 (push_bit 16 cs + (h AND 0xffff)) = take_bit 16 cs"
    unfolding low_half_add unfolding m by (rule bit_word_eqI) (auto simp: bit_simps)
qed

lemma halves: "(x AND 0xffff) OR (x AND 0xffff0000) = (x :: u32)"
proof -
  have "(0xffff OR 0xffff0000 :: u32) = - 1" by simp
  then show ?thesis by (metis bit.conj_disj_distrib bit.conj_one_right)
qed

lemma IDT_interrupt_gate: "gate (IDT_interrupt cs v h m) v h cs 14 0"
  by (simp add: gate_def gate_defs IDT_interrupt_def gate_low halves bit.conj_disj_distrib2 and.assoc bit_or_iff bit_and_iff Let_def)

lemma IDT_trap_gate:
  assumes "dpl < 4"
  shows "gate (IDT_trap cs v h dpl m) v h cs 15 dpl"
proof -
  have "unat dpl < 4" using assms by (simp add: word_less_nat_alt)
  then have "unat dpl = 0 \<or> unat dpl = 1 \<or> unat dpl = 2 \<or> unat dpl = 3" by linarith
  then have "dpl = 0 \<or> dpl = 1 \<or> dpl = 2 \<or> dpl = 3" by (auto simp: word_unat_eq_iff)
  then show ?thesis
    by (elim disjE) (simp_all add: gate_def gate_defs IDT_trap_def gate_low halves bit.conj_disj_distrib2 and.assoc bit_or_iff bit_and_iff or.assoc Let_def)
qed

lemma gate_other:
  assumes "w \<noteq> v"
  shows "gate (IDT_interrupt cs v h m) w = gate m w" "gate (IDT_trap cs v h dpl m) w = gate m w"
proof -
  have "2 * w \<noteq> 2 * v + 1" "2 * w + 1 \<noteq> 2 * v" by presburger+
  then show "gate (IDT_interrupt cs v h m) w = gate m w" "gate (IDT_trap cs v h dpl m) w = gate m w"
    using assms by (auto simp: gate_def gate_defs IDT_interrupt_def IDT_trap_def fun_eq_iff Let_def)
qed

subsection \<open>Calibration ends\<close>

definition line :: "(nat \<Rightarrow> u8) \<Rightarrow> nat \<Rightarrow> u32" where
  "line wave k = ucast (wave k) AND 0x20"

text \<open>How often the output of the timer chip changed between the first and the \<open>n\<close>-th later value read.\<close>

primrec edges :: "(nat \<Rightarrow> u8) \<Rightarrow> nat \<Rightarrow> nat" where
  "edges wave 0 = 0"
| "edges wave (Suc n) = edges wave n + (if line wave (Suc n) \<noteq> line wave n then 1 else 0)"

lemma edges_mono: "m \<le> n \<Longrightarrow> edges wave m \<le> edges wave n"
  by (induction n) (auto simp: le_Suc_eq)

lemma calibrate_loop_counts:
  assumes "40 \<le> edges wave (k + d)" "unat changes = edges wave k" "edges wave k \<le> 40"
  shows "\<exists>n \<ge> k. calibrate_loop wave (Suc k) (line wave k) changes = Some (Suc n) \<and> edges wave n = 40"
  using assms
proof (induction d arbitrary: k changes)
  case 0
  then have "\<not> changes < 40" "edges wave k = 40" by (simp_all add: word_less_nat_alt)
  then show ?case by (subst calibrate_loop.simps) auto
next
  case (Suc d)
  show ?case
  proof (cases "changes < 40")
    case False
    then show ?thesis using Suc.prems(2,3) by (subst calibrate_loop.simps) (auto simp: word_less_nat_alt)
  next
    case True
    then have lt: "edges wave k < 40" using Suc.prems(2) by (simp add: word_less_nat_alt)
    define c where "c = (if line wave (Suc k) \<noteq> line wave k then changes + 1 else changes)"
    have step: "calibrate_loop wave (Suc k) (line wave k) changes = calibrate_loop wave (Suc (Suc k)) (line wave (Suc k)) c"
      using True by (subst calibrate_loop.simps) (auto simp: c_def line_def [symmetric] Let_def)
    have "unat (changes + 1) = edges wave k + 1"
      using Suc.prems(2) lt by (simp add: unat_add_no_wrap)
    then have "unat c = edges wave (Suc k)" using Suc.prems(2) by (simp add: c_def)
    then obtain n where "Suc k \<le> n" "calibrate_loop wave (Suc (Suc k)) (line wave (Suc k)) c = Some (Suc n)" "edges wave n = 40"
      using Suc.IH [of "Suc k" c] Suc.prems(1) lt by (auto split: if_splits)
    then show ?thesis unfolding step by (intro exI [of _ n]) auto
  qed
qed

lemma calibrate_other:
  assumes "calibrate cs h wave now hz m = Some (Inr m')" "v \<noteq> 40"
  shows "gate m' v = gate m v"
proof -
  obtain m0 where "m' = IDT_interrupt cs 40 h m0" "idt m0 = idt m"
    using assms(1) by (auto simp: calibrate_def Let_def set_reg_def outb_def APIT_vector_def split: option.splits if_splits)
  then show ?thesis using gate_other(1) [OF assms(2), of cs h m0] by (simp add: fun_eq_iff gate_def gate_defs)
qed

lemma pit_divider_eq: "pit_divider = 59659"
  by (simp add: pit_divider_def PIT_FREQ_def)

text \<open>Calibration and \<^verbatim>\<open>Pit::init\<close> together. A wanted frequency of zero is a division by zero.\<close>

lemma timer_setup:
  assumes wave: "40 \<le> edges wave N"
  shows "\<exists>n. edges wave n = 40 \<and>
    (let r = calibrate cs h wave now hz m; count = (0xffffffff - now (Suc n)) div hz in
     if hz = 0 then r = Some (Inl (Undefined_Behaviour ''division by zero''))
     else \<exists>m'. r = Some (Inr m') \<and> gate m' 40 h cs 14 0 \<and> apitCounter m' = count \<and> regs m' = regs m \<and>
       (\<exists>before after. io_log m' = before @ [Outb 0x42 (of_nat (59659 mod 256)), Outb 0x42 (of_nat (59659 div 256))] @ after) \<and>
       (if count = 0 then Pit_init m' = Inl (Panic ''apiCounter == 0, did you call Pit::calibrate?'')
        else Pit_init m' = Inr (m'\<lparr>io_log := io_log m' @ [Store (apit_divide (regs m)) 0xB,
          Store (apit_lvt_timer (regs m)) (push_bit 17 1 OR 40), Store (apit_initial_count (regs m)) count]\<rparr>)))"
proof -
  obtain n where n: "calibrate_loop wave (Suc 0) (line wave 0) 0 = Some (Suc n)" "edges wave n = 40"
    using calibrate_loop_counts [of wave 0 N 0] wave by auto
  have v: "uint APIT_vector = 40" and w: "(59659 :: u8) = 11" by (simp_all add: APIT_vector_def)
  show ?thesis
  proof (cases "hz = 0")
    case True
    then show ?thesis using n by (intro exI [of _ n]) (simp add: calibrate_def line_def Let_def)
  next
    case False
    define m0 where "m0 = m\<lparr>io_log := io_log m @ [Store (apit_lvt_timer (regs m)) 0x10000, Store (apit_divide (regs m)) 0xB,
        Store (apit_initial_count (regs m)) 0xffffffff, Outb 0x61 1, Outb 0x43 0xB6, Outb 0x42 11, Outb 0x42 233, Outb 0x61 0],
      apitCounter := (0xffffffff - now (Suc n)) div hz, jiffiesPerSecond := hz\<rparr>"
    define m' where "m' = IDT_interrupt cs 40 h m0"
    have r: "calibrate cs h wave now hz m = Some (Inr m')"
      using n False by (simp add: calibrate_def line_def Let_def set_reg_def outb_def pit_divider_eq v w m'_def m0_def)
    have f: "io_log m' = io_log m0" "regs m' = regs m" "apitCounter m' = (0xffffffff - now (Suc n)) div hz"
      by (simp_all add: m'_def m0_def IDT_interrupt_def Let_def)
    have log: "io_log m' = (io_log m @ [Store (apit_lvt_timer (regs m)) 0x10000, Store (apit_divide (regs m)) 0xB,
        Store (apit_initial_count (regs m)) 0xffffffff, Outb 0x61 1, Outb 0x43 0xB6]) @
        [Outb 0x42 (of_nat (59659 mod 256)), Outb 0x42 (of_nat (59659 div 256))] @ [Outb 0x61 0]"
      by (simp add: f(1) m0_def)
    have g: "gate m' 40 h cs 14 0" unfolding m'_def by (rule IDT_interrupt_gate)
    have div: "\<exists>before after. io_log m' =
        before @ [Outb 0x42 (of_nat (59659 mod 256)), Outb 0x42 (of_nat (59659 div 256))] @ after"
      using log by blast
    have init: "if (0xffffffff - now (Suc n)) div hz = 0 then Pit_init m' = Inl (Panic ''apiCounter == 0, did you call Pit::calibrate?'')
        else Pit_init m' = Inr (m'\<lparr>io_log := io_log m' @ [Store (apit_divide (regs m)) 0xB,
          Store (apit_lvt_timer (regs m)) (push_bit 17 1 OR 40),
          Store (apit_initial_count (regs m)) ((0xffffffff - now (Suc n)) div hz)]\<rparr>)"
      by (simp add: Pit_init_def Let_def set_reg_def APIT_vector_def f(2,3))
    show ?thesis
      unfolding Let_def if_not_P [OF False] by (intro exI [of _ n] exI [of _ m'] conjI n(2) r g f(2,3) div init)
  qed
qed

definition square_wave :: "nat \<Rightarrow> u8" where
  "square_wave k = (if even k then 0 else 0x20)"

lemma square_wave_edges: "edges square_wave n = n"
  by (induction n) (simp_all add: line_def square_wave_def)

definition small_config :: config where
  "small_config = \<lparr>memSize = 0x1000000, nOtherProcs = 0, totalProcs = 1, localAPIC = 0xfee00000, madtFlags = 0,
     ioAPIC = 0xfec00000, apicInfo = [], oemid = []\<rparr>"

definition machine_off :: machine where
  "machine_off = \<lparr>idt = (\<lambda>_. 0), regs = smp_registers small_config, io_log = [], apitCounter = 0, jiffiesPerSecond = 0\<rparr>"

text \<open>
  \<^bold>\<open>C7.\<close> Setting up interrupts (\<^verbatim>\<open>kernelInit\<close> in init.cc, with \<^verbatim>\<open>SYS::init\<close>, \<^verbatim>\<open>SMP::init\<close>, \<^verbatim>\<open>Pit::calibrate\<close>, \<^verbatim>\<open>Pit::init\<close> and idt.cc). If the
  output of the timer chip changes forty times, which takes a second, set-up ends after exactly forty changes. Read the way the
  processor reads descriptors, vector 48 is then a present trap gate to the system call entry that user
  mode may raise, vectors 255 and 40 are present interrupt gates to the spurious and the timer entry that
  it may not raise; the chip was programmed with its frequency divided by twenty, and the reload value is the number of timer cycles in
  that time divided by 1000. If that value is not zero, \<^verbatim>\<open>Pit::init\<close> on each processor programs the
  timer for periodic interrupts on vector 40 with that reload value, and otherwise it panics.
\<close>

theorem boot_devices_correct:
  assumes wave: "40 \<le> edges wave N"
  shows "\<exists>n m'. edges wave n = 40 \<and> boot_devices cfg cs sys_entry spurious_entry apit_entry msr wave now m = Some (Inr m') \<and>
    gate m' 48 sys_entry cs 15 3 \<and> gate m' 255 spurious_entry cs 14 0 \<and> gate m' 40 apit_entry cs 14 0 \<and>
    regs m' = smp_registers cfg \<and>
    (\<exists>before after. io_log m' = before @ [Outb 0x42 (of_nat (59659 mod 256)), Outb 0x42 (of_nat (59659 div 256))] @ after) \<and>
    (let count = (0xffffffff - now (Suc n)) div 1000 in
     if count = 0 then Pit_init m' = Inl (Panic ''apiCounter == 0, did you call Pit::calibrate?'')
     else Pit_init m' = Inr (m'\<lparr>io_log := io_log m' @ [Store (localAPIC cfg + 0x3e0) 0xB,
       Store (localAPIC cfg + 0x320) (push_bit 17 1 OR 40), Store (localAPIC cfg + 0x380) count]\<rparr>))"
proof -
  let ?m1 = "SYS_init cs sys_entry m" and ?m2 = "SMP_init cfg cs spurious_entry msr True (SYS_init cs sys_entry m)"
  have g1: "gate ?m1 48 sys_entry cs 15 3" unfolding SYS_init_def by (rule IDT_trap_gate) simp
  have same: "gate ?m2 = gate (IDT_interrupt cs 255 spurious_entry ?m1)"
    by (simp add: fun_eq_iff gate_def gate_defs SMP_init_def IDT_interrupt_def Let_def outb_def set_reg_def wrmsr_def)
  have g2: "gate ?m2 48 sys_entry cs 15 3" "gate ?m2 255 spurious_entry cs 14 0"
    unfolding same using g1 by (simp_all add: gate_other IDT_interrupt_gate)
  have r2: "regs ?m2 = smp_registers cfg"
    by (simp add: SMP_init_def IDT_interrupt_def Let_def outb_def set_reg_def wrmsr_def)
  obtain n m' where c: "edges wave n = 40" "calibrate cs apit_entry wave now 1000 ?m2 = Some (Inr m')" "gate m' 40 apit_entry cs 14 0"
    "regs m' = smp_registers cfg"
    "\<exists>before after. io_log m' = before @ [Outb 0x42 (of_nat (59659 mod 256)), Outb 0x42 (of_nat (59659 div 256))] @ after"
    "if (0xffffffff - now (Suc n)) div 1000 = 0 then Pit_init m' = Inl (Panic ''apiCounter == 0, did you call Pit::calibrate?'')
     else Pit_init m' = Inr (m'\<lparr>io_log := io_log m' @ [Store (apit_divide (smp_registers cfg)) 0xB,
       Store (apit_lvt_timer (smp_registers cfg)) (push_bit 17 1 OR 40),
       Store (apit_initial_count (smp_registers cfg)) ((0xffffffff - now (Suc n)) div 1000)]\<rparr>)"
    using timer_setup [OF wave, of cs apit_entry now 1000 ?m2] unfolding r2 Let_def by auto
  have k: "gate m' v = gate ?m2 v" if "v \<noteq> 40" for v by (rule calibrate_other [OF c(2) that])
  have b: "boot_devices cfg cs sys_entry spurious_entry apit_entry msr wave now m = Some (Inr m')"
    using c(2) by (simp add: boot_devices_def)
  show ?thesis
    unfolding Let_def
    by (intro exI [of _ n] exI [of _ m'] conjI c(1,3,4,5) b) (use g2 k c(6) in \<open>simp_all add: smp_registers_def\<close>)
qed

theorem boot_devices_correct_witness:
  "\<exists>m. boot_devices small_config 8 0x1234 0x5678 0x9abc 0 square_wave (\<lambda>_. 0xf0000000) machine_off = Some (Inr m) \<and>
     gate m 48 0x1234 8 15 3 \<and> gate m 255 0x5678 8 14 0 \<and> gate m 40 0x9abc 8 14 0"
  using boot_devices_correct [of square_wave 40 small_config 8 "0x1234" "0x5678" "0x9abc" 0 "\<lambda>_. 0xf0000000" machine_off]
  by (auto simp: square_wave_edges)

end
