(* ===== verification/Boot.thy ===== *)
theory Boot
  imports Address_Space Heap_Interface Config_Tables Devices
begin

text \<open>
  \<^verbatim>\<open>kernelInit\<close> of \<^verbatim>\<open>init.cc\<close>: the layout of physical memory that the first processor sets up from the configuration, and
  the order in which the processors start. The sizes of heap objects, which the compiler
  determines, are arguments.
\<close>

subsection \<open>Memory (kernelInit)\<close>

definition HEAP_START :: u32 where
  "HEAP_START = 1 * 1024 * 1024"

definition HEAP_SIZE :: u32 where
  "HEAP_SIZE = 5 * 1024 * 1024"

definition VMM_FRAMES :: u32 where
  "VMM_FRAMES = HEAP_START + HEAP_SIZE"

text \<open>
  \<^verbatim>\<open>PhysMem::init\<close> (physmem.cc) with the registration of the page fault handler; \<open>pf_entry\<close> is the address of
  \<^verbatim>\<open>pageFaultHandler_\<close>.
\<close>

definition physmem_init :: "u32 \<Rightarrow> u32 \<Rightarrow> u32 \<Rightarrow> u32 \<Rightarrow> physmem \<Rightarrow> machine \<Rightarrow> (physmem \<times> machine) result" where
  "physmem_init kernelCS pf_entry start sz s m =
     rbind (physmem_range s start sz) (\<lambda>s. Inr (s, IDT_trap kernelCS 14 pf_entry 3 m))"

text \<open>The heap, the second UART object, the frames with the page fault handler, and the kernel's page directory.\<close>

definition boot_memory ::
  "nat \<Rightarrow> u32 \<Rightarrow> u32 \<Rightarrow> u32 \<Rightarrow> u32 \<Rightarrow> config \<Rightarrow> heap \<Rightarrow> physmem \<Rightarrow> machine \<Rightarrow> (heap \<times> physmem \<times> u32 \<times> machine) result option" where
  "boot_memory fuel lock_size uart_size kernelCS pf_entry kConfig h s m =
     obind (heapInit h HEAP_START HEAP_SIZE lock_size) (\<lambda>(h, theLock).
     obind (operator_new h uart_size) (\<lambda>(h, sink).
     obind (Some (physmem_init kernelCS pf_entry VMM_FRAMES (memSize kConfig - VMM_FRAMES) s m)) (\<lambda>(s, m).
     obind (global_init fuel kConfig s) (\<lambda>(s, shared). Some (Inr (h, s, shared, m))))))"

subsection \<open>A table per four megabytes is enough\<close>

lemma map_with_pt_index:
  assumes inv: "pd_inv lo hi s pd F" and ok: "map_with bits s pd va pa = Inr s'" and i: "pt_index (mem s') pd i"
  shows "pt_index (mem s) pd i \<or> i = pdi va"
proof (cases "present (pde_of (mem s) pd (pdi va))")
  case True
  have wf: "pd_wf (mem s) pd" using inv by (simp add: pd_inv_def)
  have idx: "pt_index (mem s) pd (pdi va)" using True unat_pdi by (simp add: pt_index_def)
  note w = set_pte_walk(5) [OF wf idx, where e = "pa OR bits"]
  have "pd \<notin> {pt_of (mem s) pd (pdi va)}" "aligned pd" using wf idx by (auto simp: pd_wf_def)
  then have "pde_of (mem s') pd i = pde_of (mem s) pd i"
    using pd_entries_frame(1) [OF w] i ok True by (auto simp: map_with_def Let_def pt_of_def pt_index_def)
  then show ?thesis using i by (simp add: pt_index_def)
next
  case False
  have wf: "pd_wf (mem s) pd" and al: "aligned pd" using inv by (auto simp: pd_inv_def pd_wf_def)
  have pm: "pm_inv lo hi s F" and disj: "pd_frames (mem s) pd \<inter> F = {}" using inv by (simp_all add: pd_inv_def)
  show ?thesis
  proof (cases rule: pm.alloc_cases [OF pm])
    case 1
    then show ?thesis using ok False by (simp add: map_with_def)
  next
    case (2 s1 f)
    have f: "pd \<notin> {f}" using disj 2(2) pd_frames_self by blast
    let ?m1 = "set32 (mem s1) pd (pdi va) (f OR 7)"
    have m': "mem s' = set32 ?m1 f (pti va) (pa OR bits)"
      using ok False 2(1,4) by (auto simp: map_with_def Let_def frame_mask_or)
    have lt: "unat i < 1024" using i by (simp add: pt_index_def)
    have "pde_of (mem s') pd i = pde_of ?m1 pd i"
      unfolding m' using f al 2(4) lt unat_pti by (intro get_set_other_frame) auto
    moreover have "pde_of ?m1 pd i = pde_of (mem s1) pd i" if "i \<noteq> pdi va"
      using that al lt unat_pdi by (intro get_set_same_frame) auto
    moreover have "pde_of (mem s1) pd i = pde_of (mem s) pd i" using pd_entries_frame(1) [OF 2(7) al f lt] .
    ultimately show ?thesis using i by (auto simp: pt_index_def)
  qed
qed

lemma pd_frames_card:
  assumes "\<And>i. pt_index m pd i \<Longrightarrow> unat i < n"
  shows "finite (pd_frames m pd)" "card (pd_frames m pd) \<le> n + 1"
proof -
  have "{i :: u32. unat i < n} \<subseteq> of_nat ` {..<n}" by (auto intro!: image_eqI [where f = of_nat])
  then have c: "finite {i :: u32. unat i < n}" "card {i :: u32. unat i < n} \<le> n"
    using surj_card_le [of "{..<n}" "{i :: u32. unat i < n}" of_nat] by (auto intro: finite_subset)
  have sub: "pd_frames m pd \<subseteq> insert pd (pt_of m pd ` {i. unat i < n})" using assms by (auto simp: pd_frames_def)
  show "finite (pd_frames m pd)" using sub c(1) by (auto intro: finite_subset)
  have "card (pd_frames m pd) \<le> card (insert pd (pt_of m pd ` {i. unat i < n}))" using sub c(1) by (intro card_mono) auto
  also have "\<dots> \<le> card (pt_of m pd ` {i. unat i < n}) + 1" by (simp add: card_insert_le_m1 c(1) card_insert_if)
  also have "\<dots> \<le> n + 1" using card_image_le [OF c(1), of "pt_of m pd"] c(2) by linarith
  finally show "card (pd_frames m pd) \<le> n + 1" .
qed

lemma global_init_loop_frames:
  assumes "pd_inv lo hi s shared F" "aligned va" "memSize cfg \<le> 0xFFFFF000"
    "\<And>i. pt_index (mem s) shared i \<Longrightarrow> unat i < n" "\<And>x. x < memSize cfg \<Longrightarrow> unat (pdi x) < n"
    "global_init_loop fuel cfg shared va s = Some (Inl e)"
  shows "finite F \<and> card (F \<union> pd_frames (mem s) shared) \<le> n + 1"
  using assms(1,2,4,6)
proof (induction fuel arbitrary: va s F)
  case 0
  then show ?case by simp
next
  case (Suc fuel)
  from Suc.prems(4) have lt: "va < memSize cfg" by (simp split: if_splits)
  have pre: "pm_inv lo hi s F" "pd_wf (mem s) shared" "pd_frames (mem s) shared \<inter> F = {}"
    using Suc.prems(1) by (simp_all add: pd_inv_def)
  show ?case
  proof (cases "map_page s shared va va")
    case (Inl e')
    then have "F = {}" using map_with_error [OF pre(1)] by (simp add: map_page_def)
    then show ?thesis using pd_frames_card [OF Suc.prems(3)] by simp
  next
    case (Inr s1)
    then have m: "map_with 3 s shared va va = Inr s1" by (simp add: map_page_def)
    obtain F1 where F1: "F1 \<subseteq> F" "pm_inv lo hi s1 F1" "pd_wf (mem s1) shared"
      "pd_frames (mem s1) shared = pd_frames (mem s) shared \<union> (F - F1)"
      by (rule map_with_spec [OF pre m entry_bits(2)]) blast
    have inv1: "pd_inv lo hi s1 shared F1" using F1 pre(3) by (auto simp: pd_inv_def)
    have idx: "unat i < n" if "pt_index (mem s1) shared i" for i
      using map_with_pt_index [OF Suc.prems(1) m that] Suc.prems(3) assms(5) [OF lt] by auto
    have rest: "global_init_loop fuel cfg shared (va + FRAME_SIZE) s1 = Some (Inl e)"
      using Suc.prems(4) lt Inr by simp
    have "finite F1 \<and> card (F1 \<union> pd_frames (mem s1) shared) \<le> n + 1"
      using Suc.IH [OF inv1 next_page(1) [OF Suc.prems(2) lt assms(3)] idx rest] .
    moreover have "F1 \<union> pd_frames (mem s1) shared = F \<union> pd_frames (mem s) shared" using F1(1,4) by auto
    moreover have "finite F" by simp
    ultimately show ?thesis by simp
  qed
qed

lemma global_init_succeeds:
  assumes inv: "pm_inv lo hi s F" and ms: "memSize cfg \<le> 0xFFFFF000" and fuel: "1048576 \<le> fuel"
    and enough: "(unat (memSize cfg) + 4194303) div 4194304 + 1 < card F"
  shows "\<exists>s' shared F'. global_init fuel cfg s = Some (Inr (s', shared)) \<and> pd_inv lo hi s' shared F' \<and>
      (\<forall>x. walk (mem s') shared x =
        (if FRAME_SIZE \<le> framedown x \<and> framedown x < memSize cfg then Some (framedown x OR 3) else None))"
proof -
  let ?n = "(unat (memSize cfg) + 4194303) div 4194304"
  have False if e: "global_init fuel cfg s = Some (Inl e)" for e
  proof (cases "alloc_frame s")
    case (Inl e')
    then show False using pm.alloc_cases [OF inv] enough by force
  next
    case (Inr sp)
    obtain s1 shared where sp: "sp = (s1, shared)" by (cases sp)
    note a = alloc_directory [OF inv Inr [unfolded sp]]
    have idx: "unat i < ?n" if "pt_index (mem s1) shared i" for i
      using empty_directory(1) [OF a(6,4)] zero_frame_get32 [OF a(6,4)] that by (auto simp: pt_index_def)
    have pdi: "unat (pdi x) < ?n" if "x < memSize cfg" for x
    proof -
      have "unat x < unat (memSize cfg)" using that by (simp add: word_less_nat_alt)
      moreover have "unat (pdi x) = unat x div 4194304" by (simp add: pdi_def drop_bit_eq_div unat_div_distrib)
      ultimately show ?thesis by linarith
    qed
    have al: "aligned FRAME_SIZE" by (simp add: FRAME_SIZE_eq offset_def)
    have "global_init_loop fuel cfg shared FRAME_SIZE s1 = Some (Inl e)"
      using e Inr sp by (auto simp: global_init_def rbind_eq_Inl)
    from global_init_loop_frames [OF a(1) al ms idx pdi this]
    have "finite F" "card (F - {shared} \<union> pd_frames (mem s1) shared) \<le> ?n + 1" by simp_all
    moreover have "F \<subseteq> F - {shared} \<union> pd_frames (mem s1) shared" by (auto simp: pd_frames_self)
    ultimately have "card F \<le> ?n + 1" using card_mono le_trans by (meson finite)
    then show False using enough by simp
  qed
  then show ?thesis using global_init_spec [OF inv ms fuel] by blast
qed

subsection \<open>The heap after its first two objects\<close>

lemma request_ints_small:
  assumes "uint b \<le> 4096"
  shows "request_ints b \<le> 1026"
proof -
  have "uint (b + 3) = uint b + 3" using assms by (simp add: uint_plus_if_size word_size)
  then have d: "uint ((b + 3) div 4) = (uint b + 3) div 4" by (simp add: uint_div_distrib)
  have "uint ((b + 3) div 4 + 2) = (uint b + 3) div 4 + 2"
    using d assms by (simp add: uint_plus_if_size word_size)
  moreover have "(uint b + 3) div 4 \<le> 1024" using assms by linarith
  ultimately show ?thesis by (simp add: request_ints_def Let_def)
qed

lemma operator_new_fits:
  assumes inv: "heap_inv h mid fs" and b: "b \<noteq> 0" "\<exists>(n, t) \<in> set mid. \<not> t \<and> request_ints b \<le> n"
  obtains xs n ys h' fs' p k where "mid = xs @ (n, False) # ys" "request_ints b \<le> n"
    "operator_new h b = Some (Inr (h', p))" "heap_inv h' (xs @ split_block (request_ints b) n @ ys) fs'"
    "hbase h' = hbase h" "hlen h' = hlen h" "p \<notin> fst ` heap_blocks h mid" "request_ints b - 2 \<le> k"
    "heap_blocks h' (xs @ split_block (request_ints b) n @ ys) = insert (p, k) (heap_blocks h mid)"
proof -
  note t = that
  obtain xs n ys h' fs' where m: "mid = xs @ (n, False) # ys" "request_ints b \<le> n"
    "malloc h b = Some (Inr (h', cell_ptr h' (2 + bsum xs + 1)))"
    "heap_inv h' (xs @ split_block (request_ints b) n @ ys) fs'"
    "agree (payload 0 ((2, True) # mid)) h h'" "hbase h' = hbase h" "hlen h' = hlen h"
    using malloc_block [OF inv b] by blast
  let ?p = "cell_ptr h' (2 + bsum xs + 1)" and ?k = "(if 4 \<le> n - request_ints b then request_ints b else n) - 2"
  have l: "?p \<noteq> 0" "?p \<notin> fst ` heap_blocks h mid"
    using take_live [OF inv [unfolded m(1)] m(2,4) m(5) [unfolded m(1)] m(6)] m(1) by simp_all
  have "heap_blocks h' (xs @ split_block (request_ints b) n @ ys) = insert (?p, ?k) (heap_blocks h mid)"
    using m(1,6) by (auto simp: heap_blocks_def taken_blocks_append taken_blocks_split_block cell_ptr_def)
  moreover have "request_ints b - 2 \<le> ?k" using m(2) by simp
  moreover have "operator_new h b = Some (Inr (h', ?p))" using m(3) l(1) by (simp add: operator_new_def)
  ultimately show thesis using t [OF m(1,2) _ m(4,6,7) l(2)] by blast
qed

lemma heap_blocks_inside:
  assumes inv: "heap_inv h mid fs" and b: "(p, n) \<in> heap_blocks h mid"
  shows "uint (hbase h) \<le> uint p \<and> uint p + 4 * n \<le> uint (hbase h) + 4 * hlen h"
proof -
  obtain i m where im: "(i, m) \<in> taken_blocks 2 mid" "p = cell_ptr h (i + 1)" "n = m - 2"
    using b by (auto simp: heap_blocks_def)
  obtain xs ys where mid: "mid = xs @ (m, True) # ys" "i = 2 + bsum xs" using taken_blocks_split [OF im(1)] by blast
  note h = heap_inv_block [OF inv [unfolded mid(1)]]
  have "uint (hbase h) + 4 * hlen h < 2 ^ 32" using inv by (simp add: heap_inv_def Let_def)
  then have "uint p = uint (hbase h) + 4 * (i + 1)"
    unfolding im(2) using h(1-3) mid(2) by (intro cell_ptr_uint) auto
  then show ?thesis using h(1-3) mid(2) im(3) by simp
qed

lemma heap_live_inside:
  "heap_live h L \<Longrightarrow> (p, n) \<in> L \<Longrightarrow> uint (hbase h) \<le> uint p \<and> uint p + 4 * n \<le> uint (hbase h) + 4 * hlen h"
  using heap_blocks_inside by (auto simp: heap_live_def)

lemma frame_pool_card:
  assumes "aligned lo" "unat lo + 4096 * k \<le> unat hi"
  shows "k \<le> card (frame_pool lo hi)"
proof -
  let ?f = "\<lambda>i. lo + of_nat (4096 * i) :: u32"
  have u: "unat (?f i) = unat lo + 4096 * i" if "i < k" for i
  proof -
    have "unat (of_nat (4096 * i) :: u32) = 4096 * i"
      using that assms(2) unat_lt_2p32 [of hi] by (intro unat_of_nat_u32) linarith
    moreover have "unat lo + 4096 * i < 2 ^ LENGTH(32)" using that assms(2) unat_lt_2p32 [of hi] by simp
    ultimately show ?thesis using unat_add_no_wrap [of lo "of_nat (4096 * i)"] by metis
  qed
  then have "inj_on ?f {..<k}" by (intro inj_onI) (metis add_left_cancel lessThan_iff mult_cancel1 zero_neq_numeral)
  then have "card (?f ` {..<k}) = k" by (simp add: card_image)
  moreover have "?f ` {..<k} \<subseteq> frame_pool lo hi"
  proof
    fix x assume "x \<in> ?f ` {..<k}"
    then obtain i where i: "i < k" "x = ?f i" by auto
    then show "x \<in> frame_pool lo hi"
      using u [OF i(1)] assms by (simp add: frame_pool_def aligned_unat word_le_nat_alt word_less_nat_alt)
  qed
  ultimately show ?thesis by (metis card_mono finite)
qed

lemma heapInit_two_objects:
  assumes h: "havail h = 0" and sz: "a \<noteq> 0" "uint a \<le> 4096" "b \<noteq> 0" "uint b \<le> 4096"
  obtains h1 p h2 q m n where "heapInit h HEAP_START HEAP_SIZE a = Some (Inr (h1, p))" "operator_new h1 b = Some (Inr (h2, q))"
    "p \<noteq> q" "request_ints a - 2 \<le> m" "request_ints b - 2 \<le> n" "heap_live h2 {(p, m), (q, n)}"
    "hbase h2 = HEAP_START" "hlen h2 = 1310720"
proof -
  note t = that
  let ?h = "heap_layout h HEAP_START HEAP_SIZE"
  have len: "uint (HEAP_SIZE div 4) = 1310720" by (simp add: HEAP_SIZE_def)
  have inv: "heap_inv ?h [(1310716, False)] [2]"
    using heap_layout_inv [of h HEAP_SIZE HEAP_START] h len by (simp add: HEAP_START_def)
  have f: "hbase ?h = HEAP_START" "hlen ?h = 1310720"
    using heap_inv_len [OF inv] by (simp_all add: heap_layout_def makeTaken_def makeAvail_def put_def heap_writes Let_def)
  have e: "heap_blocks ?h [(1310716, False)] = {}" by (simp add: heap_blocks_def)
  have ra: "request_ints a \<le> 1026" "request_ints b \<le> 1026" using sz request_ints_small by auto
  have free0: "\<exists>(n, t) \<in> set [(1310716, False)]. \<not> t \<and> request_ints a \<le> n" using ra(1) by simp
  obtain xs n0 ys h1 fs1 p m where 1: "[(1310716, False)] = xs @ (n0, False) # ys"
    "operator_new ?h a = Some (Inr (h1, p))" "heap_inv h1 (xs @ split_block (request_ints a) n0 @ ys) fs1"
    "hbase h1 = hbase ?h" "hlen h1 = hlen ?h" "request_ints a - 2 \<le> m"
    "heap_blocks h1 (xs @ split_block (request_ints a) n0 @ ys) = insert (p, m) (heap_blocks ?h [(1310716, False)])"
    by (rule operator_new_fits [OF inv sz(1) free0]) blast
  have xs: "xs = []" "ys = []" "n0 = 1310716" using 1(1) by (auto simp: Cons_eq_append_conv)
  let ?mid = "split_block (request_ints a) 1310716"
  have free: "\<exists>(n, t) \<in> set ?mid. \<not> t \<and> request_ints b \<le> n" using ra by (simp add: split_block_def)
  have inv1: "heap_inv h1 ?mid fs1" using 1(3) xs by simp
  obtain xs n0 ys h2 fs2 q n where 2: "operator_new h1 b = Some (Inr (h2, q))"
    "heap_inv h2 (xs @ split_block (request_ints b) n0 @ ys) fs2" "hbase h2 = hbase h1" "hlen h2 = hlen h1"
    "q \<notin> fst ` heap_blocks h1 ?mid" "request_ints b - 2 \<le> n"
    "heap_blocks h2 (xs @ split_block (request_ints b) n0 @ ys) = insert (q, n) (heap_blocks h1 ?mid)"
    by (rule operator_new_fits [OF inv1 sz(3) free]) blast
  have bl: "heap_blocks h1 ?mid = {(p, m)}" using 1(7) xs e by simp
  have "p \<noteq> q" using 2(5) bl by auto
  moreover have "heap_live h2 {(p, m), (q, n)}" using 2(2,7) bl by (auto simp: heap_live_def)
  moreover have "heapInit h HEAP_START HEAP_SIZE a = Some (Inr (h1, p))" using 1(2) by (simp add: heapInit_def)
  ultimately show thesis using t 2(1,3,4,6) 1(4-6) f by auto
qed

text \<open>
  \<^bold>\<open>C12.\<close> The memory that \<^verbatim>\<open>kernelInit\<close> sets up (init.cc with heap.cc, physmem.cc and vmm.cc). On a machine whose memory
  ends on a page boundary between 7 megabytes and the last page of the address space, initialisation ends
  without a panic. Afterwards the heap is well formed with exactly its lock and the UART object handed out, all inside the
  five megabytes after the first one; the frames the allocator can ever hand out are the pages from there to the end of
  memory, so no frame overlaps the heap; the page directory is well formed, its tables are such frames that are not
  free, and it translates each page of memory except the first to itself and nothing else (page 0 stays unmapped), so the heap and all frames stay reachable at their physical
  addresses. Vector 14 is a trap gate to the page fault handler. Memory whose size is not a multiple of the page size stops the kernel with a failed assertion.
\<close>

theorem boot_memory_layout:
  assumes h: "havail h = 0" and s: "firstFree s = 0"
    and sz: "lock_size \<noteq> 0" "uint lock_size \<le> 4096" "uart_size \<noteq> 0" "uint uart_size \<le> 4096"
    and ms: "0x700000 \<le> memSize cfg" "memSize cfg \<le> 0xFFFFF000" and fuel: "1048576 \<le> fuel"
  shows "if offset (memSize cfg) \<noteq> 0
    then boot_memory fuel lock_size uart_size cs pf_entry cfg h s mc = Some (Inl (Assert_Failed ''offset(size) == 0''))
    else \<exists>h' s' shared mc' p m q n F. boot_memory fuel lock_size uart_size cs pf_entry cfg h s mc = Some (Inr (h', s', shared, mc')) \<and>
      gate mc' 14 pf_entry cs 15 3 \<and>
      heap_live h' {(p, m), (q, n)} \<and> p \<noteq> q \<and> uint lock_size \<le> 4 * m \<and> uint uart_size \<le> 4 * n \<and>
      (\<forall>(b, k) \<in> {(p, m), (q, n)}. uint HEAP_START \<le> uint b \<and> uint b + 4 * k \<le> uint VMM_FRAMES) \<and>
      pd_inv VMM_FRAMES (memSize cfg) s' shared F \<and> shared \<in> frame_pool VMM_FRAMES (memSize cfg) - F \<and>
      (\<forall>x. walk (mem s') shared x =
        (if FRAME_SIZE \<le> framedown x \<and> framedown x < memSize cfg then Some (framedown x OR 3) else None))"
proof -
  obtain h1 p h2 q m n where hp: "heapInit h HEAP_START HEAP_SIZE lock_size = Some (Inr (h1, p))"
    "operator_new h1 uart_size = Some (Inr (h2, q))" "p \<noteq> q" "request_ints lock_size - 2 \<le> m" "request_ints uart_size - 2 \<le> n"
    "heap_live h2 {(p, m), (q, n)}" "hbase h2 = HEAP_START" "hlen h2 = 1310720"
    by (rule heapInit_two_objects [OF h sz]) blast
  have vf: "VMM_FRAMES = 0x600000" by (simp add: VMM_FRAMES_def HEAP_START_def HEAP_SIZE_def)
  have uvf: "unat VMM_FRAMES = 6291456" "0 < VMM_FRAMES" by (simp_all add: vf)
  let ?M = "unat (memSize cfg)" and ?sz = "memSize cfg - VMM_FRAMES"
  have M: "7340032 \<le> ?M" "?M < 2 ^ 32" using ms(1) unat_lt_2p32 [of "memSize cfg"] by (simp_all add: word_le_nat_alt)
  have usz: "unat ?sz = ?M - 6291456" using M(1) unfolding vf by (simp add: unat_sub_if_size word_size)
  have off: "offset ?sz = 0 \<longleftrightarrow> offset (memSize cfg) = 0"
  proof -
    have "?M = unat ?sz + 1536 * 4096" using usz M(1) by linarith
    then show ?thesis unfolding aligned_unat by (simp only: mod_mult_self1)
  qed
  show ?thesis
  proof (cases "offset (memSize cfg) = 0")
    case False
    then show ?thesis using hp(1,2) off by (simp add: boot_memory_def physmem_init_def physmem_range_def vf offset_def)
  next
    case True
    let ?s = "s\<lparr>avail := VMM_FRAMES, limit := VMM_FRAMES + ?sz\<rparr>" and ?F = "frame_pool VMM_FRAMES (memSize cfg)"
    have vo: "offset VMM_FRAMES = 0" by (simp add: vf offset_def)
    have init: "physmem_range s VMM_FRAMES ?sz = Inr ?s" using True off vo by (simp add: physmem_range_def)
    let ?mc = "IDT_trap cs 14 pf_entry 3 mc"
    have pf: "gate ?mc 14 pf_entry cs 15 3" by (rule IDT_trap_gate) simp
    have inv: "pm_inv VMM_FRAMES (memSize cfg) ?s ?F"
      using physmem_range_inv [OF init s] M usz uvf by simp
    obtain a where a: "?M = 4096 * a" using True by (auto simp: aligned_unat dvd_def)
    have "a - 1536 \<le> card ?F" using frame_pool_card [OF vo, of "a - 1536" "memSize cfg"] M a uvf by simp
    moreover have "(?M + 4194303) div 4194304 + 1 < a - 1536" using M(1) unfolding a by linarith
    ultimately have "(?M + 4194303) div 4194304 + 1 < card ?F" by linarith
    from global_init_succeeds [OF inv ms(2) fuel this] obtain s' shared F where
      g: "global_init fuel cfg ?s = Some (Inr (s', shared))" "pd_inv VMM_FRAMES (memSize cfg) s' shared F"
        "\<forall>x. walk (mem s') shared x =
          (if FRAME_SIZE \<le> framedown x \<and> framedown x < memSize cfg then Some (framedown x OR 3) else None)" by blast
    have "shared \<in> ?F" using g(1) alloc_directory(3) [OF inv] by (auto simp: global_init_def split: sum.splits)
    moreover have "shared \<notin> F" using g(2) pd_frames_self unfolding pd_inv_def by blast
    ultimately have sh: "shared \<in> ?F - F" by blast
    have bm: "boot_memory fuel lock_size uart_size cs pf_entry cfg h s mc = Some (Inr (h2, s', shared, ?mc))"
      using hp(1,2) init g(1) by (simp add: boot_memory_def physmem_init_def)
    have inside: "\<forall>(b, k) \<in> {(p, m), (q, n)}. uint HEAP_START \<le> uint b \<and> uint b + 4 * k \<le> uint VMM_FRAMES"
      using heap_live_inside [OF hp(6)] hp(7,8) by (auto simp: vf HEAP_START_def)
    have big: "uint lock_size \<le> 4 * m" "uint uart_size \<le> 4 * n"
      using request_ints_covers [of lock_size] request_ints_covers [of uart_size] sz(2,4) hp(4,5) by (simp_all add: word_le_def)
    show ?thesis
      by (subst if_not_P, simp add: True, intro exI [of _ h2] exI [of _ s'] exI [of _ shared] exI [of _ ?mc] exI [of _ p] exI [of _ m] exI [of _ q]
          exI [of _ n] exI [of _ F] conjI bm pf hp(3,6) big inside g(2,3) sh)
  qed
qed

theorem boot_memory_layout_witness:
  "\<exists>h s shared mc p m q n F. boot_memory 1048576 24 8 8 0x4321 small_config \<lparr>array = (\<lambda>_. 0), hlen = 0, havail = 0, hbase = 0\<rparr>
       \<lparr>mem = (\<lambda>_. 0), firstFree = 0, avail = 0, limit = 0\<rparr> machine_off = Some (Inr (h, s, shared, mc)) \<and> gate mc 14 0x4321 8 15 3 \<and>
     heap_live h {(p, m), (q, n)} \<and> pd_inv VMM_FRAMES 0x1000000 s shared F \<and> walk (mem s) shared 0x123456 = Some 0x123003"
proof -
  have c: "memSize small_config = 0x1000000" by (simp add: small_config_def)
  have o: "offset 0x1000000 = 0" "framedown 0x123456 = 0x123000" by (simp_all add: offset_def framedown_def FRAME_SIZE_eq)
  obtain h s shared mc p m q n F where b: "boot_memory 1048576 24 8 8 0x4321 small_config \<lparr>array = (\<lambda>_. 0), hlen = 0, havail = 0, hbase = 0\<rparr>
       \<lparr>mem = (\<lambda>_. 0), firstFree = 0, avail = 0, limit = 0\<rparr> machine_off = Some (Inr (h, s, shared, mc)) \<and> gate mc 14 0x4321 8 15 3"
    "heap_live h {(p, m), (q, n)}" "pd_inv VMM_FRAMES 0x1000000 s shared F"
    "\<forall>x. walk (mem s) shared x =
        (if FRAME_SIZE \<le> framedown x \<and> framedown x < 0x1000000 then Some (framedown x OR 3) else None)"
    using boot_memory_layout [of "\<lparr>array = (\<lambda>_. 0), hlen = 0, havail = 0, hbase = 0\<rparr>"
        "\<lparr>mem = (\<lambda>_. 0), firstFree = 0, avail = 0, limit = 0\<rparr>" 24 8 small_config 1048576 8 "0x4321" machine_off] c o(1) by auto
  have "walk (mem s) shared 0x123456 = Some 0x123003" using b(4) by (simp add: o(2) FRAME_SIZE_eq)
  then show ?thesis using b(1-3) by blast
qed

end
