(* ===== verification/Startup.thy ===== *)
theory Startup
  imports Kernel_Config
begin

text \<open>
  How the processors start (\<^verbatim>\<open>kernelInit\<close> of \<^verbatim>\<open>init.cc\<close>): the first one wakes the others one after the other and waits for each, and
  the last one to finish its own initialisation creates the first process. A step is one access to the
  shared counters \<^verbatim>\<open>SMP::running\<close> and \<^verbatim>\<open>howManyAreHere\<close>, or the pair of messages that wakes a processor.
\<close>

subsection \<open>The steps of kernelInit\<close>

text \<open>\<open>B_Run\<close>, \<open>B_Loop\<close> and \<open>B_Wait\<close> are points of the first processor, with its variable \<^verbatim>\<open>id\<close>; the others are off until they are woken.
  \<open>At_End\<close> is the point before \<^verbatim>\<open>howManyAreHere\<close> is incremented.\<close>

datatype boot_pc = Off | Woken | B_Run | B_Loop u32 | B_Wait u32 | At_End | In_Stop

record startup =
  running :: u32
  howManyAreHere :: u32
  cpu_at :: "nat \<Rightarrow> boot_pc"
  init_threads :: nat

definition startup_new :: startup where
  "startup_new = \<lparr>running = 0, howManyAreHere = 0, cpu_at = (\<lambda>_. Off)(0 := B_Run), init_threads = 0\<rparr>"

text \<open>\<open>n\<close> is the number of processors, \<^verbatim>\<open>kConfig.totalProcs\<close>.\<close>

definition startup_step :: "u32 \<Rightarrow> nat \<Rightarrow> startup \<Rightarrow> startup" where
  "startup_step n c s =
     (case cpu_at s c of
        B_Run \<Rightarrow> s\<lparr>running := running s + 1, cpu_at := (cpu_at s)(c := B_Loop 1)\<rparr>
      | B_Loop i \<Rightarrow>
          if i < n then s\<lparr>cpu_at := (cpu_at s)(unat i := Woken, c := B_Wait i)\<rparr>
          else s\<lparr>cpu_at := (cpu_at s)(c := At_End)\<rparr>
      | B_Wait i \<Rightarrow> if running s \<le> i then s else s\<lparr>cpu_at := (cpu_at s)(c := B_Loop (i + 1))\<rparr>
      | Woken \<Rightarrow> s\<lparr>running := running s + 1, cpu_at := (cpu_at s)(c := At_End)\<rparr>
      | At_End \<Rightarrow>
          let myOrder = howManyAreHere s + 1;
              s = s\<lparr>howManyAreHere := myOrder, cpu_at := (cpu_at s)(c := In_Stop)\<rparr>
          in if myOrder = n then s\<lparr>init_threads := Suc (init_threads s)\<rparr> else s
      | Off \<Rightarrow> s
      | In_Stop \<Rightarrow> s)"

inductive startup_reach :: "u32 \<Rightarrow> startup \<Rightarrow> bool" for n where
  start: "startup_reach n startup_new"
| step: "startup_reach n s \<Longrightarrow> startup_reach n (startup_step n c s)"

subsection \<open>The invariant\<close>

definition past :: "startup \<Rightarrow> nat \<Rightarrow> bool" where
  "past s c \<longleftrightarrow> cpu_at s c = At_End \<or> cpu_at s c = In_Stop"

text \<open>Where the others are when the first processor is at its point: below \<open>i\<close> they run, above \<open>i\<close> they are off.\<close>

definition started_below :: "u32 \<Rightarrow> startup \<Rightarrow> nat \<Rightarrow> bool" where
  "started_below n s i \<longleftrightarrow> (\<forall>c. 0 < c \<longrightarrow> (c < i \<longrightarrow> past s c) \<and> (i < c \<longrightarrow> cpu_at s c = Off))"

fun first_ok :: "u32 \<Rightarrow> startup \<Rightarrow> boot_pc \<Rightarrow> bool" where
  "first_ok n s B_Run \<longleftrightarrow> started_below n s 1 \<and> cpu_at s 1 = Off \<and> running s = 0"
| "first_ok n s (B_Loop i) \<longleftrightarrow> 1 \<le> i \<and> i \<le> n \<and> started_below n s (unat i) \<and> cpu_at s (unat i) = Off \<and> running s = i"
| "first_ok n s (B_Wait i) \<longleftrightarrow> 1 \<le> i \<and> i < n \<and> started_below n s (unat i) \<and>
     (cpu_at s (unat i) = Woken \<and> running s = i \<or> past s (unat i) \<and> running s = i + 1)"
| "first_ok n s At_End \<longleftrightarrow> started_below n s (unat n) \<and> cpu_at s (unat n) = Off"
| "first_ok n s In_Stop \<longleftrightarrow> started_below n s (unat n) \<and> cpu_at s (unat n) = Off"
| "first_ok n s Off \<longleftrightarrow> False"
| "first_ok n s Woken \<longleftrightarrow> False"

definition stopped :: "u32 \<Rightarrow> startup \<Rightarrow> nat set" where
  "stopped n s = {c. c < unat n \<and> cpu_at s c = In_Stop}"

definition startup_inv :: "u32 \<Rightarrow> startup \<Rightarrow> bool" where
  "startup_inv n s \<longleftrightarrow> first_ok n s (cpu_at s 0) \<and> unat (howManyAreHere s) = card (stopped n s) \<and>
     init_threads s = (if card (stopped n s) = unat n then 1 else 0)"

lemma stopped_card: "finite (stopped n s)" "card (stopped n s) \<le> unat n"
  "c < unat n \<Longrightarrow> cpu_at s c \<noteq> In_Stop \<Longrightarrow> card (stopped n s) < unat n"
proof -
  show f: "finite (stopped n s)" by (simp add: stopped_def)
  show "card (stopped n s) \<le> unat n" using card_mono [of "{..<unat n}" "stopped n s"] by (auto simp: stopped_def)
  assume "c < unat n" "cpu_at s c \<noteq> In_Stop"
  then have "stopped n s \<subset> {..<unat n}" by (auto simp: stopped_def)
  then show "card (stopped n s) < unat n" using psubset_card_mono [of "{..<unat n}"] by auto
qed

lemma stopped_same: "(\<And>c. cpu_at s' c = In_Stop \<longleftrightarrow> cpu_at s c = In_Stop) \<Longrightarrow> stopped n s' = stopped n s"
  by (simp add: stopped_def)

lemma off_beyond:
  assumes "first_ok n s (cpu_at s 0)" "unat n \<le> c" "0 < n"
  shows "cpu_at s c = Off"
proof -
  have c: "0 < c" using assms(2,3) by (simp add: word_less_nat_alt)
  consider "cpu_at s 0 = B_Run" | i where "cpu_at s 0 = B_Loop i" | i where "cpu_at s 0 = B_Wait i"
    | "cpu_at s 0 = At_End \<or> cpu_at s 0 = In_Stop"
    using assms(1) by (cases "cpu_at s 0") auto
  then show ?thesis
  proof cases
    case 1
    then show ?thesis using assms c by (cases "c = 1") (auto simp: started_below_def)
  next
    case (2 i)
    then show ?thesis using assms c
      by (cases "c = unat i") (auto simp: started_below_def word_le_nat_alt)
  next
    case (3 i)
    then show ?thesis using assms c by (auto simp: started_below_def word_less_nat_alt)
  next
    case 4
    then show ?thesis using assms c by (cases "c = unat n") (auto simp: started_below_def)
  qed
qed

lemma startup_inv_new:
  assumes "1 \<le> n"
  shows "startup_inv n startup_new"
proof -
  have "stopped n startup_new = {}" by (auto simp: stopped_def startup_new_def)
  then show ?thesis using assms by (auto simp: startup_inv_def startup_new_def started_below_def word_le_nat_alt)
qed


subsection \<open>The invariant is kept\<close>

text \<open>A step of a processor other than the first changes its own point only.\<close>

lemma not_woken:
  assumes "started_below n s i" "0 < c" "c \<noteq> i"
  shows "cpu_at s c \<noteq> Woken"
proof -
  consider "past s c" | "cpu_at s c = Off" using assms by (auto simp: started_below_def neq_iff)
  then show ?thesis by cases (auto simp: past_def)
qed

lemma other_ok:
  assumes ok: "first_ok n s (cpu_at s 0)" and c: "0 < c" and m: "cpu_at s c = Woken \<and> r = running s + 1 \<and> p = At_End \<or>
      cpu_at s c = At_End \<and> r = running s \<and> p = In_Stop"
    and s': "running s' = r" "cpu_at s' = (cpu_at s)(c := p)"
  shows "first_ok n s' (cpu_at s' 0)"
proof -
  have pst: "past s' d" if "past s d" for d using that m s' by (auto simp: past_def)
  have 0: "cpu_at s' 0 = cpu_at s 0" using c s'(2) by simp
  have off: "cpu_at s' d = Off \<longleftrightarrow> cpu_at s d = Off" for d using m s'(2) by auto
  have below: "started_below n s i \<Longrightarrow> started_below n s' i" for i
    using pst off by (auto simp: started_below_def)
  have awake: "started_below n s i \<Longrightarrow> c \<noteq> i \<Longrightarrow> cpu_at s c \<noteq> Woken" for i using not_woken c by blast
  show ?thesis
  proof (cases "cpu_at s 0")
    case B_Run
    then have f: "started_below n s 1" "cpu_at s 1 = Off" "running s = 0" using ok by simp_all
    then have "cpu_at s c \<noteq> Woken" using awake [of 1] by (cases "c = 1") auto
    then show ?thesis using f below off m s'(1) 0 B_Run by auto
  next
    case (B_Loop i)
    then have f: "1 \<le> i" "i \<le> n" "started_below n s (unat i)" "cpu_at s (unat i) = Off" "running s = i" using ok by simp_all
    then have "cpu_at s c \<noteq> Woken" using awake [of "unat i"] by (cases "c = unat i") auto
    then show ?thesis using f below off m s'(1) 0 B_Loop by auto
  next
    case (B_Wait i)
    then have f: "1 \<le> i" "i < n" "started_below n s (unat i)"
      "cpu_at s (unat i) = Woken \<and> running s = i \<or> past s (unat i) \<and> running s = i + 1" using ok by simp_all
    show ?thesis
    proof (cases "c = unat i")
      case True
      then show ?thesis using f below m s' 0 B_Wait by (auto simp: past_def)
    next
      case False
      then have "cpu_at s c \<noteq> Woken" using awake [OF f(3)] by simp
      then show ?thesis using f below m s' 0 B_Wait False pst by auto
    qed
  qed (use ok below off 0 in auto)
qed

text \<open>A step of the first processor.\<close>

lemma first_step_ok:
  assumes ok: "first_ok n s (cpu_at s 0)" and n: "1 \<le> n" "n < 2 ^ 31"
  shows "first_ok n (startup_step n 0 s) (cpu_at (startup_step n 0 s) 0)"
proof -
  have un: "1 \<le> unat n" "unat n < 2 ^ 31" using n by (simp_all add: word_le_nat_alt word_less_nat_alt)
  show ?thesis
  proof (cases "cpu_at s 0")
    case B_Run
    then show ?thesis using ok n by (auto simp: startup_step_def started_below_def past_def)
  next
    case (B_Loop i)
    then have f: "1 \<le> i" "i \<le> n" "started_below n s (unat i)" "cpu_at s (unat i) = Off" "running s = i" using ok by simp_all
    have i: "0 < unat i" using f(1) by (simp add: word_le_nat_alt)
    show ?thesis
    proof (cases "i < n")
      case True
      then show ?thesis using f i B_Loop by (auto simp: startup_step_def started_below_def past_def)
    next
      case False
      then have "i = n" using f(2) by simp
      then show ?thesis using f i B_Loop by (auto simp: startup_step_def started_below_def past_def)
    qed
  next
    case (B_Wait i)
    then have f: "1 \<le> i" "i < n" "started_below n s (unat i)"
      "cpu_at s (unat i) = Woken \<and> running s = i \<or> past s (unat i) \<and> running s = i + 1" using ok by simp_all
    have ui: "unat (i + 1) = unat i + 1" "1 \<le> unat i"
      using f(1,2) un by (simp_all add: unat_add_no_wrap word_le_nat_alt word_less_nat_alt)
    show ?thesis
    proof (cases "running s \<le> i")
      case True
      then show ?thesis using ok B_Wait by (simp add: startup_step_def)
    next
      case False
      then have p: "past s (unat i)" "running s = i + 1" using f(4) by auto
      have le: "1 \<le> i + 1" "i + 1 \<le> n" using ui f(2) by (simp_all add: word_le_nat_alt word_less_nat_alt)
      show ?thesis
        using False B_Wait f(3) p le ui by (auto simp: startup_step_def started_below_def past_def less_Suc_eq)
    qed
  qed (use ok un in \<open>auto simp: startup_step_def started_below_def past_def Let_def\<close>)
qed

lemma others_point:
  assumes ok: "first_ok n s (cpu_at s 0)" and c: "c \<noteq> 0"
  shows "cpu_at s c = Off \<or> cpu_at s c = Woken \<or> past s c"
proof (cases "cpu_at s 0")
  case B_Run
  then show ?thesis using ok c by (cases "c = 1") (auto simp: started_below_def)
next
  case (B_Loop i)
  then show ?thesis using ok c by (cases "c = unat i") (auto simp: started_below_def neq_iff)
next
  case (B_Wait i)
  then show ?thesis using ok c by (cases "c = unat i") (auto simp: started_below_def neq_iff)
qed (use ok c in \<open>cases "c = unat n"; auto simp: started_below_def neq_iff\<close>)+

lemma first_point:
  assumes ok: "first_ok n s (cpu_at s 0)" and c: "cpu_at s c = B_Loop i \<or> cpu_at s c = B_Wait i \<or> cpu_at s c = B_Run"
  shows "c = 0"
proof (rule ccontr)
  assume "c \<noteq> 0"
  then have "cpu_at s c = Off \<or> cpu_at s c = Woken \<or> past s c" by (rule others_point [OF ok])
  then show False using c by (auto simp: past_def)
qed

lemma startup_inv_step:
  assumes inv: "startup_inv n s" and n: "1 \<le> n" "n < 2 ^ 31"
  shows "startup_inv n (startup_step n c s)"
proof -
  let ?s = "startup_step n c s"
  have un: "1 \<le> unat n" "unat n < 2 ^ 31" "0 < n" using n by (simp_all add: word_le_nat_alt word_less_nat_alt)
  have ok: "first_ok n s (cpu_at s 0)" and here: "unat (howManyAreHere s) = card (stopped n s)"
    and init: "init_threads s = (if card (stopped n s) = unat n then 1 else 0)" using inv by (simp_all add: startup_inv_def)
  note others = others_point [OF ok]
  have first: "first_ok n ?s (cpu_at ?s 0)"
  proof (cases "c = 0")
    case True
    then show ?thesis using first_step_ok [OF ok n] by simp
  next
    case False
    consider "?s = s" | "cpu_at s c = Woken" | "cpu_at s c = At_End"
      using others [OF False] by (auto simp: past_def startup_step_def)
    then show ?thesis
    proof cases
      case 2
      then show ?thesis using False by (intro other_ok [OF ok, of c "running s + 1" At_End]) (auto simp: startup_step_def)
    next
      case 3
      then show ?thesis using False by (intro other_ok [OF ok, of c "running s" In_Stop]) (auto simp: startup_step_def Let_def)
    qed (use ok in simp)
  qed
  show ?thesis
  proof (cases "cpu_at s c = At_End")
    case True
    have cn: "c < unat n" using off_beyond [OF ok _ un(3), of c] True by (cases "c < unat n") auto
    have st: "stopped n ?s = insert c (stopped n s)" "c \<notin> stopped n s"
      using True cn by (auto simp: stopped_def startup_step_def Let_def)
    then have card: "card (stopped n ?s) = Suc (card (stopped n s))" using stopped_card(1) by simp
    have lt: "card (stopped n s) < unat n" using stopped_card(3) [OF cn] True by simp
    then have u: "unat (howManyAreHere s + 1) = Suc (card (stopped n s))"
      using here un(2) by (simp add: unat_add_no_wrap)
    then have "howManyAreHere s + 1 = n \<longleftrightarrow> card (stopped n ?s) = unat n"
      unfolding card using word_unat_eq_iff [of "howManyAreHere s + 1" n] by simp
    then show ?thesis
      using first card u init lt True by (auto simp: startup_inv_def startup_step_def Let_def)
  next
    case False
    have "stopped n ?s = stopped n s"
    proof (rule stopped_same)
      fix d
      have "cpu_at s (unat i) = Off" if "cpu_at s c = B_Loop i" for i
        using first_point [OF ok, of c i] that ok by auto
      then show "cpu_at ?s d = In_Stop \<longleftrightarrow> cpu_at s d = In_Stop"
        using False by (auto simp: startup_step_def split: boot_pc.splits)
    qed
    moreover have "howManyAreHere ?s = howManyAreHere s" "init_threads ?s = init_threads s"
      using False by (auto simp: startup_step_def split: boot_pc.splits)
    ultimately show ?thesis using first here init by (simp add: startup_inv_def)
  qed
qed

lemma startup_reach_inv: "startup_reach n s \<Longrightarrow> 1 \<le> n \<Longrightarrow> n < 2 ^ 31 \<Longrightarrow> startup_inv n s"
  by (induction rule: startup_reach.induct) (auto intro: startup_inv_new startup_inv_step)

subsection \<open>Progress\<close>

primrec boot_left :: "nat \<Rightarrow> boot_pc \<Rightarrow> nat" where
  "boot_left n Off = 3"
| "boot_left n Woken = 2"
| "boot_left n B_Run = 2 * n + 3"
| "boot_left n (B_Loop i) = 2 * (n - unat i) + 2"
| "boot_left n (B_Wait i) = 2 * (n - unat i) + 1"
| "boot_left n At_End = 1"
| "boot_left n In_Stop = 0"

definition startup_left :: "u32 \<Rightarrow> startup \<Rightarrow> nat" where
  "startup_left n s = (\<Sum>c < unat n. boot_left (unat n) (cpu_at s c))"

lemma sum_update_less:
  fixes f :: "'a \<Rightarrow> nat"
  assumes "finite A" "\<And>x. x \<in> A \<Longrightarrow> g x \<le> f x" "a \<in> A" "g a < f a"
  shows "sum g A < sum f A"
  using assms by (intro sum_strict_mono_ex1) auto

lemma startup_step_left:
  assumes inv: "startup_inv n s" and n: "1 \<le> n" "n < 2 ^ 31" and m: "startup_step n c s \<noteq> s"
  shows "startup_left n (startup_step n c s) < startup_left n s"
  unfolding startup_left_def
proof (rule sum_update_less)
  have ok: "first_ok n s (cpu_at s 0)" using inv by (simp add: startup_inv_def)
  have un: "1 \<le> unat n" "unat n < 2 ^ 31" "0 < n" using n by (simp_all add: word_le_nat_alt word_less_nat_alt)
  have on: "cpu_at s c \<noteq> Off" using m by (auto simp: startup_step_def)
  show "c \<in> {..<unat n}" using off_beyond [OF ok _ un(3), of c] on by (cases "c < unat n") auto
  note zero = first_point [OF ok, of c]
  have loop: "cpu_at s (unat i) = Off \<and> i \<le> n \<and> 1 \<le> i" if "cpu_at s c = B_Loop i" for i
    using zero [of i] that ok by auto
  have wait: "1 \<le> i \<and> i < n" if "cpu_at s c = B_Wait i" for i using zero [of i] that ok by auto
  have succ: "unat (i + 1) = unat i + 1" if "i < n" for i
    using that un(2) by (simp add: unat_add_no_wrap word_less_nat_alt)
  show "boot_left (unat n) (cpu_at (startup_step n c s) x) \<le> boot_left (unat n) (cpu_at s x)" for x
    using loop wait succ un
    by (cases "cpu_at s c") (auto simp: startup_step_def Let_def word_less_nat_alt word_le_nat_alt)
  show "boot_left (unat n) (cpu_at (startup_step n c s) c) < boot_left (unat n) (cpu_at s c)"
    using loop wait succ un m
    by (cases "cpu_at s c") (auto simp: startup_step_def Let_def word_less_nat_alt word_le_nat_alt)
qed simp

lemma first_moves:
  assumes inv: "startup_inv n s" and n: "1 \<le> n" "n < 2 ^ 31" and stuck: "\<And>c. startup_step n c s = s"
  shows "stopped n s = {..<unat n}"
proof -
  have ok: "first_ok n s (cpu_at s 0)" using inv by (simp add: startup_inv_def)
  have moves: "startup_step n c s \<noteq> s" if "cpu_at s c = Woken \<or> cpu_at s c = At_End" for c
  proof
    note t = that
    assume "startup_step n c s = s"
    then have "cpu_at (startup_step n c s) c = cpu_at s c" by simp
    then show False using t by (auto simp: startup_step_def Let_def split: if_splits)
  qed
  have "startup_step n 0 s \<noteq> s" if "cpu_at s 0 \<noteq> In_Stop" "\<And>i. cpu_at s 0 \<noteq> B_Wait i"
  proof
    note t = that
    assume "startup_step n 0 s = s"
    then have "cpu_at (startup_step n 0 s) 0 = cpu_at s 0" by simp
    then show False using t ok by (cases "cpu_at s 0") (auto simp: startup_step_def Let_def split: if_splits)
  qed
  moreover have False if w: "cpu_at s 0 = B_Wait i" for i
  proof -
    have p: "past s (unat i)" "running s = i + 1" "i < n" using ok w moves stuck by auto
    have "unat (i + 1) = unat i + 1" using p(3) n by (simp add: unat_add_no_wrap word_less_nat_alt)
    then have "\<not> running s \<le> i" using p(2) by (simp add: word_le_nat_alt)
    then have "cpu_at (startup_step n 0 s) 0 = B_Loop (i + 1)" using w by (simp add: startup_step_def)
    then show False using stuck [of 0] w by simp
  qed
  ultimately have z: "cpu_at s 0 = In_Stop" using stuck by blast
  have "cpu_at s c = In_Stop" if "c < unat n" for c
    using z ok that moves stuck by (cases "c = 0") (auto simp: started_below_def past_def)
  then show ?thesis by (auto simp: stopped_def)
qed

lemma woken_alone:
  assumes ok: "first_ok n s (cpu_at s 0)" and n: "0 < n" and c: "cpu_at s c = Woken"
  shows "c < unat n \<and> (\<forall>d < c. cpu_at s d \<noteq> Off \<and> cpu_at s d \<noteq> Woken) \<and> (\<forall>d > c. cpu_at s d = Off)"
proof -
  have cn: "c < unat n" using off_beyond [OF ok _ n, of c] c by (cases "c < unat n") auto
  have c0: "0 < c" using ok c by (cases c) auto
  have "\<exists>i. cpu_at s 0 = B_Wait i \<and> c = unat i"
  proof (cases "cpu_at s 0")
    case B_Run
    then show ?thesis using ok c not_woken [OF _ c0, of n s 1] by (cases "c = 1") auto
  next
    case (B_Loop i)
    then show ?thesis using ok c not_woken [OF _ c0, of n s "unat i"] by (cases "c = unat i") auto
  next
    case (B_Wait i)
    then show ?thesis using ok c not_woken [OF _ c0, of n s "unat i"] by (cases "c = unat i") auto
  qed (use ok c not_woken [OF _ c0, of n s "unat n"] in \<open>cases "c = unat n"; auto\<close>)+
  then obtain i where i: "cpu_at s 0 = B_Wait i" "c = unat i" by blast
  then have "started_below n s c" using ok by simp
  then have "cpu_at s d \<noteq> Off \<and> cpu_at s d \<noteq> Woken" if "d < c" for d
  proof (cases "d = 0")
    case False
    then have "past s d" using \<open>d < c\<close> \<open>started_below n s c\<close> by (simp add: started_below_def)
    then show ?thesis by (auto simp: past_def)
  qed (use i(1) in simp)
  moreover have "cpu_at s d = Off" if "c < d" for d using that \<open>started_below n s c\<close> by (auto simp: started_below_def)
  ultimately show ?thesis using cn by blast
qed

text \<open>
  \<^bold>\<open>C29.\<close> Starting the processors (\<^verbatim>\<open>kernelInit\<close> in init.cc). In every state that any interleaving of \<open>n\<close> processors
  can reach, the process \<^verbatim>\<open>init\<close> has been created at most once, and it has been created exactly when all \<open>n\<close> processors have finished
  their initialisation; a processor that has just been woken is the only one, and all before it run already; processors
  beyond \<open>n\<close> stay off. Every step that changes the state brings the end nearer, and
  in a state in which no processor can move \<^verbatim>\<open>init\<close> has been created: the start never hangs.
\<close>

theorem startup_correct:
  assumes reach: "startup_reach n s" and n: "1 \<le> n" "n < 2 ^ 31"
  shows "init_threads s = (if \<forall>c < unat n. cpu_at s c = In_Stop then 1 else 0) \<and>
    (\<forall>c. cpu_at s c = Woken \<longrightarrow> c < unat n \<and> (\<forall>d < c. cpu_at s d \<noteq> Off \<and> cpu_at s d \<noteq> Woken) \<and> (\<forall>d > c. cpu_at s d = Off)) \<and>
    (\<forall>c \<ge> unat n. cpu_at s c = Off) \<and>
    (\<forall>c. startup_step n c s \<noteq> s \<longrightarrow> startup_left n (startup_step n c s) < startup_left n s) \<and>
    ((\<forall>c. startup_step n c s = s) \<longrightarrow> init_threads s = 1)"
proof (intro conjI)
  note inv = startup_reach_inv [OF reach n]
  have ok: "first_ok n s (cpu_at s 0)" and pos: "0 < n" using inv n by (simp_all add: startup_inv_def word_le_nat_alt word_less_nat_alt)
  have "card (stopped n s) = unat n \<longleftrightarrow> (\<forall>c < unat n. cpu_at s c = In_Stop)"
  proof
    assume "\<forall>c < unat n. cpu_at s c = In_Stop"
    then have "stopped n s = {..<unat n}" by (auto simp: stopped_def)
    then show "card (stopped n s) = unat n" by simp
  qed (use stopped_card(3) in force)
  then show init: "init_threads s = (if \<forall>c < unat n. cpu_at s c = In_Stop then 1 else 0)"
    using inv by (simp add: startup_inv_def)
  show off: "\<forall>c \<ge> unat n. cpu_at s c = Off" using off_beyond [OF ok _ pos] by blast
  show "\<forall>c. cpu_at s c = Woken \<longrightarrow> c < unat n \<and> (\<forall>d < c. cpu_at s d \<noteq> Off \<and> cpu_at s d \<noteq> Woken) \<and> (\<forall>d > c. cpu_at s d = Off)"
    using woken_alone [OF ok pos] by blast
  show "\<forall>c. startup_step n c s \<noteq> s \<longrightarrow> startup_left n (startup_step n c s) < startup_left n s"
    using startup_step_left [OF inv n] by blast
  show "(\<forall>c. startup_step n c s = s) \<longrightarrow> init_threads s = 1"
    using first_moves [OF inv n] init by (auto simp: stopped_def)
qed

fun startup_run :: "u32 \<Rightarrow> nat list \<Rightarrow> startup \<Rightarrow> startup" where
  "startup_run n [] s = s"
| "startup_run n (c # cs) s = startup_run n cs (startup_step n c s)"

lemma startup_run_reach: "startup_reach n s \<Longrightarrow> startup_reach n (startup_run n cs s)"
  by (induction cs arbitrary: s) (auto intro: startup_reach.step)

theorem startup_correct_witness:
  "init_threads (startup_run 2 [0, 0, 1, 0, 1, 0, 0] startup_new) = 1 \<and>
   init_threads (startup_run 2 [0, 0, 1, 0, 1] startup_new) = 0 \<and>
   cpu_at (startup_run 2 [0, 0] startup_new) 7 = Off"
proof -
  have r: "startup_reach 2 (startup_run 2 cs startup_new)" for cs by (intro startup_run_reach startup_reach.start)
  have n: "1 \<le> (2 :: u32)" "(2 :: u32) < 2 ^ 31" by simp_all
  note c = startup_correct [OF r n, THEN conjunct1]
  note off = startup_correct [OF r n, THEN conjunct2, THEN conjunct2, THEN conjunct1]
  have "cpu_at (startup_run 2 [0, 0, 1, 0, 1, 0, 0] startup_new) 0 = In_Stop"
    "cpu_at (startup_run 2 [0, 0, 1, 0, 1, 0, 0] startup_new) 1 = In_Stop"
    "cpu_at (startup_run 2 [0, 0, 1, 0, 1] startup_new) 0 \<noteq> In_Stop"
    by (simp_all add: startup_new_def startup_step_def Let_def word_le_nat_alt)
  then have "init_threads (startup_run 2 [0, 0, 1, 0, 1, 0, 0] startup_new) = 1"
    "init_threads (startup_run 2 [0, 0, 1, 0, 1] startup_new) = 0"
    unfolding c by (auto simp: less_2_cases_iff simp del: startup_run.simps)
  moreover have "cpu_at (startup_run 2 [0, 0] startup_new) 7 = Off" using off [of "[0, 0]"] by (simp del: startup_run.simps)
  ultimately show ?thesis by blast
qed

end
