(* ===== verification/User_Heap.thy ===== *)
theory User_Heap
  imports Heap_Interface
begin

text \<open>
  The heap that is linked into user programs, \<^verbatim>\<open>t0.dir/sbin/heap.c\<close>. It works on an array of the same
  shape as the kernel heap, so its state is the record of theory \<open>Kernel_Heap\<close>; but it takes the first
  block that fits, and its sanity check and its other tests report nothing.
\<close>

subsection \<open>State and accessors (heap.c)\<close>

definition INTS :: int where
  "INTS = 0x100000"

definition u_safe :: int where
  "u_safe = 1"

definition u_abs :: "int \<Rightarrow> int" where
  "u_abs x = (if x < 0 then - x else x)"

definition u_size :: "heap \<Rightarrow> int \<Rightarrow> int" where
  "u_size h i = u_abs (array h i)"

definition u_headerFromFooter :: "heap \<Rightarrow> int \<Rightarrow> int" where
  "u_headerFromFooter h i = i - u_size h i + 1"

definition u_footerFromHeader :: "heap \<Rightarrow> int \<Rightarrow> int" where
  "u_footerFromHeader h i = i + u_size h i - 1"

definition u_sanity :: "heap \<Rightarrow> int \<Rightarrow> int" where
  "u_sanity h i =
     (if u_safe \<noteq> 0 then
        if i = 0 then 0
        else if i < 0 \<or> i \<ge> hlen h then i
        else
          let footer = u_footerFromHeader h i in
          if footer < 0 \<or> footer \<ge> hlen h then i
          else
            let hv = array h i; fv = array h footer in
            if hv \<noteq> fv then i else i
      else i)"

definition u_left :: "heap \<Rightarrow> int \<Rightarrow> int" where
  "u_left h i = u_sanity h (u_headerFromFooter h (i - 1))"

definition u_right :: "heap \<Rightarrow> int \<Rightarrow> int" where
  "u_right h i = u_sanity h (i + u_size h i)"

definition next1 :: "heap \<Rightarrow> int \<Rightarrow> int" where
  "next1 h i = u_sanity h (array h (i + 1))"

definition prev1 :: "heap \<Rightarrow> int \<Rightarrow> int" where
  "prev1 h i = u_sanity h (array h (i + 2))"

definition u_next :: "heap \<Rightarrow> int \<Rightarrow> int \<Rightarrow> heap" where
  "u_next h i x = put h (i + 1) x"

definition u_prev :: "heap \<Rightarrow> int \<Rightarrow> int \<Rightarrow> heap" where
  "u_prev h i x = put h (i + 2) x"

definition u_remove :: "heap \<Rightarrow> int \<Rightarrow> heap" where
  "u_remove h i =
     (let prevIndex = prev1 h i;
          nextIndex = next1 h i;
          h = (if prevIndex = 0 then h\<lparr>havail := nextIndex\<rparr> else u_next h prevIndex nextIndex)
      in if nextIndex \<noteq> 0 then u_prev h nextIndex prevIndex else h)"

definition u_makeAvail :: "heap \<Rightarrow> int \<Rightarrow> int \<Rightarrow> heap" where
  "u_makeAvail h i ints =
     (let h = put h i ints;
          h = put h (u_footerFromHeader h i) ints;
          h = u_next h i (havail h);
          h = u_prev h i 0;
          h = (if havail h \<noteq> 0 then u_prev h (havail h) i else h)
      in h\<lparr>havail := i\<rparr>)"

definition u_makeTaken :: "heap \<Rightarrow> int \<Rightarrow> int \<Rightarrow> heap" where
  "u_makeTaken h i ints =
     (let h = put h i (- ints) in put h (u_footerFromHeader h i) (- ints))"

definition u_isAvail :: "heap \<Rightarrow> int \<Rightarrow> bool" where
  "u_isAvail h i \<longleftrightarrow> array h i > 0"

definition u_isTaken :: "heap \<Rightarrow> int \<Rightarrow> bool" where
  "u_isTaken h i \<longleftrightarrow> array h i < 0"

text \<open>\<open>base\<close> is the address at which the program is linked to have its array.\<close>

definition heap_init :: "u32 \<Rightarrow> (int \<Rightarrow> int) \<Rightarrow> heap" where
  "heap_init base cells =
     (let h = \<lparr>array = cells, hlen = INTS, havail = 0, hbase = base\<rparr>;
          h = u_makeTaken h 0 2;
          h = u_makeAvail h 2 (hlen h - 4)
      in u_makeTaken h (hlen h - 2) 2)"

subsection \<open>malloc, free and realloc (heap.c)\<close>

definition u_take :: "heap \<Rightarrow> int \<Rightarrow> int \<Rightarrow> heap \<times> u32" where
  "u_take h p ints =
     (let sz = u_size h p;
          h = u_remove h p;
          extra = sz - ints;
          h = (if extra \<ge> 4 then u_makeAvail (u_makeTaken h p ints) (p + ints) extra else u_makeTaken h p sz)
      in (h, cell_ptr h (p + 1)))"

partial_function (option) u_malloc_loop :: "heap \<Rightarrow> int \<Rightarrow> int \<Rightarrow> (heap \<times> u32) option" where
  "u_malloc_loop h ints p =
     (if p = 0 then Some (h, 0)
      else if u_size h p \<ge> ints then Some (u_take h p ints)
      else u_malloc_loop h ints (next1 h p))"

definition u_request_ints :: "u32 \<Rightarrow> int" where
  "u_request_ints bytes = (let ints = uint ((bytes + 3) div 4 + 2) in if ints < 4 then 4 else ints)"

definition u_malloc :: "heap \<Rightarrow> u32 \<Rightarrow> (heap \<times> u32) option" where
  "u_malloc h bytes =
     (if bytes = 0 then Some (h, hbase h) else u_malloc_loop h (u_request_ints bytes) (havail h))"

definition u_index :: "heap \<Rightarrow> u32 \<Rightarrow> int" where
  "u_index h p =
     (let d = sint p - sint (hbase h) in (if d < 0 then - (- d div 4) else d div 4) - 1)"

definition u_free_block :: "heap \<Rightarrow> int \<Rightarrow> heap" where
  "u_free_block h idx =
     (if \<not> u_isTaken h idx then h
      else
        let sz = u_size h idx;
            leftIndex = u_left h idx;
            rightIndex = u_right h idx;
            (h, idx, sz) =
              (if u_isAvail h leftIndex
               then let h = u_remove h leftIndex in (h, leftIndex, sz + u_size h leftIndex)
               else (h, idx, sz));
            (h, sz) =
              (if u_isAvail h rightIndex
               then let h = u_remove h rightIndex in (h, sz + u_size h rightIndex)
               else (h, sz))
        in u_makeAvail h idx sz)"

definition u_free :: "heap \<Rightarrow> u32 \<Rightarrow> heap" where
  "u_free h p = (if p = 0 then h else if p = hbase h then h else u_free_block h (u_index h p))"

subsection \<open>The same primitives as in the kernel\<close>

lemma u_sanity_same [simp]: "u_sanity h i = i"
  by (simp add: u_sanity_def Let_def)

lemma u_same [simp]:
  "u_size h i = hsize h i" "u_headerFromFooter h i = headerFromFooter h i" "u_footerFromHeader h i = footerFromHeader h i"
  "u_next h i x = setNext h i x" "u_prev h i x = setPrev h i x"
  "u_makeAvail h i n = makeAvail h i n" "u_makeTaken h i n = makeTaken h i n"
  "u_isAvail h i = isAvail h i" "u_isTaken h i = isTaken h i" "u_request_ints b = request_ints b"
  by (simp_all add: u_size_def u_abs_def hsize_def habs_def u_headerFromFooter_def headerFromFooter_def
      u_footerFromHeader_def footerFromHeader_def u_next_def setNext_def u_prev_def setPrev_def
      u_makeAvail_def makeAvail_def u_makeTaken_def makeTaken_def u_isAvail_def isAvail_def u_isTaken_def isTaken_def
      u_request_ints_def request_ints_def Let_def)

lemma u_remove_same: "hremove h i = Inr (u_remove h i)"
  by (simp add: hremove_def u_remove_def prev1_def next1_def Let_def)

lemma u_take_same: "take_block h p (hsize h p) ints = Inr (fst (u_take h p ints))"
  by (simp add: take_block_def u_take_def u_remove_same Let_def)

lemma u_take_ptr: "snd (u_take h p ints) = cell_ptr (fst (u_take h p ints)) (p + 1)"
  by (simp add: u_take_def Let_def)

lemma u_free_block_same: "free_block h idx = (if isTaken h idx then Inr (u_free_block h idx) else Inl (Panic ''freeing free block''))"
  by (simp add: free_block_def u_free_block_def u_remove_same u_left_def u_right_def Let_def)

subsection \<open>First fit\<close>

lemma u_malloc_loop_eq:
  assumes "dll (array h) prv p fs" "\<And>f. f \<in> set fs \<Longrightarrow> 0 < array h f"
  shows "u_malloc_loop h ints p =
    (case fitting h ints fs of [] \<Rightarrow> Some (h, 0) | f # _ \<Rightarrow> Some (u_take h f ints))"
  using assms
proof (induction fs arbitrary: prv p)
  case Nil
  then show ?case by (subst u_malloc_loop.simps) (simp add: fitting_def)
next
  case (Cons f fs)
  have f: "p = f" "f \<noteq> 0" "dll (array h) f (array h (f + 1)) fs" "0 < array h f" using Cons.prems by auto
  then have sz: "hsize h f = array h f" by (simp add: hsize_def habs_def)
  show ?case
    using f sz Cons.IH [OF f(3)] Cons.prems(2) by (subst u_malloc_loop.simps) (simp add: fitting_def next1_def)
qed

text \<open>The array lies in one half of the address space, where signed differences of addresses are right.\<close>

definition one_half :: "heap \<Rightarrow> bool" where
  "one_half h \<longleftrightarrow> 2 ^ 31 \<le> uint (hbase h) \<or> uint (hbase h) + 4 * hlen h < 2 ^ 31"

definition u_live :: "heap \<Rightarrow> (u32 \<times> int) set \<Rightarrow> bool" where
  "u_live h L \<longleftrightarrow> heap_live h L \<and> one_half h"

lemma u_take_live:
  assumes inv: "heap_inv h mid fs" and f: "f \<in> set fs" "request_ints b \<le> array h f"
  defines "h' \<equiv> fst (u_take h f (request_ints b))" and "p \<equiv> snd (u_take h f (request_ints b))"
  shows "hbase h' = hbase h \<and> hlen h' = hlen h \<and> keeps_cells heap_cell h h' (heap_blocks h mid) \<and> p \<noteq> 0 \<and>
    p \<notin> fst ` heap_blocks h mid \<and>
    (\<exists>k. request_ints b - 2 \<le> k \<and> heap_live h' (insert (p, k) (heap_blocks h mid)))"
proof -
  have sz: "hsize h f = array h f" using heap_free_blocks [OF inv f(1)] by (auto simp: hsize_def habs_def)
  from take_free_block [OF inv f(1) request_ints_ge f(2)] obtain xs n ys h1 fs' where
    t: "mid = xs @ (n, False) # ys" "f = 2 + bsum xs" "request_ints b \<le> n"
      "take_block h f (array h f) (request_ints b) = Inr h1" "heap_inv h1 (xs @ split_block (request_ints b) n @ ys) fs'"
      "agree (payload 0 ((2, True) # mid)) h h1" "hbase h1 = hbase h" "hlen h1 = hlen h" by blast
  have "h' = h1" using t(4) u_take_same [of h f "request_ints b"] sz by (simp add: h'_def)
  moreover have "p = cell_ptr h1 (2 + bsum xs + 1)"
    using u_take_ptr [of h f "request_ints b"] t(2) calculation by (simp add: p_def h'_def)
  ultimately show ?thesis
    using take_live [OF inv [unfolded t(1)] t(3,5) t(6) [unfolded t(1)] t(7)] t(1,7,8) by simp
qed

lemma u_malloc_fitting:
  assumes inv: "heap_inv h mid fs" and b: "b \<noteq> 0"
  shows "u_malloc h b = (case fitting h (request_ints b) fs of [] \<Rightarrow> Some (h, 0)
    | f # _ \<Rightarrow> Some (u_take h f (request_ints b)))"
proof -
  have "0 < array h f" if "f \<in> set fs" for f using heap_free_blocks [OF inv that] by auto
  then show ?thesis
    using b u_malloc_loop_eq [of h 0 "havail h" fs] inv by (simp add: u_malloc_def heap_inv_def Let_def)
qed

lemma u_alloc_contract:
  assumes live: "u_live h L" and b: "b \<noteq> 0"
  shows "\<exists>h' p. map_option Inr (u_malloc h b) = Some (Inr (h', p) :: (heap \<times> u32) result) \<and> keeps_cells heap_cell h h' L \<and>
    (p = 0 \<and> h' = h \<or>
     p \<noteq> 0 \<and> p \<notin> fst ` L \<and> (\<exists>n. request_ints b - 2 \<le> n \<and> u_live h' (insert (p, n) L)))"
proof -
  obtain mid fs where inv: "heap_inv h mid fs" and L: "L = heap_blocks h mid"
    using live by (auto simp: u_live_def heap_live_def)
  note loop = u_malloc_fitting [OF inv b]
  show ?thesis
  proof (cases "fitting h (request_ints b) fs")
    case Nil
    then show ?thesis using loop by simp
  next
    case (Cons f rest)
    then have "f \<in> set (fitting h (request_ints b) fs)" by simp
    then have f: "f \<in> set fs" "request_ints b \<le> array h f" by (auto simp: fitting_def)
    obtain h' p where t: "u_take h f (request_ints b) = (h', p)" by force
    have "one_half h'" using live u_take_live [OF inv f] t by (simp add: u_live_def one_half_def)
    then show ?thesis
      using u_take_live [OF inv f] Cons loop L t by (auto simp: u_live_def)
  qed
qed

lemma sint_uint32: "sint (x :: u32) = (if uint x < 2 ^ 31 then uint x else uint x - 2 ^ 32)"
proof -
  have x: "0 \<le> uint x" "uint x < 2 ^ 32" using uint_bounded [of x] by simp_all
  have s: "sint x = (uint x + 2 ^ 31) mod 2 ^ 32 - 2 ^ 31"
    by (simp add: sint_uint signed_take_bit_eq_take_bit_shift take_bit_eq_mod)
  show ?thesis
  proof (cases "uint x < 2 ^ 31")
    case True
    then have "(uint x + 2 ^ 31) mod 2 ^ 32 = uint x + 2 ^ 31" using x by (intro mod_pos_pos_trivial) auto
    then show ?thesis using s True by simp
  next
    case False
    have "(uint x + 2 ^ 31) mod 2 ^ 32 = (uint x + 2 ^ 31 - 2 ^ 32) mod 2 ^ 32" by (simp only: minus_mod_self2)
    also have "\<dots> = uint x + 2 ^ 31 - 2 ^ 32" using x False by (intro mod_pos_pos_trivial) auto
    finally show ?thesis using s False by simp
  qed
qed

lemma u_index_same:
  assumes "one_half h" "0 \<le> i" "i < hlen h" "uint (hbase h) + 4 * hlen h < 2 ^ 32"
  shows "u_index h (cell_ptr h i) = i - 1"
proof -
  have "uint (cell_ptr h i) = uint (hbase h) + 4 * i" by (rule cell_ptr_uint [OF assms(2-4)])
  then have "sint (cell_ptr h i) - sint (hbase h) = 4 * i"
    using assms by (auto simp: sint_uint32 one_half_def)
  then show ?thesis using assms(2) by (simp add: u_index_def Let_def)
qed

lemma u_dealloc_contract:
  assumes live: "u_live h L" and p: "(p, n) \<in> L"
  shows "hfree h p = Inr (u_free h p) \<and> (\<exists>h'. Inr (u_free h p) = (Inr h' :: heap result) \<and> u_live h' (L - {(p, n)}) \<and> keeps_cells heap_cell h h' (L - {(p, n)}))"
proof -
  have hl: "heap_live h L" "one_half h" using live by (simp_all add: u_live_def)
  obtain h' where h': "hfree h p = Inr h'" "heap_live h' (L - {(p, n)})" "keeps_cells heap_cell h h' (L - {(p, n)})"
    using heap_dealloc_contract [OF hl(1) p] by blast
  obtain mid fs where inv: "heap_inv h mid fs" and L: "L = heap_blocks h mid" using hl(1) by (auto simp: heap_live_def)
  then obtain i m where im: "(i, m) \<in> taken_blocks 2 mid" "p = cell_ptr h (i + 1)" using p by (auto simp: heap_blocks_def)
  obtain xs ys where mid: "mid = xs @ (m, True) # ys" "i = 2 + bsum xs" using taken_blocks_split [OF im(1)] by blast
  note b = heap_inv_block [OF inv [unfolded mid(1)]]
  have "u_index h p = free_index h p"
    using u_index_same [OF hl(2), of "i + 1"] b(1-3,6) mid(2) im(2) inv by (simp add: heap_inv_def Let_def)
  then have "u_free h p = h'"
    using h'(1) b(4,5) im(2) mid(2) by (auto simp: hfree_def u_free_def u_free_block_same split: if_splits)
  moreover have "one_half h'"
    using hfree_spec [OF inv [unfolded mid(1)]] h'(1) hl(2) im(2) mid(2) by (auto simp: one_half_def)
  ultimately show ?thesis using h'(1,2,3) by (simp add: u_live_def)
qed

interpretation uheap: block_allocator u_live "\<lambda>h b. map_option Inr (u_malloc h b)" "\<lambda>h p. Inr (u_free h p)" heap_cell
  "\<lambda>b. request_ints b - 2"
  by unfold_locales (blast intro: u_alloc_contract dest: u_dealloc_contract)+

text \<open>Both allocators fail on the same requests.\<close>

lemma u_malloc_fails_same:
  assumes live: "u_live h L" and b: "b \<noteq> 0"
  shows "u_malloc h b = Some (h, 0) \<longleftrightarrow> malloc h b = Some (Inr (h, 0))"
proof -
  obtain mid fs where inv: "heap_inv h mid fs" using live by (auto simp: u_live_def heap_live_def)
  note loop = u_malloc_fitting [OF inv b]
  show ?thesis
  proof (cases "\<exists>(n, t) \<in> set mid. \<not> t \<and> request_ints b \<le> n")
    case False
    then have none: "\<forall>(n, t) \<in> set mid. \<not> t \<longrightarrow> n < request_ints b" by force
    show ?thesis using malloc_null [OF inv b none] fitting_empty [OF inv none] loop by simp
  next
    case True
    obtain f rest where f: "fitting h (request_ints b) fs = f # rest"
      using fitting_nonempty [OF inv True] by (cases "fitting h (request_ints b) fs") auto
    then have ff: "f \<in> set fs" "request_ints b \<le> array h f"
      using list.set_intros(1) [of f rest] by (auto simp: fitting_def simp flip: f)
    obtain xs n ys h' fs' where m: "mid = xs @ (n, False) # ys" "request_ints b \<le> n"
        "malloc h b = Some (Inr (h', cell_ptr h' (2 + bsum xs + 1)))"
        "heap_inv h' (xs @ split_block (request_ints b) n @ ys) fs'"
        "agree (payload 0 ((2, True) # mid)) h h'" "hbase h' = hbase h"
      using malloc_block [OF inv b True] by blast
    have "cell_ptr h' (2 + bsum xs + 1) \<noteq> 0"
      using take_live [OF inv [unfolded m(1)] m(2,4) m(5) [unfolded m(1)] m(6)] by simp
    then have "malloc h b \<noteq> Some (Inr (h, 0))" using m(3) by auto
    moreover have "u_malloc h b \<noteq> Some (h, 0)"
      using loop f u_take_live [OF inv ff] by (auto simp: prod_eq_iff)
    ultimately show ?thesis by simp
  qed
qed


lemma hlen_make [simp]:
  "hlen (makeTaken h i n) = hlen h" "hbase (makeTaken h i n) = hbase h"
  "hlen (makeAvail h i n) = hlen h" "hbase (makeAvail h i n) = hbase h"
  by (simp_all add: makeTaken_def makeAvail_def put_def setNext_def setPrev_def Let_def)

lemma heap_init_live:
  assumes "2 ^ 31 \<le> uint base" "uint base + 4 * INTS < 2 ^ 32"
  shows "u_live (heap_init base cells) {}"
proof -
  let ?h = "\<lparr>array = cells, hlen = 0, havail = 0, hbase = base\<rparr>"
  have e: "heap_init base cells = heap_layout ?h base 0x400000"
    by (simp add: heap_init_def heap_layout_def INTS_def Let_def)
  have "heap_inv (heap_layout ?h base 0x400000) [(INTS - 4, False)] [2]"
    using heap_layout_inv [of ?h "0x400000" base] assms by (simp add: INTS_def)
  moreover have "heap_blocks (heap_init base cells) [(INTS - 4, False)] = {}" by (simp add: heap_blocks_def)
  ultimately have "heap_live (heap_init base cells) {}" unfolding e heap_live_def by metis
  moreover have "one_half (heap_init base cells)"
    using assms by (simp add: one_half_def heap_init_def Let_def)
  ultimately show ?thesis by (simp add: u_live_def)
qed

text \<open>\<^bold>\<open>C30.\<close> The first-fit heap of user programs and the best-fit heap of the kernel are interchangeable. On a
  consistent heap in one half of the address space, the user \<open>malloc\<close> returns for every request; it returns null
  exactly when the kernel's \<open>malloc\<close> does, and then changes nothing; otherwise it returns a block that was
  not in use and is as large as asked for, keeps every word of the blocks in use, and leaves a consistent heap;
  \<open>free\<close> of that block leaves a consistent heap with the original blocks in use.
  \<open>free\<close> of a block in use changes the heap exactly as the kernel's \<open>free\<close> does, without the kernel's panics.
  \<open>heap_init\<close> builds a consistent heap with no block in use, whatever the array held, if the program is linked
  to have it in the upper half, as the user programs are.\<close>

theorem user_heap_equivalent:
  assumes live: "u_live h L" and b: "b \<noteq> 0" and base: "2 ^ 31 \<le> uint base" "uint base + 4 * INTS < 2 ^ 32"
  shows "(\<exists>h' p. u_malloc h b = Some (h', p) \<and>
      (p = 0 \<longleftrightarrow> malloc h b = Some (Inr (h, 0))) \<and> (p = 0 \<longrightarrow> h' = h) \<and> keeps_cells heap_cell h h' L \<and>
      (p \<noteq> 0 \<longrightarrow> p \<notin> fst ` L \<and> (\<exists>n. request_ints b - 2 \<le> n \<and> u_live h' (insert (p, n) L)) \<and>
        u_live (u_free h' p) L \<and> keeps_cells heap_cell h (u_free h' p) L)) \<and>
    (\<forall>(q, n) \<in> L. hfree h q = Inr (u_free h q) \<and> u_live (u_free h q) (L - {(q, n)}) \<and>
      keeps_cells heap_cell h (u_free h q) (L - {(q, n)})) \<and>
    u_live (heap_init base cells) {}"
proof (intro conjI)
  obtain h' p where m: "u_malloc h b = Some (h', p)" "keeps_cells heap_cell h h' L"
    "p = 0 \<and> h' = h \<or> p \<noteq> 0 \<and> p \<notin> fst ` L \<and> (\<exists>n. request_ints b - 2 \<le> n \<and> u_live h' (insert (p, n) L))"
    using u_alloc_contract [OF live b] by auto
  have z: "p = 0 \<longleftrightarrow> malloc h b = Some (Inr (h, 0))" using u_malloc_fails_same [OF live b] m(1,3) by auto
  have "u_live (u_free h' p) L \<and> keeps_cells heap_cell h (u_free h' p) L" if "p \<noteq> 0"
    using uheap.alloc_dealloc [OF live b, of h' p] m(1) that by simp
  then show "\<exists>h' p. u_malloc h b = Some (h', p) \<and>
      (p = 0 \<longleftrightarrow> malloc h b = Some (Inr (h, 0))) \<and> (p = 0 \<longrightarrow> h' = h) \<and> keeps_cells heap_cell h h' L \<and>
      (p \<noteq> 0 \<longrightarrow> p \<notin> fst ` L \<and> (\<exists>n. request_ints b - 2 \<le> n \<and> u_live h' (insert (p, n) L)) \<and>
        u_live (u_free h' p) L \<and> keeps_cells heap_cell h (u_free h' p) L)"
    using m z by (intro exI [of _ h'] exI [of _ p]) auto
  show "\<forall>(q, n) \<in> L. hfree h q = Inr (u_free h q) \<and> u_live (u_free h q) (L - {(q, n)}) \<and>
      keeps_cells heap_cell h (u_free h q) (L - {(q, n)})"
    using u_dealloc_contract [OF live] by blast
  show "u_live (heap_init base cells) {}" by (rule heap_init_live [OF base])
qed

theorem user_heap_equivalent_witness:
  "\<exists>h p n. u_malloc sample_heap 100 = Some (h, p) \<and> p \<noteq> 0 \<and> u_live h {(p, n)} \<and>
    hfree h p = Inr (u_free h p) \<and> u_live (u_free h p) {} \<and> u_live (heap_init 0x80010000 (\<lambda>_. 7)) {}"
proof -
  have o: "one_half sample_heap"
    by (simp add: one_half_def sample_heap_def heap_layout_def Let_def)
  have live: "u_live sample_heap {}" using sample_heap_live o by (simp add: u_live_def)
  obtain k q where k: "malloc sample_heap 100 = Some (Inr (k, q))" "q \<noteq> 0" by (rule sample_heap_block) blast
  note base = user_heap_equivalent [where base = "0x80010000" and cells = "\<lambda>_. 7" and b = 100, simplified INTS_def, simplified]
  obtain h p n where m: "u_malloc sample_heap 100 = Some (h, p)" "p \<noteq> 0" "u_live h {(p, n)}" "u_live (u_free h p) {}"
    using base [OF live] k by auto
  then show ?thesis using base [OF m(3)] by auto
qed

end
