(* ===== verification/User_Realloc.thy ===== *)
theory User_Realloc
  imports User_Heap
begin

text \<open>
  \<^verbatim>\<open>realloc\<close> of the heap of user programs (\<^verbatim>\<open>t0.dir/sbin/heap.c\<close>), which copies a block byte by byte with the \<^verbatim>\<open>memcpy\<close> of
  \<^verbatim>\<open>t0.dir/sbin/machine.S\<close>, and what it rests on: a program that writes only inside blocks it was given leaves the heap consistent.
\<close>

unbundle bit_operations_syntax

subsection \<open>Bytes, memcpy and realloc (heap.c, machine.S)\<close>

definition get_byte :: "int \<Rightarrow> nat \<Rightarrow> u8" where
  "get_byte v k = ucast (drop_bit (8 * k) (word_of_int v :: u32))"

definition set_byte :: "int \<Rightarrow> nat \<Rightarrow> u8 \<Rightarrow> int" where
  "set_byte v k b = sint (((word_of_int v :: u32) AND NOT (push_bit (8 * k) 0xff)) OR push_bit (8 * k) (ucast b))"

text \<open>A byte at an address inside the array, which holds its cells in little-endian order.\<close>

definition u_load8 :: "heap \<Rightarrow> u32 \<Rightarrow> u8" where
  "u_load8 h a = (let d = uint (a - hbase h) in get_byte (array h (d div 4)) (nat (d mod 4)))"

definition u_store8 :: "heap \<Rightarrow> u32 \<Rightarrow> u8 \<Rightarrow> heap" where
  "u_store8 h a b = (let d = uint (a - hbase h) in put h (d div 4) (set_byte (array h (d div 4)) (nat (d mod 4)) b))"

primrec u_memcpy :: "nat \<Rightarrow> heap \<Rightarrow> u32 \<Rightarrow> u32 \<Rightarrow> heap" where
  "u_memcpy 0 h dest src = h"
| "u_memcpy (Suc n) h dest src = u_memcpy n (u_store8 h dest (u_load8 h src)) (dest + 1) (src + 1)"

definition u_realloc :: "heap \<Rightarrow> u32 \<Rightarrow> u32 \<Rightarrow> (heap \<times> u32) option" where
  "u_realloc h p newSize =
     (if p = 0 then u_malloc h newSize
      else if newSize = 0 then Some (u_free h p, 0)
      else let idx = u_index h p in
        if \<not> u_isTaken h idx then Some (h, 0)
        else let sz = u_size h idx * 4 in
          case u_malloc h newSize of
            None \<Rightarrow> None
          | Some (h, newPtr) \<Rightarrow>
              let h = (if newPtr \<noteq> 0
                       then let m = (if uint newSize > sz then sz else uint newSize) in u_memcpy (nat m) h newPtr p
                       else h)
              in Some (u_free h p, newPtr))"

text \<open>A byte of a block.\<close>

definition block_byte :: "heap \<Rightarrow> u32 \<Rightarrow> nat \<Rightarrow> u8" where
  "block_byte h p i = get_byte (heap_cell h p (int i div 4)) (i mod 4)"

subsection \<open>Writing to blocks\<close>

lemma tags_payload_disjoint: "wide bs \<Longrightarrow> tags i bs \<inter> payload i bs = {}"
proof (induction i bs rule: tags.induct)
  case (2 i n t bs)
  then have w: "wide bs" "2 \<le> n" by auto
  have lo: "i + n \<le> k" if "k \<in> tags (i + n) bs \<union> payload (i + n) bs" for k
    using that cells_range(1,2) [OF w(1), of "i + n"] by auto
  then have "{i, i + n - 1} \<inter> payload (i + n) bs = {}" "tags (i + n) bs \<inter> {i + 1..i + n - 2} = {}" using w(2) by fastforce+
  moreover have "tags (i + n) bs \<inter> payload (i + n) bs = {}" using 2 by simp
  moreover have "{i, i + n - 1} \<inter> {i + 1..i + n - 2} = {}" by auto
  ultimately show ?case by (auto split: if_splits)
qed simp

text \<open>A program that changes only cells of blocks it holds leaves the heap consistent.\<close>

lemma heap_inv_write:
  assumes inv: "heap_inv h mid fs" and same: "\<And>k. k \<notin> payload 0 ((2, True) # mid @ [(2, True)]) \<Longrightarrow> array h' k = array h k"
    and f: "hlen h' = hlen h" "havail h' = havail h" "hbase h' = hbase h"
  shows "heap_inv h' mid fs"
proof -
  let ?bs = "(2, True) # mid @ [(2, True)]"
  have w: "wide ?bs" and t: "tiled (array h) 0 ?bs (hlen h)" and d: "dll (array h) 0 (havail h) fs" "set fs = free_starts 0 ?bs"
    using inv by (auto simp: heap_inv_def Let_def intro!: wide4)
  have "tiled (array h') 0 ?bs (hlen h)"
    using tags_payload_disjoint [OF w, of 0] same by (intro tiled_frame [OF t]) auto
  moreover have "dll (array h') 0 (havail h) fs"
  proof (rule dll_frame [OF d(1)])
    fix g assume "g \<in> set fs"
    then have "{g + 1, g + 2} \<subseteq> links (free_starts 0 ?bs)" using d(2) by (auto simp: links_def)
    then have "g + 1 \<notin> payload 0 ?bs" "g + 2 \<notin> payload 0 ?bs" using links_disjoint [OF w, of 0] by auto
    then show "array h' (g + 1) = array h (g + 1) \<and> array h' (g + 2) = array h (g + 2)" using same by blast
  qed
  ultimately show ?thesis using inv f by (simp add: heap_inv_def Let_def)
qed

lemma taken_blocks_apart:
  "wide bs \<Longrightarrow> (j, c) \<in> taken_blocks i bs \<Longrightarrow> (k, d) \<in> taken_blocks i bs \<Longrightarrow> j \<noteq> k \<Longrightarrow> j + c \<le> k \<or> k + d \<le> j"
proof (induction i bs rule: taken_blocks.induct)
  case (2 i n t bs)
  have w: "wide bs" using 2 by simp
  note lo = taken_blocks_range(1) [OF _ w]
  show ?case using 2 lo [of j c "i + n"] lo [of k d "i + n"] by (auto split: if_splits)
qed simp

lemma taken_blocks_fun: "wide bs \<Longrightarrow> (j, c) \<in> taken_blocks i bs \<Longrightarrow> (j, d) \<in> taken_blocks i bs \<Longrightarrow> c = d"
proof (induction i bs rule: taken_blocks.induct)
  case (2 i n t bs)
  have w: "wide bs" "2 \<le> n" using 2 by auto
  note lo = taken_blocks_range(1) [OF _ w(1)]
  show ?case using 2 w lo [of j c "i + n"] lo [of j d "i + n"] by (auto split: if_splits)
qed simp

lemma heap_live_block:
  assumes inv: "heap_inv h mid fs" and q: "(q, m) \<in> heap_blocks h mid"
  obtains c where "(free_index h q, c) \<in> taken_blocks 2 mid" "m = c - 2" "q = cell_ptr h (free_index h q + 1)"
proof -
  note t = that
  obtain i c where ic: "(i, c) \<in> taken_blocks 2 mid" "q = cell_ptr h (i + 1)" "m = c - 2" using q by (auto simp: heap_blocks_def)
  obtain xs ys where "mid = xs @ (c, True) # ys" "i = 2 + bsum xs" using taken_blocks_split [OF ic(1)] by blast
  then have "free_index h q = i" using heap_inv_block(6) [of h xs c ys fs] inv ic(2) by simp
  then show thesis using t ic by simp
qed

lemma heap_live_fun:
  assumes "heap_live h L" "(q, m) \<in> L" "(q, n) \<in> L"
  shows "m = n"
proof -
  obtain mid fs where inv: "heap_inv h mid fs" and L: "L = heap_blocks h mid" using assms(1) by (auto simp: heap_live_def)
  have w: "wide mid" using inv by (auto simp: heap_inv_def Let_def intro!: wide4)
  obtain c where c: "(free_index h q, c) \<in> taken_blocks 2 mid" "m = c - 2" using heap_live_block [OF inv] assms(2) L by blast
  obtain d where d: "(free_index h q, d) \<in> taken_blocks 2 mid" "n = d - 2" using heap_live_block [OF inv] assms(3) L by blast
  show ?thesis using taken_blocks_fun [OF w c(1) d(1)] c(2) d(2) by simp
qed

lemma heap_live_put:
  assumes live: "heap_live h L" and b: "(p, n) \<in> L" and k: "0 \<le> k" "k < n"
  shows "heap_live (put h (free_index h p + 1 + k) v) L"
    and "(q, m) \<in> L \<Longrightarrow> 0 \<le> j \<Longrightarrow> j < m \<Longrightarrow>
      heap_cell (put h (free_index h p + 1 + k) v) q j = (if q = p \<and> j = k then v else heap_cell h q j)"
proof -
  obtain mid fs where inv: "heap_inv h mid fs" and L: "L = heap_blocks h mid" using live by (auto simp: heap_live_def)
  have w: "wide mid" using inv by (auto simp: heap_inv_def Let_def intro!: wide4)
  let ?x = "free_index h p + 1 + k"
  define i where "i = free_index h p"
  obtain c where ic: "(i, c) \<in> taken_blocks 2 mid" "free_index h p = i" "n = c - 2" "p = cell_ptr h (i + 1)"
    using heap_live_block [OF inv] b L unfolding i_def by blast
  have "?x \<in> payload 2 mid" using taken_blocks_payload [OF ic(1)] k ic(2,3) by auto
  then have "?x \<in> payload 0 ((2, True) # mid @ [(2, True)])" by (auto simp: payload_append)
  then have "heap_inv (put h ?x v) mid fs" by (intro heap_inv_write [OF inv]) auto
  moreover have "heap_blocks (put h ?x v) mid = heap_blocks h mid" by (rule heap_blocks_base) simp
  ultimately show "heap_live (put h ?x v) L" using L by (auto simp: heap_live_def)
  show "heap_cell (put h ?x v) q j = (if q = p \<and> j = k then v else heap_cell h q j)"
    if q: "(q, m) \<in> L" and j: "0 \<le> j" "j < m"
  proof -
    define i' where "i' = free_index h q"
    obtain c' where ic': "(i', c') \<in> taken_blocks 2 mid" "free_index h q = i'" "m = c' - 2" "q = cell_ptr h (i' + 1)"
      using heap_live_block [OF inv] q L unfolding i'_def by blast
    have fi: "free_index (put h ?x v) q = i'" using ic'(2) by (simp add: free_index_def)
    have ne: "i' + 1 + j \<noteq> i + 1 + k" if "q \<noteq> p"
    proof -
      have "i' \<noteq> i" using that ic'(4) ic(4) by auto
      then show ?thesis using taken_blocks_apart [OF _ ic'(1) ic(1)] w k j ic(3) ic'(3) by fastforce
    qed
    show ?thesis using fi ic'(2) ic(2) ne by (cases "q = p") (simp_all add: heap_cell_def)
  qed
qed


subsection \<open>Bytes of a block\<close>

lemma ff_mask: "(0xff :: u32) = mask 8"
  by (simp add: mask_eq_exp_minus_1)

lemma get_set_byte:
  assumes "i < 4" "k < 4"
  shows "get_byte (set_byte v k b) i = (if i = k then b else get_byte v i)"
proof -
  have 1: "8 * i + n < 32" if "n < 8" for n using that assms(1) by simp
  have 2: "k = i" if "8 * k \<le> 8 * i + n" "8 * i + n - 8 * k < 8" "n < 8" for n using that by linarith
  have 3: "m < 8" if "bit b m" for m using bit_imp_le_length [OF that] by simp
  show ?thesis
    unfolding get_byte_def set_byte_def ff_mask
    by (rule bit_word_eqI) (auto simp: bit_simps 1 dest: 2 dest!: 3)
qed


lemma block_offset:
  assumes live: "heap_live h L" and b: "(p, n) \<in> L" and i: "int i < 4 * n"
  shows "uint (p + of_nat i - hbase h) = 4 * (free_index h p + 1) + int i"
proof -
  obtain mid fs where inv: "heap_inv h mid fs" and L: "L = heap_blocks h mid" using live by (auto simp: heap_live_def)
  obtain j c where jc: "(j, c) \<in> taken_blocks 2 mid" "p = cell_ptr h (j + 1)" "n = c - 2" using b L by (auto simp: heap_blocks_def)
  obtain xs ys where mid: "mid = xs @ (c, True) # ys" "j = 2 + bsum xs" using taken_blocks_split [OF jc(1)] by blast
  note h = heap_inv_block [OF inv [unfolded mid(1)]]
  have top: "uint (hbase h) + 4 * hlen h < 2 ^ 32" using inv by (simp add: heap_inv_def Let_def)
  have fi: "free_index h p = j" using h(6) jc(2) mid(2) by simp
  have up: "uint p = uint (hbase h) + 4 * (j + 1)" unfolding jc(2) using h(1-3) mid(2) top by (intro cell_ptr_uint) auto
  have "p + of_nat i - hbase h = word_of_int (uint p + int i - uint (hbase h))" by simp
  also have "uint p + int i - uint (hbase h) = 4 * (j + 1) + int i" using up by simp
  finally have e: "p + of_nat i - hbase h = word_of_int (4 * (j + 1) + int i)" .
  have "4 * (j + 1) + int i < 4 * hlen h" using h(2) mid(2) jc(3) i by simp
  then have "4 * (j + 1) + int i < 2 ^ 32" using top uint_ge_0 [of "hbase h"] by linarith
  then show ?thesis unfolding e fi using h(1) mid(2) by (intro uint_word_of_int32) auto
qed

lemma cell_byte: "nat ((4 * x + int i) mod 4) = i mod 4"
proof -
  have "(4 * x + int i) mod 4 = int i mod 4" by (rule mod_mult_self4)
  then show ?thesis by (simp add: nat_mod_distrib)
qed

lemma block_load:
  assumes "heap_live h L" "(p, n) \<in> L" "int i < 4 * n"
  shows "u_load8 h (p + of_nat i) = block_byte h p i"
proof -
  have "uint (p + of_nat i - hbase h) = 4 * (free_index h p + 1) + int i" using block_offset [OF assms(1,2)] assms(3) by simp
  moreover have "(4 * (free_index h p + 1) + int i) div 4 = free_index h p + 1 + int i div 4" by simp
  moreover have "nat ((4 * (free_index h p + 1) + int i) mod 4) = i mod 4" by (rule cell_byte)
  ultimately show ?thesis by (simp add: u_load8_def block_byte_def heap_cell_def Let_def)
qed

lemma block_store:
  fixes b :: u8
  assumes live: "heap_live h L" and q: "(q, k) \<in> L" "int i < 4 * k"
  defines "h' \<equiv> u_store8 h (q + of_nat i) b"
  shows "heap_live h' L" "hbase h' = hbase h" "hlen h' = hlen h"
    and "(r, c) \<in> L \<Longrightarrow> r \<noteq> q \<Longrightarrow> 0 \<le> x \<Longrightarrow> x < c \<Longrightarrow> heap_cell h' r x = heap_cell h r x"
    and "int j < 4 * k \<Longrightarrow> block_byte h' q j = (if j = i then b else block_byte h q j)"
proof -
  let ?v = "set_byte (heap_cell h q (int i div 4)) (i mod 4) b"
  have off: "uint (q + of_nat i - hbase h) = 4 * (free_index h q + 1) + int i" using block_offset [OF live q(1)] q(2) by simp
  moreover have "(4 * (free_index h q + 1) + int i) div 4 = free_index h q + 1 + int i div 4" by simp
  moreover have "nat ((4 * (free_index h q + 1) + int i) mod 4) = i mod 4" by (rule cell_byte)
  ultimately have h': "h' = put h (free_index h q + 1 + int i div 4) ?v"
    by (simp add: h'_def u_store8_def heap_cell_def Let_def)
  have ik: "0 \<le> int i div 4" "int i div 4 < k" using q(2) by auto
  note w = heap_live_put [OF live q(1) ik, where v = ?v]
  show "heap_live h' L" unfolding h' by (rule w(1))
  show "hbase h' = hbase h" "hlen h' = hlen h" by (simp_all add: h')
  show "heap_cell h' r x = heap_cell h r x" if "(r, c) \<in> L" "r \<noteq> q" "0 \<le> x" "x < c"
    unfolding h' using w(2) [OF that(1,3,4)] that(2) by simp
  show "block_byte h' q j = (if j = i then b else block_byte h q j)" if j: "int j < 4 * k"
  proof -
    have "int j div 4 < k" using j by simp
    then have c: "heap_cell h' q (int j div 4) = (if int j div 4 = int i div 4 then ?v else heap_cell h q (int j div 4))"
      unfolding h' using w(2) [OF q(1), of "int j div 4"] by simp
    have d: "int j div 4 = int i div 4 \<longleftrightarrow> j div 4 = i div 4" by (metis of_nat_eq_iff of_nat_numeral zdiv_int)
    have "j = i" if "j div 4 = i div 4" "j mod 4 = i mod 4"
      using div_mult_mod_eq [of j 4] unfolding that div_mult_mod_eq by (rule sym)
    then show ?thesis unfolding block_byte_def c using get_set_byte [of "j mod 4" "i mod 4"] d by (cases "j = i") auto
  qed
qed

lemma memcpy_block:
  assumes "heap_live h L" "(q, k) \<in> L" "(p, m) \<in> L" "p \<noteq> q" "int (a + n) \<le> 4 * k"
  defines "h' \<equiv> u_memcpy n h (q + of_nat a) (p + of_nat a)"
  shows "heap_live h' L \<and> hbase h' = hbase h \<and> hlen h' = hlen h \<and>
    (\<forall>(r, c) \<in> L. r \<noteq> q \<longrightarrow> (\<forall>x. 0 \<le> x \<longrightarrow> x < c \<longrightarrow> heap_cell h' r x = heap_cell h r x)) \<and>
    (\<forall>j. int j < 4 * k \<longrightarrow> (j < a \<longrightarrow> block_byte h' q j = block_byte h q j) \<and>
      (a \<le> j \<longrightarrow> j < a + n \<longrightarrow> int j < 4 * m \<longrightarrow> block_byte h' q j = block_byte h p j))"
  using assms(1,5) unfolding h'_def
proof (induction n arbitrary: h a)
  case (Suc n)
  let ?b = "u_load8 h (p + of_nat a)" and ?h = "u_store8 h (q + of_nat a) (u_load8 h (p + of_nat a))"
  have a: "int a < 4 * k" using Suc.prems(2) by simp
  note st = block_store [OF Suc.prems(1) assms(2) a, where b = ?b]
  have e: "u_memcpy (Suc n) h (q + of_nat a) (p + of_nat a) = u_memcpy n ?h (q + of_nat (Suc a)) (p + of_nat (Suc a))"
    by (simp add: ac_simps)
  define h1 where "h1 = ?h"
  have live1: "heap_live h1 L" and n1: "int (Suc a + n) \<le> 4 * k" using st(1) Suc.prems(2) by (simp_all add: h1_def)
  define h2 where "h2 = u_memcpy n h1 (q + of_nat (Suc a)) (p + of_nat (Suc a))"
  note IH = Suc.IH [OF live1 n1, folded h2_def]
  have pb: "block_byte h1 p j = block_byte h p j" if "int j < 4 * m" for j
    using st(4) [OF assms(3,4), of "int j div 4"] that by (simp add: block_byte_def h1_def)
  have other: "heap_cell h2 r x = heap_cell h r x" if "(r, c) \<in> L" "r \<noteq> q" "0 \<le> x" "x < c" for r c x
    using IH st(4) [OF that] that by (fastforce simp: h1_def)
  have bytes: "(j < a \<longrightarrow> block_byte h2 q j = block_byte h q j) \<and>
      (a \<le> j \<longrightarrow> j < a + Suc n \<longrightarrow> int j < 4 * m \<longrightarrow> block_byte h2 q j = block_byte h p j)" if j: "int j < 4 * k" for j
  proof -
    have 1: "j < Suc a \<Longrightarrow> block_byte h2 q j = block_byte h1 q j"
      "Suc a \<le> j \<Longrightarrow> j < Suc a + n \<Longrightarrow> int j < 4 * m \<Longrightarrow> block_byte h2 q j = block_byte h1 p j" using IH j by auto
    have 2: "block_byte h1 q j = (if j = a then ?b else block_byte h q j)" unfolding h1_def by (rule st(5) [OF j])
    have 3: "?b = block_byte h p a" if "int a < 4 * m" using block_load [OF Suc.prems(1) assms(3) that] .
    show ?thesis using 1 2 3 pb by (cases "j = a") auto
  qed
  have base: "hbase h2 = hbase h" "hlen h2 = hlen h" "heap_live h2 L" using IH st(2,3) by (simp_all add: h1_def)
  show ?case unfolding e h1_def [symmetric] h2_def [symmetric] using base other bytes by blast
qed simp

lemma u_memcpy_live:
  assumes live: "heap_live h L" and q: "(q, k) \<in> L" and p: "(p, m) \<in> L" and ne: "p \<noteq> q" and n: "int n \<le> 4 * k"
  defines "h' \<equiv> u_memcpy n h q p"
  shows "heap_live h' L" "hbase h' = hbase h" "hlen h' = hlen h" "keeps_cells heap_cell h h' (L - {(q, k)})"
    and "j < n \<Longrightarrow> int j < 4 * m \<Longrightarrow> block_byte h' q j = block_byte h p j"
proof -
  note c = memcpy_block [OF live q p ne, of 0 n, simplified, OF n, folded h'_def]
  show "heap_live h' L" "hbase h' = hbase h" "hlen h' = hlen h" using c by blast+
  have "r \<noteq> q" if "(r, d) \<in> L - {(q, k)}" for r d using heap_live_fun [OF live q] that by blast
  then show "keeps_cells heap_cell h h' (L - {(q, k)})" using c by fast
  show "block_byte h' q j = block_byte h p j" if "j < n" "int j < 4 * m" using c that n by auto
qed


subsection \<open>realloc\<close>

lemma malloc_covers:
  assumes "request_ints b - 2 \<le> n" "b \<le> 0xFFFFFFFC"
  shows "uint b \<le> 4 * n"
proof -
  have "4 * (request_ints b - 2) \<le> 4 * n" using assms(1) by simp
  then show ?thesis using request_ints_covers [OF assms(2)] by simp
qed

lemma u_index_block:
  assumes live: "u_live h L" and p: "(p, n) \<in> L"
  shows "u_index h p = free_index h p" "p \<noteq> 0" "p \<noteq> hbase h" "u_isTaken h (u_index h p)" "u_size h (u_index h p) = n + 2" "0 \<le> n"
proof -
  have hl: "heap_live h L" "one_half h" using live by (simp_all add: u_live_def)
  obtain mid fs where inv: "heap_inv h mid fs" and L: "L = heap_blocks h mid" using hl(1) by (auto simp: heap_live_def)
  obtain i m where im: "(i, m) \<in> taken_blocks 2 mid" "p = cell_ptr h (i + 1)" "n = m - 2" using p L by (auto simp: heap_blocks_def)
  obtain xs ys where mid: "mid = xs @ (m, True) # ys" "i = 2 + bsum xs" using taken_blocks_split [OF im(1)] by blast
  note b = heap_inv_block [OF inv [unfolded mid(1)]]
  have ix: "u_index h p = i"
    using u_index_same [OF hl(2), of "i + 1"] b(1-3) mid(2) im(2) inv by (simp add: heap_inv_def Let_def)
  show "u_index h p = free_index h p" using ix b(6) im(2) mid(2) by simp
  show "p \<noteq> 0" "p \<noteq> hbase h" using b(4,5) im(2) mid(2) by simp_all
  have "array h i = - m"
    using inv mid by (simp add: heap_inv_def Let_def tiled_append)
  then show "u_isTaken h (u_index h p)" "u_size h (u_index h p) = n + 2" "0 \<le> n"
    using ix b(3) im(3) by (simp_all add: isTaken_def hsize_def habs_def)
qed


lemma keeps_mono: "keeps_cells cell a b L \<Longrightarrow> M \<subseteq> L \<Longrightarrow> keeps_cells cell a b M"
  by blast

lemma keeps_trans: "keeps_cells cell a b L \<Longrightarrow> keeps_cells cell b c L \<Longrightarrow> keeps_cells cell a c L"
  by fastforce

lemma keeps_bytes:
  assumes "keeps_cells heap_cell h h' L" "(p, n) \<in> L" "int j < 4 * n"
  shows "block_byte h' p j = block_byte h p j"
proof -
  have "int j div 4 < n" using assms(3) by simp
  then have "heap_cell h' p (int j div 4) = heap_cell h p (int j div 4)" using assms(1,2) by fastforce
  then show ?thesis by (simp add: block_byte_def)
qed

text \<open>
  \<^bold>\<open>C25.\<close> Resizing a block (\<^verbatim>\<open>realloc\<close> in heap.c). On a consistent heap, for a block in use and a size that is neither zero nor
  so large that the size computation wraps around, \<^verbatim>\<open>realloc\<close> returns. If it returns a pointer, the block behind it
  holds at least the bytes asked for, its first bytes are those of the old block as far as both reach, the
  old block is no longer in use and every other block keeps its contents; the heap is consistent. It returns null exactly when
  \<^verbatim>\<open>malloc\<close> does, and then the old block has been given back all the same, so its contents are lost.
\<close>

theorem realloc_correct:
  assumes live: "u_live h L" and p: "(p, n) \<in> L" and sz: "newSize \<noteq> 0" "newSize \<le> 0xFFFFFFFC"
  shows "\<exists>h' q. u_realloc h p newSize = Some (h', q) \<and> keeps_cells heap_cell h h' (L - {(p, n)}) \<and>
    (q = 0 \<longleftrightarrow> u_malloc h newSize = Some (h, 0)) \<and> (q = 0 \<longrightarrow> u_live h' (L - {(p, n)})) \<and>
    (q \<noteq> 0 \<longrightarrow> (\<exists>k. uint newSize \<le> 4 * k \<and> u_live h' (insert (q, k) (L - {(p, n)})) \<and> q \<notin> fst ` L) \<and>
      (\<forall>j. int j < uint newSize \<longrightarrow> int j < 4 * n \<longrightarrow> u_load8 h' (q + of_nat j) = u_load8 h (p + of_nat j)))"
proof -
  note ix = u_index_block [OF live p]
  obtain h1 q where m: "u_malloc h newSize = Some (h1, q)" "keeps_cells heap_cell h h1 L"
    "q = 0 \<and> h1 = h \<or> q \<noteq> 0 \<and> q \<notin> fst ` L \<and> (\<exists>k. request_ints newSize - 2 \<le> k \<and> u_live h1 (insert (q, k) L))"
    using u_alloc_contract [OF live sz(1)] by auto
  show ?thesis
  proof (cases "q = 0")
    case True
    then have "u_realloc h p newSize = Some (u_free h p, 0)" using m ix sz(1) by (simp add: u_realloc_def Let_def)
    moreover have "u_live (u_free h p) (L - {(p, n)})" "keeps_cells heap_cell h (u_free h p) (L - {(p, n)})"
      using u_dealloc_contract [OF live p] by blast+
    ultimately show ?thesis using True m by (intro exI [of _ "u_free h p"] exI [of _ 0]) auto
  next
    case False
    obtain k where k: "request_ints newSize - 2 \<le> k" "u_live h1 (insert (q, k) L)" "q \<notin> fst ` L" using m(3) False by auto
    define c where "c = nat (if uint newSize > (n + 2) * 4 then (n + 2) * 4 else uint newSize)"
    define h2 where "h2 = u_memcpy c h1 q p"
    have big: "uint newSize \<le> 4 * k" by (rule malloc_covers [OF k(1) sz(2)])
    have cb: "j < c" if "int j < uint newSize" "int j < 4 * n" for j
      unfolding c_def zless_nat_eq_int_zless using that by simp
    have ck: "int c \<le> 4 * k" using big ix(6) uint_ge_0 [of newSize] by (auto simp: c_def)
    have pq: "p \<noteq> q" using k(3) p by force
    have l1: "heap_live h1 (insert (q, k) L)" "one_half h1" using k(2) by (simp_all add: u_live_def)
    have pin: "(p, n) \<in> insert (q, k) L" and qin: "(q, k) \<in> insert (q, k) L" using p by simp_all
    note cp = u_memcpy_live [OF l1(1) qin pin pq ck, folded h2_def]
    have l2: "u_live h2 (insert (q, k) L)" using cp(1-3) l1(2) by (simp add: u_live_def one_half_def)
    define h3 where "h3 = u_free h2 p"
    have d: "u_live h3 (insert (q, k) L - {(p, n)})" "keeps_cells heap_cell h2 h3 (insert (q, k) L - {(p, n)})"
      using u_dealloc_contract [OF l2 pin] by (auto simp: h3_def)
    have e: "insert (q, k) L - {(p, n)} = insert (q, k) (L - {(p, n)})" using pq by auto
    have r: "u_realloc h p newSize = Some (h3, q)"
      using m(1) ix sz(1) False by (simp add: u_realloc_def Let_def h3_def h2_def c_def)
    let ?L = "L - {(p, n)}"
    have "(q, k) \<notin> L" using k(3) by force
    then have sub: "?L \<subseteq> insert (q, k) L - {(q, k)}" "?L \<subseteq> insert (q, k) L - {(p, n)}" "?L \<subseteq> L" by auto
    have kp: "keeps_cells heap_cell h h3 ?L"
      by (rule keeps_trans [OF keeps_trans [OF keeps_mono [OF m(2) sub(3)] keeps_mono [OF cp(4) sub(1)]] keeps_mono [OF d(2) sub(2)]])
    have "u_load8 h3 (q + of_nat j) = u_load8 h (p + of_nat j)" if j: "int j < uint newSize" "int j < 4 * n" for j
    proof -
      have jk: "int j < 4 * k" using j big by simp
      have "u_load8 h3 (q + of_nat j) = block_byte h3 q j"
        using d(1) jk unfolding u_live_def e by (intro block_load [of h3 "insert (q, k) (L - {(p, n)})"]) auto
      also have "\<dots> = block_byte h2 q j" using keeps_bytes [OF d(2) _ jk] pq by auto
      also have "\<dots> = block_byte h1 p j" using cp(5) cb [OF j] j(2) by blast
      also have "\<dots> = block_byte h p j" by (rule keeps_bytes [OF m(2) p j(2)])
      also have "\<dots> = u_load8 h (p + of_nat j)" using live p j(2) by (intro block_load [symmetric]) (auto simp: u_live_def)
      finally show ?thesis .
    qed
    then show ?thesis using r kp False m(1) d(1) big k(3) unfolding e
      by (intro exI [of _ h3] exI [of _ q]) auto
  qed
qed


theorem realloc_correct_witness:
  "\<exists>h p h' q. u_malloc sample_heap 100 = Some (h, p) \<and> p \<noteq> 0 \<and> u_realloc h p 40 = Some (h', q)"
proof -
  have o: "one_half sample_heap" by (simp add: one_half_def sample_heap_def heap_layout_def Let_def)
  have live: "u_live sample_heap {}" using sample_heap_live o by (simp add: u_live_def)
  obtain k r where k: "malloc sample_heap 100 = Some (Inr (k, r))" "r \<noteq> 0" by (rule sample_heap_block) blast
  obtain h p where m: "u_malloc sample_heap 100 = Some (h, p)" "p = 0 \<and> h = sample_heap \<or> p \<noteq> 0 \<and> (\<exists>n. u_live h {(p, n)})"
    using u_alloc_contract [OF live, of 100] by auto
  then have "p \<noteq> 0" using u_malloc_fails_same [OF live, of 100] k by auto
  then obtain n where n: "u_live h {(p, n)}" using m(2) by blast
  obtain h' q where "u_realloc h p 40 = Some (h', q)" using realloc_correct [OF n, of p n 40] by auto
  then show ?thesis using m(1) \<open>p \<noteq> 0\<close> by blast
qed

end
