(* ===== verification/User_Output.thy ===== *)
theory User_Output
  imports Snprintf
begin

text \<open>
  The output functions of user programs: \<^verbatim>\<open>t0.dir/sbin/libc.c\<close> and \<^verbatim>\<open>t0.dir/sbin/printf.c\<close>, whose formatter was derived from the
  same text as the kernel's \<^verbatim>\<open>snprintf.cc\<close> but emits each character with a system call of its own. The state of
  the world outside the program has type \<open>'w\<close>; the system calls \<^verbatim>\<open>write\<close> and \<^verbatim>\<open>read\<close> of \<^verbatim>\<open>sys.S\<close>, which enter the kernel, are
  functions on it.
\<close>

subsection \<open>Characters and lines (libc.c)\<close>

text \<open>\<open>write fd bytes w\<close> is the new world and the value returned; \<open>read fd n w\<close> gives also the bytes stored in the buffer.\<close>

type_synonym 'w sys_write = "int \<Rightarrow> u8 list \<Rightarrow> 'w \<Rightarrow> 'w \<times> int"

type_synonym 'w sys_read = "int \<Rightarrow> nat \<Rightarrow> 'w \<Rightarrow> 'w \<times> u8 list \<times> int"

definition putchar :: "'w sys_write \<Rightarrow> u8 \<Rightarrow> 'w \<Rightarrow> 'w \<times> int" where
  "putchar write c w = write 1 [c] w"

fun puts_loop :: "'w sys_write \<Rightarrow> u8 list \<Rightarrow> int \<Rightarrow> 'w \<Rightarrow> ('w \<times> int) result" where
  "puts_loop write [] n w = Inl (Undefined_Behaviour ''read past the end of the string'')"
| "puts_loop write (c # p) n w =
     (if c = 0 then Inr (fst (putchar write (ascii (CHR 0x0A)) w), n + 1)
      else case putchar write c w of (w, r) \<Rightarrow> if r < 0 then Inr (w, r) else puts_loop write p (n + 1) w)"

definition puts :: "'w sys_write \<Rightarrow> u8 list \<Rightarrow> 'w \<Rightarrow> ('w \<times> int) result" where
  "puts write p w = puts_loop write p 0 w"

subsection \<open>The formatter (printf.c)\<close>

text \<open>The sink is the world, with \<^verbatim>\<open>currlen\<close>. What \<^verbatim>\<open>putchar\<close> returns is not looked at.\<close>

record 'w usink =
  world :: 'w
  ulen :: int

definition u_dopr_outch :: "'w sys_write \<Rightarrow> 'w usink \<Rightarrow> u8 \<Rightarrow> 'w usink" where
  "u_dopr_outch write s c = \<lparr>world = fst (putchar write c (world s)), ulen = ulen s + 1\<rparr>"

definition u_put_all :: "'w sys_write \<Rightarrow> 'w usink \<Rightarrow> u8 list \<Rightarrow> 'w usink" where
  "u_put_all write s cs = foldl (u_dopr_outch write) s cs"

definition u_fmtstr :: "'w sys_write \<Rightarrow> 'w usink \<Rightarrow> u8 list option \<Rightarrow> u32 \<Rightarrow> int \<Rightarrow> int \<Rightarrow> 'w usink result" where
  "u_fmtstr write s val flags mn mx =
     rbind (case val of None \<Rightarrow> Inr (map ascii ''<NULL>'') | Some v \<Rightarrow> rbind (strlen v) (\<lambda>n. Inr (take n v))) (\<lambda>str.
     rbind (c_int (int (length str))) (\<lambda>strln.
     rbind (c_int (mn - strln)) (\<lambda>padlen.
      let padlen = (if padlen < 0 then 0 else padlen);
          padlen = (if flag flags DP_F_MINUS then - padlen else padlen);
          s = u_put_all write s (take (nat mx) (spaces padlen));
          cnt = (if padlen > 0 then min padlen (max mx 0) else 0);
          s = u_put_all write s (take (nat (mx - cnt)) str);
          cnt = cnt + min strln (max (mx - cnt) 0)
      in Inr (u_put_all write s (take (nat (mx - cnt)) (spaces (- padlen)))))))"

definition u_put_int :: "'w sys_write \<Rightarrow> 'w usink \<Rightarrow> u8 list \<Rightarrow> u8 list \<Rightarrow> int \<Rightarrow> int \<Rightarrow> u32 \<Rightarrow> 'w usink" where
  "u_put_int write s sign conv zpadlen spadlen flags =
     (let zpadlen = (if zpadlen < 0 then 0 else zpadlen);
          spadlen = (if spadlen < 0 then 0 else spadlen);
          zpadlen' = (if flag flags DP_F_ZERO then max zpadlen spadlen else zpadlen);
          spadlen' = (if flag flags DP_F_ZERO then 0 else spadlen);
          spadlen' = (if flag flags DP_F_MINUS then - spadlen' else spadlen');
          s = u_put_all write s (spaces spadlen');
          s = u_put_all write s sign;
          s = u_put_all write s (zeros zpadlen');
          s = u_put_all write s (rev conv)
      in u_put_all write s (spaces (- spadlen')))"

definition u_fmtint :: "'w sys_write \<Rightarrow> 'w usink \<Rightarrow> u32 \<Rightarrow> u32 \<Rightarrow> int \<Rightarrow> int \<Rightarrow> u32 \<Rightarrow> 'w usink result" where
  "u_fmtint write s val base mn mx flags =
     (let mx = (if mx < 0 then 0 else mx);
          neg = \<not> flag flags DP_F_UNSIGNED \<and> sint val < 0;
          sign = (if flag flags DP_F_UNSIGNED then []
                  else if neg then [ascii CHR ''-'']
                  else if flag flags DP_F_PLUS then [ascii CHR ''+'']
                  else if flag flags DP_F_SPACE then [ascii CHR '' ''] else [])
      in rbind (if neg then rbind (c_int (- sint val)) (\<lambda>v. Inr (word_of_int v)) else Inr val) (\<lambda>uvalue.
         let conv = convert 20 (flag flags DP_F_UP) base uvalue;
             conv = (if length conv = 20 then take 19 conv else conv);
             place = int (length conv)
         in rbind (c_int (mn - max mx place - int (length sign))) (\<lambda>spadlen.
            Inr (u_put_int write s sign conv (mx - place) spadlen flags))))"

definition u_fmtfp :: "'w sys_write \<Rightarrow> 'w usink \<Rightarrow> bool \<Rightarrow> (int \<Rightarrow> int \<times> int) \<Rightarrow> int \<Rightarrow> int \<Rightarrow> u32 \<Rightarrow> 'w usink result" where
  "u_fmtfp write s neg parts mn mx flags =
     (let mx = (if mx < 0 then 6 else mx);
          sign = (if neg then [ascii CHR ''-'']
                  else if flag flags DP_F_PLUS then [ascii CHR ''+'']
                  else if flag flags DP_F_SPACE then [ascii CHR '' ''] else []);
          mx = (if mx > 9 then 9 else mx);
          (intpart, fracpart) = parts mx;
          iconv = convert10 20 intpart;
          iconv = (if length iconv = 20 then take 19 iconv else iconv);
          fconv = convert10 20 fracpart;
          fconv = (if length fconv = 20 then take 19 fconv else fconv)
      in rbind (c_int (mn - int (length iconv) - mx - 1 - int (length sign))) (\<lambda>padlen.
      let zpadlen = mx - int (length fconv);
          zpadlen = (if zpadlen < 0 then 0 else zpadlen);
          padlen = (if padlen < 0 then 0 else padlen);
          padlen = (if flag flags DP_F_MINUS then - padlen else padlen);
          zero = flag flags DP_F_ZERO \<and> padlen > 0;
          s = (if zero then u_put_all write (u_put_all write s sign) (zeros (padlen - int (length sign))) else s);
          sign' = (if zero then [] else sign);
          padlen = (if zero then min 0 (padlen - int (length sign)) else padlen);
          s = u_put_all write s (spaces padlen);
          s = u_put_all write s sign';
          s = u_put_all write s (rev iconv);
          s = (if mx > 0 then u_put_all write (u_dopr_outch write s (ascii CHR ''.'')) (rev fconv) else s);
          s = u_put_all write s (zeros zpadlen)
      in Inr (u_put_all write s (spaces (- padlen)))))"

record 'w u_dopr_state =
  ud_state :: dp_state
  ud_flags :: u32
  ud_cflags :: dp_cflags
  ud_min :: int
  ud_max :: int
  ud_args :: "va_arg list"
  ud_sink :: "'w usink"
  ud_stores :: "(u32 \<times> int) list"

definition u_word_arg :: "'w u_dopr_state \<Rightarrow> (u32 \<Rightarrow> 'w u_dopr_state \<Rightarrow> 'a result) \<Rightarrow> 'a result" where
  "u_word_arg s f =
     (case ud_args s of Word_Arg w # as \<Rightarrow> f w (s\<lparr>ud_args := as\<rparr>) | _ \<Rightarrow> no_arg)"

definition u_on_sink :: "('w usink \<Rightarrow> 'w usink) \<Rightarrow> 'w u_dopr_state \<Rightarrow> 'w u_dopr_state" where
  "u_on_sink f s = s\<lparr>ud_sink := f (ud_sink s)\<rparr>"

definition u_on_sink_r :: "('w usink \<Rightarrow> 'w usink result) \<Rightarrow> 'w u_dopr_state \<Rightarrow> 'w u_dopr_state result" where
  "u_on_sink_r f s = rbind (f (ud_sink s)) (\<lambda>k. Inr (s\<lparr>ud_sink := k\<rparr>))"

definition u_conv_int :: "'w sys_write \<Rightarrow> u32 \<Rightarrow> u32 \<Rightarrow> 'w u_dopr_state \<Rightarrow> 'w u_dopr_state result" where
  "u_conv_int write base fl s =
     (let s = s\<lparr>ud_flags := ud_flags s OR fl\<rparr> in
      u_word_arg s (\<lambda>w s. u_on_sink_r (\<lambda>k. u_fmtint write k w base (ud_min s) (ud_max s) (ud_flags s)) s))"

definition u_dopr_conv :: "'w sys_write \<Rightarrow> int \<Rightarrow> u8 \<Rightarrow> 'w u_dopr_state \<Rightarrow> ('w u_dopr_state \<times> bool) result" where
  "u_dopr_conv write maxlen ch s =
     (let keep = (\<lambda>r. rbind r (\<lambda>s. Inr (s, False))) in
      if ch = ascii CHR ''d'' \<or> ch = ascii CHR ''i'' then keep (u_conv_int write 10 0 s)
      else if ch = ascii CHR ''o'' then keep (u_conv_int write 8 DP_F_UNSIGNED s)
      else if ch = ascii CHR ''u'' then keep (u_conv_int write 10 DP_F_UNSIGNED s)
      else if ch = ascii CHR ''X'' then keep (u_conv_int write 16 (DP_F_UP OR DP_F_UNSIGNED) s)
      else if ch = ascii CHR ''x'' then keep (u_conv_int write 16 DP_F_UNSIGNED s)
      else if ch = ascii CHR ''f'' then
        (case ud_args s of
           Fp_Arg neg parts # as \<Rightarrow>
             keep (u_on_sink_r (\<lambda>k. u_fmtfp write k neg parts (ud_min s) (ud_max s) (ud_flags s)) (s\<lparr>ud_args := as\<rparr>))
         | _ \<Rightarrow> no_arg)
      else if ch \<in> {ascii CHR ''E'', ascii CHR ''e'', ascii CHR ''G'', ascii CHR ''g''} then
        (case ud_args s of Fp_Arg neg parts # as \<Rightarrow> Inr (s\<lparr>ud_args := as\<rparr>, False) | _ \<Rightarrow> no_arg)
      else if ch = ascii CHR ''c'' then
        keep (u_word_arg s (\<lambda>w s. Inr (u_on_sink (\<lambda>k. u_dopr_outch write k (ucast w)) s)))
      else if ch = ascii CHR ''s'' then
        (case ud_args s of
           Str_Arg v # as \<Rightarrow>
             let mx = (if ud_max s < 0 then maxlen else ud_max s) in
             keep (u_on_sink_r (\<lambda>k. u_fmtstr write k v (ud_flags s) (ud_min s) mx) (s\<lparr>ud_args := as\<rparr>))
         | _ \<Rightarrow> no_arg)
      else if ch = ascii CHR ''p'' then keep (u_conv_int write 16 0 s)
      else if ch = ascii CHR ''n'' then
        keep (u_word_arg s (\<lambda>w s. Inr (s\<lparr>ud_stores := ud_stores s @ [(w, ulen (ud_sink s))]\<rparr>)))
      else if ch = ascii CHR ''%'' then Inr (u_on_sink (\<lambda>k. u_dopr_outch write k ch) s, False)
      else if ch = ascii CHR ''w'' then Inr (s, True)
      else Inr (s, False))"

definition u_dopr_reset :: "'w u_dopr_state \<Rightarrow> 'w u_dopr_state" where
  "u_dopr_reset s = s\<lparr>ud_state := DP_S_DEFAULT, ud_flags := 0, ud_cflags := DP_C_NONE, ud_min := 0, ud_max := - 1\<rparr>"

definition u_dopr_step :: "'w sys_write \<Rightarrow> int \<Rightarrow> u8 \<Rightarrow> 'w u_dopr_state \<Rightarrow> ('w u_dopr_state \<times> nat) result" where
  "u_dopr_step write maxlen ch s =
     (case ud_state s of
        DP_S_DEFAULT \<Rightarrow>
          if ch = ascii CHR ''%'' then Inr (s\<lparr>ud_state := DP_S_FLAGS\<rparr>, 1)
          else Inr (u_on_sink (\<lambda>k. u_dopr_outch write k ch) s, 1)
      | DP_S_FLAGS \<Rightarrow>
          if ch = ascii CHR ''-'' then Inr (s\<lparr>ud_flags := ud_flags s OR DP_F_MINUS\<rparr>, 1)
          else if ch = ascii CHR ''+'' then Inr (s\<lparr>ud_flags := ud_flags s OR DP_F_PLUS\<rparr>, 1)
          else if ch = ascii CHR '' '' then Inr (s\<lparr>ud_flags := ud_flags s OR DP_F_SPACE\<rparr>, 1)
          else if ch = ascii CHR ''#'' then Inr (s\<lparr>ud_flags := ud_flags s OR DP_F_NUM\<rparr>, 1)
          else if ch = ascii CHR ''0'' then Inr (s\<lparr>ud_flags := ud_flags s OR DP_F_ZERO\<rparr>, 1)
          else Inr (s\<lparr>ud_state := DP_S_MIN\<rparr>, 0)
      | DP_S_MIN \<Rightarrow>
          if isdigit (uint ch) then rbind (c_int (10 * ud_min s + (uint ch - 48))) (\<lambda>n. Inr (s\<lparr>ud_min := n\<rparr>, 1))
          else if ch = ascii CHR ''*'' then
            u_word_arg s (\<lambda>w s. Inr (s\<lparr>ud_min := sint w, ud_state := DP_S_DOT\<rparr>, 1))
          else Inr (s\<lparr>ud_state := DP_S_DOT\<rparr>, 0)
      | DP_S_DOT \<Rightarrow>
          if ch = ascii CHR ''.'' then Inr (s\<lparr>ud_state := DP_S_MAX\<rparr>, 1)
          else Inr (s\<lparr>ud_state := DP_S_MOD\<rparr>, 0)
      | DP_S_MAX \<Rightarrow>
          if isdigit (uint ch) then
            rbind (c_int (10 * (if ud_max s < 0 then 0 else ud_max s) + (uint ch - 48))) (\<lambda>n. Inr (s\<lparr>ud_max := n\<rparr>, 1))
          else if ch = ascii CHR ''*'' then
            u_word_arg s (\<lambda>w s. Inr (s\<lparr>ud_max := sint w, ud_state := DP_S_MOD\<rparr>, 1))
          else Inr (s\<lparr>ud_state := DP_S_MOD\<rparr>, 0)
      | DP_S_MOD \<Rightarrow>
          if ch = ascii CHR ''h'' then Inr (s\<lparr>ud_cflags := DP_C_SHORT, ud_state := DP_S_CONV\<rparr>, 1)
          else if ch = ascii CHR ''l'' then Inr (s\<lparr>ud_cflags := DP_C_LONG, ud_state := DP_S_CONV\<rparr>, 1)
          else if ch = ascii CHR ''L'' then Inr (s\<lparr>ud_cflags := DP_C_LDOUBLE, ud_state := DP_S_CONV\<rparr>, 1)
          else Inr (s\<lparr>ud_state := DP_S_CONV\<rparr>, 0)
      | DP_S_CONV \<Rightarrow>
          rbind (u_dopr_conv write maxlen ch s) (\<lambda>(s, skip). Inr (u_dopr_reset s, if skip then 2 else 1)))"

text \<open>The loop, as in the kernel: the head of the list is \<^verbatim>\<open>ch\<close>. Every state but the first leads on without a loop of its own.\<close>

lemma u_dopr_step_progress:
  assumes "u_dopr_step write maxlen ch s = Inr (s', n)"
  shows "n = 0 \<and> state_rank (ud_state s') < state_rank (ud_state s) \<or> 0 < n \<and> state_rank (ud_state s') < 8"
  using assms
  by (cases "ud_state s")
    (auto simp: u_dopr_step_def u_on_sink_def u_dopr_reset_def u_word_arg_def no_arg_def
      split: if_splits list.splits va_arg.splits)

function u_dopr_loop :: "'w sys_write \<Rightarrow> int \<Rightarrow> u8 list \<Rightarrow> 'w u_dopr_state \<Rightarrow> 'w u_dopr_state result" where
  "u_dopr_loop write maxlen [] s = Inl (Undefined_Behaviour ''read past the end of the format'')"
| "u_dopr_loop write maxlen (ch # rest) s =
     (if ch = 0 \<or> ulen (ud_sink s) \<ge> maxlen then Inr s
      else
        (case u_dopr_step write maxlen ch s of
           Inl e \<Rightarrow> Inl e
         | Inr (s', n) \<Rightarrow> u_dopr_loop write maxlen (drop n (ch # rest)) s'))"
  by pat_completeness auto

termination
proof (relation "measure (\<lambda>(write, m, cs, s). 8 * length cs + state_rank (ud_state s))", goal_cases)
  case (2 wr maxlen ch rest s r s' n)
  then have "n = 0 \<and> state_rank (ud_state s') < state_rank (ud_state s) \<or> 0 < n \<and> state_rank (ud_state s') < 8"
    by (intro u_dopr_step_progress) simp
  then show ?case by (cases n) auto
qed simp

declare u_dopr_loop.simps [simp del]

definition u_dopr :: "'w sys_write \<Rightarrow> int \<Rightarrow> u8 list \<Rightarrow> va_arg list \<Rightarrow> 'w \<Rightarrow> ('w \<times> (u32 \<times> int) list) result" where
  "u_dopr write maxlen format args w =
     rbind (u_dopr_loop write maxlen format
              \<lparr>ud_state = DP_S_DEFAULT, ud_flags = 0, ud_cflags = DP_C_NONE, ud_min = 0, ud_max = - 1,
               ud_args = args, ud_sink = \<lparr>world = w, ulen = 0\<rparr>, ud_stores = []\<rparr>)
       (\<lambda>d. rbind (c_int (ulen (ud_sink d))) (\<lambda>_. Inr (world (ud_sink d), ud_stores d)))"

definition vprintf :: "'w sys_write \<Rightarrow> u8 list \<Rightarrow> va_arg list \<Rightarrow> 'w \<Rightarrow> ('w \<times> (u32 \<times> int) list \<times> int) result" where
  "vprintf write fmt args w = rbind (u_dopr write 1000 fmt args w) (\<lambda>(w, stores). Inr (w, stores, 1))"

definition printf :: "'w sys_write \<Rightarrow> u8 list \<Rightarrow> va_arg list \<Rightarrow> 'w \<Rightarrow> ('w \<times> (u32 \<times> int) list \<times> int) result" where
  "printf write fmt args w = vprintf write fmt args w"

subsection \<open>Copying between descriptors (libc.c)\<close>

text \<open>The message about a failed call; \<open>line\<close> is the value of \<^verbatim>\<open>__LINE__\<close>.\<close>

definition cp_error :: "'w sys_write \<Rightarrow> string \<Rightarrow> u32 \<Rightarrow> int \<Rightarrow> 'w \<Rightarrow> 'w result" where
  "cp_error write what line fd w =
     rbind (printf write (map ascii (''*** %s:%d '' @ what @ '' error, fd = %d'') @ [10, 0])
              [Str_Arg (Some (map ascii ''libc.c'' @ [0])), Word_Arg line, Word_Arg (word_of_int fd)] w)
       (\<lambda>(w, stores, n). Inr w)"

text \<open>The inner loop; \<open>ptr\<close> are the bytes of the buffer from \<^verbatim>\<open>ptr\<close> on.\<close>

partial_function (option) cp_write :: "'w sys_write \<Rightarrow> int \<Rightarrow> u8 list \<Rightarrow> int \<Rightarrow> 'w \<Rightarrow> 'w result option" where
  "cp_write write to ptr n w =
     (if n > 0
      then let (w, m) = write to (take (nat n) ptr) w in
        if m < 0 then Some (cp_error write ''write'' 34 to w)
        else cp_write write to (drop (nat m) ptr) (n - m) w
      else Some (Inr w))"

partial_function (option) cp :: "'w sys_read \<Rightarrow> 'w sys_write \<Rightarrow> int \<Rightarrow> int \<Rightarrow> 'w \<Rightarrow> 'w result option" where
  "cp read write from to w =
     (let (w, buf, n) = read from 100 w in
      if n = 0 then Some (Inr w)
      else if n < 0 then Some (cp_error write ''read'' 27 from w)
      else (case cp_write write to buf n w of
              None \<Rightarrow> None
            | Some (Inl e) \<Rightarrow> Some (Inl e)
            | Some (Inr w) \<Rightarrow> cp read write from to w))"

subsection \<open>The kernel's formatter with another sink\<close>

text \<open>The world after writing the characters one at a time.\<close>

definition emit :: "'w sys_write \<Rightarrow> u8 list \<Rightarrow> 'w \<Rightarrow> 'w" where
  "emit write cs w = foldl (\<lambda>w c. fst (putchar write c w)) w cs"

definition to_world :: "'w sys_write \<Rightarrow> 'w \<Rightarrow> sink \<Rightarrow> 'w usink" where
  "to_world write w k = \<lparr>world = emit write (out k) w, ulen = currlen k\<rparr>"

lemma outch_to_world: "u_dopr_outch write (to_world write w k) c = to_world write w (dopr_outch k c)"
  by (simp add: u_dopr_outch_def to_world_def dopr_outch_def emit_def)

lemma put_all_to_world: "u_put_all write (to_world write w k) cs = to_world write w (put_all k cs)"
  by (induction cs arbitrary: k) (simp_all add: u_put_all_def put_all_def outch_to_world)

definition on_result :: "('a \<Rightarrow> 'b) \<Rightarrow> 'a result \<Rightarrow> 'b result" where
  "on_result f r = rbind r (\<lambda>x. Inr (f x))"

lemma on_result_simps [simp]: "on_result f (Inl e) = Inl e" "on_result f (Inr x) = Inr (f x)"
  by (simp_all add: on_result_def)

lemma rbind_assoc: "rbind (rbind r f) g = rbind r (\<lambda>x. rbind (f x) g)"
  by (cases r) simp_all

lemma on_result_rbind: "on_result f (rbind r g) = rbind r (\<lambda>x. on_result f (g x))"
  by (cases r) simp_all

lemma put_int_to_world: "u_put_int write (to_world write w k) sign conv z p flags = to_world write w (put_int k sign conv z p flags)"
  by (simp only: u_put_int_def put_int_def Let_def put_all_to_world)

lemma fmt_to_world:
  "u_fmtstr write (to_world write w k) v flags mn mx = on_result (to_world write w) (fmtstr k v flags mn mx)"
  "u_fmtint write (to_world write w k) x base mn mx flags = on_result (to_world write w) (fmtint k x base mn mx flags)"
  "u_fmtfp write (to_world write w k) neg parts mn mx flags = on_result (to_world write w) (fmtfp k neg parts mn mx flags)"
  by (simp_all only: u_fmtstr_def fmtstr_def u_fmtint_def fmtint_def u_fmtfp_def fmtfp_def Let_def case_prod_beta on_result_rbind on_result_simps
      put_all_to_world put_int_to_world outch_to_world if_distrib [of "to_world write w", symmetric])

definition of_kernel :: "'w sys_write \<Rightarrow> 'w \<Rightarrow> dopr_state \<Rightarrow> 'w u_dopr_state" where
  "of_kernel write w s = \<lparr>ud_state = dp_state s, ud_flags = dp_flags s, ud_cflags = dp_cflags s, ud_min = dp_min s,
     ud_max = dp_max s, ud_args = dp_args s, ud_sink = to_world write w (dp_sink s), ud_stores = dp_stores s\<rparr>"

lemma of_kernel_fields [simp]:
  "ud_state (of_kernel write w s) = dp_state s" "ud_flags (of_kernel write w s) = dp_flags s"
  "ud_min (of_kernel write w s) = dp_min s" "ud_max (of_kernel write w s) = dp_max s"
  "ud_args (of_kernel write w s) = dp_args s" "ud_stores (of_kernel write w s) = dp_stores s"
  "ulen (ud_sink (of_kernel write w s)) = currlen (dp_sink s)"
  by (simp_all add: of_kernel_def to_world_def)

lemma of_kernel_updates [simp]:
  "(of_kernel write w s)\<lparr>ud_state := a\<rparr> = of_kernel write w (s\<lparr>dp_state := a\<rparr>)"
  "(of_kernel write w s)\<lparr>ud_flags := b\<rparr> = of_kernel write w (s\<lparr>dp_flags := b\<rparr>)"
  "(of_kernel write w s)\<lparr>ud_cflags := c\<rparr> = of_kernel write w (s\<lparr>dp_cflags := c\<rparr>)"
  "(of_kernel write w s)\<lparr>ud_min := d\<rparr> = of_kernel write w (s\<lparr>dp_min := d\<rparr>)"
  "(of_kernel write w s)\<lparr>ud_max := e\<rparr> = of_kernel write w (s\<lparr>dp_max := e\<rparr>)"
  "(of_kernel write w s)\<lparr>ud_args := f\<rparr> = of_kernel write w (s\<lparr>dp_args := f\<rparr>)"
  "(of_kernel write w s)\<lparr>ud_stores := g\<rparr> = of_kernel write w (s\<lparr>dp_stores := g\<rparr>)"
  by (simp_all add: of_kernel_def)

lemma sink_of_kernel:
  "u_on_sink_r (\<lambda>k. u_fmtstr write k v fl mn mx) (of_kernel write w s) = on_result (of_kernel write w) (on_sink_r (\<lambda>k. fmtstr k v fl mn mx) s)"
  "u_on_sink_r (\<lambda>k. u_fmtint write k x base mn mx fl) (of_kernel write w s) =
     on_result (of_kernel write w) (on_sink_r (\<lambda>k. fmtint k x base mn mx fl) s)"
  "u_on_sink_r (\<lambda>k. u_fmtfp write k neg parts mn mx fl) (of_kernel write w s) =
     on_result (of_kernel write w) (on_sink_r (\<lambda>k. fmtfp k neg parts mn mx fl) s)"
  "u_on_sink (\<lambda>k. u_dopr_outch write k c) (of_kernel write w s) = of_kernel write w (on_sink (\<lambda>k. dopr_outch k c) s)"
  by (simp_all add: u_on_sink_def on_sink_def u_on_sink_r_def on_sink_r_def of_kernel_def fmt_to_world outch_to_world on_result_def rbind_def split: sum.split)

lemma conv_int_of_kernel: "u_conv_int write base fl (of_kernel write w s) = on_result (of_kernel write w) (conv_int base fl s)"
  by (simp add: u_conv_int_def conv_int_def u_word_arg_def sink_of_kernel no_arg_def Let_def split: list.split va_arg.split)

lemma keep_of_kernel:
  "rbind (on_result (of_kernel write w) r) (\<lambda>s. Inr (s, False)) = on_result (apfst (of_kernel write w)) (rbind r (\<lambda>s. Inr (s, False)))"
  by (cases r) simp_all

lemma dopr_conv_of_kernel:
  "u_dopr_conv write maxlen ch (of_kernel write w s) = on_result (apfst (of_kernel write w)) (dopr_conv maxlen ch s)"
proof (cases "dp_args s")
  case Nil
  then show ?thesis
    by (simp add: u_dopr_conv_def dopr_conv_def conv_int_of_kernel keep_of_kernel u_word_arg_def sink_of_kernel no_arg_def Let_def)
next
  case (Cons a as)
  then show ?thesis
    by (cases a) (simp_all add: u_dopr_conv_def dopr_conv_def conv_int_of_kernel keep_of_kernel u_word_arg_def sink_of_kernel no_arg_def Let_def)
qed

lemma dopr_reset_of_kernel: "u_dopr_reset (of_kernel write w s) = of_kernel write w (dopr_reset s)"
  by (simp add: u_dopr_reset_def dopr_reset_def)

lemma dopr_step_of_kernel:
  "u_dopr_step write maxlen ch (of_kernel write w s) = on_result (apfst (of_kernel write w)) (dopr_step maxlen ch s)"
proof (cases "dp_state s")
  case DP_S_CONV
  then show ?thesis
    by (cases "dopr_conv maxlen ch s") (auto simp: u_dopr_step_def dopr_step_def dopr_conv_of_kernel dopr_reset_of_kernel)
qed (simp_all add: u_dopr_step_def dopr_step_def u_word_arg_def sink_of_kernel no_arg_def on_result_rbind split: list.split va_arg.split)

lemma dopr_loop_of_kernel:
  "u_dopr_loop write maxlen cs (of_kernel write w s) = on_result (of_kernel write w) (dopr_loop maxlen cs s)"
proof (induction maxlen cs s rule: dopr_loop.induct)
  case (1 maxlen s)
  then show ?case by (simp add: dopr_loop.simps u_dopr_loop.simps)
next
  case (2 maxlen ch rest s)
  show ?case
  proof (cases "ch = 0 \<or> currlen (dp_sink s) \<ge> maxlen")
    case True
    then show ?thesis by (simp add: dopr_loop.simps u_dopr_loop.simps)
  next
    case False
    then show ?thesis
      using 2 by (auto simp: dopr_loop.simps(2) u_dopr_loop.simps(2) dopr_step_of_kernel split: sum.split)
  qed
qed

text \<open>
  \<^bold>\<open>C37.\<close> Formatted output of user programs (printf.c). Whatever \<^verbatim>\<open>write\<close> does, \<^verbatim>\<open>printf\<close> calls it once for each character, in order, for
  exactly the characters that the kernel's \<^verbatim>\<open>K::vsnprintf\<close> puts into its stream for the same format and arguments
  with the limit 1000; it stores the same counts for \<open>%n\<close>, has no meaning in the same cases, and always returns 1.
\<close>

theorem user_printf_equivalent:
  "printf write fmt args w =
     rbind (vsnprintf \<lparr>out = [], currlen = n\<rparr> 1000 fmt args) (\<lambda>(k, stores). Inr (emit write (out k) w, stores, 1))"
proof -
  let ?d = "\<lparr>dp_state = DP_S_DEFAULT, dp_flags = 0, dp_cflags = DP_C_NONE, dp_min = 0, dp_max = - 1, dp_args = args,
    dp_sink = \<lparr>out = [], currlen = 0\<rparr>, dp_stores = []\<rparr>"
  have i: "of_kernel write w ?d = \<lparr>ud_state = DP_S_DEFAULT, ud_flags = 0, ud_cflags = DP_C_NONE, ud_min = 0, ud_max = - 1,
      ud_args = args, ud_sink = \<lparr>world = w, ulen = 0\<rparr>, ud_stores = []\<rparr>"
    by (simp add: of_kernel_def to_world_def emit_def)
  have "u_dopr write 1000 fmt args w =
      rbind (dopr_loop 1000 fmt ?d) (\<lambda>d. rbind (c_int (currlen (dp_sink d))) (\<lambda>_. Inr (emit write (out (dp_sink d)) w, dp_stores d)))"
    unfolding u_dopr_def i [symmetric] dopr_loop_of_kernel
    by (cases "dopr_loop 1000 fmt ?d") (simp_all add: of_kernel_def to_world_def)
  then show ?thesis
    by (cases "dopr_loop 1000 fmt ?d") (simp_all add: printf_def vprintf_def vsnprintf_def dopr_def rbind_assoc)
qed

subsection \<open>What puts and cp do\<close>

lemma puts_text:
  assumes "\<forall>c \<in> set cs. c \<noteq> 0" "\<And>c w. 0 \<le> snd (putchar write c w)"
  shows "puts write (cs @ 0 # rest) w = Inr (emit write (cs @ [10]) w, int (length cs) + 1)"
proof -
  have "puts_loop write (cs @ 0 # rest) n w = Inr (emit write (cs @ [10]) w, n + int (length cs) + 1)" for n
    using assms(1)
  proof (induction cs arbitrary: n w)
    case (Cons c cs)
    have "\<not> snd (putchar write c w) < 0" using assms(2) [of c w] by simp
    then show ?case
      using Cons.prems Cons.IH [of "n + 1" "fst (putchar write c w)"] by (simp add: emit_def case_prod_beta algebra_simps)
  qed (simp add: emit_def ascii_def)
  then show ?thesis by (simp add: puts_def)
qed

text \<open>
  Calls that work on the states that satisfy \<open>ok\<close>: \<open>ins w\<close> are the bytes still to be read, \<open>outs w\<close> those
  written. \<^verbatim>\<open>read\<close> returns at most as many bytes as asked for and none only at the end; \<^verbatim>\<open>write\<close> takes at least one. That
  the kernel's calls are of this kind is shown in the theory \<open>User_Copy\<close>; \<^verbatim>\<open>sys.h\<close> alone would allow a \<^verbatim>\<open>write\<close> that
  always takes none, with which \<^verbatim>\<open>cp\<close> does not end.
\<close>

definition reads :: "('w \<Rightarrow> bool) \<Rightarrow> 'w sys_read \<Rightarrow> int \<Rightarrow> ('w \<Rightarrow> u8 list) \<Rightarrow> ('w \<Rightarrow> u8 list) \<Rightarrow> bool" where
  "reads ok read fd ins outs \<longleftrightarrow> (\<forall>w. ok w \<longrightarrow> (let (w', bs, r) = read fd 100 w in
     ok w' \<and> r = int (length bs) \<and> length bs \<le> 100 \<and> ins w = bs @ ins w' \<and> outs w' = outs w \<and> (bs = [] \<longrightarrow> ins w = [])))"

definition writes :: "('w \<Rightarrow> bool) \<Rightarrow> 'w sys_write \<Rightarrow> int \<Rightarrow> ('w \<Rightarrow> u8 list) \<Rightarrow> ('w \<Rightarrow> u8 list) \<Rightarrow> bool" where
  "writes ok write fd ins outs \<longleftrightarrow> (\<forall>bs w. ok w \<longrightarrow> bs \<noteq> [] \<longrightarrow> length bs \<le> 100 \<longrightarrow> (let (w', r) = write fd bs w in
     ok w' \<and> 0 < r \<and> nat r \<le> length bs \<and> outs w' = outs w @ take (nat r) bs \<and> ins w' = ins w))"

lemma cp_write_all:
  assumes wr: "writes ok write to ins outs" and "ok w" "length bs \<le> 100"
  shows "\<exists>w'. cp_write write to bs (int (length bs)) w = Some (Inr w') \<and> ok w' \<and> outs w' = outs w @ bs \<and> ins w' = ins w"
  using assms(2,3)
proof (induction bs arbitrary: w rule: length_induct)
  case (1 bs)
  show ?case
  proof (cases "bs = []")
    case True
    then show ?thesis using 1 by (simp add: cp_write.simps)
  next
    case False
    obtain w1 r where w1: "write to bs w = (w1, r)" by force
    then have r: "ok w1" "0 < r" "nat r \<le> length bs" "outs w1 = outs w @ take (nat r) bs" "ins w1 = ins w"
      using wr [unfolded writes_def, rule_format, OF 1(2) False 1(3)] by simp_all
    let ?bs = "drop (nat r) bs"
    have "length ?bs < length bs" "length ?bs \<le> 100" using r(2) False 1(3) by simp_all
    then obtain w' where "cp_write write to ?bs (int (length ?bs)) w1 = Some (Inr w')" "ok w'" "outs w' = outs w1 @ ?bs" "ins w' = ins w1"
      using 1(1) r(1) by blast
    moreover have "int (length ?bs) = int (length bs) - r" using r(2,3) by simp
    ultimately show ?thesis using False w1 r by (subst cp_write.simps) simp
  qed
qed

text \<open>With such calls \<^verbatim>\<open>cp\<close> ends with everything copied.\<close>

lemma cp_copies:
  assumes rd: "reads ok read from ins outs" and wr: "writes ok write to ins outs" and "ok w"
  shows "\<exists>w'. cp read write from to w = Some (Inr w') \<and> ok w' \<and> outs w' = outs w @ ins w \<and> ins w' = []"
  using assms(3)
proof (induction "length (ins w)" arbitrary: w rule: less_induct)
  case less
  obtain w1 bs r where r: "read from 100 w = (w1, bs, r)" by (metis prod_cases3)
  then have b: "ok w1" "r = int (length bs)" "length bs \<le> 100" "ins w = bs @ ins w1" "outs w1 = outs w" "bs = [] \<longrightarrow> ins w = []"
    using rd [unfolded reads_def, rule_format, OF less.prems] by auto
  show ?case
  proof (cases "bs = []")
    case True
    then show ?thesis using r b by (subst cp.simps) simp
  next
    case False
    obtain w2 where w2: "cp_write write to bs (int (length bs)) w1 = Some (Inr w2)" "ok w2" "outs w2 = outs w1 @ bs" "ins w2 = ins w1"
      using cp_write_all [OF wr b(1,3)] by blast
    have "length (ins w2) < length (ins w)" using w2(4) b(4) False by simp
    then obtain w' where "cp read write from to w2 = Some (Inr w')" "ok w'" "outs w' = outs w2 @ ins w2" "ins w' = []"
      using less(1) w2(2) by blast
    then show ?thesis using r b w2 False by (subst cp.simps) simp
  qed
qed

end
