(* ===== verification/Machine_Code.thy ===== *)
theory Machine_Code
  imports Machine_Memory
begin

text \<open>
  The assembly of the kernel and of user programs (\<^verbatim>\<open>kernel/context.s\<close>, \<^verbatim>\<open>kernel/machine.S\<close>, \<^verbatim>\<open>t0.dir/sbin/sys.S\<close>) at the level of instructions: the
  registers of the processor, one equation per instruction those files use, and the trap, return and
  user-mode entry sequences of \<^verbatim>\<open>machine.S\<close> as lists of instructions. The kernel's code runs at privilege
  level 0; memory is what the running thread sees of it. The routines it calls are compiled C++ functions, given as a parameter
  \<open>fn\<close> from addresses to state transformers, and what the code relies on of them is the calling
  convention \<open>cdecl\<close>. Frames that make \<^verbatim>\<open>iret\<close> fault, switch tasks or enter virtual-8086 mode do not
  arise from these sequences and are not modelled.
\<close>

subsection \<open>The processor\<close>

datatype reg = EAX | ECX | EDX | EBX | ESP | EBP | ESI | EDI

datatype creg = CR0 | CR2 | CR3

record cpu =
  gpr :: "reg \<Rightarrow> u32"
  ctl :: "creg \<Rightarrow> u32"
  eflags :: u32
  sel_cs :: u32
  sel_ss :: u32
  eip :: u32
  ram :: memory

definition set_gpr :: "reg \<Rightarrow> u32 \<Rightarrow> cpu \<Rightarrow> cpu" where
  "set_gpr r v s = s\<lparr>gpr := (gpr s)(r := v)\<rparr>"

definition set_ctl :: "creg \<Rightarrow> u32 \<Rightarrow> cpu \<Rightarrow> cpu" where
  "set_ctl c v s = s\<lparr>ctl := (ctl s)(c := v)\<rparr>"

definition poke :: "u32 \<Rightarrow> u32 \<Rightarrow> cpu \<Rightarrow> cpu" where
  "poke a v s = s\<lparr>ram := store32 (ram s) a v\<rparr>"

definition peek :: "u32 \<Rightarrow> cpu \<Rightarrow> u32" where
  "peek a s = load32 (ram s) a"

definition push :: "u32 \<Rightarrow> cpu \<Rightarrow> cpu" where
  "push v s = (let sp = gpr s ESP - 4 in set_gpr ESP sp (poke sp v s))"

text \<open>The word a \<^verbatim>\<open>pop\<close> reads, and the state after the stack pointer has moved.\<close>

definition stack_top :: "cpu \<Rightarrow> u32" where
  "stack_top s = peek (gpr s ESP) s"

definition drop_top :: "cpu \<Rightarrow> cpu" where
  "drop_top s = set_gpr ESP (gpr s ESP + 4) s"

subsection \<open>Flags\<close>

text \<open>
  \<^verbatim>\<open>pushf\<close> stores the flags with VM and RF clear. At privilege level 0 \<^verbatim>\<open>popf\<close> loads all flags but VM, VIF, VIP
  (kept) and RF (cleared), and \<^verbatim>\<open>iret\<close> also loads RF, VIF and VIP. Bit 1 always reads as one.
\<close>

definition popf_mask :: u32 where "popf_mask = 0x247fd5"

definition iret_mask :: u32 where "iret_mask = 0x3d7fd5"

definition pushed_flags :: "u32 \<Rightarrow> u32" where
  "pushed_flags f = f AND 0xfcffff"

definition popped_flags :: "u32 \<Rightarrow> u32 \<Rightarrow> u32" where
  "popped_flags v old = (v AND popf_mask) OR (old AND 0x1a0000) OR 2"

definition returned_flags :: "u32 \<Rightarrow> u32 \<Rightarrow> u32" where
  "returned_flags v old = (v AND iret_mask) OR (old AND 0x20000) OR 2"

definition set_flag :: "nat \<Rightarrow> bool \<Rightarrow> u32 \<Rightarrow> u32" where
  "set_flag n b f = (if b then set_bit n f else unset_bit n f)"

definition result_flags :: "u32 \<Rightarrow> u32 \<Rightarrow> u32" where
  "result_flags r f =
     set_flag 2 (even (length (filter (bit r) [0..<8]))) (set_flag 6 (r = 0) (set_flag 7 (bit r 31) f))"

definition add_flags :: "u32 \<Rightarrow> u32 \<Rightarrow> u32 \<Rightarrow> u32" where
  "add_flags a b f =
     (let r = a + b in
      set_flag 0 (r < a) (set_flag 4 ((r AND 15) < (a AND 15))
        (set_flag 11 (bit a 31 = bit b 31 \<and> bit r 31 \<noteq> bit a 31) (result_flags r f))))"

definition or_flags :: "u32 \<Rightarrow> u32 \<Rightarrow> u32" where
  "or_flags r f = set_flag 0 False (set_flag 11 False (result_flags r f))"

subsection \<open>Instructions\<close>

datatype instr =
    MovLoad u32 reg reg       \<comment> \<open>\<^verbatim>\<open>mov d(%b),%r\<close>\<close>
  | MovStore reg u32 reg      \<comment> \<open>\<^verbatim>\<open>mov %r,d(%b)\<close>\<close>
  | MovImm u32 u32 reg        \<comment> \<open>\<^verbatim>\<open>movl $v,d(%b)\<close>\<close>
  | MovConst u32 reg          \<comment> \<open>\<^verbatim>\<open>mov $v,%r\<close>\<close>
  | MovReg reg reg            \<comment> \<open>\<^verbatim>\<open>mov %a,%b\<close>\<close>
  | MovFrom creg reg          \<comment> \<open>\<^verbatim>\<open>mov %crn,%r\<close>\<close>
  | MovTo reg creg            \<comment> \<open>\<^verbatim>\<open>mov %r,%crn\<close>\<close>
  | PushReg reg | PopReg reg
  | PushMem u32 reg           \<comment> \<open>\<^verbatim>\<open>push d(%b)\<close>\<close>
  | PushVar u32               \<comment> \<open>\<^verbatim>\<open>pushl var\<close>, a variable at a fixed address\<close>
  | Pushf | Popf | Pusha | Popa
  | OrMem u32 reg             \<comment> \<open>\<^verbatim>\<open>orl $v,(%b)\<close>\<close>
  | OrReg u32 reg | AddReg u32 reg
  | Cli | Sti
  | CallReg reg               \<comment> \<open>\<^verbatim>\<open>call *%r\<close>\<close>
  | CallFn u32                \<comment> \<open>\<^verbatim>\<open>call f\<close>\<close>
  | Ret | Iret

definition pusha :: "cpu \<Rightarrow> cpu" where
  "pusha s =
     push (gpr s EDI) (push (gpr s ESI) (push (gpr s EBP) (push (gpr s ESP)
       (push (gpr s EBX) (push (gpr s EDX) (push (gpr s ECX) (push (gpr s EAX) s)))))))"

definition pop_into :: "reg \<Rightarrow> cpu \<Rightarrow> cpu" where
  "pop_into r s = set_gpr r (stack_top s) (drop_top s)"

definition popa :: "cpu \<Rightarrow> cpu" where
  "popa s =
     pop_into EAX (pop_into ECX (pop_into EDX (pop_into EBX (drop_top
       (pop_into EBP (pop_into ESI (pop_into EDI s)))))))"

text \<open>A return to an outer privilege level also pops the stack pointer and the stack segment.\<close>

definition iret :: "cpu \<Rightarrow> cpu" where
  "iret s =
     (let ip = stack_top s; s1 = drop_top s;
          c = stack_top s1; s2 = drop_top s1;
          f = stack_top s2; s3 = drop_top s2;
          s4 = s3\<lparr>eip := ip, sel_cs := c AND 0xffff, eflags := returned_flags f (eflags s)\<rparr>
      in if (c AND 3) > (sel_cs s AND 3)
         then (let sp = stack_top s3; st = stack_top (drop_top s3)
               in set_gpr ESP sp (s4\<lparr>sel_ss := st AND 0xffff\<rparr>))
         else s4)"

text \<open>A call pushes the address \<open>ra\<close> of the next instruction; the callee ends by popping it.\<close>

definition call_fn :: "(u32 \<Rightarrow> cpu \<Rightarrow> cpu) \<Rightarrow> u32 \<Rightarrow> u32 \<Rightarrow> cpu \<Rightarrow> cpu" where
  "call_fn fn ra f s = fn f (push ra s)"

primrec exec_instr :: "(u32 \<Rightarrow> cpu \<Rightarrow> cpu) \<Rightarrow> u32 \<Rightarrow> instr \<Rightarrow> cpu \<Rightarrow> cpu" where
  "exec_instr fn ra (MovLoad d b r) s = set_gpr r (peek (gpr s b + d) s) s"
| "exec_instr fn ra (MovStore r d b) s = poke (gpr s b + d) (gpr s r) s"
| "exec_instr fn ra (MovImm v d b) s = poke (gpr s b + d) v s"
| "exec_instr fn ra (MovConst v r) s = set_gpr r v s"
| "exec_instr fn ra (MovReg a b) s = set_gpr b (gpr s a) s"
| "exec_instr fn ra (MovFrom c r) s = set_gpr r (ctl s c) s"
| "exec_instr fn ra (MovTo r c) s = set_ctl c (gpr s r) s"
| "exec_instr fn ra (PushReg r) s = push (gpr s r) s"
| "exec_instr fn ra (PopReg r) s = pop_into r s"
| "exec_instr fn ra (PushMem d b) s = push (peek (gpr s b + d) s) s"
| "exec_instr fn ra (PushVar a) s = push (peek a s) s"
| "exec_instr fn ra Pushf s = push (pushed_flags (eflags s)) s"
| "exec_instr fn ra Popf s = (drop_top s)\<lparr>eflags := popped_flags (stack_top s) (eflags s)\<rparr>"
| "exec_instr fn ra Pusha s = pusha s"
| "exec_instr fn ra Popa s = popa s"
| "exec_instr fn ra (OrMem v b) s =
     (let r = peek (gpr s b) s OR v in (poke (gpr s b) r s)\<lparr>eflags := or_flags r (eflags s)\<rparr>)"
| "exec_instr fn ra (OrReg v r) s =
     (let x = gpr s r OR v in (set_gpr r x s)\<lparr>eflags := or_flags x (eflags s)\<rparr>)"
| "exec_instr fn ra (AddReg v r) s =
     (set_gpr r (gpr s r + v) s)\<lparr>eflags := add_flags (gpr s r) v (eflags s)\<rparr>"
| "exec_instr fn ra Cli s = s\<lparr>eflags := unset_bit 9 (eflags s)\<rparr>"
| "exec_instr fn ra Sti s = s\<lparr>eflags := set_bit 9 (eflags s)\<rparr>"
| "exec_instr fn ra (CallReg r) s = call_fn fn ra (gpr s r) s"
| "exec_instr fn ra (CallFn f) s = call_fn fn ra f s"
| "exec_instr fn ra Ret s = (drop_top s)\<lparr>eip := stack_top s\<rparr>"
| "exec_instr fn ra Iret s = iret s"

definition run_code :: "(u32 \<Rightarrow> cpu \<Rightarrow> cpu) \<Rightarrow> u32 \<Rightarrow> instr list \<Rightarrow> cpu \<Rightarrow> cpu" where
  "run_code fn ra p s = fold (exec_instr fn ra) p s"

text \<open>
  The calling convention the assembly relies on when it calls \<open>f\<close> in a state \<open>s\<close> with the arguments
  on the stack below the return address: the function returns to the pushed address with the stack
  pointer above it, the callee-saved registers and the segments as they were, and the bytes of \<open>K\<close> (which its
  caller still needs) unchanged.
\<close>

definition cdecl :: "(cpu \<Rightarrow> cpu) \<Rightarrow> u32 set \<Rightarrow> cpu \<Rightarrow> bool" where
  "cdecl f K s \<longleftrightarrow>
     (let t = f s in
      gpr t EBX = gpr s EBX \<and> gpr t EBP = gpr s EBP \<and> gpr t ESI = gpr s ESI \<and> gpr t EDI = gpr s EDI \<and>
      gpr t ESP = gpr s ESP + 4 \<and> eip t = stack_top s \<and>
      sel_cs t = sel_cs s \<and> sel_ss t = sel_ss s \<and> (\<forall>x \<in> K. ram t x = ram s x))"

subsection \<open>Bytes and words\<close>

text \<open>The \<open>n\<close> bytes from address \<open>p\<close> on, addresses taken modulo \<open>2 ^ 32\<close>.\<close>

definition bytes_at :: "u32 \<Rightarrow> nat \<Rightarrow> u32 set" where
  "bytes_at p n = {x. unat (x - p) < n}"

lemma store32_elsewhere: "x \<notin> bytes_at a 4 \<Longrightarrow> store32 m a v x = m x"
  by (auto simp: store32_def bytes_at_def)

lemma load32_agree:
  assumes "\<And>x. x \<in> bytes_at a 4 \<Longrightarrow> m x = m' x"
  shows "load32 m a = load32 m' a"
  by (rule load32_cong; rule assms; simp add: bytes_at_def)

lemma load_store_apart:
  "bytes_at a 4 \<inter> bytes_at b 4 = {} \<Longrightarrow> load32 (store32 m b v) a = load32 m a"
  by (rule load32_agree, rule store32_elsewhere) blast

lemma unat_add_le: "unat (x + y :: u32) \<le> unat x + unat y"
  by (simp add: unat_word_ariths)

lemma bytes_at_sub:
  assumes "unat d + k \<le> n"
  shows "bytes_at (p + d) k \<subseteq> bytes_at p n"
proof
  fix x assume "x \<in> bytes_at (p + d) k"
  then have "unat (x - (p + d)) < k" by (simp add: bytes_at_def)
  moreover have "unat (x - p) \<le> unat (x - (p + d)) + unat d"
    using unat_add_le [of "x - (p + d)" d] by (simp add: algebra_simps)
  ultimately show "x \<in> bytes_at p n" using assms by (simp add: bytes_at_def)
qed

lemma mod_below_wraps:
  "u = (v + p) mod N \<Longrightarrow> u < p \<Longrightarrow> v < N \<Longrightarrow> p < N \<Longrightarrow> v + p = u + (N :: nat)"
  by (cases "v + p < N") (auto simp: mod_if)

lemma bytes_at_apart:
  assumes "k \<le> unat (b - a)" "l \<le> unat (a - b)"
  shows "bytes_at a k \<inter> bytes_at b l = {}"
proof -
  have False if "unat (x - a) < k" "unat (x - b) < l" for x
  proof -
    have "unat (b - a) < 4294967296" "unat (a - b) < 4294967296"
      "unat (x - a) < 4294967296" "unat (x - b) < 4294967296" by (rule unat_lt_2p32)+
    note wrap = this
    have "unat (x - a) = (unat (x - b) + unat (b - a)) mod 4294967296"
      "unat (x - b) = (unat (x - a) + unat (a - b)) mod 4294967296"
      using unat_word_ariths(1) [of "x - b" "b - a"] unat_word_ariths(1) [of "x - a" "a - b"] by simp_all
    note e = this
    have "unat (x - b) + unat (b - a) = unat (x - a) + 4294967296"
      using wrap(1,4) assms(1) that(1) by (intro mod_below_wraps [OF e(1)]) linarith+
    moreover have "unat (x - a) + unat (a - b) = unat (x - b) + 4294967296"
      using wrap(2,3) assms(2) that(2) by (intro mod_below_wraps [OF e(2)]) linarith+
    ultimately show False using wrap by linarith
  qed
  then show ?thesis by (auto simp: bytes_at_def)
qed

lemma load_store_far:
  "4 \<le> unat (b - a) \<Longrightarrow> 4 \<le> unat (a - b) \<Longrightarrow> load32 (store32 m b v) a = load32 m a"
  by (rule load_store_apart, rule bytes_at_apart)

lemma flags_masked:
  "popped_flags v old AND popf_mask = v AND popf_mask"
  "pushed_flags f AND popf_mask = f AND popf_mask"
  by (simp_all add: popped_flags_def pushed_flags_def popf_mask_def bit.conj_disj_distrib2 and.assoc)

lemmas machine_ops =
  run_code_def set_gpr_def set_ctl_def poke_def peek_def push_def stack_top_def drop_top_def Let_def

end
