(* ===== verification/Context_Switch.thy ===== *)
theory Context_Switch
  imports Machine_Code
begin

text \<open>
  The context switch: \<^verbatim>\<open>gheith_contextSwitch\<close> of \<^verbatim>\<open>kernel/context.s\<close> instruction by instruction, on the save areas
  of \<^verbatim>\<open>kernel/threads.h\<close> and the thread stacks in memory, and the stack and save area the constructors of
  \<^verbatim>\<open>kernel/threads.cc\<close> give a new thread. A system of cores with one shared memory runs, creates, switches and
  forgets threads; the lemmas show that what a thread is resumed with is what it was suspended with, whatever
  the other threads did in between.
\<close>

subsection \<open>The routine (context.s)\<close>

text \<open>
  The arguments are above the return address: the save area of the source, the save area of the target, the function
  to call after the switch, and its argument.
\<close>

definition contextSwitch_save :: "instr list" where
  "contextSwitch_save =
    [MovLoad 4 ESP EAX, MovLoad 8 ESP ECX, MovLoad 12 ESP EDX,
     Pushf,
     MovStore EBX 0 EAX, MovStore ESP 4 EAX, MovStore EBP 8 EAX, MovStore ESI 12 EAX, MovStore EDI 16 EAX,
     MovFrom CR2 EDI, MovStore EDI 28 EAX]"

definition contextSwitch_load :: "instr list" where
  "contextSwitch_load =
    [Cli,
     MovImm 0 20 EAX, MovImm 0 20 ECX,
     MovReg ESP EAX,
     MovLoad 28 ECX EDI, MovTo EDI CR2,
     MovLoad 32 ECX EDI, MovTo EDI CR3,
     MovLoad 0 ECX EBX, MovLoad 4 ECX ESP, MovLoad 8 ECX EBP, MovLoad 12 ECX ESI, MovLoad 16 ECX EDI,
     PushMem 20 EAX, PushMem 8 EAX]"

definition contextSwitch_finish :: "instr list" where
  "contextSwitch_finish = [CallReg EDX, AddReg 8 ESP, Popf, Ret]"

definition gheith_contextSwitch :: "(u32 \<Rightarrow> cpu \<Rightarrow> cpu) \<Rightarrow> u32 \<Rightarrow> cpu \<Rightarrow> cpu" where
  "gheith_contextSwitch fn ra s =
     run_code fn ra (contextSwitch_save @ contextSwitch_load @ contextSwitch_finish) s"

subsection \<open>What is saved\<close>

text \<open>
  The fields of a \<^verbatim>\<open>SaveArea\<close> at address \<open>a\<close> that the switch restores, with the flags and the return address on
  the stack it points to.
\<close>

record thread_context =
  c_ebx :: u32
  c_esp :: u32
  c_ebp :: u32
  c_esi :: u32
  c_edi :: u32
  c_cr2 :: u32
  c_cr3 :: u32
  c_flags :: u32
  c_eip :: u32

definition saved_context :: "memory \<Rightarrow> u32 \<Rightarrow> thread_context" where
  "saved_context m a =
     (let sp = load32 m (a + 4) in
      \<lparr>c_ebx = load32 m a, c_esp = sp, c_ebp = load32 m (a + 8), c_esi = load32 m (a + 12),
       c_edi = load32 m (a + 16), c_cr2 = load32 m (a + 28), c_cr3 = load32 m (a + 32),
       c_flags = load32 m sp, c_eip = load32 m (sp + 4)\<rparr>)"

text \<open>The context of a thread that has just entered the routine with the save area \<open>a\<close>.\<close>

definition calling_context :: "u32 \<Rightarrow> cpu \<Rightarrow> thread_context" where
  "calling_context a s =
     \<lparr>c_ebx = gpr s EBX, c_esp = gpr s ESP - 4, c_ebp = gpr s EBP, c_esi = gpr s ESI, c_edi = gpr s EDI,
      c_cr2 = ctl s CR2, c_cr3 = peek (a + 32) s, c_flags = pushed_flags (eflags s), c_eip = stack_top s\<rparr>"

text \<open>The processor resumes a context: the state a thread sees when its call of the routine returns.\<close>

definition resumes :: "cpu \<Rightarrow> thread_context \<Rightarrow> bool" where
  "resumes s c \<longleftrightarrow>
     gpr s EBX = c_ebx c \<and> gpr s ESP = c_esp c + 8 \<and> gpr s EBP = c_ebp c \<and> gpr s ESI = c_esi c \<and>
     gpr s EDI = c_edi c \<and> ctl s CR2 = c_cr2 c \<and> ctl s CR3 = c_cr3 c \<and>
     eflags s AND popf_mask = c_flags c AND popf_mask \<and> eip s = c_eip c"

text \<open>The bytes a suspended context is read from; \<^verbatim>\<open>no_preempt\<close> and \<^verbatim>\<open>tcb\<close> are not among them.\<close>

definition context_bytes :: "u32 \<Rightarrow> thread_context \<Rightarrow> u32 set" where
  "context_bytes a c = bytes_at a 20 \<union> bytes_at (a + 28) 8 \<union> bytes_at (c_esp c) 8"

subsection \<open>Execution of the three parts\<close>

lemma save_runs:
  "run_code fn ra contextSwitch_save s =
     (let a = peek (gpr s ESP + 4) s; sp = gpr s ESP - 4 in
      s\<lparr>gpr := (gpr s)(EAX := a, ECX := peek (gpr s ESP + 8) s, EDX := peek (gpr s ESP + 12) s, ESP := sp,
                 EDI := ctl s CR2),
        ram := store32 (store32 (store32 (store32 (store32 (store32 (store32 (ram s)
          sp (pushed_flags (eflags s))) a (gpr s EBX)) (a + 4) sp) (a + 8) (gpr s EBP))
          (a + 12) (gpr s ESI)) (a + 16) (gpr s EDI)) (a + 28) (ctl s CR2)\<rparr>)"
  by (simp add: contextSwitch_save_def machine_ops)

text \<open>The state in which the function given to the routine starts to run, on the stack of the target.\<close>

definition handler_state :: "(u32 \<Rightarrow> cpu \<Rightarrow> cpu) \<Rightarrow> u32 \<Rightarrow> cpu \<Rightarrow> cpu" where
  "handler_state fn ra s = push ra (run_code fn ra contextSwitch_load (run_code fn ra contextSwitch_save s))"

lemma load_runs:
  "run_code fn ra contextSwitch_load s =
     (let a = gpr s EAX; b = gpr s ECX;
          m = store32 (store32 (ram s) (a + 20) 0) (b + 20) 0;
          c = saved_context m b; sp = c_esp c;
          m1 = store32 m (sp - 4) (load32 m (gpr s ESP + 20));
          m2 = store32 m1 (sp - 8) (load32 m1 (gpr s ESP + 8)) in
      s\<lparr>gpr := (gpr s)(EAX := gpr s ESP, EBX := c_ebx c, ESP := sp - 8, EBP := c_ebp c, ESI := c_esi c,
                 EDI := c_edi c),
        ctl := (ctl s)(CR2 := c_cr2 c, CR3 := c_cr3 c), eflags := unset_bit 9 (eflags s), ram := m2\<rparr>)"
  by (simp add: contextSwitch_load_def saved_context_def machine_ops fun_upd_twist)

lemma switch_runs:
  "gheith_contextSwitch fn ra s =
     (let h = handler_state fn ra s; t = fn (peek (gpr s ESP + 12) s) h; sp = gpr t ESP + 8 in
      t\<lparr>gpr := (gpr t)(ESP := sp + 8),
        eflags := popped_flags (peek sp t) (add_flags (gpr t ESP) 8 (eflags t)), eip := peek (sp + 4) t\<rparr>)"
  by (simp add: gheith_contextSwitch_def handler_state_def contextSwitch_finish_def run_code_def)
     (simp add: load_runs [unfolded run_code_def] save_runs [unfolded run_code_def] call_fn_def machine_ops)

subsection \<open>Framing\<close>

text \<open>
  A switch from the thread with save area \<open>a\<close> and stack \<open>Sa\<close> to the suspended thread with save area \<open>b\<close>, stack
  \<open>Sb\<close> and context \<open>c\<close>: the routine was called with these save areas, the stacks have room for what
  it pushes, and save areas and stacks are apart.
\<close>

definition switch_ready :: "u32 set \<Rightarrow> u32 set \<Rightarrow> u32 \<Rightarrow> u32 \<Rightarrow> thread_context \<Rightarrow> cpu \<Rightarrow> bool" where
  "switch_ready Sa Sb a b c s \<longleftrightarrow>
     peek (gpr s ESP + 4) s = a \<and> peek (gpr s ESP + 8) s = b \<and>
     bytes_at (gpr s ESP - 16) 36 \<subseteq> Sa \<and> bytes_at (c_esp c - 12) 20 \<subseteq> Sb \<and>
     bytes_at a 36 \<inter> Sa = {} \<and> bytes_at b 36 \<inter> Sb = {} \<and> (bytes_at a 36 \<union> Sa) \<inter> (bytes_at b 36 \<union> Sb) = {}"

lemma saved_context_agree:
  assumes "\<And>x. x \<in> context_bytes a (saved_context m a) \<Longrightarrow> m' x = m x"
  shows "saved_context m' a = saved_context m a"
proof -
  let ?sp = "load32 m (a + 4)"
  have e: "load32 m' p = load32 m p" if "bytes_at p 4 \<subseteq> context_bytes a (saved_context m a)" for p
    using that assms by (intro load32_agree) blast
  have area: "bytes_at (a + d) 4 \<subseteq> context_bytes a (saved_context m a)" if "unat d + 4 \<le> 20" for d
    using bytes_at_sub [OF that, of a] by (auto simp: context_bytes_def)
  have ctl: "bytes_at (a + 28 + d) 4 \<subseteq> context_bytes a (saved_context m a)" if "unat d + 4 \<le> 8" for d
    using bytes_at_sub [OF that, of "a + 28"] by (auto simp: context_bytes_def)
  have stk: "bytes_at (?sp + d) 4 \<subseteq> context_bytes a (saved_context m a)" if "unat d + 4 \<le> 8" for d
    using bytes_at_sub [OF that, of ?sp] by (auto simp: context_bytes_def saved_context_def Let_def)
  show ?thesis
    using e [OF area [of 0]] e [OF area [of 4]] e [OF area [of 8]] e [OF area [of 12]] e [OF area [of 16]]
      e [OF ctl [of 0]] e [OF ctl [of 4]] e [OF stk [of 0]] e [OF stk [of 4]]
    by (simp add: saved_context_def Let_def add.assoc)
qed

lemma save_frame:
  assumes "a = peek (gpr s ESP + 4) s" "x \<notin> bytes_at (gpr s ESP - 4) 4" "x \<notin> bytes_at a 20" "x \<notin> bytes_at (a + 28) 4"
  shows "ram (run_code fn ra contextSwitch_save s) x = ram s x"
proof -
  have "x \<notin> bytes_at (a + d) 4" if "unat d + 4 \<le> 20" for d
    using bytes_at_sub [OF that, of a] assms(3) by blast
  from this [of 0] this [of 4] this [of 8] this [of 12] this [of 16] show ?thesis
    using assms by (simp add: save_runs Let_def store32_elsewhere)
qed

lemma save_saves:
  assumes "a = peek (gpr s ESP + 4) s" "bytes_at (gpr s ESP - 4) 8 \<inter> bytes_at a 36 = {}"
  shows "saved_context (ram (run_code fn ra contextSwitch_save s)) a = calling_context a s"
proof -
  let ?sp = "gpr s ESP - 4"
  have sep: "bytes_at (?sp + k) 4 \<inter> bytes_at (a + d) 4 = {}" if "unat k + 4 \<le> 8" "unat d + 4 \<le> 36" for k d
    using bytes_at_sub [OF that(1), of ?sp] bytes_at_sub [OF that(2), of a] assms(2) by blast
  have "load32 (store32 m (a + d) v) ?sp = load32 m ?sp"
    "load32 (store32 m (a + d) v) (?sp + 4) = load32 m (?sp + 4)" 
    "load32 (store32 m ?sp v) (a + d) = load32 m (a + d)" if "unat d + 4 \<le> 36" for m d v
    using sep [of 0 d] sep [of 4 d] that by (auto intro!: load_store_apart)
  from this(1,2) [of 0] this(1,2) [of 4] this(1,2) [of 8] this(1,2) [of 12] this(1,2) [of 16] this(1,2) [of 28] this(3) [of 32]
  show ?thesis
    by (simp add: save_runs saved_context_def calling_context_def Let_def assms(1) [symmetric, unfolded peek_def] load_store_far peek_def
        stack_top_def)
qed

text \<open>Reading a context is not affected by stores to \<^verbatim>\<open>no_preempt\<close> fields of its own or of another area.\<close>

lemma no_preempt_apart:
  assumes "bytes_at a 36 \<inter> bytes_at (c_esp c) 8 = {}"
  shows "bytes_at (a + 20) 4 \<inter> context_bytes a c = {}"
proof -
  have "bytes_at (a + 20) 4 \<inter> bytes_at a 20 = {}" "bytes_at (a + 20) 4 \<inter> bytes_at (a + 28) 8 = {}"
    by (rule bytes_at_apart; simp)+
  moreover have "bytes_at (a + 20) 4 \<subseteq> bytes_at a 36" by (rule bytes_at_sub) simp
  ultimately show ?thesis using assms by (auto simp: context_bytes_def)
qed

lemma context_bytes_area:
  assumes "bytes_at (c_esp c) 8 \<subseteq> S"
  shows "context_bytes a c \<subseteq> bytes_at a 36 \<union> S"
proof -
  have "bytes_at (a + 0) 20 \<subseteq> bytes_at a 36" "bytes_at (a + 28) 8 \<subseteq> bytes_at a 36" by (rule bytes_at_sub; simp)+
  then show ?thesis using assms by (auto simp: context_bytes_def)
qed

lemma handler_state_eq:
  fixes fn :: "u32 \<Rightarrow> cpu \<Rightarrow> cpu" and ra :: u32
  assumes "switch_ready Sa Sb a b c s" "saved_context (ram s) b = c"
  defines "m \<equiv> store32 (store32 (ram (run_code fn ra contextSwitch_save s)) (a + 20) 0) (b + 20) 0"
  defines "m1 \<equiv> store32 m (c_esp c - 4) (load32 m (gpr s ESP + 16))"
  defines "m2 \<equiv> store32 m1 (c_esp c - 8) (load32 m1 (gpr s ESP + 4))"
  shows "saved_context m b = c"
    "handler_state fn ra s = s\<lparr>gpr := (gpr s)(EAX := gpr s ESP - 4, ECX := b, EDX := peek (gpr s ESP + 12) s,
        EBX := c_ebx c, ESP := c_esp c - 12, EBP := c_ebp c, ESI := c_esi c, EDI := c_edi c),
      ctl := (ctl s)(CR2 := c_cr2 c, CR3 := c_cr3 c), eflags := unset_bit 9 (eflags s),
      ram := store32 m2 (c_esp c - 12) ra\<rparr>"
proof -
  note r = assms(1) [unfolded switch_ready_def]
  have a: "a = peek (gpr s ESP + 4) s" "b = peek (gpr s ESP + 8) s" using r by simp_all
  have sp: "bytes_at (gpr s ESP - 4) 4 \<subseteq> Sa" using bytes_at_sub [of 12 4 36 "gpr s ESP - 16"] r by auto
  have cs: "bytes_at (c_esp c) 8 \<subseteq> Sb" using bytes_at_sub [of 12 8 20 "c_esp c - 12"] r by auto
  have area: "bytes_at (a + 0) 20 \<subseteq> bytes_at a 36" "bytes_at (a + 28) 4 \<subseteq> bytes_at a 36" "bytes_at (a + 20) 4 \<subseteq> bytes_at a 36"
    by (rule bytes_at_sub; simp)+
  have np: "bytes_at (b + 20) 4 \<inter> context_bytes b c = {}" using cs r by (intro no_preempt_apart) blast
  have cb: "context_bytes b c \<subseteq> bytes_at b 36 \<union> Sb" using cs by (rule context_bytes_area)
  have "m x = ram s x" if "x \<in> context_bytes b c" for x
  proof -
    have x: "x \<notin> bytes_at (gpr s ESP - 4) 4" "x \<notin> bytes_at a 20" "x \<notin> bytes_at (a + 28) 4" "x \<notin> bytes_at (a + 20) 4"
      "x \<notin> bytes_at (b + 20) 4"
      using that cb sp area np r by auto
    then show ?thesis using save_frame [OF a(1) x(1-3)] by (simp add: m_def store32_elsewhere)
  qed
  then show c: "saved_context m b = c" using saved_context_agree [of b "ram s" m] assms(2) by simp
  let ?s1 = "run_code fn ra contextSwitch_save s"
  have s1: "gpr ?s1 EAX = a" "gpr ?s1 ECX = b" "gpr ?s1 ESP = gpr s ESP - 4"
    "eflags ?s1 = eflags s" "ctl ?s1 = ctl s"
    "gpr ?s1 = (gpr s)(EAX := a, ECX := b, EDX := peek (gpr s ESP + 12) s, ESP := gpr s ESP - 4, EDI := ctl s CR2)"
    "?s1\<lparr>ctl := k, eflags := f, ram := w, gpr := g\<rparr> = s\<lparr>gpr := g, ctl := k, eflags := f, ram := w\<rparr>" for g k f w
    using a by (simp_all add: save_runs Let_def)
  show "handler_state fn ra s = s\<lparr>gpr := (gpr s)(EAX := gpr s ESP - 4, ECX := b, EDX := peek (gpr s ESP + 12) s,
        EBX := c_ebx c, ESP := c_esp c - 12, EBP := c_ebp c, ESI := c_esi c, EDI := c_edi c),
      ctl := (ctl s)(CR2 := c_cr2 c, CR3 := c_cr3 c), eflags := unset_bit 9 (eflags s),
      ram := store32 m2 (c_esp c - 12) ra\<rparr>"
    by (simp add: handler_state_def load_runs Let_def s1(1-5) m_def [symmetric] c push_def set_gpr_def poke_def)
      (simp add: s1 fun_upd_twist m1_def m2_def add.commute)
qed

text \<open>The memory that has changed when the function starts.\<close>

definition switch_writes :: "u32 \<Rightarrow> u32 \<Rightarrow> thread_context \<Rightarrow> cpu \<Rightarrow> u32 set" where
  "switch_writes a b c s =
     bytes_at (gpr s ESP - 4) 4 \<union> bytes_at a 24 \<union> bytes_at (a + 28) 4 \<union> bytes_at (b + 20) 4 \<union> bytes_at (c_esp c - 12) 12"

lemma handler_frame:
  assumes "switch_ready Sa Sb a b c s" "saved_context (ram s) b = c" "x \<notin> switch_writes a b c s"
  shows "ram (handler_state fn ra s) x = ram s x"
proof -
  have "bytes_at (c_esp c - 12 + 0) 4 \<subseteq> bytes_at (c_esp c - 12) 12" "bytes_at (c_esp c - 12 + 4) 4 \<subseteq> bytes_at (c_esp c - 12) 12"
    "bytes_at (c_esp c - 12 + 8) 4 \<subseteq> bytes_at (c_esp c - 12) 12" "bytes_at (a + 0) 20 \<subseteq> bytes_at a 24"
    "bytes_at (a + 20) 4 \<subseteq> bytes_at a 24"
    by (rule bytes_at_sub; simp)+
  then have "x \<notin> bytes_at (c_esp c - 12) 4" "x \<notin> bytes_at (c_esp c - 8) 4" "x \<notin> bytes_at (c_esp c - 4) 4"
    "x \<notin> bytes_at a 20" "x \<notin> bytes_at (a + 20) 4" "x \<notin> bytes_at (gpr s ESP - 4) 4" "x \<notin> bytes_at (a + 28) 4"
    "x \<notin> bytes_at (b + 20) 4"
    using assms(3) by (auto simp: switch_writes_def)
  moreover have "a = peek (gpr s ESP + 4) s" using assms(1) by (simp add: switch_ready_def)
  ultimately show ?thesis
    using save_frame [of a s x fn ra] by (simp add: handler_state_eq(2) [OF assms(1,2)] store32_elsewhere)
qed

lemma handler_saved:
  assumes "switch_ready Sa Sb a b c s" "saved_context (ram s) b = c"
  shows "saved_context (ram (handler_state fn ra s)) a = calling_context a s"
proof -
  let ?s1 = "run_code fn ra contextSwitch_save s" and ?c = "calling_context a s"
  note r = assms(1) [unfolded switch_ready_def]
  have sp: "bytes_at (gpr s ESP - 4) 8 \<subseteq> Sa" using bytes_at_sub [of 12 8 36 "gpr s ESP - 16"] r by auto
  have s1: "saved_context (ram ?s1) a = ?c" using r sp by (intro save_saves) auto
  have cb: "context_bytes a ?c \<subseteq> bytes_at a 36 \<union> Sa"
    using sp by (intro context_bytes_area) (simp add: calling_context_def)
  have np: "bytes_at (a + 20) 4 \<inter> context_bytes a ?c = {}"
    using r sp by (intro no_preempt_apart) (auto simp: calling_context_def)
  have "bytes_at (b + 20) 4 \<subseteq> bytes_at b 36" by (rule bytes_at_sub) simp
  moreover have "bytes_at (c_esp c - 12 + d) 4 \<subseteq> Sb" if "unat d + 4 \<le> 20" for d
    using bytes_at_sub [OF that, of "c_esp c - 12"] r by auto
  from this [of 0] this [of 4] this [of 8]
  have "bytes_at (c_esp c - 12) 4 \<subseteq> Sb" "bytes_at (c_esp c - 8) 4 \<subseteq> Sb" "bytes_at (c_esp c - 4) 4 \<subseteq> Sb" by simp_all
  ultimately have "ram (handler_state fn ra s) x = ram ?s1 x" if "x \<in> context_bytes a ?c" for x
  proof -
    note sub = \<open>bytes_at (b + 20) 4 \<subseteq> _\<close> \<open>bytes_at (c_esp c - 12) 4 \<subseteq> Sb\<close> \<open>bytes_at (c_esp c - 8) 4 \<subseteq> Sb\<close>
      \<open>bytes_at (c_esp c - 4) 4 \<subseteq> Sb\<close>
    have "x \<notin> bytes_at b 36 \<union> Sb" "x \<notin> bytes_at (a + 20) 4" using that cb np r by auto
    then have "x \<notin> bytes_at (c_esp c - 12) 4" "x \<notin> bytes_at (c_esp c - 8) 4" "x \<notin> bytes_at (c_esp c - 4) 4"
      "x \<notin> bytes_at (b + 20) 4" "x \<notin> bytes_at (a + 20) 4"
      using sub by auto
    then show ?thesis by (simp add: handler_state_eq(2) [OF assms] store32_elsewhere)
  qed
  then show ?thesis using saved_context_agree [of a "ram ?s1" "ram (handler_state fn ra s)"] s1 by simp
qed

lemma handler_args:
  fixes fn :: "u32 \<Rightarrow> cpu \<Rightarrow> cpu" and ra :: u32
  assumes "switch_ready Sa Sb a b c s" "saved_context (ram s) b = c"
  defines "h \<equiv> handler_state fn ra s"
  shows "stack_top h = ra" "peek (gpr h ESP + 4) h = a" "peek (gpr h ESP + 8) h = peek (gpr s ESP + 16) s"
    "\<not> bit (eflags h) 9"
proof -
  note r = assms(1) [unfolded switch_ready_def]
  let ?s1 = "run_code fn ra contextSwitch_save s"
  have stk: "bytes_at (gpr s ESP - 16 + d) 4 \<subseteq> Sa" if "unat d + 4 \<le> 36" for d
    using bytes_at_sub [OF that, of "gpr s ESP - 16"] r by auto
  have area: "bytes_at (a + 0) 20 \<subseteq> bytes_at a 36" "bytes_at (a + 28) 4 \<subseteq> bytes_at a 36" "bytes_at (a + 20) 4 \<subseteq> bytes_at a 36"
    "bytes_at (b + 20) 4 \<subseteq> bytes_at b 36" "bytes_at (c_esp c - 12 + 8) 4 \<subseteq> bytes_at (c_esp c - 12) 20"
    by (rule bytes_at_sub; simp)+
  have arg: "load32 (store32 (store32 (ram ?s1) (a + 20) 0) (b + 20) 0) (gpr s ESP + d) = peek (gpr s ESP + d) s"
    "load32 (store32 m (c_esp c - 4) v) (gpr s ESP + d) = load32 m (gpr s ESP + d)"
    if "d = 4 \<or> d = 16" for d m v
  proof -
    have "bytes_at (gpr s ESP - 16 + 20) 4 \<subseteq> Sa" "bytes_at (gpr s ESP - 16 + 32) 4 \<subseteq> Sa" by (rule stk; simp)+
    moreover have "gpr s ESP - 16 + 20 = gpr s ESP + 4" "gpr s ESP - 16 + 32 = gpr s ESP + 16" by simp_all
    ultimately have sub: "bytes_at (gpr s ESP + d) 4 \<subseteq> Sa" using that by metis
    have own: "bytes_at (gpr s ESP + d) 4 \<inter> bytes_at (gpr s ESP - 4) 4 = {}" using that by (intro bytes_at_apart) auto
    have "ram ?s1 x = ram s x" if "x \<in> bytes_at (gpr s ESP + d) 4" for x
      using that sub own area r by (intro save_frame) auto
    then have "load32 (ram ?s1) (gpr s ESP + d) = peek (gpr s ESP + d) s" unfolding peek_def by (rule load32_agree)
    moreover have "bytes_at (gpr s ESP + d) 4 \<inter> bytes_at (a + 20) 4 = {}" "bytes_at (gpr s ESP + d) 4 \<inter> bytes_at (b + 20) 4 = {}"
      using sub area r by auto
    ultimately show "load32 (store32 (store32 (ram ?s1) (a + 20) 0) (b + 20) 0) (gpr s ESP + d) = peek (gpr s ESP + d) s"
      by (simp add: load_store_apart)
    have "bytes_at (c_esp c - 4) 4 \<subseteq> Sb" using area(5) r by auto
    moreover have "Sa \<inter> Sb = {}" using r by auto
    ultimately have "bytes_at (gpr s ESP + d) 4 \<inter> bytes_at (c_esp c - 4) 4 = {}" using sub by blast
    then show "load32 (store32 m (c_esp c - 4) v) (gpr s ESP + d) = load32 m (gpr s ESP + d)" by (rule load_store_apart)
  qed
  have a: "peek (gpr s ESP + 4) s = a" using r by simp
  show "stack_top h = ra" "peek (gpr h ESP + 4) h = a" "peek (gpr h ESP + 8) h = peek (gpr s ESP + 16) s" "\<not> bit (eflags h) 9"
    unfolding h_def handler_state_eq(2) [OF assms(1,2)]
    by (simp_all add: stack_top_def peek_def load_store_far arg a [unfolded peek_def] bit_unset_bit_iff)
qed

text \<open>
  What the routine relies on of the function it calls: it follows the calling convention, keeps the control
  registers and leaves the bytes \<open>K\<close> alone.
\<close>

definition handler_ok :: "(cpu \<Rightarrow> cpu) \<Rightarrow> u32 set \<Rightarrow> cpu \<Rightarrow> bool" where
  "handler_ok f K s \<longleftrightarrow> cdecl f K s \<and> ctl (f s) = ctl s"

lemma switch_resumes:
  assumes ready: "switch_ready Sa Sb a b c s" "saved_context (ram s) b = c"
    and h: "handler_ok (fn (peek (gpr s ESP + 12) s)) K (handler_state fn ra s)"
    and K: "bytes_at (c_esp c) 8 \<subseteq> K"
  shows "resumes (gheith_contextSwitch fn ra s) c"
    "x \<in> K \<Longrightarrow> ram (gheith_contextSwitch fn ra s) x = ram (handler_state fn ra s) x"
proof -
  note r = ready(1) [unfolded switch_ready_def]
  let ?h = "handler_state fn ra s"
  let ?t = "fn (peek (gpr s ESP + 12) s) ?h"
  note d = h [unfolded handler_ok_def cdecl_def Let_def]
  have g: "gpr ?h EBX = c_ebx c" "gpr ?h EBP = c_ebp c" "gpr ?h ESI = c_esi c" "gpr ?h EDI = c_edi c"
    "gpr ?h ESP = c_esp c - 12" "ctl ?h CR2 = c_cr2 c" "ctl ?h CR3 = c_cr3 c"
    by (simp_all add: handler_state_eq(2) [OF ready])
  have cs: "bytes_at (c_esp c) 8 \<subseteq> Sb" using bytes_at_sub [of 12 8 20 "c_esp c - 12"] r by auto
  have area: "bytes_at (a + 0) 24 \<subseteq> bytes_at a 36" "bytes_at (b + 20) 4 \<subseteq> bytes_at b 36" "bytes_at (a + 28) 4 \<subseteq> bytes_at a 36"
    "bytes_at (gpr s ESP - 16 + 12) 4 \<subseteq> bytes_at (gpr s ESP - 16) 36"
    by (rule bytes_at_sub; simp)+
  have "bytes_at (c_esp c) 8 \<inter> bytes_at (c_esp c - 12) 12 = {}" by (rule bytes_at_apart; simp)
  moreover have "bytes_at (gpr s ESP - 4) 4 \<subseteq> Sa" using area(4) r by auto
  moreover have "Sa \<inter> Sb = {}" "bytes_at a 36 \<inter> Sb = {}" "bytes_at b 36 \<inter> Sb = {}" using r by auto
  ultimately have "bytes_at (c_esp c) 8 \<inter> switch_writes a b c s = {}"
    using cs area(1-3) unfolding switch_writes_def add_0_right by blast
  then have frame: "ram ?t x = ram s x" if "x \<in> bytes_at (c_esp c) 8" for x
    using that K d handler_frame [OF ready, of x fn ra] by (simp add: disjoint_iff subset_iff)
  have "load32 (ram ?t) (c_esp c + k) = load32 (ram s) (c_esp c + k)" if "unat k + 4 \<le> 8" for k
    using frame bytes_at_sub [OF that, of "c_esp c"] by (intro load32_agree) auto
  from this [of 0] this [of 4]
  have l: "load32 (ram ?t) (c_esp c) = c_flags c" "load32 (ram ?t) (c_esp c + 4) = c_eip c"
    using ready(2) by (auto simp: saved_context_def Let_def)
  show "resumes (gheith_contextSwitch fn ra s) c"
    using d g l by (simp add: resumes_def switch_runs Let_def peek_def flags_masked add.commute)
  show "x \<in> K \<Longrightarrow> ram (gheith_contextSwitch fn ra s) x = ram ?h x"
    using d by (simp add: switch_runs Let_def)
qed

subsection \<open>New threads (threads.h, threads.cc)\<close>

definition STACK_BYTES :: u32 where "STACK_BYTES = 8 * 1024"

definition STACK_WORDS :: u32 where "STACK_WORDS = STACK_BYTES div 4"

text \<open>
  The constructors \<^verbatim>\<open>TCB::TCB\<close> and \<^verbatim>\<open>TCBWithStack::TCBWithStack\<close> on the save area at \<open>a\<close> of the thread at \<open>tcb\<close>, for a
  process with page directory \<open>pd\<close> and the freshly allocated \<open>stack\<close>; \<open>entry\<close> is the address of the function \<^verbatim>\<open>entry\<close>.
\<close>

definition TCB_init :: "u32 \<Rightarrow> u32 \<Rightarrow> u32 \<Rightarrow> memory \<Rightarrow> memory" where
  "TCB_init a tcb pd m = store32 (store32 m (a + 24) tcb) (a + 32) pd"

definition TCBWithStack_init :: "u32 \<Rightarrow> u32 \<Rightarrow> u32 \<Rightarrow> u32 \<Rightarrow> u32 \<Rightarrow> memory \<Rightarrow> memory" where
  "TCBWithStack_init entry a tcb pd stack m =
     (let m = TCB_init a tcb pd m;
          m = set32 m stack (STACK_WORDS - 2) 0x200;
          m = set32 m stack (STACK_WORDS - 1) entry;
          m = store32 m (a + 20) 0
      in store32 m (a + 4) (stack + 4 * (STACK_WORDS - 2)))"

definition TCBWithStack_interruptEsp :: "u32 \<Rightarrow> u32" where
  "TCBWithStack_interruptEsp stack = stack + 4 * 2047"

lemma new_thread_context:
  fixes entry tcb pd :: u32 and m :: memory
  assumes "bytes_at a 36 \<inter> bytes_at stack 8192 = {}"
  defines "c \<equiv> saved_context (TCBWithStack_init entry a tcb pd stack m) a"
  shows "c_esp c = stack + 8184" "c_flags c = 0x200" "c_eip c = entry" "c_cr3 c = pd"
    "x \<notin> bytes_at a 36 \<union> bytes_at stack 8192 \<Longrightarrow> TCBWithStack_init entry a tcb pd stack m x = m x"
proof -
  have sep: "bytes_at (stack + k) 4 \<inter> bytes_at (a + d) 4 = {}" if "unat k + 4 \<le> 8192" "unat d + 4 \<le> 36" for k d
    using bytes_at_sub [OF that(1), of stack] bytes_at_sub [OF that(2), of a] assms(1) by blast
  have l: "load32 (store32 w (stack + k) v) (a + d) = load32 w (a + d)"
    "load32 (store32 w (a + d) v) (stack + k) = load32 w (stack + k)" if "unat k + 4 \<le> 8192" "unat d + 4 \<le> 36" for w k d v
    using sep [OF that] by (auto intro!: load_store_apart)
  show "c_esp c = stack + 8184" "c_flags c = 0x200" "c_eip c = entry" "c_cr3 c = pd"
    by (simp_all add: c_def saved_context_def TCBWithStack_init_def TCB_init_def Let_def set32_def STACK_WORDS_def
        STACK_BYTES_def load_store_far l add.assoc)
  assume x: "x \<notin> bytes_at a 36 \<union> bytes_at stack 8192"
  have "x \<notin> bytes_at (stack + k) 4" if "unat k + 4 \<le> 8192" for k using bytes_at_sub [OF that, of stack] x by blast
  from this [of 8184] this [of 8188] have s: "x \<notin> bytes_at (stack + 8184) 4" "x \<notin> bytes_at (stack + 8188) 4" by simp_all
  have "x \<notin> bytes_at (a + k) 4" if "unat k + 4 \<le> 36" for k using bytes_at_sub [OF that, of a] x by blast
  from this [of 4] this [of 20] this [of 24] this [of 32]
  show "TCBWithStack_init entry a tcb pd stack m x = m x"
    using s by (simp add: TCBWithStack_init_def TCB_init_def Let_def set32_def STACK_WORDS_def STACK_BYTES_def store32_elsewhere)
qed

subsection \<open>Cores that switch between threads\<close>

text \<open>
  Threads are named by the addresses of their save areas; \<open>stack_of\<close> gives the bytes of their stacks. Each core runs
  one thread; \<open>suspended\<close> records, for the threads that are switched out or new, the context they were suspended
  with. Save areas and stacks of the threads \<open>T\<close> are apart from each other.
\<close>

record thread_system =
  core_thread :: "nat \<Rightarrow> u32"
  core_cpu :: "nat \<Rightarrow> cpu"
  shared_ram :: memory
  suspended :: "u32 \<rightharpoonup> thread_context"

definition layout :: "u32 set \<Rightarrow> (u32 \<Rightarrow> u32 set) \<Rightarrow> bool" where
  "layout T stack_of \<longleftrightarrow>
     (\<forall>a \<in> T. bytes_at a 36 \<inter> stack_of a = {}) \<and>
     (\<forall>a \<in> T. \<forall>b \<in> T. a \<noteq> b \<longrightarrow> (bytes_at a 36 \<union> stack_of a) \<inter> (bytes_at b 36 \<union> stack_of b) = {})"

text \<open>The processor of core \<open>i\<close> with the memory it sees.\<close>

definition at_core :: "thread_system \<Rightarrow> nat \<Rightarrow> cpu" where
  "at_core \<sigma> i = (core_cpu \<sigma> i)\<lparr>ram := shared_ram \<sigma>\<rparr>"

definition suspended_bytes :: "(u32 \<rightharpoonup> thread_context) \<Rightarrow> u32 set" where
  "suspended_bytes sus = {x. \<exists>a c. sus a = Some c \<and> x \<in> context_bytes a c}"

datatype thread_event = Runs nat | Creates u32 | Switches nat u32 | Deletes u32

text \<open>
  A switch is a run of the whole routine, called by the thread the core runs with its own save area, for a suspended
  thread; the function it calls leaves suspended contexts, the new one included, and the target's frame alone.
\<close>

definition create_thread :: "u32 \<Rightarrow> u32 \<Rightarrow> u32 \<Rightarrow> u32 \<Rightarrow> u32 \<Rightarrow> thread_system \<Rightarrow> thread_system" where
  "create_thread entry a tcb pd stack \<sigma> =
     (let m = TCBWithStack_init entry a tcb pd stack (shared_ram \<sigma>)
      in \<sigma>\<lparr>shared_ram := m, suspended := (suspended \<sigma>)(a \<mapsto> saved_context m a)\<rparr>)"

definition switched_out :: "nat \<Rightarrow> u32 \<Rightarrow> thread_system \<Rightarrow> u32 \<rightharpoonup> thread_context" where
  "switched_out i b \<sigma> = (suspended \<sigma>)(b := None, core_thread \<sigma> i \<mapsto> calling_context (core_thread \<sigma> i) (at_core \<sigma> i))"

definition switch_thread :: "(u32 \<Rightarrow> cpu \<Rightarrow> cpu) \<Rightarrow> u32 \<Rightarrow> nat \<Rightarrow> u32 \<Rightarrow> thread_system \<Rightarrow> thread_system" where
  "switch_thread fn ra i b \<sigma> =
     (let s' = gheith_contextSwitch fn ra (at_core \<sigma> i)
      in \<sigma>\<lparr>core_thread := (core_thread \<sigma>)(i := b), core_cpu := (core_cpu \<sigma>)(i := s'), shared_ram := ram s',
           suspended := switched_out i b \<sigma>\<rparr>)"

definition may_switch :: "(u32 \<Rightarrow> cpu \<Rightarrow> cpu) \<Rightarrow> u32 \<Rightarrow> (u32 \<Rightarrow> u32 set) \<Rightarrow> nat \<Rightarrow> u32 \<Rightarrow> thread_context \<Rightarrow> thread_system \<Rightarrow> bool" where
  "may_switch fn ra stack_of i b c \<sigma> \<longleftrightarrow>
     (let s = at_core \<sigma> i in
      suspended \<sigma> b = Some c \<and> peek (gpr s ESP + 4) s = core_thread \<sigma> i \<and> peek (gpr s ESP + 8) s = b \<and>
      bytes_at (gpr s ESP - 16) 36 \<subseteq> stack_of (core_thread \<sigma> i) \<and>
      handler_ok (fn (peek (gpr s ESP + 12) s)) (suspended_bytes (switched_out i b \<sigma>) \<union> bytes_at (c_esp c) 8)
        (handler_state fn ra s))"

text \<open>Running code changes the registers of its core and memory, but not the contexts of suspended threads.\<close>

inductive thread_step ::
  "(u32 \<Rightarrow> cpu \<Rightarrow> cpu) \<Rightarrow> u32 \<Rightarrow> u32 \<Rightarrow> nat \<Rightarrow> u32 set \<Rightarrow> (u32 \<Rightarrow> u32 set) \<Rightarrow>
   thread_system \<Rightarrow> thread_event \<Rightarrow> thread_system \<Rightarrow> bool"
  for fn :: "u32 \<Rightarrow> cpu \<Rightarrow> cpu" and ra entry :: u32 and n :: nat and T :: "u32 set" and stack_of :: "u32 \<Rightarrow> u32 set"
where
  step_runs: "i < n \<Longrightarrow> \<forall>x \<in> suspended_bytes (suspended \<sigma>). ram s x = shared_ram \<sigma> x \<Longrightarrow>
    thread_step fn ra entry n T stack_of \<sigma> (Runs i) (\<sigma>\<lparr>core_cpu := (core_cpu \<sigma>)(i := s), shared_ram := ram s\<rparr>)"
| step_creates: "a \<in> T \<Longrightarrow> suspended \<sigma> a = None \<Longrightarrow> \<forall>i < n. core_thread \<sigma> i \<noteq> a \<Longrightarrow> bytes_at stack 8192 \<subseteq> stack_of a \<Longrightarrow>
    thread_step fn ra entry n T stack_of \<sigma> (Creates a) (create_thread entry a tcb pd stack \<sigma>)"
| step_switches: "i < n \<Longrightarrow> may_switch fn ra stack_of i b c \<sigma> \<Longrightarrow>
    thread_step fn ra entry n T stack_of \<sigma> (Switches i b) (switch_thread fn ra i b \<sigma>)"
| step_deletes: "thread_step fn ra entry n T stack_of \<sigma> (Deletes a) (\<sigma>\<lparr>suspended := (suspended \<sigma>)(a := None)\<rparr>)"

inductive_cases switches_cases: "thread_step fn ra entry n T stack_of \<sigma> (Switches i b) \<sigma>'"

inductive thread_steps ::
  "(u32 \<Rightarrow> cpu \<Rightarrow> cpu) \<Rightarrow> u32 \<Rightarrow> u32 \<Rightarrow> nat \<Rightarrow> u32 set \<Rightarrow> (u32 \<Rightarrow> u32 set) \<Rightarrow>
   thread_system \<Rightarrow> thread_event list \<Rightarrow> thread_system \<Rightarrow> bool"
  for fn :: "u32 \<Rightarrow> cpu \<Rightarrow> cpu" and ra entry :: u32 and n :: nat and T :: "u32 set" and stack_of :: "u32 \<Rightarrow> u32 set"
where
  steps_none: "thread_steps fn ra entry n T stack_of \<sigma> [] \<sigma>"
| steps_more: "thread_step fn ra entry n T stack_of \<sigma> e \<sigma>1 \<Longrightarrow>
    thread_steps fn ra entry n T stack_of \<sigma>1 es \<sigma>2 \<Longrightarrow>
    thread_steps fn ra entry n T stack_of \<sigma> (e # es) \<sigma>2"

text \<open>The invariant: memory holds the context of every suspended thread, with room on its stack.\<close>

definition contexts_ok :: "nat \<Rightarrow> u32 set \<Rightarrow> (u32 \<Rightarrow> u32 set) \<Rightarrow> thread_system \<Rightarrow> bool" where
  "contexts_ok totalCores T stack_of \<sigma> \<longleftrightarrow>
     (\<forall>a c. suspended \<sigma> a = Some c \<longrightarrow>
        a \<in> T \<and> saved_context (shared_ram \<sigma>) a = c \<and> bytes_at (c_esp c - 12) 20 \<subseteq> stack_of a) \<and>
     (\<forall>i < totalCores. core_thread \<sigma> i \<in> T \<and> suspended \<sigma> (core_thread \<sigma> i) = None) \<and>
     inj_on (core_thread \<sigma>) {..<totalCores}"

lemma suspended_bytesI: "sus a = Some c \<Longrightarrow> context_bytes a c \<subseteq> suspended_bytes sus"
  by (auto simp: suspended_bytes_def)

lemma suspended_region:
  assumes "contexts_ok n T stack_of \<sigma>" "suspended \<sigma> a = Some c"
  shows "context_bytes a c \<subseteq> bytes_at a 36 \<union> stack_of a"
proof -
  have "bytes_at (c_esp c - 12 + 12) 8 \<subseteq> bytes_at (c_esp c - 12) 20" by (rule bytes_at_sub) simp
  then show ?thesis using assms by (intro context_bytes_area) (auto simp: contexts_ok_def)
qed

lemma contexts_ok_keep:
  assumes "contexts_ok n T stack_of \<sigma>" "suspended \<sigma> a = Some c"
    and "\<And>x. x \<in> context_bytes a c \<Longrightarrow> m x = shared_ram \<sigma> x"
  shows "saved_context m a = c"
proof -
  have "saved_context (shared_ram \<sigma>) a = c" using assms(1,2) by (simp add: contexts_ok_def)
  then show ?thesis using saved_context_agree [of a "shared_ram \<sigma>" m] assms(3) by simp
qed

lemma switches_ready:
  assumes inv: "contexts_ok n T stack_of \<sigma>" and lay: "layout T stack_of" and i: "i < n"
    and may: "may_switch fn ra stack_of i b c \<sigma>"
  shows "switch_ready (stack_of (core_thread \<sigma> i)) (stack_of b) (core_thread \<sigma> i) b c (at_core \<sigma> i)"
    "saved_context (ram (at_core \<sigma> i)) b = c" "core_thread \<sigma> i \<noteq> b"
proof -
  let ?a = "core_thread \<sigma> i"
  note m = may [unfolded may_switch_def Let_def]
  have a: "?a \<in> T" "b \<in> T" "saved_context (shared_ram \<sigma>) b = c" "bytes_at (c_esp c - 12) 20 \<subseteq> stack_of b"
    using inv i m by (auto simp: contexts_ok_def)
  show ne: "?a \<noteq> b" using inv i m by (auto simp: contexts_ok_def)
  have "bytes_at ?a 36 \<inter> stack_of ?a = {}" "bytes_at b 36 \<inter> stack_of b = {}"
    "(bytes_at ?a 36 \<union> stack_of ?a) \<inter> (bytes_at b 36 \<union> stack_of b) = {}"
    using lay a ne by (simp_all add: layout_def)
  then show "switch_ready (stack_of ?a) (stack_of b) ?a b c (at_core \<sigma> i)"
    using m a(4) by (simp add: switch_ready_def)
  show "saved_context (ram (at_core \<sigma> i)) b = c" using a(3) by (simp add: at_core_def)
qed

lemma layout_apart:
  "layout T stack_of \<Longrightarrow> a \<in> T \<Longrightarrow> b \<in> T \<Longrightarrow> a \<noteq> b \<Longrightarrow>
   (bytes_at a 36 \<union> stack_of a) \<inter> (bytes_at b 36 \<union> stack_of b) = {}"
  by (simp add: layout_def)

lemma switch_writes_region:
  assumes "switch_ready Sa Sb a b c s"
  shows "switch_writes a b c s \<subseteq> (bytes_at a 36 \<union> Sa) \<union> (bytes_at b 36 \<union> Sb)"
proof -
  note r = assms [unfolded switch_ready_def]
  have "bytes_at (a + 0) 24 \<subseteq> bytes_at a 36" "bytes_at (b + 20) 4 \<subseteq> bytes_at b 36" "bytes_at (a + 28) 4 \<subseteq> bytes_at a 36"
    "bytes_at (gpr s ESP - 16 + 12) 4 \<subseteq> bytes_at (gpr s ESP - 16) 36" "bytes_at (c_esp c - 12 + 0) 12 \<subseteq> bytes_at (c_esp c - 12) 20"
    by (rule bytes_at_sub; simp)+
  moreover have "gpr s ESP - 16 + 12 = gpr s ESP - 4" by simp
  ultimately show ?thesis using r unfolding switch_writes_def by auto
qed

text \<open>After a switch memory still holds the contexts of the threads that stay suspended, and that of the source.\<close>

lemma switch_keeps_contexts:
  assumes inv: "contexts_ok n T stack_of \<sigma>" and lay: "layout T stack_of" and i: "i < n"
    and may: "may_switch fn ra stack_of i b c \<sigma>" and d: "switched_out i b \<sigma> d = Some e"
  shows "saved_context (ram (gheith_contextSwitch fn ra (at_core \<sigma> i))) d = e"
proof -
  let ?s = "at_core \<sigma> i" and ?a = "core_thread \<sigma> i" and ?K = "suspended_bytes (switched_out i b \<sigma>) \<union> bytes_at (c_esp c) 8"
  note ready = switches_ready [OF inv lay i may]
  have h: "handler_ok (fn (peek (gpr ?s ESP + 12) ?s)) ?K (handler_state fn ra ?s)"
    using may by (simp add: may_switch_def Let_def)
  have K: "context_bytes d e \<subseteq> ?K" using suspended_bytesI [where sus = "switched_out i b \<sigma>", OF d] by auto
  have same: "ram (gheith_contextSwitch fn ra ?s) x = ram (handler_state fn ra ?s) x" if "x \<in> context_bytes d e" for x
    using switch_resumes(2) [where a = ?a and b = b and c = c, OF ready(1,2) h] that K by auto
  have "saved_context (ram (handler_state fn ra ?s)) d = e"
  proof (cases "d = ?a")
    case True
    then show ?thesis using handler_saved [OF ready(1,2)] d by (simp add: switched_out_def)
  next
    case False
    then have e: "suspended \<sigma> d = Some e" "d \<noteq> b" using d by (auto simp: switched_out_def split: if_splits)
    have T: "d \<in> T" "?a \<in> T" "b \<in> T" using inv i e may by (auto simp: contexts_ok_def may_switch_def Let_def)
    have "context_bytes d e \<inter> switch_writes ?a b c ?s = {}"
      using suspended_region [OF inv e(1)] switch_writes_region [OF ready(1)]
        layout_apart [OF lay T(1,2) False] layout_apart [OF lay T(1,3) e(2)] by blast
    then have "ram (handler_state fn ra ?s) x = ram ?s x" if "x \<in> context_bytes d e" for x
      using that by (intro handler_frame [OF ready(1,2)]) blast
    then show ?thesis by (intro contexts_ok_keep [OF inv e(1)]) (simp add: at_core_def)
  qed
  then show ?thesis
    using saved_context_agree [of d "ram (handler_state fn ra ?s)" "ram (gheith_contextSwitch fn ra ?s)"] same by simp
qed

lemma contexts_ok_switches:
  assumes inv: "contexts_ok n T stack_of \<sigma>" and lay: "layout T stack_of" and i: "i < n"
    and may: "may_switch fn ra stack_of i b c \<sigma>"
  shows "contexts_ok n T stack_of (switch_thread fn ra i b \<sigma>)"
proof -
  let ?s = "at_core \<sigma> i" and ?a = "core_thread \<sigma> i"
  note m = may [unfolded may_switch_def Let_def]
  have T: "?a \<in> T" "b \<in> T" "?a \<noteq> b" using inv i m by (auto simp: contexts_ok_def)
  have room: "d \<in> T \<and> bytes_at (c_esp e - 12) 20 \<subseteq> stack_of d" if "switched_out i b \<sigma> d = Some e" for d e
  proof (cases "d = ?a")
    case True
    have "bytes_at (gpr ?s ESP - 16 + 0) 20 \<subseteq> bytes_at (gpr ?s ESP - 16) 36" by (rule bytes_at_sub) simp
    moreover have "c_esp e = gpr ?s ESP - 4" using that True by (auto simp: switched_out_def calling_context_def)
    then have "c_esp e - 12 = gpr ?s ESP - 16 + 0" by simp
    ultimately have "bytes_at (c_esp e - 12) 20 \<subseteq> bytes_at (gpr ?s ESP - 16) 36" by metis
    then show ?thesis using True m T(1) by blast
  next
    case False
    then show ?thesis using that inv by (auto simp: switched_out_def contexts_ok_def split: if_splits)
  qed
  have act: "j = i" if "j < n" "core_thread \<sigma> j = ?a" for j using that i inv by (auto simp: contexts_ok_def inj_on_def)
  have nb: "core_thread \<sigma> j \<noteq> b" if "j < n" for j using that inv m by (auto simp: contexts_ok_def)
  have "inj_on ((core_thread \<sigma>)(i := b)) {..<n}"
    using inv nb by (auto simp: contexts_ok_def inj_on_def)
  moreover have "((core_thread \<sigma>)(i := b)) j \<in> T \<and> switched_out i b \<sigma> (((core_thread \<sigma>)(i := b)) j) = None" if "j < n" for j
    using that inv T act nb by (auto simp: switched_out_def contexts_ok_def)
  ultimately show ?thesis
    using switch_keeps_contexts [OF inv lay i may] room by (simp add: contexts_ok_def switch_thread_def Let_def)
qed

lemma contexts_ok_step:
  assumes "thread_step fn ra entry n T stack_of \<sigma> e \<sigma>'" "contexts_ok n T stack_of \<sigma>" "layout T stack_of"
  shows "contexts_ok n T stack_of \<sigma>'"
  using assms
proof (induction rule: thread_step.induct)
  case (step_runs i \<sigma> s)
  have "saved_context (ram s) a = c" if "suspended \<sigma> a = Some c" for a c
    using step_runs(2) suspended_bytesI [where sus = "suspended \<sigma>", OF that] by (intro contexts_ok_keep [OF step_runs(3) that]) auto
  then show ?case using step_runs(3) by (simp add: contexts_ok_def)
next
  case (step_creates a \<sigma> stack tcb pd)
  let ?m = "TCBWithStack_init entry a tcb pd stack (shared_ram \<sigma>)"
  have sep: "bytes_at a 36 \<inter> bytes_at stack 8192 = {}" using step_creates by (auto simp: layout_def)
  note new = new_thread_context [OF sep, where entry = entry and tcb = tcb and pd = pd and m = "shared_ram \<sigma>"]
  have "bytes_at (stack + 8172) 20 \<subseteq> stack_of a"
    using bytes_at_sub [of 8172 20 8192 stack] step_creates(4) by auto
  then have new_room: "bytes_at (c_esp (saved_context ?m a) - 12) 20 \<subseteq> stack_of a" using new(1) by (simp add: add.commute)
  have "saved_context ?m d = e" if d: "suspended \<sigma> d = Some e" for d e
  proof (rule contexts_ok_keep [OF step_creates(5) d])
    fix x assume "x \<in> context_bytes d e"
    then have "x \<in> bytes_at d 36 \<union> stack_of d" using suspended_region [OF step_creates(5) d] by auto
    moreover have "d \<in> T" "d \<noteq> a" using d step_creates by (auto simp: contexts_ok_def)
    ultimately have "x \<notin> bytes_at a 36 \<union> bytes_at stack 8192"
      using layout_apart [OF step_creates(6), of d a] step_creates(1,4) by blast
    then show "?m x = shared_ram \<sigma> x" by (rule new(5))
  qed
  then show ?case
    using step_creates new_room by (auto simp: contexts_ok_def create_thread_def Let_def)
next
  case (step_switches i b c \<sigma>)
  then show ?case by (intro contexts_ok_switches)
next
  case (step_deletes \<sigma> a)
  then show ?case by (auto simp: contexts_ok_def)
qed

lemma contexts_ok_steps:
  "thread_steps fn ra entry n T stack_of \<sigma> es \<sigma>' \<Longrightarrow> layout T stack_of \<Longrightarrow> contexts_ok n T stack_of \<sigma> \<Longrightarrow>
   contexts_ok n T stack_of \<sigma>'"
  by (induction rule: thread_steps.induct) (auto dest: contexts_ok_step)

text \<open>At the start no thread is suspended, and the cores run different threads.\<close>

definition system_start :: "nat \<Rightarrow> u32 set \<Rightarrow> thread_system \<Rightarrow> bool" where
  "system_start n T \<sigma> \<longleftrightarrow>
     suspended \<sigma> = Map.empty \<and> (\<forall>i < n. core_thread \<sigma> i \<in> T) \<and> inj_on (core_thread \<sigma>) {..<n}"

lemma contexts_ok_start: "system_start n T \<sigma> \<Longrightarrow> contexts_ok n T stack_of \<sigma>"
  by (simp add: system_start_def contexts_ok_def)

fun ends_suspension :: "u32 \<Rightarrow> thread_event \<Rightarrow> bool" where
  "ends_suspension a (Switches i b) = (b = a)"
| "ends_suspension a (Deletes b) = (b = a)"
| "ends_suspension a _ = False"

lemma suspended_step:
  assumes "thread_step fn ra entry n T stack_of \<sigma> e \<sigma>'" "contexts_ok n T stack_of \<sigma>"
    "suspended \<sigma> a = Some c" "\<not> ends_suspension a e"
  shows "suspended \<sigma>' a = Some c"
  using assms
  by (induction rule: thread_step.induct)
     (auto simp: create_thread_def switch_thread_def switched_out_def contexts_ok_def Let_def)

lemma suspended_steps:
  assumes "thread_steps fn ra entry n T stack_of \<sigma> es \<sigma>'" "layout T stack_of" "contexts_ok n T stack_of \<sigma>"
    "suspended \<sigma> a = Some c" "\<not> list_ex (ends_suspension a) es"
  shows "suspended \<sigma>' a = Some c"
  using assms by (induction rule: thread_steps.induct) (auto dest: contexts_ok_step suspended_step)

lemma switch_step_resumes:
  assumes "thread_step fn ra entry n T stack_of \<sigma> (Switches i b) \<sigma>'" "layout T stack_of" "contexts_ok n T stack_of \<sigma>"
    "suspended \<sigma> b = Some c"
  shows "resumes (core_cpu \<sigma>' i) c"
proof -
  obtain c' where step: "\<sigma>' = switch_thread fn ra i b \<sigma>" "i < n" "may_switch fn ra stack_of i b c' \<sigma>"
    using assms(1) by (elim switches_cases)
  then have c: "c' = c" using assms(4) by (simp add: may_switch_def Let_def)
  note may = step(3) [unfolded c]
  note ready = switches_ready [OF assms(3,2) step(2) may]
  have "resumes (gheith_contextSwitch fn ra (at_core \<sigma> i)) c"
    using may by (intro switch_resumes(1) [OF ready(1,2)]) (auto simp: may_switch_def Let_def)
  then show ?thesis using step(1) by (simp add: switch_thread_def Let_def)
qed

subsection \<open>Round trip\<close>

text \<open>
  \<^bold>\<open>C6.\<close> A thread resumes where it stopped (\<^verbatim>\<open>gheith_contextSwitch\<close> in context.s, executed instruction by instruction
  on registers, save areas and stacks). Let threads with separate save areas and stacks run on \<open>n\<close> cores from a start in
  which none is suspended. If the thread running on core \<open>i\<close> calls the routine and so is switched out, and after any
  number of other events (other threads running on their stacks and in the rest of memory, new threads, switches between other
  threads, deletions of others) some core \<open>j\<close> switches to it, then on core \<open>j\<close> the routine returns to the
  caller of the suspended thread: the callee-saved registers and the stack pointer above the return address are
  those of its call, the program counter is its return address, interrupts and the other flags are as they were, \<^verbatim>\<open>%cr2\<close>
  is the fault address it had, and \<^verbatim>\<open>%cr3\<close> the page directory of its save area. The functions the routine calls
  are assumed to follow the calling convention and to leave suspended contexts alone.
\<close>

theorem thread_resumes_where_it_stopped:
  assumes "layout T stack_of" "system_start n T \<sigma>" "thread_steps fn ra entry n T stack_of \<sigma> es0 \<sigma>0"
    and out: "thread_step fn ra entry n T stack_of \<sigma>0 (Switches i b) \<sigma>1"
    and between: "thread_steps fn ra entry n T stack_of \<sigma>1 es \<sigma>2" "\<not> list_ex (ends_suspension (core_thread \<sigma>0 i)) es"
    and again: "thread_step fn ra entry n T stack_of \<sigma>2 (Switches j (core_thread \<sigma>0 i)) \<sigma>3"
  shows "(let s = at_core \<sigma>0 i; t = core_cpu \<sigma>3 j in
      gpr t EBX = gpr s EBX \<and> gpr t EBP = gpr s EBP \<and> gpr t ESI = gpr s ESI \<and> gpr t EDI = gpr s EDI \<and>
      gpr t ESP = gpr s ESP + 4 \<and> eip t = stack_top s \<and> eflags t AND popf_mask = eflags s AND popf_mask \<and>
      ctl t CR2 = ctl s CR2 \<and> ctl t CR3 = peek (core_thread \<sigma>0 i + 32) s)"
proof -
  let ?a = "core_thread \<sigma>0 i"
  let ?c = "calling_context ?a (at_core \<sigma>0 i)"
  note ok0 = contexts_ok_steps [OF assms(3,1) contexts_ok_start [OF assms(2)]]
  have ok1: "contexts_ok n T stack_of \<sigma>1" by (rule contexts_ok_step [OF out ok0 assms(1)])
  have "suspended \<sigma>1 ?a = Some ?c" using out by (elim switches_cases) (simp add: switch_thread_def switched_out_def Let_def)
  then have "suspended \<sigma>2 ?a = Some ?c" by (rule suspended_steps [OF between(1) assms(1) ok1 _ between(2)])
  then have "resumes (core_cpu \<sigma>3 j) ?c"
    by (rule switch_step_resumes [OF again assms(1) contexts_ok_steps [OF between(1) assms(1) ok1]])
  then show ?thesis by (simp add: resumes_def calling_context_def flags_masked)
qed

text \<open>
  A new thread starts in \<^verbatim>\<open>entry\<close> (the constructors in threads.cc): whenever it is switched to for the first time, the program
  counter is \<^verbatim>\<open>entry\<close>, interrupts are enabled, the stack is empty up to its end, and \<^verbatim>\<open>%cr3\<close> is the page
  directory of its process.
\<close>

lemma new_thread_starts_in_entry:
  assumes "layout T stack_of" "system_start n T \<sigma>" "thread_steps fn ra entry n T stack_of \<sigma> es0 \<sigma>0"
    and new: "thread_step fn ra entry n T stack_of \<sigma>0 (Creates a) (create_thread entry a tcb pd stack \<sigma>0)"
      "bytes_at stack 8192 \<subseteq> stack_of a"
    and between: "thread_steps fn ra entry n T stack_of (create_thread entry a tcb pd stack \<sigma>0) es \<sigma>2"
      "\<not> list_ex (ends_suspension a) es"
    and first: "thread_step fn ra entry n T stack_of \<sigma>2 (Switches j a) \<sigma>3"
  shows "eip (core_cpu \<sigma>3 j) = entry \<and> bit (eflags (core_cpu \<sigma>3 j)) 9 \<and>
    gpr (core_cpu \<sigma>3 j) ESP = stack + 4 * STACK_WORDS \<and> ctl (core_cpu \<sigma>3 j) CR3 = pd"
proof -
  let ?m = "TCBWithStack_init entry a tcb pd stack (shared_ram \<sigma>0)"
  note ok1 = contexts_ok_step [OF new(1) contexts_ok_steps [OF assms(3,1) contexts_ok_start [OF assms(2)]] assms(1)]
  have a: "suspended (create_thread entry a tcb pd stack \<sigma>0) a = Some (saved_context ?m a)"
    by (simp add: create_thread_def Let_def)
  then have "a \<in> T" using ok1 by (auto simp: contexts_ok_def)
  then have sep: "bytes_at a 36 \<inter> bytes_at stack 8192 = {}" using new(2) assms(1) by (auto simp: layout_def)
  note c = new_thread_context [OF sep, where entry = entry and tcb = tcb and pd = pd and m = "shared_ram \<sigma>0"]
  have "suspended \<sigma>2 a = Some (saved_context ?m a)" by (rule suspended_steps [OF between(1) assms(1) ok1 a between(2)])
  then have r: "resumes (core_cpu \<sigma>3 j) (saved_context ?m a)"
    by (rule switch_step_resumes [OF first assms(1) contexts_ok_steps [OF between(1) assms(1) ok1]])
  then have "bit (eflags (core_cpu \<sigma>3 j) AND popf_mask) 9 = bit (0x200 AND popf_mask :: u32) 9"
    using c(2) by (simp add: resumes_def)
  then have "bit (eflags (core_cpu \<sigma>3 j)) 9" by (simp add: popf_mask_def bit_and_iff)
  then show ?thesis using r c by (simp add: resumes_def STACK_WORDS_def STACK_BYTES_def)
qed

text \<open>Two threads on one core, with a function that returns at once.\<close>

definition demo_fn :: "u32 \<Rightarrow> cpu \<Rightarrow> cpu" where
  "demo_fn f s = (drop_top s)\<lparr>eip := stack_top s\<rparr>"

definition demo_stack :: "u32 \<Rightarrow> u32 set" where
  "demo_stack a = (if a = 0x1000 then bytes_at 0x10000 8192 else bytes_at 0x20000 8192)"

definition demo_system :: thread_system where
  "demo_system =
     \<lparr>core_thread = (\<lambda>_. 0x1000),
      core_cpu = (\<lambda>_. \<lparr>gpr = (\<lambda>_. 7), ctl = (\<lambda>_. 0), eflags = 0x202, sel_cs = 8, sel_ss = 16, eip = 0, ram = (\<lambda>_. 0)\<rparr>),
      shared_ram = (\<lambda>_. 0), suspended = Map.empty\<rparr>"

lemma demo_fn_ok: "handler_ok (demo_fn f) K s"
  by (simp add: handler_ok_def cdecl_def demo_fn_def Let_def drop_top_def set_gpr_def)

lemma demo_layout: "layout {0x1000, 0x2000} demo_stack"
proof -
  have "bytes_at 0x1000 36 \<inter> bytes_at 0x10000 8192 = {}" "bytes_at 0x2000 36 \<inter> bytes_at 0x20000 8192 = {}"
    "bytes_at 0x1000 36 \<inter> bytes_at 0x2000 36 = {}" "bytes_at 0x1000 36 \<inter> bytes_at 0x20000 8192 = {}"
    "bytes_at 0x10000 8192 \<inter> bytes_at 0x2000 36 = {}" "bytes_at 0x10000 8192 \<inter> bytes_at 0x20000 8192 = {}"
    by (rule bytes_at_apart; simp)+
  then show ?thesis by (auto simp: layout_def demo_stack_def)
qed

text \<open>A thread that runs, pushes the arguments of the routine and calls it.\<close>

lemma runs_and_switches:
  assumes ok: "contexts_ok 1 T stack_of \<sigma>" and lay: "layout T stack_of" and b: "suspended \<sigma> b = Some c"
    and room: "bytes_at (sp - 16) 36 \<subseteq> stack_of (core_thread \<sigma> 0)"
  shows "\<exists>\<sigma>1 \<sigma>2. thread_step demo_fn ra entry 1 T stack_of \<sigma> (Runs 0) \<sigma>1 \<and>
    thread_step demo_fn ra entry 1 T stack_of \<sigma>1 (Switches 0 b) \<sigma>2 \<and> core_thread \<sigma>1 0 = core_thread \<sigma> 0 \<and>
    gpr (at_core \<sigma>1 0) EBX = gpr (core_cpu \<sigma> 0) EBX \<and> core_thread \<sigma>2 0 = b \<and>
    (\<exists>c'. suspended \<sigma>2 (core_thread \<sigma> 0) = Some c')"
proof -
  let ?a = "core_thread \<sigma> 0"
  let ?m = "store32 (store32 (shared_ram \<sigma>) (sp + 4) ?a) (sp + 8) b"
  let ?s = "(core_cpu \<sigma> 0)\<lparr>gpr := (gpr (core_cpu \<sigma> 0))(ESP := sp), ram := ?m\<rparr>"
  let ?\<sigma>1 = "\<sigma>\<lparr>core_cpu := (core_cpu \<sigma>)(0 := ?s), shared_ram := ram ?s\<rparr>"
  have "bytes_at (sp - 16 + 20) 4 \<subseteq> bytes_at (sp - 16) 36" "bytes_at (sp - 16 + 24) 4 \<subseteq> bytes_at (sp - 16) 36"
    by (rule bytes_at_sub; simp)+
  moreover have "sp - 16 + 20 = sp + 4" "sp - 16 + 24 = sp + 8" by simp_all
  ultimately have args: "bytes_at (sp + 4) 4 \<subseteq> stack_of ?a" "bytes_at (sp + 8) 4 \<subseteq> stack_of ?a" using room by auto
  have "?m x = shared_ram \<sigma> x" if x: "x \<in> suspended_bytes (suspended \<sigma>)" for x
  proof -
    obtain d e where d: "suspended \<sigma> d = Some e" "x \<in> context_bytes d e" using x by (auto simp: suspended_bytes_def)
    have "d \<in> T" "?a \<in> T" "d \<noteq> ?a" using ok d by (auto simp: contexts_ok_def)
    then have "x \<notin> stack_of ?a" using layout_apart [OF lay, of d ?a] suspended_region [OF ok d(1)] d(2) by auto
    then have "x \<notin> bytes_at (sp + 4) 4" "x \<notin> bytes_at (sp + 8) 4" using args by auto
    then show ?thesis by (simp add: store32_elsewhere)
  qed
  then have run: "thread_step demo_fn ra entry 1 T stack_of \<sigma> (Runs 0) ?\<sigma>1" by (intro step_runs) simp_all
  have "at_core ?\<sigma>1 0 = ?s" by (simp add: at_core_def)
  then have "may_switch demo_fn ra stack_of 0 b c ?\<sigma>1"
    using b room by (simp add: may_switch_def Let_def demo_fn_ok peek_def load_store_far)
  then have "thread_step demo_fn ra entry 1 T stack_of ?\<sigma>1 (Switches 0 b) (switch_thread demo_fn ra 0 b ?\<sigma>1)"
    by (intro step_switches) simp_all
  with run show ?thesis
    by (intro exI conjI) (assumption | simp add: at_core_def switch_thread_def switched_out_def Let_def)+
qed

theorem thread_resumes_where_it_stopped_witness:
  "\<exists>\<sigma>0 \<sigma>1 \<sigma>2 \<sigma>3. thread_step demo_fn 0x100 0x200 1 {0x1000, 0x2000} demo_stack \<sigma>0 (Switches 0 0x2000) \<sigma>1 \<and>
     thread_steps demo_fn 0x100 0x200 1 {0x1000, 0x2000} demo_stack \<sigma>1 [Runs 0] \<sigma>2 \<and>
     thread_step demo_fn 0x100 0x200 1 {0x1000, 0x2000} demo_stack \<sigma>2 (Switches 0 0x1000) \<sigma>3 \<and>
     gpr (at_core \<sigma>0 0) EBX = 7 \<and> gpr (core_cpu \<sigma>3 0) EBX = 7"
proof -
  let ?T = "{0x1000, 0x2000} :: u32 set"
  let ?step = "thread_step demo_fn 0x100 0x200 1 ?T demo_stack" and ?steps = "thread_steps demo_fn 0x100 0x200 1 ?T demo_stack"
  let ?\<sigma> = "create_thread 0x200 0x2000 0x2000 0x3000 0x20000 demo_system"
  have start: "system_start 1 ?T demo_system" by (simp add: system_start_def demo_system_def lessThan_Suc)
  have create: "?step demo_system (Creates 0x2000) ?\<sigma>"
    by (rule step_creates) (simp_all add: demo_system_def demo_stack_def)
  have ok: "contexts_ok 1 ?T demo_stack ?\<sigma>" by (rule contexts_ok_step [OF create contexts_ok_start [OF start] demo_layout])
  have f: "suspended ?\<sigma> 0x2000 = Some (saved_context (shared_ram ?\<sigma>) 0x2000)" "core_thread ?\<sigma> 0 = 0x1000" "gpr (core_cpu ?\<sigma> 0) EBX = 7"
    by (simp_all add: create_thread_def demo_system_def Let_def)
  have "bytes_at (0x11000 - 16) 36 \<subseteq> demo_stack (core_thread ?\<sigma> 0)"
    using bytes_at_sub [of 4080 36 8192 "0x10000"] f(2) by (simp add: demo_stack_def)
  from runs_and_switches [OF ok demo_layout f(1) this, of "0x100" "0x200"]
  obtain \<sigma>0 \<sigma>1 c where a: "?step ?\<sigma> (Runs 0) \<sigma>0" "?step \<sigma>0 (Switches 0 0x2000) \<sigma>1" "core_thread \<sigma>0 0 = 0x1000"
    "gpr (at_core \<sigma>0 0) EBX = 7" "core_thread \<sigma>1 0 = 0x2000" "suspended \<sigma>1 0x1000 = Some c"
    using f by auto
  have ok1: "contexts_ok 1 ?T demo_stack \<sigma>1"
    by (rule contexts_ok_step [OF a(2) contexts_ok_step [OF a(1) ok demo_layout] demo_layout])
  have "bytes_at (0x21000 - 16) 36 \<subseteq> demo_stack (core_thread \<sigma>1 0)"
    using bytes_at_sub [of 4080 36 8192 "0x20000"] a(5) by (simp add: demo_stack_def)
  from runs_and_switches [OF ok1 demo_layout a(6) this, of "0x100" "0x200"]
  obtain \<sigma>2 \<sigma>3 where z: "?step \<sigma>1 (Runs 0) \<sigma>2" "?step \<sigma>2 (Switches 0 0x1000) \<sigma>3" by auto
  have steps: "?steps demo_system [Creates 0x2000, Runs 0] \<sigma>0" "?steps \<sigma>1 [Runs 0] \<sigma>2"
    using create a(1) z(1) by (auto intro: thread_steps.intros)
  have "gpr (core_cpu \<sigma>3 0) EBX = 7"
    using thread_resumes_where_it_stopped [OF demo_layout start steps(1) a(2) steps(2), of 0 \<sigma>3] a(3,4) z(2)
    by (simp add: Let_def)
  then show ?thesis using a steps z by blast
qed

end
