(* ===== verification/Trap_Entry.thy ===== *)
theory Trap_Entry
  imports Machine_Code
begin

text \<open>
  The trap, interrupt and user-mode entry sequences of \<^verbatim>\<open>kernel/machine.S\<close> as instruction lists, and what the processor
  does when an interrupt or exception reaches a gate that \<^verbatim>\<open>idt.cc\<close> has set up. The lemmas show that a page fault and
  a timer interrupt are invisible to the code they interrupt, where the C++ handlers find their arguments, and
  with which registers user code starts.
\<close>

subsection \<open>The sequences (machine.S)\<close>

text \<open>The argument is the address of the C++ handler.\<close>

definition code_apitHandler :: "u32 \<Rightarrow> instr list" where
  "code_apitHandler apitHandler = [Pusha, PushReg ESP, CallFn apitHandler, PopReg ESP, Popa, Iret]"

definition code_pageFaultHandler :: "u32 \<Rightarrow> instr list" where
  "code_pageFaultHandler vmm_pageFault =
    [Pusha, MovReg ESP EAX, PushReg EAX, MovFrom CR2 EAX, PushReg EAX, CallFn vmm_pageFault,
     AddReg 8 ESP, Popa, AddReg 4 ESP, Iret]"

definition code_sysHandler :: "u32 \<Rightarrow> instr list" where
  "code_sysHandler sysHandler = [PushReg ESP, PushReg EAX, CallFn sysHandler, AddReg 8 ESP, Iret]"

definition code_vmm_on :: "instr list" where
  "code_vmm_on = [MovLoad 4 ESP EAX, MovTo EAX CR3, MovFrom CR0 EAX, OrReg 0x80000000 EAX, MovTo EAX CR0, Ret]"

definition code_getCR3 :: "instr list" where
  "code_getCR3 = [MovFrom CR3 EAX, Ret]"

definition code_getFlags :: "instr list" where
  "code_getFlags = [Pushf, PopReg EAX, Ret]"

definition code_cli :: "instr list" where
  "code_cli = [Cli, Ret]"

definition code_sti :: "instr list" where
  "code_sti = [Sti, Ret]"

text \<open>The selectors for user code are in the variables at \<open>userCS\<close> and \<open>userSS\<close>.\<close>

definition code_switchToUser :: "u32 \<Rightarrow> u32 \<Rightarrow> instr list" where
  "code_switchToUser userCS userSS =
    [MovLoad 4 ESP ECX, MovLoad 8 ESP EBX, MovLoad 12 ESP EAX,
     PushVar userSS, PushReg EBX, Pushf, OrMem 0x200 ESP, PushVar userCS, PushReg ECX, Iret]"

subsection \<open>Entering a gate\<close>

text \<open>
  From user code the processor first changes to the stack \<open>esp0\<close> of the task state segment and saves the user's
  stack there. Interrupt gates also clear the interrupt flag; a page fault pushes an error code.
\<close>

definition trap_push :: "u32 \<Rightarrow> u32 \<Rightarrow> cpu \<Rightarrow> cpu" where
  "trap_push esp0 ss0 s =
     (let s1 = (if sel_cs s AND 3 \<noteq> 0 then push (gpr s ESP) (push (sel_ss s) ((set_gpr ESP esp0 s)\<lparr>sel_ss := ss0\<rparr>)) else s)
      in push (eip s) (push (sel_cs s) (push (eflags s) s1)))"

definition trap_enter :: "bool \<Rightarrow> u32 \<Rightarrow> u32 \<Rightarrow> u32 \<Rightarrow> u32 \<Rightarrow> u32 option \<Rightarrow> cpu \<Rightarrow> cpu" where
  "trap_enter interrupt_gate esp0 ss0 kernelCS target err s =
     (let s1 = trap_push esp0 ss0 s;
          s2 = (case err of None \<Rightarrow> s1 | Some e \<Rightarrow> push e s1)
      in s2\<lparr>sel_cs := kernelCS, eip := target,
            eflags := (if interrupt_gate then unset_bit 9 else id) (eflags s AND 0xfffcbeff)\<rparr>)"

text \<open>The stack pointer after the frame of a trap, without an error code.\<close>

definition frame_esp :: "u32 \<Rightarrow> cpu \<Rightarrow> u32" where
  "frame_esp esp0 s = (if sel_cs s AND 3 \<noteq> 0 then esp0 - 20 else gpr s ESP - 12)"

definition frame_bytes_of :: "u32 \<Rightarrow> cpu \<Rightarrow> u32 set" where
  "frame_bytes_of esp0 s = bytes_at (frame_esp esp0 s) (if sel_cs s AND 3 \<noteq> 0 then 20 else 12)"

subsection \<open>Saving and restoring\<close>

lemma loads_agree:
  assumes "\<And>x. x \<in> bytes_at p n \<Longrightarrow> m x = m' x" "unat d + 4 \<le> n"
  shows "load32 m (p + d) = load32 m' (p + d)"
  using assms bytes_at_sub [OF assms(2), of p] by (intro load32_agree) auto

lemma pusha_eq:
  "pusha s = s\<lparr>gpr := (gpr s)(ESP := gpr s ESP - 32),
     ram := store32 (store32 (store32 (store32 (store32 (store32 (store32 (store32 (ram s)
       (gpr s ESP - 4) (gpr s EAX)) (gpr s ESP - 8) (gpr s ECX)) (gpr s ESP - 12) (gpr s EDX)) (gpr s ESP - 16) (gpr s EBX))
       (gpr s ESP - 20) (gpr s ESP)) (gpr s ESP - 24) (gpr s EBP)) (gpr s ESP - 28) (gpr s ESI)) (gpr s ESP - 32) (gpr s EDI)\<rparr>"
  by (simp add: pusha_def machine_ops)

lemma popa_eq:
  "popa t = (let p = gpr t ESP; m = ram t in
     t\<lparr>gpr := (gpr t)(EDI := load32 m p, ESI := load32 m (p + 4), EBP := load32 m (p + 8), EBX := load32 m (p + 16),
       EDX := load32 m (p + 20), ECX := load32 m (p + 24), EAX := load32 m (p + 28), ESP := p + 32)\<rparr>)"
  by (simp add: popa_def pop_into_def machine_ops) (simp add: fun_upd_twist add.commute)

lemma popa_pusha:
  assumes "gpr t ESP = gpr s ESP - 32" "\<And>x. x \<in> bytes_at (gpr s ESP - 32) 32 \<Longrightarrow> ram t x = ram (pusha s) x"
  shows "popa t = t\<lparr>gpr := gpr s\<rparr>"
proof -
  have l: "load32 (ram t) (gpr s ESP - 32 + d) = load32 (ram (pusha s)) (gpr s ESP - 32 + d)" if "unat d + 4 \<le> 32" for d
    using loads_agree [OF assms(2) that] .
  have "(gpr t)(EDI := gpr s EDI, ESI := gpr s ESI, EBP := gpr s EBP, EBX := gpr s EBX, EDX := gpr s EDX, ECX := gpr s ECX,
      EAX := gpr s EAX, ESP := gpr s ESP) = gpr s"
    by (rule ext) (case_tac x; simp)
  then show ?thesis
    using l [of 0] l [of 4] l [of 8] l [of 16] l [of 20] l [of 24] l [of 28]
    by (simp add: popa_eq Let_def assms(1) pusha_eq load_store_far)
qed

lemma trap_push_eq:
  "trap_push esp0 ss0 s = (let p = frame_esp esp0 s in
     if sel_cs s AND 3 \<noteq> 0
     then s\<lparr>gpr := (gpr s)(ESP := p), sel_ss := ss0, ram := store32 (store32 (store32 (store32 (store32 (ram s)
       (p + 16) (sel_ss s)) (p + 12) (gpr s ESP)) (p + 8) (eflags s)) (p + 4) (sel_cs s)) p (eip s)\<rparr>
     else s\<lparr>gpr := (gpr s)(ESP := p), ram := store32 (store32 (store32 (ram s)
       (p + 8) (eflags s)) (p + 4) (sel_cs s)) p (eip s)\<rparr>)"
  by (simp add: trap_push_def frame_esp_def machine_ops)

lemma iret_trap_push:
  assumes "gpr t ESP = frame_esp esp0 s" "\<And>x. x \<in> frame_bytes_of esp0 s \<Longrightarrow> ram t x = ram (trap_push esp0 ss0 s) x"
    and "sel_cs t AND 3 = 0" "sel_cs s AND 0xffff = sel_cs s" "sel_ss s AND 0xffff = sel_ss s"
  shows "iret t = t\<lparr>gpr := (gpr t)(ESP := gpr s ESP), eip := eip s, sel_cs := sel_cs s,
    sel_ss := (if sel_cs s AND 3 \<noteq> 0 then sel_ss s else sel_ss t), eflags := returned_flags (eflags s) (eflags t)\<rparr>"
proof (cases "sel_cs s AND 3 = 0")
  case True
  have l: "load32 (ram t) (frame_esp esp0 s + d) = load32 (ram (trap_push esp0 ss0 s)) (frame_esp esp0 s + d)" if "unat d + 4 \<le> 12" for d
    using loads_agree [OF assms(2) that] True by (simp add: frame_bytes_of_def)
  have "frame_esp esp0 s + 12 = gpr s ESP" using True by (simp add: frame_esp_def)
  moreover have "load32 (ram t) (frame_esp esp0 s) = eip s" "load32 (ram t) (frame_esp esp0 s + 4) = sel_cs s"
    "load32 (ram t) (frame_esp esp0 s + 8) = eflags s"
    using l [of 0] l [of 4] l [of 8] True by (simp_all add: trap_push_eq Let_def load_store_far)
  ultimately show ?thesis using True assms(1,3,4) by (simp add: iret_def machine_ops add.commute)
next
  case False
  have l: "load32 (ram t) (frame_esp esp0 s + d) = load32 (ram (trap_push esp0 ss0 s)) (frame_esp esp0 s + d)" if "unat d + 4 \<le> 20" for d
    using loads_agree [OF assms(2) that] False by (simp add: frame_bytes_of_def)
  have "0 < sel_cs s AND 3" using False by (simp add: word_neq_0_conv)
  moreover have "load32 (ram t) (frame_esp esp0 s) = eip s" "load32 (ram t) (frame_esp esp0 s + 4) = sel_cs s"
    "load32 (ram t) (frame_esp esp0 s + 8) = eflags s" "load32 (ram t) (frame_esp esp0 s + 12) = gpr s ESP"
    "load32 (ram t) (frame_esp esp0 s + 16) = sel_ss s"
    using l [of 0] l [of 4] l [of 8] l [of 12] l [of 16] False by (simp_all add: trap_push_eq Let_def load_store_far)
  ultimately show ?thesis using False assms(1,3,4,5) by (simp add: iret_def machine_ops add.commute)
qed

lemma flags_returned: "returned_flags f old AND iret_mask = f AND iret_mask"
  by (simp add: returned_flags_def iret_mask_def bit.conj_disj_distrib2 and.assoc)

text \<open>
  The words a handler's frame consists of: the eight registers, the error code if there is one (\<open>4\<close> or \<open>0\<close> bytes), and what
  the processor pushed.
\<close>

definition saved_words :: "u32 \<Rightarrow> u32 \<Rightarrow> cpu \<Rightarrow> u32 set" where
  "saved_words err_bytes esp0 s = bytes_at (frame_esp esp0 s - err_bytes - 32) 32 \<union> frame_bytes_of esp0 s"

text \<open>The state in which the C++ handler of page faults starts.\<close>

definition fault_call :: "u32 \<Rightarrow> cpu \<Rightarrow> cpu" where
  "fault_call ra e = (let p = pusha e in push ra (push (ctl e CR2) (push (gpr p ESP) (set_gpr EAX (ctl e CR2) p))))"

lemma fault_call_runs:
  "run_code fn ra (code_pageFaultHandler f) e =
     (let t = fn f (fault_call ra e);
          t1 = popa ((set_gpr ESP (gpr t ESP + 8) t)\<lparr>eflags := add_flags (gpr t ESP) 8 (eflags t)\<rparr>)
      in iret ((set_gpr ESP (gpr t1 ESP + 4) t1)\<lparr>eflags := add_flags (gpr t1 ESP) 4 (eflags t1)\<rparr>))"
  by (simp add: code_pageFaultHandler_def run_code_def fault_call_def call_fn_def Let_def push_def poke_def set_gpr_def pusha_eq
      fun_upd_twist)

lemma trap_enter_fields:
  "gpr (trap_enter g esp0 ss0 kcs tgt None s) = (gpr s)(ESP := frame_esp esp0 s)"
  "gpr (trap_enter g esp0 ss0 kcs tgt (Some err) s) = (gpr s)(ESP := frame_esp esp0 s - 4)"
  "ram (trap_enter g esp0 ss0 kcs tgt None s) = ram (trap_push esp0 ss0 s)"
  "ram (trap_enter g esp0 ss0 kcs tgt (Some err) s) = store32 (ram (trap_push esp0 ss0 s)) (frame_esp esp0 s - 4) err"
  "sel_cs (trap_enter g esp0 ss0 kcs tgt eo s) = kcs" "ctl (trap_enter g esp0 ss0 kcs tgt eo s) = ctl s"
  "sel_ss (trap_enter g esp0 ss0 kcs tgt eo s) = (if sel_cs s AND 3 \<noteq> 0 then ss0 else sel_ss s)"
  by (auto simp: trap_enter_def trap_push_eq Let_def push_def set_gpr_def poke_def split: option.splits)

lemma pusha_outside:
  assumes "x \<notin> bytes_at (gpr s ESP - 32) 32"
  shows "ram (pusha s) x = ram s x"
proof -
  have "x \<notin> bytes_at (gpr s ESP - 32 + d) 4" if "unat d + 4 \<le> 32" for d
    using bytes_at_sub [OF that, of "gpr s ESP - 32"] assms by blast
  from this [of 0] this [of 4] this [of 8] this [of 12] this [of 16] this [of 20] this [of 24] this [of 28]
  show ?thesis by (simp add: pusha_eq store32_elsewhere)
qed

lemma frame_bytes_above:
  assumes "20 \<le> unat (- k)" "n \<le> unat k"
  shows "frame_bytes_of esp0 s \<inter> bytes_at (frame_esp esp0 s - k) n = {}"
proof -
  have "bytes_at (frame_esp esp0 s) 20 \<inter> bytes_at (frame_esp esp0 s - k) n = {}"
    using assms by (intro bytes_at_apart) simp_all
  moreover have "frame_bytes_of esp0 s \<subseteq> bytes_at (frame_esp esp0 s) 20"
    by (auto simp: frame_bytes_of_def bytes_at_def)
  ultimately show ?thesis by blast
qed

lemma fault_call_ram:
  assumes e: "e = trap_enter False esp0 ss0 kcs tgt (Some err) s"
  defines "P \<equiv> frame_esp esp0 s - 36"
  shows "gpr (fault_call ra e) ESP = P - 12"
    "x \<in> bytes_at P 32 \<Longrightarrow> ram (fault_call ra e) x = ram (pusha e) x"
    "x \<in> frame_bytes_of esp0 s \<Longrightarrow> ram (fault_call ra e) x = ram (trap_push esp0 ss0 s) x"
    "peek (gpr (fault_call ra e) ESP + 4) (fault_call ra e) = ctl s CR2"
    "peek (gpr (fault_call ra e) ESP + 8) (fault_call ra e) = P"
proof -
  have sp: "gpr e ESP = frame_esp esp0 s - 4" "gpr (pusha e) ESP = P" by (simp_all add: e trap_enter_fields pusha_eq P_def)
  have h: "ram (fault_call ra e) = store32 (store32 (store32 (ram (pusha e)) (P - 4) P) (P - 8) (ctl s CR2)) (P - 12) ra"
    "gpr (fault_call ra e) ESP = P - 12"
    using sp(2) by (simp_all add: fault_call_def Let_def push_def set_gpr_def poke_def e trap_enter_fields)
  then show "gpr (fault_call ra e) ESP = P - 12" by simp
  show "peek (gpr (fault_call ra e) ESP + 4) (fault_call ra e) = ctl s CR2"
    "peek (gpr (fault_call ra e) ESP + 8) (fault_call ra e) = P"
    using h by (simp_all add: peek_def load_store_far)
  have low: "bytes_at (P - 4) 4 \<inter> bytes_at P 32 = {}" "bytes_at (P - 8) 4 \<inter> bytes_at P 32 = {}" "bytes_at (P - 12) 4 \<inter> bytes_at P 32 = {}"
    by (rule bytes_at_apart; simp)+
  then have "x \<notin> bytes_at (P - 4) 4" "x \<notin> bytes_at (P - 8) 4" "x \<notin> bytes_at (P - 12) 4" if "x \<in> bytes_at P 32"
    using that by blast+
  then show "x \<in> bytes_at P 32 \<Longrightarrow> ram (fault_call ra e) x = ram (pusha e) x"
    using h(1) by (simp add: store32_elsewhere)
  assume x: "x \<in> frame_bytes_of esp0 s"
  have "frame_bytes_of esp0 s \<inter> bytes_at (frame_esp esp0 s - 40) 4 = {}" "frame_bytes_of esp0 s \<inter> bytes_at (frame_esp esp0 s - 44) 4 = {}"
    "frame_bytes_of esp0 s \<inter> bytes_at (frame_esp esp0 s - 48) 4 = {}" "frame_bytes_of esp0 s \<inter> bytes_at (frame_esp esp0 s - 36) 32 = {}"
    "frame_bytes_of esp0 s \<inter> bytes_at (frame_esp esp0 s - 4) 4 = {}"
    by (rule frame_bytes_above; simp)+
  then have "x \<notin> bytes_at (P - 4) 4" "x \<notin> bytes_at (P - 8) 4" "x \<notin> bytes_at (P - 12) 4" "x \<notin> bytes_at (gpr e ESP - 32) 32"
    "x \<notin> bytes_at (frame_esp esp0 s - 4) 4"
    using x by (auto simp: P_def sp(1))
  then show "ram (fault_call ra e) x = ram (trap_push esp0 ss0 s) x"
    using h(1) pusha_outside [of x e] by (simp add: store32_elsewhere) (simp add: e trap_enter_fields store32_elsewhere)
qed

subsection \<open>Transparency\<close>

text \<open>The processor is back where it was interrupted.\<close>

definition same_place :: "cpu \<Rightarrow> cpu \<Rightarrow> bool" where
  "same_place r s \<longleftrightarrow> gpr r = gpr s \<and> eip r = eip s \<and> sel_cs r = sel_cs s \<and> sel_ss r = sel_ss s \<and>
     eflags r AND iret_mask = eflags s AND iret_mask"

lemma fault_returns:
  assumes sel: "kernelCS AND 3 = 0" "sel_cs s AND 0xffff = sel_cs s" "sel_ss s AND 0xffff = sel_ss s"
    and e: "e = trap_enter False esp0 ss0 kernelCS target (Some err) s"
    and h: "cdecl (fn vmm_pageFault) (saved_words 4 esp0 s) (fault_call ra e)"
  shows "same_place (run_code fn ra (code_pageFaultHandler vmm_pageFault) e) s"
proof -
  note c = fault_call_ram [OF e]
  let ?t = "fn vmm_pageFault (fault_call ra e)"
  note d = h [unfolded cdecl_def Let_def]
  let ?t1 = "(set_gpr ESP (gpr ?t ESP + 8) ?t)\<lparr>eflags := add_flags (gpr ?t ESP) 8 (eflags ?t)\<rparr>"
  have ge: "gpr e = (gpr s)(ESP := frame_esp esp0 s - 4)" by (simp add: e trap_enter_fields)
  have K: "x \<in> bytes_at (gpr e ESP - 32) 32 \<Longrightarrow> x \<in> saved_words 4 esp0 s" "x \<in> frame_bytes_of esp0 s \<Longrightarrow> x \<in> saved_words 4 esp0 s" for x
    by (simp_all add: saved_words_def ge)
  have pop: "popa ?t1 = ?t1\<lparr>gpr := gpr e\<rparr>"
  proof (rule popa_pusha)
    show "gpr ?t1 ESP = gpr e ESP - 32" using d c(1) ge by (simp add: set_gpr_def)
    fix x assume "x \<in> bytes_at (gpr e ESP - 32) 32"
    then show "ram ?t1 x = ram (pusha e) x" using d K(1) c(2) [of x ra] ge by (simp add: set_gpr_def)
  qed
  let ?t2 = "(set_gpr ESP (frame_esp esp0 s) (?t1\<lparr>gpr := gpr e\<rparr>))\<lparr>eflags := add_flags (gpr e ESP) 4 (eflags ?t1)\<rparr>"
  have run: "run_code fn ra (code_pageFaultHandler vmm_pageFault) e = iret ?t2"
    unfolding fault_call_runs Let_def pop using ge by simp
  have cs: "sel_cs ?t2 = kernelCS" "sel_ss ?t2 = (if sel_cs s AND 3 \<noteq> 0 then ss0 else sel_ss s)"
    using d by (simp_all add: set_gpr_def fault_call_def Let_def push_def poke_def pusha_eq e trap_enter_fields)
  have "iret ?t2 = ?t2\<lparr>gpr := (gpr ?t2)(ESP := gpr s ESP), eip := eip s, sel_cs := sel_cs s,
    sel_ss := (if sel_cs s AND 3 \<noteq> 0 then sel_ss s else sel_ss ?t2), eflags := returned_flags (eflags s) (eflags ?t2)\<rparr>"
  proof (rule iret_trap_push)
    show "sel_cs ?t2 AND 3 = 0" using cs(1) sel(1) by simp
    fix x assume "x \<in> frame_bytes_of esp0 s"
    then show "ram ?t2 x = ram (trap_push esp0 ss0 s) x" using d K(2) c(3) [of x ra] by (simp add: set_gpr_def)
  qed (use sel in \<open>simp_all add: set_gpr_def\<close>)
  then show ?thesis
    using run cs ge by (simp add: same_place_def set_gpr_def flags_returned)
qed

text \<open>The state in which the C++ handler of timer interrupts starts; its argument is the saved stack pointer.\<close>

definition timer_call :: "u32 \<Rightarrow> cpu \<Rightarrow> cpu" where
  "timer_call ra e = (let p = pusha e in push ra (push (gpr p ESP) p))"

lemma timer_call_runs:
  "run_code fn ra (code_apitHandler f) e = (let t = fn f (timer_call ra e) in iret (popa (set_gpr ESP (stack_top t) t)))"
  by (simp add: code_apitHandler_def run_code_def timer_call_def call_fn_def Let_def pop_into_def set_gpr_def drop_top_def)

lemma timer_returns:
  assumes sel: "kernelCS AND 3 = 0" "sel_cs s AND 0xffff = sel_cs s" "sel_ss s AND 0xffff = sel_ss s"
    and e: "e = trap_enter True esp0 ss0 kernelCS target None s"
    and h: "cdecl (fn apitHandler) (saved_words 0 esp0 s \<union> bytes_at (frame_esp esp0 s - 36) 4) (timer_call ra e)"
  shows "same_place (run_code fn ra (code_apitHandler apitHandler) e) s"
proof -
  let ?P = "frame_esp esp0 s - 32"
  let ?t = "fn apitHandler (timer_call ra e)"
  note d = h [unfolded cdecl_def Let_def]
  have ge: "gpr e = (gpr s)(ESP := frame_esp esp0 s)" by (simp add: e trap_enter_fields)
  have hr: "ram (timer_call ra e) = store32 (store32 (ram (pusha e)) (?P - 4) ?P) (?P - 8) ra" "gpr (timer_call ra e) ESP = ?P - 8"
    using ge by (simp_all add: timer_call_def Let_def push_def set_gpr_def poke_def pusha_eq)
  have "bytes_at (?P - 4) 4 \<inter> bytes_at ?P 32 = {}" "bytes_at (?P - 8) 4 \<inter> bytes_at ?P 32 = {}"
    by (rule bytes_at_apart; simp)+
  then have "x \<notin> bytes_at (?P - 4) 4" "x \<notin> bytes_at (?P - 8) 4" if "x \<in> bytes_at ?P 32" for x using that by blast+
  then have regs: "ram (timer_call ra e) x = ram (pusha e) x" if "x \<in> bytes_at ?P 32" for x
    using that hr(1) by (simp add: store32_elsewhere)
  have "frame_bytes_of esp0 s \<inter> bytes_at (frame_esp esp0 s - 36) 4 = {}" "frame_bytes_of esp0 s \<inter> bytes_at (frame_esp esp0 s - 40) 4 = {}"
    "frame_bytes_of esp0 s \<inter> bytes_at (frame_esp esp0 s - 32) 32 = {}"
    by (rule frame_bytes_above; simp)+
  then have "x \<notin> bytes_at (?P - 4) 4" "x \<notin> bytes_at (?P - 8) 4" "x \<notin> bytes_at (gpr e ESP - 32) 32" if "x \<in> frame_bytes_of esp0 s" for x
    using that ge by auto
  then have frame: "ram (timer_call ra e) x = ram (trap_push esp0 ss0 s) x" if "x \<in> frame_bytes_of esp0 s" for x
    using that hr(1) pusha_outside [of x e] by (simp add: store32_elsewhere) (simp add: e trap_enter_fields)
  have "ram ?t x = ram (timer_call ra e) x" if "x \<in> bytes_at (?P - 4) 4" for x using d that by auto
  then have "load32 (ram ?t) (?P - 4) = load32 (ram (timer_call ra e)) (?P - 4)" by (rule load32_agree)
  then have top: "stack_top ?t = ?P" using d hr by (simp add: stack_top_def peek_def load_store_far)
  let ?t1 = "set_gpr ESP ?P ?t"
  have pop: "popa ?t1 = ?t1\<lparr>gpr := gpr e\<rparr>"
  proof (rule popa_pusha)
    fix x assume x: "x \<in> bytes_at (gpr e ESP - 32) 32"
    then have "x \<in> saved_words 0 esp0 s" "x \<in> bytes_at ?P 32" by (simp_all add: saved_words_def ge)
    then show "ram ?t1 x = ram (pusha e) x" using d regs by (simp add: set_gpr_def)
  qed (simp add: set_gpr_def ge)
  have run: "run_code fn ra (code_apitHandler apitHandler) e = iret (?t1\<lparr>gpr := gpr e\<rparr>)"
    unfolding timer_call_runs Let_def top pop by (rule refl)
  have cs: "sel_cs (?t1\<lparr>gpr := gpr e\<rparr>) = kernelCS" "sel_ss (?t1\<lparr>gpr := gpr e\<rparr>) = (if sel_cs s AND 3 \<noteq> 0 then ss0 else sel_ss s)"
    using d by (simp_all add: set_gpr_def timer_call_def Let_def push_def poke_def pusha_eq e trap_enter_fields)
  have "iret (?t1\<lparr>gpr := gpr e\<rparr>) = ?t1\<lparr>gpr := (gpr e)(ESP := gpr s ESP), eip := eip s, sel_cs := sel_cs s,
    sel_ss := (if sel_cs s AND 3 \<noteq> 0 then sel_ss s else sel_ss (?t1\<lparr>gpr := gpr e\<rparr>)), eflags := returned_flags (eflags s) (eflags ?t1)\<rparr>"
  proof (subst iret_trap_push [where s = s and ?esp0.0 = esp0 and ?ss0.0 = ss0])
    fix x assume "x \<in> frame_bytes_of esp0 s"
    then show "ram (?t1\<lparr>gpr := gpr e\<rparr>) x = ram (trap_push esp0 ss0 s) x" using d frame by (simp add: set_gpr_def saved_words_def)
  qed (use sel cs(1) ge in \<open>simp_all add: set_gpr_def\<close>)
  then show ?thesis using run cs ge by (simp add: same_place_def set_gpr_def flags_returned)
qed

subsection \<open>System calls and user mode\<close>

text \<open>The state in which \<^verbatim>\<open>sysHandler(eax, frame)\<close> starts.\<close>

definition sys_call :: "u32 \<Rightarrow> cpu \<Rightarrow> cpu" where
  "sys_call ra e = push ra (push (gpr e EAX) (push (gpr e ESP) e))"

lemma sys_call_runs:
  "run_code fn ra (code_sysHandler f) e =
     (let t = fn f (sys_call ra e)
      in iret ((set_gpr ESP (gpr t ESP + 8) t)\<lparr>eflags := add_flags (gpr t ESP) 8 (eflags t)\<rparr>))"
  by (simp add: code_sysHandler_def run_code_def sys_call_def call_fn_def Let_def push_def set_gpr_def poke_def)

lemma sys_call_ram:
  assumes e: "e = trap_enter False esp0 ss0 kcs tgt None s"
  defines "F \<equiv> frame_esp esp0 s"
  shows "gpr (sys_call ra e) ESP = F - 12"
    "ram (sys_call ra e) = store32 (store32 (store32 (ram (trap_push esp0 ss0 s)) (F - 4) F) (F - 8) (gpr s EAX)) (F - 12) ra"
    "sel_cs (sys_call ra e) = kcs" "sel_ss (sys_call ra e) = (if sel_cs s AND 3 \<noteq> 0 then ss0 else sel_ss s)"
    "r \<noteq> ESP \<Longrightarrow> gpr (sys_call ra e) r = gpr s r"
  by (simp_all add: sys_call_def push_def set_gpr_def poke_def Let_def e trap_enter_fields F_def)

lemma sys_call_frame:
  assumes e: "e = trap_enter False esp0 ss0 kcs tgt None s" and x: "x \<in> frame_bytes_of esp0 s"
  shows "ram (sys_call ra e) x = ram (trap_push esp0 ss0 s) x"
proof -
  have "frame_bytes_of esp0 s \<inter> bytes_at (frame_esp esp0 s - 4) 4 = {}" "frame_bytes_of esp0 s \<inter> bytes_at (frame_esp esp0 s - 8) 4 = {}"
    "frame_bytes_of esp0 s \<inter> bytes_at (frame_esp esp0 s - 12) 4 = {}"
    by (rule frame_bytes_above; simp)+
  then have "x \<notin> bytes_at (frame_esp esp0 s - 4) 4" "x \<notin> bytes_at (frame_esp esp0 s - 8) 4" "x \<notin> bytes_at (frame_esp esp0 s - 12) 4"
    using x by blast+
  then show ?thesis by (simp add: sys_call_ram(2) [OF e] store32_elsewhere)
qed

lemma sys_call_returns:
  assumes sel: "kernelCS AND 3 = 0" "sel_cs s AND 0xffff = sel_cs s" "sel_ss s AND 0xffff = sel_ss s"
    and e: "e = trap_enter False esp0 ss0 kernelCS target None s"
    and h: "cdecl (fn sysHandler) (frame_bytes_of esp0 s) (sys_call ra e)"
  defines "t \<equiv> fn sysHandler (sys_call ra e)"
  shows "run_code fn ra (code_sysHandler sysHandler) e =
    t\<lparr>gpr := (gpr t)(ESP := gpr s ESP), eip := eip s, sel_cs := sel_cs s, sel_ss := sel_ss s,
      eflags := returned_flags (eflags s) (add_flags (gpr t ESP) 8 (eflags t))\<rparr>"
proof -
  note d = h [unfolded cdecl_def Let_def, folded t_def]
  let ?t1 = "(set_gpr ESP (gpr t ESP + 8) t)\<lparr>eflags := add_flags (gpr t ESP) 8 (eflags t)\<rparr>"
  have "iret ?t1 = ?t1\<lparr>gpr := (gpr ?t1)(ESP := gpr s ESP), eip := eip s, sel_cs := sel_cs s,
    sel_ss := (if sel_cs s AND 3 \<noteq> 0 then sel_ss s else sel_ss ?t1), eflags := returned_flags (eflags s) (eflags ?t1)\<rparr>"
  proof (rule iret_trap_push)
    show "gpr ?t1 ESP = frame_esp esp0 s" using d sys_call_ram(1) [OF e] by (simp add: set_gpr_def)
    show "sel_cs ?t1 AND 3 = 0" using d sel(1) sys_call_ram(3) [OF e] by (simp add: set_gpr_def)
    fix x assume "x \<in> frame_bytes_of esp0 s"
    then show "ram ?t1 x = ram (trap_push esp0 ss0 s) x" using d sys_call_frame [OF e] by (simp add: set_gpr_def)
  qed (use sel in simp_all)
  moreover have "sel_ss t = (if sel_cs s AND 3 \<noteq> 0 then ss0 else sel_ss s)" using d sys_call_ram(4) [OF e] by simp
  ultimately show ?thesis by (simp add: sys_call_runs Let_def set_gpr_def t_def)
qed

lemma switchToUser_runs:
  assumes "bytes_at userCS 4 \<inter> bytes_at (gpr s ESP - 12) 12 = {}" "sel_cs s AND 3 = 0" "peek userCS s AND 3 \<noteq> 0"
  shows "(let r = run_code fn ra (code_switchToUser userCS userSS) s in
      eip r = peek (gpr s ESP + 4) s \<and> gpr r ESP = peek (gpr s ESP + 8) s \<and> gpr r EAX = peek (gpr s ESP + 12) s \<and>
      sel_cs r = peek userCS s AND 0xffff \<and> sel_ss r = peek userSS s AND 0xffff \<and> bit (eflags r) 9)"
proof -
  have "bytes_at (gpr s ESP - 12 + d) 4 \<subseteq> bytes_at (gpr s ESP - 12) 12" if "unat d + 4 \<le> 12" for d
    using bytes_at_sub [OF that] .
  from this [of 0] this [of 4] this [of 8]
  have "load32 (store32 m (gpr s ESP - 4) v) userCS = load32 m userCS" "load32 (store32 m (gpr s ESP - 8) v) userCS = load32 m userCS"
    "load32 (store32 m (gpr s ESP - 12) v) userCS = load32 m userCS" for m v
    using assms(1) by (auto intro!: load_store_apart)
  moreover have "0 < peek userCS s AND 3" using assms(3) by (simp add: word_neq_0_conv)
  moreover have "bit (returned_flags (w OR 0x200) old) 9" for w old
    by (simp add: returned_flags_def iret_mask_def bit_or_iff bit_and_iff)
  ultimately show ?thesis
    using assms(2) by (auto simp: code_switchToUser_def iret_def machine_ops load_store_far fun_upd_twist)
qed

text \<open>Short routines: turning paging on, and reading the interrupt flag.\<close>

definition set_paging :: "u32 \<Rightarrow> cpu \<Rightarrow> cpu" where
  "set_paging pd s = set_ctl CR0 (ctl s CR0 OR 0x80000000) (set_ctl CR3 pd s)"

text \<open>
  The function \<^verbatim>\<open>entry\<close> in which threads start, with the work of the thread and the final \<^verbatim>\<open>stop()\<close> as parameters;
  \<open>pd\<close> is the page directory of the current process.
\<close>

definition thread_entry :: "(cpu \<Rightarrow> cpu) \<Rightarrow> (cpu \<Rightarrow> cpu) \<Rightarrow> u32 \<Rightarrow> cpu \<Rightarrow> cpu" where
  "thread_entry doYourThing stop_thread pd s =
     (let s = set_paging pd s; s = s\<lparr>eflags := set_bit 9 (eflags s)\<rparr> in stop_thread (doYourThing s))"

text \<open>Turning paging on for the current thread of a processor, with interrupts disabled around it (\<^verbatim>\<open>VMM::per_core_init\<close>).\<close>

definition per_core_init :: "u32 \<Rightarrow> cpu \<Rightarrow> cpu" where
  "per_core_init pd s =
     (let was = \<not> bit (eflags s) 9;
          s = (if \<not> was then s\<lparr>eflags := unset_bit 9 (eflags s)\<rparr> else s);
          s = set_paging pd s
      in if \<not> was then s\<lparr>eflags := set_bit 9 (eflags s)\<rparr> else s)"

lemma per_core_init_paging:
  "ctl (per_core_init pd s) CR3 = pd \<and> bit (ctl (per_core_init pd s) CR0) 31 \<and> eflags (per_core_init pd s) = eflags s"
proof -
  have "set_bit 9 (unset_bit 9 f) = f" if "bit f 9" for f :: u32
    using that by (intro bit_word_eqI) (auto simp: bit_set_bit_iff bit_unset_bit_iff)
  then show ?thesis by (simp add: per_core_init_def Let_def set_paging_def set_ctl_def bit_or_iff)
qed

lemma vmm_on_runs:
  "(let r = run_code fn ra code_vmm_on s in
      ctl r = ctl (set_paging (peek (gpr s ESP + 4) s) s) \<and> bit (ctl r CR0) 31 \<and> eip r = stack_top s \<and>
      gpr r ESP = gpr s ESP + 4 \<and> ram r = ram s)"
  by (simp add: code_vmm_on_def set_paging_def machine_ops bit_or_iff)

lemma getFlags_runs:
  "(let r = run_code fn ra code_getFlags s in
      (gpr r EAX AND 0x200 = 0 \<longleftrightarrow> \<not> bit (eflags s) 9) \<and> eip r = stack_top s \<and> gpr r ESP = gpr s ESP + 4)"
proof -
  have "f AND 0x200 = 0 \<longleftrightarrow> \<not> bit f 9" for f :: u32
    using and_exp_eq_0_iff_not_bit [of f 9] by simp
  moreover have "bit (pushed_flags (eflags s)) 9 = bit (eflags s) 9" by (simp add: pushed_flags_def bit_and_iff)
  ultimately show ?thesis by (simp add: code_getFlags_def pop_into_def machine_ops load_store_far)
qed

subsection \<open>Properties\<close>

text \<open>
  \<^bold>\<open>C22.\<close> Traps are invisible to the code they interrupt (\<^verbatim>\<open>pageFaultHandler_\<close> and \<^verbatim>\<open>apitHandler_\<close> in machine.S, executed
  instruction by instruction after the processor's entry into the gate). Whatever code was interrupted, user or
  kernel, if the C++ handler follows the calling convention and leaves the saved words on the stack alone, then after the
  final \<^verbatim>\<open>iret\<close> all eight registers, the program counter, both segments and all flags that \<^verbatim>\<open>iret\<close> loads are as they were at
  the interrupted instruction, which is thus repeated after a page fault and continued after a timer interrupt.
\<close>

theorem traps_are_transparent:
  assumes sel: "kernelCS AND 3 = 0" "sel_cs s AND 0xffff = sel_cs s" "sel_ss s AND 0xffff = sel_ss s"
    and fault: "cdecl (fn vmm_pageFault) (saved_words 4 esp0 s) (fault_call ra (trap_enter False esp0 ss0 kernelCS entry1 (Some err) s))"
    and timer: "cdecl (fn apitHandler) (saved_words 0 esp0 s \<union> bytes_at (frame_esp esp0 s - 36) 4)
      (timer_call ra (trap_enter True esp0 ss0 kernelCS entry2 None s))"
  shows "same_place (run_code fn ra (code_pageFaultHandler vmm_pageFault) (trap_enter False esp0 ss0 kernelCS entry1 (Some err) s)) s \<and>
    same_place (run_code fn ra (code_apitHandler apitHandler) (trap_enter True esp0 ss0 kernelCS entry2 None s)) s"
  using fault_returns [where fn = fn and vmm_pageFault = vmm_pageFault, OF sel refl fault]
    timer_returns [where fn = fn and apitHandler = apitHandler, OF sel refl timer] by simp

text \<open>A handler that spoils the registers it may, and returns.\<close>

definition rude_fn :: "u32 \<Rightarrow> cpu \<Rightarrow> cpu" where
  "rude_fn f s = (set_gpr EAX 1 (set_gpr ECX 2 (set_gpr EDX 3 (drop_top s))))\<lparr>eip := stack_top s, eflags := 0\<rparr>"

definition user_cpu :: cpu where
  "user_cpu = \<lparr>gpr = (\<lambda>r. if r = ESP then 0xefffdff0 else 7), ctl = (\<lambda>_. 0x80000123), eflags = 0x202, sel_cs = 0x1b, sel_ss = 0x23,
     eip = 0x80000400, ram = (\<lambda>_. 0)\<rparr>"

lemma rude_fn_cdecl: "cdecl (rude_fn f) K s"
  by (simp add: cdecl_def rude_fn_def Let_def drop_top_def set_gpr_def)

theorem traps_are_transparent_witness:
  "same_place (run_code rude_fn 0x100 (code_pageFaultHandler 0x200) (trap_enter False 0x9000 16 8 0x300 (Some 4) user_cpu)) user_cpu \<and>
   same_place (run_code rude_fn 0x100 (code_apitHandler 0x204) (trap_enter True 0x9000 16 8 0x304 None user_cpu)) user_cpu"
  by (rule traps_are_transparent) (simp_all add: rude_fn_cdecl, simp_all add: user_cpu_def)

text \<open>
  The path of a system call (\<^verbatim>\<open>sysHandler_\<close> in machine.S). For user code that executes the trap instruction,
  \<^verbatim>\<open>sysHandler\<close> is called with the number in \<^verbatim>\<open>%eax\<close> as its first argument and a pointer to the processor's frame as its second, in
  which word 0 is the user's program counter and word 3 the user's stack pointer, as sys.cc reads them; when
  it returns, the user continues behind the trap instruction on its stack, in its segments and with its flags, with the result in \<^verbatim>\<open>%eax\<close>
  and the callee-saved registers as they were.
\<close>

theorem system_call_path:
  assumes sel: "kernelCS AND 3 = 0" "sel_cs s AND 3 \<noteq> 0" "sel_cs s AND 0xffff = sel_cs s" "sel_ss s AND 0xffff = sel_ss s"
    and h: "cdecl (fn sysHandler) (frame_bytes_of esp0 s) (sys_call ra (trap_enter False esp0 ss0 kernelCS target None s))"
  shows "(let c = sys_call ra (trap_enter False esp0 ss0 kernelCS target None s);
      frame = peek (gpr c ESP + 8) c; t = fn sysHandler c;
      r = run_code fn ra (code_sysHandler sysHandler) (trap_enter False esp0 ss0 kernelCS target None s) in
    peek (gpr c ESP + 4) c = gpr s EAX \<and> peek frame c = eip s \<and> peek (frame + 12) c = gpr s ESP \<and>
    gpr r EAX = gpr t EAX \<and> gpr r EBX = gpr s EBX \<and> gpr r EBP = gpr s EBP \<and> gpr r ESI = gpr s ESI \<and> gpr r EDI = gpr s EDI \<and>
    gpr r ESP = gpr s ESP \<and> eip r = eip s \<and> sel_cs r = sel_cs s \<and> sel_ss r = sel_ss s \<and>
    eflags r AND iret_mask = eflags s AND iret_mask)"
proof -
  let ?e = "trap_enter False esp0 ss0 kernelCS target None s"
  note c = sys_call_ram [OF refl, where ra = ra and ?esp0.0 = esp0 and ?ss0.0 = ss0 and kcs = kernelCS and tgt = target and s = s]
  have "unat (12 :: u32) + 4 \<le> 20" "unat (0 :: u32) + 4 \<le> 20" by simp_all
  then have "load32 (ram (sys_call ra ?e)) (frame_esp esp0 s + d) = load32 (ram (trap_push esp0 ss0 s)) (frame_esp esp0 s + d)"
    if "d = 0 \<or> d = 12" for d
    using that sel(2) sys_call_frame [OF refl, of _ esp0 s] by (intro loads_agree [of _ 20]) (auto simp: frame_bytes_of_def)
  from this [of 0] this [of 12]
  have w: "load32 (ram (sys_call ra ?e)) (frame_esp esp0 s) = eip s" "load32 (ram (sys_call ra ?e)) (frame_esp esp0 s + 12) = gpr s ESP"
    using sel(2) by (simp_all add: trap_push_eq Let_def load_store_far)
  have a: "peek (gpr (sys_call ra ?e) ESP + 4) (sys_call ra ?e) = gpr s EAX"
    "peek (gpr (sys_call ra ?e) ESP + 8) (sys_call ra ?e) = frame_esp esp0 s"
    by (simp_all add: peek_def c(1,2) load_store_far)
  show ?thesis
    using h sys_call_returns [where fn = fn and sysHandler = sysHandler, OF sel(1,3,4) refl h]
    by (simp add: Let_def a w [folded peek_def] flags_returned cdecl_def c(5) peek_def [symmetric])
qed

theorem system_call_path_witness:
  "(let r = run_code rude_fn 0x100 (code_sysHandler 0x200) (trap_enter False 0x9000 16 8 0x300 None user_cpu) in
     gpr r EAX = 1 \<and> gpr r EBX = 7 \<and> gpr r ESP = 0xefffdff0 \<and> eip r = 0x80000400)"
  using system_call_path [of 8 user_cpu rude_fn "0x200" "0x9000" "0x100" 16 "0x300"]
  by (simp add: rude_fn_cdecl Let_def) (simp add: user_cpu_def rude_fn_def set_gpr_def drop_top_def)

end
