(* ===== verification/User_Calls.thy ===== *)
theory User_Calls
  imports Trap_Entry
begin

text \<open>
  The user's side of system calls (\<^verbatim>\<open>t0.dir/sbin/sys.S\<close>) and the start of user programs (\<^verbatim>\<open>t0.dir/sbin/crt0.S\<close>),
  composed with the kernel's entry sequences: what a call in a C program finds when it returns, where the kernel finds the
  arguments of the call, and that the two returns from \<^verbatim>\<open>fork\<close> see the same registers.
\<close>

subsection \<open>The stubs (sys.S)\<close>

text \<open>
  What \<^verbatim>\<open>int $48\<close> depends on: the kernel's stack pointer and segments in the task state segment, the code segment and
  target of the gate, and the C++ handler.
\<close>

record syscall_gate =
  g_fn :: "u32 \<Rightarrow> cpu \<Rightarrow> cpu"
  g_ra :: u32
  g_esp0 :: u32
  g_ss0 :: u32
  g_cs :: u32
  g_target :: u32
  g_handler :: u32

text \<open>The kernel's side of the instruction; \<open>after\<close> is the address of the user's next instruction.\<close>

definition enter_kernel :: "syscall_gate \<Rightarrow> u32 \<Rightarrow> cpu \<Rightarrow> cpu" where
  "enter_kernel g after s = trap_enter False (g_esp0 g) (g_ss0 g) (g_cs g) (g_target g) None (s\<lparr>eip := after\<rparr>)"

definition int_48 :: "syscall_gate \<Rightarrow> u32 \<Rightarrow> cpu \<Rightarrow> cpu" where
  "int_48 g after s = run_code (g_fn g) (g_ra g) (code_sysHandler (g_handler g)) (enter_kernel g after s)"

definition code_stub :: "u32 \<Rightarrow> instr list" where
  "code_stub n = [MovConst n EAX]"

definition code_fork :: "instr list" where
  "code_fork = [PushReg EBX, PushReg ESI, PushReg EDI, PushReg EBP, MovConst 2 EAX]"

definition code_fork_rest :: "instr list" where
  "code_fork_rest = [PopReg EBP, PopReg EDI, PopReg ESI, PopReg EBX, Ret]"

definition user_stub :: "syscall_gate \<Rightarrow> u32 \<Rightarrow> u32 \<Rightarrow> cpu \<Rightarrow> cpu" where
  "user_stub g n after s =
     run_code (g_fn g) 0 [Ret] (int_48 g after (run_code (g_fn g) 0 (code_stub n) s))"

definition user_fork :: "syscall_gate \<Rightarrow> u32 \<Rightarrow> cpu \<Rightarrow> cpu" where
  "user_fork g after s =
     run_code (g_fn g) 0 code_fork_rest (int_48 g after (run_code (g_fn g) 0 code_fork s))"

text \<open>The start of a program (crt0.S) up to its call of \<^verbatim>\<open>exit\<close>; \<open>ra\<close> stands for the return addresses of the calls.\<close>

definition code_start :: "u32 \<Rightarrow> u32 \<Rightarrow> u32 \<Rightarrow> instr list" where
  "code_start heap_init main exit_stub = [CallFn heap_init, CallFn main, PushReg EAX, CallFn exit_stub]"

subsection \<open>Through the kernel and back\<close>

text \<open>The state in which \<^verbatim>\<open>sysHandler\<close> starts, and what it must leave alone: the frame and \<open>n\<close> bytes of the user's stack.\<close>

definition handler_entry :: "syscall_gate \<Rightarrow> u32 \<Rightarrow> cpu \<Rightarrow> cpu" where
  "handler_entry g after s = sys_call (g_ra g) (enter_kernel g after s)"

definition user_gate :: "syscall_gate \<Rightarrow> nat \<Rightarrow> u32 \<Rightarrow> cpu \<Rightarrow> bool" where
  "user_gate g n after s \<longleftrightarrow>
     g_cs g AND 3 = 0 \<and> sel_cs s AND 3 \<noteq> 0 \<and> sel_cs s AND 0xffff = sel_cs s \<and> sel_ss s AND 0xffff = sel_ss s \<and>
     bytes_at (g_esp0 g - 32) 32 \<inter> bytes_at (gpr s ESP) n = {} \<and>
     cdecl (g_fn g (g_handler g)) (bytes_at (g_esp0 g - 20) 20 \<union> bytes_at (gpr s ESP) n) (handler_entry g after s)"

lemma cdecl_mono: "cdecl f K s \<Longrightarrow> K' \<subseteq> K \<Longrightarrow> cdecl f K' s"
  unfolding cdecl_def Let_def by blast

lemma handler_entry_user:
  assumes "sel_cs s AND 3 \<noteq> 0" "x \<notin> bytes_at (g_esp0 g - 32) 32"
  shows "ram (handler_entry g after s) x = ram s x"
proof -
  have "bytes_at (g_esp0 g - 32 + d) 4 \<subseteq> bytes_at (g_esp0 g - 32) 32" if "unat d + 4 \<le> 32" for d
    using bytes_at_sub [OF that] .
  from this [of 0] this [of 4] this [of 8] this [of 12] this [of 16] this [of 20] this [of 24] this [of 28]
  have "x \<notin> bytes_at (g_esp0 g - 32) 4" "x \<notin> bytes_at (g_esp0 g - 28) 4" "x \<notin> bytes_at (g_esp0 g - 24) 4" "x \<notin> bytes_at (g_esp0 g - 20) 4"
    "x \<notin> bytes_at (g_esp0 g - 16) 4" "x \<notin> bytes_at (g_esp0 g - 12) 4" "x \<notin> bytes_at (g_esp0 g - 8) 4" "x \<notin> bytes_at (g_esp0 g - 4) 4"
    using assms(2) by auto
  then show ?thesis
    using assms(1) by (simp add: handler_entry_def enter_kernel_def sys_call_ram(2) [OF refl] trap_push_eq frame_esp_def Let_def store32_elsewhere)
qed

lemma handler_entry_args:
  fixes g after s
  assumes "sel_cs s AND 3 \<noteq> 0"
  defines "c \<equiv> handler_entry g after s"
  shows "peek (gpr c ESP + 4) c = gpr s EAX" "peek (gpr c ESP + 8) c = g_esp0 g - 20"
    "peek (g_esp0 g - 20) c = after" "peek (g_esp0 g - 8) c = gpr s ESP" "r \<noteq> ESP \<Longrightarrow> gpr c r = gpr s r"
proof -
  note c = sys_call_ram [OF refl, where ra = "g_ra g" and ?esp0.0 = "g_esp0 g" and ?ss0.0 = "g_ss0 g" and kcs = "g_cs g" and tgt = "g_target g"
      and s = "s\<lparr>eip := after\<rparr>", folded enter_kernel_def handler_entry_def, folded c_def]
  have f: "frame_esp (g_esp0 g) (s\<lparr>eip := after\<rparr>) = g_esp0 g - 20" using assms(1) by (simp add: frame_esp_def)
  show "peek (gpr c ESP + 4) c = gpr s EAX" "peek (gpr c ESP + 8) c = g_esp0 g - 20"
    by (simp_all add: peek_def c(1,2) f load_store_far)
  show "peek (g_esp0 g - 20) c = after" "peek (g_esp0 g - 8) c = gpr s ESP"
    using assms(1) by (simp_all add: peek_def c(2) f trap_push_eq Let_def load_store_far)
  show "r \<noteq> ESP \<Longrightarrow> gpr c r = gpr s r" using c(5) by simp
qed

lemma int_48_returns:
  fixes g n after s
  assumes "user_gate g n after s"
  defines "t \<equiv> g_fn g (g_handler g) (handler_entry g after s)" and "r \<equiv> int_48 g after s"
  shows "gpr r = (gpr t)(ESP := gpr s ESP)" "eip r = after" "sel_cs r = sel_cs s" "sel_ss r = sel_ss s"
    "eflags r AND iret_mask = eflags s AND iret_mask" "x \<in> bytes_at (gpr s ESP) n \<Longrightarrow> ram r x = ram s x"
    "q \<in> {EBX, EBP, ESI, EDI} \<Longrightarrow> gpr t q = gpr s q"
proof -
  note u = assms(1) [unfolded user_gate_def]
  have "frame_bytes_of (g_esp0 g) (s\<lparr>eip := after\<rparr>) = bytes_at (g_esp0 g - 20) 20"
    using u by (simp add: frame_bytes_of_def frame_esp_def)
  moreover have "cdecl (g_fn g (g_handler g)) (bytes_at (g_esp0 g - 20) 20) (handler_entry g after s)"
    using u cdecl_mono by blast
  ultimately have h: "cdecl (g_fn g (g_handler g)) (frame_bytes_of (g_esp0 g) (s\<lparr>eip := after\<rparr>)) (sys_call (g_ra g) (enter_kernel g after s))"
    by (simp only: handler_entry_def)
  have "run_code (g_fn g) (g_ra g) (code_sysHandler (g_handler g)) (enter_kernel g after s) =
    t\<lparr>gpr := (gpr t)(ESP := gpr s ESP), eip := after, sel_cs := sel_cs s, sel_ss := sel_ss s,
      eflags := returned_flags (eflags s) (add_flags (gpr t ESP) 8 (eflags t))\<rparr>"
    using u sys_call_returns [where fn = "g_fn g" and sysHandler = "g_handler g" and s = "s\<lparr>eip := after\<rparr>", OF _ _ _ enter_kernel_def h]
    by (simp add: t_def handler_entry_def)
  then have r: "r = t\<lparr>gpr := (gpr t)(ESP := gpr s ESP), eip := after, sel_cs := sel_cs s, sel_ss := sel_ss s,
      eflags := returned_flags (eflags s) (add_flags (gpr t ESP) 8 (eflags t))\<rparr>" by (simp add: r_def int_48_def)
  show "gpr r = (gpr t)(ESP := gpr s ESP)" "eip r = after" "sel_cs r = sel_cs s" "sel_ss r = sel_ss s"
    "eflags r AND iret_mask = eflags s AND iret_mask" by (simp_all add: r flags_returned)
  have "cdecl (g_fn g (g_handler g)) (bytes_at (gpr s ESP) n) (handler_entry g after s)" using u cdecl_mono by blast
  note c = this [unfolded cdecl_def Let_def, folded t_def]
  show "ram r x = ram s x" if "x \<in> bytes_at (gpr s ESP) n"
  proof -
    have "ram t x = ram (handler_entry g after s) x" using c that by blast
    moreover have "x \<notin> bytes_at (g_esp0 g - 32) 32" using u that by blast
    ultimately show ?thesis using u handler_entry_user [of s x g after] by (simp add: r)
  qed
  show "q \<in> {EBX, EBP, ESI, EDI} \<Longrightarrow> gpr t q = gpr s q"
    using c u handler_entry_args(5) [of s q g after] by auto
qed

lemma words_kept:
  assumes "\<And>x. x \<in> bytes_at p n \<Longrightarrow> ram t x = ram s x" "unat d + 4 \<le> n"
  shows "peek (p + d) t = peek (p + d) s"
  unfolding peek_def by (rule loads_agree [OF assms])

text \<open>The pushes of \<^verbatim>\<open>fork\<close> and the pops that undo them, from any state with the same words on the stack.\<close>

lemma fork_pushes:
  fixes fn ra s
  defines "p \<equiv> run_code fn ra code_fork s"
  shows "gpr p = (gpr s)(ESP := gpr s ESP - 16, EAX := 2)" "sel_cs p = sel_cs s" "sel_ss p = sel_ss s" "eflags p = eflags s"
    "peek (gpr s ESP - 16) p = gpr s EBP" "peek (gpr s ESP - 12) p = gpr s EDI" "peek (gpr s ESP - 8) p = gpr s ESI"
    "peek (gpr s ESP - 4) p = gpr s EBX" "peek (gpr s ESP) p = stack_top s"
  by (simp_all add: p_def code_fork_def machine_ops load_store_far)

lemma fork_pops:
  assumes "gpr t ESP = gpr s ESP - 16"
    and "\<And>x. x \<in> bytes_at (gpr s ESP - 16) 20 \<Longrightarrow> ram t x = ram (run_code fn ra code_fork s) x"
  shows "run_code fn ra' code_fork_rest t =
    t\<lparr>gpr := (gpr t)(EBX := gpr s EBX, ESI := gpr s ESI, EDI := gpr s EDI, EBP := gpr s EBP, ESP := gpr s ESP + 4), eip := stack_top s\<rparr>"
proof -
  let ?p = "run_code fn ra code_fork s"
  have w: "peek (gpr s ESP - 16 + d) t = peek (gpr s ESP - 16 + d) ?p" if "unat d + 4 \<le> 20" for d
    using words_kept [OF assms(2) that] .
  have "peek (gpr s ESP - 16) t = gpr s EBP" "peek (gpr s ESP - 12) t = gpr s EDI" "peek (gpr s ESP - 8) t = gpr s ESI"
    "peek (gpr s ESP - 4) t = gpr s EBX" "peek (gpr s ESP) t = stack_top s"
    using w [of 0] w [of 4] w [of 8] w [of 12] w [of 16] fork_pushes(5-9) [of s fn ra] by simp_all
  then show ?thesis
    using assms(1) by (simp add: code_fork_rest_def pop_into_def run_code_def set_gpr_def drop_top_def stack_top_def peek_def fun_upd_twist)
qed

lemma switchToUser_ram:
  assumes "x \<notin> bytes_at (gpr s ESP - 20) 20"
  shows "ram (run_code fn ra (code_switchToUser userCS userSS) s) x = ram s x"
proof -
  have "bytes_at (gpr s ESP - 20 + d) 4 \<subseteq> bytes_at (gpr s ESP - 20) 20" if "unat d + 4 \<le> 20" for d
    using bytes_at_sub [OF that] .
  from this [of 0] this [of 4] this [of 8] this [of 12] this [of 16]
  have "x \<notin> bytes_at (gpr s ESP - 20) 4" "x \<notin> bytes_at (gpr s ESP - 16) 4" "x \<notin> bytes_at (gpr s ESP - 12) 4"
    "x \<notin> bytes_at (gpr s ESP - 8) 4" "x \<notin> bytes_at (gpr s ESP - 4) 4" using assms by auto
  then show ?thesis by (simp add: code_switchToUser_def iret_def machine_ops store32_elsewhere)
qed

text \<open>A program ends with the result of \<^verbatim>\<open>main\<close> as the argument of \<^verbatim>\<open>exit\<close>, where the kernel reads \<^verbatim>\<open>userEsp[1]\<close>.\<close>

lemma start_passes_result:
  "\<exists>c. run_code fn ra (code_start heap_init main exit_stub) s = fn exit_stub c \<and>
    peek (gpr c ESP + 4) c = gpr (fn main (push ra (fn heap_init (push ra s)))) EAX \<and> stack_top c = ra"
  by (rule exI [where x = "push ra (let t = fn main (push ra (fn heap_init (push ra s))) in push (gpr t EAX) t)"])
     (simp add: code_start_def call_fn_def machine_ops load_store_far)

subsection \<open>Properties\<close>

text \<open>
  \<^bold>\<open>C27.\<close> The path of a system call (\<^verbatim>\<open>sys.S\<close> of user programs and \<^verbatim>\<open>sysHandler_\<close> in machine.S). When user code calls a stub,
  \<^verbatim>\<open>sysHandler\<close> is called with the number of the call as its first argument and a pointer to the processor's frame as its second, and the user's stack
  pointer that it finds in word 3 of the frame is such that \<^verbatim>\<open>userEsp[i]\<close> is the \<open>i\<close>th argument of the user's call; when it returns, the user is
  back behind its call, on its stack, in its segments and with its flags, with the result in \<^verbatim>\<open>%eax\<close> and the callee-saved registers as
  they were. The handler must follow the calling convention and leave the frame and the \<open>n\<close> bytes of the user's stack alone.
\<close>

theorem user_call_path:
  assumes "user_gate g n after (set_gpr EAX num s)" "4 \<le> n"
  shows "(let c = handler_entry g after (set_gpr EAX num s); frame = peek (gpr c ESP + 8) c; userEsp = peek (frame + 12) c;
      t = g_fn g (g_handler g) c; r = user_stub g num after s in
    peek (gpr c ESP + 4) c = num \<and> peek frame c = after \<and>
    (\<forall>d. unat d + 4 \<le> n \<longrightarrow> peek (userEsp + d) c = peek (gpr s ESP + d) s) \<and>
    gpr r EAX = gpr t EAX \<and> gpr r EBX = gpr s EBX \<and> gpr r EBP = gpr s EBP \<and> gpr r ESI = gpr s ESI \<and> gpr r EDI = gpr s EDI \<and>
    gpr r ESP = gpr s ESP + 4 \<and> eip r = stack_top s \<and> sel_cs r = sel_cs s \<and> sel_ss r = sel_ss s \<and>
    eflags r AND iret_mask = eflags s AND iret_mask)"
proof -
  let ?s = "set_gpr EAX num s"
  have f [simp]: "gpr ?s = (gpr s)(EAX := num)" "ram ?s = ram s" "sel_cs ?s = sel_cs s" "sel_ss ?s = sel_ss s" "eflags ?s = eflags s"
    by (simp_all add: set_gpr_def)
  note u = assms(1) [unfolded user_gate_def]
  have u3: "sel_cs ?s AND 3 \<noteq> 0" using u by simp
  note a = handler_entry_args [OF u3, where g = g and after = after]
  note r = int_48_returns [OF assms(1)]
  have "ram (handler_entry g after ?s) x = ram s x" if "x \<in> bytes_at (gpr s ESP) n" for x
    using handler_entry_user [OF u3, of x g after] u that by auto
  then have args: "unat d + 4 \<le> n \<Longrightarrow> peek (gpr s ESP + d) (handler_entry g after ?s) = peek (gpr s ESP + d) s" for d
    by (rule words_kept)
  have top: "peek (gpr s ESP + 0) (int_48 g after ?s) = peek (gpr s ESP + 0) s"
    using r(6) assms(2) by (intro words_kept [where n = n]) simp_all
  have "user_stub g num after s = (drop_top (int_48 g after ?s))\<lparr>eip := stack_top (int_48 g after ?s)\<rparr>"
    by (simp add: user_stub_def code_stub_def run_code_def)
  then show ?thesis
    using a args r(1-5) r(7) [of EBX] r(7) [of EBP] r(7) [of ESI] r(7) [of EDI] top
    by (simp add: Let_def drop_top_def set_gpr_def [of ESP] stack_top_def)
qed

definition demo_gate :: syscall_gate where
  "demo_gate = \<lparr>g_fn = rude_fn, g_ra = 0x100, g_esp0 = 0x9000, g_ss0 = 16, g_cs = 8, g_target = 0x300, g_handler = 0x200\<rparr>"

lemma demo_fields:
  "gpr user_cpu = (\<lambda>r. if r = ESP then 0xefffdff0 else 7)" "sel_cs user_cpu = 0x1b" "sel_ss user_cpu = 0x23" "ram user_cpu = (\<lambda>_. 0)"
  "g_fn demo_gate = rude_fn" "g_esp0 demo_gate = 0x9000" "g_cs demo_gate = 8" "g_handler demo_gate = 0x200"
  by (simp_all add: user_cpu_def demo_gate_def)

lemma demo_user_gate:
  assumes "sel_cs s = 0x1b" "sel_ss s = 0x23" "gpr s ESP = 0xefffdff0 \<or> gpr s ESP = 0xefffdfe0" "n \<le> 64"
  shows "user_gate demo_gate n after s"
proof -
  have "bytes_at 0x8fe0 32 \<inter> bytes_at (gpr s ESP) n = {}"
    using assms(3,4) by (intro bytes_at_apart) auto
  then show ?thesis using assms by (simp add: user_gate_def demo_fields rude_fn_cdecl)
qed

theorem user_call_path_witness:
  "(let r = user_stub demo_gate 1 0x80000402 user_cpu in
     gpr r EAX = 1 \<and> gpr r EBX = 7 \<and> gpr r ESP = 0xefffdff4 \<and> eip r = 0)"
proof -
  have "user_gate demo_gate 16 0x80000402 (set_gpr EAX 1 user_cpu)"
    by (rule demo_user_gate) (simp_all add: demo_fields set_gpr_def)
  then show ?thesis
    using user_call_path [of demo_gate 16 "0x80000402" 1 user_cpu]
    by (simp add: Let_def demo_fields) (simp add: rude_fn_def set_gpr_def drop_top_def stack_top_def peek_def load32_def demo_fields)
qed

text \<open>
  \<^bold>\<open>C9.\<close> \<^verbatim>\<open>fork\<close> returns twice to the same place (\<^verbatim>\<open>fork\<close> in sys.S, \<^verbatim>\<open>sysHandler_\<close> and \<^verbatim>\<open>switchToUser\<close> in machine.S). The child's
  thread has none of the parent's registers: it enters user mode with the program counter and stack pointer of the parent's trap frame and \<^verbatim>\<open>%eax\<close>
  0. Because the stub keeps the callee-saved registers on the stack, which the child has a copy of, parent and child both return
  from the call with the registers of the caller, the parent with the result of \<^verbatim>\<open>sysHandler\<close> and the child with 0.
\<close>

theorem fork_returns_twice:
  fixes g after s k
  defines "p \<equiv> run_code (g_fn g) 0 code_fork s"
  defines "c \<equiv> handler_entry g after p"
  assumes gate: "user_gate g 20 after p"
    and kernel: "sel_cs k AND 3 = 0" "peek userCS k AND 3 \<noteq> 0" "bytes_at userCS 4 \<inter> bytes_at (gpr k ESP - 12) 12 = {}"
    and call: "peek (gpr k ESP + 4) k = peek (peek (gpr c ESP + 8) c) c" "peek (gpr k ESP + 8) k = peek (peek (gpr c ESP + 8) c + 12) c"
      "peek (gpr k ESP + 12) k = 0"
    and copy: "bytes_at (gpr k ESP - 20) 20 \<inter> bytes_at (gpr s ESP - 16) 20 = {}"
      "\<And>x. x \<in> bytes_at (gpr s ESP - 16) 20 \<Longrightarrow> ram k x = ram c x"
  shows "(let parent = user_fork g after s; start = run_code (g_fn g) ra (code_switchToUser userCS userSS) k;
      child = run_code (g_fn g) 0 code_fork_rest start in
    eip start = after \<and> eip parent = stack_top s \<and> eip child = stack_top s \<and>
    gpr parent EAX = gpr (g_fn g (g_handler g) c) EAX \<and> gpr child EAX = 0 \<and>
    gpr parent EBX = gpr s EBX \<and> gpr parent ESI = gpr s ESI \<and> gpr parent EDI = gpr s EDI \<and> gpr parent EBP = gpr s EBP \<and>
    gpr parent ESP = gpr s ESP + 4 \<and>
    gpr child EBX = gpr s EBX \<and> gpr child ESI = gpr s ESI \<and> gpr child EDI = gpr s EDI \<and> gpr child EBP = gpr s EBP \<and>
    gpr child ESP = gpr s ESP + 4)"
proof -
  note p = fork_pushes [where fn = "g_fn g" and ra = 0 and s = s, folded p_def]
  note u = gate [unfolded user_gate_def]
  have u3: "sel_cs p AND 3 \<noteq> 0" using u by blast
  note a = handler_entry_args [OF u3, where g = g and after = after, folded c_def]
  note r = int_48_returns [OF gate, folded c_def]
  let ?t = "run_code (g_fn g) ra (code_switchToUser userCS userSS) k"
  have parent: "user_fork g after s = (int_48 g after p)\<lparr>gpr := (gpr (int_48 g after p))(EBX := gpr s EBX, ESI := gpr s ESI,
      EDI := gpr s EDI, EBP := gpr s EBP, ESP := gpr s ESP + 4), eip := stack_top s\<rparr>"
    unfolding user_fork_def p_def [symmetric] by (rule fork_pops) (use r(1,6) p(1) p_def in simp_all)
  have ramc: "ram c x = ram p x" if "x \<in> bytes_at (gpr s ESP - 16) 20" for x
    using handler_entry_user [OF u3, of x g after] u that p(1) by (auto simp: c_def)
  note start = switchToUser_runs [OF kernel(3,1,2), where fn = "g_fn g" and ra = ra and userSS = userSS, unfolded Let_def call a(2)]
  have start: "eip ?t = after" "gpr ?t ESP = gpr s ESP - 16" "gpr ?t EAX = 0" using start a(3,4) p(1) by simp_all
  have child: "run_code (g_fn g) 0 code_fork_rest ?t = ?t\<lparr>gpr := (gpr ?t)(EBX := gpr s EBX, ESI := gpr s ESI,
      EDI := gpr s EDI, EBP := gpr s EBP, ESP := gpr s ESP + 4), eip := stack_top s\<rparr>"
  proof (rule fork_pops [OF start(2)])
    fix x assume x: "x \<in> bytes_at (gpr s ESP - 16) 20"
    then have "ram ?t x = ram k x" using copy(1) by (intro switchToUser_ram) blast
    then show "ram ?t x = ram (run_code (g_fn g) 0 code_fork s) x" using x copy(2) ramc by (simp add: p_def)
  qed
  show ?thesis unfolding Let_def parent child using start r(1) by simp
qed

text \<open>A child whose memory is a copy of the parent's, with the call of \<^verbatim>\<open>switchToUser\<close> on a stack of its own.\<close>

definition child_cpu :: cpu where
  "child_cpu =
     (let c = handler_entry demo_gate 0x80000402 (run_code rude_fn 0 code_fork user_cpu)
      in c\<lparr>gpr := (\<lambda>_. 0)(ESP := 0x7000),
           ram := store32 (store32 (store32 (store32 (ram c) 0x7004 0x80000402) 0x7008 0xefffdfe0) 0x700c 0) 0x5000 0x1b\<rparr>)"

theorem fork_returns_twice_witness:
  "(let parent = user_fork demo_gate 0x80000402 user_cpu;
        child = run_code rude_fn 0 code_fork_rest (run_code rude_fn 0x104 (code_switchToUser 0x5000 0x5004) child_cpu) in
     gpr parent EAX = 1 \<and> gpr child EAX = 0 \<and> gpr parent EBX = 7 \<and> gpr child EBX = 7 \<and> gpr child EBP = 7 \<and>
     gpr parent ESP = 0xefffdff4 \<and> gpr child ESP = 0xefffdff4 \<and> eip child = eip parent)"
proof -
  let ?p = "run_code rude_fn 0 code_fork user_cpu"
  let ?c = "handler_entry demo_gate 0x80000402 ?p"
  note p = fork_pushes [where fn = rude_fn and ra = 0 and s = user_cpu]
  have gate: "user_gate demo_gate 20 0x80000402 ?p"
    by (rule demo_user_gate) (simp_all add: p demo_fields)
  have u: "sel_cs ?p AND 3 \<noteq> 0" by (simp add: p demo_fields)
  note a = handler_entry_args [OF u, where g = demo_gate and after = "0x80000402"]
  have c: "peek (peek (gpr ?c ESP + 8) ?c) ?c = 0x80000402" "peek (peek (gpr ?c ESP + 8) ?c + 12) ?c = 0xefffdfe0"
    using a by (simp_all add: p demo_fields)
  have k: "gpr child_cpu ESP = 0x7000" "sel_cs child_cpu AND 3 = 0" "peek 0x5000 child_cpu = 0x1b" "peek 0x7004 child_cpu = 0x80000402"
    "peek 0x7008 child_cpu = 0xefffdfe0" "peek 0x700c child_cpu = 0"
    by (simp_all add: child_cpu_def Let_def peek_def load_store_far handler_entry_def enter_kernel_def sys_call_ram(3) [OF refl] demo_fields)
  have away: "x \<in> bytes_at 0xefffdfe0 20 \<Longrightarrow> x \<notin> bytes_at 0x7004 4 \<and> x \<notin> bytes_at 0x7008 4 \<and> x \<notin> bytes_at 0x700c 4 \<and> x \<notin> bytes_at 0x5000 4" for x
    using bytes_at_apart [of 20 "0x7004" "0xefffdfe0" 4] bytes_at_apart [of 20 "0x7008" "0xefffdfe0" 4]
      bytes_at_apart [of 20 "0x700c" "0xefffdfe0" 4] bytes_at_apart [of 20 "0x5000" "0xefffdfe0" 4] by auto
  have m: "x \<in> bytes_at 0xefffdfe0 20 \<Longrightarrow> ram child_cpu x = ram ?c x" for x
    using away [of x] by (simp add: child_cpu_def Let_def store32_elsewhere)
  have "bytes_at (0x5000 :: u32) 4 \<inter> bytes_at 0x6ff4 12 = {}" "bytes_at (0x6fec :: u32) 20 \<inter> bytes_at 0xefffdfe0 20 = {}"
    by (rule bytes_at_apart; simp)+
  then show ?thesis
    using fork_returns_twice [of demo_gate "0x80000402" user_cpu child_cpu "0x5000" "0x104" "0x5004"] gate k c m
    by (simp add: Let_def demo_fields rude_fn_def set_gpr_def)
qed

end
