(* ===== verification/Kernel_Types.thy ===== *)
theory Kernel_Types
  imports Syscalls
begin

text \<open>
  Typing of the kernel's tables: every slot of every process's tables (process.h) refers to an object of the right kind
  that exists, every thread belongs to an existing process, and mappings refer to existing nodes. The
  lemmas show that every operation of the kernel that touches these tables keeps the typing, up to the whole system call
  handler and the timer handler.
\<close>

subsection \<open>Well-typed states\<close>

definition table_refs :: "nat option list \<Rightarrow> 'a list \<Rightarrow> bool" where
  "table_refs t xs \<longleftrightarrow> (\<forall>i. Some i \<in> set t \<longrightarrow> i < length xs)"

definition process_typed :: "kobjects \<Rightarrow> process \<Rightarrow> bool" where
  "process_typed k p \<longleftrightarrow> proc_wf p \<and> table_refs (files p) (file_objs k) \<and> table_refs (sems p) (sem_objs k) \<and>
     table_refs (children p) (future_objs k) \<and> table_refs (kill_flags p) (flag_objs k) \<and>
     proc_output p < length (future_objs k) \<and> kill_flag p < length (flag_objs k) \<and>
     (\<forall>e n. e \<in> set (entry_list p) \<longrightarrow> vm_node e = Node_At n \<longrightarrow> n < length (node_objs k))"

definition nodes_typed :: "kobjects \<Rightarrow> bool" where
  "nodes_typed k \<longleftrightarrow> (\<forall>n. n \<in> set (node_list k) \<longrightarrow> n < length (node_objs k))"

definition sched_typed :: "sched \<Rightarrow> bool" where
  "sched_typed s \<longleftrightarrow> (\<forall>p. p \<in> set (procs s) \<longrightarrow> process_typed (kobj s) p) \<and> (\<forall>t. tproc s t < length (procs s)) \<and>
     nodes_typed (kobj s)"

text \<open>Objects are only added.\<close>

definition grows :: "kobjects \<Rightarrow> kobjects \<Rightarrow> bool" where
  "grows k k' \<longleftrightarrow> length (file_objs k) \<le> length (file_objs k') \<and> length (sem_objs k) \<le> length (sem_objs k') \<and>
     length (future_objs k) \<le> length (future_objs k') \<and> length (flag_objs k) \<le> length (flag_objs k') \<and>
     length (node_objs k) \<le> length (node_objs k')"

lemma grows_refl [simp]: "grows k k"
  by (simp add: grows_def)

lemma process_typed_grows: "process_typed k p \<Longrightarrow> grows k k' \<Longrightarrow> process_typed k' p"
  unfolding process_typed_def table_refs_def grows_def by (meson less_le_trans)

lemma table_refs_update: "table_refs t xs \<Longrightarrow> i < length xs \<Longrightarrow> table_refs (t[j := Some i]) xs"
  using set_update_subset_insert [of t j "Some i"] by (auto simp: table_refs_def)

lemma table_refs_clear: "table_refs t xs \<Longrightarrow> table_refs (t[j := None]) xs"
  using set_update_subset_insert [of t j "None"] by (auto simp: table_refs_def)

lemma table_refs_nth: "table_refs t xs \<Longrightarrow> j < length t \<Longrightarrow> t ! j = Some i \<Longrightarrow> i < length xs"
  unfolding table_refs_def by (metis nth_mem)

subsection \<open>Operations on one process\<close>

lemma process_new_typed:
  "process_new b dir k = (k', p) \<Longrightarrow> process_typed k' p \<and> grows k k' \<and> node_list k' = node_list k \<and> node_objs k' = node_objs k"
  by (auto simp: process_new_def Let_def process_typed_def proc_wf_def table_refs_def grows_def table_sizes nth_list_update
      set_conv_nth split: if_splits)

lemma newSemaphore_typed:
  assumes "newSemaphore k p init = (k', p', r)" "process_typed k p"
  shows "process_typed k' p' \<and> grows k k' \<and> node_list k' = node_list k \<and> node_objs k' = node_objs k"
proof (cases "first_null 0 (sems p)")
  case None
  then show ?thesis using assms by (simp add: newSemaphore_def)
next
  case (Some i)
  let ?k = "k\<lparr>sem_objs := sem_objs k @ [semaphore_new init]\<rparr>"
  have "process_typed ?k p" using assms(2) by (rule process_typed_grows) (simp add: grows_def)
  then have "process_typed ?k (p\<lparr>sems := (sems p)[i := Some (length (sem_objs k))]\<rparr>)"
    using table_refs_update [of "sems p" "sem_objs ?k" "length (sem_objs k)" i] by (simp add: process_typed_def proc_wf_def)
  then show ?thesis using assms(1) Some by (auto simp: newSemaphore_def grows_def)
qed

lemma setFile_typed:
  "setFile p f = (p', r) \<Longrightarrow> process_typed k p \<Longrightarrow> f < length (file_objs k) \<Longrightarrow> process_typed k p'"
  by (auto simp: setFile_def process_typed_def proc_wf_def table_refs_update split: option.splits)

lemma close_typed: "close p i = (p', r) \<Longrightarrow> process_typed k p \<Longrightarrow> process_typed k p'"
  by (auto simp: close_def process_typed_def proc_wf_def table_refs_clear split: option.splits)

lemma proc_wait_typed: "proc_wait g p i = (p', r, v) \<Longrightarrow> process_typed k p \<Longrightarrow> process_typed k p'"
  by (auto simp: proc_wait_def process_typed_def proc_wf_def table_refs_clear split: option.splits)

lemma kill_typed:
  assumes "kill k p i = (k', p', r)" "process_typed k p"
  shows "process_typed k' p' \<and> grows k k' \<and> node_list k' = node_list k \<and> node_objs k' = node_objs k"
proof -
  have "(k' = k \<and> p' = p) \<or> (\<exists>f j. k' = k\<lparr>flag_objs := (flag_objs k)[f := True]\<rparr> \<and> p' = p\<lparr>kill_flags := (kill_flags p)[j := None]\<rparr>)"
    using assms(1) by (auto simp: kill_def split: option.splits)
  then show ?thesis
  proof
    assume "\<exists>f j. k' = k\<lparr>flag_objs := (flag_objs k)[f := True]\<rparr> \<and> p' = p\<lparr>kill_flags := (kill_flags p)[j := None]\<rparr>"
    then obtain f j where e: "k' = k\<lparr>flag_objs := (flag_objs k)[f := True]\<rparr>" "p' = p\<lparr>kill_flags := (kill_flags p)[j := None]\<rparr>" by blast
    have "grows k k'" by (simp add: e grows_def)
    moreover have "process_typed k p'" using assms(2) by (simp add: e process_typed_def proc_wf_def table_refs_clear)
    ultimately show ?thesis using e(1) by (auto intro: process_typed_grows)
  qed (use assms in simp)
qed

lemma proc_exit_grows:
  "proc_exit k p v = Inr (k', t) \<Longrightarrow> grows k k' \<and> node_list k' = node_list k \<and> node_objs k' = node_objs k"
  by (auto simp: proc_exit_def grows_def)

lemma adjust_nodes_length: "rfold (adjust_node d) es ns = Inr ns' \<Longrightarrow> length ns' = length ns"
  by (induction es arbitrary: ns) (fastforce simp: adjust_node_def split: node_ptr.splits)+

lemma decrementFiles_grows:
  "decrementFiles k p = Inr k' \<Longrightarrow> grows k k' \<and> node_list k' = node_list k \<and> length (node_objs k') = length (node_objs k)"
  by (auto simp: decrementFiles_def grows_def dest: adjust_nodes_length)

text \<open>Mapping and unmapping.\<close>

definition entries_typed :: "kobjects \<Rightarrow> vm_entry list \<Rightarrow> bool" where
  "entries_typed k es \<longleftrightarrow> (\<forall>e n. e \<in> set es \<longrightarrow> vm_node e = Node_At n \<longrightarrow> n < length (node_objs k))"

lemma process_typed_entries:
  "process_typed k p \<Longrightarrow> entries_typed k es \<Longrightarrow> process_typed k (p\<lparr>entry_list := es\<rparr>)"
  by (simp add: process_typed_def entries_typed_def proc_wf_def)

lemma typed_entries: "process_typed k p \<Longrightarrow> entries_typed k (entry_list p)"
  by (simp add: process_typed_def entries_typed_def)

lemma mmap_typed:
  assumes "mmap cfg k p addr len prot flags fd off = Inr (p', va)" "process_typed k p"
  shows "process_typed k p'"
proof -
  let ?va = "if addr = 0 then 0x80000000 else addr"
  obtain va' i where s: "(case entry_list p of [] \<Rightarrow> (?va, 0) | e # es \<Rightarrow> mmap_scan ?va (frameup len) e es 1) = (va', i)" by fastforce
  let ?es = "\<lambda>fl. take i (entry_list p) @ \<lparr>vm_file = fl, vm_size = frameup len, starting_address = va', vm_offset = off,
    vm_flags = flags, vm_prot = prot, vm_node = Uninit\<rparr> # drop i (entry_list p)"
  have "p' = p \<or> (\<exists>fl. p' = p\<lparr>entry_list := ?es fl\<rparr>)"
    using assms(1) unfolding mmap_def Let_def s by (auto split: if_splits)
  moreover have "entries_typed k (?es fl)" for fl
    using typed_entries [OF assms(2)] by (auto simp: entries_typed_def dest: in_set_takeD in_set_dropD)
  ultimately show ?thesis using assms(2) by (auto intro: process_typed_entries)
qed

lemma remove_file_subset: "set (remove_file k num ns) \<subseteq> set ns"
  by (induction ns) auto

lemma remove_node_keeps:
  "remove_node k np = Inr k' \<Longrightarrow> grows k k' \<and> length (node_objs k') = length (node_objs k) \<and> set (node_list k') \<subseteq> set (node_list k)"
  using remove_file_subset by (fastforce simp: remove_node_def grows_def split: list.splits node_ptr.splits if_splits)

lemma drop_node_use_keeps:
  "drop_node_use k np = Inr (k', b) \<Longrightarrow> grows k k' \<and> length (node_objs k') = length (node_objs k) \<and> node_list k' = node_list k"
  by (auto simp: drop_node_use_def grows_def Let_def split: node_ptr.splits)

lemma munmap_entry_keeps:
  assumes "munmap_entry s k dir e = Some (Inr (s', k'))"
  shows "grows k k' \<and> length (node_objs k') = length (node_objs k) \<and> set (node_list k') \<subseteq> set (node_list k)"
proof -
  obtain k1 b where k1: "(if vm_flags e AND 1 = 0 then Inr (k, True) else drop_node_use k (vm_node e)) = Inr (k1, b)"
    "k' = k1 \<or> remove_node k1 (vm_node e) = Inr k'"
    using assms unfolding munmap_entry_def by (auto split: sum.splits if_splits prod.splits)
  have "grows k k1 \<and> length (node_objs k1) = length (node_objs k) \<and> node_list k1 = node_list k"
    using k1(1) drop_node_use_keeps [of k "vm_node e" k1 b] by (auto split: if_splits)
  then show ?thesis using k1(2) remove_node_keeps [of k1 "vm_node e" k'] by (auto simp: grows_def)
qed

lemma munmap_scan_keeps:
  "munmap_scan s k dir addr seen es = Some (Inr (s', k', es')) \<Longrightarrow>
   grows k k' \<and> length (node_objs k') = length (node_objs k) \<and> set (node_list k') \<subseteq> set (node_list k) \<and> set es' \<subseteq> set seen \<union> set es"
proof (induction es arbitrary: seen)
  case (Cons e es)
  show ?case
  proof (cases "vm_covers addr e")
    case True
    then have "munmap_entry s k dir e = Some (Inr (s', k'))" "es' = seen @ es" using Cons.prems by auto
    then show ?thesis using munmap_entry_keeps by auto
  next
    case False
    then show ?thesis using Cons.IH [of "seen @ [e]"] Cons.prems by auto
  qed
qed auto

lemma munmap_typed:
  assumes "munmap cfg s k p addr len = Some (Inr (s', k', p', r))" "process_typed k p" "nodes_typed k"
  shows "process_typed k' p' \<and> grows k k' \<and> nodes_typed k'"
proof (cases "is_special cfg addr")
  case True
  then show ?thesis using assms by (simp add: munmap_def)
next
  case False
  then obtain es where es: "munmap_scan s k (pd p) addr [] (entry_list p) = Some (Inr (s', k', es))" "p' = p\<lparr>entry_list := es\<rparr>"
    using assms(1) by (auto simp: munmap_def)
  note m = munmap_scan_keeps [OF es(1)]
  have "process_typed k' p" using m assms(2) by (blast intro: process_typed_grows)
  moreover have "entries_typed k' es" using m typed_entries [OF assms(2)] unfolding entries_typed_def by auto
  ultimately show ?thesis using m assms(3) es(2) unfolding nodes_typed_def by (auto intro: process_typed_entries)
qed

lemma fault_frame_typed:
  assumes "fault_frame rd s k e va = Inr (s', k', e', pa)" "entries_typed k [e]" "nodes_typed k"
  shows "entries_typed k' [e'] \<and> grows k k' \<and> nodes_typed k'"
proof (cases "vm_file e = None \<or> vm_flags e AND 1 = 0")
  case True
  then show ?thesis using assms by (auto simp: fault_frame_def split: option.splits)
next
  case False
  then obtain fl where f: "vm_file e = Some fl" "vm_flags e AND 1 \<noteq> 0" by auto
  show ?thesis
  proof (cases "find_node k fl")
    case (Some n)
    then have "n < length (node_objs k)" using assms(3) by (auto simp: find_node_def nodes_typed_def find_Some_iff)
    then show ?thesis using assms f Some by (auto simp: fault_frame_def Let_def entries_typed_def grows_def nodes_typed_def)
  next
    case None
    then show ?thesis using assms f by (auto simp: fault_frame_def Let_def entries_typed_def grows_def nodes_typed_def less_Suc_eq)
  qed
qed

lemma fault_scan_typed:
  "fault_scan rd s k dir va seen es = Some (Inr (s', k', es')) \<Longrightarrow> entries_typed k seen \<Longrightarrow> entries_typed k es \<Longrightarrow> nodes_typed k \<Longrightarrow>
   entries_typed k' es' \<and> grows k k' \<and> nodes_typed k'"
proof (induction es arbitrary: seen)
  case (Cons e es)
  show ?case
  proof (cases "vm_covers va e")
    case True
    then obtain s1 e1 pa where f: "fault_frame rd s k e va = Inr (s1, k', e1, pa)" "es' = seen @ e1 # es" using Cons.prems(1) by auto
    have "entries_typed k' [e1] \<and> grows k k' \<and> nodes_typed k'"
      using Cons.prems(3,4) by (intro fault_frame_typed [OF f(1)]) (auto simp: entries_typed_def)
    then show ?thesis using Cons.prems(2,3) f(2) unfolding entries_typed_def grows_def by (auto intro: less_le_trans)
  next
    case False
    then show ?thesis using Cons.IH [of "seen @ [e]"] Cons.prems by (auto simp: entries_typed_def)
  qed
qed simp

lemma pageFault_typed:
  assumes "vmm_pageFault rd c1 c2 s k p va = Inr (s', k', p', r)" "process_typed k p" "nodes_typed k"
  shows "process_typed k' p' \<and> grows k k' \<and> nodes_typed k'"
proof -
  let ?va = "framedown va"
  let ?hit = "if ?va \<ge> 0x80000000 then fault_scan rd s k (pd p) ?va [] (entry_list p) else None"
  show ?thesis
  proof (cases ?hit)
    case None
    then obtain t where "proc_exit k p 1 = Inr (k', t)" "p' = p" using assms(1) by (auto simp: vmm_pageFault_def Let_def)
    then show ?thesis using proc_exit_grows assms(2,3) process_typed_grows by (fastforce simp: nodes_typed_def)
  next
    case (Some x)
    then obtain es where es: "fault_scan rd s k (pd p) ?va [] (entry_list p) = Some (Inr (s', k', es))" "p' = p\<lparr>entry_list := es\<rparr>"
      using assms(1) by (auto simp: vmm_pageFault_def Let_def split: if_splits)
    have "entries_typed k' es \<and> grows k k' \<and> nodes_typed k'"
      using typed_entries [OF assms(2)] assms(3) by (intro fault_scan_typed [OF es(1)]) (auto simp: entries_typed_def)
    then show ?thesis using es(2) assms(2) by (blast intro: process_typed_entries process_typed_grows)
  qed
qed

lemma fork_typed:
  assumes "fork cfg sh s k p = Inr (s', k', p', co, r)" "process_typed k p" "nodes_typed k"
  shows "grows k k' \<and> process_typed k' p' \<and> (\<forall>c. co = Some c \<longrightarrow> process_typed k' c) \<and> nodes_typed k'"
proof (cases "first_null 0 (children p)")
  case None
  then show ?thesis using assms by (simp add: fork_def)
next
  case (Some i)
  obtain dir k1 c where c: "process_new False dir k = (k1, c)"
    and ns: "\<exists>ns. rfold (adjust_node 1) (entry_list p) (node_objs k1) = Inr ns \<and> k' = k1\<lparr>node_objs := ns\<rparr>"
    and co: "co = Some (c\<lparr>entry_list := entry_list p, sems := map2 (\<lambda>x y. if x \<noteq> None then x else y) (sems p) (sems c), files := files p\<rparr>)"
      "p' = p\<lparr>children := (children p)[i := Some (proc_output c)], kill_flags := (kill_flags p)[i := Some (kill_flag c)]\<rparr>"
  proof -
    note t = that
    obtain s1 dir where d: "make_pd cfg sh s = Inr (s1, dir)" using assms(1) Some by (auto simp: fork_def)
    obtain k1 c where "process_new False dir k = (k1, c)" by fastforce
    then show thesis using assms(1) Some d by (intro t [of dir k1 c]) (auto simp: fork_def Let_def)
  qed
  note n = process_new_typed [OF c]
  have k': "grows k1 k'" "grows k k'" "node_list k' = node_list k" "length (node_objs k') = length (node_objs k)"
    "future_objs k' = future_objs k1" "flag_objs k' = flag_objs k1"
    using ns n adjust_nodes_length by (auto simp: grows_def)
  have p: "process_typed k' p" by (rule process_typed_grows [OF assms(2) k'(2)])
  have t: "process_typed k' c" using n k'(1) by (blast intro: process_typed_grows)
  have "sems c = replicate NSEM None" using c by (auto simp: process_new_def Let_def)
  then have "map2 (\<lambda>x y. if x \<noteq> None then x else y) (sems p) (sems c) = sems p"
    using assms(2) fork_sems [of p] by (simp add: process_typed_def proc_wf_def)
  then have "process_typed k' (the co)" using p t co(1) by (simp add: process_typed_def proc_wf_def)
  moreover have "process_typed k' p'"
    using p t co(2) by (simp add: process_typed_def proc_wf_def table_refs_update)
  ultimately show ?thesis using k' assms(3) co(1) by (simp add: nodes_typed_def)
qed

subsection \<open>The scheduler\<close>

definition same_tables :: "sched \<Rightarrow> sched \<Rightarrow> bool" where
  "same_tables s s' \<longleftrightarrow> procs s' = procs s \<and> kobj s' = kobj s \<and> tproc s' = tproc s"

lemma same_tables_typed: "same_tables s s' \<Longrightarrow> sched_typed s \<Longrightarrow> sched_typed s'"
  by (simp add: same_tables_def sched_typed_def)

lemma schedule_tables: "schedule s t = Some (Inr s') \<Longrightarrow> same_tables s s'"
  by (auto simp: schedule_def same_tables_def set_readyQ_def split: if_splits)

lemma schedule_typed: "schedule s t = Some (Inr s') \<Longrightarrow> sched_typed s \<Longrightarrow> sched_typed s'"
  by (rule same_tables_typed [OF schedule_tables])

lemma block_typed:
  assumes "block core irq opt f s = Some (Inr (s', r))" "sched_typed s"
    and f: "\<And>s1 me s2. f s1 me = Some (Inr s2) \<Longrightarrow> sched_typed s1 \<Longrightarrow> sched_typed s2"
  shows "sched_typed s'"
proof -
  let ?me = "activeThreads s ! core"
  let ?s0 = "s\<lparr>no_preempt := (no_preempt s)(?me := 1)\<rparr>"
  obtain q nx where q: "pq_remove (readyQ ?s0) = (q, nx)" by fastforce
  let ?s1 = "set_readyQ ?s0 q"
  have t1: "sched_typed ?s1" using assms(2) by (simp add: sched_typed_def set_readyQ_def)
  have t2: "sched_typed (switch_to core ?me n ?s1)" for n
    using t1 by (simp add: sched_typed_def switch_to_def contextSwitch_def Let_def)
  show ?thesis
    using assms(1) t1 t2 f unfolding block_def Let_def q by (auto split: if_splits)
qed

lemma stop_typed: "stop core irq s = Some (Inr (s', r)) \<Longrightarrow> sched_typed s \<Longrightarrow> sched_typed s'"
  unfolding stop_def by (erule block_typed) (auto simp: sched_typed_def set_zombies_def)

lemma yield_typed: "yield core irq s = Some (Inr (s', r)) \<Longrightarrow> sched_typed s \<Longrightarrow> sched_typed s'"
  unfolding yield_def by (erule block_typed) (auto dest: schedule_typed)

lemma delete_zombies_tables: "delete_zombies s = Some s' \<Longrightarrow> same_tables s s'"
proof (rule delete_zombies.raw_induct [where P = same_tables])
  fix dz s s'
  assume IH: "\<And>s s'. dz s = Some s' \<Longrightarrow> same_tables s s'"
    and step: "(let (q, it) = queue_remove (zombies s); s = set_zombies s q
      in if it = nullptr then Some s else dz (s\<lparr>tcbs := remove1 it (tcbs s)\<rparr>)) = Some s'"
  obtain q it where q: "queue_remove (zombies s) = (q, it)" by fastforce
  show "same_tables s s'"
  proof (cases "it = nullptr")
    case True
    then have "s' = set_zombies s q" using step q by simp
    then show ?thesis by (simp add: same_tables_def set_zombies_def)
  next
    case False
    then have "same_tables ((set_zombies s q)\<lparr>tcbs := remove1 it (tcbs (set_zombies s q))\<rparr>) s'"
      using step q by (intro IH) (simp add: Let_def)
    then show ?thesis by (simp add: same_tables_def set_zombies_def)
  qed
qed

lemma thread_new_typed:
  "thread_new t p esp s = Some (Inr s') \<Longrightarrow> sched_typed s \<Longrightarrow> p < length (procs s) \<Longrightarrow> sched_typed s'"
proof -
  assume n: "thread_new t p esp s = Some (Inr s')" and s: "sched_typed s" "p < length (procs s)"
  obtain s1 where s1: "delete_zombies s = Some s1" "schedule (tcb_new t p False esp s1) t = Some (Inr s')"
    using n by (auto simp: thread_new_def split: option.splits)
  have "sched_typed (tcb_new t p False esp s1)"
    using s delete_zombies_tables [OF s1(1)] by (auto simp: sched_typed_def same_tables_def tcb_new_def)
  then show ?thesis using schedule_typed [OF s1(2)] by simp
qed

lemma kobj_typed:
  assumes "sched_typed s" "grows (kobj s) k" "nodes_typed k"
  shows "sched_typed (s\<lparr>kobj := k\<rparr>)"
  using assms by (auto simp: sched_typed_def intro: process_typed_grows)

lemma sem_signal_typed:
  assumes "sem_signal i s = Some (Inr s')" "sched_typed s"
  shows "sched_typed s'"
proof -
  obtain g t where g: "sem_up (sem_objs (kobj s) ! i) = (g, t)" by fastforce
  let ?s = "s\<lparr>kobj := (kobj s)\<lparr>sem_objs := (sem_objs (kobj s))[i := g]\<rparr>\<rparr>"
  have "sched_typed ?s" using assms(2) by (intro kobj_typed) (simp_all add: grows_def sched_typed_def nodes_typed_def)
  then show ?thesis using assms(1) g schedule_typed by (auto simp: sem_signal_def Let_def split: option.splits)
qed

lemma sem_wait_typed:
  assumes "sem_wait core irq i s = Some (Inr (s', r))" "sched_typed s"
  shows "sched_typed s'"
proof -
  have u: "sched_typed (s1\<lparr>kobj := (kobj s1)\<lparr>sem_objs := (sem_objs (kobj s1))[i := g]\<rparr>\<rparr>)" if "sched_typed s1" for s1 g
    using that by (intro kobj_typed) (simp_all add: grows_def sched_typed_def nodes_typed_def)
  show ?thesis
  proof (cases "count (sem_objs (kobj s) ! i) > 0")
    case True
    then show ?thesis using assms u by (auto simp: sem_wait_def Let_def)
  next
    case False
    show ?thesis by (rule block_typed [OF _ assms(2)]) (use assms(1) False u in \<open>auto simp: sem_wait_def Let_def\<close>)
  qed
qed

lemma future_wait_typed:
  assumes "future_wait core i s = Some (Inr (s', r))" "sched_typed s"
  shows "sched_typed s'"
proof -
  have u: "sched_typed (s1\<lparr>kobj := (kobj s1)\<lparr>future_objs := (future_objs (kobj s1))[i := g]\<rparr>\<rparr>)" if "sched_typed s1" for s1 g
    using that by (intro kobj_typed) (simp_all add: grows_def sched_typed_def nodes_typed_def)
  show ?thesis by (rule block_typed [OF assms(1) [unfolded future_wait_def] assms(2)]) (use u in \<open>auto simp: Let_def\<close>)
qed

lemma exit_process_typed:
  assumes "exit_process p v s = Some (Inr s')" "sched_typed s"
  shows "sched_typed s'"
proof -
  obtain k t where k: "proc_exit (kobj s) (procs s ! p) v = Inr (k, t)" using assms(1) by (auto simp: exit_process_def split: sum.splits)
  have "sched_typed (s\<lparr>kobj := k\<rparr>)"
    using proc_exit_grows [OF k] assms(2) by (intro kobj_typed) (auto simp: sched_typed_def nodes_typed_def)
  then show ?thesis using assms(1) k schedule_typed by (auto simp: exit_process_def Let_def split: option.splits)
qed

lemma apitHandler_typed:
  assumes "apitHandler core s = Some (Inr s')" "sched_typed s"
  shows "sched_typed s'"
proof -
  have c: "sched_typed (charge p s1)" if "sched_typed s1" for p s1
  proof (cases "p < length (procs s1)")
    case True
    then have "process_typed (kobj s1) (procs s1 ! p)" using that by (simp add: sched_typed_def)
    then have "process_typed (kobj s1) ((procs s1 ! p)\<lparr>run_time := x\<rparr>)" for x
      by (simp add: process_typed_def proc_wf_def)
    then show ?thesis using that by (auto simp: sched_typed_def charge_def dest: set_update_subset_insert [THEN subsetD])
  next
    case False
    then show ?thesis using that by (simp add: charge_def sched_typed_def list_update_beyond)
  qed
  have j: "sched_typed (s\<lparr>jiffies := x\<rparr>)" for x using assms(2) by (simp add: sched_typed_def)
  show ?thesis
    using assms c j stop_typed yield_typed exit_process_typed
    unfolding apitHandler_def Let_def by (auto split: if_splits; blast)
qed

subsection \<open>Code that runs in a system call\<close>

definition keeps_at :: "'a kcode \<Rightarrow> kernel \<Rightarrow> bool" where
  "keeps_at m st \<longleftrightarrow> (sched_typed (sch st) \<longrightarrow> (\<forall>st' r. m st = Some (Inr (st', r)) \<longrightarrow> sched_typed (sch st')))"

definition keeps :: "'a kcode \<Rightarrow> bool" where
  "keeps m \<longleftrightarrow> (\<forall>st. keeps_at m st)"

named_theorems keeps_intros

lemma keepsI: "(\<And>st st' r. m st = Some (Inr (st', r)) \<Longrightarrow> sched_typed (sch st) \<Longrightarrow> sched_typed (sch st')) \<Longrightarrow> keeps m"
  by (simp add: keeps_def keeps_at_def)

lemma keepsD: "keeps m \<Longrightarrow> m st = Some (Inr (st', r)) \<Longrightarrow> sched_typed (sch st) \<Longrightarrow> sched_typed (sch st')"
  by (simp add: keeps_def keeps_at_def)

lemma keeps_kreturn [keeps_intros]: "keeps (kreturn x)"
  by (rule keepsI) (simp add: kreturn_def)

lemma keeps_klift [keeps_intros]: "keeps (klift r)"
  by (rule keepsI) (simp add: klift_def split: sum.splits)

lemma keeps_kbind [keeps_intros]: "keeps m \<Longrightarrow> (\<And>x. keeps (f x)) \<Longrightarrow> keeps (kbind m f)"
proof (rule keepsI)
  fix st st' r
  assume m: "keeps m" "\<And>x. keeps (f x)" and run: "kbind m f st = Some (Inr (st', r))" and st: "sched_typed (sch st)"
  obtain st1 a where a: "m st = Some (Inr (st1, a))" using run by (auto simp: kbind_def)
  have st1: "sched_typed (sch st1)" by (rule keepsD [OF m(1) a st])
  show "sched_typed (sch st')"
  proof (cases a)
    case (Ok x)
    then have "f x st1 = Some (Inr (st', r))" using run a by simp
    then show ?thesis using keepsD [OF m(2)] st1 by blast
  next
    case Ended
    then show ?thesis using run a st1 by (simp add: kbind_def)
  qed
qed

lemma keeps_if [keeps_intros]: "(b \<Longrightarrow> keeps m) \<Longrightarrow> (\<not> b \<Longrightarrow> keeps n) \<Longrightarrow> keeps (if b then m else n)"
  by simp

text \<open>Code that first looks at the state.\<close>

lemma keeps_dep: "(\<And>st0. keeps (\<lambda>st. g st0 st)) \<Longrightarrow> keeps (\<lambda>st. g st st)"
  by (simp add: keeps_def keeps_at_def)

lemma cur_proc_typed: "sched_typed (sch st) \<Longrightarrow> process_typed (kobj (sch st)) (cur_proc core st)"
  by (simp add: sched_typed_def cur_proc_def cur_index_def)

lemma set_proc_typed:
  "sched_typed (sch st) \<Longrightarrow> process_typed (kobj (sch st)) p \<Longrightarrow> sched_typed (sch (set_proc core p st))"
  by (auto simp: sched_typed_def set_proc_def dest: set_update_subset_insert [THEN subsetD])

lemma set_kobj_typed:
  "sched_typed (sch st) \<Longrightarrow> grows (kobj (sch st)) k \<Longrightarrow> nodes_typed k \<Longrightarrow> sched_typed (sch (set_kobj k st))"
  by (simp add: set_kobj_def kobj_typed)

lemma set_phys_typed [simp]: "sch (set_phys s st) = sch st"
  by (simp add: set_phys_def)

text \<open>New objects and a new version of the current process.\<close>

lemma set_both_typed:
  assumes "sched_typed (sch st)" "grows (kobj (sch st)) k" "nodes_typed k" "process_typed k p"
  shows "sched_typed (sch (set_proc core p (set_kobj k st)))"
  using set_kobj_typed [OF assms(1-3)] assms(4) by (intro set_proc_typed) simp_all

lemma keeps_end_thread [keeps_intros]: "keeps (end_thread core t)"
  by (rule keepsI) (auto simp: end_thread_def dest: stop_typed schedule_typed split: option.splits)

lemma keeps_page_fault [keeps_intros]: "keeps (page_fault fs core va)"
proof (rule keepsI)
  fix st st' :: kernel and r :: "unit access"
  assume run: "page_fault fs core va st = Some (Inr (st', r))" and st: "sched_typed (sch st)"
  let ?p = "cur_proc core st"
  obtain s k p' o' where f: "vmm_pageFault (ext2_reader fs) (pd ?p) (pd ?p) (phys (vm st)) (kobj (sch st)) ?p va = Inr (s, k, p', o')"
    using run by (auto simp: page_fault_def Let_def split: sum.splits)
  let ?st = "set_proc core p' (set_kobj k (set_phys s st))"
  have "process_typed k p' \<and> grows (kobj (sch st)) k \<and> nodes_typed k"
    using cur_proc_typed [OF st] st by (intro pageFault_typed [OF f]) (simp_all add: sched_typed_def)
  then have "sched_typed (sch ?st)" using st by (intro set_both_typed) simp_all
  then show "sched_typed (sch st')"
    using run f keepsD [OF keeps_end_thread] by (auto simp: page_fault_def Let_def kreturn_def split: fault_outcome.splits)
qed

lemma keeps_touch [keeps_intros]: "keeps (touch fs core va)"
proof -
  have "keeps (\<lambda>st. case translate core va st of Some pa \<Rightarrow> kreturn pa st
      | None \<Rightarrow> Some (Inl (Undefined_Behaviour ''the fault was not resolved'')))"
    by (rule keepsI) (auto simp: kreturn_def split: option.splits)
  then have "keeps (kbind (page_fault fs core va) (\<lambda>_ st. case translate core va st of Some pa \<Rightarrow> kreturn pa st
      | None \<Rightarrow> Some (Inl (Undefined_Behaviour ''the fault was not resolved''))))"
    by (intro keeps_intros)
  then show ?thesis
    by (intro keepsI) (auto simp: touch_def kreturn_def split: option.splits dest: keepsD)
qed

lemma keeps_vread8 [keeps_intros]: "keeps (vread8 fs core va)"
  unfolding vread8_def by (intro keeps_intros keepsI) (auto simp: kreturn_def)

lemma keeps_vwrite8 [keeps_intros]: "keeps (vwrite8 fs core va b)"
  unfolding vwrite8_def by (intro keeps_intros keepsI) (auto simp: kreturn_def)

lemma keeps_vread32 [keeps_intros]: "keeps (vread32 fs core va)"
  unfolding vread32_def by (intro keeps_intros)

lemma keeps_vstores [keeps_intros]: "keeps (vstores fs core xs)"
  by (induction xs rule: vstores.induct [where ?a0.0 = fs and ?a1.0 = core, case_names Nil Cons])
     (simp_all add: keeps_intros)

text \<open>The loops that read from user memory until a zero.\<close>

lemma read_loop_typed:
  assumes "keeps m" and g: "\<And>c st1. sched_typed (sch st1) \<Longrightarrow> g c st1 = Some (Inr (st', r)) \<Longrightarrow> sched_typed (sch st')"
    and run: "(case m st of None \<Rightarrow> None | Some (Inl e) \<Rightarrow> Some (Inl e) | Some (Inr (st, Ended)) \<Rightarrow> Some (Inr (st, Ended))
      | Some (Inr (st, Ok c)) \<Rightarrow> if c = 0 then Some (Inr (st, Ok acc)) else g c st) = Some (Inr (st', r))"
    and st: "sched_typed (sch st)"
  shows "sched_typed (sch st')"
proof -
  obtain st1 a where a: "m st = Some (Inr (st1, a))" using run by (auto split: option.splits sum.splits)
  have st1: "sched_typed (sch st1)" by (rule keepsD [OF assms(1) a st])
  then show ?thesis using run a g by (auto split: access.splits if_splits)
qed

lemma keeps_vstring [keeps_intros]: "keeps (vstring fs core va acc)"
proof (rule keepsI)
  fix st st' r
  assume run: "vstring fs core va acc st = Some (Inr (st', r))" and st: "sched_typed (sch st)"
  have "\<forall>st' r. y = Inr (st', r) \<longrightarrow> sched_typed (sch st) \<longrightarrow> sched_typed (sch st')"
    if "vstring fs core va acc st = Some y" for y
    using that
  proof (rule vstring.raw_induct [where P = "\<lambda>fs core va acc st y. \<forall>st' r. y = Inr (st', r) \<longrightarrow> sched_typed (sch st) \<longrightarrow> sched_typed (sch st')",
        rotated])
    fix loop fs core va acc st y
    assume IH: "\<And>fs core va acc st y. loop fs core va acc st = Some y \<Longrightarrow>
        \<forall>st' r. y = Inr (st', r) \<longrightarrow> sched_typed (sch st) \<longrightarrow> sched_typed (sch st')"
      and step: "(case vread8 fs core va st of None \<Rightarrow> None | Some (Inl e) \<Rightarrow> Some (Inl e)
        | Some (Inr (st, Ok c)) \<Rightarrow> if c = 0 then Some (Inr (st, Ok acc)) else loop fs core (va + 1) (acc @ [c]) st
        | Some (Inr (st, Ended)) \<Rightarrow> Some (Inr (st, Ended))) = Some y"
    show "\<forall>st' r. y = Inr (st', r) \<longrightarrow> sched_typed (sch st) \<longrightarrow> sched_typed (sch st')"
    proof (intro allI impI)
      fix st' r assume y: "y = Inr (st', r)" "sched_typed (sch st)"
      show "sched_typed (sch st')" by (rule read_loop_typed [OF keeps_vread8 _ step [unfolded y(1)] y(2)]) (use IH in blast)
    qed
  qed
  then show "sched_typed (sch st')" using run st by blast
qed

lemma keeps_user_arg [keeps_intros]: "keeps (user_arg fs core esp i)"
  unfolding user_arg_def by (intro keeps_intros)

lemma keeps_exec_args [keeps_intros]: "keeps (exec_args fs core esp i acc)"
proof (rule keepsI)
  fix st st' r
  assume run: "exec_args fs core esp i acc st = Some (Inr (st', r))" and st: "sched_typed (sch st)"
  have "\<forall>st' r. y = Inr (st', r) \<longrightarrow> sched_typed (sch st) \<longrightarrow> sched_typed (sch st')"
    if "exec_args fs core esp i acc st = Some y" for y
    using that
  proof (rule exec_args.raw_induct [where P = "\<lambda>fs core esp i acc st y. \<forall>st' r. y = Inr (st', r) \<longrightarrow> sched_typed (sch st) \<longrightarrow> sched_typed (sch st')",
        rotated])
    fix loop fs core esp i acc st y
    assume IH: "\<And>fs core esp i acc st y. loop fs core esp i acc st = Some y \<Longrightarrow>
        \<forall>st' r. y = Inr (st', r) \<longrightarrow> sched_typed (sch st) \<longrightarrow> sched_typed (sch st')"
      and step: "(case user_arg fs core esp i st of None \<Rightarrow> None | Some (Inl e) \<Rightarrow> Some (Inl e)
        | Some (Inr (st, Ok a)) \<Rightarrow> if a = 0 then Some (Inr (st, Ok acc)) else loop fs core esp (i + 1) (acc @ [a]) st
        | Some (Inr (st, Ended)) \<Rightarrow> Some (Inr (st, Ended))) = Some y"
    show "\<forall>st' r. y = Inr (st', r) \<longrightarrow> sched_typed (sch st) \<longrightarrow> sched_typed (sch st')"
    proof (intro allI impI)
      fix st' r assume y: "y = Inr (st', r)" "sched_typed (sch st)"
      show "sched_typed (sch st')" by (rule read_loop_typed [OF keeps_user_arg _ step [unfolded y(1)] y(2)]) (use IH in blast)
    qed
  qed
  then show "sched_typed (sch st')" using run st by blast
qed

lemma keeps_user_strings [keeps_intros]: "keeps (user_strings fs core as)"
  by (induction as) (simp_all add: keeps_intros)

lemma keeps_kmmap [keeps_intros]: "keeps (kmmap cfg core addr len prot flags fd off)"
proof (rule keepsI)
  fix st st' r
  assume run: "kmmap cfg core addr len prot flags fd off st = Some (Inr (st', r))" and st: "sched_typed (sch st)"
  obtain p va where p: "mmap cfg (kobj (sch st)) (cur_proc core st) addr len prot flags fd off = Inr (p, va)" "st' = set_proc core p st"
    using run by (auto simp: kmmap_def kbind_def klift_def kreturn_def split: sum.splits)
  show "sched_typed (sch st')"
    using p(2) st mmap_typed [OF p(1) cur_proc_typed [OF st]] by (simp add: set_proc_typed)
qed

lemma keeps_load_segments [keeps_intros]: "keeps (load_segments cfg fs core io entsize n hoff)"
proof -
  have "keeps (load_segment cfg fs core io ph)" for ph
    unfolding load_segment_def Let_def by (intro keeps_intros) (auto intro: keeps_intros split: prod.split)
  then show ?thesis by (induction n arbitrary: hoff) (auto simp: Let_def intro!: keeps_intros)
qed

lemma keeps_exec [keeps_intros]: "keeps (exec cfg fs root over core path args)"
proof (rule keepsI)
  fix st st' r
  assume run: "exec cfg fs root over core path args st = Some (Inr (st', r))" and st: "sched_typed (sch st)"
  have clear: "keeps (clear_private cfg core)"
    by (rule keepsI) (auto simp: clear_private_def kbind_def klift_def kreturn_def Let_def split: sum.splits)
  have load: "keeps (elf_load cfg fs core io)" for io
    unfolding elf_load_def Let_def by (intro keeps_intros)
  have "keeps (kbind (klift x) (\<lambda>bs. if \<not> elf_valid (parse_ElfHeader bs) then kreturn (Returns (- 1))
      else kbind (clear_private cfg core) (\<lambda>_. kbind (elf_load cfg fs core io) (\<lambda>e.
        kbind (kmmap cfg core (0xefffe000 - 4000000) 4000000 0xa 0x1 (- 1) 0) (\<lambda>_.
        kbind (vstores fs core (exec_stores over args)) (\<lambda>_. kreturn (Enters e (exec_sp args))))))))" for x io
    by (intro keeps_intros clear load)
  note k = keepsD [OF this]
  show "sched_typed (sch st')"
    using run st k unfolding exec_def by (auto simp: kreturn_def Let_def split: option.splits if_splits)
qed

subsection \<open>The handlers\<close>

lemma set_file_typed: "sched_typed (sch st) \<Longrightarrow> sched_typed (sch (set_file f x st))"
  unfolding set_file_def by (rule set_kobj_typed) (simp_all add: grows_def sched_typed_def nodes_typed_def)

lemma keeps_file_seek [keeps_intros]: "keeps (file_seek f off)"
  by (rule keepsI) (auto simp: file_seek_def kreturn_def set_file_typed split: kfile.splits)

lemma keeps_uart_get [keeps_intros]: "keeps uart_get"
  by (rule keepsI) (auto simp: uart_get_def kreturn_def split: list.splits)

lemma keeps_uart_put [keeps_intros]: "keeps (uart_put c)"
  by (rule keepsI) (auto simp: uart_put_def kreturn_def)

lemma keeps_file_read [keeps_intros]: "keeps (file_read fs core f buf n)"
proof -
  have a: "keeps (kbind uart_get (\<lambda>c. kbind (vwrite8 fs core buf c) (\<lambda>_. kreturn (1 :: u32))))" by (intro keeps_intros)
  have "keeps (\<lambda>st. let rd = (of_int cnt :: u32) in
      kreturn rd (if rd > 0 then set_file f (FileDescriptor number (off + rd)) st else st))" for cnt number off
    by (rule keepsI) (auto simp: kreturn_def Let_def set_file_typed split: if_splits)
  then have b: "keeps (kbind (klift x) (\<lambda>(cnt, bs). kbind (vstores fs core (byte_stores buf bs)) (\<lambda>_ st.
      let rd = (of_int cnt :: u32) in kreturn rd (if rd > 0 then set_file f (FileDescriptor number (off + rd)) st else st))))"
    for x :: "(int \<times> u8 list) result" and number off
    by (intro keeps_intros) (auto intro: keeps_intros split: prod.split)
  show ?thesis
    by (rule keepsI) (auto simp: file_read_def split: kfile.splits if_splits dest: keepsD [OF a] keepsD [OF b] keepsD [OF keeps_kreturn])
qed

lemma keeps_file_write [keeps_intros]: "keeps (file_write fs core f buf n)"
proof -
  have a: "keeps (kbind (vread8 fs core buf) (\<lambda>c. kbind (uart_put c) (\<lambda>_. kreturn (1 :: u32))))" by (intro keeps_intros)
  show ?thesis
    by (rule keepsI) (auto simp: file_write_def kreturn_def split: kfile.splits if_splits dest: keepsD [OF a])
qed

lemma keeps_with_file [keeps_intros]: "(\<And>f. keeps (g f)) \<Longrightarrow> keeps (with_file core fd g)"
proof (rule keepsI)
  fix st st' r
  assume g: "\<And>f. keeps (g f)" and run: "with_file core fd g st = Some (Inr (st', r))" and st: "sched_typed (sch st)"
  have "keeps (kbind (g i) (\<lambda>r. kreturn (Returns r)))" for i by (intro keeps_intros g)
  then show "sched_typed (sch st')" using run st by (auto simp: with_file_def kreturn_def split: option.splits dest: keepsD)
qed

lemma keeps_sys_exit [keeps_intros]: "keeps (sys_exit core status)"
proof (rule keepsI)
  fix st st' r
  assume run: "sys_exit core status st = Some (Inr (st', r))" and st: "sched_typed (sch st)"
  let ?p = "cur_proc core st"
  obtain k k' t where k: "decrementFiles (kobj (sch st)) ?p = Inr k" "proc_exit k ?p status = Inr (k', t)"
    and e: "end_thread core t (set_kobj k' st) = Some (Inr (st', r))"
    using run by (auto simp: sys_exit_def Let_def kbind_def klift_def split: sum.splits)
  have "grows (kobj (sch st)) k'" "nodes_typed k'"
    using decrementFiles_grows [OF k(1)] proc_exit_grows [OF k(2)] st by (auto simp: grows_def nodes_typed_def sched_typed_def)
  then have "sched_typed (sch (set_kobj k' st))" using st by (intro set_kobj_typed)
  then show "sched_typed (sch st')" using keepsD [OF keeps_end_thread e] by simp
qed

lemma keeps_sys_fork [keeps_intros]: "keeps (sys_fork cfg sh t esp core)"
proof (rule keepsI)
  fix st st' r
  assume run: "sys_fork cfg sh t esp core st = Some (Inr (st', r))" and st: "sched_typed (sch st)"
  obtain s k p c i where f: "fork cfg sh (phys (vm st)) (kobj (sch st)) (cur_proc core st) = Inr (s, k, p, Some c, i)"
    using run by (auto simp: sys_fork_def kbind_def klift_def Let_def split: sum.splits option.splits)
  let ?st = "set_proc core p (set_kobj k (set_phys s st))"
  have ft: "grows (kobj (sch st)) k \<and> process_typed k p \<and> (\<forall>d. Some c = Some d \<longrightarrow> process_typed k d) \<and> nodes_typed k"
    using cur_proc_typed [OF st] st by (intro fork_typed [OF f]) (simp_all add: sched_typed_def)
  then have "sched_typed (sch ?st)" using st by (intro set_both_typed) simp_all
  then have "sched_typed ((sch ?st)\<lparr>procs := procs (sch ?st) @ [c]\<rparr>)"
    using ft by (auto simp: sched_typed_def less_Suc_eq set_proc_def)
  then show "sched_typed (sch st')"
    using run f thread_new_typed by (auto simp: sys_fork_def Let_def kreturn_def)
qed

lemma keeps_with_semaphore [keeps_intros]: "(\<And>s. keeps (g s)) \<Longrightarrow> keeps (with_semaphore core i g)"
  by (rule keepsI) (auto simp: with_semaphore_def kreturn_def split: option.splits dest: keepsD)

lemma keeps_sys_up [keeps_intros]: "keeps (sys_up i)"
  by (rule keepsI) (auto simp: sys_up_def kreturn_def dest: sem_signal_typed)

lemma keeps_sys_down [keeps_intros]: "keeps (sys_down core i)"
  by (rule keepsI) (auto simp: sys_down_def kreturn_def dest: sem_wait_typed split: if_splits)

lemma keeps_sys_pure [keeps_intros]:
  assumes "\<And>k p k' p' r. f k p = (k', p', r) \<Longrightarrow> process_typed k p \<Longrightarrow> nodes_typed k \<Longrightarrow> process_typed k' p' \<and> grows k k' \<and> nodes_typed k'"
  shows "keeps (sys_pure f core)"
proof (rule keepsI)
  fix st st' r
  assume run: "sys_pure f core st = Some (Inr (st', r))" and st: "sched_typed (sch st)"
  obtain k p v where f: "f (kobj (sch st)) (cur_proc core st) = (k, p, v)" by (metis prod_cases3)
  have "process_typed k p \<and> grows (kobj (sch st)) k \<and> nodes_typed k"
    using assms [OF f] cur_proc_typed [OF st] st by (simp add: sched_typed_def)
  then show "sched_typed (sch st')" using run f st by (auto simp: sys_pure_def kreturn_def intro: set_both_typed)
qed

lemma keeps_wait_status [keeps_intros]: "keeps (wait_status fs core i status v)"
proof -
  have "keeps (\<lambda>st. let (p, r, _) = proc_wait (\<lambda>_. v) (cur_proc core st) i in kreturn (Returns r) (set_proc core p st))"
  proof (rule keepsI)
    fix st st' r
    assume run: "(let (p, r, _) = proc_wait (\<lambda>_. v) (cur_proc core st) i in kreturn (Returns r) (set_proc core p st)) = Some (Inr (st', r))"
      and st: "sched_typed (sch st)"
    obtain p w x where p: "proc_wait (\<lambda>_. v) (cur_proc core st) i = (p, w, x)" by (metis prod_cases3)
    then show "sched_typed (sch st')"
      using run proc_wait_typed [OF p cur_proc_typed [OF st]] st by (auto simp: kreturn_def intro: set_proc_typed)
  qed
  then have "keeps (kbind (vstores fs core (word_stores status v)) (\<lambda>_ st.
      let (p, r, _) = proc_wait (\<lambda>_. v) (cur_proc core st) i in kreturn (Returns r) (set_proc core p st)))"
    by (intro keeps_intros)
  then show ?thesis unfolding wait_status_def [abs_def] .
qed

lemma keeps_sys_wait [keeps_intros]: "keeps (sys_wait fs core i status)"
  by (rule keepsI)
     (auto simp: sys_wait_def Let_def split: option.splits if_splits dest: keepsD [OF keeps_kreturn] keepsD [OF keeps_wait_status],
      auto simp: kreturn_def dest: future_wait_typed)

lemma keeps_wait_resumed: "keeps (wait_resumed fs core i status c)"
proof (rule keepsI)
  fix st st' r
  assume run: "wait_resumed fs core i status c st = Some (Inr (st', r))" and st: "sched_typed (sch st)"
  obtain g t where g: "sem_up (go (future_objs (kobj (sch st)) ! c)) = (g, t)" by fastforce
  let ?k = "(kobj (sch st))\<lparr>future_objs := (future_objs (kobj (sch st)))[c := (future_objs (kobj (sch st)) ! c)\<lparr>go := g\<rparr>]\<rparr>"
  have k: "sched_typed (sch (set_kobj ?k st))"
    using st by (intro set_kobj_typed) (simp_all add: grows_def sched_typed_def nodes_typed_def)
  obtain sc where sc: "(case t of None \<Rightarrow> Some (Inr (sch (set_kobj ?k st))) | Some t \<Rightarrow> schedule (sch (set_kobj ?k st)) t) = Some (Inr sc)"
    and w: "wait_status fs core i status (fvalue (future_objs (kobj (sch st)) ! c)) ((set_kobj ?k st)\<lparr>sch := sc\<rparr>) = Some (Inr (st', r))"
    using run g by (auto simp: wait_resumed_def Let_def)
  have "sched_typed sc" using sc k schedule_typed by (auto split: option.splits)
  then show "sched_typed (sch st')" using keepsD [OF keeps_wait_status w] by simp
qed

lemma keeps_sys_execl [keeps_intros]: "keeps (sys_execl cfg fs root over core esp)"
  unfolding sys_execl_def by (intro keeps_intros)

lemma keeps_sys_open [keeps_intros]: "keeps (sys_open fs root core filename)"
proof -
  have "keeps (\<lambda>st. obind (fs_find fs (Some root) (path @ [0])) (\<lambda>node. case node of None \<Rightarrow> kreturn (Returns (- 1)) st
      | Some nd \<Rightarrow> obind (follow_links fs root nd) (\<lambda>nd.
          let k = kobj (sch st); f = length (file_objs k);
              st = set_kobj (k\<lparr>file_objs := file_objs k @ [FileDescriptor (node_number nd) 0]\<rparr>) st;
              (p, r) = setFile (cur_proc core st) f
          in kreturn (Returns r) (set_proc core p st))))" for path
  proof (rule keepsI)
    fix st st' r
    assume run: "obind (fs_find fs (Some root) (path @ [0])) (\<lambda>node. case node of None \<Rightarrow> kreturn (Returns (- 1)) st
      | Some nd \<Rightarrow> obind (follow_links fs root nd) (\<lambda>nd.
          let k = kobj (sch st); f = length (file_objs k);
              st = set_kobj (k\<lparr>file_objs := file_objs k @ [FileDescriptor (node_number nd) 0]\<rparr>) st;
              (p, r) = setFile (cur_proc core st) f
          in kreturn (Returns r) (set_proc core p st))) = Some (Inr (st', r))" and st: "sched_typed (sch st)"
    let ?k = "\<lambda>nd. (kobj (sch st))\<lparr>file_objs := file_objs (kobj (sch st)) @ [FileDescriptor (node_number nd) 0]\<rparr>"
    have k: "sched_typed (sch (set_kobj (?k nd) st))" for nd
      using st by (intro set_kobj_typed) (simp_all add: grows_def sched_typed_def nodes_typed_def)
    obtain p w where sf: "setFile (cur_proc core st) (length (file_objs (kobj (sch st)))) = (p, w)" by fastforce
    have "sched_typed (sch (set_proc core p (set_kobj (?k nd) st)))" for nd
      using k [of nd] setFile_typed [OF sf, of "?k nd"] cur_proc_typed [OF k [of nd], of core] by (intro set_proc_typed) simp_all
    with sf show "sched_typed (sch st')"
      using run st by (auto simp: kreturn_def Let_def split: option.splits)
  qed
  then show ?thesis unfolding sys_open_def by (intro keeps_intros)
qed

lemma keeps_sys_munmap [keeps_intros]: "keeps (sys_munmap cfg core addr len)"
proof (rule keepsI)
  fix st st' r
  assume run: "sys_munmap cfg core addr len st = Some (Inr (st', r))" and st: "sched_typed (sch st)"
  obtain v k p w where m: "munmap cfg (vm st) (kobj (sch st)) (cur_proc core st) addr len = Some (Inr (v, k, p, w))"
    and st': "st' = set_proc core p (set_kobj k (st\<lparr>vm := v\<rparr>))"
    using run by (auto simp: sys_munmap_def kreturn_def)
  have "process_typed k p \<and> grows (kobj (sch st)) k \<and> nodes_typed k"
    using cur_proc_typed [OF st] st by (intro munmap_typed [OF m]) (simp_all add: sched_typed_def)
  then show "sched_typed (sch st')" using st' st by (auto intro: set_both_typed)
qed

lemma keeps_sysHandler: "keeps (sysHandler E core eax esp)"
proof -
  have n: "process_typed k' p' \<and> grows k k' \<and> nodes_typed k'"
    if "newSemaphore k p v = (k', p', r)" "process_typed k p" "nodes_typed k" for k p v k' p' r
    using newSemaphore_typed [OF that(1,2)] that(3) by (simp add: nodes_typed_def)
  have l: "process_typed k' p' \<and> grows k k' \<and> nodes_typed k'"
    if "(k, close p v) = (k', p', r)" "process_typed k p" "nodes_typed k" for k p v k' p' r
    using that close_typed by auto
  have x: "process_typed k' p' \<and> grows k k' \<and> nodes_typed k'"
    if "kill k p v = (k', p', r)" "process_typed k p" "nodes_typed k" for k p v k' p' r
    using kill_typed [OF that(1,2)] that(3) by (simp add: nodes_typed_def)
  have size: "keeps (\<lambda>st. klift (file_size fs (file_objs (kobj (sch st)) ! f)) st)" for fs f
    by (rule keepsI) (auto simp: klift_def split: sum.splits)
  show ?thesis
    unfolding sysHandler_def sys_seek_def sys_mmap_def Let_def by (intro keeps_intros size) (erule (2) n | erule (2) l | erule (2) x)+
qed

subsection \<open>Runs of the kernel\<close>

text \<open>One round of the thread that frees dead threads (\<^verbatim>\<open>threadsInit\<close>).\<close>

definition reaper_round :: "nat \<Rightarrow> bool \<Rightarrow> sched \<Rightarrow> (sched \<times> block_outcome) result option" where
  "reaper_round core irq_on s =
     (if irq_on then
        (case delete_zombies s of None \<Rightarrow> None | Some s \<Rightarrow> yield core irq_on s)
      else Some (Inl (Assert_Failed ''!Interrupts::isDisabled()'')))"

lemma reaper_typed: "reaper_round core irq s = Some (Inr (s', r)) \<Longrightarrow> sched_typed s \<Longrightarrow> sched_typed s'"
  by (auto simp: reaper_round_def split: if_splits option.splits dest: yield_typed delete_zombies_tables same_tables_typed)

text \<open>
  The kernel at the start of the first process, with the idle threads \<open>ts\<close>, and what happens to its tables then: system calls and
  the rest of a \<^verbatim>\<open>wait\<close> that had to sleep, page faults, timer interrupts on any core, rounds of the reaper, new kernel threads of the first process, and changes
  of user memory.
\<close>

definition first_kernel :: "ptr list \<Rightarrow> u32 \<Rightarrow> vmm \<Rightarrow> kernel" where
  "first_kernel ts dir v =
     (let (k, p) = process_new True dir \<lparr>sem_objs = [], future_objs = [], flag_objs = [], file_objs = [], node_objs = [], node_list = []\<rparr>
      in \<lparr>sch = boot_state ts [p] k, vm = v, console = [], keyboard = []\<rparr>)"

inductive kernel_run :: "ptr list \<Rightarrow> kernel \<Rightarrow> bool"
  for ts :: "ptr list"
where
  run_start: "kernel_run ts (first_kernel ts dir v)"
| run_call: "kernel_run ts st \<Longrightarrow> sysHandler E core eax esp st = Some (Inr (st', r)) \<Longrightarrow> kernel_run ts st'"
| run_wait: "kernel_run ts st \<Longrightarrow> wait_resumed fs core i status c st = Some (Inr (st', r)) \<Longrightarrow> kernel_run ts st'"
| run_fault: "kernel_run ts st \<Longrightarrow> page_fault fs core va st = Some (Inr (st', r)) \<Longrightarrow> kernel_run ts st'"
| run_timer: "kernel_run ts st \<Longrightarrow> apitHandler core (sch st) = Some (Inr s) \<Longrightarrow> kernel_run ts (st\<lparr>sch := s\<rparr>)"
| run_thread: "kernel_run ts st \<Longrightarrow> thread_new t 0 esp (sch st) = Some (Inr s) \<Longrightarrow> kernel_run ts (st\<lparr>sch := s\<rparr>)"
| run_reaper: "kernel_run ts st \<Longrightarrow> reaper_round core irq (sch st) = Some (Inr (s, r)) \<Longrightarrow> kernel_run ts (st\<lparr>sch := s\<rparr>)"
| run_memory: "kernel_run ts st \<Longrightarrow> kernel_run ts (st\<lparr>vm := v, console := out, keyboard := inp\<rparr>)"

lemma first_kernel_typed: "sched_typed (sch (first_kernel ts dir v))"
proof -
  obtain k p where n: "process_new True dir \<lparr>sem_objs = [], future_objs = [], flag_objs = [], file_objs = [], node_objs = [], node_list = []\<rparr> = (k, p)"
    by fastforce
  have f: "procs (boot_state ts [p] k) = [p]" "kobj (boot_state ts [p] k) = k" "tproc (boot_state ts [p] k) t = 0" for t
    using new_idles_fields [unfolded new_idles_def] by (simp_all add: boot_state_def idle_state_def Let_def)
  show ?thesis
    using process_new_typed [OF n] by (simp add: first_kernel_def n sched_typed_def f nodes_typed_def)
qed

lemma kernel_run_typed: "kernel_run ts st \<Longrightarrow> sched_typed (sch st)"
proof (induction rule: kernel_run.induct)
  case (run_thread st t esp s)
  have "0 < length (procs (sch st))" using run_thread.IH by (fastforce simp: sched_typed_def)
  then show ?case using thread_new_typed [OF run_thread.hyps(2) run_thread.IH] by simp
qed (auto simp: first_kernel_typed dest: keepsD [OF keeps_sysHandler] keepsD [OF keeps_wait_resumed] keepsD [OF keeps_page_fault]
     apitHandler_typed reaper_typed)

lemma typed_lookup:
  assumes "process_typed k p"
  shows "getFile p i = Some f \<Longrightarrow> f < length (file_objs k)" "getSemaphore p i = Some s \<Longrightarrow> s < length (sem_objs k)"
    "getChildIndex i = Some j \<Longrightarrow> children p ! j = Some c \<Longrightarrow> c < length (future_objs k)"
    "getChildIndex i = Some j \<Longrightarrow> kill_flags p ! j = Some g \<Longrightarrow> g < length (flag_objs k)"
proof -
  note t = assms [unfolded process_typed_def proc_wf_def]
  have b: "getFileIndex i = Some j \<Longrightarrow> j < length (files p)" "getSemaphoreIndex i = Some j \<Longrightarrow> j < length (sems p)"
    "getChildIndex i = Some j \<Longrightarrow> j < length (children p) \<and> j < length (kill_flags p)" for j
    using t table_index_bound by (auto simp: getFileIndex_def getSemaphoreIndex_def getChildIndex_def)
  show "getFile p i = Some f \<Longrightarrow> f < length (file_objs k)"
    using t b(1) table_refs_nth by (fastforce simp: getFile_index split: option.splits)
  show "getSemaphore p i = Some s \<Longrightarrow> s < length (sem_objs k)"
    using t b(2) table_refs_nth by (fastforce simp: getSemaphore_index split: option.splits)
  show "getChildIndex i = Some j \<Longrightarrow> children p ! j = Some c \<Longrightarrow> c < length (future_objs k)"
    "getChildIndex i = Some j \<Longrightarrow> kill_flags p ! j = Some g \<Longrightarrow> g < length (flag_objs k)"
    using t b(3) table_refs_nth by blast+
qed

text \<open>
  \<^bold>\<open>C34.\<close> The kernel's tables are well typed (process.h, process.cc, sys.cc, vmm.cc, threads.h). In every state that the kernel reaches
  from the start of the first process by system calls, page faults, timer interrupts and new threads, on any
  number of cores, every process has full tables, every number that a system call may be given leads to no object
  or to one that exists and is of the kind of the number (file, semaphore, exit status and kill flag of a child),
  its own exit status and kill flag exist, its mappings refer to existing file nodes, and every thread belongs to an existing process.
\<close>

theorem kernel_tables_typed:
  assumes "kernel_run ts st" "p \<in> set (procs (sch st))"
  shows "proc_wf p \<and> proc_output p < length (future_objs (kobj (sch st))) \<and> kill_flag p < length (flag_objs (kobj (sch st))) \<and>
    (\<forall>i f. getFile p i = Some f \<longrightarrow> f < length (file_objs (kobj (sch st)))) \<and>
    (\<forall>i s. getSemaphore p i = Some s \<longrightarrow> s < length (sem_objs (kobj (sch st)))) \<and>
    (\<forall>i j c. getChildIndex i = Some j \<longrightarrow> children p ! j = Some c \<longrightarrow> c < length (future_objs (kobj (sch st)))) \<and>
    (\<forall>i j g. getChildIndex i = Some j \<longrightarrow> kill_flags p ! j = Some g \<longrightarrow> g < length (flag_objs (kobj (sch st)))) \<and>
    (\<forall>e n. e \<in> set (entry_list p) \<longrightarrow> vm_node e = Node_At n \<longrightarrow> n < length (node_objs (kobj (sch st)))) \<and>
    (\<forall>t. tproc (sch st) t < length (procs (sch st)))"
proof -
  have s: "sched_typed (sch st)" by (rule kernel_run_typed [OF assms(1)])
  then have t: "process_typed (kobj (sch st)) p" using assms(2) by (simp add: sched_typed_def)
  have "proc_wf p \<and> proc_output p < length (future_objs (kobj (sch st))) \<and> kill_flag p < length (flag_objs (kobj (sch st))) \<and>
    (\<forall>e n. e \<in> set (entry_list p) \<longrightarrow> vm_node e = Node_At n \<longrightarrow> n < length (node_objs (kobj (sch st))))"
    using t by (auto simp: process_typed_def)
  then show ?thesis using s typed_lookup [OF t] unfolding sched_typed_def by blast
qed

text \<open>The first process after an unknown system call.\<close>

theorem kernel_tables_typed_witness:
  "\<exists>st p. kernel_run [1] st \<and> procs (sch st) = [p] \<and> getFile p 2 = Some 0 \<and> 0 < length (file_objs (kobj (sch st))) \<and> proc_wf p"
proof -
  let ?st = "first_kernel [1] 0x100000 sample_vmm"
  have "sysHandler E 0 99 0 ?st = Some (Inr (?st, Ok (Returns (- 1))))" for E
    by (simp add: sysHandler_def Let_def kreturn_def)
  then have run: "kernel_run [1] ?st" by (rule run_call [OF run_start])
  obtain p where p: "procs (sch ?st) = [p]" "getFile p 2 = Some 0"
    by (simp add: first_kernel_def process_new_def Let_def boot_state_def idle_state_def tcb_new_def getFile_def getFileIndex_def table_index_def
        table_sizes id_kinds)
  then show ?thesis using run kernel_tables_typed [OF run, of p] by auto
qed

end
