(* ===== verification/Debug_Output.thy ===== *)
theory Debug_Output
  imports Snprintf Locks
begin

text \<open>
  The kernel's messages (\<^verbatim>\<open>kernel/debug.cc\<close>, \<^verbatim>\<open>kernel/debug.h\<close>): printing under the lock of the console, panics,
  assertions and checks, and debugging output that can be switched on. The model follows one processor; a lock that is taken
  already is never given back in it, so \<^verbatim>\<open>lock()\<close> does not return then. With it, the small remaining classes of
  \<^verbatim>\<open>kernel/atomic.h\<close>: plain loads and stores of atomic cells, cells behind a pointer, and lock guards.
\<close>

subsection \<open>Cells and guards (atomic.h)\<close>

definition atomic_get :: "'a \<Rightarrow> 'a \<times> 'a" where
  "atomic_get v = (v, v)"

definition atomic_set :: "'a \<Rightarrow> 'a \<Rightarrow> 'a \<times> unit" where
  "atomic_set v x = (x, ())"

text \<open>An operation on the cell that an \<^verbatim>\<open>AtomicPtr\<close> points to; null is address 0.\<close>

definition atomic_at :: "('a \<Rightarrow> 'a \<times> 'b) \<Rightarrow> u32 \<Rightarrow> (u32 \<Rightarrow> 'a) \<Rightarrow> ((u32 \<Rightarrow> 'a) \<times> 'b) result" where
  "atomic_at f p m =
     (if p = 0 then Inl (Undefined_Behaviour ''AtomicPtr is null'')
      else let (v, r) = f (m p) in Inr (m(p := v), r))"

text \<open>\<^verbatim>\<open>LockGuard\<close> and \<^verbatim>\<open>LockGuardP\<close>: the lock is taken, the block runs, the lock is released; no lock for a null pointer.\<close>

definition lock_guard :: "('s \<Rightarrow> 's result option) \<Rightarrow> ('s \<Rightarrow> 's) \<Rightarrow> ('s \<Rightarrow> 's result option) \<Rightarrow> 's \<Rightarrow> 's result option" where
  "lock_guard lock unlock body s =
     obind (lock s) (\<lambda>s. obind (body s) (\<lambda>s. Some (Inr (unlock s))))"

definition lock_guard_p :: "(('s \<Rightarrow> 's result option) \<times> ('s \<Rightarrow> 's)) option \<Rightarrow> ('s \<Rightarrow> 's result option) \<Rightarrow> 's \<Rightarrow> 's result option" where
  "lock_guard_p it body s = (case it of None \<Rightarrow> body s | Some (lock, unlock) \<Rightarrow> lock_guard lock unlock body s)"

definition no_lock :: "('s \<Rightarrow> 's result option) \<times> ('s \<Rightarrow> 's)" where
  "no_lock = (\<lambda>s. Some (Inr s), \<lambda>s. s)"

subsection \<open>State (debug.h)\<close>

record debug_state =
  sink_set :: bool
  console_lock :: interrupt_safe_lock
  cpu_flags :: u32
  printed :: "u8 list"
  shutdown_called :: bool
  debugAll :: bool
  checks :: u32

text \<open>The methods of the console's \<^verbatim>\<open>InterruptSafeLock\<close> on one processor.\<close>

definition console_acquire :: "debug_state \<Rightarrow> debug_state result option" where
  "console_acquire d =
     (let (flags, wasDisabled) = disable (cpu_flags d); (t, old) = exchange (taken (console_lock d)) True in
      if \<not> old then Some (Inr (d\<lparr>cpu_flags := flags, console_lock := \<lparr>taken = t, was = wasDisabled\<rparr>\<rparr>)) else None)"

definition console_release :: "debug_state \<Rightarrow> debug_state" where
  "console_release d =
     (let wasDisabled = was (console_lock d) in
      d\<lparr>console_lock := (console_lock d)\<lparr>taken := False\<rparr>, cpu_flags := restore (cpu_flags d) wasDisabled\<rparr>)"

subsection \<open>Printing (debug.cc)\<close>

definition Debug_init :: "bool \<Rightarrow> debug_state \<Rightarrow> debug_state" where
  "Debug_init sink d = d\<lparr>sink_set := sink\<rparr>"

definition Debug_vprintf :: "u8 list \<Rightarrow> va_arg list \<Rightarrow> debug_state \<Rightarrow> debug_state result option" where
  "Debug_vprintf fmt ap d =
     (if sink_set d then
        obind (console_acquire d) (\<lambda>d.
        obind (Some (vsnprintf \<lparr>out = printed d, currlen = 0\<rparr> 1000 fmt ap)) (\<lambda>(s, _).
          Some (Inr (console_release (d\<lparr>printed := out s\<rparr>)))))
      else Some (Inr d))"

text \<open>A literal of the source with its terminating zero.\<close>

definition text_of :: "string \<Rightarrow> u8 list" where
  "text_of s = map ascii s @ [0]"

definition newline :: "u8 list" where
  "newline = [10, 0]"

text \<open>
  \<^verbatim>\<open>shutdown\<close> and \<^verbatim>\<open>vpanic\<close> end in a loop that asks the emulator to stop; what they have done by then is the state
  returned. \<open>me\<close> is the number of the processor.
\<close>

definition Debug_shutdown :: "u32 \<Rightarrow> debug_state \<Rightarrow> debug_state result option" where
  "Debug_shutdown me d =
     obind (if checks d > 0 then Debug_vprintf (map ascii ''*** passed %d checkes'' @ newline) [Word_Arg (checks d)] d else Some (Inr d)) (\<lambda>d.
     obind (Debug_vprintf (map ascii ''core %d requested shutdown'' @ newline) [Word_Arg me] d) (\<lambda>d.
       Some (Inr (d\<lparr>shutdown_called := True\<rparr>))))"

definition Debug_vpanic :: "u32 \<Rightarrow> u8 list \<Rightarrow> va_arg list \<Rightarrow> debug_state \<Rightarrow> debug_state result option" where
  "Debug_vpanic me fmt ap d =
     obind (Debug_vprintf fmt ap (console_release d)) (\<lambda>d.
     obind (Debug_vprintf (map ascii ''| processor %d halting'' @ newline) [Word_Arg me] d) (\<lambda>d.
       Some (Inr (d\<lparr>shutdown_called := True\<rparr>))))"

text \<open>What a check or assertion does: the code goes on, or the processor halts.\<close>

datatype 'a goes_on = Goes_On 'a | Halts 'a

definition Debug_assert :: "u32 \<Rightarrow> bool \<Rightarrow> u8 list \<Rightarrow> u8 list \<Rightarrow> u32 \<Rightarrow> debug_state \<Rightarrow> debug_state goes_on result option" where
  "Debug_assert me invariant txt file_name line d =
     (if \<not> invariant
      then obind (Debug_vpanic me (map ascii ''*** Assertion [%s] failed at %s:%d'' @ newline) [Str_Arg (Some txt), Str_Arg (Some file_name), Word_Arg line] d)
             (\<lambda>d. Some (Inr (Halts d)))
      else Some (Inr (Goes_On d)))"

definition Debug_check :: "u32 \<Rightarrow> bool \<Rightarrow> u8 list \<Rightarrow> u8 list \<Rightarrow> u32 \<Rightarrow> debug_state \<Rightarrow> debug_state goes_on result option" where
  "Debug_check me invariant txt file_name line d =
     (let d = d\<lparr>checks := fst (fetch_add (checks d) 1)\<rparr> in
      if \<not> invariant
      then obind (Debug_vpanic me (map ascii ''*** Check [%s] failed at %s:%d'' @ newline) [Str_Arg (Some txt), Str_Arg (Some file_name), Word_Arg line] d)
             (\<lambda>d. Some (Inr (Halts d)))
      else Some (Inr (Goes_On d)))"

definition Debug_missing :: "u32 \<Rightarrow> u8 list \<Rightarrow> u32 \<Rightarrow> debug_state \<Rightarrow> debug_state goes_on result option" where
  "Debug_missing me file_name line d =
     obind (Debug_vpanic me (map ascii ''*** Missing code at %s:%d'' @ newline) [Str_Arg (Some file_name), Word_Arg line] d)
       (\<lambda>d. Some (Inr (Halts d)))"

text \<open>An object of class \<^verbatim>\<open>Debug\<close> has a name and a flag, which \<^verbatim>\<open>on\<close> and \<^verbatim>\<open>off\<close> set.\<close>

record debug_object =
  what :: "u8 list"
  dbg_flag :: bool

definition debug_object_new :: "u8 list \<Rightarrow> debug_object" where
  "debug_object_new w = \<lparr>what = w, dbg_flag = False\<rparr>"

definition debug_on :: "debug_object \<Rightarrow> debug_object" where
  "debug_on x = x\<lparr>dbg_flag := True\<rparr>"

definition debug_off :: "debug_object \<Rightarrow> debug_object" where
  "debug_off x = x\<lparr>dbg_flag := False\<rparr>"

definition Debug_vdebug :: "debug_object \<Rightarrow> u8 list \<Rightarrow> va_arg list \<Rightarrow> debug_state \<Rightarrow> debug_state result option" where
  "Debug_vdebug x fmt ap d =
     (if debugAll d \<or> dbg_flag x then
        obind (Debug_vprintf (text_of ''[%s] '') [Str_Arg (Some (what x))] d) (\<lambda>d.
        obind (Debug_vprintf fmt ap d) (Debug_vprintf newline []))
      else Some (Inr d))"

definition Debug_debug :: "debug_object \<Rightarrow> u8 list \<Rightarrow> va_arg list \<Rightarrow> debug_state \<Rightarrow> debug_state result option" where
  "Debug_debug x fmt ap d = (if debugAll d \<or> dbg_flag x then Debug_vdebug x fmt ap d else Some (Inr d))"

subsection \<open>What is printed\<close>

text \<open>A message changes only the output: the lock is free again and interrupts are as they were.\<close>

lemma vprintf_runs:
  assumes "\<not> taken (console_lock d)" "sink_set d" "vsnprintf \<lparr>out = printed d, currlen = 0\<rparr> 1000 fmt ap = Inr (s, stores)"
  shows "\<exists>d'. Debug_vprintf fmt ap d = Some (Inr d') \<and> printed d' = out s \<and> \<not> taken (console_lock d') \<and>
    isDisabled (cpu_flags d') = isDisabled (cpu_flags d) \<and> sink_set d' \<and> shutdown_called d' = shutdown_called d \<and> checks d' = checks d"
  using assms by (simp add: Debug_vprintf_def console_acquire_def console_release_def exchange_def Let_def split_beta)

lemma vprintf_blocks: "taken (console_lock d) \<Longrightarrow> sink_set d \<Longrightarrow> Debug_vprintf fmt ap d = None"
  by (simp add: Debug_vprintf_def console_acquire_def exchange_def split_beta)

text \<open>
  A panic prints even when the processor holds the lock of the console, as in an assertion that fails while a message is being
  printed; the same message with \<^verbatim>\<open>printf\<close> would never return.
\<close>

lemma panic_prints_under_lock:
  assumes "sink_set d" "vsnprintf \<lparr>out = printed d, currlen = 0\<rparr> 1000 fmt ap = Inr (s, stores)"
    "vsnprintf \<lparr>out = out s, currlen = 0\<rparr> 1000 (map ascii ''| processor %d halting'' @ newline) [Word_Arg me] = Inr (s', stores')"
  shows "\<exists>d'. Debug_vpanic me fmt ap d = Some (Inr d') \<and> printed d' = out s' \<and> shutdown_called d' \<and> \<not> taken (console_lock d')"
proof -
  let ?d = "console_release d"
  have r: "\<not> taken (console_lock ?d)" "sink_set ?d" "printed ?d = printed d" using assms(1) by (simp_all add: console_release_def Let_def)
  obtain d1 where d1: "Debug_vprintf fmt ap ?d = Some (Inr d1)" "printed d1 = out s" "\<not> taken (console_lock d1)" "sink_set d1"
    using vprintf_runs [OF r(1,2), unfolded r(3), OF assms(2)] by auto
  obtain d2 where "Debug_vprintf (map ascii ''| processor %d halting'' @ newline) [Word_Arg me] d1 = Some (Inr d2)" "printed d2 = out s'"
    "\<not> taken (console_lock d2)"
    using vprintf_runs [OF d1(3,4), unfolded d1(2), OF assms(3)] by auto
  then show ?thesis using d1(1) by (simp add: Debug_vpanic_def)
qed

lemma guard_restores:
  assumes "lock_guard console_acquire console_release body d = Some (Inr d')"
    and "\<And>e e'. body e = Some (Inr e') \<Longrightarrow> console_lock e' = console_lock e \<and> isDisabled (cpu_flags e') = isDisabled (cpu_flags e)"
  shows "\<not> taken (console_lock d') \<and> isDisabled (cpu_flags d') = isDisabled (cpu_flags d)"
  using assms(1) assms(2)
  by (fastforce simp: lock_guard_def console_acquire_def console_release_def exchange_def Let_def split_beta split: if_splits)

text \<open>Tickets from \<^verbatim>\<open>fetch_add(1)\<close>, as thread numbers are drawn (threads.cc): no two of the first \<open>2 ^ 32\<close> are equal.\<close>

fun tickets :: "nat \<Rightarrow> u32 \<Rightarrow> u32 list" where
  "tickets 0 v = []"
| "tickets (Suc n) v = (let (v', t) = fetch_add v 1 in t # tickets n v')"

lemma tickets_eq: "tickets n v = map (\<lambda>i. v + of_nat i) [0..<n]"
proof (induction n arbitrary: v)
  case (Suc n)
  have "map (\<lambda>i. v + of_nat i) [0..<Suc n] = v # map (\<lambda>i. v + of_nat (Suc i)) [0..<n]"
    by (simp only: upt_conv_Cons map_Suc_upt [symmetric] list.map zero_less_Suc) (simp add: comp_def)
  then show ?case using Suc by (simp add: fetch_add_def add.assoc)
qed simp

lemma tickets_distinct: "n \<le> 4294967296 \<Longrightarrow> distinct (tickets n v)"
  using distinct_word_upt [of n 0] by (auto simp: tickets_eq distinct_map inj_on_def)

end
