(* ===== verification/Boot_Messages.thy ===== *)
theory Boot_Messages
  imports Debug_Output Exec
begin

text \<open>
  The first steps of \<^verbatim>\<open>kernelInit\<close> (\<^verbatim>\<open>init.cc\<close>), in which the processor and the machine are identified, the choice of the first
  stacks, the loop over the global constructors (\<^verbatim>\<open>crti.cc\<close>), and the last step, \<^verbatim>\<open>kernelMain\<close> (\<^verbatim>\<open>kernel.cc\<close>).
  The instruction \<^verbatim>\<open>cpuid\<close> is a parameter.
\<close>

subsection \<open>Stacks and constructors\<close>

text \<open>The array of a stack has 4096 words.\<close>

definition kernel_stack :: "u32 \<Rightarrow> u32 \<Rightarrow> u32" where
  "kernel_stack stacks i = stacks + i * 16384"

definition pickKernelStack :: "u32 \<Rightarrow> bool \<Rightarrow> u32 \<Rightarrow> u32" where
  "pickKernelStack stacks smpInitDone me = kernel_stack stacks (if smpInitDone then me else 0) + 4 * 4096"

definition CRT_init :: "('s \<Rightarrow> 's result) list \<Rightarrow> 's \<Rightarrow> 's result" where
  "CRT_init init_array s = rfold (\<lambda>func s. func s) init_array s"

text \<open>Processors have separate stacks, which grow down from the addresses that are picked.\<close>

lemma stacks_separate:
  assumes "unat stacks + 16 * 16384 \<le> 4294967296" "i < 16" "j < 16" "i \<noteq> j"
  shows "{unat (pickKernelStack stacks True i - 16384) ..< unat (pickKernelStack stacks True i - 16384) + 16384} \<inter>
    {unat (pickKernelStack stacks True j - 16384) ..< unat (pickKernelStack stacks True j - 16384) + 16384} = {}"
proof -
  have u: "unat (pickKernelStack stacks True k - 16384) = unat stacks + unat k * 16384" if "k < 16" for k
  proof -
    have k: "unat k < 16" using that by (simp add: word_less_nat_alt)
    have "unat (k * 16384) = unat k * 16384" using k by (simp add: unat_word_ariths)
    then show ?thesis using assms(1) k by (simp add: pickKernelStack_def kernel_stack_def unat_word_ariths)
  qed
  have "unat i \<noteq> unat j" using assms(4) by (simp add: word_unat_eq_iff)
  then show ?thesis unfolding u [OF assms(2)] u [OF assms(3)] by auto
qed

subsection \<open>Identification (init.cc)\<close>

record cpuid_out =
  id_a :: u32
  id_b :: u32
  id_c :: u32
  id_d :: u32

definition say :: "string \<Rightarrow> debug_state \<Rightarrow> debug_state result option" where
  "say t d = Debug_vprintf (map ascii t @ newline) [] d"

primrec id_chars :: "nat \<Rightarrow> u32 \<Rightarrow> debug_state \<Rightarrow> debug_state result option" where
  "id_chars 0 q d = Some (Inr d)"
| "id_chars (Suc i) q d =
     obind (Debug_vprintf (text_of ''%c'') [Word_Arg (scast (ucast q :: u8))] d) (id_chars i (drop_bit 8 q))"

definition identify :: "(u32 \<Rightarrow> cpuid_out) \<Rightarrow> debug_state \<Rightarrow> (debug_state \<times> bool) result option" where
  "identify cpuid d =
     obind (say ''| Discovering my identity and features'' d) (\<lambda>d.
     obind (Debug_vprintf (text_of ''|     CPUID: '') [] d) (\<lambda>d.
     obind (id_chars 4 (id_b (cpuid 0)) d) (\<lambda>d.
     obind (id_chars 4 (id_d (cpuid 0)) d) (\<lambda>d.
     obind (id_chars 4 (id_c (cpuid 0)) d) (\<lambda>d.
     obind (Debug_vprintf newline [] d) (\<lambda>d.
     obind (if id_c (cpuid 1) AND 0x1 \<noteq> 0 then say ''|     has SSE3'' d else Some (Inr d)) (\<lambda>d.
     obind (if id_c (cpuid 1) AND 0x8 \<noteq> 0 then say ''|     has MONITOR/MWAIT'' d else Some (Inr d)) (\<lambda>d.
     obind (if id_c (cpuid 1) AND 0x80000000 \<noteq> 0 then say ''|     running on hypervisor'' d else say ''|     running on physical hardware'' d) (\<lambda>d.
       Some (Inr (d, id_c (cpuid 1) AND 0x80000000 \<noteq> 0)))))))))))"

definition boot_identity :: "(u32 \<Rightarrow> cpuid_out) \<Rightarrow> debug_state \<Rightarrow> (debug_state \<times> bool) result option" where
  "boot_identity cpuid d =
     (let d = (Debug_init True d)\<lparr>debugAll := False\<rparr> in
      obind (Debug_vprintf (10 # map ascii ''| What just happened? Why am I here?'' @ newline) [] d) (identify cpuid))"

text \<open>The machine's configuration, printed after \<^verbatim>\<open>configInit\<close>.\<close>

definition config_messages :: "config \<Rightarrow> debug_state \<Rightarrow> debug_state result option" where
  "config_messages kConfig d =
     obind (Debug_vprintf (map ascii ''| totalProcs %d'' @ newline) [Word_Arg (totalProcs kConfig)] d) (\<lambda>d.
     obind (Debug_vprintf (map ascii ''| memSize 0x%x %dMB'' @ newline) [Word_Arg (memSize kConfig), Word_Arg (memSize kConfig div (1024 * 1024))] d) (\<lambda>d.
     obind (Debug_vprintf (map ascii ''| localAPIC %x'' @ newline) [Word_Arg (localAPIC kConfig)] d)
       (Debug_vprintf (map ascii ''| ioAPIC %x'' @ newline) [Word_Arg (ioAPIC kConfig)])))"

subsection \<open>The first program (kernel.cc)\<close>

definition kernelMain :: "config \<Rightarrow> ext2 \<Rightarrow> Node \<Rightarrow> (nat \<Rightarrow> u8 list) \<Rightarrow> nat \<Rightarrow> sys_outcome kcode" where
  "kernelMain cfg fs root over core =
     kbind (exec cfg fs root over core (map ascii ''/sbin/init'') [map ascii ''init'']) (\<lambda>r.
       case r of Returns rc \<Rightarrow> klift (Inl (Panic ''*** rc = %d'')) | _ \<Rightarrow> kreturn r)"

subsection \<open>What is printed\<close>

lemma obind_assoc: "obind (obind r f) g = obind r (\<lambda>x. obind (f x) g)"
  by (auto simp: obind_def split: option.splits sum.splits)

text \<open>\<open>says d cs d'\<close>: between the two states \<open>cs\<close> was printed and nothing else changed that later messages depend on.\<close>

definition says :: "debug_state \<Rightarrow> u8 list \<Rightarrow> debug_state \<Rightarrow> bool" where
  "says d cs d' \<longleftrightarrow> printed d' = printed d @ cs \<and> sink_set d' \<and> \<not> taken (console_lock d') \<and>
     isDisabled (cpu_flags d') = isDisabled (cpu_flags d) \<and> checks d' = checks d \<and> shutdown_called d' = shutdown_called d"

definition prints :: "(debug_state \<Rightarrow> debug_state result option) \<Rightarrow> u8 list \<Rightarrow> bool" where
  "prints f cs \<longleftrightarrow> (\<forall>d. sink_set d \<longrightarrow> \<not> taken (console_lock d) \<longrightarrow> (\<exists>d'. f d = Some (Inr d') \<and> says d cs d'))"

lemma prints_nothing: "prints (\<lambda>d. Some (Inr d)) []"
  by (simp add: prints_def says_def)

lemma prints_then: "prints f cs \<Longrightarrow> prints g ds \<Longrightarrow> prints (\<lambda>d. obind (f d) g) (cs @ ds)"
  unfolding prints_def says_def by (metis append_assoc obind_simps(3))

lemma prints_text:
  assumes "\<forall>c \<in> set cs. c \<noteq> 0 \<and> c \<noteq> 37" "length cs \<le> 1000"
  shows "prints (Debug_vprintf (cs @ 0 # rest) ap) cs"
proof -
  have "\<exists>d'. Debug_vprintf (cs @ 0 # rest) ap d = Some (Inr d') \<and> says d cs d'" if "sink_set d" "\<not> taken (console_lock d)" for d
  proof -
    have "vsnprintf \<lparr>out = printed d, currlen = 0\<rparr> 1000 (cs @ 0 # rest) ap = Inr (put_all \<lparr>out = printed d, currlen = 0\<rparr> cs, [])"
      using dopr_text [of cs 1000 "\<lparr>out = printed d, currlen = 0\<rparr>" rest ap] assms by (simp add: vsnprintf_def)
    from vprintf_runs [OF that(2,1) this] show ?thesis by (auto simp: says_def put_all_out)
  qed
  then show ?thesis by (simp add: prints_def)
qed

lemma prints_char: "prints (Debug_vprintf [37, 99, 0] [Word_Arg w]) [ucast w]"
proof -
  have v: "vsnprintf s 1000 [37, 99, 0] [Word_Arg w] = Inr (dopr_outch (s\<lparr>currlen := 0\<rparr>) (ucast w), [])" for s
    by (simp add: vsnprintf_def dopr_def dopr_loop.simps dopr_step_def dopr_conv_def on_sink_def dopr_reset_def isdigit_def Let_def ascii_def
        dopr_outch_def c_int_def)
  then have "\<exists>d'. Debug_vprintf [37, 99, 0] [Word_Arg w] d = Some (Inr d') \<and> says d [ucast w] d'"
    if "sink_set d" "\<not> taken (console_lock d)" for d
    using vprintf_runs [OF that(2,1) v] by (auto simp: says_def dopr_outch_def)
  then show ?thesis by (simp add: prints_def)
qed

text \<open>The four characters in a register, lowest byte first.\<close>

definition reg_chars :: "u32 \<Rightarrow> u8 list" where
  "reg_chars q = map (\<lambda>k. ucast (drop_bit (8 * k) q)) [0..<4]"

lemma prints_id: "prints (id_chars i q) (map (\<lambda>k. ucast (drop_bit (8 * k) q)) [0..<i])"
proof (induction i arbitrary: q)
  case 0
  show ?case using prints_nothing by (simp add: prints_def)
next
  case (Suc i)
  have b: "(ucast (scast b :: u32) :: u8) = b" for b :: u8
    by (rule bit_word_eqI) (auto simp: bit_ucast_iff bit_word_scast_iff)
  have c: "text_of ''%c'' = [37, 99, 0]" by (simp add: text_of_def ascii_def)
  have "map (\<lambda>k. ucast (drop_bit (8 * k) q) :: u8) [0..<Suc i] = ucast q # map (\<lambda>k. ucast (drop_bit (8 * Suc k) q)) [0..<i]"
    by (simp only: upt_conv_Cons map_Suc_upt [symmetric] list.map zero_less_Suc) (simp add: comp_def)
  also have "\<dots> = [ucast (scast (ucast q :: u8) :: u32)] @ map (\<lambda>k. ucast (drop_bit (8 * k) (drop_bit 8 q))) [0..<i]"
    by (simp add: b add.commute)
  finally show ?case
    using prints_then [OF prints_char Suc.IH, of "scast (ucast q :: u8)" "drop_bit 8 q"] by (simp add: c)
qed

lemma prints_say:
  assumes "\<forall>c \<in> set (map ascii t). c \<noteq> 0 \<and> c \<noteq> 37" "length t \<le> 999"
  shows "prints (say t) (map ascii t @ [10])"
  using prints_text [of "map ascii t @ [10]" "[]" "[]"] assms by (auto simp: say_def newline_def prints_def)

lemma prints_if: "prints f cs \<Longrightarrow> prints g ds \<Longrightarrow> prints (\<lambda>d. if b then f d else g d) (if b then cs else ds)"
  by simp

text \<open>What the kernel prints first, for the answers of \<^verbatim>\<open>cpuid\<close>.\<close>

definition identity_text :: "(u32 \<Rightarrow> cpuid_out) \<Rightarrow> u8 list" where
  "identity_text cpuid =
     map ascii ''| Discovering my identity and features'' @ [10] @
     map ascii ''|     CPUID: '' @ reg_chars (id_b (cpuid 0)) @ reg_chars (id_d (cpuid 0)) @ reg_chars (id_c (cpuid 0)) @ [10] @
     (if bit (id_c (cpuid 1)) 0 then map ascii ''|     has SSE3'' @ [10] else []) @
     (if bit (id_c (cpuid 1)) 3 then map ascii ''|     has MONITOR/MWAIT'' @ [10] else []) @
     (if bit (id_c (cpuid 1)) 31 then map ascii ''|     running on hypervisor'' @ [10] else map ascii ''|     running on physical hardware'' @ [10])"

text \<open>
  The identification of the processor: the vendor's name is printed from the three registers in the order of the manual, then the features, and
  the kernel takes the machine for a hypervisor exactly when bit 31 says so; the lock of the console is free again.
\<close>

lemma identify_prints:
  assumes "\<not> taken (console_lock d)" "sink_set d"
  shows "\<exists>d'. identify cpuid d = Some (Inr (d', bit (id_c (cpuid 1)) 31)) \<and> says d (identity_text cpuid) d'"
proof -
  have m: "w AND 0x1 \<noteq> 0 \<longleftrightarrow> bit w 0" "w AND 0x8 \<noteq> 0 \<longleftrightarrow> bit w 3" "w AND 0x80000000 \<noteq> 0 \<longleftrightarrow> bit w 31" for w :: u32
    using and_exp_eq_0_iff_not_bit [of w 0] and_exp_eq_0_iff_not_bit [of w 3] and_exp_eq_0_iff_not_bit [of w 31] by simp_all
  have s: "prints (say ''| Discovering my identity and features'') (map ascii ''| Discovering my identity and features'' @ [10])"
    "prints (say ''|     has SSE3'') (map ascii ''|     has SSE3'' @ [10])"
    "prints (say ''|     has MONITOR/MWAIT'') (map ascii ''|     has MONITOR/MWAIT'' @ [10])"
    "prints (say ''|     running on hypervisor'') (map ascii ''|     running on hypervisor'' @ [10])"
    "prints (say ''|     running on physical hardware'') (map ascii ''|     running on physical hardware'' @ [10])"
    by (rule prints_say; simp add: ascii_def)+
  have t: "prints (Debug_vprintf (text_of ''|     CPUID: '') []) (map ascii ''|     CPUID: '')" "prints (Debug_vprintf newline []) [10]"
    using prints_text [of "map ascii ''|     CPUID: ''" "[]" "[]"] prints_text [of "[10]" "[]" "[]"] by (simp_all add: text_of_def newline_def ascii_def)
  note r = prints_id [of 4, folded reg_chars_def]
  note f = prints_if [OF _ prints_nothing]
  note all = prints_then [OF s(1) prints_then [OF t(1) prints_then [OF r prints_then [OF r prints_then [OF r prints_then [OF t(2)
    prints_then [OF f [OF s(2)] prints_then [OF f [OF s(3)] prints_if [OF s(4) s(5)]]]]]]]]]
  have e: "identify cpuid d = obind (obind (say ''| Discovering my identity and features'' d) (\<lambda>d. obind (Debug_vprintf (text_of ''|     CPUID: '') [] d) (\<lambda>d.
     obind (id_chars 4 (id_b (cpuid 0)) d) (\<lambda>d. obind (id_chars 4 (id_d (cpuid 0)) d) (\<lambda>d. obind (id_chars 4 (id_c (cpuid 0)) d) (\<lambda>d.
     obind (Debug_vprintf newline [] d) (\<lambda>d. obind (if bit (id_c (cpuid 1)) 0 then say ''|     has SSE3'' d else Some (Inr d)) (\<lambda>d.
     obind (if bit (id_c (cpuid 1)) 3 then say ''|     has MONITOR/MWAIT'' d else Some (Inr d)) (\<lambda>d.
     if bit (id_c (cpuid 1)) 31 then say ''|     running on hypervisor'' d else say ''|     running on physical hardware'' d)))))))))
     (\<lambda>d. Some (Inr (d, bit (id_c (cpuid 1)) 31)))"
    unfolding identify_def m by (simp only: obind_assoc)
  obtain d' where "says d (identity_text cpuid) d'" "identify cpuid d = Some (Inr (d', bit (id_c (cpuid 1)) 31))"
    using all [unfolded prints_def, rule_format, OF assms(2,1), of "id_b (cpuid 0)" "id_d (cpuid 0)" "id_c (cpuid 0)" "bit (id_c (cpuid 1)) 0"
        "bit (id_c (cpuid 1)) 3" "bit (id_c (cpuid 1)) 31"]
    unfolding e identity_text_def by auto
  then show ?thesis by blast
qed

lemma boot_identity_prints:
  assumes "\<not> taken (console_lock d)"
  shows "\<exists>d'. boot_identity cpuid d = Some (Inr (d', bit (id_c (cpuid 1)) 31)) \<and> \<not> taken (console_lock d') \<and>
    printed d' = printed d @ [10] @ map ascii ''| What just happened? Why am I here?'' @ [10] @ identity_text cpuid"
proof -
  let ?d = "(Debug_init True d)\<lparr>debugAll := False\<rparr>" and ?t = "10 # map ascii ''| What just happened? Why am I here?'' @ [10]"
  have "prints (Debug_vprintf (?t @ 0 # []) []) ?t" by (rule prints_text) (simp_all add: ascii_def)
  moreover have "sink_set ?d" "\<not> taken (console_lock ?d)" using assms by (simp_all add: Debug_init_def)
  ultimately obtain d1 where d1: "Debug_vprintf (?t @ 0 # []) [] ?d = Some (Inr d1)" "says ?d ?t d1" unfolding prints_def by blast
  then obtain d' where "identify cpuid d1 = Some (Inr (d', bit (id_c (cpuid 1)) 31))" "says d1 (identity_text cpuid) d'"
    using identify_prints [of d1 cpuid] by (auto simp: says_def)
  then show ?thesis using d1 by (auto simp: boot_identity_def newline_def says_def Debug_init_def)
qed

lemma kernelMain_without_init:
  "fs_find fs (Some root) (map ascii ''/sbin/init'' @ [0]) = Some (Inr None) \<Longrightarrow>
   kernelMain cfg fs root over core st = Some (Inl (Panic ''*** rc = %d''))"
  by (simp add: kernelMain_def kbind_def exec_def kreturn_def klift_def)

end
