(* ===== verification/User_Copy.thy ===== *)
theory User_Copy
  imports User_Output Syscalls
begin

text \<open>
  \<^verbatim>\<open>cp\<close> of \<^verbatim>\<open>libc.c\<close> on the kernel: the calls \<^verbatim>\<open>read\<close> and \<^verbatim>\<open>write\<close> of a user program are runs of \<open>sysHandler\<close> on the state of the
  kernel, through the page tables, the tables of the process, the file system and the console.
\<close>

subsection \<open>The calls of a user program (sys.S)\<close>

text \<open>What the program stores before it calls: the three arguments above the return address.\<close>

definition call_args :: "u32 \<Rightarrow> u32 \<Rightarrow> u32 \<Rightarrow> u32 \<Rightarrow> (u32 \<times> u8) list" where
  "call_args esp fd buf n = word_stores (esp + 4) fd @ word_stores (esp + 8) buf @ word_stores (esp + 12) n"

definition user_call :: "sys_env \<Rightarrow> nat \<Rightarrow> u32 \<Rightarrow> u32 \<Rightarrow> (u32 \<times> u8) list \<Rightarrow> sys_outcome kcode" where
  "user_call E core eax esp stores = kbind (vstores (env_fs E) core stores) (\<lambda>_. sysHandler E core eax esp)"

text \<open>
  \<open>esp\<close> is the stack pointer at the entry of the stub and \<open>buf\<close> the buffer of the program. A call that does not
  return to the program counts as failed; the properties below show that this does not happen. The bytes a program gives to
  \<^verbatim>\<open>write\<close> are in its buffer.
\<close>

definition user_read :: "sys_env \<Rightarrow> nat \<Rightarrow> u32 \<Rightarrow> u32 \<Rightarrow> kernel sys_read" where
  "user_read E core esp buf fd n st =
     (case user_call E core 12 esp (call_args esp (word_of_int fd) buf (of_nat n)) st of
        Some (Inr (st', Ok (Returns r))) \<Rightarrow> (st', map (\<lambda>i. uview core st' (buf + of_nat i)) [0..<nat (sint r)], sint r)
      | _ \<Rightarrow> (st, [], - 1))"

definition user_write :: "sys_env \<Rightarrow> nat \<Rightarrow> u32 \<Rightarrow> u32 \<Rightarrow> kernel sys_write" where
  "user_write E core esp buf fd bs st =
     (case user_call E core 1 esp (byte_stores buf bs @ call_args esp (word_of_int fd) buf (of_nat (length bs))) st of
        Some (Inr (st', Ok (Returns r))) \<Rightarrow> (st', sint r)
      | _ \<Rightarrow> (st, - 1))"

subsection \<open>What the calls do\<close>

text \<open>The buffer of 100 bytes and the arguments are in the usable memory \<open>A\<close> and do not overlap.\<close>

definition call_frame :: "u32 set \<Rightarrow> u32 \<Rightarrow> u32 \<Rightarrow> bool" where
  "call_frame A esp buf \<longleftrightarrow> unat buf + 100 \<le> 4294967296 \<and> (\<forall>k < 100. buf + of_nat k \<in> A) \<and>
     (\<forall>i j. 1 \<le> i \<longrightarrow> i \<le> 3 \<longrightarrow> j < 4 \<longrightarrow> esp + 4 * i + j \<in> A \<and> esp + 4 * i + j \<noteq> buf)"

lemma call_frame_args:
  assumes "call_frame A esp buf"
  shows "{esp + 4, esp + 4 + 1, esp + 4 + 2, esp + 4 + 3} \<subseteq> A - {buf}" "{esp + 8, esp + 8 + 1, esp + 8 + 2, esp + 8 + 3} \<subseteq> A - {buf}"
    "{esp + 12, esp + 12 + 1, esp + 12 + 2, esp + 12 + 3} \<subseteq> A - {buf}"
proof -
  have c: "esp + 4 * i + j \<in> A - {buf}" if "1 \<le> i" "i \<le> 3" "j < 4" for i j
    using assms that unfolding call_frame_def by blast
  have "{esp + 4 * i, esp + 4 * i + 1, esp + 4 * i + 2, esp + 4 * i + 3} \<subseteq> A - {buf}" if "1 \<le> i" "i \<le> 3" for i
    using c [OF that, of 0] c [OF that, of 1] c [OF that, of 2] c [OF that, of 3] by simp
  from this [of 1] this [of 2] this [of 3]
  show "{esp + 4, esp + 4 + 1, esp + 4 + 2, esp + 4 + 3} \<subseteq> A - {buf}" "{esp + 8, esp + 8 + 1, esp + 8 + 2, esp + 8 + 3} \<subseteq> A - {buf}"
    "{esp + 12, esp + 12 + 1, esp + 12 + 2, esp + 12 + 3} \<subseteq> A - {buf}"
    by simp_all
qed

lemma call_args_load:
  "load32 (apply_stores (call_args esp fd buf n) m) (esp + 4) = fd" "load32 (apply_stores (call_args esp fd buf n) m) (esp + 8) = buf"
  "load32 (apply_stores (call_args esp fd buf n) m) (esp + 12) = n"
proof -
  have d: "a + i \<noteq> a + c + j" if "i < 4" "j < 4" "c \<in> {4, 8}" for a i j c :: u32
  proof
    assume "a + i = a + c + j"
    then have "i = c + j" by (simp add: add.assoc)
    moreover have "unat (c + j) = unat c + unat j" using that by (auto simp: unat_word_ariths word_less_nat_alt)
    ultimately show False using that by (auto simp: word_less_nat_alt)
  qed
  have e: "esp + 8 = esp + 4 + 4" "esp + 12 = esp + 4 + 8" "esp + 12 = esp + 8 + 4" by (simp_all add: add.assoc)
  have o: "load32 (store32 m' (esp + 8) v) (esp + 4) = load32 m' (esp + 4)" "load32 (store32 m' (esp + 12) v) (esp + 4) = load32 m' (esp + 4)"
    "load32 (store32 m' (esp + 12) v) (esp + 8) = load32 m' (esp + 8)" for m' v
    by (rule load_store_disjoint; subst e; rule d; simp)+
  show "load32 (apply_stores (call_args esp fd buf n) m) (esp + 4) = fd" "load32 (apply_stores (call_args esp fd buf n) m) (esp + 8) = buf"
    "load32 (apply_stores (call_args esp fd buf n) m) (esp + 12) = n"
    by (simp_all add: call_args_def o)
qed

text \<open>A call reaches the handler with its arguments in place.\<close>

lemma user_call_args:
  assumes ok: "space_ok lo hi core A F st" and fr: "call_frame A esp buf" and xs: "fst ` set xs \<subseteq> A"
  obtains s F' where "user_call E core eax esp (xs @ call_args esp fd buf n) st = sysHandler E core eax esp (set_phys s st)"
    "space_ok lo hi core A F' (set_phys s st)" "load32 (uview core (set_phys s st)) (esp + 4) = fd"
    "load32 (uview core (set_phys s st)) (esp + 8) = buf" "load32 (uview core (set_phys s st)) (esp + 12) = n"
    "uview core (set_phys s st) buf = apply_stores xs (uview core st) buf"
proof -
  note c = call_frame_args [OF fr]
  have "\<forall>k < 100. buf + of_nat k \<in> A" using fr by (simp add: call_frame_def)
  from this [rule_format, of 0] have bA: "buf \<in> A" by simp
  have "fst ` set (call_args esp fd buf n) \<subseteq> A"
    using c by (simp add: call_args_def word_stores_def add.assoc)
  then have "fst ` set (xs @ call_args esp fd buf n) \<subseteq> A" using xs by auto
  from vstores_ok [OF ok this, of "env_fs E"] obtain s F' where
    v: "vstores (env_fs E) core (xs @ call_args esp fd buf n) st = Some (Inr (set_phys s st, Ok ()))" "space_ok lo hi core A F' (set_phys s st)"
    "\<forall>a \<in> A. uview core (set_phys s st) a = apply_stores (call_args esp fd buf n) (apply_stores xs (uview core st)) a"
    by auto
  have l: "load32 (uview core (set_phys s st)) p = load32 (apply_stores (call_args esp fd buf n) (apply_stores xs (uview core st))) p"
    if "{p, p + 1, p + 2, p + 3} \<subseteq> A - {buf}" for p
    by (rule load32_cong) (use that v(3) in auto)
  have "apply_stores (call_args esp fd buf n) m buf = m buf" for m
    using c by (auto simp: call_args_def store32_def add.assoc)
  then show thesis
    using that v l [OF c(1)] l [OF c(2)] l [OF c(3)] bA by (simp add: user_call_def call_args_load)
qed

text \<open>
  The states in which the descriptor of the object \<open>f\<close> is at a position of the file \<open>number\<close> of \<open>len\<close> bytes and the object \<open>g\<close> is the console.
\<close>

definition copying :: "u32 \<Rightarrow> u32 \<Rightarrow> nat \<Rightarrow> u32 set \<Rightarrow> process \<Rightarrow> nat \<Rightarrow> nat \<Rightarrow> u32 \<Rightarrow> nat \<Rightarrow> kernel \<Rightarrow> bool" where
  "copying lo hi core A p f g number len st \<longleftrightarrow> (\<exists>F. space_ok lo hi core A F st) \<and> cur_proc core st = p \<and>
     f < length (file_objs (kobj (sch st))) \<and> file_objs (kobj (sch st)) ! g = U8250File \<and>
     (\<exists>off. file_objs (kobj (sch st)) ! f = FileDescriptor number off \<and> unat off \<le> len)"

text \<open>The bytes of the file behind the position of its descriptor.\<close>

definition left_over :: "u8 list \<Rightarrow> nat \<Rightarrow> kernel \<Rightarrow> u8 list" where
  "left_over content f st =
     (case file_objs (kobj (sch st)) ! f of U8250File \<Rightarrow> [] | FileDescriptor number off \<Rightarrow> drop (unat off) content)"

lemma user_read_ok:
  assumes fr: "call_frame A esp buf" and fs: "get_node (env_fs E) number = Inr nd" "holds_content (fs_ide (env_fs E)) D" "node_wf D nd"
    and fd: "word_of_int from \<noteq> (1 :: u32)" "\<not> bad_pointer (env_config E) buf" "getFile p (word_of_int from) = Some f"
  shows "reads (copying lo hi core A p f g number (length (node_content D nd))) (user_read E core esp buf) from
    (left_over (node_content D nd) f) console"
  unfolding reads_def
proof (intro allI impI)
  let ?c = "node_content D nd" and ?ok = "copying lo hi core A p f g number (length (node_content D nd))"
  fix st
  assume "?ok st"
  then obtain F off where st: "space_ok lo hi core A F st" "cur_proc core st = p" "f < length (file_objs (kobj (sch st)))"
    "file_objs (kobj (sch st)) ! g = U8250File" "file_objs (kobj (sch st)) ! f = FileDescriptor number off" "unat off \<le> length ?c"
    unfolding copying_def by blast
  obtain s F1 where u: "user_call E core 12 esp ([] @ call_args esp (word_of_int from) buf 100) st = sysHandler E core 12 esp (set_phys s st)"
    "space_ok lo hi core A F1 (set_phys s st)" "load32 (uview core (set_phys s st)) (esp + 4) = word_of_int from"
    "load32 (uview core (set_phys s st)) (esp + 8) = buf" "load32 (uview core (set_phys s st)) (esp + 12) = 100"
    by (rule user_call_args [OF st(1) fr, of "[]"]) auto
  have ad: "esp + 4 * i + j \<in> A" if "1 \<le> i" "i \<le> 3" "j < 4" for i j using fr that unfolding call_frame_def by blast
  obtain s1 s2 s3 F2 where a: "user_arg (env_fs E) core esp 1 (set_phys s st) = Some (Inr (set_phys s1 st, Ok (word_of_int from)))"
    "user_arg (env_fs E) core esp 2 (set_phys s1 st) = Some (Inr (set_phys s2 st, Ok buf))"
    "user_arg (env_fs E) core esp 3 (set_phys s2 st) = Some (Inr (set_phys s3 st, Ok 100))" "space_ok lo hi core A F2 (set_phys s3 st)"
    by (rule three_args [OF u(2) ad u(3-5), where fs = "env_fs E"]) (simp_all add: that)
  define bs where "bs = take 100 (drop (unat off) ?c)"
  have b1: "unat buf + unat (100 :: u32) \<le> 4294967296" using fr by (simp add: call_frame_def)
  have b2: "x \<in> A" if "buf \<le> x" "unat x < unat buf + unat (100 :: u32)" for x
  proof -
    have "x = buf + of_nat (unat x - unat buf)" "unat x - unat buf < 100"
      using that by (simp_all add: word_le_nat_alt of_nat_diff)
    then show ?thesis using fr unfolding call_frame_def by metis
  qed
  have f3: "file_objs (kobj (sch (set_phys s3 st))) ! f = FileDescriptor number off" "f < length (file_objs (kobj (sch (set_phys s3 st))))"
    using st(3,5) by simp_all
  obtain st' where r: "file_read (env_fs E) core f buf 100 (set_phys s3 st) = Some (Inr (st', Ok (of_nat (length bs))))"
    "\<forall>a \<in> A. uview core st' a = write_bytes (uview core (set_phys s3 st)) buf bs a" "cur_proc core st' = p"
    "file_objs (kobj (sch st')) = (file_objs (kobj (sch st)))[f := FileDescriptor number (off + of_nat (length bs))]"
    "console st' = console st" "\<exists>F'. space_ok lo hi core A F' st'"
    using file_read_ok [OF a(4) f3 fs st(6) b1 b2] st(2) unfolding bs_def by auto
  have lb: "length bs \<le> 100" "unat off + length bs \<le> length ?c" using st(6) by (simp_all add: bs_def)
  then have sb: "sint (of_nat (length bs) :: u32) = int (length bs)" by (simp add: sint_small)
  have "user_call E core 12 esp (call_args esp (word_of_int from) buf 100) st = Some (Inr (st', Ok (Returns (of_nat (length bs)))))"
    using u(1) a(1-3) r(1) fd st(2) by (simp add: sysHandler_def Let_def with_file_def kreturn_def)
  moreover have "map (\<lambda>i. uview core st' (buf + of_nat i)) [0..<length bs] = bs"
  proof (rule nth_equalityI)
    fix i assume "i < length (map (\<lambda>i. uview core st' (buf + of_nat i)) [0..<length bs])"
    then have i: "i < length bs" by simp
    have "buf + of_nat i \<in> A" "unat buf + length bs \<le> 4294967296" using fr i lb(1) unfolding call_frame_def by auto
    then show "map (\<lambda>i. uview core st' (buf + of_nat i)) [0..<length bs] ! i = bs ! i"
      using r(2) i write_bytes_inside by simp
  qed simp
  ultimately have rd: "user_read E core esp buf from 100 st = (st', bs, int (length bs))" by (simp add: user_read_def sb)
  have "length ?c < 4294967296" using unat_lt_2p32 [of "size_low (node_data nd)"] by (simp add: node_content_def Let_def)
  then have o: "unat (off + of_nat (length bs)) = unat off + length bs" using lb by (simp add: unat_add_no_wrap)
  have "g \<noteq> f" using st(4,5) by auto
  then have "?ok st'" unfolding copying_def using r(3,4,6) st(3,4) o lb(2) by auto
  moreover have "drop (unat off + length bs) ?c = drop 100 (drop (unat off) ?c)"
    by (cases "100 \<le> length ?c - unat off") (simp_all add: bs_def add.commute)
  then have "drop (unat off) ?c = bs @ drop (unat off + length bs) ?c" by (simp only: bs_def append_take_drop_id)
  then have "left_over ?c f st = bs @ left_over ?c f st'" using st(3,5) r(4) o by (simp add: left_over_def)
  moreover have "left_over ?c f st = []" if "bs = []" using that st(5) by (simp add: left_over_def bs_def)
  ultimately show "let (w', bs, r) = user_read E core esp buf from 100 st in ?ok w' \<and> r = int (length bs) \<and> length bs \<le> 100 \<and>
      left_over ?c f st = bs @ left_over ?c f w' \<and> console w' = console st \<and> (bs = [] \<longrightarrow> left_over ?c f st = [])"
    unfolding rd using r(5) lb(1) by auto
qed

lemma user_write_ok:
  assumes fr: "call_frame A esp buf" and fd: "\<not> bad_pointer (env_config E) buf" "getFile p (word_of_int to) = Some g"
  shows "writes (copying lo hi core A p f g number len) (user_write E core esp buf) to (left_over content f) console"
  unfolding writes_def
proof (intro allI impI)
  let ?ok = "copying lo hi core A p f g number len"
  fix bs :: "u8 list" and st
  assume "?ok st" and bs: "bs \<noteq> []" "length bs \<le> 100"
  then obtain F off where st: "space_ok lo hi core A F st" "cur_proc core st = p" "f < length (file_objs (kobj (sch st)))"
    "file_objs (kobj (sch st)) ! g = U8250File" "file_objs (kobj (sch st)) ! f = FileDescriptor number off" "unat off \<le> len"
    unfolding copying_def by blast
  have buf: "unat buf + length bs \<le> 4294967296" "\<forall>k < 100. buf + of_nat k \<in> A" using fr bs(2) by (simp_all add: call_frame_def)
  then have bA: "buf \<in> A" using buf(2) [rule_format, of 0] by simp
  have "fst ` set (byte_stores buf bs) \<subseteq> A" using byte_stores_addrs [of _ buf bs] buf(2) bs(2) by fastforce
  then obtain s F1 where u: "user_call E core 1 esp (byte_stores buf bs @ call_args esp (word_of_int to) buf (of_nat (length bs))) st =
      sysHandler E core 1 esp (set_phys s st)"
    "space_ok lo hi core A F1 (set_phys s st)" "load32 (uview core (set_phys s st)) (esp + 4) = word_of_int to"
    "load32 (uview core (set_phys s st)) (esp + 8) = buf" "load32 (uview core (set_phys s st)) (esp + 12) = of_nat (length bs)"
    "uview core (set_phys s st) buf = apply_stores (byte_stores buf bs) (uview core st) buf"
    by (rule user_call_args [OF st(1) fr])
  have ad: "esp + 4 * i + j \<in> A" if "1 \<le> i" "i \<le> 3" "j < 4" for i j using fr that unfolding call_frame_def by blast
  obtain s1 s2 s3 F2 where a: "user_arg (env_fs E) core esp 1 (set_phys s st) = Some (Inr (set_phys s1 st, Ok (word_of_int to)))"
    "user_arg (env_fs E) core esp 2 (set_phys s1 st) = Some (Inr (set_phys s2 st, Ok buf))"
    "user_arg (env_fs E) core esp 3 (set_phys s2 st) = Some (Inr (set_phys s3 st, Ok (of_nat (length bs))))" "space_ok lo hi core A F2 (set_phys s3 st)"
    "\<forall>b \<in> A. uview core (set_phys s3 st) b = uview core (set_phys s st) b"
    by (rule three_args [OF u(2) ad u(3-5), where fs = "env_fs E"]) (simp_all add: that)
  have ub: "uview core (set_phys s3 st) buf = hd bs"
    using a(5) bA u(6) write_bytes_inside [OF buf(1), of 0] bs(1) by (simp add: hd_conv_nth)
  have n: "(of_nat (length bs) :: u32) \<noteq> 0" using bs by (simp add: word_unat_eq_iff)
  have g3: "file_objs (kobj (sch (set_phys s3 st))) ! g = U8250File" using st(4) by simp
  obtain s4 F4 where w: "file_write (env_fs E) core g buf (of_nat (length bs)) (set_phys s3 st) =
      Some (Inr ((set_phys s4 st)\<lparr>console := console st @ [hd bs]\<rparr>, Ok 1))" "space_ok lo hi core A F4 (set_phys s4 st)"
    by (rule file_write_console [OF a(4) g3 n bA, of "env_fs E"]) (simp add: ub that)
  let ?st = "(set_phys s4 st)\<lparr>console := console st @ [hd bs]\<rparr>"
  have "user_write E core esp buf to bs st = (?st, 1)"
    using u(1) a(1-3) w(1) fd st(2) by (simp add: user_write_def sysHandler_def Let_def with_file_def kreturn_def)
  moreover have c: "cur_proc core ?st = cur_proc core st" "sch ?st = sch st" by (simp_all add: cur_proc_def cur_index_def)
  have "space_ok lo hi core A F4 ?st = space_ok lo hi core A F4 (set_phys s4 st)"
    by (simp add: space_ok_def missing_def Let_def cur_proc_def cur_index_def)
  then have "?ok ?st" unfolding copying_def c using w(2) st by blast
  moreover have "left_over content f ?st = left_over content f st" by (simp only: left_over_def c(2))
  ultimately show "let (w', r) = user_write E core esp buf to bs st in ?ok w' \<and> 0 < r \<and> nat r \<le> length bs \<and>
      console w' = console st @ take (nat r) bs \<and> left_over content f w' = left_over content f st"
    using bs(1) by (cases bs) simp_all
qed

subsection \<open>Properties\<close>

text \<open>
  \<^bold>\<open>C24.\<close> \<^verbatim>\<open>cp\<close> from a file to the console, from the loops of libc.c down to the disk and the UART. The descriptor \<open>from\<close> is a file of the
  disk \<open>D\<close> at a position inside the file, \<open>to\<close> is the console, and the buffer and the arguments of the calls are in usable memory
  of the process. Then \<^verbatim>\<open>cp\<close>, whose calls are runs of the system call handler, ends although the
  console takes one byte with each \<^verbatim>\<open>write\<close>; exactly the bytes of the file from the position to its end have been put on the console, in order and
  once, and the position is at the end of the file.
\<close>

theorem cp_file_to_console:
  assumes ok: "space_ok lo hi core A F st" and fr: "call_frame A esp buf" "\<not> bad_pointer (env_config E) buf"
    and fs: "get_node (env_fs E) number = Inr nd" "holds_content (fs_ide (env_fs E)) D" "node_wf D nd"
    and src: "word_of_int from \<noteq> (1 :: u32)" "getFile (cur_proc core st) (word_of_int from) = Some f" "f < length (file_objs (kobj (sch st)))"
      "file_objs (kobj (sch st)) ! f = FileDescriptor number off" "unat off \<le> length (node_content D nd)"
    and dst: "getFile (cur_proc core st) (word_of_int to) = Some g" "file_objs (kobj (sch st)) ! g = U8250File"
  shows "\<exists>st' off'. cp (user_read E core esp buf) (user_write E core esp buf) from to st = Some (Inr st') \<and>
    console st' = console st @ drop (unat off) (node_content D nd) \<and>
    file_objs (kobj (sch st')) ! f = FileDescriptor number off' \<and> unat off' = length (node_content D nd)"
proof -
  let ?c = "node_content D nd"
  let ?ok = "copying lo hi core A (cur_proc core st) f g number (length ?c)"
  have "?ok st" unfolding copying_def using ok src(3-5) dst(2) by (intro conjI exI [of _ F] exI [of _ off]) simp_all
  then obtain st' where r: "cp (user_read E core esp buf) (user_write E core esp buf) from to st = Some (Inr st')" "?ok st'"
    "console st' = console st @ left_over ?c f st" "left_over ?c f st' = []"
    using cp_copies [OF user_read_ok [OF fr(1) fs src(1) fr(2) src(2)] user_write_ok [OF fr dst(1)]] by blast
  obtain off' where "file_objs (kobj (sch st')) ! f = FileDescriptor number off'" "unat off' \<le> length ?c"
    using r(2) unfolding copying_def by blast
  then show ?thesis using r(1,3,4) src(4) by (auto simp: left_over_def)
qed

text \<open>A process with the file of \<open>self_fs\<close> as descriptor 0, at position 4, and the console as descriptor 1.\<close>

definition cp_kernel :: kernel where
  "cp_kernel = files_kernel (Some 0 # Some 1 # replicate 8 None) [FileDescriptor 1 4, U8250File]"

lemma cp_frame: "call_frame stack_page 0xefffdf00 0xefffd000"
proof -
  have "0xefffd000 + of_nat k \<in> stack_page" if "k < 100" for k
  proof -
    have "unat (0xefffd000 + of_nat k :: u32) = 4026519552 + k" using that by (simp add: unat_word_ariths)
    then show ?thesis using that by (simp add: stack_page_def word_le_nat_alt word_less_nat_alt)
  qed
  moreover have "0xefffdf00 + 4 * i + j \<in> stack_page \<and> 0xefffdf00 + 4 * i + j \<noteq> (0xefffd000 :: u32)" if "1 \<le> i" "i \<le> 3" "j < 4" for i j :: u32
  proof -
    have u: "1 \<le> unat i" "unat i \<le> 3" "unat j < 4" using that by (simp_all add: word_le_nat_alt word_less_nat_alt)
    then have n: "unat (0xefffdf00 + 4 * i + j) = 4026523392 + 4 * unat i + unat j" by (simp add: unat_word_ariths)
    then have "0xefffdf00 + 4 * i + j \<in> stack_page" using u by (simp add: stack_page_def word_le_nat_alt word_less_nat_alt)
    moreover have "unat (0xefffdf00 + 4 * i + j) \<noteq> unat (0xefffd000 :: u32)" unfolding n by simp
    ultimately show ?thesis by metis
  qed
  ultimately show ?thesis by (simp add: call_frame_def)
qed

theorem cp_file_to_console_witness:
  "\<exists>st'. cp (user_read read_env 0 0xefffdf00 0xefffd000) (user_write read_env 0 0xefffdf00 0xefffd000) 0 1 cp_kernel = Some (Inr st') \<and>
     console st' = console cp_kernel @ drop 4 self_bytes"
proof -
  note k = files_kernel_facts [of "Some 0 # Some 1 # replicate 8 None" "[FileDescriptor 1 4, U8250File]", folded cp_kernel_def]
  have ok: "space_ok 0x100000 0x200000 0 stack_page (frame_pool 0x101000 0x200000) cp_kernel"
    by (rule fresh_stack_ok) (simp_all add: k)
  have pb: "\<not> bad_pointer (env_config read_env) 0xefffd000" by (simp add: bad_pointer_def read_env_def sample_config_def)
  have "holds_content (fs_ide self_fs) (block5_bytes self_bytes)"
    unfolding self_fs_def using block5_holds(1) [of self_bytes] by (simp add: self_bytes_facts)
  then have e: "get_node (env_fs read_env) 1 = Inr self_node" "holds_content (fs_ide (env_fs read_env)) (block5_bytes self_bytes)"
    using self_get_node by (simp_all add: read_env_def)
  have c: "node_content (block5_bytes self_bytes) self_node = self_bytes" by (rule block5_any(2) [OF self_node_wf])
  have g: "getFile (cur_proc 0 cp_kernel) (word_of_int 0) = Some 0" "0 < length (file_objs (kobj (sch cp_kernel)))"
    "file_objs (kobj (sch cp_kernel)) ! 0 = FileDescriptor 1 4" "getFile (cur_proc 0 cp_kernel) (word_of_int 1) = Some 1"
    "file_objs (kobj (sch cp_kernel)) ! 1 = U8250File"
    using k(6,7) by (simp_all add: getFile_slot)
  have o: "unat (4 :: u32) \<le> length (node_content (block5_bytes self_bytes) self_node)" unfolding c by (simp add: self_bytes_facts)
  have f: "word_of_int 0 \<noteq> (1 :: u32)" by simp
  show ?thesis
    using cp_file_to_console [OF ok cp_frame pb e block5_any(1) [OF self_node_wf] f g(1-3) o g(4,5)] unfolding c by auto
qed

end
