(* ===== verification/Spec2Isabelle.thy ===== *)
theory Spec2Isabelle
  imports Heap_Interface Snprintf Syscalls Locks Bounded_Buffer Barriers Conditions Shared_Pointers Boot Startup User_Realloc User_Output
    Context_Switch User_Calls Kernel_Types Boot_Messages User_Copy
begin

text \<open>
  This development verifies the kernel of MMap-Process-Scheduler, a small multiprocessor kernel in C++ for
  32-bit x86 with demand-paged memory mappings, processes, a run-time ordered scheduler, a
  read-only ext2 file system on an IDE disk, and a user-level system-call interface.

  \<^bold>\<open>The program and its model.\<close> Every theory models one part of \<^verbatim>\<open>src/kernel\<close>; definitions carry the names of
  the functions they translate. Kernel code that can stop has a result type: \<open>Inl\<close> of a panic, a failed
  assertion or undefined behaviour, \<open>Inr\<close> of the value; \<open>None\<close> around it means that a loop does not
  end. Machine integers are words of their width. Memory is a function from 32-bit addresses to bytes.

  \<^item> \<open>Kernel_Prelude\<close>, \<open>Machine_Memory\<close>, \<open>LibK\<close>, \<open>Kernel_Config\<close>: errors and sequencing, loads and stores, \<^verbatim>\<open>bzero\<close> and
    \<^verbatim>\<open>memcpy\<close> of machine.S, libk.h, random.h, the records of config.h.
  \<^item> \<open>Phys_Frames\<close>, \<open>Phys_Mem\<close>: physmem.h and physmem.cc. The free list lives in the free frames. The locale
    \<open>frame_allocator\<close> states what the virtual memory code relies on; it is interpreted as \<open>pm\<close> on
    \<^verbatim>\<open>alloc_frame\<close> and \<^verbatim>\<open>dealloc_frame\<close>.
  \<^item> \<open>Page_Tables\<close>, \<open>Address_Space\<close>: the page-table part of vmm.cc (\<^verbatim>\<open>map\<close>, \<^verbatim>\<open>user_map\<close>, \<^verbatim>\<open>unmap\<close>, \<^verbatim>\<open>make_pd\<close>,
    \<^verbatim>\<open>delete_private\<close>, \<^verbatim>\<open>delete_pd\<close>, \<^verbatim>\<open>global_init\<close>) against \<open>walk\<close>, the translation the processor makes.
  \<^item> \<open>Mmap\<close>: \<^verbatim>\<open>mmap\<close>, \<^verbatim>\<open>munmap\<close> and \<^verbatim>\<open>vmm_pageFault\<close> on the list of mappings and the list of shared file nodes.
  \<^item> \<open>Kernel_Heap\<close>, \<open>Heap_Correctness\<close>, \<open>Heap_Interface\<close>: heap.cc, the boundary-tag heap; the locale \<open>block_allocator\<close> gives
    the client's view (blocks are disjoint and keep their contents).
  \<^item> \<open>Linked_Chain\<close>, \<open>Thread_Queue\<close>, \<open>Priority_Queue\<close>, \<open>Semaphores\<close>: queue.h, priority_queue.h, semaphore.h and
    blocking_lock.h, refined to lists through the chain predicate.
  \<^item> \<open>Process_Tables\<close>, \<open>Fork\<close>: process.h and process.cc with future.h; objects behind \<^verbatim>\<open>Shared<T>\<close> are indices into
    append-only stores.
  \<^item> \<open>Scheduler\<close>: threads.h, threads.cc and the timer handler of pit.cc; the step relation
    \<open>sched_step\<close> covers what the cores can do in any order. A switch is here the change of the active thread.
  \<^item> \<open>Machine_Code\<close>, \<open>Context_Switch\<close>, \<open>Trap_Entry\<close>, \<open>User_Calls\<close>: the registers, stack and instructions that the assembly uses,
    and context.s, machine.S, and sys.S and crt0.S of user programs as instruction lists that are executed on them, with the stacks and save areas threads.cc sets up.
    C++ functions called from assembly are parameters that follow the calling convention (\<open>cdecl\<close>).
  \<^item> \<open>Block_IO\<close>, \<open>Ide\<close>, \<open>Ext2\<close>, \<open>Ext2_Correctness\<close>: block_io.*, ide.*, ext2.*. The driver talks to controllers whose answers
    may depend on all accesses before; the registers of the ATA standard (\<open>ata_event\<close>) say what is promised. Above it a disk is a list of bytes and
    \<open>holds_content\<close> the contract every layer keeps.
  \<^item> \<open>User_Memory\<close>, \<open>Exec\<close>, \<open>Syscalls\<close>: the whole kernel state, access to user memory with page faults, elf.*, and
    \<^verbatim>\<open>sysHandler\<close> of sys.cc. \<open>Kernel_Types\<close>: the type invariant of its tables; the collection \<open>keeps_intros\<close> has one rule for each
    operation and each way to compose them.
  \<^item> \<open>Snprintf\<close>: snprintf.cc; arithmetic on \<^verbatim>\<open>int\<close> that overflows is undefined behaviour (\<open>c_int\<close>). \<open>Debug_Output\<close>: debug.cc, messages, panics and checks; the guards and plain cells of atomic.h.
  \<^item> \<open>Locks\<close>: atomic.h, the spinning locks and the interrupt flag. The locales \<open>test_and_set\<close> and \<open>interrupt_masking\<close> hold the
    arguments the three locks share; they are interpreted on \<^verbatim>\<open>SpinLock\<close>, \<^verbatim>\<open>InterruptSafeLock\<close> and \<^verbatim>\<open>ISL\<close>.
  \<^item> \<open>Sync_Threads\<close>: threads that run a program over a shared state and semaphores, in every interleaving; the locale
    \<open>sem_client\<close> and its extension \<open>sem_ledger\<close> count permits. \<open>Bounded_Buffer\<close> (bb.h) and \<open>Barriers\<close> (barrier.h,
    future.h) interpret them.
  \<^item> \<open>Conditions\<close>: condition.h and the reusable barrier of barrier.h.
  \<^item> \<open>Shared_Pointers\<close>: shared.h, the reference counts. \<open>Config_Tables\<close>: config.cc, the ACPI tables.
  \<^item> \<open>Devices\<close>: idt.cc, smp.* and the set-up part of pit.cc over a log of device accesses. \<open>Boot\<close>, \<open>Startup\<close>, \<open>Boot_Messages\<close>: \<^verbatim>\<open>kernelInit\<close> of init.cc, the
    memory layout, the start of the processors, and identification with its messages; \<^verbatim>\<open>kernelMain\<close>.
  \<^item> \<open>User_Heap\<close>: \<^verbatim>\<open>t0.dir/sbin/heap.c\<close>, the heap of user programs, a second interpretation of \<open>block_allocator\<close>.
    \<open>User_Realloc\<close>: its \<^verbatim>\<open>realloc\<close>. \<open>User_Output\<close>: libc.c and printf.c, over the system calls as functions on an abstract world.
    \<open>User_Copy\<close>: the calls \<^verbatim>\<open>read\<close> and \<^verbatim>\<open>write\<close> as runs of \<^verbatim>\<open>sysHandler\<close>, with \<^verbatim>\<open>cp\<close> on top of them.

  \<^bold>\<open>What is shown.\<close> C1-C3 and C14 concern mappings and page faults; C4 and C5 the kernel heap and C30 its equivalence with
  the heap of user programs, C25 its \<^verbatim>\<open>realloc\<close>; C8 the frame allocator; C10, C11 and C13 address spaces; C15, C16 and C36 queues, semaphores
  and the scheduler; C17-C19 and C33 the disk and the file system; C20, C21 and C38 processes; C23 and C28 formatted
  output, C37 its equivalence with the formatter of user programs and C24 copying a file to the console by a user program; C39 and C40 exec
  and system calls; C34 the type invariant of the kernel's tables; C6 the context switch, C22 and C27 the entry into
  the kernel by traps and system calls and C9 the two returns of \<^verbatim>\<open>fork\<close>; C31 and C32 the locks; C35 the bounded buffer; C26 reference
  counts; C7, C12 and C29 the
  initialisation of the kernel. Further theorems without a number show the barriers and futures (\<open>barrier_correct\<close>,
  \<open>reusable_barrier_correct\<close>, \<open>future_correct\<close>), wake-ups of the bounded buffer (\<open>bounded_buffer_no_lost_wakeup\<close>), the lock \<^verbatim>\<open>ISL\<close> (\<open>isl_exclusive\<close>), the
  ACPI tables (\<open>configInit_tables\<close>) and the first steps of a new thread (\<open>new_thread_starts_in_entry\<close>). Lemmas beside the theorems prove defects of the code as it is (for example
  \<open>mmap_ignores_single_mapping\<close>, \<open>munmap_private_undefined\<close>, \<open>pageFault_ignores_offset\<close>, \<open>double_free_hands_out_twice\<close>,
  \<open>lone_thread_never_preempted\<close>, \<open>copy_of_moved_undefined\<close>).

  \<^bold>\<open>Interleaving.\<close> In the scheduler, the memory code and the system calls the code holds a lock or disables
  interrupts around every change of shared data, so each such call is one step, and \<open>sched_step\<close> interleaves these
  steps of all cores. That the locks give this exclusion is what \<open>Locks\<close> shows; there, and for the classes built on
  semaphores and condition variables, a step is a single access to a shared field.

  \<^bold>\<open>Fuel and loops.\<close> Loops over fixed index ranges are folds (\<open>rfold\<close>). \<open>global_init\<close> takes fuel for its loop over
  pages; 1048576 rounds suffice because a 32-bit address space has that many pages, which \<open>global_init_spec\<close> and C12 use.
  Loops that can run forever on damaged data (directory entries, links, polling) are partial functions
  whose value is then \<open>None\<close>; the theorems show the value on the inputs they name.

  \<^bold>\<open>Parameters.\<close> The disk controllers are given by what reads of their ports return, the decimal digits of a floating point argument and the bytes
  that follow a buffer in the heap are arguments, as are the values that timers and interrupt controllers return and
  the sizes of heap objects and the C++ functions that assembly calls. The UART is the bytes sent and the bytes to come.

  \<^bold>\<open>Not modelled.\<close> The boot sector, the tables of descriptors and task state segments (the stack for traps is an argument of the trap entry), and
  the programs init.c and shell.c of \<^verbatim>\<open>src/t0.dir\<close>. These are device accesses or demonstrations. Floating
  point arithmetic in the formatters is a parameter because \<^verbatim>\<open>long double\<close> has no counterpart here.
\<close>

section \<open>Files in memory\<close>

lemma ext2_reader_slice:
  assumes "get_node fs number = Inr nd" "holds_content (fs_ide fs) D" "node_wf D nd"
  obtains cnt bs where "ext2_reader fs number off FRAME_SIZE = Inr (cnt, bs)"
    "cnt = int (length bs) \<or> cnt = - 1 \<and> bs = []" "length bs \<le> 4096"
    "bs = take 4096 (drop (unat off) (node_content D nd))"
proof -
  have f: "unat FRAME_SIZE = 4096" by (simp add: FRAME_SIZE_eq)
  note h = read_all_content [OF node_holds [OF assms(2,3)], of off FRAME_SIZE]
  show thesis
  proof (rule that)
    let ?bs = "take 4096 (drop (unat off) (node_content D nd))"
    let ?cnt = "if length (node_content D nd) < unat off then - 1 else int (length ?bs)"
    have "0 < FRAME_SIZE" by (simp add: FRAME_SIZE_eq)
    then show "ext2_reader fs number off FRAME_SIZE = Inr (?cnt, ?bs)"
      using assms(1) h f by (simp add: ext2_reader_def min.commute)
  qed auto
qed

text \<open>
  \<^bold>\<open>C2.\<close> Demand paging of a shared file (\<^verbatim>\<open>vmm_pageFault\<close> over \<^verbatim>\<open>Node::read_all\<close>). The first fault on a readable
  shared mapping of a file of the disk \<open>D\<close> is resolved: the page translates to a frame that was free
  and whose 4096 bytes are the bytes of the file from the offset of the page in the mapping on,
  followed by zeros where the file ends; every other page translates as before, the invariant of the
  address space holds again, and the frame is recorded as the file's frame with one user.
\<close>

theorem pageFault_reads_file:
  assumes "pd_inv lo hi s (pd p) F" "2 \<le> card F" "pd p = cr3" "saved = cr3" "framedown addr \<ge> 0x80000000"
    and "entry_list p = xs @ e # ys" "\<forall>x \<in> set xs. \<not> vm_covers (framedown addr) x" "vm_covers (framedown addr) e"
    and "vm_file e = Some number" "vm_flags e AND 1 \<noteq> 0" "vm_prot e AND 2 = 2" "find_node k number = None"
    and fs: "get_node fs number = Inr nd" "holds_content (fs_ide fs) D" "node_wf D nd"
  shows "\<exists>s' k' p' pa F'. vmm_pageFault (ext2_reader fs) cr3 saved s k p addr = Inr (s', k', p', Resumed) \<and>
    pa \<in> F \<and> F' \<subseteq> F - {pa} \<and> pd_inv lo hi s' (pd p) F' \<and>
    frame_bytes (mem s') pa =
      page_of (take 4096 (drop (unat (vm_offset e + framedown addr - starting_address e)) (node_content D nd))) \<and>
    (\<forall>x. walk (mem s') (pd p) x = (if ppn x = ppn addr then Some (pa OR 7) else walk (mem s) (pd p) x)) \<and>
    node_objs k' = node_objs k @ [\<lparr>node_file = number, num_processes = 1, node_pa = pa\<rparr>]"
proof -
  let ?off = "vm_offset e + framedown addr - starting_address e"
  obtain cnt bs where r: "ext2_reader fs number ?off FRAME_SIZE = Inr (cnt, bs)"
    "cnt = int (length bs) \<or> cnt = - 1 \<and> bs = []" "length bs \<le> 4096"
    "bs = take 4096 (drop (unat ?off) (node_content D nd))"
    by (rule ext2_reader_slice [OF fs]) blast
  show ?thesis using pageFault_shared_first [where read_all = "ext2_reader fs", OF assms(1-12) r(1-3)] unfolding r(4) by blast
qed

definition self_mapping :: vm_entry where
  "self_mapping = \<lparr>vm_file = Some 1, vm_size = 0x2000, starting_address = 0x80000000, vm_offset = 0x10,
     vm_flags = 1, vm_prot = 2, vm_node = Uninit\<rparr>"

theorem pageFault_reads_file_witness:
  "\<exists>s' k' p' pa. vmm_pageFault (ext2_reader self_fs) 0x100000 0x100000 sample_space sample_objects
      (sample_process\<lparr>entry_list := [self_mapping]\<rparr>) 0x80000004 = Inr (s', k', p', Resumed) \<and>
    walk (mem s') 0x100000 0x80000004 = Some (pa OR 7) \<and>
    frame_bytes (mem s') pa = page_of (take 4096 (drop 16 self_bytes))"
proof -
  let ?p = "sample_process\<lparr>entry_list := [self_mapping]\<rparr>"
  have inv: "pd_inv 0x100000 0x200000 sample_space (pd ?p) (frame_pool 0x101000 0x200000)"
    and p: "pd ?p = 0x100000" using sample_space_pd(1) by (simp_all add: sample_process_def)
  have va: "framedown 0x80000004 = 0x80000000" by (simp add: framedown_def FRAME_SIZE_eq)
  have el: "entry_list ?p = [] @ self_mapping # []" by simp
  have c: "vm_covers (framedown 0x80000004) self_mapping"
    unfolding va by (simp add: vm_covers_def vm_end_def self_mapping_def)
  have m: "vm_file self_mapping = Some 1" "vm_flags self_mapping AND 1 \<noteq> 0" "vm_prot self_mapping AND 2 = 2"
    "find_node sample_objects 1 = None"
    by (simp_all add: self_mapping_def sample_objects_def find_node_def)
  have h: "holds_content (fs_ide self_fs) (block5_bytes self_bytes)"
    unfolding self_fs_def using block5_holds(1) [of self_bytes] by (simp add: self_bytes_facts)
  have off: "unat (vm_offset self_mapping + framedown 0x80000004 - starting_address self_mapping) = 16"
    unfolding va by (simp add: self_mapping_def)
  have ge: "framedown 0x80000004 \<ge> 0x80000000" and xs: "\<forall>x \<in> set []. \<not> vm_covers (framedown 0x80000004) x"
    by (simp_all add: va)
  obtain s' k' p' pa where r: "vmm_pageFault (ext2_reader self_fs) 0x100000 0x100000 sample_space sample_objects ?p 0x80000004 =
      Inr (s', k', p', Resumed)" "frame_bytes (mem s') pa = page_of (take 4096 (drop 16 self_bytes))"
    "\<forall>x. walk (mem s') 0x100000 x = (if ppn x = ppn 0x80000004 then Some (pa OR 7) else walk (mem sample_space) 0x100000 x)"
    using pageFault_reads_file [OF inv sample_frames p refl ge el xs c m self_get_node h block5_any(1) [OF self_node_wf]]
    unfolding off block5_any(2) [OF self_node_wf] p by metis
  then show ?thesis by (metis (full_types))
qed

end
